(* ===== verification/Ava_Prelude.thy ===== *)
theory Ava_Prelude
  imports Main "HOL-Library.Sublist"
begin

text \<open>
  Shared vocabulary of the development.

  A Rust \<open>String\<close> / \<open>&str\<close> is a \<^typ>\<open>string\<close>: the list of its UTF-8 bytes (a
  \<^typ>\<open>char\<close> of Isabelle is one byte). \<open>len\<close> is then \<^const>\<open>length\<close>, equality, \<open>find\<close>,
  \<open>starts_with\<close>, \<open>strip_prefix\<close> and slicing are the byte-list operations, as they are
  in \<open>core::str\<close>. The operations that decode code points (\<open>trim\<close>, \<open>chars\<close>) are written out
  on the encodings. A \<open>usize\<close> is a \<^typ>\<open>nat\<close>; where the code saturates, the bound is written.

  Sections: collections of facts, errors as sums, saturating arithmetic, the string
  operations of the standard library, UTF-8 code points, list lemmas.
\<close>

section \<open>Fact collections\<close>

named_theorems rust_str \<open>characterisations of the string operations\<close>
named_theorems sat_arith \<open>saturating arithmetic\<close>

section \<open>Results\<close>

text \<open>A Rust \<open>Result<T, E>\<close> is \<open>E + T\<close>; \<open>and_then\<close> is the \<open>?\<close> operator.\<close>

type_synonym ('e, 'a) rresult = "'e + 'a"

definition and_then :: "'e + 'a \<Rightarrow> ('a \<Rightarrow> 'e + 'b) \<Rightarrow> 'e + 'b" where
  "and_then r f = (case r of Inl e \<Rightarrow> Inl e | Inr a \<Rightarrow> f a)"

lemma and_then_simps [simp]:
  "and_then (Inl e) f = Inl e"
  "and_then (Inr a) f = f a"
  by (simp_all add: and_then_def)

lemma and_then_Inr_iff:
  "and_then r f = Inr b \<longleftrightarrow> (\<exists>a. r = Inr a \<and> f a = Inr b)"
  by (cases r) auto

section \<open>Saturating arithmetic on usize\<close>

definition usize_max :: nat where
  "usize_max = 2 ^ 64 - 1"

definition sat_add :: "nat \<Rightarrow> nat \<Rightarrow> nat" where
  "sat_add a b = min (a + b) usize_max"

definition sat_mul :: "nat \<Rightarrow> nat \<Rightarrow> nat" where
  "sat_mul a b = min (a * b) usize_max"

lemma sat_add_min [sat_arith]:
  "sat_add (min a usize_max) b = min (a + b) usize_max"
  "sat_add a (min b usize_max) = min (a + b) usize_max"
  by (simp_all add: sat_add_def min_def)

lemma sat_add_zero [sat_arith]: "a \<le> usize_max \<Longrightarrow> sat_add a 0 = a"
  by (simp add: sat_add_def)

lemma sat_add_le [sat_arith]: "sat_add a b \<le> usize_max"
  by (simp add: sat_add_def)

section \<open>Prefixes, suffixes, searching\<close>

definition strip_prefix :: "'a list \<Rightarrow> 'a list \<Rightarrow> 'a list option" where
  "strip_prefix p s = (if prefix p s then Some (drop (length p) s) else None)"

definition strip_suffix :: "'a list \<Rightarrow> 'a list \<Rightarrow> 'a list option" where
  "strip_suffix p s = (if suffix p s then Some (take (length s - length p) s) else None)"

lemma strip_prefix_Some [rust_str]: "strip_prefix p s = Some r \<longleftrightarrow> s = p @ r"
  by (auto simp: strip_prefix_def prefix_def)

lemma strip_prefix_None [rust_str]: "strip_prefix p s = None \<longleftrightarrow> \<not> prefix p s"
  by (simp add: strip_prefix_def)

lemma strip_prefix_append [simp]: "strip_prefix p (p @ r) = Some r"
  by (simp add: strip_prefix_Some)

lemma strip_suffix_Some [rust_str]: "strip_suffix p s = Some r \<longleftrightarrow> s = r @ p"
  by (auto simp: strip_suffix_def suffix_def)

lemma strip_suffix_None [rust_str]: "strip_suffix p s = None \<longleftrightarrow> \<not> suffix p s"
  by (simp add: strip_suffix_def)

text \<open>\<open>str::find\<close>: the byte index of the first occurrence.\<close>

fun find_sub :: "'a list \<Rightarrow> 'a list \<Rightarrow> nat option" where
  "find_sub p [] = (if p = [] then Some 0 else None)"
| "find_sub p (c # s) = (if prefix p (c # s) then Some 0 else map_option Suc (find_sub p s))"

lemma find_sub_SomeD:
  "find_sub p s = Some i \<Longrightarrow>
     i + length p \<le> length s \<and> prefix p (drop i s) \<and> (\<forall>j < i. \<not> prefix p (drop j s))"
proof (induction p s arbitrary: i rule: find_sub.induct)
  case (1 p)
  then show ?case by (simp split: if_splits)
next
  case (2 p c s)
  show ?case
  proof (cases "prefix p (c # s)")
    case True
    then have "length p \<le> length (c # s)" by (rule prefix_length_le)
    with True 2 show ?thesis by simp
  next
    case False
    with 2 obtain k where k: "find_sub p s = Some k" "i = Suc k" by auto
    with 2 False have IH: "k + length p \<le> length s" "prefix p (drop k s)"
      "\<forall>j < k. \<not> prefix p (drop j s)" by auto
    have "\<not> prefix p (drop j (c # s))" if "j < i" for j
      using that IH k False by (cases j) auto
    with IH k show ?thesis by auto
  qed
qed

lemma find_sub_NoneD: "find_sub p s = None \<Longrightarrow> \<not> prefix p (drop j s)"
proof (induction p s arbitrary: j rule: find_sub.induct)
  case (1 p)
  then show ?case by (simp split: if_splits)
next
  case (2 p c s)
  then have "\<not> prefix p (c # s)" "find_sub p s = None" by (auto split: if_splits)
  with 2 show ?case by (cases j) auto
qed

lemma find_sub_eqI:
  assumes "prefix p (drop i s)" and "\<And>j. j < i \<Longrightarrow> \<not> prefix p (drop j s)"
    and "i \<le> length s"
  shows "find_sub p s = Some i"
proof (cases "find_sub p s")
  case None
  with assms(1) show ?thesis by (auto dest: find_sub_NoneD)
next
  case (Some k)
  note k = find_sub_SomeD [OF Some]
  have "k = i"
  proof (rule ccontr)
    assume "k \<noteq> i"
    then consider "k < i" | "i < k" by linarith
    then show False using k assms by cases auto
  qed
  with Some show ?thesis by simp
qed

lemma find_sub_noneI:
  assumes "\<And>j. j \<le> length s \<Longrightarrow> \<not> prefix p (drop j s)"
  shows "find_sub p s = None"
proof (cases "find_sub p s")
  case (Some k)
  then have "k \<le> length s" "prefix p (drop k s)"
    using find_sub_SomeD [OF Some] by auto
  with assms show ?thesis by blast
qed

lemma find_sub_split:
  assumes "find_sub p s = Some i"
  shows "s = take i s @ p @ drop (i + length p) s"
proof -
  from find_sub_SomeD [OF assms] obtain r where r: "drop i s = p @ r"
    by (auto simp: prefix_def)
  then have "drop (length p) (drop i s) = r" by simp
  with r show ?thesis
    by (metis add.commute append_take_drop_id drop_drop)
qed

text \<open>\<open>str::contains\<close>, \<open>split_once\<close> and \<open>rsplit_once\<close> at a character, \<open>trim_end_matches\<close> with a character.\<close>

definition contains_sub :: "string \<Rightarrow> string \<Rightarrow> bool" where
  "contains_sub s p \<longleftrightarrow> find_sub p s \<noteq> None"

definition split_once :: "char \<Rightarrow> string \<Rightarrow> (string \<times> string) option" where
  "split_once c s =
     (if c \<in> set s then Some (takeWhile (\<lambda>x. x \<noteq> c) s, tl (dropWhile (\<lambda>x. x \<noteq> c) s)) else None)"

definition rsplit_once :: "char \<Rightarrow> string \<Rightarrow> (string \<times> string) option" where
  "rsplit_once c s = map_option (\<lambda>(a, b). (rev b, rev a)) (split_once c (rev s))"

definition trim_end_matches :: "char \<Rightarrow> string \<Rightarrow> string" where
  "trim_end_matches c s = rev (dropWhile (\<lambda>x. x = c) (rev s))"

section \<open>Splitting and joining\<close>

text \<open>\<open>str::split(c)\<close> (never empty), \<open>[..].join(sep)\<close> and \<open>str::lines\<close>.\<close>

fun split_on :: "'a \<Rightarrow> 'a list \<Rightarrow> 'a list list" where
  "split_on c [] = [[]]"
| "split_on c (x # xs) =
     (if x = c then [] # split_on c xs
      else (case split_on c xs of [] \<Rightarrow> [[x]] | l # ls \<Rightarrow> (x # l) # ls))"

fun join_with :: "'a list \<Rightarrow> 'a list list \<Rightarrow> 'a list" where
  "join_with sep [] = []"
| "join_with sep [x] = x"
| "join_with sep (x # y # zs) = x @ sep @ join_with sep (y # zs)"

lemma split_on_nonempty [simp]: "split_on c s \<noteq> []"
  by (induction s) (auto split: list.splits)

lemma join_with_Cons: "ls \<noteq> [] \<Longrightarrow> join_with sep (l # ls) = l @ sep @ join_with sep ls"
  by (cases ls) auto

lemma join_split_on [simp]: "join_with [c] (split_on c s) = s"
proof (induction s)
  case (Cons x xs)
  then show ?case
    by (cases "split_on c xs"; cases "tl (split_on c xs)") (auto simp: join_with_Cons)
qed simp

lemma split_on_no_sep: "l \<in> set (split_on c s) \<Longrightarrow> c \<notin> set l"
  by (induction s arbitrary: l) (auto split: if_splits list.splits)

lemma split_on_id: "c \<notin> set s \<Longrightarrow> split_on c s = [s]"
  by (induction s) auto

lemma split_on_append: "c \<notin> set l \<Longrightarrow> split_on c (l @ c # s) = l # split_on c s"
  by (induction l) auto

lemma split_on_snoc: "c \<notin> set ys \<Longrightarrow> split_on c (xs @ c # ys) = split_on c xs @ [ys]"
  by (induction xs) (auto simp: split_on_id split: list.split)

lemma length_split_on: "length (split_on c s) = Suc (count_list s c)"
proof (induction s)
  case (Cons x xs)
  then show ?case by (cases "split_on c xs") auto
qed simp

lemma split_on_take: "length (split_on c (take n s)) \<le> length (split_on c s)"
proof -
  have "count_list s c = count_list (take n s) c + count_list (drop n s) c"
    by (metis append_take_drop_id count_list_append)
  then show ?thesis by (simp add: length_split_on)
qed

lemma split_join_with:
  "ls \<noteq> [] \<Longrightarrow> (\<And>l. l \<in> set ls \<Longrightarrow> c \<notin> set l) \<Longrightarrow> split_on c (join_with [c] ls) = ls"
  by (induction "[c]" ls rule: join_with.induct) (auto simp: split_on_id split_on_append)

abbreviation newline :: char where "newline \<equiv> CHR 0x0A"
abbreviation carriage_return :: char where "carriage_return \<equiv> CHR 0x0D"

text \<open>
  \<open>str::lines\<close> drops the empty piece after a final newline and a carriage return
  that stands before a newline; a carriage return at the end of an unterminated last line stays.
\<close>

definition drop_cr :: "string \<Rightarrow> string" where
  "drop_cr l = (case strip_suffix [carriage_return] l of None \<Rightarrow> l | Some r \<Rightarrow> r)"

definition str_lines :: "string \<Rightarrow> string list" where
  "str_lines s =
     (let ps = split_on newline s
      in map drop_cr (butlast ps) @ (if last ps = [] then [] else [last ps]))"

section \<open>Whitespace and trimming\<close>

text \<open>
  The UTF-8 encodings of the code points with the Unicode property White\_Space, the ones
  \<open>char::is_whitespace\<close> accepts: U+0009 to U+000D, U+0020, U+0085, U+00A0, U+1680, U+2000 to
  U+200A, U+2028, U+2029, U+202F, U+205F, U+3000.
\<close>

definition ws_encodings :: "string list" where
  "ws_encodings =
     [[CHR 0x20], [CHR 0x09], [CHR 0x0A], [CHR 0x0B], [CHR 0x0C], [CHR 0x0D],
      [CHR 0xC2, CHR 0x85], [CHR 0xC2, CHR 0xA0], [CHR 0xE1, CHR 0x9A, CHR 0x80],
      [CHR 0xE2, CHR 0x80, CHR 0x80], [CHR 0xE2, CHR 0x80, CHR 0x81],
      [CHR 0xE2, CHR 0x80, CHR 0x82], [CHR 0xE2, CHR 0x80, CHR 0x83],
      [CHR 0xE2, CHR 0x80, CHR 0x84], [CHR 0xE2, CHR 0x80, CHR 0x85],
      [CHR 0xE2, CHR 0x80, CHR 0x86], [CHR 0xE2, CHR 0x80, CHR 0x87],
      [CHR 0xE2, CHR 0x80, CHR 0x88], [CHR 0xE2, CHR 0x80, CHR 0x89],
      [CHR 0xE2, CHR 0x80, CHR 0x8A], [CHR 0xE2, CHR 0x80, CHR 0xA8],
      [CHR 0xE2, CHR 0x80, CHR 0xA9], [CHR 0xE2, CHR 0x80, CHR 0xAF],
      [CHR 0xE2, CHR 0x81, CHR 0x9F], [CHR 0xE3, CHR 0x80, CHR 0x80]]"

text \<open>Take one of the given strings off the front, and take them off as long as one fits.\<close>

fun strip_any :: "'a list list \<Rightarrow> 'a list \<Rightarrow> 'a list option" where
  "strip_any [] s = None"
| "strip_any (e # es) s = (case strip_prefix e s of Some r \<Rightarrow> Some r | None \<Rightarrow> strip_any es s)"

lemma strip_any_SomeD: "strip_any es s = Some r \<Longrightarrow> \<exists>e \<in> set es. s = e @ r"
  by (induction es) (auto simp: strip_prefix_Some split: option.splits)

lemma strip_any_None: "strip_any es s = None \<longleftrightarrow> (\<forall>e \<in> set es. \<not> prefix e s)"
  by (induction es) (auto simp: strip_prefix_def split: option.splits)

function trim_by :: "'a list list \<Rightarrow> 'a list \<Rightarrow> 'a list" where
  "trim_by es s =
     (case strip_any es s of
        None \<Rightarrow> s
      | Some r \<Rightarrow> if length r < length s then trim_by es r else s)"
  by pat_completeness auto
termination
  by (relation "measure (\<lambda>(es, s). length s)") auto

declare trim_by.simps [simp del]

definition trim_start :: "string \<Rightarrow> string" where
  "trim_start = trim_by ws_encodings"

definition trim_end :: "string \<Rightarrow> string" where
  "trim_end s = rev (trim_by (map rev ws_encodings) (rev s))"

definition str_trim :: "string \<Rightarrow> string" where
  "str_trim s = trim_start (trim_end s)"

lemma trim_by_id: "strip_any es s = None \<Longrightarrow> trim_by es s = s"
  by (subst trim_by.simps) simp

lemma trim_by_suffix: "suffix (trim_by es s) s"
proof (induction es s rule: trim_by.induct)
  case (1 es s)
  show ?case
  proof (cases "strip_any es s")
    case None
    then show ?thesis by (simp add: trim_by_id)
  next
    case (Some r)
    then have "suffix r s" by (auto dest: strip_any_SomeD simp: suffix_def)
    with 1 Some show ?thesis
      by (auto simp: trim_by.simps [of es s] intro: suffix_order.trans)
  qed
qed

lemma trim_by_strip: 
  assumes "[] \<notin> set es" shows "strip_any es (trim_by es s) = None"
  using assms
proof (induction es s rule: trim_by.induct)
  case (1 es s)
  show ?case
  proof (cases "strip_any es s")
    case None
    then show ?thesis by (simp add: trim_by_id)
  next
    case (Some r)
    with 1(2) have "length r < length s" by (auto dest!: strip_any_SomeD)
    with 1 Some show ?thesis by (simp add: trim_by.simps [of es s])
  qed
qed

lemma ws_encodings_nonempty: "[] \<notin> set ws_encodings" "[] \<notin> set (map rev ws_encodings)"
  by (simp_all add: ws_encodings_def)

lemma trim_start_idem [simp]: "trim_start (trim_start s) = trim_start s"
  by (simp add: trim_start_def trim_by_id trim_by_strip ws_encodings_nonempty)

lemma trim_end_idem [simp]: "trim_end (trim_end s) = trim_end s"
  by (simp only: trim_end_def rev_rev_ident trim_by_id [OF trim_by_strip]
      ws_encodings_nonempty not_False_eq_True)

lemma trim_end_prefix: "prefix (trim_end s) s"
  using trim_by_suffix [of "map rev ws_encodings" "rev s"]
  by (simp add: trim_end_def suffix_to_prefix)

lemma trim_start_suffix: "suffix (trim_start s) s"
  by (simp add: trim_start_def trim_by_suffix)

section \<open>Lists\<close>

lemma map_filter_append [simp]:
  "List.map_filter f (xs @ ys) = List.map_filter f xs @ List.map_filter f ys"
  by (simp add: map_filter_def)

text \<open>The last elements of a list.\<close>

definition last_n :: "nat \<Rightarrow> 'a list \<Rightarrow> 'a list" where
  "last_n n xs = drop (length xs - n) xs"

lemma length_last_n [simp]: "length (last_n n xs) = min n (length xs)"
  by (simp add: last_n_def)

lemma last_n_all [simp]: "length xs \<le> n \<Longrightarrow> last_n n xs = xs"
  by (simp add: last_n_def)

lemma last_n_append_long: "n \<le> length ys \<Longrightarrow> last_n n (xs @ ys) = last_n n ys"
  by (simp add: last_n_def)

lemma last_n_append_last_n: "last_n n (last_n n xs @ ys) = last_n n (xs @ ys)"
proof (cases "length xs \<le> n")
  case False
  define p where "p = take (length xs - n) xs"
  have "xs = p @ last_n n xs" by (simp add: p_def last_n_def)
  moreover have "n \<le> length (last_n n xs @ ys)" using False by simp
  ultimately show ?thesis by (metis append_assoc last_n_append_long)
qed simp

lemma last_n_snoc:
  assumes "0 < n"
  shows "last_n n (xs @ [x]) =
    (let pushed = last_n n xs @ [x] in if length pushed > n then tl pushed else pushed)"
proof (cases "length xs < n")
  case True
  then show ?thesis by (simp add: last_n_def Let_def)
next
  case False
  then have "length xs - n < length xs" using assms by simp
  then have "tl (drop (length xs - n) xs @ [x]) = drop (Suc (length xs - n)) xs @ [x]"
    by (simp add: drop_Suc tl_drop)
  with False assms show ?thesis by (simp add: last_n_def Let_def Suc_diff_le)
qed

lemma last_n_map: "last_n n (map f xs) = map f (last_n n xs)"
  by (simp add: last_n_def drop_map)

section \<open>Code points\<close>

text \<open>
  A continuation byte is one of 0x80 to 0xBF. \<open>str::chars\<close> splits before every other byte.
\<close>

definition is_continuation :: "char \<Rightarrow> bool" where
  "is_continuation c \<longleftrightarrow> 128 \<le> (of_char c :: nat) \<and> (of_char c :: nat) < 192"

function chars :: "string \<Rightarrow> string list" where
  "chars [] = []"
| "chars (c # s) = (c # takeWhile is_continuation s) # chars (dropWhile is_continuation s)"
  by pat_completeness auto
termination
  by (relation "measure length") (auto simp: le_imp_less_Suc length_dropWhile_le)

text \<open>Every \<open>&str\<close> starts with a byte that is not a continuation byte.\<close>

definition str_start :: "string \<Rightarrow> bool" where
  "str_start s \<longleftrightarrow> (case s of [] \<Rightarrow> True | c # _ \<Rightarrow> \<not> is_continuation c)"

lemma concat_chars [simp]: "concat (chars s) = s"
  by (induction s rule: chars.induct) simp_all

lemma chars_append: "str_start t \<Longrightarrow> chars (s @ t) = chars s @ chars t"
proof (induction s rule: chars.induct)
  case (2 c s)
  have "takeWhile is_continuation (s @ t) = takeWhile is_continuation s"
    "dropWhile is_continuation (s @ t) = dropWhile is_continuation s @ t"
    using 2(2) by (induction s) (auto simp: str_start_def split: list.splits)
  with 2 show ?case by simp
qed simp

section \<open>Decimal numbers\<close>

text \<open>\<open>Display\<close> of an unsigned integer.\<close>

definition digit_char :: "nat \<Rightarrow> char" where
  "digit_char d = char_of (48 + d)"

fun show_nat :: "nat \<Rightarrow> string" where
  "show_nat n = (if n < 10 then [digit_char n] else show_nat (n div 10) @ [digit_char (n mod 10)])"

declare show_nat.simps [simp del]

definition is_ascii_digit :: "char \<Rightarrow> bool" where
  "is_ascii_digit c \<longleftrightarrow> 48 \<le> (of_char c :: nat) \<and> (of_char c :: nat) \<le> 57"

definition is_ascii_lowercase :: "char \<Rightarrow> bool" where
  "is_ascii_lowercase c \<longleftrightarrow> 97 \<le> (of_char c :: nat) \<and> (of_char c :: nat) \<le> 122"

definition is_ascii_uppercase :: "char \<Rightarrow> bool" where
  "is_ascii_uppercase c \<longleftrightarrow> 65 \<le> (of_char c :: nat) \<and> (of_char c :: nat) \<le> 90"

definition to_ascii_lower :: "char \<Rightarrow> char" where
  "to_ascii_lower c = (if is_ascii_uppercase c then char_of ((of_char c :: nat) + 32) else c)"

text \<open>\<open>str::parse\<close> to an unsigned integer below a bound: an optional plus sign and decimal digits.\<close>

definition digit_value :: "char \<Rightarrow> nat" where
  "digit_value c = of_char c - 48"

definition decimal_value :: "string \<Rightarrow> nat" where
  "decimal_value ds = foldl (\<lambda>a c. a * 10 + digit_value c) 0 ds"

definition parse_uint :: "nat \<Rightarrow> string \<Rightarrow> nat option" where
  "parse_uint bound s =
     (let ds = (case s of c # r \<Rightarrow> if c = CHR ''+'' \<and> r \<noteq> [] then r else s | [] \<Rightarrow> s)
      in if ds = [] \<or> \<not> list_all is_ascii_digit ds \<or> bound \<le> decimal_value ds then None
         else Some (decimal_value ds))"

lemma digit_char_code: "d < 10 \<Longrightarrow> (of_char (digit_char d) :: nat) = 48 + d"
  by (simp add: digit_char_def)

lemma show_nat_digits: "show_nat n \<noteq> [] \<and> list_all is_ascii_digit (show_nat n) \<and> decimal_value (show_nat n) = n"
proof (induction n rule: show_nat.induct)
  case (1 n)
  then show ?case
    by (auto simp: show_nat.simps[of n] decimal_value_def digit_value_def digit_char_code is_ascii_digit_def)
qed

lemma digit_not: "is_ascii_digit c \<Longrightarrow> c \<notin> {CHR ''+'', CHR '','', CHR ''-'', CHR ''/'', CHR ''*''}"
  by (auto simp: is_ascii_digit_def)

lemma parse_show: "n < bound \<Longrightarrow> parse_uint bound (show_nat n) = Some n"
proof -
  assume "n < bound"
  moreover obtain c r where "show_nat n = c # r" "is_ascii_digit c"
    using show_nat_digits[of n] by (cases "show_nat n") auto
  moreover from this have "c \<noteq> CHR ''+''" using digit_not by blast
  ultimately show ?thesis using show_nat_digits[of n] by (simp add: parse_uint_def)
qed

section \<open>Incremental consumers\<close>

text \<open>
  An object that is fed pieces of a sequence and whose state is determined by the
  sequence fed so far: \<open>meaning xs\<close> is the state after \<open>xs\<close>, however it was cut up.
\<close>

locale incremental =
  fixes initial :: 's
    and feed :: "'s \<Rightarrow> 'c list \<Rightarrow> 's"
    and meaning :: "'c list \<Rightarrow> 's"
  assumes meaning_initial: "meaning [] = initial"
    and feed_meaning: "feed (meaning xs) ys = meaning (xs @ ys)"
begin

lemma fold_feed: "foldl feed (meaning xs) chunks = meaning (xs @ concat chunks)"
  by (induction chunks arbitrary: xs) (simp_all add: feed_meaning)

lemma feed_all: "foldl feed initial chunks = meaning (concat chunks)"
  using fold_feed [of "[]" chunks] by (simp add: meaning_initial)

lemma chunking_irrelevant:
  "concat cs = concat ds \<Longrightarrow> foldl feed initial cs = foldl feed initial ds"
  by (simp add: feed_all)

end

text \<open>
  A streaming parser also produces output for every piece. Its contract: feeding a
  concatenation is feeding the parts one after the other and combining the outputs. Pieces satisfy
  \<open>piece_ok\<close> (for text: they end at code point boundaries), states satisfy \<open>inv\<close>.
\<close>

fun feed_chunks ::
  "('s \<Rightarrow> 'c list \<Rightarrow> 's \<times> 'o) \<Rightarrow> ('o \<Rightarrow> 'o \<Rightarrow> 'o) \<Rightarrow> 'o \<Rightarrow> 's \<Rightarrow> 'c list list \<Rightarrow> 's \<times> 'o" where
  "feed_chunks feed comb none s [] = (s, none)"
| "feed_chunks feed comb none s (c # cs) =
     (let (s1, o1) = feed s c; (s2, o2) = feed_chunks feed comb none s1 cs in (s2, comb o1 o2))"

locale transducer =
  fixes feed :: "'s \<Rightarrow> 'c list \<Rightarrow> 's \<times> 'o"
    and comb :: "'o \<Rightarrow> 'o \<Rightarrow> 'o"
    and none :: 'o
    and piece_ok :: "'c list \<Rightarrow> bool"
    and inv :: "'s \<Rightarrow> bool"
  assumes feed_append: "inv s \<Longrightarrow> piece_ok a \<Longrightarrow> piece_ok b \<Longrightarrow>
      feed s (a @ b) =
        (let (s1, o1) = feed s a; (s2, o2) = feed s1 b in (s2, comb o1 o2))"
    and feed_nil: "inv s \<Longrightarrow> feed s [] = (s, none)"
    and feed_inv: "inv s \<Longrightarrow> piece_ok a \<Longrightarrow> inv (fst (feed s a))"
    and piece_ok_append: "piece_ok a \<Longrightarrow> piece_ok b \<Longrightarrow> piece_ok (a @ b)"
    and piece_ok_nil: "piece_ok []"
begin

lemma piece_ok_concat: "list_all piece_ok cs \<Longrightarrow> piece_ok (concat cs)"
  by (induction cs) (auto simp: piece_ok_nil piece_ok_append)

lemma feed_chunks_concat:
  "inv s \<Longrightarrow> list_all piece_ok cs \<Longrightarrow> feed_chunks feed comb none s cs = feed s (concat cs)"
proof (induction cs arbitrary: s)
  case Nil
  then show ?case by (simp add: feed_nil)
next
  case (Cons c cs)
  moreover obtain s1 o1 where f: "feed s c = (s1, o1)" by force
  moreover have "inv s1" using Cons.prems f feed_inv [of s c] by simp
  ultimately show ?case
    by (simp add: feed_append piece_ok_concat)
qed

lemma chunking_irrelevant:
  assumes "inv s" "list_all piece_ok cs" "list_all piece_ok ds" "concat cs = concat ds"
  shows "feed_chunks feed comb none s cs = feed_chunks feed comb none s ds"
  using assms by (simp add: feed_chunks_concat)

end

section \<open>Iterators\<close>

text \<open>An iterator refines the list of what it is still going to yield.\<close>

fun collect :: "('s \<Rightarrow> 's \<times> 'a option) \<Rightarrow> nat \<Rightarrow> 's \<Rightarrow> 'a list option" where
  "collect nxt 0 s = None"
| "collect nxt (Suc n) s =
     (case nxt s of
        (_, None) \<Rightarrow> Some []
      | (s', Some a) \<Rightarrow> map_option ((#) a) (collect nxt n s'))"

locale iterator =
  fixes nxt :: "'s \<Rightarrow> 's \<times> 'a option"
    and remaining :: "'s \<Rightarrow> 'a list"
    and inv :: "'s \<Rightarrow> bool"
  assumes nxt_remaining: "inv s \<Longrightarrow> snd (nxt s) = (case remaining s of [] \<Rightarrow> None | a # _ \<Rightarrow> Some a)"
    and remaining_nxt: "inv s \<Longrightarrow> remaining (fst (nxt s)) = tl (remaining s)"
    and inv_nxt: "inv s \<Longrightarrow> inv (fst (nxt s))"
begin

lemma collect_remaining: "inv s \<Longrightarrow> length (remaining s) < n \<Longrightarrow> collect nxt n s = Some (remaining s)"
proof (induction n arbitrary: s)
  case (Suc n)
  then show ?case
    using nxt_remaining [of s] remaining_nxt [of s] inv_nxt [of s]
    by (cases "nxt s"; cases "remaining s") auto
qed simp

end

section \<open>Latches\<close>

text \<open>
  The answers of a machine that is given a list of operations, and the contract of a
  machine whose positive answer (\<open>fires\<close>) is given at most once until an operation resets it.
\<close>

fun run_ops :: "('s \<Rightarrow> 'o \<Rightarrow> 's \<times> 'a) \<Rightarrow> 's \<Rightarrow> 'o list \<Rightarrow> 's \<times> 'a list" where
  "run_ops step s [] = (s, [])"
| "run_ops step s (x # xs) =
     (let (s1, a) = step s x; (s2, as) = run_ops step s1 xs in (s2, a # as))"

lemma run_ops_append:
  "run_ops step s (xs @ ys) =
     (let (s1, as) = run_ops step s xs; (s2, bs) = run_ops step s1 ys in (s2, as @ bs))"
  by (induction xs arbitrary: s) (simp_all add: Let_def split_beta)

lemma run_ops_snoc:
  "fst (run_ops step s (xs @ [x])) = fst (step (fst (run_ops step s xs)) x)"
  by (simp add: run_ops_append Let_def split_beta)

lemma run_ops_invariant:
  assumes "\<And>s x. P s \<Longrightarrow> P (fst (step s x))" and "P s"
  shows "P (fst (run_ops step s xs))"
  using assms(2) by (induction xs arbitrary: s) (auto simp: Let_def split_beta dest: assms(1))

locale latch =
  fixes step :: "'s \<Rightarrow> 'o \<Rightarrow> 's \<times> 'a"
    and fires :: "'o \<Rightarrow> 'a \<Rightarrow> bool"
    and resets :: "'o \<Rightarrow> bool"
    and latched :: "'s \<Rightarrow> bool"
  assumes fires_open: "fires x (snd (step s x)) \<Longrightarrow> \<not> latched s"
    and fires_latches: "fires x (snd (step s x)) \<Longrightarrow> latched (fst (step s x))"
    and stays_latched: "latched s \<Longrightarrow> \<not> resets x \<Longrightarrow> latched (fst (step s x))"
begin

definition firings :: "'s \<Rightarrow> 'o list \<Rightarrow> nat" where
  "firings s xs = length (filter (\<lambda>(x, a). fires x a) (zip xs (snd (run_ops step s xs))))"

lemma firings_simps [simp]:
  "firings s [] = 0"
  "firings s (x # xs) =
     (if fires x (snd (step s x)) then 1 else 0) + firings (fst (step s x)) xs"
  by (simp_all add: firings_def Let_def split_beta)

lemma firings_latched: "latched s \<Longrightarrow> list_all (\<lambda>x. \<not> resets x) xs \<Longrightarrow> firings s xs = 0"
  by (induction xs arbitrary: s) (auto dest: fires_open stays_latched)

lemma fires_at_most_once: "list_all (\<lambda>x. \<not> resets x) xs \<Longrightarrow> firings s xs \<le> 1"
  by (induction xs arbitrary: s) (auto dest: firings_latched [OF fires_latches])

end

text \<open>A latch that a claim always closes and that nothing else does.\<close>

locale one_shot = latch +
  fixes claims :: "'b \<Rightarrow> bool"
  assumes claim_fires: "claims x \<Longrightarrow> \<not> latched s \<Longrightarrow> fires x (snd (step s x))"
    and others_keep: "\<not> claims x \<Longrightarrow> \<not> fires x (snd (step s x))"
    and others_open: "\<not> claims x \<Longrightarrow> \<not> latched s \<Longrightarrow> \<not> latched (fst (step s x))"
begin

lemma firings_exact:
  "list_all (\<lambda>x. \<not> resets x) xs \<Longrightarrow>
     firings s xs = (if latched s \<or> \<not> list_ex claims xs then 0 else 1)"
proof (induction xs arbitrary: s)
  case (Cons x xs)
  show ?case
  proof (cases "latched s")
    case True
    with Cons.prems show ?thesis by (simp only: firings_latched) simp
  next
    case False
    with Cons others_keep [of x s] claim_fires [of x s] others_open [of x s]
      fires_latches [of x s]
    show ?thesis by (cases "claims x") auto
  qed
qed simp

end

end
