(* ===== verification/Head_Tail_Buffer.thy ===== *)
theory Head_Tail_Buffer
  imports Ava_Prelude
begin

text \<open>
  The capped output buffer of a running command,
  \<^verbatim>\<open>core/src/unified_exec/head_tail_buffer.rs\<close>. The const generic \<open>MAX_BYTES\<close> is the first
  argument \<open>m\<close> of every operation; a byte is a \<^typ>\<open>char\<close>.

  The specification is \<open>summary m s\<close>: the buffer that holds the first half-budget of
  bytes of \<open>s\<close>, the last bytes that fit in the other half, and the number of bytes in between.
  Every operation is shown to compute it.
\<close>

section \<open>Model\<close>

record head_tail_buffer =
  htb_head :: string
  htb_tail :: string
  htb_omitted :: nat

definition htb_default :: head_tail_buffer where
  "htb_default = \<lparr>htb_head = [], htb_tail = [], htb_omitted = 0\<rparr>"

definition head_budget :: "nat \<Rightarrow> nat" where
  "head_budget m = m div 2"

definition tail_budget :: "nat \<Rightarrow> nat" where
  "tail_budget m = m - head_budget m"

definition retained_bytes :: "head_tail_buffer \<Rightarrow> nat" where
  "retained_bytes b = sat_add (length (htb_head b)) (length (htb_tail b))"

definition total_bytes :: "head_tail_buffer \<Rightarrow> nat" where
  "total_bytes b = sat_add (retained_bytes b) (htb_omitted b)"

text \<open>Returns the buffer and the bytes that did not fit (\<open>split_at_checked\<close> or the whole chunk).\<close>

definition fill_head :: "nat \<Rightarrow> head_tail_buffer \<Rightarrow> string \<Rightarrow> head_tail_buffer \<times> string" where
  "fill_head m b chunk =
     (let remaining_head = head_budget m - length (htb_head b);
          (chunk_head, chunk_tail) =
            (if remaining_head \<le> length chunk
             then (take remaining_head chunk, drop remaining_head chunk) else (chunk, []))
      in (b\<lparr>htb_head := htb_head b @ chunk_head\<rparr>, chunk_tail))"

definition push_tail :: "nat \<Rightarrow> head_tail_buffer \<Rightarrow> string \<Rightarrow> head_tail_buffer" where
  "push_tail m b chunk =
     (let tail = htb_tail b;
          remaining_tail = tail_budget m - length tail;
          excess_tail = length chunk - remaining_tail;
          omitted = sat_add (htb_omitted b) excess_tail;
          (tail', chunk') =
            (if excess_tail < length tail then (drop excess_tail tail, chunk)
             else ([], drop (excess_tail - length tail) chunk))
      in b\<lparr>htb_tail := tail' @ chunk', htb_omitted := omitted\<rparr>)"

definition push_chunk :: "nat \<Rightarrow> head_tail_buffer \<Rightarrow> string \<Rightarrow> head_tail_buffer" where
  "push_chunk m b chunk = (let (b', rest) = fill_head m b chunk in push_tail m b' rest)"

definition to_bytes :: "head_tail_buffer \<Rightarrow> string" where
  "to_bytes b = htb_head b @ htb_tail b"

definition format_output_omission_marker :: "nat \<Rightarrow> string" where
  "format_output_omission_marker n = ''... '' @ show_nat n @ '' bytes omitted ...''"

definition to_bytes_with_omission_marker :: "head_tail_buffer \<Rightarrow> string" where
  "to_bytes_with_omission_marker b =
     (if htb_omitted b = 0 then to_bytes b
      else htb_head b @ [newline] @ format_output_omission_marker (htb_omitted b) @ [newline]
           @ htb_tail b)"

text \<open>
  The deque's two slices are an arbitrary cut of the source tail: \<open>wrap\<close> is where
  its storage wraps around.
\<close>

definition push_buffer :: "nat \<Rightarrow> nat \<Rightarrow> head_tail_buffer \<Rightarrow> head_tail_buffer \<Rightarrow> head_tail_buffer" where
  "push_buffer m wrap b src =
     (let b1 = b\<lparr>htb_omitted := sat_add (htb_omitted b) (htb_omitted src)\<rparr>;
          (b2, overflow) =
            (if htb_head b1 = [] then (b1\<lparr>htb_head := htb_head src\<rparr>, [])
             else fill_head m b1 (htb_head src))
      in if length (htb_tail src) = tail_budget m
         then b2\<lparr>htb_omitted := sat_add (sat_add (htb_omitted b2) (length (htb_tail b2)))
                                  (length overflow),
                 htb_tail := htb_tail src\<rparr>
         else (let b3 = push_tail m b2 overflow
               in if htb_tail b3 = [] then b3\<lparr>htb_tail := htb_tail src\<rparr>
                  else push_tail m (push_tail m b3 (take wrap (htb_tail src)))
                                   (drop wrap (htb_tail src))))"

section \<open>Specification\<close>

definition summary :: "nat \<Rightarrow> string \<Rightarrow> head_tail_buffer" where
  "summary m s =
     (let body = drop (head_budget m) s
      in \<lparr>htb_head = take (head_budget m) s,
          htb_tail = last_n (tail_budget m) body,
          htb_omitted = min (length body - tail_budget m) usize_max\<rparr>)"

section \<open>Lemmas\<close>

lemma minus_min [simp]: "(h::nat) - min n h = h - n"
  by (simp add: min_def)

text \<open>\<open>push_tail\<close> keeps the last bytes of the old tail followed by the chunk.\<close>

lemma push_tail_eq:
  assumes "length (htb_tail b) \<le> tail_budget m"
  shows "push_tail m b c =
    b\<lparr>htb_tail := last_n (tail_budget m) (htb_tail b @ c),
      htb_omitted := sat_add (htb_omitted b) (length (htb_tail b @ c) - tail_budget m)\<rparr>"
proof -
  let ?e = "length c - (tail_budget m - length (htb_tail b))"
  have e: "?e = length (htb_tail b @ c) - tail_budget m" using assms by simp
  have "(if ?e < length (htb_tail b) then drop ?e (htb_tail b) @ c
         else drop (?e - length (htb_tail b)) c) = drop ?e (htb_tail b @ c)"
    by simp
  then show ?thesis
    unfolding push_tail_def Let_def last_n_def e [symmetric]
    by (simp add: if_distrib [of "\<lambda>p. fst p @ snd p"] split: prod.splits if_splits)
qed

lemma fill_head_eq:
  assumes "length (htb_head b) \<le> head_budget m"
  shows "fill_head m b c =
    (b\<lparr>htb_head := take (head_budget m) (htb_head b @ c)\<rparr>,
     drop (head_budget m - length (htb_head b)) c)"
  using assms by (auto simp: fill_head_def Let_def)

lemma push_chunk_eq:
  assumes "length (htb_head b) \<le> head_budget m" "length (htb_tail b) \<le> tail_budget m"
  shows "push_chunk m b c =
    (let r = drop (head_budget m - length (htb_head b)) c
     in \<lparr>htb_head = take (head_budget m) (htb_head b @ c),
         htb_tail = last_n (tail_budget m) (htb_tail b @ r),
         htb_omitted = sat_add (htb_omitted b) (length (htb_tail b @ r) - tail_budget m)\<rparr>)"
  using assms
  by (cases b) (simp add: push_chunk_def fill_head_eq push_tail_eq Let_def)

lemma summary_fields [simp]:
  "htb_head (summary m s) = take (head_budget m) s"
  "htb_tail (summary m s) = last_n (tail_budget m) (drop (head_budget m) s)"
  "htb_omitted (summary m s) =
     min (length (drop (head_budget m) s) - tail_budget m) usize_max"
  by (simp_all add: summary_def Let_def)

lemma summary_budgets:
  "length (htb_head (summary m s)) \<le> head_budget m"
  "length (htb_tail (summary m s)) \<le> tail_budget m"
  by simp_all

text \<open>The buffer with head \<open>h\<close> whose body so far is \<open>x\<close>; the shape every step preserves.\<close>

definition with_body :: "nat \<Rightarrow> string \<Rightarrow> string \<Rightarrow> head_tail_buffer" where
  "with_body m h x =
     \<lparr>htb_head = h, htb_tail = last_n (tail_budget m) x,
      htb_omitted = min (length x - tail_budget m) usize_max\<rparr>"

lemma summary_with_body: "summary m s = with_body m (take (head_budget m) s) (drop (head_budget m) s)"
  by (simp add: summary_def with_body_def Let_def)

lemma with_body_fields [simp]:
  "htb_head (with_body m h x) = h"
  "htb_tail (with_body m h x) = last_n (tail_budget m) x"
  "htb_omitted (with_body m h x) = min (length x - tail_budget m) usize_max"
  by (simp_all add: with_body_def)

lemma push_tail_with_body: "push_tail m (with_body m h x) c = with_body m h (x @ c)"
proof -
  let ?t = "tail_budget m"
  have "sat_add (min (length x - ?t) usize_max) (min ?t (length x) + length c - ?t)
      = min (length x + length c - ?t) usize_max"
    unfolding sat_add_min by (simp add: min_def)
  then show ?thesis
    by (simp add: push_tail_eq last_n_append_last_n with_body_def)
qed

lemma push_chunk_summary: "push_chunk m (summary m s) c = summary m (s @ c)"
proof -
  let ?h = "head_budget m"
  have "fill_head m (summary m s) c =
      (with_body m (take ?h (s @ c)) (drop ?h s), drop (?h - length s) c)"
    by (simp add: fill_head_eq summary_with_body with_body_def)
  then show ?thesis
    by (simp add: push_chunk_def push_tail_with_body summary_with_body)
qed

lemma summary_nil: "summary m [] = htb_default"
  by (simp add: summary_def htb_default_def Let_def)

interpretation htb: incremental htb_default "push_chunk m" "summary m"
  by unfold_locales (simp_all add: summary_nil push_chunk_summary)

text \<open>Merging: the source's head goes to the free head space, the rest joins the body.\<close>

lemma take_merge: "take h (take h a @ take h b) = take h (a @ b)"
  by (cases "length a \<le> h") (auto simp: min_def)

lemma drop_merge: "drop h (a @ b) = drop h a @ drop (h - length (take h a)) (take h b) @ drop h b"
proof (cases "length a \<le> h")
  case True
  then have "drop (h - length a) (take h b) @ drop h b = drop (h - length a) b"
    by (metis append_take_drop_id diff_le_self drop_append drop_drop drop_take
        le_add_diff_inverse2 length_take min_def nat_le_linear diff_is_0_eq drop_0 drop_all append_Nil)
  with True show ?thesis by simp
next
  case False
  then show ?thesis by simp
qed

lemma push_buffer_heads:
  "(if take h a = [] then (b\<lparr>htb_head := take h s\<rparr>, [])
    else (b\<lparr>htb_head := take h (take h a @ take h s)\<rparr>, drop (h - length (take h a)) (take h s)))
   = (b\<lparr>htb_head := take h (a @ s)\<rparr>, drop (h - length (take h a)) (take h s))"
  by (auto simp: take_merge)

lemma push_buffer_summary: "push_buffer m w (summary m a) (summary m b) = summary m (a @ b)"
proof -
  let ?h = "head_budget m" and ?t = "tail_budget m"
  let ?o = "drop (?h - length (take ?h a)) (take ?h b)"
  let ?b1 = "(summary m a)\<lparr>htb_omitted :=
      sat_add (htb_omitted (summary m a)) (htb_omitted (summary m b))\<rparr>"
  let ?b2 = "?b1\<lparr>htb_head := take ?h (a @ b)\<rparr>"
  have heads: "(if htb_head ?b1 = [] then (?b1\<lparr>htb_head := htb_head (summary m b)\<rparr>, [])
      else fill_head m ?b1 (htb_head (summary m b))) = (?b2, ?o)"
    using push_buffer_heads [where h = ?h and a = a and b = ?b1 and s = b] by (simp add: fill_head_eq)
  show ?thesis
  proof (cases "?t \<le> length (drop ?h b)")
    case True
    have om: "sat_add (sat_add (sat_add (min (x - ?t) usize_max) (min (y - ?t) usize_max))
          (min ?t x)) z = min (x + z + y - ?t) usize_max" if "?t \<le> y" for x y z
      using that by (auto simp: sat_add_def min_def)
    let ?body = "drop ?h a @ ?o @ drop ?h b"
    have len: "length ?body = length (drop ?h a) + length ?o + length (drop ?h b)"
      by (simp only: length_append add.assoc)
    have tl: "last_n ?t ?body = last_n ?t (drop ?h b)"
      using True by (simp only: append_assoc [symmetric] last_n_append_long)
    have "push_buffer m w (summary m a) (summary m b) = with_body m (take ?h (a @ b)) ?body"
      unfolding push_buffer_def Let_def heads prod.case with_body_def tl len om [OF True, symmetric]
      using True by (simp add: summary_with_body with_body_def)
    then show ?thesis by (simp only: summary_with_body drop_merge)
  next
    case False
    then have tb: "last_n ?t (drop ?h b) = drop ?h b" by simp
    have b2: "?b2 = with_body m (take ?h (a @ b)) (drop ?h a)"
      using False by (simp add: with_body_def summary_with_body sat_add_def)
    have empty_tail: "last_n ?t x = [] \<longleftrightarrow> x = []" for x :: string
      using False by (cases x) (auto simp: last_n_def)
    have "push_buffer m w (summary m a) (summary m b) =
        (let x = drop ?h a @ ?o
         in if x = [] then (with_body m (take ?h (a @ b)) x)\<lparr>htb_tail := drop ?h b\<rparr>
            else with_body m (take ?h (a @ b)) (x @ take w (drop ?h b) @ drop w (drop ?h b)))"
      unfolding push_buffer_def Let_def heads prod.case b2 push_tail_with_body
      unfolding with_body_fields summary_fields tb empty_tail append_assoc
      using False by (simp del: drop_append take_append append_take_drop_id drop_drop)
    also have "\<dots> = with_body m (take ?h (a @ b)) ((drop ?h a @ ?o) @ drop ?h b)"
      using False unfolding Let_def append_take_drop_id by (simp add: with_body_def)
    finally show ?thesis by (simp only: summary_with_body drop_merge append_assoc)
  qed
qed

section \<open>Properties\<close>

text \<open>C32: however the output of a command arrives in chunks, the buffer holds the summary of
  the whole output: its first bytes, its last bytes, and the number of bytes dropped between
  them.\<close>

theorem buffer_is_summary:
  "foldl (push_chunk m) htb_default chunks = summary m (concat chunks)"
  by (rule htb.feed_all)

text \<open>Appending a later buffer gives the buffer that would have seen both outputs, omission
  count included, wherever the source deque's storage wraps.\<close>

theorem push_buffer_is_append:
  "push_buffer m wrap (foldl (push_chunk m) htb_default cs) (foldl (push_chunk m) htb_default ds)
     = foldl (push_chunk m) htb_default (cs @ ds)"
  by (simp only: htb.feed_all push_buffer_summary concat_append)

text \<open>The buffer never retains more than its capacity, and the total it reports is the
  number of bytes observed (up to the saturation of the counter).\<close>

theorem buffer_bounds:
  "retained_bytes (foldl (push_chunk m) htb_default chunks) \<le> m \<and>
   total_bytes (foldl (push_chunk m) htb_default chunks) = min (length (concat chunks)) usize_max"
proof -
  have "head_budget m + tail_budget m = m" by (simp add: head_budget_def tail_budget_def)
  moreover have "min (min n h + min t (n - h)) U \<le> h + t \<and>
      min (min (min n h + min t (n - h)) U + min (n - h - t) U) U = min n U" for n h t U :: nat
    by linarith
  ultimately show ?thesis
    unfolding htb.feed_all retained_bytes_def total_bytes_def sat_add_def summary_fields
      length_take length_drop length_last_n by metis
qed

text \<open>Output that fits the capacity is rendered unchanged, with no omission marker.\<close>

theorem buffer_lossless:
  assumes "length (concat chunks) \<le> m"
  shows "to_bytes_with_omission_marker (foldl (push_chunk m) htb_default chunks) = concat chunks"
proof -
  have "length (concat chunks) - head_budget m \<le> tail_budget m"
    using assms by (simp add: head_budget_def tail_budget_def)
  then show ?thesis
    unfolding htb.feed_all
    by (simp add: to_bytes_with_omission_marker_def to_bytes_def)
qed

theorem buffer_lossless_witness:
  "length (concat [''ab'', ''cd'']) \<le> 5 \<and>
   to_bytes_with_omission_marker (foldl (push_chunk 5) htb_default [''ab'', ''cd'']) = ''abcd''"
  using buffer_lossless [of "[''ab'', ''cd'']" 5] by simp

end
