(* ===== verification/Exec_Policy.thy ===== *)
theory Exec_Policy
  imports Ava_Prelude
begin

text \<open>
  The command policy of \<^verbatim>\<open>execpolicy/src\<close>: decisions (\<^verbatim>\<open>decision.rs\<close>), prefix
  rules and network rules (\<^verbatim>\<open>rule.rs\<close>), the policy and its evaluation
  (\<^verbatim>\<open>policy.rs\<close>), and the text edits of the rules file (\<^verbatim>\<open>amend.rs\<close>,
  \<^verbatim>\<open>sandbox_migration.rs\<close>).

  Code outside the repository enters as arguments. The multimap of the crate \<open>multimap\<close> is a
  value of an arbitrary type \<open>'m\<close> with \<open>get_vec\<close>, \<open>insert\<close> and \<open>iter_all\<close> (locale
  \<open>multimap\<close> states the documented laws). \<open>AbsolutePathBuf::try_from\<close>, which reads the home
  and working directory of the process, is the argument \<open>abs_path\<close>. The JSON reader of
  \<open>serde_json\<close> is the argument \<open>parse_json\<close>.
\<close>

section \<open>Decisions\<close>

datatype decision = Allow | Prompt | Forbidden

text \<open>The derived order follows the order of the constructors.\<close>

fun decision_rank :: "decision \<Rightarrow> nat" where
  "decision_rank Allow = 0"
| "decision_rank Prompt = 1"
| "decision_rank Forbidden = 2"

lemma decision_rank_inj [simp]: "decision_rank a = decision_rank b \<longleftrightarrow> a = b"
  by (cases a; cases b) auto

instantiation decision :: linorder
begin

definition less_eq_decision :: "decision \<Rightarrow> decision \<Rightarrow> bool" where
  "less_eq_decision a b \<longleftrightarrow> decision_rank a \<le> decision_rank b"

definition less_decision :: "decision \<Rightarrow> decision \<Rightarrow> bool" where
  "less_decision a b \<longleftrightarrow> decision_rank a < decision_rank b"

instance
  by standard (auto simp: less_eq_decision_def less_decision_def)

end

lemma decision_le_simps [simp]:
  "Allow \<le> d" "d \<le> Forbidden" "d \<le> Allow \<longleftrightarrow> d = Allow" "Forbidden \<le> d \<longleftrightarrow> d = Forbidden"
  "\<not> Forbidden \<le> Prompt" "\<not> Prompt \<le> Allow"
  by (cases d; simp add: less_eq_decision_def)+

text \<open>
  The example errors carry the example's tokens; the code renders them with the \<open>shlex\<close> crate
  for display.
\<close>

datatype policy_error =
    InvalidDecision string
  | InvalidPattern string
  | InvalidRule string
  | ExampleDidNotMatch "string list list"
  | ExampleDidMatch "string list"

definition decision_parse :: "string \<Rightarrow> policy_error + decision" where
  "decision_parse raw =
     (if raw = ''allow'' then Inr Allow
      else if raw = ''prompt'' then Inr Prompt
      else if raw = ''forbidden'' then Inr Forbidden
      else Inl (InvalidDecision raw))"

section \<open>Rules\<close>

datatype pattern_token = Single string | Alts "string list"

fun token_matches :: "pattern_token \<Rightarrow> string \<Rightarrow> bool" where
  "token_matches (Single expected) token = (expected = token)"
| "token_matches (Alts alternatives) token = list_ex (\<lambda>alt. alt = token) alternatives"

fun token_alternatives :: "pattern_token \<Rightarrow> string list" where
  "token_alternatives (Single expected) = [expected]"
| "token_alternatives (Alts alternatives) = alternatives"

record prefix_pattern =
  pattern_first :: string
  pattern_rest :: "pattern_token list"

text \<open>The length test comes first, so \<open>cmd[0]\<close> and the slice are in range.\<close>

definition matches_prefix :: "prefix_pattern \<Rightarrow> string list \<Rightarrow> string list option" where
  "matches_prefix p cmd =
     (let pattern_length = length (pattern_rest p) + 1
      in if length cmd < pattern_length \<or> hd cmd \<noteq> pattern_first p then None
         else if list_all (\<lambda>(pattern_token, cmd_token). token_matches pattern_token cmd_token)
                   (zip (pattern_rest p) (take (pattern_length - 1) (drop 1 cmd)))
         then Some (take pattern_length cmd) else None)"

datatype rule_match =
    PrefixRuleMatch (matched_prefix: "string list") (match_decision: decision)
      (resolved_program: "string option") (justification: "string option")
  | HeuristicsRuleMatch (match_command: "string list") (match_decision: decision)

fun with_resolved_program :: "string \<Rightarrow> rule_match \<Rightarrow> rule_match" where
  "with_resolved_program prog (PrefixRuleMatch pre d _ j) = PrefixRuleMatch pre d (Some prog) j"
| "with_resolved_program prog (HeuristicsRuleMatch cmd d) = HeuristicsRuleMatch cmd d"

record prefix_rule =
  rule_pattern :: prefix_pattern
  rule_decision :: decision
  rule_justification :: "string option"

definition rule_matches :: "prefix_rule \<Rightarrow> string list \<Rightarrow> rule_match option" where
  "rule_matches r cmd =
     map_option (\<lambda>pre. PrefixRuleMatch pre (rule_decision r) None (rule_justification r))
       (matches_prefix (rule_pattern r) cmd)"

datatype network_protocol = Http | Https | Socks5Tcp | Socks5Udp

definition protocol_parse :: "string \<Rightarrow> policy_error + network_protocol" where
  "protocol_parse raw =
     (if raw = ''http'' then Inr Http
      else if raw = ''https'' \<or> raw = ''https_connect'' \<or> raw = ''http-connect'' then Inr Https
      else if raw = ''socks5_tcp'' then Inr Socks5Tcp
      else if raw = ''socks5_udp'' then Inr Socks5Udp
      else Inl (InvalidRule
        (''network_rule protocol must be one of http, https, socks5_tcp, socks5_udp (got ''
          @ raw @ '')'')))"

fun as_policy_string :: "network_protocol \<Rightarrow> string" where
  "as_policy_string Http = ''http''"
| "as_policy_string Https = ''https''"
| "as_policy_string Socks5Tcp = ''socks5_tcp''"
| "as_policy_string Socks5Udp = ''socks5_udp''"

record network_rule =
  net_host :: string
  net_protocol :: network_protocol
  net_decision :: decision
  net_justification :: "string option"

definition digits_only :: "string \<Rightarrow> bool" where
  "digits_only port \<longleftrightarrow> port \<noteq> [] \<and> list_all is_ascii_digit port"

definition any_whitespace :: "string \<Rightarrow> bool" where
  "any_whitespace s \<longleftrightarrow> list_ex (contains_sub s) ws_encodings"

text \<open>The host of a bracketed IPv6 literal or of \<open>host:port\<close>.\<close>

definition strip_host_port :: "string \<Rightarrow> string \<Rightarrow> policy_error + string" where
  "strip_host_port raw host =
     (case strip_prefix ''['' host of
        Some stripped \<Rightarrow>
          (case split_once (CHR '']'') stripped of
             None \<Rightarrow> Inl (InvalidRule ''network_rule host has an invalid bracketed IPv6 literal'')
           | Some (inside, rest) \<Rightarrow>
               (let port_ok = (case strip_prefix '':'' rest of None \<Rightarrow> False
                                | Some port \<Rightarrow> digits_only port)
                in if rest \<noteq> [] \<and> \<not> port_ok
                   then Inl (InvalidRule (''network_rule host contains an unsupported suffix: '' @ raw))
                   else Inr inside))
      | None \<Rightarrow>
          if count_list host (CHR '':'') = 1
          then (case rsplit_once (CHR '':'') host of
                  None \<Rightarrow> Inr host
                | Some (candidate, port) \<Rightarrow>
                    if candidate \<noteq> [] \<and> digits_only port then Inr candidate else Inr host)
          else Inr host)"

definition normalize_network_rule_host :: "string \<Rightarrow> policy_error + string" where
  "normalize_network_rule_host raw =
     (let host = str_trim raw
      in if host = [] then Inl (InvalidRule ''network_rule host cannot be empty'')
         else if contains_sub host ''://'' \<or> contains_sub host ''/'' \<or> contains_sub host ''?''
              \<or> contains_sub host ''#''
         then Inl (InvalidRule
           ''network_rule host must be a hostname or IP literal (without scheme or path)'')
         else and_then (strip_host_port raw host) (\<lambda>host.
           let normalized = map to_ascii_lower (str_trim (trim_end_matches (CHR ''.'') host))
           in if normalized = [] then Inl (InvalidRule ''network_rule host cannot be empty'')
              else if contains_sub normalized ''*'' then Inl (InvalidRule
                ''network_rule host must be a specific host; wildcards are not allowed'')
              else if any_whitespace normalized then Inl (InvalidRule
                ''network_rule host cannot contain whitespace'')
              else Inr normalized))"

section \<open>The policy\<close>

record match_options =
  resolve_host_executables :: bool

definition default_match_options :: match_options where
  "default_match_options = \<lparr>resolve_host_executables = False\<rparr>"

record 'm policy =
  rules_by_program :: 'm
  network_rules :: "network_rule list"
  host_executables_by_name :: "string \<rightharpoonup> string list"

type_synonym 'm get_vec = "'m \<Rightarrow> string \<Rightarrow> prefix_rule list option"
type_synonym 'm mm_insert = "string \<Rightarrow> prefix_rule \<Rightarrow> 'm \<Rightarrow> 'm"
type_synonym 'm iter_all = "'m \<Rightarrow> (string \<times> prefix_rule list) list"

definition single_token_rule :: "string list \<Rightarrow> decision \<Rightarrow> prefix_rule" where
  "single_token_rule tokens d =
     \<lparr>rule_pattern = \<lparr>pattern_first = hd tokens, pattern_rest = map Single (tl tokens)\<rparr>,
      rule_decision = d, rule_justification = None\<rparr>"

definition add_prefix_rule ::
  "'m mm_insert \<Rightarrow> 'm policy \<Rightarrow> string list \<Rightarrow> decision \<Rightarrow> policy_error + 'm policy" where
  "add_prefix_rule insrt p tokens d =
     (case tokens of
        [] \<Rightarrow> Inl (InvalidPattern ''prefix cannot be empty'')
      | first_token # rest \<Rightarrow>
          Inr (p\<lparr>rules_by_program :=
            insrt first_token (single_token_rule tokens d) (rules_by_program p)\<rparr>))"

definition add_network_rule ::
  "'m policy \<Rightarrow> string \<Rightarrow> network_protocol \<Rightarrow> decision \<Rightarrow> string option \<Rightarrow> policy_error + 'm policy" where
  "add_network_rule p host protocol d just =
     and_then (normalize_network_rule_host host) (\<lambda>host.
       case just of
         Some raw \<Rightarrow>
           if str_trim raw = [] then Inl (InvalidRule ''justification cannot be empty'')
           else Inr (p\<lparr>network_rules := network_rules p @
             [\<lparr>net_host = host, net_protocol = protocol, net_decision = d, net_justification = just\<rparr>]\<rparr>)
       | None \<Rightarrow> Inr (p\<lparr>network_rules := network_rules p @
             [\<lparr>net_host = host, net_protocol = protocol, net_decision = d, net_justification = just\<rparr>]\<rparr>))"

definition set_host_executable_paths :: "'m policy \<Rightarrow> string \<Rightarrow> string list \<Rightarrow> 'm policy" where
  "set_host_executable_paths p name paths =
     p\<lparr>host_executables_by_name := (host_executables_by_name p)(name \<mapsto> paths)\<rparr>"

definition merge_overlay ::
  "'m mm_insert \<Rightarrow> 'm iter_all \<Rightarrow> 'm policy \<Rightarrow> 'm policy \<Rightarrow> 'm policy" where
  "merge_overlay insrt iter p overlay =
     \<lparr>rules_by_program =
        foldl (\<lambda>m (program, rules). foldl (\<lambda>m rule. insrt program rule m) m rules)
          (rules_by_program p) (iter (rules_by_program overlay)),
      network_rules = network_rules p @ network_rules overlay,
      host_executables_by_name = host_executables_by_name p ++ host_executables_by_name overlay\<rparr>"

definition upsert_domain :: "string list \<Rightarrow> string \<Rightarrow> string list" where
  "upsert_domain entries host = filter (\<lambda>entry. entry \<noteq> host) entries @ [host]"

fun compile_network_rule :: "string list \<times> string list \<Rightarrow> network_rule \<Rightarrow> string list \<times> string list" where
  "compile_network_rule (allowed, denied) rule =
     (case net_decision rule of
        Allow \<Rightarrow> (upsert_domain allowed (net_host rule), filter (\<lambda>e. e \<noteq> net_host rule) denied)
      | Forbidden \<Rightarrow> (filter (\<lambda>e. e \<noteq> net_host rule) allowed, upsert_domain denied (net_host rule))
      | Prompt \<Rightarrow> (allowed, denied))"

definition compiled_network_domains :: "'m policy \<Rightarrow> string list \<times> string list" where
  "compiled_network_domains p = foldl compile_network_rule ([], []) (network_rules p)"

definition render_pattern_token :: "pattern_token \<Rightarrow> string" where
  "render_pattern_token t =
     (case t of Single v \<Rightarrow> v | Alts vs \<Rightarrow> ''['' @ join_with ''|'' vs @ '']'')"

text \<open>Unix \<open>Path::file_name\<close> of an absolute path: the last component unless it is \<open>..\<close>.\<close>

definition file_name :: "string \<Rightarrow> string option" where
  "file_name path =
     (case rev (filter (\<lambda>c. c \<noteq> [] \<and> c \<noteq> ''.'') (split_on (CHR ''/'') path)) of
        [] \<Rightarrow> None
      | c # _ \<Rightarrow> if c = ''..'' then None else Some c)"

definition executable_path_lookup_key :: "string \<Rightarrow> string option" where
  "executable_path_lookup_key path = file_name path"

definition match_exact_rules ::
  "'m get_vec \<Rightarrow> 'm policy \<Rightarrow> string list \<Rightarrow> rule_match list option" where
  "match_exact_rules gv p cmd =
     (case cmd of
        [] \<Rightarrow> None
      | first # _ \<Rightarrow>
          Some (case gv (rules_by_program p) first of
                  None \<Rightarrow> []
                | Some rules \<Rightarrow> List.map_filter (\<lambda>rule. rule_matches rule cmd) rules))"

definition match_host_executable_rules ::
  "'m get_vec \<Rightarrow> (string \<Rightarrow> string option) \<Rightarrow> 'm policy \<Rightarrow> string list \<Rightarrow> rule_match list" where
  "match_host_executable_rules gv abs_path p cmd =
     (case cmd of
        [] \<Rightarrow> []
      | first # args \<Rightarrow>
          (case abs_path first of
             None \<Rightarrow> []
           | Some program \<Rightarrow>
               (case executable_path_lookup_key program of
                  None \<Rightarrow> []
                | Some basename \<Rightarrow>
                    (case gv (rules_by_program p) basename of
                       None \<Rightarrow> []
                     | Some rules \<Rightarrow>
                         if (case host_executables_by_name p basename of
                               None \<Rightarrow> False
                             | Some paths \<Rightarrow> \<not> list_ex (\<lambda>path. path = program) paths)
                         then []
                         else map (with_resolved_program program)
                           (List.map_filter (\<lambda>rule. rule_matches rule (basename # args)) rules)))))"

definition matches_for_command_with_options ::
  "'m get_vec \<Rightarrow> (string \<Rightarrow> string option) \<Rightarrow> 'm policy \<Rightarrow> string list
     \<Rightarrow> (string list \<Rightarrow> decision) option \<Rightarrow> match_options \<Rightarrow> rule_match list" where
  "matches_for_command_with_options gv abs_path p cmd fallback options =
     (let exact = (case match_exact_rules gv p cmd of
                     Some ms \<Rightarrow> if ms \<noteq> [] then Some ms else None | None \<Rightarrow> None);
          resolved = (if resolve_host_executables options
                      then (let ms = match_host_executable_rules gv abs_path p cmd
                            in if ms \<noteq> [] then Some ms else None)
                      else None);
          matched_rules = (case exact of Some ms \<Rightarrow> ms
                           | None \<Rightarrow> (case resolved of Some ms \<Rightarrow> ms | None \<Rightarrow> []))
      in if matched_rules = []
         then (case fallback of
                 Some f \<Rightarrow> [HeuristicsRuleMatch cmd (f cmd)]
               | None \<Rightarrow> matched_rules)
         else matched_rules)"

record evaluation =
  eval_decision :: decision
  eval_matched_rules :: "rule_match list"

text \<open>\<open>None\<close> is the panic of \<open>expect\<close> on an empty list of matches.\<close>

definition from_matches :: "rule_match list \<Rightarrow> evaluation option" where
  "from_matches ms =
     (case ms of
        [] \<Rightarrow> None
      | m # rest \<Rightarrow> Some \<lparr>eval_decision = foldl max (match_decision m) (map match_decision rest),
                         eval_matched_rules = ms\<rparr>)"

definition is_match :: "evaluation \<Rightarrow> bool" where
  "is_match e =
     list_ex (\<lambda>m. case m of HeuristicsRuleMatch _ _ \<Rightarrow> False | PrefixRuleMatch _ _ _ _ \<Rightarrow> True)
       (eval_matched_rules e)"

definition check_with_options ::
  "'m get_vec \<Rightarrow> (string \<Rightarrow> string option) \<Rightarrow> 'm policy \<Rightarrow> string list
     \<Rightarrow> (string list \<Rightarrow> decision) \<Rightarrow> match_options \<Rightarrow> evaluation option" where
  "check_with_options gv abs_path p cmd fallback options =
     from_matches (matches_for_command_with_options gv abs_path p cmd (Some fallback) options)"

definition check_multiple_with_options ::
  "'m get_vec \<Rightarrow> (string \<Rightarrow> string option) \<Rightarrow> 'm policy \<Rightarrow> string list list
     \<Rightarrow> (string list \<Rightarrow> decision) \<Rightarrow> match_options \<Rightarrow> evaluation option" where
  "check_multiple_with_options gv abs_path p commands fallback options =
     from_matches (concat (map (\<lambda>command.
       matches_for_command_with_options gv abs_path p command (Some fallback) options) commands))"

section \<open>Example checks of the policy parser\<close>

definition validate_match_examples ::
  "'m get_vec \<Rightarrow> (string \<Rightarrow> string option) \<Rightarrow> 'm policy \<Rightarrow> string list list \<Rightarrow> policy_error + unit" where
  "validate_match_examples gv abs_path p examples =
     (let unmatched = filter (\<lambda>example.
            matches_for_command_with_options gv abs_path p example None
              \<lparr>resolve_host_executables = True\<rparr> = []) examples
      in if unmatched = [] then Inr () else Inl (ExampleDidNotMatch unmatched))"

fun validate_not_match_examples ::
  "'m get_vec \<Rightarrow> (string \<Rightarrow> string option) \<Rightarrow> 'm policy \<Rightarrow> string list list \<Rightarrow> policy_error + unit" where
  "validate_not_match_examples gv abs_path p [] = Inr ()"
| "validate_not_match_examples gv abs_path p (example # rest) =
     (case matches_for_command_with_options gv abs_path p example None
             \<lparr>resolve_host_executables = True\<rparr> of
        [] \<Rightarrow> validate_not_match_examples gv abs_path p rest
      | _ # _ \<Rightarrow> Inl (ExampleDidMatch example))"

section \<open>Edits of the rules file\<close>

text \<open>The new contents of the file; the file is locked around the read and the write.\<close>

definition append_locked_line :: "string \<Rightarrow> string \<Rightarrow> string" where
  "append_locked_line contents line =
     (if list_ex (\<lambda>existing. existing = line) (str_lines contents) then contents
      else contents
        @ (if contents \<noteq> [] \<and> \<not> suffix [newline] contents then [newline] else [])
        @ line @ [newline])"

text \<open>\<open>split_inclusive('\n')\<close>: every piece keeps its newline, there is no empty last piece.\<close>

fun split_inclusive :: "string \<Rightarrow> string list" where
  "split_inclusive [] = []"
| "split_inclusive (c # s) =
     (if c = newline then [c] # split_inclusive s
      else (case split_inclusive s of [] \<Rightarrow> [[c]] | l # ls \<Rightarrow> (c # l) # ls))"

definition or_self :: "('a \<Rightarrow> 'a option) \<Rightarrow> 'a \<Rightarrow> 'a" where
  "or_self f x = (case f x of None \<Rightarrow> x | Some y \<Rightarrow> y)"

definition should_remove_rule ::
  "(string \<Rightarrow> string list option) \<Rightarrow> string \<Rightarrow> string list list \<Rightarrow> bool" where
  "should_remove_rule parse_json line banned =
     (let line = or_self (strip_suffix [newline]) line;
          line = or_self (strip_suffix [carriage_return]) line
      in case strip_prefix ''prefix_rule(pattern='' line of
           None \<Rightarrow> False
         | Some rest \<Rightarrow>
             (case strip_suffix '', decision=\"allow\")'' rest of
                None \<Rightarrow> False
              | Some pattern \<Rightarrow>
                  (case parse_json pattern of
                     None \<Rightarrow> False
                   | Some tokens \<Rightarrow> map (map to_ascii_lower) tokens \<in> set banned)))"

definition strip_banned_allow_rules ::
  "(string \<Rightarrow> string list option) \<Rightarrow> string \<Rightarrow> string list list \<Rightarrow> string" where
  "strip_banned_allow_rules parse_json contents banned_prefixes =
     (let banned = map (map (map to_ascii_lower)) banned_prefixes
      in concat (filter (\<lambda>line. \<not> should_remove_rule parse_json line banned)
                   (split_inclusive contents)))"

section \<open>Prefix matching\<close>

lemma matches_prefix_iff:
  "matches_prefix p cmd = Some pre \<longleftrightarrow>
     (\<exists>args rest. cmd = pre @ rest \<and> pre = pattern_first p # args \<and>
        list_all2 token_matches (pattern_rest p) args)"
proof
  assume a: "matches_prefix p cmd = Some pre"
  then obtain c cs where cmd: "cmd = c # cs" by (cases cmd) (auto simp: matches_prefix_def Let_def)
  with a show "\<exists>args rest. cmd = pre @ rest \<and> pre = pattern_first p # args \<and>
      list_all2 token_matches (pattern_rest p) args"
    by (intro exI [of _ "take (length (pattern_rest p)) cs"]
        exI [of _ "drop (length (pattern_rest p)) cs"])
      (auto simp: matches_prefix_def Let_def list_all2_iff list_all_iff split: if_splits)
next
  assume "\<exists>args rest. cmd = pre @ rest \<and> pre = pattern_first p # args \<and>
      list_all2 token_matches (pattern_rest p) args"
  then show "matches_prefix p cmd = Some pre"
    by (auto simp: matches_prefix_def Let_def list_all_iff list_all2_iff)
qed

section \<open>Decisions of evaluations\<close>

lemma foldl_max: "foldl max (a::decision) xs = Max (set (a # xs))"
  by (simp only: foldl_conv_fold Max.set_eq_fold max.commute)

lemma from_matches_Some:
  "from_matches ms = Some e \<longleftrightarrow>
     ms \<noteq> [] \<and> e = \<lparr>eval_decision = Max (match_decision ` set ms), eval_matched_rules = ms\<rparr>"
  by (cases ms) (auto simp: from_matches_def foldl_max)

lemma from_matches_None: "from_matches ms = None \<longleftrightarrow> ms = []"
  by (simp add: from_matches_def split: list.split)

lemma matches_nonempty:
  "matches_for_command_with_options gv ap p cmd (Some f) opt \<noteq> []"
  by (auto simp: matches_for_command_with_options_def Let_def split: option.splits)

lemmas check_defs = check_with_options_def check_multiple_with_options_def

lemma check_Some:
  "check_with_options gv ap p cmd f opt = Some e \<longleftrightarrow>
     e = \<lparr>eval_decision =
            Max (match_decision ` set (matches_for_command_with_options gv ap p cmd (Some f) opt)),
          eval_matched_rules = matches_for_command_with_options gv ap p cmd (Some f) opt\<rparr>"
  by (simp add: check_defs from_matches_Some matches_nonempty)

section \<open>Multimaps\<close>

text \<open>The documented behaviour of the \<open>multimap\<close> crate that the policy relies on.\<close>

locale multimap =
  fixes gv :: "'m \<Rightarrow> 'k \<Rightarrow> 'v list option"
    and insrt :: "'k \<Rightarrow> 'v \<Rightarrow> 'm \<Rightarrow> 'm"
    and iter :: "'m \<Rightarrow> ('k \<times> 'v list) list"
    and invar :: "'m \<Rightarrow> bool"
  assumes get_insert: "invar m \<Longrightarrow>
      gv (insrt k v m) = (gv m)(k \<mapsto> (case gv m k of None \<Rightarrow> [v] | Some vs \<Rightarrow> vs @ [v]))"
    and invar_insert: "invar m \<Longrightarrow> invar (insrt k v m)"
    and iter_distinct: "invar m \<Longrightarrow> distinct (map fst (iter m))"
    and iter_lookup: "invar m \<Longrightarrow> map_of (iter m) = gv m"
begin

definition values_of :: "'m \<Rightarrow> 'k \<Rightarrow> 'v list" where
  "values_of m k = (case gv m k of None \<Rightarrow> [] | Some vs \<Rightarrow> vs)"

lemma values_insert:
  "invar m \<Longrightarrow> values_of (insrt k v m) k' = values_of m k' @ (if k' = k then [v] else [])"
  by (simp add: values_of_def get_insert split: option.split)

lemma insert_all:
  "invar m \<Longrightarrow> invar (foldl (\<lambda>m v. insrt k v m) m vs) \<and>
     values_of (foldl (\<lambda>m v. insrt k v m) m vs) k' = values_of m k' @ (if k' = k then vs else [])"
  by (induction vs arbitrary: m) (auto simp: values_insert invar_insert)

lemma insert_groups:
  "invar m \<Longrightarrow> distinct (map fst groups) \<Longrightarrow>
     values_of (foldl (\<lambda>m (k, vs). foldl (\<lambda>m v. insrt k v m) m vs) m groups) k' =
       values_of m k' @ (case map_of groups k' of None \<Rightarrow> [] | Some vs \<Rightarrow> vs)"
proof (induction groups arbitrary: m)
  case (Cons g groups)
  obtain k vs where g: "g = (k, vs)" by force
  let ?m = "foldl (\<lambda>m v. insrt k v m) m vs"
  have none: "k' = k \<Longrightarrow> map_of groups k' = None"
    using Cons.prems(2) g by (simp add: map_of_eq_None_iff)
  have "invar ?m" using insert_all [OF Cons.prems(1)] by blast
  then show ?case
    using Cons g none insert_all [OF Cons.prems(1), of k vs k'] by auto
qed simp

lemma merge_values:
  assumes "invar m" "invar m'"
  shows "values_of (foldl (\<lambda>m (k, vs). foldl (\<lambda>m v. insrt k v m) m vs) m (iter m')) k =
    values_of m k @ values_of m' k"
  using assms insert_groups [of m "iter m'" k]
  by (simp add: iter_distinct iter_lookup values_of_def [of m'])

end

text \<open>A concrete multimap: an association list with one entry per key.\<close>

fun al_insert :: "'k \<Rightarrow> 'v \<Rightarrow> ('k \<times> 'v list) list \<Rightarrow> ('k \<times> 'v list) list" where
  "al_insert k v [] = [(k, [v])]"
| "al_insert k v ((k', vs) # m) = (if k' = k then (k', vs @ [v]) # m else (k', vs) # al_insert k v m)"

lemma al_insert_keys: "fst ` set (al_insert k v m) = insert k (fst ` set m)"
  by (induction k v m rule: al_insert.induct) auto

lemma al_insert_distinct: "distinct (map fst m) \<Longrightarrow> distinct (map fst (al_insert k v m))"
  by (induction k v m rule: al_insert.induct) (auto simp: al_insert_keys)

lemma al_insert_lookup:
  "map_of (al_insert k v m) =
     (map_of m)(k \<mapsto> (case map_of m k of None \<Rightarrow> [v] | Some vs \<Rightarrow> vs @ [v]))"
  by (induction k v m rule: al_insert.induct) (auto simp: fun_eq_iff)

interpretation al: multimap map_of al_insert "\<lambda>m. m" "\<lambda>m. distinct (map fst m)"
  by unfold_locales (simp_all add: al_insert_lookup al_insert_distinct)

section \<open>Overlays\<close>

definition rule_hits :: "'m get_vec \<Rightarrow> 'm policy \<Rightarrow> string list \<Rightarrow> rule_match list" where
  "rule_hits gv p cmd = (case match_exact_rules gv p cmd of None \<Rightarrow> [] | Some ms \<Rightarrow> ms)"

lemma matches_default:
  "matches_for_command_with_options gv ap p cmd f default_match_options =
     (if rule_hits gv p cmd = []
      then (case f of Some g \<Rightarrow> [HeuristicsRuleMatch cmd (g cmd)] | None \<Rightarrow> [])
      else rule_hits gv p cmd)"
  by (auto simp: matches_for_command_with_options_def rule_hits_def default_match_options_def
      Let_def split: option.splits)

lemma rule_hits_merge:
  assumes "multimap gv insrt iter invar"
    and "invar (rules_by_program p)" "invar (rules_by_program q)"
  shows "rule_hits gv (merge_overlay insrt iter p q) cmd = rule_hits gv p cmd @ rule_hits gv q cmd"
proof -
  have hits: "rule_hits gv r cmd =
      (case cmd of [] \<Rightarrow> [] | c # _ \<Rightarrow>
        List.map_filter (\<lambda>rule. rule_matches rule cmd)
          (multimap.values_of gv (rules_by_program r) c))" for r
    using multimap.values_of_def [OF assms(1)]
    by (auto simp: rule_hits_def match_exact_rules_def map_filter_simps split: list.split option.split)
  show ?thesis
    unfolding hits
    by (simp add: merge_overlay_def multimap.merge_values [OF assms] split: list.split)
qed

section \<open>Network domains\<close>

text \<open>The last rule for a host that is not a prompt rule.\<close>

definition last_ruling :: "network_rule list \<Rightarrow> string \<Rightarrow> decision option" where
  "last_ruling rules host =
     (case rev (filter (\<lambda>r. net_host r = host \<and> net_decision r \<noteq> Prompt) rules) of
        [] \<Rightarrow> None | r # _ \<Rightarrow> Some (net_decision r))"

lemma last_ruling_snoc:
  "last_ruling (rules @ [r]) host =
     (if net_host r = host \<and> net_decision r \<noteq> Prompt then Some (net_decision r)
      else last_ruling rules host)"
  by (simp add: last_ruling_def)

definition domains_agree :: "network_rule list \<Rightarrow> string list \<times> string list \<Rightarrow> bool" where
  "domains_agree rules ad \<longleftrightarrow>
     distinct (fst ad) \<and> distinct (snd ad) \<and>
     (\<forall>h. h \<in> set (fst ad) \<longleftrightarrow> last_ruling rules h = Some Allow) \<and>
     (\<forall>h. h \<in> set (snd ad) \<longleftrightarrow> last_ruling rules h = Some Forbidden)"

lemma compile_step:
  "domains_agree rules ad \<Longrightarrow> domains_agree (rules @ [r]) (compile_network_rule ad r)"
  by (cases ad; cases "net_decision r")
     (auto simp: domains_agree_def last_ruling_snoc upsert_domain_def)

lemma compile_all: "domains_agree rules (foldl compile_network_rule ([], []) rules)"
proof (induction rules rule: rev_induct)
  case Nil
  show ?case by (simp add: domains_agree_def last_ruling_def)
next
  case (snoc r rules)
  then show ?case by (simp add: compile_step)
qed

section \<open>Hosts\<close>

lemma contains_char [simp]: "contains_sub s [c] \<longleftrightarrow> c \<in> set s"
  unfolding contains_sub_def by (induction s) auto

lemma normalize_host_InrD:
  assumes "normalize_network_rule_host raw = Inr h"
  shows "h \<noteq> [] \<and> CHR ''*'' \<notin> set h \<and> \<not> any_whitespace h \<and> (\<exists>g. h = map to_ascii_lower g)"
  using assms
  by (auto simp: normalize_network_rule_host_def Let_def and_then_Inr_iff split: if_splits)

lemma to_ascii_lower_not_upper: "\<not> is_ascii_uppercase (to_ascii_lower c)"
  by (auto simp: to_ascii_lower_def is_ascii_uppercase_def)

section \<open>Rules file\<close>

lemma split_on_append_sep: "split_on c (a @ c # b) = split_on c a @ split_on c b"
  by (induction a) (auto split: list.splits)

lemma str_lines_terminated:
  "newline \<notin> set line \<Longrightarrow>
     str_lines (u @ newline # line @ [newline]) = map drop_cr (split_on newline u) @ [drop_cr line]"
  "newline \<notin> set line \<Longrightarrow> str_lines (line @ [newline]) = [drop_cr line]"
  using split_on_append_sep [of newline line "[]"]
  by (simp_all add: str_lines_def Let_def split_on_append_sep split_on_id butlast_append)

lemma append_locked_line_mem:
  assumes "newline \<notin> set line" "drop_cr line = line"
  shows "line \<in> set (str_lines (append_locked_line contents line))"
proof (cases "line \<in> set (str_lines contents)")
  case True
  then show ?thesis by (simp add: append_locked_line_def list_ex_iff)
next
  case False
  show ?thesis
  proof (cases "contents = []")
    case True
    with False assms show ?thesis
      by (simp add: append_locked_line_def list_ex_iff str_lines_terminated)
  next
    case nonempty: False
    define u where "u = (if suffix [newline] contents then butlast contents else contents)"
    have "append_locked_line contents line = u @ newline # line @ [newline]"
      using False nonempty
      by (auto simp: append_locked_line_def list_ex_iff u_def suffix_def)
    then show ?thesis using assms by (simp add: str_lines_terminated)
  qed
qed

lemma split_inclusive_concat [simp]: "concat (split_inclusive s) = s"
  by (induction s) (auto split: list.splits)

text \<open>Lists of lines as \<open>split_inclusive\<close> makes them: only the last may lack its newline.\<close>

fun inclusive_lines :: "string list \<Rightarrow> bool" where
  "inclusive_lines [] = True"
| "inclusive_lines (l # ls) =
     (l \<noteq> [] \<and> newline \<notin> set (butlast l) \<and> (ls \<noteq> [] \<longrightarrow> last l = newline) \<and> inclusive_lines ls)"

lemma inclusive_split: "inclusive_lines (split_inclusive s)"
  by (induction s) (auto split: list.splits)

lemma inclusive_filter: "inclusive_lines ls \<Longrightarrow> inclusive_lines (filter P ls)"
  by (induction ls) auto

lemma split_inclusive_line:
  "newline \<notin> set k \<Longrightarrow> split_inclusive (k @ newline # s) = (k @ [newline]) # split_inclusive s"
  "newline \<notin> set k \<Longrightarrow> split_inclusive k = (if k = [] then [] else [k])"
  by (induction k) auto

lemma split_inclusive_last: "l \<noteq> [] \<Longrightarrow> newline \<notin> set (butlast l) \<Longrightarrow> split_inclusive l = [l]"
  using split_inclusive_line(1) [of "butlast l" "[]"] split_inclusive_line(2) [of l]
  by (cases l rule: rev_cases; cases "last l = newline") auto

lemma resplit_inclusive: "inclusive_lines ls \<Longrightarrow> split_inclusive (concat ls) = ls"
proof (induction ls)
  case (Cons l ls)
  show ?case
  proof (cases "ls = []")
    case True
    with Cons show ?thesis by (simp add: split_inclusive_last)
  next
    case False
    with Cons.prems have "l = butlast l @ [newline]" "newline \<notin> set (butlast l)"
      using append_butlast_last_id [of l] by auto
    then show ?thesis
      using Cons split_inclusive_line(1) [of "butlast l" "concat ls"]
      by (metis append.assoc append_Cons append_Nil concat.simps(2) inclusive_lines.simps(2))
  qed
qed simp

section \<open>Properties\<close>

text \<open>A policy with one rule for \<open>rm -r\<close>, used in the witnesses.\<close>

definition demo_policy :: "decision \<Rightarrow> (string \<times> prefix_rule list) list policy" where
  "demo_policy d =
     \<lparr>rules_by_program = al_insert ''rm'' (single_token_rule [''rm'', ''-r''] d) [],
      network_rules = [], host_executables_by_name = (\<lambda>_. None)\<rparr>"


lemma Max_UN:
  fixes A :: "'i \<Rightarrow> decision set"
  assumes "finite I" "I \<noteq> {}" "\<And>i. i \<in> I \<Longrightarrow> finite (A i) \<and> A i \<noteq> {}"
  shows "Max (\<Union>i \<in> I. A i) = Max ((\<lambda>i. Max (A i)) ` I)"
proof (rule Max_eqI)
  show "finite (\<Union>i \<in> I. A i)" using assms by blast
  show "y \<le> Max ((\<lambda>i. Max (A i)) ` I)" if "y \<in> (\<Union>i \<in> I. A i)" for y
  proof -
    from that obtain i where "i \<in> I" "y \<in> A i" by blast
    then have "y \<le> Max (A i)" "Max (A i) \<le> Max ((\<lambda>i. Max (A i)) ` I)"
      using assms by auto
    then show ?thesis by (rule order_trans)
  qed
  have "Max ((\<lambda>i. Max (A i)) ` I) \<in> (\<lambda>i. Max (A i)) ` I"
    using assms by (intro Max_in) auto
  then obtain i where i: "i \<in> I" "Max ((\<lambda>i. Max (A i)) ` I) = Max (A i)" by blast
  moreover have "Max (A i) \<in> A i" using assms(3) [OF i(1)] by (intro Max_in) auto
  ultimately show "Max ((\<lambda>i. Max (A i)) ` I) \<in> (\<Union>i \<in> I. A i)" by (simp only: UN_iff) blast
qed

text \<open>Evaluating a command always yields an evaluation (the code's expect never fires), and
  its decision is the most severe decision among the rules that matched.\<close>

theorem check_decision:
  "\<exists>e. check_with_options gv abs_path p cmd fallback options = Some e \<and>
       eval_matched_rules e =
         matches_for_command_with_options gv abs_path p cmd (Some fallback) options \<and>
       eval_decision e = Max (match_decision ` set (eval_matched_rules e)) \<and>
       eval_matched_rules e \<noteq> []"
  by (simp add: check_Some matches_nonempty)

text \<open>A non-empty list of commands is evaluated to the most severe of the evaluations of the
  single commands, so a script is allowed only if every command in it is.\<close>

theorem check_multiple_decision:
  assumes "commands \<noteq> []"
  shows "\<exists>e. check_multiple_with_options gv abs_path p commands fallback options = Some e \<and>
    eval_decision e = Max ((\<lambda>cmd. eval_decision
      (the (check_with_options gv abs_path p cmd fallback options))) ` set commands)"
proof -
  let ?m = "\<lambda>cmd. matches_for_command_with_options gv abs_path p cmd (Some fallback) options"
  have single: "eval_decision (the (check_with_options gv abs_path p cmd fallback options)) =
      Max (match_decision ` set (?m cmd))" for cmd
    using check_Some [of gv abs_path p cmd fallback options] by (metis evaluation.select_convs(1) option.sel)
  have "Max (match_decision ` (\<Union>c \<in> set commands. set (?m c))) =
      Max ((\<lambda>c. Max (match_decision ` set (?m c))) ` set commands)"
    unfolding image_UN using assms by (intro Max_UN) (auto simp: matches_nonempty)
  then show ?thesis
    using assms matches_nonempty [of gv abs_path p _ fallback options]
    by (auto simp: single check_multiple_with_options_def from_matches_Some)
qed

theorem check_multiple_decision_witness:
  "\<exists>e. check_multiple_with_options map_of Some (demo_policy Forbidden)
       [[''ls''], [''rm'', ''-r'', ''x'']] (\<lambda>_. Allow) default_match_options = Some e \<and>
     eval_decision e = Max ((\<lambda>cmd. eval_decision (the (check_with_options map_of Some
       (demo_policy Forbidden) cmd (\<lambda>_. Allow) default_match_options)))
         ` set [[''ls''], [''rm'', ''-r'', ''x'']])"
  by (rule check_multiple_decision) simp

text \<open>A prefix pattern matches exactly the commands that start with its first token
  followed by one token per pattern element, each accepted by its element; the match returned is that
  prefix.\<close>

theorem matches_prefix_correct:
  "matches_prefix p cmd = Some pre \<longleftrightarrow>
     (\<exists>args rest. cmd = pre @ rest \<and> pre = pattern_first p # args \<and>
        list_all2 token_matches (pattern_rest p) args)"
  by (rule matches_prefix_iff)

text \<open>A rule found through the basename of an absolute program path is reported with
  that program as resolved program, and only if the program is one of the paths registered for the
  basename, when paths are registered for it.\<close>

theorem host_executable_match:
  assumes "m \<in> set (match_host_executable_rules gv abs_path p (first # args))"
  shows "\<exists>program basename.
    abs_path first = Some program \<and> executable_path_lookup_key program = Some basename \<and>
    resolved_program m = Some program \<and>
    (host_executables_by_name p basename = None \<or>
     program \<in> set (the (host_executables_by_name p basename)))"
proof -
  obtain program where prog: "abs_path first = Some program"
    using assms by (fastforce simp: match_host_executable_rules_def split: option.splits)
  then obtain basename where base: "executable_path_lookup_key program = Some basename"
    using assms by (fastforce simp: match_host_executable_rules_def split: option.splits)
  obtain rules where m: "m \<in> set (map (with_resolved_program program)
      (List.map_filter (\<lambda>rule. rule_matches rule (basename # args)) rules))"
    using assms prog base
    by (cases "gv (rules_by_program p) basename")
       (auto simp: match_host_executable_rules_def split: if_splits)
  have listed: "host_executables_by_name p basename = None \<or>
      program \<in> set (the (host_executables_by_name p basename))"
    using assms prog base
    by (cases "gv (rules_by_program p) basename"; cases "host_executables_by_name p basename")
       (auto simp: match_host_executable_rules_def list_ex_iff split: if_splits)
  from m have "resolved_program m = Some program"
    by (auto simp: List.map_filter_def rule_matches_def)
  with prog base listed show ?thesis by blast
qed

theorem host_executable_match_witness:
  "\<exists>program basename.
    Some ''/bin/rm'' = Some program \<and> executable_path_lookup_key program = Some basename \<and>
    resolved_program (PrefixRuleMatch [''rm'', ''-r''] Forbidden (Some ''/bin/rm'') None) = Some program \<and>
    (host_executables_by_name (set_host_executable_paths (demo_policy Forbidden) ''rm'' [''/bin/rm'']) basename
       = None \<or>
     program \<in> set (the (host_executables_by_name
       (set_host_executable_paths (demo_policy Forbidden) ''rm'' [''/bin/rm'']) basename)))"
proof -
  have key: "executable_path_lookup_key ''/bin/rm'' = Some ''rm''"
    by (simp add: executable_path_lookup_key_def file_name_def)
  have "PrefixRuleMatch [''rm'', ''-r''] Forbidden (Some ''/bin/rm'') None \<in>
      set (match_host_executable_rules map_of Some
        (set_host_executable_paths (demo_policy Forbidden) ''rm'' [''/bin/rm''])
        [''/bin/rm'', ''-r'', ''x''])"
    by (simp add: match_host_executable_rules_def key set_host_executable_paths_def demo_policy_def
        rule_matches_def matches_prefix_def single_token_rule_def List.map_filter_def)
  from host_executable_match [OF this] show ?thesis .
qed



text \<open>In the compiled domain lists a host is allowed (denied) exactly if the last rule
  for it that is not a prompt rule allows (forbids) it; no list repeats a host.\<close>

theorem compiled_domains_last_rule_wins:
  "domains_agree (network_rules p) (compiled_network_domains p)"
  unfolding compiled_network_domains_def by (rule compile_all)

text \<open>A host accepted for a network rule is non-empty, has no wildcard, no whitespace and no
  upper-case ASCII letter.\<close>

theorem normalized_host_shape:
  assumes "normalize_network_rule_host raw = Inr host"
  shows "host \<noteq> [] \<and> CHR ''*'' \<notin> set host \<and> \<not> any_whitespace host \<and>
    \<not> list_ex is_ascii_uppercase host"
  using normalize_host_InrD [OF assms] by (auto simp: to_ascii_lower_not_upper list_ex_iff)

theorem normalized_host_shape_witness:
  "normalize_network_rule_host '' API.Example.com.:443'' = Inr ''api.example.com'' \<and>
   ''api.example.com'' \<noteq> [] \<and> CHR ''*'' \<notin> set ''api.example.com'' \<and>
   \<not> any_whitespace ''api.example.com'' \<and> \<not> list_ex is_ascii_uppercase ''api.example.com''"
proof -
  have h: "normalize_network_rule_host '' API.Example.com.:443'' = Inr ''api.example.com''"
    by code_simp
  show ?thesis using h normalized_host_shape [OF h] by blast
qed

text \<open>Appending a rule line to the rules file is idempotent: once the line is there,
  appending it again leaves the file as it is.\<close>

theorem append_rule_idempotent:
  assumes "newline \<notin> set line" "drop_cr line = line"
  shows "append_locked_line (append_locked_line contents line) line = append_locked_line contents line"
  using append_locked_line_mem [OF assms, of contents]
  by (simp add: append_locked_line_def [of "append_locked_line contents line"] list_ex_iff)

theorem append_rule_idempotent_witness:
  "append_locked_line (append_locked_line ''a'' ''b'') ''b'' = append_locked_line ''a'' ''b'' \<and>
   append_locked_line ''a'' ''b'' = ''a'' @ [newline] @ ''b'' @ [newline]"
proof -
  have "append_locked_line ''a'' ''b'' = ''a'' @ [newline] @ ''b'' @ [newline]" by code_simp
  moreover have "drop_cr ''b'' = ''b''" by code_simp
  ultimately show ?thesis using append_rule_idempotent [of "''b''" "''a''"] by simp
qed

text \<open>The migration of the rules file removes exactly the banned lines: the lines of the
  result are the other lines of the file, unchanged and in order.\<close>

theorem migration_removes_exactly_banned:
  "split_inclusive (strip_banned_allow_rules parse_json contents banned) =
     filter (\<lambda>line. \<not> should_remove_rule parse_json line (map (map (map to_ascii_lower)) banned))
       (split_inclusive contents)"
  unfolding strip_banned_allow_rules_def Let_def
  by (rule resplit_inclusive) (rule inclusive_filter [OF inclusive_split])

end
