(* ===== verification/Patch_Types.thy ===== *)
theory Patch_Types
  imports Ava_Prelude
begin

text \<open>
  The data of \<^verbatim>\<open>apply-patch/src\<close>: hunks and chunks (\<^verbatim>\<open>parser.rs\<close>), the update mode
  and the errors (\<^verbatim>\<open>lib.rs\<close>). Paths are strings, as the patch spells them.
\<close>

datatype update_mode = NormalizeToLf | PreserveLineEndings

datatype parse_error =
    InvalidPatchError string
  | InvalidHunkError string nat

record update_file_chunk =
  change_context :: "string option"
  old_lines :: "string list"
  new_lines :: "string list"
  context_line_indices :: "(nat \<times> nat) list"
  is_end_of_file :: bool

definition default_chunk :: update_file_chunk where
  "default_chunk = \<lparr>change_context = None, old_lines = [], new_lines = [],
     context_line_indices = [], is_end_of_file = False\<rparr>"

definition push_context_line :: "update_file_chunk \<Rightarrow> string \<Rightarrow> update_file_chunk" where
  "push_context_line c line =
     c\<lparr>context_line_indices := context_line_indices c @ [(length (old_lines c), length (new_lines c))],
       old_lines := old_lines c @ [line], new_lines := new_lines c @ [line]\<rparr>"

datatype hunk =
    AddFile (hunk_source: string) (add_contents: string)
  | DeleteFile (hunk_source: string)
  | UpdateFile (hunk_source: string) (move_path: "string option") (update_chunks: "update_file_chunk list")

text \<open>The path a hunk affects: the destination of a rename.\<close>

fun hunk_path :: "hunk \<Rightarrow> string" where
  "hunk_path (AddFile path _) = path"
| "hunk_path (DeleteFile path) = path"
| "hunk_path (UpdateFile _ (Some path) _) = path"
| "hunk_path (UpdateFile path None _) = path"

text \<open>
  The failures of computing an update. \<open>UpdatePanic\<close> stands for an arithmetic underflow or an
  out-of-range slice or insertion in the code.
\<close>

datatype update_error = ComputeReplacements string | UpdatePanic

section \<open>Well-formed chunks\<close>

text \<open>
  The context pairs are increasing in both components and point at equal lines of both sides.
\<close>

fun context_pairs_ok :: "nat \<Rightarrow> nat \<Rightarrow> string list \<Rightarrow> string list \<Rightarrow> (nat \<times> nat) list \<Rightarrow> bool" where
  "context_pairs_ok a b olds news [] = (a \<le> length olds \<and> b \<le> length news)"
| "context_pairs_ok a b olds news ((i, j) # ps) =
     (a \<le> i \<and> b \<le> j \<and> i < length olds \<and> j < length news \<and> olds ! i = news ! j \<and>
      context_pairs_ok (Suc i) (Suc j) olds news ps)"

definition chunk_wf :: "update_file_chunk \<Rightarrow> bool" where
  "chunk_wf c \<longleftrightarrow> context_pairs_ok 0 0 (old_lines c) (new_lines c) (context_line_indices c)"

lemma context_pairs_ok_append:
  "context_pairs_ok a b olds news ps \<Longrightarrow> context_pairs_ok a b (olds @ os) (news @ ns) ps"
  by (induction a b olds news ps rule: context_pairs_ok.induct) (auto simp: nth_append)

lemma context_pairs_ok_snoc:
  "context_pairs_ok a b olds news ps \<Longrightarrow>
     context_pairs_ok a b (olds @ [l]) (news @ [l]) (ps @ [(length olds, length news)])"
  by (induction a b olds news ps rule: context_pairs_ok.induct) (auto simp: nth_append)

lemma chunk_wf_default: "chunk_wf default_chunk"
  by (simp add: chunk_wf_def default_chunk_def)

lemma chunk_wf_context: "chunk_wf (c\<lparr>change_context := x\<rparr>) = chunk_wf c"
  by (simp add: chunk_wf_def)

lemma chunk_wf_eof: "chunk_wf (c\<lparr>is_end_of_file := x\<rparr>) = chunk_wf c"
  by (simp add: chunk_wf_def)

lemma chunk_wf_push_context: "chunk_wf c \<Longrightarrow> chunk_wf (push_context_line c l)"
  by (simp add: chunk_wf_def push_context_line_def context_pairs_ok_snoc)

lemma chunk_wf_push_old: "chunk_wf c \<Longrightarrow> chunk_wf (c\<lparr>old_lines := old_lines c @ [l]\<rparr>)"
  using context_pairs_ok_append [of 0 0 "old_lines c" "new_lines c" "context_line_indices c" "[l]" "[]"]
  by (simp add: chunk_wf_def)

lemma chunk_wf_push_new: "chunk_wf c \<Longrightarrow> chunk_wf (c\<lparr>new_lines := new_lines c @ [l]\<rparr>)"
  using context_pairs_ok_append [of 0 0 "old_lines c" "new_lines c" "context_line_indices c" "[]" "[l]"]
  by (simp add: chunk_wf_def)

lemmas chunk_wf_intros =
  chunk_wf_default chunk_wf_push_context chunk_wf_push_old chunk_wf_push_new

end
