(* ===== verification/Patch_Parser.thy ===== *)
theory Patch_Parser
  imports Patch_Types
begin

text \<open>
  The patch parser: the boundary checks of \<^verbatim>\<open>apply-patch/src/parser.rs\<close> and the line-driven
  state machine of \<^verbatim>\<open>apply-patch/src/streaming_parser.rs\<close>. The state machine is fed text in
  arbitrary pieces; a line is processed when its newline arrives, the rest waits in the line
  buffer. On an error the parser keeps its hunks, the offending line is consumed and the rest of
  the piece is dropped.

  Results: the outcome does not depend on how the text is cut; the hunks of an accepted patch are
  never empty and their chunks are well-formed, which is what the update computation needs; a patch
  printed from a structured document is parsed back to the hunks of that document.
\<close>

section \<open>Markers and messages\<close>

definition BEGIN_PATCH_MARKER :: string where "BEGIN_PATCH_MARKER = ''*** Begin Patch''"
definition END_PATCH_MARKER :: string where "END_PATCH_MARKER = ''*** End Patch''"
definition ADD_FILE_MARKER :: string where "ADD_FILE_MARKER = ''*** Add File: ''"
definition DELETE_FILE_MARKER :: string where "DELETE_FILE_MARKER = ''*** Delete File: ''"
definition UPDATE_FILE_MARKER :: string where "UPDATE_FILE_MARKER = ''*** Update File: ''"
definition MOVE_TO_MARKER :: string where "MOVE_TO_MARKER = ''*** Move to: ''"
definition EOF_MARKER :: string where "EOF_MARKER = ''*** End of File''"
definition CHANGE_CONTEXT_MARKER :: string where "CHANGE_CONTEXT_MARKER = ''@@ ''"
definition EMPTY_CHANGE_CONTEXT_MARKER :: string where "EMPTY_CHANGE_CONTEXT_MARKER = ''@@''"
definition ENVIRONMENT_ID_MARKER :: string where "ENVIRONMENT_ID_MARKER = ''*** Environment ID:''"

lemmas marker_defs = BEGIN_PATCH_MARKER_def END_PATCH_MARKER_def ADD_FILE_MARKER_def
  DELETE_FILE_MARKER_def UPDATE_FILE_MARKER_def MOVE_TO_MARKER_def EOF_MARKER_def
  CHANGE_CONTEXT_MARKER_def EMPTY_CHANGE_CONTEXT_MARKER_def ENVIRONMENT_ID_MARKER_def

definition quoted :: "string \<Rightarrow> string" where
  "quoted s = [CHR 0x27] @ s @ [CHR 0x27]"

definition first_line_error :: parse_error where
  "first_line_error = InvalidPatchError
     (''The first line of the patch must be '' @ quoted ''*** Begin Patch'')"

definition last_line_error :: parse_error where
  "last_line_error = InvalidPatchError
     (''The last line of the patch must be '' @ quoted ''*** End Patch'')"

definition invalid_header_message :: "string \<Rightarrow> string" where
  "invalid_header_message trimmed =
     quoted trimmed @ '' is not a valid hunk header. Valid hunk headers: ''
     @ quoted ''*** Add File: {path}'' @ '', '' @ quoted ''*** Delete File: {path}'' @ '', ''
     @ quoted ''*** Update File: {path}''"

definition unexpected_line_message :: "string \<Rightarrow> string" where
  "unexpected_line_message line =
     ''Unexpected line found in update hunk: '' @ quoted line @ ''. Every line should start with ''
     @ quoted '' '' @ '' (context line), '' @ quoted ''+'' @ '' (added line), or '' @ quoted ''-''
     @ '' (removed line)''"

definition expected_marker_message :: "string \<Rightarrow> string" where
  "expected_marker_message line =
     ''Expected update hunk to start with a @@ context marker, got: '' @ quoted line"

section \<open>The state machine\<close>

datatype parser_mode =
    NotStarted | StartedPatch | InAddFile | InDeleteFile | InUpdateFile nat | EndedPatch

record streaming_parser =
  line_buffer :: string
  line_number :: nat
  parser_mode :: parser_mode
  hunks :: "hunk list"
  environment_id :: "string option"

definition default_parser :: streaming_parser where
  "default_parser = \<lparr>line_buffer = [], line_number = 0, parser_mode = NotStarted, hunks = [],
     environment_id = None\<rparr>"

definition empty_chunk :: "update_file_chunk \<Rightarrow> bool" where
  "empty_chunk c \<longleftrightarrow> old_lines c = [] \<and> new_lines c = []"

definition last_chunk_empty :: "update_file_chunk list \<Rightarrow> bool" where
  "last_chunk_empty chunks \<longleftrightarrow> chunks \<noteq> [] \<and> empty_chunk (last chunks)"

definition ensure_update_hunk_is_not_empty ::
  "streaming_parser \<Rightarrow> string \<Rightarrow> parse_error + unit" where
  "ensure_update_hunk_is_not_empty p line =
     (if hunks p = [] then Inr ()
      else case last (hunks p) of
        UpdateFile path _ chunks \<Rightarrow>
          (case (chunks, parser_mode p) of
             ([], InUpdateFile hunk_line_number) \<Rightarrow>
               Inl (InvalidHunkError (''Update file hunk for path '' @ quoted path @ '' is empty'')
                 hunk_line_number)
           | _ \<Rightarrow>
               if last_chunk_empty chunks
               then (if line = END_PATCH_MARKER
                     then Inl (InvalidHunkError ''Update hunk does not contain any lines'' (line_number p))
                     else Inl (InvalidHunkError (unexpected_line_message line) (line_number p)))
               else Inr ())
      | _ \<Rightarrow> Inr ())"

text \<open>\<open>None\<close>: the line is neither a header nor the end marker (the code's \<open>Ok(false)\<close>).\<close>

definition handle_hunk_headers_and_end_patch ::
  "streaming_parser \<Rightarrow> string \<Rightarrow> parse_error + streaming_parser option" where
  "handle_hunk_headers_and_end_patch p trimmed =
     (case (parser_mode p, strip_prefix ENVIRONMENT_ID_MARKER trimmed) of
        (StartedPatch, Some rest) \<Rightarrow>
          if environment_id p \<noteq> None
          then Inl (InvalidPatchError ''apply_patch environment_id cannot be specified more than once'')
          else if str_trim rest = []
          then Inl (InvalidPatchError ''apply_patch environment_id cannot be empty'')
          else Inr (Some (p\<lparr>environment_id := Some (str_trim rest)\<rparr>))
      | _ \<Rightarrow>
     (if trimmed = END_PATCH_MARKER
      then and_then (ensure_update_hunk_is_not_empty p trimmed) (\<lambda>_.
             Inr (Some (p\<lparr>parser_mode := EndedPatch\<rparr>)))
      else case strip_prefix ADD_FILE_MARKER trimmed of
        Some path \<Rightarrow>
          and_then (ensure_update_hunk_is_not_empty p trimmed) (\<lambda>_.
            Inr (Some (p\<lparr>hunks := hunks p @ [AddFile path []], parser_mode := InAddFile\<rparr>)))
      | None \<Rightarrow>
     (case strip_prefix DELETE_FILE_MARKER trimmed of
        Some path \<Rightarrow>
          and_then (ensure_update_hunk_is_not_empty p trimmed) (\<lambda>_.
            Inr (Some (p\<lparr>hunks := hunks p @ [DeleteFile path], parser_mode := InDeleteFile\<rparr>)))
      | None \<Rightarrow>
     (case strip_prefix UPDATE_FILE_MARKER trimmed of
        Some path \<Rightarrow>
          and_then (ensure_update_hunk_is_not_empty p trimmed) (\<lambda>_.
            Inr (Some (p\<lparr>hunks := hunks p @ [UpdateFile path None []],
              parser_mode := InUpdateFile (line_number p)\<rparr>)))
      | None \<Rightarrow> Inr None))))"

definition with_last_chunk ::
  "(update_file_chunk \<Rightarrow> update_file_chunk) \<Rightarrow> update_file_chunk list \<Rightarrow> update_file_chunk list" where
  "with_last_chunk f chunks =
     (let cs = (if chunks = [] then [default_chunk] else chunks) in butlast cs @ [f (last cs)])"

text \<open>
  A line inside an update hunk that is not a header: the new move path and chunks of the hunk, or
  the error. \<open>num\<close> is the current line number.
\<close>

definition update_hunk_line ::
  "nat \<Rightarrow> string \<Rightarrow> string option \<Rightarrow> update_file_chunk list
     \<Rightarrow> parse_error + (string option \<times> update_file_chunk list)" where
  "update_hunk_line num line move chunks =
     (let update_line = trim_end line;
          is_marker = (update_line = EMPTY_CHANGE_CONTEXT_MARKER \<or> prefix CHANGE_CONTEXT_MARKER update_line)
      in if chunks \<noteq> [] \<and> is_end_of_file (last chunks) \<and> update_line = [] then Inr (move, chunks)
      else if chunks \<noteq> [] \<and> is_end_of_file (last chunks) \<and> \<not> is_marker
      then Inl (InvalidHunkError (expected_marker_message line) num)
      else if chunks = [] \<and> move = None \<and> prefix MOVE_TO_MARKER update_line
      then Inr (strip_prefix MOVE_TO_MARKER update_line, chunks)
      else if is_marker \<and> last_chunk_empty chunks
      then Inl (InvalidHunkError (unexpected_line_message line) num)
      else if update_line = EMPTY_CHANGE_CONTEXT_MARKER then Inr (move, chunks @ [default_chunk])
      else (case strip_prefix CHANGE_CONTEXT_MARKER update_line of
        Some ctx \<Rightarrow> Inr (move, chunks @ [default_chunk\<lparr>change_context := Some ctx\<rparr>])
      | None \<Rightarrow>
      if update_line = EOF_MARKER
      then (if last_chunk_empty chunks
            then Inl (InvalidHunkError ''Update hunk does not contain any lines'' num)
            else if chunks = [] then Inr (move, chunks)
            else Inr (move, with_last_chunk (\<lambda>c. c\<lparr>is_end_of_file := True\<rparr>) chunks))
      else (case line of
        [] \<Rightarrow> Inr (move, with_last_chunk (\<lambda>c. push_context_line c []) chunks)
      | b # rest \<Rightarrow>
          if b = CHR '' '' then Inr (move, with_last_chunk (\<lambda>c. push_context_line c rest) chunks)
          else if b = CHR ''+''
          then Inr (move, with_last_chunk (\<lambda>c. c\<lparr>new_lines := new_lines c @ [rest]\<rparr>) chunks)
          else if b = CHR ''-''
          then Inr (move, with_last_chunk (\<lambda>c. c\<lparr>old_lines := old_lines c @ [rest]\<rparr>) chunks)
          else if chunks \<noteq> [] \<and> \<not> empty_chunk (last chunks)
          then Inl (InvalidHunkError (expected_marker_message line) num)
          else Inl (InvalidHunkError (unexpected_line_message line) num))))"

definition add_file_line :: "streaming_parser \<Rightarrow> string \<Rightarrow> parse_error + streaming_parser" where
  "add_file_line p line =
     (let err = Inl (InvalidHunkError (invalid_header_message (str_trim line)) (line_number p))
      in case (strip_prefix ''+'' line, hunks p) of
        (Some line_to_add, _ # _) \<Rightarrow>
          (case last (hunks p) of
             AddFile path contents \<Rightarrow>
               Inr (p\<lparr>hunks := butlast (hunks p) @ [AddFile path (contents @ line_to_add @ [newline])]\<rparr>)
           | _ \<Rightarrow> err)
      | _ \<Rightarrow> err)"

definition update_file_line :: "streaming_parser \<Rightarrow> string \<Rightarrow> parse_error + streaming_parser" where
  "update_file_line p line =
     (let err = Inl (InvalidHunkError (unexpected_line_message line) (line_number p))
      in if hunks p = [] then err
         else case last (hunks p) of
           UpdateFile path move chunks \<Rightarrow>
             and_then (update_hunk_line (line_number p) line move chunks) (\<lambda>(move', chunks').
               Inr (p\<lparr>hunks := butlast (hunks p) @ [UpdateFile path move' chunks']\<rparr>))
         | _ \<Rightarrow> err)"

definition header_or ::
  "streaming_parser \<Rightarrow> string \<Rightarrow> (parse_error + streaming_parser) \<Rightarrow> parse_error + streaming_parser" where
  "header_or p text otherwise =
     and_then (handle_hunk_headers_and_end_patch p text) (\<lambda>h.
       case h of Some p' \<Rightarrow> Inr p' | None \<Rightarrow> otherwise)"

definition process_line :: "streaming_parser \<Rightarrow> string \<Rightarrow> parse_error + streaming_parser" where
  "process_line p line =
     (let trimmed = str_trim line;
          bad_header = Inl (InvalidHunkError (invalid_header_message trimmed) (line_number p))
      in case parser_mode p of
        NotStarted \<Rightarrow>
          if trimmed = BEGIN_PATCH_MARKER then Inr (p\<lparr>parser_mode := StartedPatch\<rparr>)
          else Inl first_line_error
      | StartedPatch \<Rightarrow> header_or p trimmed bad_header
      | InAddFile \<Rightarrow> header_or p trimmed (add_file_line p line)
      | InDeleteFile \<Rightarrow> header_or p trimmed bad_header
      | InUpdateFile _ \<Rightarrow> header_or p (trim_end line) (update_file_line p line)
      | EndedPatch \<Rightarrow> if trimmed = [] then Inr p else Inl last_line_error)"

text \<open>The loop of \<open>push_delta\<close>: the parser afterwards, and the error that stopped it.\<close>

fun push_bytes :: "streaming_parser \<Rightarrow> string \<Rightarrow> streaming_parser \<times> parse_error option" where
  "push_bytes p [] = (p, None)"
| "push_bytes p (ch # cs) =
     (if ch = newline then
        (let p1 = p\<lparr>line_buffer := [], line_number := line_number p + 1\<rparr>
         in case process_line p1 (drop_cr (line_buffer p)) of
              Inl e \<Rightarrow> (p1, Some e)
            | Inr p2 \<Rightarrow> push_bytes p2 cs)
      else push_bytes (p\<lparr>line_buffer := line_buffer p @ [ch]\<rparr>) cs)"

definition push_delta :: "streaming_parser \<Rightarrow> string \<Rightarrow> streaming_parser \<times> (parse_error + hunk list)" where
  "push_delta p delta =
     (case push_bytes p delta of
        (p', Some e) \<Rightarrow> (p', Inl e)
      | (p', None) \<Rightarrow> (p', Inr (hunks p')))"

definition finish_line :: "streaming_parser \<Rightarrow> parse_error + streaming_parser" where
  "finish_line p =
     (if line_buffer p = [] then Inr p
      else (let line = line_buffer p;
                p1 = p\<lparr>line_buffer := [], line_number := line_number p + 1\<rparr>
            in if str_trim line = END_PATCH_MARKER
               then and_then (ensure_update_hunk_is_not_empty p1 (str_trim line)) (\<lambda>_.
                      Inr (p1\<lparr>parser_mode := EndedPatch\<rparr>))
               else process_line p1 line))"

definition finish :: "streaming_parser \<Rightarrow> parse_error + (streaming_parser \<times> hunk list)" where
  "finish p =
     and_then (finish_line p) (\<lambda>p'.
       if parser_mode p' = EndedPatch then Inr (p', hunks p') else Inl last_line_error)"

section \<open>Whole patches\<close>

datatype parse_mode = Strict | Lenient

record apply_patch_args =
  args_hunks :: "hunk list"
  args_patch :: string
  args_environment_id :: "string option"

definition check_start_and_end_lines_strict ::
  "string option \<Rightarrow> string option \<Rightarrow> parse_error + unit" where
  "check_start_and_end_lines_strict first_line last_line =
     (case (map_option str_trim first_line, map_option str_trim last_line) of
        (Some f, l) \<Rightarrow>
          if f = BEGIN_PATCH_MARKER \<and> l = Some END_PATCH_MARKER then Inr ()
          else if f \<noteq> BEGIN_PATCH_MARKER then Inl first_line_error
          else Inl last_line_error
      | (None, _) \<Rightarrow> Inl last_line_error)"

definition check_patch_boundaries_strict :: "string list \<Rightarrow> parse_error + string list" where
  "check_patch_boundaries_strict ls =
     and_then (if ls = [] then check_start_and_end_lines_strict None None
               else check_start_and_end_lines_strict (Some (hd ls)) (Some (last ls)))
       (\<lambda>_. Inr ls)"

definition heredoc_openers :: "string list" where
  "heredoc_openers = [''<<EOF'', ''<<'' @ quoted ''EOF'', ''<<'' @ [CHR 0x22] @ ''EOF'' @ [CHR 0x22]]"

definition check_patch_boundaries_lenient :: "string list \<Rightarrow> parse_error + string list" where
  "check_patch_boundaries_lenient ls =
     (case check_patch_boundaries_strict ls of
        Inr ls' \<Rightarrow> Inr ls'
      | Inl e \<Rightarrow>
          if 2 \<le> length ls \<and> hd ls \<in> set heredoc_openers \<and> suffix ''EOF'' (last ls) \<and> 4 \<le> length ls
          then check_patch_boundaries_strict (butlast (tl ls))
          else Inl e)"

text \<open>Feed the checked text to a fresh parser and finish it.\<close>

definition parse_body :: "string \<Rightarrow> parse_error + apply_patch_args" where
  "parse_body patch =
     (case push_delta default_parser patch of
        (_, Inl e) \<Rightarrow> Inl e
      | (parser, Inr _) \<Rightarrow>
          and_then (finish parser) (\<lambda>(parser', hs).
            Inr \<lparr>args_hunks = hs, args_patch = patch, args_environment_id = environment_id parser'\<rparr>))"

definition parse_patch_text :: "string \<Rightarrow> parse_mode \<Rightarrow> parse_error + apply_patch_args" where
  "parse_patch_text patch mode =
     and_then (case mode of
         Strict \<Rightarrow> check_patch_boundaries_strict (str_lines (str_trim patch))
       | Lenient \<Rightarrow> check_patch_boundaries_lenient (str_lines (str_trim patch)))
     (\<lambda>patch_lines. parse_body (join_with [newline] patch_lines))"

definition parse_patch :: "string \<Rightarrow> parse_error + apply_patch_args" where
  "parse_patch patch = parse_patch_text patch Lenient"

section \<open>Feeding text in pieces\<close>

lemma push_bytes_append:
  "push_bytes p (a @ b) =
     (case push_bytes p a of (p', Some e) \<Rightarrow> (p', Some e) | (p', None) \<Rightarrow> push_bytes p' b)"
  by (induction p a rule: push_bytes.induct) (auto simp: Let_def split: sum.split)

text \<open>A client that stops at the first error.\<close>

fun feed_until_error ::
  "streaming_parser \<times> parse_error option \<Rightarrow> string \<Rightarrow> streaming_parser \<times> parse_error option" where
  "feed_until_error (p, Some e) delta = (p, Some e)"
| "feed_until_error (p, None) delta =
     (case push_delta p delta of (p', Inl e) \<Rightarrow> (p', Some e) | (p', Inr _) \<Rightarrow> (p', None))"

lemma feed_until_error_push_bytes: "feed_until_error (p, None) delta = push_bytes p delta"
  by (auto simp: push_delta_def split: prod.split option.split)

interpretation stream: incremental "(default_parser, None)" feed_until_error "push_bytes default_parser"
proof
  show "push_bytes default_parser [] = (default_parser, None)" by simp
next
  fix xs ys
  obtain p e where "push_bytes default_parser xs = (p, e)" by fastforce
  then show "feed_until_error (push_bytes default_parser xs) ys = push_bytes default_parser (xs @ ys)"
    by (cases e)
       (simp_all add: push_bytes_append feed_until_error_push_bytes del: feed_until_error.simps(2))
qed

section \<open>Accepted patches have complete hunks\<close>

definition open_chunks :: "update_file_chunk list \<Rightarrow> bool" where
  "open_chunks cs \<longleftrightarrow> list_all chunk_wf cs \<and> list_all (\<lambda>c. \<not> empty_chunk c) (butlast cs)"

fun complete_hunk :: "hunk \<Rightarrow> bool" where
  "complete_hunk (UpdateFile _ _ cs) = (cs \<noteq> [] \<and> list_all (\<lambda>c. chunk_wf c \<and> \<not> empty_chunk c) cs)"
| "complete_hunk _ = True"

fun open_hunk :: "hunk \<Rightarrow> bool" where
  "open_hunk (UpdateFile _ _ cs) = open_chunks cs"
| "open_hunk _ = False"

fun mode_inv :: "parser_mode \<Rightarrow> hunk list \<Rightarrow> bool" where
  "mode_inv NotStarted hs = (hs = [])"
| "mode_inv StartedPatch hs = (hs = [])"
| "mode_inv (InUpdateFile _) hs = (hs \<noteq> [] \<and> list_all complete_hunk (butlast hs) \<and> open_hunk (last hs))"
| "mode_inv _ hs = list_all complete_hunk hs"

abbreviation parser_inv :: "streaming_parser \<Rightarrow> bool" where
  "parser_inv p \<equiv> mode_inv (parser_mode p) (hunks p)"

lemma list_all_butlast_last: "xs \<noteq> [] \<Longrightarrow> list_all P xs \<longleftrightarrow> list_all P (butlast xs) \<and> P (last xs)"
  by (cases xs rule: rev_cases) auto

lemma ensure_complete:
  assumes "parser_inv p" "ensure_update_hunk_is_not_empty p l = Inr u"
  shows "list_all complete_hunk (hunks p)"
proof (cases "parser_mode p")
  case (InUpdateFile n)
  with assms(1) have h: "hunks p \<noteq> []" "list_all complete_hunk (butlast (hunks p))" "open_hunk (last (hunks p))"
    by auto
  then obtain path mv cs where l: "last (hunks p) = UpdateFile path mv cs" "open_chunks cs"
    by (cases "last (hunks p)") auto
  with assms(2) h InUpdateFile have "cs \<noteq> []" "\<not> empty_chunk (last cs)"
    by (auto simp: ensure_update_hunk_is_not_empty_def last_chunk_empty_def split: list.splits if_splits)
  with l have "complete_hunk (last (hunks p))"
    using list_all_butlast_last [of cs "\<lambda>c. chunk_wf c \<and> \<not> empty_chunk c"]
    by (auto simp: open_chunks_def list_all_iff dest: in_set_butlastD)
  with h show ?thesis by (simp add: list_all_butlast_last [of "hunks p"])
qed (use assms in auto)

lemma handle_inv:
  assumes "parser_inv p" "handle_hunk_headers_and_end_patch p t = Inr (Some p')"
  shows "parser_inv p'"
  using assms ensure_complete [OF assms(1), of t]
  by (auto simp: handle_hunk_headers_and_end_patch_def and_then_Inr_iff open_chunks_def
      split: parser_mode.splits option.splits if_splits)

lemma open_chunks_snoc:
  "open_chunks cs \<Longrightarrow> \<not> last_chunk_empty cs \<Longrightarrow> chunk_wf c \<Longrightarrow> open_chunks (cs @ [c])"
  using list_all_butlast_last [of cs "\<lambda>c. \<not> empty_chunk c"]
  by (cases "cs = []") (auto simp: open_chunks_def last_chunk_empty_def)

lemma open_chunks_single: "chunk_wf c \<Longrightarrow> open_chunks [c]"
  by (simp add: open_chunks_def)

lemma open_chunks_with_last:
  "open_chunks cs \<Longrightarrow> (\<And>c. chunk_wf c \<Longrightarrow> chunk_wf (f c)) \<Longrightarrow> open_chunks (with_last_chunk f cs)"
  by (cases cs rule: rev_cases)
     (auto simp: open_chunks_def with_last_chunk_def Let_def chunk_wf_default)

lemma update_hunk_line_inv:
  assumes "open_chunks chunks" "update_hunk_line num line move chunks = Inr (move', chunks')"
  shows "open_chunks chunks'"
  using assms
  by (auto simp: update_hunk_line_def Let_def chunk_wf_context chunk_wf_eof marker_defs
      strip_prefix_Some
      intro!: open_chunks_snoc open_chunks_single open_chunks_with_last chunk_wf_intros
      split: if_splits option.splits list.splits)

lemma update_file_line_inv:
  assumes "parser_mode p = InUpdateFile n" "parser_inv p" "update_file_line p line = Inr p'"
  shows "parser_mode p' = InUpdateFile n \<and> parser_inv p'"
proof -
  from assms(1,2) obtain path mv cs where h: "hunks p \<noteq> []" "last (hunks p) = UpdateFile path mv cs"
      "open_chunks cs" "list_all complete_hunk (butlast (hunks p))"
    by (cases "last (hunks p)") auto
  with assms(3) obtain mv' cs' where u: "update_hunk_line (line_number p) line mv cs = Inr (mv', cs')"
      "p' = p\<lparr>hunks := butlast (hunks p) @ [UpdateFile path mv' cs']\<rparr>"
    by (auto simp: update_file_line_def and_then_Inr_iff)
  with update_hunk_line_inv [OF h(3) u(1)] h assms(1) show ?thesis by simp
qed

lemma add_file_line_inv:
  assumes "parser_mode p = InAddFile" "parser_inv p" "add_file_line p line = Inr p'"
  shows "parser_inv p'"
  using assms list_all_butlast_last [of "hunks p" complete_hunk]
  by (auto simp: add_file_line_def Let_def split: option.splits list.splits hunk.splits)

lemma header_or_inv:
  assumes "parser_inv p" "header_or p t otherwise = Inr p'" "otherwise = Inr p' \<Longrightarrow> parser_inv p'"
  shows "parser_inv p'"
proof -
  from assms(2) obtain h where h: "handle_hunk_headers_and_end_patch p t = Inr h"
      "(case h of Some p' \<Rightarrow> Inr p' | None \<Rightarrow> otherwise) = Inr p'"
    by (auto simp: header_or_def and_then_Inr_iff)
  show ?thesis
  proof (cases h)
    case None
    with h(2) show ?thesis using assms(3) by simp
  next
    case (Some q)
    with h show ?thesis using handle_inv [OF assms(1), of t q] by simp
  qed
qed

lemma process_line_inv:
  assumes "parser_inv p" "process_line p line = Inr p'"
  shows "parser_inv p'"
proof (cases "parser_mode p")
  case (InUpdateFile n)
  then have "header_or p (trim_end line) (update_file_line p line) = Inr p'"
    using assms(2) by (simp add: process_line_def Let_def)
  then show ?thesis
    by (rule header_or_inv [OF assms(1)]) (use update_file_line_inv [OF InUpdateFile assms(1)] in blast)
next
  case InAddFile
  then have "header_or p (str_trim line) (add_file_line p line) = Inr p'"
    using assms(2) by (simp add: process_line_def Let_def)
  then show ?thesis
    by (rule header_or_inv [OF assms(1)]) (use add_file_line_inv [OF InAddFile assms(1)] in blast)
next
  case StartedPatch
  then have "header_or p (str_trim line)
      (Inl (InvalidHunkError (invalid_header_message (str_trim line)) (line_number p))) = Inr p'"
    using assms(2) by (simp add: process_line_def Let_def)
  then show ?thesis by (rule header_or_inv [OF assms(1)]) simp
next
  case InDeleteFile
  then have "header_or p (str_trim line)
      (Inl (InvalidHunkError (invalid_header_message (str_trim line)) (line_number p))) = Inr p'"
    using assms(2) by (simp add: process_line_def Let_def)
  then show ?thesis by (rule header_or_inv [OF assms(1)]) simp
qed (use assms in \<open>auto simp: process_line_def Let_def split: if_splits\<close>)

lemma push_bytes_inv: "parser_inv p \<Longrightarrow> parser_inv (fst (push_bytes p cs))"
proof (induction p cs rule: push_bytes.induct)
  case (2 p ch cs)
  let ?p1 = "p\<lparr>line_buffer := [], line_number := line_number p + 1\<rparr>"
  show ?case
  proof (cases "process_line ?p1 (drop_cr (line_buffer p))")
    case (Inr p2)
    with 2 process_line_inv [of ?p1 _ p2] show ?thesis by simp
  qed (use 2 in simp)
qed simp

lemma finish_complete:
  assumes "parser_inv p" "finish p = Inr (p', hs)"
  shows "list_all complete_hunk hs"
proof -
  let ?p1 = "p\<lparr>line_buffer := [], line_number := line_number p + 1\<rparr>"
  from assms(2) have f: "finish_line p = Inr p'" "parser_mode p' = EndedPatch" "hs = hunks p'"
    by (auto simp: finish_def and_then_Inr_iff split: if_splits)
  have "parser_inv p'"
    using f(1) assms(1) ensure_complete [of ?p1] process_line_inv [of ?p1]
    by (auto simp: finish_line_def Let_def and_then_Inr_iff split: if_splits)
  with f show ?thesis by simp
qed

lemma parser_inv_default: "parser_inv default_parser"
  by (simp add: default_parser_def)

lemma parse_body_complete:
  assumes "parse_body body = Inr args"
  shows "list_all complete_hunk (args_hunks args)"
proof -
  obtain p r where p: "push_delta default_parser body = (p, r)" by fastforce
  with assms obtain hs p' where "r = Inr hs" "finish p = Inr (p', args_hunks args)"
    by (cases r) (auto simp: parse_body_def and_then_Inr_iff)
  with p show ?thesis
    using finish_complete [of p] push_bytes_inv [OF parser_inv_default, of body]
    by (auto simp: push_delta_def split: prod.splits option.splits)
qed

section \<open>Properties of the parser\<close>

text \<open>Feeding a patch in pieces, stopping at the first error, leaves the parser in the
  state and with the error that feeding the whole text at once gives.\<close>

theorem streaming_independent_of_pieces:
  "foldl feed_until_error (default_parser, None) pieces =
     feed_until_error (default_parser, None) (concat pieces)"
  unfolding feed_until_error_push_bytes by (rule stream.feed_all)

text \<open>Every update hunk of an accepted patch has at least one chunk, every chunk has at
  least one line, and its context pairs are ordered, in range and point at equal lines of the two
  sides.\<close>

theorem accepted_patch_complete:
  assumes "parse_patch patch = Inr args" "UpdateFile path mv chunks \<in> set (args_hunks args)"
  shows "chunks \<noteq> [] \<and> list_all (\<lambda>c. (old_lines c \<noteq> [] \<or> new_lines c \<noteq> []) \<and> chunk_wf c) chunks"
proof -
  have "complete_hunk (UpdateFile path mv chunks)"
    using parse_body_complete assms
    by (fastforce simp: parse_patch_def parse_patch_text_def and_then_Inr_iff list_all_iff)
  then show ?thesis by (auto simp: empty_chunk_def list_all_iff)
qed

theorem accepted_patch_complete_witness:
  "\<exists>args path mv chunks.
     parse_patch (join_with [newline] [''*** Begin Patch'', ''*** Update File: f'', ''-a'', ''*** End Patch''])
       = Inr args \<and>
     UpdateFile path mv chunks \<in> set (args_hunks args) \<and>
     chunks \<noteq> [] \<and> list_all (\<lambda>c. (old_lines c \<noteq> [] \<or> new_lines c \<noteq> []) \<and> chunk_wf c) chunks"
proof -
  let ?p = "join_with [newline] [''*** Begin Patch'', ''*** Update File: f'', ''-a'', ''*** End Patch'']"
  let ?c = "default_chunk\<lparr>old_lines := [''a'']\<rparr>"
  have p: "parse_patch ?p = Inr \<lparr>args_hunks = [UpdateFile ''f'' None [?c]], args_patch = ?p,
      args_environment_id = None\<rparr>"
    by code_simp
  from accepted_patch_complete [OF this, of "''f''" None "[?c]"] p show ?thesis by auto
qed

end
