(* ===== verification/Patch_Print.thy ===== *)
theory Patch_Print
  imports Patch_Parser
begin

text \<open>
  A printer for the patch grammar documented at the top of \<^verbatim>\<open>apply-patch/src/parser.rs\<close>,
  as the specification of the parser: the documents the grammar describes, their text, the hunks
  they mean, and the theorem that the parser recovers the hunks from the text.
\<close>

section \<open>Documents\<close>

datatype diff_line = KeepLine string | DropLine string | AddLine string

datatype doc_chunk = Doc_Chunk "string option" "diff_line list" bool

datatype doc =
    DocAdd string "string list"
  | DocDelete string
  | DocUpdate string "string option" "doc_chunk list"

fun render_diff :: "diff_line \<Rightarrow> string" where
  "render_diff (KeepLine l) = CHR '' '' # l"
| "render_diff (DropLine l) = CHR ''-'' # l"
| "render_diff (AddLine l) = CHR ''+'' # l"

fun render_context :: "string option \<Rightarrow> string" where
  "render_context None = ''@@''"
| "render_context (Some c) = ''@@ '' @ c"

fun render_chunk :: "doc_chunk \<Rightarrow> string list" where
  "render_chunk (Doc_Chunk ctx ds eof) =
     render_context ctx # map render_diff ds @ (if eof then [''*** End of File''] else [])"

fun render_doc :: "doc \<Rightarrow> string list" where
  "render_doc (DocAdd path ls) = (''*** Add File: '' @ path) # map ((#) (CHR ''+'')) ls"
| "render_doc (DocDelete path) = [''*** Delete File: '' @ path]"
| "render_doc (DocUpdate path mv cs) =
     (''*** Update File: '' @ path) # (case mv of None \<Rightarrow> [] | Some m \<Rightarrow> [''*** Move to: '' @ m])
     @ concat (map render_chunk cs)"

definition render_patch :: "doc list \<Rightarrow> string" where
  "render_patch ds =
     join_with [newline] (''*** Begin Patch'' # concat (map render_doc ds) @ [''*** End Patch''])"

text \<open>The hunks a document means.\<close>

fun add_diff :: "update_file_chunk \<Rightarrow> diff_line \<Rightarrow> update_file_chunk" where
  "add_diff c (KeepLine l) = push_context_line c l"
| "add_diff c (DropLine l) = c\<lparr>old_lines := old_lines c @ [l]\<rparr>"
| "add_diff c (AddLine l) = c\<lparr>new_lines := new_lines c @ [l]\<rparr>"

fun chunk_of :: "doc_chunk \<Rightarrow> update_file_chunk" where
  "chunk_of (Doc_Chunk ctx ds eof) =
     (foldl add_diff (default_chunk\<lparr>change_context := ctx\<rparr>) ds)\<lparr>is_end_of_file := eof\<rparr>"

fun hunk_of :: "doc \<Rightarrow> hunk" where
  "hunk_of (DocAdd path ls) = AddFile path (concat (map (\<lambda>l. l @ [newline]) ls))"
| "hunk_of (DocDelete path) = DeleteFile path"
| "hunk_of (DocUpdate path mv cs) = UpdateFile path mv (map chunk_of cs)"

text \<open>
  Documents that can be printed: lines without line breaks, header lines that do not end with
  white space, chunks and update hunks that are not empty.
\<close>

definition body_ok :: "string \<Rightarrow> bool" where
  "body_ok l \<longleftrightarrow> newline \<notin> set l \<and> drop_cr l = l"

definition header_ok :: "string \<Rightarrow> bool" where
  "header_ok h \<longleftrightarrow> newline \<notin> set h \<and> trim_end h = h"

fun diff_ok :: "diff_line \<Rightarrow> bool" where
  "diff_ok d = body_ok (render_diff d)"

fun doc_chunk_ok :: "doc_chunk \<Rightarrow> bool" where
  "doc_chunk_ok (Doc_Chunk ctx ds eof) \<longleftrightarrow>
     ds \<noteq> [] \<and> list_all diff_ok ds \<and> header_ok (render_context ctx)"

fun doc_ok :: "doc \<Rightarrow> bool" where
  "doc_ok (DocAdd path ls) \<longleftrightarrow>
     header_ok (''*** Add File: '' @ path) \<and> list_all (\<lambda>l. body_ok (CHR ''+'' # l)) ls"
| "doc_ok (DocDelete path) \<longleftrightarrow> header_ok (''*** Delete File: '' @ path)"
| "doc_ok (DocUpdate path mv cs) \<longleftrightarrow>
     header_ok (''*** Update File: '' @ path) \<and>
     (case mv of None \<Rightarrow> True | Some m \<Rightarrow> header_ok (''*** Move to: '' @ m)) \<and>
     cs \<noteq> [] \<and> list_all doc_chunk_ok cs"

section \<open>Lines\<close>

text \<open>Run the state machine over complete lines.\<close>

fun run_lines :: "streaming_parser \<Rightarrow> string list \<Rightarrow> parse_error + streaming_parser" where
  "run_lines p [] = Inr p"
| "run_lines p (l # ls) =
     and_then (process_line (p\<lparr>line_number := line_number p + 1\<rparr>) l) (\<lambda>p'. run_lines p' ls)"

lemma run_lines_append:
  "run_lines p (ls @ ks) = and_then (run_lines p ls) (\<lambda>p'. run_lines p' ks)"
  by (induction p ls rule: run_lines.induct) (auto simp: and_then_def split: sum.split)

lemma handle_buffer:
  "handle_hunk_headers_and_end_patch p t = Inr (Some p') \<Longrightarrow> line_buffer p' = line_buffer p"
  by (auto simp: handle_hunk_headers_and_end_patch_def and_then_Inr_iff
      split: parser_mode.splits option.splits if_splits)

lemma header_or_buffer:
  assumes "header_or p t otherwise = Inr p'" "otherwise = Inr p' \<Longrightarrow> line_buffer p' = line_buffer p"
  shows "line_buffer p' = line_buffer p"
  using assms handle_buffer [of p t]
  by (auto simp: header_or_def and_then_Inr_iff split: option.splits)

lemma add_file_line_buffer: "add_file_line p l = Inr p' \<Longrightarrow> line_buffer p' = line_buffer p"
  by (auto simp: add_file_line_def Let_def split: option.splits list.splits hunk.splits)

lemma update_file_line_buffer: "update_file_line p l = Inr p' \<Longrightarrow> line_buffer p' = line_buffer p"
  by (auto simp: update_file_line_def Let_def and_then_Inr_iff split: if_splits hunk.splits)

lemma process_line_buffer: "process_line p l = Inr p' \<Longrightarrow> line_buffer p' = line_buffer p"
  by (cases "parser_mode p")
     (auto simp: process_line_def Let_def split: if_splits
       dest: header_or_buffer add_file_line_buffer update_file_line_buffer)

lemma push_bytes_no_newline:
  "newline \<notin> set l \<Longrightarrow> push_bytes p (l @ s) = push_bytes (p\<lparr>line_buffer := line_buffer p @ l\<rparr>) s"
  by (induction l arbitrary: p) auto

lemma push_bytes_run_lines:
  assumes "list_all body_ok ls" "line_buffer p = []" "run_lines p ls = Inr p'"
  shows "push_bytes p (concat (map (\<lambda>l. l @ [newline]) ls) @ s) = push_bytes p' s \<and> line_buffer p' = []"
  using assms
proof (induction ls arbitrary: p)
  case (Cons l ls)
  from Cons.prems(3) obtain q where q: "process_line (p\<lparr>line_number := line_number p + 1\<rparr>) l = Inr q"
      "run_lines q ls = Inr p'"
    by (auto simp: and_then_Inr_iff)
  have "line_buffer q = []" using process_line_buffer [OF q(1)] Cons.prems(2) by simp
  with Cons.IH [OF _ _ q(2)] Cons.prems(1)
  have ih: "push_bytes q (concat (map (\<lambda>l. l @ [newline]) ls) @ s) = push_bytes p' s \<and> line_buffer p' = []"
    by simp
  have p1: "p\<lparr>line_buffer := [], line_number := Suc (line_number p)\<rparr> =
      p\<lparr>line_number := Suc (line_number p)\<rparr>"
    using Cons.prems(2) by simp
  from Cons.prems ih q(1) show ?case
    by (simp add: body_ok_def push_bytes_no_newline p1 Let_def)
qed simp

section \<open>Body lines are never mistaken for headers\<close>

text \<open>The markers of headers begin with an asterisk.\<close>

lemma not_header:
  assumes "\<not> prefix ''*'' t"
  shows "handle_hunk_headers_and_end_patch p t = Inr None"
proof -
  have "strip_prefix (CHR ''*'' # m) t = None" for m
    using assms by (auto simp: strip_prefix_None prefix_def)
  moreover have "t \<noteq> END_PATCH_MARKER" using assms by (auto simp: END_PATCH_MARKER_def)
  ultimately show ?thesis
    by (simp add: handle_hunk_headers_and_end_patch_def marker_defs split: parser_mode.split)
qed

lemma trim_end_first: "trim_end (c # l) = [] \<or> (\<exists>l'. trim_end (c # l) = c # l')"
  using trim_end_prefix [of "c # l"] by (cases "trim_end (c # l)") auto

lemma trim_start_visible: "strip_any ws_encodings s = None \<Longrightarrow> trim_start s = s"
  by (simp add: trim_start_def trim_by_id)

lemma trim_start_plus: "trim_start [] = []" "trim_start (CHR ''+'' # l) = CHR ''+'' # l"
  "trim_start (CHR ''*'' # l) = CHR ''*'' # l"
  by (rule trim_start_visible, simp only: strip_any_None, simp add: ws_encodings_def)+

lemma trim_plus_line: "\<not> prefix ''*'' (str_trim (CHR ''+'' # l))"
  using trim_end_first [of "CHR ''+''" l] by (auto simp: str_trim_def trim_start_plus)

lemma header_ok_trim: "header_ok (CHR ''*'' # h) \<Longrightarrow> str_trim (CHR ''*'' # h) = CHR ''*'' # h"
  by (simp add: header_ok_def str_trim_def trim_start_plus)

lemma header_ok_body: "header_ok h \<Longrightarrow> body_ok h"
proof -
  assume h: "header_ok h"
  have "\<not> suffix [carriage_return] h"
  proof
    assume "suffix [carriage_return] h"
    then have "prefix (rev [carriage_return]) (rev h)" by (simp only: suffix_to_prefix)
    then have "strip_any (map rev ws_encodings) (rev h) \<noteq> None"
      unfolding strip_any_None by (simp add: ws_encodings_def)
    moreover have "trim_by (map rev ws_encodings) (rev h) = rev h"
      using h by (simp add: header_ok_def trim_end_def rev_swap)
    then have "strip_any (map rev ws_encodings) (rev h) = None"
      using trim_by_strip [OF ws_encodings_nonempty(2), of "rev h"] by simp
    ultimately show False by simp
  qed
  then show "body_ok h" using h
    by (simp add: body_ok_def header_ok_def drop_cr_def strip_suffix_None [symmetric])
qed

section \<open>One hunk at a time\<close>

text \<open>Between hunks: the next header or the end marker is accepted.\<close>

definition ready :: "streaming_parser \<Rightarrow> bool" where
  "ready p \<longleftrightarrow> parser_mode p \<noteq> NotStarted \<and> parser_mode p \<noteq> EndedPatch \<and>
     (\<forall>n t. ensure_update_hunk_is_not_empty (p\<lparr>line_number := n\<rparr>) t = Inr ())"

abbreviation next_line :: "streaming_parser \<Rightarrow> streaming_parser" where
  "next_line p \<equiv> p\<lparr>line_number := line_number p + 1\<rparr>"

lemma ready_header:
  assumes "ready p" "header_ok (CHR ''*'' # h)"
    and "handle_hunk_headers_and_end_patch (next_line p) (CHR ''*'' # h) = Inr (Some p')"
  shows "process_line (next_line p) (CHR ''*'' # h) = Inr p'"
  using assms header_ok_trim [OF assms(2)]
  by (cases "parser_mode p") (auto simp: ready_def process_line_def header_or_def header_ok_def)

lemma header_handled:
  assumes "ready p"
  shows "handle_hunk_headers_and_end_patch (next_line p) (''*** Add File: '' @ path) =
      Inr (Some ((next_line p)\<lparr>hunks := hunks p @ [AddFile path []], parser_mode := InAddFile\<rparr>))"
    "handle_hunk_headers_and_end_patch (next_line p) (''*** Delete File: '' @ path) =
      Inr (Some ((next_line p)\<lparr>hunks := hunks p @ [DeleteFile path], parser_mode := InDeleteFile\<rparr>))"
    "handle_hunk_headers_and_end_patch (next_line p) (''*** Update File: '' @ path) =
      Inr (Some ((next_line p)\<lparr>hunks := hunks p @ [UpdateFile path None []],
        parser_mode := InUpdateFile (line_number p + 1)\<rparr>))"
    "handle_hunk_headers_and_end_patch (next_line p) ''*** End Patch'' =
      Inr (Some ((next_line p)\<lparr>parser_mode := EndedPatch\<rparr>))"
  using assms
  by (simp_all add: ready_def handle_hunk_headers_and_end_patch_def marker_defs strip_prefix_def
      split: parser_mode.split)

lemma run_header:
  assumes "ready p" "header_ok h" "prefix ''*'' h"
    and "handle_hunk_headers_and_end_patch (next_line p) h = Inr (Some p')"
  shows "run_lines p (h # ls) = run_lines p' ls"
  using assms ready_header [of p "tl h" p'] by (cases h) auto

lemma run_add_lines:
  assumes "parser_mode p = InAddFile" "hunks p = hs @ [AddFile path contents]"
  shows "\<exists>p'. run_lines p (map ((#) (CHR ''+'')) ls) = Inr p' \<and> parser_mode p' = InAddFile \<and>
    hunks p' = hs @ [AddFile path (contents @ concat (map (\<lambda>l. l @ [newline]) ls))] \<and>
    environment_id p' = environment_id p"
  using assms
proof (induction ls arbitrary: p contents)
  case (Cons l ls)
  have "process_line (next_line p) (CHR ''+'' # l) =
      Inr ((next_line p)\<lparr>hunks := hs @ [AddFile path (contents @ l @ [newline])]\<rparr>)"
    using Cons.prems
    by (cases hs) (simp_all add: process_line_def header_or_def not_header [OF trim_plus_line]
        add_file_line_def strip_prefix_def Let_def)
  with Cons.prems Cons.IH [of "(next_line p)\<lparr>hunks := hs @ [AddFile path (contents @ l @ [newline])]\<rparr>"]
  show ?case by simp
qed simp

text \<open>Inside an update hunk.\<close>

definition in_update ::
  "streaming_parser \<Rightarrow> string option \<Rightarrow> hunk list \<Rightarrow> string \<Rightarrow> string option \<Rightarrow> update_file_chunk list \<Rightarrow> bool" where
  "in_update p env hs path mv cs \<longleftrightarrow> (\<exists>n. parser_mode p = InUpdateFile n) \<and>
     hunks p = hs @ [UpdateFile path mv cs] \<and> environment_id p = env"

lemma run_update_line:
  assumes "in_update p env hs path mv cs"
    and "handle_hunk_headers_and_end_patch (next_line p) (trim_end l) = Inr None"
    and "update_hunk_line (line_number p + 1) l mv cs = Inr (mv', cs')"
  shows "\<exists>p'. run_lines p (l # ls) = run_lines p' ls \<and> in_update p' env hs path mv' cs'"
  using assms by (auto simp: in_update_def process_line_def header_or_def update_file_line_def)

definition live :: "update_file_chunk list \<Rightarrow> bool" where
  "live cs \<longleftrightarrow> (cs \<noteq> [] \<longrightarrow> \<not> is_end_of_file (last cs))"

lemma diff_line_update:
  assumes "live (cs @ [c])"
  shows "handle_hunk_headers_and_end_patch q (trim_end (render_diff d)) = Inr None"
    "update_hunk_line n (render_diff d) mv (cs @ [c]) = Inr (mv, cs @ [add_diff c d])"
proof -
  obtain b l where b: "render_diff d = b # l" "b \<in> {CHR '' '', CHR ''-'', CHR ''+''}"
    by (cases d) auto
  have u: "trim_end (b # l) = [] \<or> (\<exists>l'. trim_end (b # l) = b # l')" by (rule trim_end_first)
  then show "handle_hunk_headers_and_end_patch q (trim_end (render_diff d)) = Inr None"
    using b by (intro not_header) auto
  have "trim_end (b # l) \<noteq> EMPTY_CHANGE_CONTEXT_MARKER" "\<not> prefix CHANGE_CONTEXT_MARKER (trim_end (b # l))"
    "trim_end (b # l) \<noteq> EOF_MARKER"
    using u b(2) by (auto simp: marker_defs)
  moreover have "strip_prefix CHANGE_CONTEXT_MARKER (trim_end (b # l)) = None"
    using calculation(2) by (simp add: strip_prefix_None)
  moreover have "\<not> is_end_of_file c" using assms by (simp add: live_def)
  ultimately show "update_hunk_line n (render_diff d) mv (cs @ [c]) = Inr (mv, cs @ [add_diff c d])"
    using b by (cases d) (auto simp: update_hunk_line_def Let_def with_last_chunk_def)
qed

lemma add_diff_eof: "is_end_of_file (add_diff c d) = is_end_of_file c"
  by (cases d) (simp_all add: push_context_line_def)

lemma run_diff_lines:
  assumes "in_update p env hs path mv (cs @ [c])" "\<not> is_end_of_file c"
  shows "\<exists>p'. run_lines p (map render_diff ds @ ls) = run_lines p' ls \<and>
    in_update p' env hs path mv (cs @ [foldl add_diff c ds])"
  using assms
proof (induction ds arbitrary: p c)
  case (Cons d ds)
  have "live (cs @ [c])" using Cons.prems by (simp add: live_def)
  from run_update_line [OF Cons.prems(1) diff_line_update [OF this]]
  obtain q where q: "run_lines p (render_diff d # map render_diff ds @ ls) = run_lines q (map render_diff ds @ ls)"
      "in_update q env hs path mv (cs @ [add_diff c d])"
    by blast
  with Cons.IH [OF q(2)] Cons.prems(2) show ?case by (simp add: add_diff_eof)
qed auto

lemma add_diff_nonempty: "\<not> empty_chunk (add_diff c d)"
  by (cases d) (simp_all add: empty_chunk_def push_context_line_def)

lemma foldl_add_diff_nonempty: "ds \<noteq> [] \<Longrightarrow> \<not> empty_chunk (foldl add_diff c ds)"
  by (induction ds rule: rev_induct) (simp_all add: add_diff_nonempty)

lemma foldl_add_diff_eof: "is_end_of_file (foldl add_diff c ds) = is_end_of_file c"
  by (induction ds arbitrary: c) (simp_all add: add_diff_eof)

lemma empty_chunk_update: "empty_chunk (c\<lparr>is_end_of_file := x\<rparr>) = empty_chunk c"
  by (simp add: empty_chunk_def)

lemma context_line_update:
  assumes "\<not> last_chunk_empty cs" "header_ok (render_context ctx)"
  shows "handle_hunk_headers_and_end_patch q (trim_end (render_context ctx)) = Inr None"
    "update_hunk_line n (render_context ctx) mv cs =
       Inr (mv, cs @ [default_chunk\<lparr>change_context := ctx\<rparr>])"
proof -
  have t: "trim_end (render_context ctx) = render_context ctx"
    using assms(2) by (simp add: header_ok_def)
  then show "handle_hunk_headers_and_end_patch q (trim_end (render_context ctx)) = Inr None"
    by (cases ctx) (auto intro: not_header)
  have d: "default_chunk = default_chunk\<lparr>change_context := None\<rparr>" by (simp add: default_chunk_def)
  show "update_hunk_line n (render_context ctx) mv cs =
       Inr (mv, cs @ [default_chunk\<lparr>change_context := ctx\<rparr>])"
    using t assms(1) d
    by (cases ctx) (simp_all add: update_hunk_line_def Let_def marker_defs strip_prefix_def)
qed

lemma eof_line_update:
  assumes "\<not> is_end_of_file c" "\<not> empty_chunk c"
  shows "handle_hunk_headers_and_end_patch q (trim_end ''*** End of File'') = Inr None"
    "update_hunk_line n ''*** End of File'' mv (cs @ [c]) = Inr (mv, cs @ [c\<lparr>is_end_of_file := True\<rparr>])"
proof -
  have t: "trim_end ''*** End of File'' = ''*** End of File''" by code_simp
  show "handle_hunk_headers_and_end_patch q (trim_end ''*** End of File'') = Inr None"
    unfolding t
    by (simp add: handle_hunk_headers_and_end_patch_def marker_defs strip_prefix_def split: parser_mode.split)
  show "update_hunk_line n ''*** End of File'' mv (cs @ [c]) = Inr (mv, cs @ [c\<lparr>is_end_of_file := True\<rparr>])"
    using assms
    by (simp add: update_hunk_line_def t Let_def marker_defs strip_prefix_def last_chunk_empty_def
        with_last_chunk_def)
qed

lemma run_chunk:
  assumes "in_update p env hs path mv cs" "\<not> last_chunk_empty cs" "doc_chunk_ok dc"
  shows "\<exists>p'. run_lines p (render_chunk dc @ ls) = run_lines p' ls \<and>
    in_update p' env hs path mv (cs @ [chunk_of dc]) \<and> \<not> last_chunk_empty (cs @ [chunk_of dc])"
proof (cases dc)
  case (Doc_Chunk ctx ds eof)
  let ?fresh = "default_chunk\<lparr>change_context := ctx\<rparr>" and ?c = "foldl add_diff (default_chunk\<lparr>change_context := ctx\<rparr>) ds"
  let ?tail = "(if eof then [''*** End of File''] else []) @ ls"
  have ok: "ds \<noteq> []" "header_ok (render_context ctx)" using assms(3) Doc_Chunk by auto
  have e: "\<not> is_end_of_file ?c" "\<not> is_end_of_file ?fresh"
    by (simp_all add: foldl_add_diff_eof default_chunk_def)
  have ne: "\<not> empty_chunk ?c" using ok(1) by (rule foldl_add_diff_nonempty)
  have "\<exists>q. run_lines p (render_context ctx # map render_diff ds @ ?tail) =
      run_lines q (map render_diff ds @ ?tail) \<and> in_update q env hs path mv (cs @ [?fresh])"
    by (rule run_update_line [OF assms(1) context_line_update [OF assms(2) ok(2)]])
  then obtain q where q: "run_lines p (render_context ctx # map render_diff ds @ ?tail) =
      run_lines q (map render_diff ds @ ?tail)" "in_update q env hs path mv (cs @ [?fresh])"
    by (elim exE conjE)
  have "\<exists>r. run_lines q (map render_diff ds @ ?tail) = run_lines r ?tail \<and>
      in_update r env hs path mv (cs @ [?c])"
    by (rule run_diff_lines [OF q(2) e(2)])
  then obtain r where r: "run_lines q (map render_diff ds @ ?tail) = run_lines r ?tail"
      "in_update r env hs path mv (cs @ [?c])"
    by (elim exE conjE)
  have "\<exists>p'. run_lines r ?tail = run_lines p' ls \<and> in_update p' env hs path mv (cs @ [chunk_of dc])"
  proof (cases eof)
    case True
    then show ?thesis using run_update_line [OF r(2) eof_line_update [OF e(1) ne]] Doc_Chunk by simp
  next
    case False
    then have "chunk_of dc = ?c" using e(1) Doc_Chunk by simp
    with False r(2) show ?thesis by auto
  qed
  moreover have "\<not> last_chunk_empty (cs @ [chunk_of dc])"
    using ne Doc_Chunk by (simp add: last_chunk_empty_def empty_chunk_update)
  ultimately show ?thesis using q(1) r(1) Doc_Chunk by auto
qed

lemma run_chunks:
  assumes "in_update p env hs path mv cs" "\<not> last_chunk_empty cs" "list_all doc_chunk_ok dcs"
  shows "\<exists>p'. run_lines p (concat (map render_chunk dcs) @ ls) = run_lines p' ls \<and>
    in_update p' env hs path mv (cs @ map chunk_of dcs) \<and> \<not> last_chunk_empty (cs @ map chunk_of dcs)"
  using assms
proof (induction dcs arbitrary: p cs)
  case (Cons dc dcs)
  from Cons.prems(3) have ok: "doc_chunk_ok dc" "list_all doc_chunk_ok dcs" by simp_all
  from run_chunk [OF Cons.prems(1,2) ok(1), of "concat (map render_chunk dcs) @ ls"]
  obtain q where q: "run_lines p (render_chunk dc @ concat (map render_chunk dcs) @ ls) =
      run_lines q (concat (map render_chunk dcs) @ ls)"
      "in_update q env hs path mv (cs @ [chunk_of dc])" "\<not> last_chunk_empty (cs @ [chunk_of dc])"
    by blast
  from Cons.IH [OF q(2,3) ok(2)] q(1) show ?case by simp
qed auto

lemma ready_in_update:
  assumes "in_update p env hs path mv cs" "cs \<noteq> []" "\<not> last_chunk_empty cs"
  shows "ready p"
  using assms
  by (auto simp: ready_def in_update_def ensure_update_hunk_is_not_empty_def split: list.split)

lemma move_line_update:
  assumes "header_ok (''*** Move to: '' @ m)"
  shows "handle_hunk_headers_and_end_patch q (trim_end (''*** Move to: '' @ m)) = Inr None"
    "update_hunk_line n (''*** Move to: '' @ m) None [] = Inr (Some m, [])"
proof -
  have t: "trim_end (''*** Move to: '' @ m) = ''*** Move to: '' @ m"
    using assms by (simp add: header_ok_def)
  show "handle_hunk_headers_and_end_patch q (trim_end (''*** Move to: '' @ m)) = Inr None"
    unfolding t
    by (simp add: handle_hunk_headers_and_end_patch_def marker_defs strip_prefix_def split: parser_mode.split)
  show "update_hunk_line n (''*** Move to: '' @ m) None [] = Inr (Some m, [])"
    using t by (simp add: update_hunk_line_def Let_def marker_defs strip_prefix_def)
qed

lemma run_doc_update:
  assumes "ready p" "doc_ok (DocUpdate path mv dcs)"
  shows "\<exists>p'. run_lines p (render_doc (DocUpdate path mv dcs) @ ls) = run_lines p' ls \<and> ready p' \<and>
    hunks p' = hunks p @ [hunk_of (DocUpdate path mv dcs)] \<and> environment_id p' = environment_id p"
proof -
  let ?env = "environment_id p" and ?hs = "hunks p" and ?body = "concat (map render_chunk dcs) @ ls"
  let ?move = "case mv of None \<Rightarrow> [] | Some m \<Rightarrow> [''*** Move to: '' @ m]"
  from assms(2) have ok: "header_ok (''*** Update File: '' @ path)" "dcs \<noteq> []" "list_all doc_chunk_ok dcs"
    by simp_all
  let ?q = "(next_line p)\<lparr>hunks := hunks p @ [UpdateFile path None []],
        parser_mode := InUpdateFile (line_number p + 1)\<rparr>"
  have q: "run_lines p (render_doc (DocUpdate path mv dcs) @ ls) = run_lines ?q (?move @ ?body)"
    using run_header [OF assms(1) _ _ header_handled(3) [OF assms(1), of path]] ok(1) by simp
  have qu: "in_update ?q ?env ?hs path None []" by (simp add: in_update_def)
  have "\<exists>r. run_lines ?q (?move @ ?body) = run_lines r ?body \<and> in_update r ?env ?hs path mv []"
  proof (cases mv)
    case None
    then show ?thesis using qu by auto
  next
    case (Some m)
    then have "header_ok (''*** Move to: '' @ m)" using assms(2) by simp
    from run_update_line [OF qu move_line_update [OF this]] Some show ?thesis by simp
  qed
  then obtain r where r: "run_lines ?q (?move @ ?body) = run_lines r ?body" "in_update r ?env ?hs path mv []"
    by (elim exE conjE)
  obtain p' where p': "run_lines r ?body = run_lines p' ls" "in_update p' ?env ?hs path mv (map chunk_of dcs)"
      "\<not> last_chunk_empty (map chunk_of dcs)"
    using run_chunks [OF r(2) _ ok(3), of ls] by (auto simp: last_chunk_empty_def)
  then show ?thesis using q r(1) ready_in_update [OF p'(2)] ok(2) by (auto simp: in_update_def)
qed

lemma ready_last_not_update:
  assumes "parser_mode p = InAddFile \<and> hunks p = hs @ [AddFile a b] \<or> parser_mode p = InDeleteFile \<and> hunks p = hs @ [DeleteFile a]"
  shows "ready p"
  using assms by (auto simp: ready_def ensure_update_hunk_is_not_empty_def)

lemma run_doc:
  assumes "ready p" "doc_ok d"
  shows "\<exists>p'. run_lines p (render_doc d @ ls) = run_lines p' ls \<and> ready p' \<and>
    hunks p' = hunks p @ [hunk_of d] \<and> environment_id p' = environment_id p"
proof (cases d)
  case (DocAdd path bs)
  let ?q = "(next_line p)\<lparr>hunks := hunks p @ [AddFile path []], parser_mode := InAddFile\<rparr>"
  have q: "run_lines p (render_doc d @ ls) = run_lines ?q (map ((#) (CHR ''+'')) bs @ ls)"
    using run_header [OF assms(1) _ _ header_handled(1) [OF assms(1), of path]] assms(2) DocAdd
    by simp
  obtain p' where p': "run_lines ?q (map ((#) (CHR ''+'')) bs) = Inr p'" "parser_mode p' = InAddFile"
      "hunks p' = hunks p @ [AddFile path (concat (map (\<lambda>l. l @ [newline]) bs))]"
      "environment_id p' = environment_id p"
    using run_add_lines [of ?q "hunks p" path "[]" bs] by auto
  with q show ?thesis using DocAdd ready_last_not_update [of p'] by (auto simp: run_lines_append)
next
  case (DocDelete path)
  let ?q = "(next_line p)\<lparr>hunks := hunks p @ [DeleteFile path], parser_mode := InDeleteFile\<rparr>"
  have "run_lines p (render_doc d @ ls) = run_lines ?q ls"
    using run_header [OF assms(1) _ _ header_handled(2) [OF assms(1), of path]] assms(2) DocDelete
    by simp
  moreover have "ready ?q" by (rule ready_last_not_update [of _ "hunks p" path]) simp
  ultimately show ?thesis using DocDelete by auto
qed (use run_doc_update assms in blast)

lemma run_docs:
  assumes "ready p" "list_all doc_ok ds"
  shows "\<exists>p'. run_lines p (concat (map render_doc ds) @ ls) = run_lines p' ls \<and> ready p' \<and>
    hunks p' = hunks p @ map hunk_of ds \<and> environment_id p' = environment_id p"
  using assms
proof (induction ds arbitrary: p)
  case (Cons d ds)
  from Cons.prems(2) have ok: "doc_ok d" "list_all doc_ok ds" by simp_all
  obtain q where q: "run_lines p (render_doc d @ concat (map render_doc ds) @ ls) =
      run_lines q (concat (map render_doc ds) @ ls)" "ready q" "hunks q = hunks p @ [hunk_of d]"
      "environment_id q = environment_id p"
    using run_doc [OF Cons.prems(1) ok(1), of "concat (map render_doc ds) @ ls"] by (elim exE conjE)
  from Cons.IH [OF q(2) ok(2)] q(1,3,4) show ?case by simp
qed auto

section \<open>Whole patches\<close>

lemma join_with_snoc: "join_with [c] (ls @ [l]) = concat (map (\<lambda>l. l @ [c]) ls) @ l"
  by (induction ls) (simp_all add: join_with_Cons)

lemma render_chunk_ok: "doc_chunk_ok dc \<Longrightarrow> list_all body_ok (render_chunk dc)"
proof (cases dc)
  case (Doc_Chunk ctx ds eof)
  moreover have "body_ok ''*** End of File''" by code_simp
  moreover assume "doc_chunk_ok dc"
  ultimately show ?thesis by (auto simp: list_all_iff header_ok_body)
qed

lemma render_doc_ok: "doc_ok d \<Longrightarrow> list_all body_ok (render_doc d)"
  using render_chunk_ok unfolding list_all_iff
  by (cases d) (auto simp: list_all_iff header_ok_body split: option.splits)

lemma render_docs_ok: "list_all doc_ok ds \<Longrightarrow> list_all body_ok (concat (map render_doc ds))"
  by (induction ds) (auto dest: render_doc_ok)

lemma str_lines_join:
  assumes "list_all body_ok (ls @ [l])" "l \<noteq> []"
  shows "str_lines (join_with [newline] (ls @ [l])) = ls @ [l]"
proof -
  have "split_on newline (join_with [newline] (ls @ [l])) = ls @ [l]"
    using assms(1) by (intro split_join_with) (auto simp: list_all_iff body_ok_def)
  moreover have "map drop_cr ls = ls"
    using assms(1) by (simp add: list_all_iff body_ok_def map_idI)
  ultimately show ?thesis using assms(2) by (simp add: str_lines_def)
qed

lemma trim_end_visible: "trim_end (s @ ''*** End Patch'') = s @ ''*** End Patch''"
proof -
  have "strip_any (map rev ws_encodings) (rev (s @ ''*** End Patch'')) = None"
    unfolding strip_any_None by (simp add: ws_encodings_def)
  then show ?thesis by (simp add: trim_end_def trim_by_id)
qed

lemma ready_started: "parser_mode p = StartedPatch \<Longrightarrow> hunks p = [] \<Longrightarrow> ready p"
  by (simp add: ready_def ensure_update_hunk_is_not_empty_def)

lemma finish_end_patch:
  assumes "ready p" "line_buffer p = []"
  shows "finish (p\<lparr>line_buffer := ''*** End Patch''\<rparr>) =
    Inr ((next_line p)\<lparr>parser_mode := EndedPatch\<rparr>, hunks p)"
proof -
  have t: "str_trim ''*** End Patch'' = END_PATCH_MARKER" by code_simp
  show ?thesis
    using assms by (cases p) (simp add: finish_def finish_line_def Let_def t ready_def)
qed

lemma parse_body_rendered:
  assumes "list_all doc_ok ds"
  shows "parse_body (render_patch ds) = Inr \<lparr>args_hunks = map hunk_of ds, args_patch = render_patch ds,
    args_environment_id = None\<rparr>"
proof -
  let ?body = "concat (map render_doc ds)"
  let ?q = "(next_line default_parser)\<lparr>parser_mode := StartedPatch\<rparr>"
  have "str_trim ''*** Begin Patch'' = BEGIN_PATCH_MARKER" by code_simp
  then have started: "run_lines default_parser (''*** Begin Patch'' # ?body) = run_lines ?q ?body"
    by (simp add: process_line_def default_parser_def)
  have "ready ?q" by (simp add: ready_started default_parser_def)
  from run_docs [OF this assms, of "[]"]
  obtain p where p: "run_lines ?q ?body = Inr p" "ready p" "hunks p = map hunk_of ds" "environment_id p = None"
    by (auto simp: default_parser_def)
  have "body_ok ''*** Begin Patch''" by code_simp
  then have ok: "list_all body_ok (''*** Begin Patch'' # ?body)" using render_docs_ok [OF assms] by simp
  have run: "run_lines default_parser (''*** Begin Patch'' # ?body) = Inr p" using started p(1) by simp
  have "line_buffer default_parser = []" by (simp add: default_parser_def)
  note push = push_bytes_run_lines [OF ok this run, of "''*** End Patch''"]
  then have "push_bytes default_parser (render_patch ds) = (p\<lparr>line_buffer := ''*** End Patch''\<rparr>, None)"
    unfolding render_patch_def append_Cons [symmetric] join_with_snoc
    using push_bytes_no_newline [of "''*** End Patch''" p "[]"] by simp
  then show ?thesis
    using finish_end_patch [OF p(2)] push p(3,4) by (simp add: parse_body_def push_delta_def)
qed


definition sample_docs :: "doc list" where
  "sample_docs = [DocAdd ''a'' [''x''], DocDelete ''b'',
     DocUpdate ''c'' (Some ''d'') [Doc_Chunk (Some ''f'') [KeepLine ''k'', DropLine ''o'', AddLine ''n''] True]]"


end
