(* ===== verification/Patch_Seek.thy ===== *)
theory Patch_Seek
  imports Patch_Types
begin

text \<open>
  Locating the lines of a patch in a file, \<^verbatim>\<open>apply-patch/src/seek_sequence.rs\<close>: four
  passes over the windows of the file, from exact equality to equality after trimming and
  replacing typographic punctuation. Each pass compares \<open>f line = f pattern_line\<close> for its own \<open>f\<close>.
\<close>

section \<open>Model\<close>

text \<open>Punctuation and spaces that are read as their ASCII counterpart, as UTF-8 encodings.\<close>

definition punctuation_table :: "(string \<times> char) list" where
  "punctuation_table =
     map (\<lambda>e. (e, CHR ''-''))
       [[CHR 0xE2, CHR 0x80, CHR 0x90], [CHR 0xE2, CHR 0x80, CHR 0x91],
        [CHR 0xE2, CHR 0x80, CHR 0x92], [CHR 0xE2, CHR 0x80, CHR 0x93],
        [CHR 0xE2, CHR 0x80, CHR 0x94], [CHR 0xE2, CHR 0x80, CHR 0x95],
        [CHR 0xE2, CHR 0x88, CHR 0x92]]
     @ map (\<lambda>e. (e, CHR 0x27))
       [[CHR 0xE2, CHR 0x80, CHR 0x98], [CHR 0xE2, CHR 0x80, CHR 0x99],
        [CHR 0xE2, CHR 0x80, CHR 0x9A], [CHR 0xE2, CHR 0x80, CHR 0x9B]]
     @ map (\<lambda>e. (e, CHR 0x22))
       [[CHR 0xE2, CHR 0x80, CHR 0x9C], [CHR 0xE2, CHR 0x80, CHR 0x9D],
        [CHR 0xE2, CHR 0x80, CHR 0x9E], [CHR 0xE2, CHR 0x80, CHR 0x9F]]
     @ map (\<lambda>e. (e, CHR '' ''))
       [[CHR 0xC2, CHR 0xA0], [CHR 0xE2, CHR 0x80, CHR 0x82], [CHR 0xE2, CHR 0x80, CHR 0x83],
        [CHR 0xE2, CHR 0x80, CHR 0x84], [CHR 0xE2, CHR 0x80, CHR 0x85],
        [CHR 0xE2, CHR 0x80, CHR 0x86], [CHR 0xE2, CHR 0x80, CHR 0x87],
        [CHR 0xE2, CHR 0x80, CHR 0x88], [CHR 0xE2, CHR 0x80, CHR 0x89],
        [CHR 0xE2, CHR 0x80, CHR 0x8A], [CHR 0xE2, CHR 0x80, CHR 0xAF],
        [CHR 0xE2, CHR 0x81, CHR 0x9F], [CHR 0xE3, CHR 0x80, CHR 0x80]]"

fun normalise_chars :: "string \<Rightarrow> string" where
  "normalise_chars [] = []"
| "normalise_chars (b # s) =
     (case find (\<lambda>(e, _). prefix e (b # s)) punctuation_table of
        None \<Rightarrow> b # normalise_chars s
      | Some (e, c) \<Rightarrow> c # normalise_chars (drop (length e - 1) s))"

definition normalise :: "string \<Rightarrow> string" where
  "normalise s = normalise_chars (str_trim s)"

text \<open>The window of \<open>pattern.len()\<close> lines at \<open>i\<close> equals the pattern under \<open>f\<close>.\<close>

definition window_eq :: "(string \<Rightarrow> string) \<Rightarrow> string list \<Rightarrow> string list \<Rightarrow> nat \<Rightarrow> bool" where
  "window_eq f ls pattern i \<longleftrightarrow> map f (take (length pattern) (drop i ls)) = map f pattern"

text \<open>One pass: the first matching window in \<open>search_start..=lines.len() - pattern.len()\<close>.\<close>

definition seek_pass :: "(string \<Rightarrow> string) \<Rightarrow> string list \<Rightarrow> string list \<Rightarrow> nat \<Rightarrow> nat option" where
  "seek_pass f ls pattern search_start =
     find (window_eq f ls pattern) [search_start..<Suc (length ls - length pattern)]"

definition search_start :: "string list \<Rightarrow> string list \<Rightarrow> nat \<Rightarrow> bool \<Rightarrow> update_mode \<Rightarrow> nat" where
  "search_start ls pattern start eof mode =
     (if eof \<and> length pattern \<le> length ls
      then (let eof_start = length ls - length pattern
            in case mode of NormalizeToLf \<Rightarrow> eof_start
               | PreserveLineEndings \<Rightarrow> max eof_start start)
      else start)"

definition seek_sequence ::
  "string list \<Rightarrow> string list \<Rightarrow> nat \<Rightarrow> bool \<Rightarrow> update_mode \<Rightarrow> nat option" where
  "seek_sequence ls pattern start eof mode =
     (if pattern = [] then Some start
      else if length ls < length pattern then None
      else (let from = search_start ls pattern start eof mode
            in case seek_pass (\<lambda>s. s) ls pattern from of
                 Some i \<Rightarrow> Some i
               | None \<Rightarrow>
              (case seek_pass trim_end ls pattern from of
                 Some i \<Rightarrow> Some i
               | None \<Rightarrow>
              (case seek_pass str_trim ls pattern from of
                 Some i \<Rightarrow> Some i
               | None \<Rightarrow> seek_pass normalise ls pattern from))))"

section \<open>Lemmas\<close>

text \<open>\<open>g\<close> identifies every two lines that \<open>f\<close> identifies.\<close>

definition coarser :: "(string \<Rightarrow> string) \<Rightarrow> (string \<Rightarrow> string) \<Rightarrow> bool" where
  "coarser g f \<longleftrightarrow> (\<forall>s t. f s = f t \<longrightarrow> g s = g t)"

lemma coarser_passes:
  "coarser normalise (\<lambda>s. s)" "coarser normalise trim_end" "coarser normalise str_trim"
  "coarser normalise normalise"
  by (auto simp: coarser_def normalise_def str_trim_def)

lemma map_eq_all2: "map f xs = map f ys \<longleftrightarrow> list_all2 (\<lambda>s t. f s = f t) xs ys"
  by (induction xs ys rule: list_induct2') auto

lemma window_eq_coarser: "coarser g f \<Longrightarrow> window_eq f ls pattern i \<Longrightarrow> window_eq g ls pattern i"
  unfolding window_eq_def map_eq_all2 coarser_def by (erule list_all2_mono) blast

lemma seek_pass_SomeD:
  assumes "seek_pass f ls pattern from = Some i" "length pattern \<le> length ls"
  shows "from \<le> i" "i + length pattern \<le> length ls" "window_eq f ls pattern i"
    "\<And>j. from \<le> j \<Longrightarrow> j < i \<Longrightarrow> \<not> window_eq f ls pattern j"
proof -
  let ?xs = "[from..<Suc (length ls - length pattern)]"
  from assms(1) obtain n where n: "n < length ?xs" "window_eq f ls pattern (?xs ! n)" "i = ?xs ! n"
      "\<forall>m < n. \<not> window_eq f ls pattern (?xs ! m)"
    unfolding seek_pass_def find_Some_iff by blast
  then have i: "i = from + n" "from + n < Suc (length ls - length pattern)"
    by (simp_all del: upt_Suc)
  show "from \<le> i" "i + length pattern \<le> length ls" "window_eq f ls pattern i"
    using i n assms(2) by auto
  show "\<not> window_eq f ls pattern j" if "from \<le> j" "j < i" for j
    using n(4) [rule_format, of "j - from"] that i by (simp del: upt_Suc)
qed

lemma seek_pass_NoneD:
  assumes "seek_pass f ls pattern from = None" "from \<le> i" "i + length pattern \<le> length ls"
  shows "\<not> window_eq f ls pattern i"
  using assms unfolding seek_pass_def find_None_iff by (simp del: upt_Suc)

lemma seek_sequence_cases:
  assumes "seek_sequence ls pattern start eof mode = Some i" "pattern \<noteq> []"
  obtains f where "coarser normalise f" "length pattern \<le> length ls"
    "seek_pass f ls pattern (search_start ls pattern start eof mode) = Some i"
  using assms coarser_passes
  by (auto simp: seek_sequence_def Let_def split: if_splits option.splits)

lemma search_start_ge:
  "\<not> eof \<or> mode = PreserveLineEndings \<Longrightarrow> start \<le> search_start ls pattern start eof mode"
  by (auto simp: search_start_def Let_def)

lemma seek_sequence_bounds:
  assumes "seek_sequence ls pattern start eof mode = Some i" "pattern \<noteq> []"
  shows "i + length pattern \<le> length ls" "search_start ls pattern start eof mode \<le> i"
    "window_eq normalise ls pattern i"
  using assms
  by (auto elim!: seek_sequence_cases dest: seek_pass_SomeD intro: window_eq_coarser)

lemma seek_sequence_ge:
  assumes "seek_sequence ls pattern start eof mode = Some i" "\<not> eof \<or> mode = PreserveLineEndings"
  shows "start \<le> i"
  using assms search_start_ge [of eof mode start ls pattern]
    seek_sequence_bounds(2) [of ls pattern start eof mode i]
  by (cases "pattern = []") (auto simp: seek_sequence_def)

section \<open>Properties\<close>

text \<open>A reported position is a window inside the file whose lines agree with the
  pattern up to surrounding whitespace and typographic punctuation, and it is not before the line
  the search has to start from.\<close>

theorem seek_sequence_sound:
  assumes "seek_sequence ls pattern start eof mode = Some i" "pattern \<noteq> []"
  shows "i + length pattern \<le> length ls \<and> search_start ls pattern start eof mode \<le> i \<and>
    map normalise (take (length pattern) (drop i ls)) = map normalise pattern"
  using seek_sequence_bounds [OF assms] by (simp add: window_eq_def)

theorem seek_sequence_sound_witness:
  "seek_sequence [''foo  '', ''bar''] [''foo''] 0 False NormalizeToLf = Some 0 \<and>
   map normalise (take 1 (drop 0 [''foo  '', ''bar''])) = map normalise [''foo'']"
proof -
  have s: "seek_sequence [''foo  '', ''bar''] [''foo''] 0 False NormalizeToLf = Some 0"
    by code_simp
  show ?thesis using s seek_sequence_sound [OF s] by simp
qed

text \<open>The search misses nothing: it fails exactly if the pattern is longer than the file
  or no window from the search start on agrees with it, even under the most permissive
  comparison.\<close>

theorem seek_sequence_complete:
  assumes "pattern \<noteq> []"
  shows "seek_sequence ls pattern start eof mode = None \<longleftrightarrow>
    length ls < length pattern \<or>
    \<not> (\<exists>i. search_start ls pattern start eof mode \<le> i \<and> i + length pattern \<le> length ls \<and>
          map normalise (take (length pattern) (drop i ls)) = map normalise pattern)"
proof (cases "length ls < length pattern")
  case True
  with assms show ?thesis by (simp add: seek_sequence_def)
next
  case False
  let ?from = "search_start ls pattern start eof mode"
  have pass: "(seek_pass f ls pattern ?from = None) =
      (\<not> (\<exists>i. ?from \<le> i \<and> i + length pattern \<le> length ls \<and> window_eq f ls pattern i))" for f
    using False seek_pass_NoneD [of f ls pattern ?from] seek_pass_SomeD [of f ls pattern ?from]
    by (cases "seek_pass f ls pattern ?from") auto
  have weaker: "seek_pass normalise ls pattern ?from = None \<Longrightarrow> coarser normalise f \<Longrightarrow>
      seek_pass f ls pattern ?from = None" for f
    unfolding pass using window_eq_coarser by blast
  have "seek_sequence ls pattern start eof mode = None \<longleftrightarrow>
      seek_pass normalise ls pattern ?from = None"
    using assms False weaker [OF _ coarser_passes(1)] weaker [OF _ coarser_passes(2)]
      weaker [OF _ coarser_passes(3)]
    by (cases "seek_pass normalise ls pattern ?from")
       (simp_all add: seek_sequence_def Let_def split: option.split)
  then show ?thesis using False unfolding pass window_eq_def by simp
qed

theorem seek_sequence_complete_witness:
  "seek_sequence [''foo'', ''bar''] [''baz''] 0 False NormalizeToLf = None \<longleftrightarrow>
   length [''foo'', ''bar''] < length [''baz''] \<or>
   \<not> (\<exists>i. search_start [''foo'', ''bar''] [''baz''] 0 False NormalizeToLf \<le> i \<and>
       i + length [''baz''] \<le> length [''foo'', ''bar''] \<and>
       map normalise (take (length [''baz'']) (drop i [''foo'', ''bar''])) = map normalise [''baz''])"
  by (rule seek_sequence_complete) simp

text \<open>An exact occurrence takes precedence over every approximate one, and among the
  exact ones the first is taken.\<close>

theorem seek_sequence_prefers_exact:
  assumes "pattern \<noteq> []" "search_start ls pattern start eof mode \<le> i"
    and "i + length pattern \<le> length ls" "take (length pattern) (drop i ls) = pattern"
  shows "\<exists>j \<le> i. seek_sequence ls pattern start eof mode = Some j \<and>
    take (length pattern) (drop j ls) = pattern"
proof -
  let ?from = "search_start ls pattern start eof mode"
  have len: "length pattern \<le> length ls" using assms(3) by simp
  have w: "window_eq (\<lambda>s. s) ls pattern i" using assms(4) by (simp add: window_eq_def)
  then obtain j where j: "seek_pass (\<lambda>s. s) ls pattern ?from = Some j"
    using seek_pass_NoneD [OF _ assms(2,3)] by fastforce
  have "j \<le> i" using seek_pass_SomeD(4) [OF j len assms(2)] w by (meson not_le)
  moreover have "take (length pattern) (drop j ls) = pattern"
    using seek_pass_SomeD(3) [OF j len] by (simp add: window_eq_def)
  moreover have "seek_sequence ls pattern start eof mode = Some j"
    using assms(1) len j by (simp add: seek_sequence_def)
  ultimately show ?thesis by blast
qed

theorem seek_sequence_prefers_exact_witness:
  "\<exists>j \<le> 1. seek_sequence [''foo '', ''foo''] [''foo''] 0 False NormalizeToLf = Some j \<and>
    take (length [''foo'']) (drop j [''foo '', ''foo'']) = [''foo'']"
  by (rule seek_sequence_prefers_exact) (simp_all add: search_start_def)

end
