(* ===== verification/Patch_Update.thy ===== *)
theory Patch_Update
  imports Patch_Seek "HOL-Library.Multiset"
begin

text \<open>
  Computing the new contents of an updated file: \<^verbatim>\<open>apply-patch/src/text_file.rs\<close> (files as
  lines with their endings) and the computation of \<^verbatim>\<open>apply-patch/src/file_update.rs\<close>
  (replacements from chunks, their application in the two update modes). Reading the file is left to
  the file system theory; here the original contents are an argument.

  A replacement is \<open>(start, old_len, new_lines)\<close>. \<open>ordered_from lo n rs\<close> says that the
  replacements are in source order, do not overlap, start at \<open>lo\<close> or later and stay within
  \<open>n\<close> lines: the precondition that \<open>SourceFile::apply_replacements\<close> checks with an assertion.
\<close>

section \<open>Files as lines\<close>

type_synonym 'a replacement = "nat \<times> nat \<times> 'a list"

datatype line_ending = Lf | CrLf | Cr

fun ending_str :: "line_ending \<Rightarrow> string" where
  "ending_str Lf = [newline]"
| "ending_str CrLf = [carriage_return, newline]"
| "ending_str Cr = [carriage_return]"

record source_line =
  line_text :: string
  line_end :: "line_ending option"

record source_file =
  sf_lines :: "source_line list"
  preferred_ending :: line_ending

text \<open>The scan of \<open>SourceFile::parse\<close>; \<open>acc\<close> is \<open>contents[line_start..cursor]\<close>.\<close>

fun parse_lines :: "string \<Rightarrow> string \<Rightarrow> source_line list" where
  "parse_lines acc [] = (if acc = [] then [] else [\<lparr>line_text = acc, line_end = None\<rparr>])"
| "parse_lines acc (c # s) =
     (if c = carriage_return then
        (case s of
           d # s' \<Rightarrow>
             if d = newline then \<lparr>line_text = acc, line_end = Some CrLf\<rparr> # parse_lines [] s'
             else \<lparr>line_text = acc, line_end = Some Cr\<rparr> # parse_lines [] (d # s')
         | [] \<Rightarrow> \<lparr>line_text = acc, line_end = Some Cr\<rparr> # parse_lines [] [])
      else if c = newline then \<lparr>line_text = acc, line_end = Some Lf\<rparr> # parse_lines [] s
      else parse_lines (acc @ [c]) s)"

definition sf_parse :: "string \<Rightarrow> source_file" where
  "sf_parse contents =
     (let ls = parse_lines [] contents
      in \<lparr>sf_lines = ls,
          preferred_ending = (case List.map_filter line_end ls of [] \<Rightarrow> Lf | e # _ \<Rightarrow> e)\<rparr>)"

definition line_texts :: "source_file \<Rightarrow> string list" where
  "line_texts sf = map line_text (sf_lines sf)"

definition terminate_line :: "line_ending \<Rightarrow> source_line \<Rightarrow> source_line" where
  "terminate_line pref l =
     (case line_end l of None \<Rightarrow> l\<lparr>line_end := Some pref\<rparr> | Some _ \<Rightarrow> l)"

text \<open>
  One pass over the source lines; \<open>source_index\<close> lines have been consumed. A replacement that
  starts before it trips the assertion (and the subtraction).
\<close>

fun sf_splice ::
  "line_ending \<Rightarrow> nat \<Rightarrow> source_line list \<Rightarrow> string replacement list \<Rightarrow> update_error + source_line list" where
  "sf_splice pref source_index src [] = Inr src"
| "sf_splice pref source_index src ((start_idx, old_len, new_segment) # rs) =
     (if start_idx < source_index then Inl UpdatePanic
      else and_then
        (sf_splice pref (start_idx + old_len) (drop old_len (drop (start_idx - source_index) src)) rs)
        (\<lambda>rest. Inr (take (start_idx - source_index) src
           @ map (\<lambda>text. \<lparr>line_text = text, line_end = Some pref\<rparr>) new_segment @ rest)))"

definition sf_apply_replacements ::
  "source_file \<Rightarrow> string replacement list \<Rightarrow> update_error + source_file" where
  "sf_apply_replacements sf rs =
     and_then (sf_splice (preferred_ending sf) 0 (sf_lines sf) rs) (\<lambda>ls.
       Inr (sf\<lparr>sf_lines := map (terminate_line (preferred_ending sf)) ls\<rparr>))"

definition line_bytes :: "source_line \<Rightarrow> string" where
  "line_bytes l = line_text l @ (case line_end l of None \<Rightarrow> [] | Some e \<Rightarrow> ending_str e)"

definition into_contents :: "source_file \<Rightarrow> string" where
  "into_contents sf = concat (map line_bytes (sf_lines sf))"

section \<open>Replacements from chunks\<close>

text \<open>
  The loop over the context pairs: runs of changed lines between context lines become
  replacements. The subtraction and the slice panic if the pairs go backwards.
\<close>

fun context_replacements ::
  "nat \<Rightarrow> nat \<Rightarrow> nat \<Rightarrow> nat \<Rightarrow> string list \<Rightarrow> (nat \<times> nat) list \<Rightarrow> update_error + string replacement list" where
  "context_replacements start_idx old_start new_start pattern_len new_slice [] =
     (if old_start \<noteq> pattern_len \<or> new_start \<noteq> length new_slice
      then (if pattern_len < old_start \<or> length new_slice < new_start then Inl UpdatePanic
            else Inr [(start_idx + old_start, pattern_len - old_start, drop new_start new_slice)])
      else Inr [])"
| "context_replacements start_idx old_start new_start pattern_len new_slice ((old_context, new_context) # ps) =
     (if pattern_len \<le> old_context \<or> length new_slice \<le> new_context
      then context_replacements start_idx old_start new_start pattern_len new_slice []
      else if old_start \<noteq> old_context \<or> new_start \<noteq> new_context
      then (if old_context < old_start \<or> new_context < new_start then Inl UpdatePanic
            else and_then
              (context_replacements start_idx (old_context + 1) (new_context + 1) pattern_len new_slice ps)
              (\<lambda>rs. Inr ((start_idx + old_start, old_context - old_start,
                 take (new_context - new_start) (drop new_start new_slice)) # rs)))
      else context_replacements start_idx (old_context + 1) (new_context + 1) pattern_len new_slice ps)"

definition last_is_empty :: "string list \<Rightarrow> bool" where
  "last_is_empty ls \<longleftrightarrow> ls \<noteq> [] \<and> last ls = []"

text \<open>Move behind the line named by the chunk's \<open>@@\<close> marker.\<close>

definition seek_context ::
  "string list \<Rightarrow> string \<Rightarrow> update_mode \<Rightarrow> update_file_chunk \<Rightarrow> nat \<Rightarrow> update_error + nat" where
  "seek_context original_lines path mode chunk line_index =
     (case change_context chunk of
        None \<Rightarrow> Inr line_index
      | Some ctx_line \<Rightarrow>
          (case seek_sequence original_lines [ctx_line] line_index False mode of
             Some idx \<Rightarrow> Inr (idx + 1)
           | None \<Rightarrow> Inl (ComputeReplacements
               (''Failed to find context '' @ [CHR 0x27] @ ctx_line @ [CHR 0x27] @ '' in '' @ path))))"

definition insertion_index :: "string list \<Rightarrow> update_mode \<Rightarrow> nat" where
  "insertion_index original_lines mode =
     (case mode of
        NormalizeToLf \<Rightarrow>
          if last_is_empty original_lines then length original_lines - 1 else length original_lines
      | PreserveLineEndings \<Rightarrow> length original_lines)"

text \<open>
  Find the old lines; when that fails and they end with an empty line, try again without it
  (and without a trailing empty new line). Returns the position, the lines matched, the new lines.
\<close>

definition locate_old_lines ::
  "string list \<Rightarrow> update_mode \<Rightarrow> update_file_chunk \<Rightarrow> nat \<Rightarrow> (nat \<times> string list \<times> string list) option" where
  "locate_old_lines original_lines mode chunk line_index =
     (case seek_sequence original_lines (old_lines chunk) line_index (is_end_of_file chunk) mode of
        Some i \<Rightarrow> Some (i, old_lines chunk, new_lines chunk)
      | None \<Rightarrow>
          if last_is_empty (old_lines chunk)
          then (let pattern = butlast (old_lines chunk);
                    new_slice = (if last_is_empty (new_lines chunk) then butlast (new_lines chunk)
                                 else new_lines chunk)
                in map_option (\<lambda>i. (i, pattern, new_slice))
                     (seek_sequence original_lines pattern line_index (is_end_of_file chunk) mode))
          else None)"

definition chunk_replacements ::
  "string list \<Rightarrow> string \<Rightarrow> update_mode \<Rightarrow> update_file_chunk \<Rightarrow> nat
     \<Rightarrow> update_error + (nat \<times> string replacement list)" where
  "chunk_replacements original_lines path mode chunk line_index =
     and_then (seek_context original_lines path mode chunk line_index) (\<lambda>line_index.
       if old_lines chunk = []
       then Inr (line_index, [(insertion_index original_lines mode, 0, new_lines chunk)])
       else (case locate_old_lines original_lines mode chunk line_index of
               None \<Rightarrow> Inl (ComputeReplacements (''Failed to find expected lines in '' @ path
                 @ '':'' @ [newline] @ join_with [newline] (old_lines chunk)))
             | Some (start_idx, pattern, new_slice) \<Rightarrow>
                 and_then (case mode of
                     NormalizeToLf \<Rightarrow> Inr [(start_idx, length pattern, new_slice)]
                   | PreserveLineEndings \<Rightarrow>
                       context_replacements start_idx 0 0 (length pattern) new_slice
                         (context_line_indices chunk))
                   (\<lambda>rs. Inr (start_idx + length pattern, rs))))"

fun collect_replacements ::
  "string list \<Rightarrow> string \<Rightarrow> update_mode \<Rightarrow> update_file_chunk list \<Rightarrow> nat
     \<Rightarrow> update_error + string replacement list" where
  "collect_replacements original_lines path mode [] line_index = Inr []"
| "collect_replacements original_lines path mode (chunk # chunks) line_index =
     and_then (chunk_replacements original_lines path mode chunk line_index) (\<lambda>(line_index, rs).
       and_then (collect_replacements original_lines path mode chunks line_index) (\<lambda>rest.
         Inr (rs @ rest)))"

definition compute_replacements ::
  "string list \<Rightarrow> string \<Rightarrow> update_mode \<Rightarrow> update_file_chunk list \<Rightarrow> update_error + string replacement list" where
  "compute_replacements original_lines path mode chunks =
     and_then (collect_replacements original_lines path mode chunks 0) (\<lambda>rs. Inr (sort_key fst rs))"

section \<open>Applying replacements to a vector of lines\<close>

fun remove_at :: "nat \<Rightarrow> nat \<Rightarrow> 'a list \<Rightarrow> 'a list" where
  "remove_at 0 i ls = ls"
| "remove_at (Suc n) i ls =
     remove_at n i (if i < length ls then take i ls @ drop (Suc i) ls else ls)"

fun insert_at :: "nat \<Rightarrow> 'a list \<Rightarrow> 'a list \<Rightarrow> update_error + 'a list" where
  "insert_at i [] ls = Inr ls"
| "insert_at i (x # xs) ls =
     (if length ls < i then Inl UpdatePanic else insert_at (Suc i) xs (take i ls @ x # drop i ls))"

text \<open>\<open>rs\<close> is in descending order here: the code iterates with \<open>rev()\<close>.\<close>

fun apply_descending :: "'a list \<Rightarrow> 'a replacement list \<Rightarrow> update_error + 'a list" where
  "apply_descending ls [] = Inr ls"
| "apply_descending ls ((start_idx, old_len, new_segment) # rs) =
     and_then (insert_at start_idx new_segment (remove_at old_len start_idx ls))
       (\<lambda>ls. apply_descending ls rs)"

definition apply_replacements :: "'a list \<Rightarrow> 'a replacement list \<Rightarrow> update_error + 'a list" where
  "apply_replacements ls rs = apply_descending ls (rev rs)"

section \<open>New contents\<close>

definition normalized_lines :: "string \<Rightarrow> string list" where
  "normalized_lines contents =
     (let ls = split_on newline contents in if last_is_empty ls then butlast ls else ls)"

definition join_normalized :: "string list \<Rightarrow> string" where
  "join_normalized ls = join_with [newline] (if last_is_empty ls then ls else ls @ [[]])"

definition derive_new_contents ::
  "string \<Rightarrow> update_mode \<Rightarrow> update_file_chunk list \<Rightarrow> string \<Rightarrow> update_error + string" where
  "derive_new_contents path mode chunks original_contents =
     (case mode of
        NormalizeToLf \<Rightarrow>
          (let original_lines = normalized_lines original_contents
           in and_then (compute_replacements original_lines path mode chunks) (\<lambda>rs.
                and_then (apply_replacements original_lines rs) (\<lambda>ls. Inr (join_normalized ls))))
      | PreserveLineEndings \<Rightarrow>
          (let source_file = sf_parse original_contents
           in and_then (compute_replacements (line_texts source_file) path mode chunks) (\<lambda>rs.
                and_then (sf_apply_replacements source_file rs) (\<lambda>sf. Inr (into_contents sf)))))"

section \<open>Round trip of the line representation\<close>

lemma parse_lines_bytes: "concat (map line_bytes (parse_lines acc s)) = acc @ s"
  by (induction acc s rule: parse_lines.induct) (auto simp: line_bytes_def split: list.split)

text \<open>Parsed lines hold no line break, and only the last one may lack an ending.\<close>

definition plain_text :: "string \<Rightarrow> bool" where
  "plain_text t \<longleftrightarrow> newline \<notin> set t \<and> carriage_return \<notin> set t"

lemma parse_lines_plain:
  "plain_text acc \<Longrightarrow> list_all (\<lambda>l. plain_text (line_text l)) (parse_lines acc s)"
proof (induction acc s rule: parse_lines.induct)
  case (2 acc c s)
  then show ?case
    by (cases s) (simp_all add: plain_text_def)
qed (simp add: plain_text_def)

section \<open>Ordered replacements\<close>

fun ordered_from :: "nat \<Rightarrow> nat \<Rightarrow> 'a replacement list \<Rightarrow> bool" where
  "ordered_from lo n [] = (lo \<le> n)"
| "ordered_from lo n ((start, old_len, _) # rs) = (lo \<le> start \<and> ordered_from (start + old_len) n rs)"

text \<open>The intended effect: one pass that copies the lines between replacements.\<close>

fun splice_lines :: "nat \<Rightarrow> 'a list \<Rightarrow> 'a replacement list \<Rightarrow> 'a list" where
  "splice_lines at_index src [] = src"
| "splice_lines at_index src ((start, old_len, new_segment) # rs) =
     take (start - at_index) src @ new_segment
     @ splice_lines (start + old_len) (drop (start - at_index + old_len) src) rs"

lemma ordered_from_le: "ordered_from lo n rs \<Longrightarrow> lo \<le> n"
  by (induction lo n rs rule: ordered_from.induct) auto

lemma ordered_from_mono: "ordered_from lo n rs \<Longrightarrow> lo' \<le> lo \<Longrightarrow> ordered_from lo' n rs"
  by (cases "(lo, n, rs)" rule: ordered_from.cases) auto

lemma ordered_from_append:
  "ordered_from lo m rs \<Longrightarrow> ordered_from m n rs' \<Longrightarrow> ordered_from lo n (rs @ rs')"
  by (induction lo m rs rule: ordered_from.induct) (auto intro: ordered_from_mono)

lemma ordered_from_end:
  "ordered_from lo n rs \<Longrightarrow> r \<in> set rs \<Longrightarrow> lo \<le> fst r \<and> fst r + fst (snd r) \<le> n"
  by (induction lo n rs rule: ordered_from.induct) (auto dest: ordered_from_le)

lemma ordered_from_sorted: "ordered_from lo n rs \<Longrightarrow> sorted (map fst rs)"
proof (induction lo n rs rule: ordered_from.induct)
  case (2 lo n start old_len new rs)
  then show ?case using ordered_from_end [of "start + old_len" n rs] by (auto dest: add_leD1)
qed simp

lemma ordered_from_filter: "ordered_from lo n rs \<Longrightarrow> ordered_from lo n (filter P rs)"
proof (induction lo n rs rule: ordered_from.induct)
  case (2 lo n start old_len new rs)
  then have "ordered_from (start + old_len) n (filter P rs)" by simp
  then show ?case using 2(2) ordered_from_mono [of "start + old_len" n "filter P rs" lo] by auto
qed simp

text \<open>Insertions at the very end may come in between; the stable sort moves them last.\<close>

definition append_only :: "nat \<Rightarrow> 'a replacement \<Rightarrow> bool" where
  "append_only n r \<longleftrightarrow> fst r = n \<and> fst (snd r) = 0"

lemma sort_appends_last:
  fixes rs :: "'a replacement list"
  assumes "ordered_from lo n (filter (\<lambda>r. fst r < n) rs)"
    and "\<And>r. r \<in> set rs \<Longrightarrow> \<not> fst r < n \<Longrightarrow> append_only n r"
  shows "sort_key fst rs = filter (\<lambda>r. fst r < n) rs @ filter (\<lambda>r. \<not> fst r < n) rs"
proof (rule properties_for_sort_key)
  show "mset (filter (\<lambda>r. fst r < n) rs @ filter (\<lambda>r. \<not> fst r < n) rs) = mset rs" by simp
next
  fix k :: "'a replacement"
  have lt: "filter (\<lambda>x. fst k = fst x \<and> fst x < n) rs = filter (\<lambda>x. fst k = fst x) rs" if "fst k < n"
    using that by (intro filter_cong) auto
  have ge: "filter (\<lambda>x. fst k = fst x \<and> \<not> fst x < n) rs = filter (\<lambda>x. fst k = fst x) rs" if "\<not> fst k < n"
    using that by (intro filter_cong) auto
  have e1: "filter (\<lambda>x. fst k = fst x \<and> \<not> fst x < n) rs = []" if "fst k < n"
    using that by (auto simp: filter_empty_conv)
  have e2: "filter (\<lambda>x. fst k = fst x \<and> fst x < n) rs = []" if "\<not> fst k < n"
    using that by (auto simp: filter_empty_conv)
  show "filter (\<lambda>x. fst k = fst x) (filter (\<lambda>r. fst r < n) rs @ filter (\<lambda>r. \<not> fst r < n) rs)
      = filter (\<lambda>x. fst k = fst x) rs"
    using lt ge e1 e2 by (cases "fst k < n") (simp_all add: conj_commute)
next
  have "sorted (map fst (filter (\<lambda>r. \<not> fst r < n) rs))"
    using assms(2)
    by (subst map_cong [where g = "\<lambda>_. n", OF refl]) (auto simp: append_only_def map_replicate_const)
  then show "sorted (map fst (filter (\<lambda>r. fst r < n) rs @ filter (\<lambda>r. \<not> fst r < n) rs))"
    using ordered_from_sorted [OF assms(1)] by (auto simp: sorted_append)
qed

lemma ordered_from_appends:
  "lo \<le> n \<Longrightarrow> (\<And>r. r \<in> set rs \<Longrightarrow> append_only n r) \<Longrightarrow> ordered_from lo n rs"
proof (induction rs arbitrary: lo)
  case (Cons r rs)
  obtain start k new where r: "r = (start, k, new)" by (metis prod_cases3)
  have "append_only n r" using Cons.prems(2) by simp
  then have "start = n" "k = 0" using r by (simp_all add: append_only_def)
  moreover have "ordered_from n n rs" using Cons by (intro Cons.IH) simp_all
  ultimately show ?case using r Cons.prems(1) by simp
qed simp

lemma ordered_from_sort_key:
  fixes rs :: "'a replacement list"
  assumes "ordered_from lo n (filter (\<lambda>r. fst r < n) rs)"
    and "\<And>r. r \<in> set rs \<Longrightarrow> \<not> fst r < n \<Longrightarrow> append_only n r"
  shows "ordered_from lo n (sort_key fst rs)"
proof -
  have "ordered_from n n (filter (\<lambda>r. \<not> fst r < n) rs)"
    using assms(2) by (intro ordered_from_appends) auto
  with assms(1) have "ordered_from lo n
      (filter (\<lambda>r. fst r < n) rs @ filter (\<lambda>r. \<not> fst r < n) rs)"
    by (rule ordered_from_append)
  then show ?thesis using sort_appends_last [OF assms] by simp
qed

section \<open>Both application algorithms refine the one-pass splice\<close>

lemma sf_splice_correct:
  "ordered_from at_index n rs \<Longrightarrow> sf_splice pref at_index src rs =
     Inr (splice_lines at_index src
       (map (\<lambda>(i, k, new). (i, k, map (\<lambda>text. \<lparr>line_text = text, line_end = Some pref\<rparr>) new)) rs))"
  by (induction pref at_index src rs rule: sf_splice.induct) (auto simp: add.commute)

lemma remove_at_eq: "i \<le> length ls \<Longrightarrow> remove_at k i ls = take i ls @ drop (i + k) ls"
  by (induction k i ls rule: remove_at.induct) (auto simp: min_def add.commute)

lemma insert_at_eq: "i \<le> length ls \<Longrightarrow> insert_at i xs ls = Inr (take i ls @ xs @ drop i ls)"
  by (induction i xs ls rule: insert_at.induct) (auto simp: min_def)

lemma apply_descending_append:
  "apply_descending ls (rs @ rs') = and_then (apply_descending ls rs) (\<lambda>ls. apply_descending ls rs')"
  by (induction ls rs rule: apply_descending.induct)
     (auto simp: and_then_def split: sum.splits)

text \<open>Later replacements leave the lines in front of them alone.\<close>

lemma apply_descending_rev:
  assumes "ordered_from lo (length ls) rs"
  shows "apply_descending ls (rev rs) = Inr (take lo ls @ splice_lines lo (drop lo ls) rs)"
  using assms
proof (induction lo "length ls" rs rule: ordered_from.induct)
  case (1 lo)
  then show ?case by simp
next
  case (2 lo start old_len new rs)
  let ?e = "start + old_len"
  from 2 have o: "lo \<le> start" "?e \<le> length ls"
    and ih: "apply_descending ls (rev rs) = Inr (take ?e ls @ splice_lines ?e (drop ?e ls) rs)"
    by (auto dest: ordered_from_le)
  let ?t = "splice_lines ?e (drop ?e ls) rs"
  have r: "remove_at old_len start (take ?e ls @ ?t) = take start ls @ ?t"
    using o by (subst remove_at_eq) (auto simp: min_def)
  have i: "insert_at start new (take start ls @ ?t) = Inr (take start ls @ new @ ?t)"
    using o by (subst insert_at_eq) (auto simp: min_def)
  have split: "take start ls = take lo ls @ take (start - lo) (drop lo ls)"
    using o by (metis le_add_diff_inverse take_add)
  have "drop (start - lo + old_len) (drop lo ls) = drop ?e ls" using o by (simp add: add.commute)
  then have "splice_lines lo (drop lo ls) ((start, old_len, new) # rs)
      = take (start - lo) (drop lo ls) @ new @ ?t"
    by (simp only: splice_lines.simps)
  moreover have "apply_descending ls (rev ((start, old_len, new) # rs))
      = Inr (take start ls @ new @ ?t)"
    by (simp add: apply_descending_append ih r i)
  ultimately show ?case by (simp add: split)
qed

lemma apply_replacements_correct:
  "ordered_from 0 (length ls) rs \<Longrightarrow> apply_replacements ls rs = Inr (splice_lines 0 ls rs)"
  by (simp add: apply_replacements_def apply_descending_rev)

lemma splice_lines_skip:
  "ordered_from (at_index + k) n rs \<Longrightarrow> k \<le> length src \<Longrightarrow>
     splice_lines at_index src rs = take k src @ splice_lines (at_index + k) (drop k src) rs"
proof (cases rs)
  case (Cons r rs')
  assume *: "ordered_from (at_index + k) n rs" "k \<le> length src"
  obtain start m new where r: "r = (start, m, new)" by (metis prod_cases3)
  have "take (start - at_index) src = take k src @ take (start - (at_index + k)) (drop k src)"
    using * r Cons by (simp add: take_add [symmetric])
  with * r Cons show ?thesis by (simp add: add.commute)
qed simp

section \<open>The replacements of a chunk\<close>

lemma context_replacements_ordered:
  assumes "context_pairs_ok a b olds news ps" "prefix pat olds" "prefix new' news"
    and "a \<le> length pat" "b \<le> length new'"
  shows "\<exists>rs. context_replacements s a b (length pat) new' ps = Inr rs \<and>
    ordered_from (s + a) (s + length pat) rs"
  using assms
proof (induction a b olds news ps rule: context_pairs_ok.induct)
  case (2 a b olds news i j ps)
  show ?case
  proof (cases "length pat \<le> i \<or> length new' \<le> j")
    case True
    with 2 show ?thesis by auto
  next
    case False
    then obtain rs where rs: "context_replacements s (Suc i) (Suc j) (length pat) new' ps = Inr rs"
        "ordered_from (s + Suc i) (s + length pat) rs"
      using 2 by auto
    moreover have "ordered_from (s + i) (s + length pat) rs" "ordered_from (s + a) (s + length pat) rs"
      using 2 rs(2) ordered_from_mono by fastforce+
    ultimately show ?thesis using 2 False by auto
  qed
qed auto

text \<open>
  When the window equals the old lines exactly, leaving the context lines in place gives the same
  lines as replacing the whole window by the new lines.
\<close>

lemma context_replacements_splice:
  assumes "context_pairs_ok a b olds news ps" "prefix pat olds" "prefix new' news"
    and "a \<le> length pat" "b \<le> length new'" "drop s ls = pat @ rest"
    and "context_replacements s a b (length pat) new' ps = Inr rs"
  shows "splice_lines (s + a) (drop (s + a) ls) rs = drop b new' @ rest"
  using assms
proof (induction a b olds news ps arbitrary: rs rule: context_pairs_ok.induct)
  case (1 a b olds news)
  then have "drop (s + a) ls = drop a pat @ rest" by (metis drop_drop add.commute drop_append
    diff_is_0_eq drop0)
  with 1 show ?case by (auto split: if_splits)
next
  case (2 a b olds news i j ps)
  have d: "drop (s + k) ls = drop k pat @ rest" if "k \<le> length pat" for k
    using that 2(7) by (metis add.commute drop_drop drop_append diff_is_0_eq drop0)
  show ?case
  proof (cases "length pat \<le> i \<or> length new' \<le> j")
    case True
    with 2 d show ?thesis by (auto split: if_splits)
  next
    case False
    then obtain rs' where rs': "context_replacements s (Suc i) (Suc j) (length pat) new' ps = Inr rs'"
      using 2(8) by (auto simp: and_then_Inr_iff split: if_splits)
    have ih: "splice_lines (s + Suc i) (drop (s + Suc i) ls) rs' = drop (Suc j) new' @ rest"
      using 2 False rs' by auto
    have eq: "pat ! i = new' ! j" using 2 False by (auto simp: prefix_def nth_append)
    obtain n where "ordered_from (s + i + 1) n rs'"
      using context_replacements_ordered [of "Suc i" "Suc j" olds news ps pat new' s] 2 False rs' by auto
    then have "splice_lines (s + i) (drop (s + i) ls) rs' =
        take 1 (drop (s + i) ls) @ splice_lines (s + i + 1) (drop 1 (drop (s + i) ls)) rs'"
      using d [of i] False by (intro splice_lines_skip) auto
    also have "\<dots> = new' ! j # drop (Suc j) new' @ rest"
      using d [of i] d [of "Suc i"] ih False eq by (simp add: take_Suc_conv_app_nth hd_drop_conv_nth take_Suc)
    finally have from_i: "splice_lines (s + i) (drop (s + i) ls) rs' = drop j new' @ rest"
      using False by (simp add: Cons_nth_drop_Suc)
    have "drop b new' = take (j - b) (drop b new') @ drop j new'"
      using 2(2) by (metis append_take_drop_id context_pairs_ok.simps(2) drop_drop le_add_diff_inverse2)
    then show ?thesis using 2 False rs' from_i by (auto simp: add.commute split: if_splits)
  qed
qed

lemma seek_context_bounds:
  assumes "seek_context ls path mode chunk li = Inr li'" "li \<le> length ls"
  shows "li \<le> li'" "li' \<le> length ls"
proof -
  have "li \<le> li' \<and> li' \<le> length ls"
  proof (cases "change_context chunk")
    case (Some c)
    with assms(1) obtain i where i: "seek_sequence ls [c] li False mode = Some i" "li' = i + 1"
      by (auto simp: seek_context_def split: option.splits)
    then show ?thesis using seek_sequence_bounds(1) [OF i(1)] seek_sequence_ge [OF i(1)] by simp
  qed (use assms in \<open>simp add: seek_context_def\<close>)
  then show "li \<le> li'" "li' \<le> length ls" by simp_all
qed

lemma seek_context_no_panic: "seek_context ls path mode chunk li \<noteq> Inl UpdatePanic"
  by (simp add: seek_context_def split: option.splits)

lemma prefix_butlast: "prefix (butlast xs) xs"
  by (cases xs rule: rev_cases) auto

lemma locate_old_lines_bounds:
  assumes "locate_old_lines ls mode chunk li = Some (i, pat, new')" "li \<le> length ls"
    and "old_lines chunk \<noteq> []"
  shows "i + length pat \<le> length ls" "prefix pat (old_lines chunk)" "prefix new' (new_lines chunk)"
    "\<not> is_end_of_file chunk \<or> mode = PreserveLineEndings \<Longrightarrow> li \<le> i"
proof -
  from assms(1) have seek: "seek_sequence ls pat li (is_end_of_file chunk) mode = Some i"
    and pre: "prefix pat (old_lines chunk)" "prefix new' (new_lines chunk)"
    by (auto simp: locate_old_lines_def Let_def prefix_butlast split: option.splits if_splits)
  show "i + length pat \<le> length ls"
    using seek_sequence_bounds(1) [OF seek] assms(2) seek
    by (cases "pat = []") (auto simp: seek_sequence_def)
  show "prefix pat (old_lines chunk)" "prefix new' (new_lines chunk)" by (fact pre)+
  show "li \<le> i" if "\<not> is_end_of_file chunk \<or> mode = PreserveLineEndings"
    using seek_sequence_ge [OF seek that] .
qed

text \<open>
  A chunk yields replacements within the lines it consumes, or one insertion at the end. Chunks
  marked as end of file restart at the end in \<open>NormalizeToLf\<close> mode and are left out there.
\<close>

definition orderly :: "update_mode \<Rightarrow> update_file_chunk \<Rightarrow> bool" where
  "orderly mode chunk \<longleftrightarrow>
     (case mode of PreserveLineEndings \<Rightarrow> chunk_wf chunk | NormalizeToLf \<Rightarrow> \<not> is_end_of_file chunk)"

lemma chunk_replacements_ordered:
  assumes "orderly mode chunk" "li \<le> length ls" "old_lines chunk \<noteq> []"
    and "chunk_replacements ls path mode chunk li = Inr (li', rs)"
  shows "li \<le> li'" "li' \<le> length ls" "ordered_from li li' rs"
proof -
  from assms(4) obtain l1 where l1: "seek_context ls path mode chunk li = Inr l1"
    by (auto simp: chunk_replacements_def and_then_Inr_iff)
  note b = seek_context_bounds [OF l1 assms(2)]
  from assms(3,4) l1 obtain i pat new' where loc: "locate_old_lines ls mode chunk l1 = Some (i, pat, new')"
    by (auto simp: chunk_replacements_def split: option.splits)
  have li': "li' = i + length pat"
    using assms(3,4) l1 loc by (auto simp: chunk_replacements_def and_then_Inr_iff)
  note lb = locate_old_lines_bounds [OF loc b(2) assms(3)]
  have "l1 \<le> i" using assms(1) lb(4) by (auto simp: orderly_def split: update_mode.splits)
  then show "li \<le> li'" "li' \<le> length ls" using li' lb(1) b by auto
  have "ordered_from i (i + length pat) rs"
  proof (cases mode)
    case NormalizeToLf
    with assms(3,4) l1 loc show ?thesis by (auto simp: chunk_replacements_def)
  next
    case PreserveLineEndings
    with assms(1) have "context_pairs_ok 0 0 (old_lines chunk) (new_lines chunk) (context_line_indices chunk)"
      by (simp add: orderly_def chunk_wf_def)
    from context_replacements_ordered [OF this lb(2,3), of i] PreserveLineEndings assms(3,4) l1 loc
    show ?thesis by (auto simp: chunk_replacements_def and_then_Inr_iff)
  qed
  then show "ordered_from li li' rs" using \<open>l1 \<le> i\<close> b(1) li' ordered_from_mono by fastforce
qed

lemma chunk_replacements_insert:
  assumes "li \<le> length ls" "old_lines chunk = []"
    and "chunk_replacements ls path mode chunk li = Inr (li', rs)"
  shows "li \<le> li'" "li' \<le> length ls" "rs = [(insertion_index ls mode, 0, new_lines chunk)]"
  using assms seek_context_bounds by (auto simp: chunk_replacements_def and_then_Inr_iff)

lemma chunk_replacements_le:
  assumes "li \<le> length ls" "chunk_replacements ls path mode chunk li = Inr (li', rs)"
  shows "li' \<le> length ls"
proof (cases "old_lines chunk = []")
  case True
  then show ?thesis using chunk_replacements_insert(2) [OF assms(1) _ assms(2)] by simp
next
  case False
  from assms(2) obtain l1 where l1: "seek_context ls path mode chunk li = Inr l1"
    by (auto simp: chunk_replacements_def and_then_Inr_iff)
  from False assms(2) l1 obtain i pat new' where
    loc: "locate_old_lines ls mode chunk l1 = Some (i, pat, new')" "li' = i + length pat"
    by (auto simp: chunk_replacements_def and_then_Inr_iff split: option.splits)
  with False locate_old_lines_bounds(1) [OF loc(1) seek_context_bounds(2) [OF l1 assms(1)]]
  show ?thesis by simp
qed

lemma chunk_replacements_no_panic:
  assumes "mode = PreserveLineEndings \<longrightarrow> chunk_wf chunk" "li \<le> length ls"
  shows "chunk_replacements ls path mode chunk li \<noteq> Inl UpdatePanic"
proof (cases "seek_context ls path mode chunk li")
  case (Inl e)
  then show ?thesis using seek_context_no_panic [of ls path mode chunk li]
    by (auto simp: chunk_replacements_def)
next
  case (Inr l1)
  note b = seek_context_bounds [OF Inr assms(2)]
  show ?thesis
  proof (cases "old_lines chunk = [] \<or> locate_old_lines ls mode chunk l1 = None \<or> mode = NormalizeToLf")
    case True
    then show ?thesis by (auto simp: chunk_replacements_def Inr split: option.split)
  next
    case False
    then obtain i pat new' where loc: "locate_old_lines ls mode chunk l1 = Some (i, pat, new')"
      by auto
    have wf: "context_pairs_ok 0 0 (old_lines chunk) (new_lines chunk) (context_line_indices chunk)"
      using False assms(1) by (cases mode) (auto simp: chunk_wf_def)
    note lb = locate_old_lines_bounds [OF loc b(2)]
    show ?thesis using False loc Inr context_replacements_ordered [OF wf lb(2,3), of i]
      by (cases mode) (auto simp: chunk_replacements_def)
  qed
qed

text \<open>
  The insertion point of a chunk without old lines is the end, except for a legacy file whose last
  line is empty.
\<close>

definition insert_safe :: "update_mode \<Rightarrow> string list \<Rightarrow> update_file_chunk \<Rightarrow> bool" where
  "insert_safe mode ls chunk \<longleftrightarrow>
     mode = PreserveLineEndings \<or> \<not> last_is_empty ls \<or> old_lines chunk \<noteq> []"

lemma collect_replacements_ordered:
  assumes "list_all (orderly mode) chunks" "list_all (insert_safe mode ls) chunks" "li \<le> length ls"
    and "collect_replacements ls path mode chunks li = Inr rs"
  shows "ordered_from li (length ls) (filter (\<lambda>r. fst r < length ls) rs) \<and>
    (\<forall>r \<in> set rs. \<not> fst r < length ls \<longrightarrow> append_only (length ls) r)"
  using assms
proof (induction chunks arbitrary: li rs)
  case (Cons chunk chunks)
  let ?n = "length ls" and ?keep = "filter (\<lambda>r. fst r < length ls)"
  from Cons.prems(4) obtain li' r1 r2 where c: "chunk_replacements ls path mode chunk li = Inr (li', r1)"
      "collect_replacements ls path mode chunks li' = Inr r2" "rs = r1 @ r2"
    by (auto simp: and_then_Inr_iff)
  have step: "li \<le> li' \<and> li' \<le> ?n \<and> ordered_from li li' (?keep r1) \<and>
      (\<forall>r \<in> set r1. \<not> fst r < ?n \<longrightarrow> append_only ?n r)"
  proof (cases "old_lines chunk = []")
    case True
    note i = chunk_replacements_insert [OF Cons.prems(3) True c(1)]
    have "insertion_index ls mode = ?n"
      using True Cons.prems(2) by (auto simp: insert_safe_def insertion_index_def split: update_mode.split)
    with i show ?thesis by (simp add: append_only_def)
  next
    case False
    have "orderly mode chunk" using Cons.prems(1) by simp
    note o = chunk_replacements_ordered [OF this Cons.prems(3) False c(1)]
    have "append_only ?n r" if "r \<in> set r1" "\<not> fst r < ?n" for r
      using ordered_from_end [OF o(3) that(1)] o(2) that(2) by (simp add: append_only_def)
    with o show ?thesis by (simp add: ordered_from_filter)
  qed
  moreover have "ordered_from li' ?n (?keep r2) \<and> (\<forall>r \<in> set r2. \<not> fst r < ?n \<longrightarrow> append_only ?n r)"
    using Cons.IH [OF _ _ _ c(2)] Cons.prems step by simp
  ultimately show ?case using c(3) by (auto intro: ordered_from_append)
qed simp

lemma compute_replacements_ordered:
  assumes "list_all (orderly mode) chunks" "list_all (insert_safe mode ls) chunks"
    and "compute_replacements ls path mode chunks = Inr rs"
  shows "ordered_from 0 (length ls) rs"
proof -
  from assms(3) obtain rs0 where "collect_replacements ls path mode chunks 0 = Inr rs0"
      "rs = sort_key fst rs0"
    by (auto simp: compute_replacements_def and_then_Inr_iff)
  moreover from this(1) have "ordered_from 0 (length ls) (filter (\<lambda>r. fst r < length ls) rs0) \<and>
      (\<forall>r \<in> set rs0. \<not> fst r < length ls \<longrightarrow> append_only (length ls) r)"
    by (intro collect_replacements_ordered [OF assms(1,2)]) simp_all
  ultimately show ?thesis by (auto intro: ordered_from_sort_key)
qed

lemma collect_replacements_no_panic:
  assumes "mode = PreserveLineEndings \<longrightarrow> list_all chunk_wf chunks"
    and "li \<le> length ls"
  shows "collect_replacements ls path mode chunks li \<noteq> Inl UpdatePanic"
  using assms
proof (induction chunks arbitrary: li)
  case (Cons chunk chunks)
  show ?case
  proof (cases "chunk_replacements ls path mode chunk li")
    case (Inl e)
    then show ?thesis using chunk_replacements_no_panic [of mode chunk li ls path] Cons.prems by auto
  next
    case (Inr r)
    obtain li' rs where r: "r = (li', rs)" by fastforce
    then have "li' \<le> length ls" using chunk_replacements_le [OF Cons.prems(2)] Inr by simp
    then have "collect_replacements ls path mode chunks li' \<noteq> Inl UpdatePanic"
      using Cons by simp
    then show ?thesis using Inr r by (cases "collect_replacements ls path mode chunks li'") auto
  qed
qed simp

section \<open>Properties\<close>

lemma list_all_orderly:
  "list_all chunk_wf chunks \<Longrightarrow> list_all (orderly PreserveLineEndings) chunks"
  "list_all (insert_safe PreserveLineEndings ls) chunks"
  by (simp_all add: orderly_def insert_safe_def list_all_iff)

text \<open>Reading a file into lines with their endings and writing it back is the identity,
  whatever mixture of line endings the file has; no line text contains a line break.\<close>

theorem source_file_roundtrip:
  "into_contents (sf_parse s) = s \<and>
   list_all (\<lambda>t. newline \<notin> set t \<and> carriage_return \<notin> set t) (line_texts (sf_parse s))"
  using parse_lines_bytes [of "[]" s] parse_lines_plain [of "[]" s]
  by (simp add: into_contents_def sf_parse_def Let_def line_texts_def plain_text_def list_all_iff)

lemma preserving_update_result:
  assumes "list_all chunk_wf chunks"
  shows "(\<exists>contents. derive_new_contents path PreserveLineEndings chunks original = Inr contents) \<or>
    (\<exists>msg. derive_new_contents path PreserveLineEndings chunks original = Inl (ComputeReplacements msg))"
proof -
  let ?sf = "sf_parse original" and ?ls = "line_texts (sf_parse original)"
  show ?thesis
  proof (cases "compute_replacements ?ls path PreserveLineEndings chunks")
    case (Inl e)
    then have "e \<noteq> UpdatePanic"
      using collect_replacements_no_panic [of PreserveLineEndings chunks 0 ?ls path] assms
      by (auto simp: compute_replacements_def and_then_def split: sum.splits)
    with Inl show ?thesis by (cases e) (auto simp: derive_new_contents_def)
  next
    case (Inr rs)
    then have "ordered_from 0 (length ?ls) rs"
      using compute_replacements_ordered list_all_orderly assms by blast
    with Inr show ?thesis
      by (simp add: derive_new_contents_def Let_def sf_apply_replacements_def sf_splice_correct)
  qed
qed

text \<open>In the mode that preserves line endings an update with well-formed chunks never
  panics: every ordering assertion, subtraction and slice on the way from the chunks to the new
  contents is in range. The update succeeds or reports that some lines were not found.\<close>

theorem preserving_update_no_panic:
  assumes "list_all chunk_wf chunks"
  shows "(\<exists>contents. derive_new_contents path PreserveLineEndings chunks original = Inr contents) \<or>
    (\<exists>msg. derive_new_contents path PreserveLineEndings chunks original = Inl (ComputeReplacements msg))"
  using assms by (rule preserving_update_result)

theorem preserving_update_no_panic_witness:
  "(\<exists>contents. derive_new_contents ''f'' PreserveLineEndings
      [default_chunk\<lparr>old_lines := [''a''], new_lines := [''b'']\<rparr>] ''a'' = Inr contents) \<or>
   (\<exists>msg. derive_new_contents ''f'' PreserveLineEndings
      [default_chunk\<lparr>old_lines := [''a''], new_lines := [''b'']\<rparr>] ''a'' = Inl (ComputeReplacements msg))"
  by (rule preserving_update_no_panic) (simp add: chunk_wf_def default_chunk_def)

text \<open>For legacy updates without end-of-file chunks, applying the replacements one by
  one from the back, in place, gives the result of a single forward pass over the file: no
  replacement disturbs the position of another and no index is out of range.\<close>

theorem normalizing_update_is_splice:
  assumes "list_all (\<lambda>c. \<not> is_end_of_file c) chunks"
    and "\<not> last_is_empty ls \<or> list_all (\<lambda>c. old_lines c \<noteq> []) chunks"
    and "compute_replacements ls path NormalizeToLf chunks = Inr rs"
  shows "apply_replacements ls rs = Inr (splice_lines 0 ls rs)"
proof -
  have "list_all (orderly NormalizeToLf) chunks" using assms(1) by (simp add: orderly_def list_all_iff)
  moreover have "list_all (insert_safe NormalizeToLf ls) chunks"
    using assms(2) by (auto simp: insert_safe_def list_all_iff)
  ultimately show ?thesis
    using assms(3) by (intro apply_replacements_correct compute_replacements_ordered)
qed

theorem normalizing_update_is_splice_witness:
  "apply_replacements [''a'', ''b''] [(1, 1, [''c'', ''d''])]
     = Inr (splice_lines 0 [''a'', ''b''] [(1, 1, [''c'', ''d''])])"
proof (rule normalizing_update_is_splice)
  show "compute_replacements [''a'', ''b''] ''f'' NormalizeToLf
      [default_chunk\<lparr>old_lines := [''b''], new_lines := [''c'', ''d'']\<rparr>] = Inr [(1, 1, [''c'', ''d''])]"
    by code_simp
qed (simp_all add: default_chunk_def)

lemma splice_lines_map:
  "map f (splice_lines n src rs) = splice_lines n (map f src) (map (\<lambda>(i, k, new). (i, k, map f new)) rs)"
  by (induction n src rs rule: splice_lines.induct) (auto simp: take_map drop_map)

lemma sf_apply_texts:
  assumes "ordered_from 0 n rs"
  shows "\<exists>sf'. sf_apply_replacements sf rs = Inr sf' \<and>
    line_texts sf' = splice_lines 0 (line_texts sf) rs \<and>
    (\<forall>l \<in> set (sf_lines sf'). line_end l \<noteq> None)"
proof -
  have t: "line_text (terminate_line pref l) = line_text l" for pref l
    by (simp add: terminate_line_def split: option.split)
  have e: "line_end (terminate_line pref l) \<noteq> None" for pref l
    by (simp add: terminate_line_def split: option.split)
  let ?ls = "splice_lines 0 (sf_lines sf) (map (\<lambda>(i, k, new). (i, k,
      map (\<lambda>text. \<lparr>line_text = text, line_end = Some (preferred_ending sf)\<rparr>) new)) rs)"
  let ?sf = "sf\<lparr>sf_lines := map (terminate_line (preferred_ending sf)) ?ls\<rparr>"
  have "sf_apply_replacements sf rs = Inr ?sf"
    using assms by (simp add: sf_apply_replacements_def sf_splice_correct)
  moreover have "line_texts ?sf = splice_lines 0 (line_texts sf) rs"
    by (simp add: line_texts_def comp_def t splice_lines_map case_prod_beta)
  moreover have "\<forall>l \<in> set (sf_lines ?sf). line_end l \<noteq> None" using e by auto
  ultimately show ?thesis by blast
qed

text \<open>An update that preserves line endings and whose single chunk occurs exactly at the
  position found replaces these lines by the new ones and no others, although it leaves the context
  lines of the chunk physically in place; afterwards every line is terminated.\<close>

theorem preserving_update_exact:
  assumes "chunk_wf chunk" "change_context chunk = None" "old_lines chunk \<noteq> []"
    and "seek_sequence (line_texts (sf_parse original)) (old_lines chunk) 0 (is_end_of_file chunk)
           PreserveLineEndings = Some i"
    and "take (length (old_lines chunk)) (drop i (line_texts (sf_parse original))) = old_lines chunk"
  shows "\<exists>sf'. derive_new_contents path PreserveLineEndings [chunk] original = Inr (into_contents sf') \<and>
    line_texts sf' = take i (line_texts (sf_parse original)) @ new_lines chunk
      @ drop (i + length (old_lines chunk)) (line_texts (sf_parse original)) \<and>
    (\<forall>l \<in> set (sf_lines sf'). line_end l \<noteq> None)"
proof -
  let ?ls = "line_texts (sf_parse original)" and ?k = "length (old_lines chunk)"
  have wf: "context_pairs_ok 0 0 (old_lines chunk) (new_lines chunk) (context_line_indices chunk)"
    using assms(1) by (simp add: chunk_wf_def)
  obtain rs where rs: "context_replacements i 0 0 ?k (new_lines chunk) (context_line_indices chunk) = Inr rs"
      "ordered_from i (i + ?k) rs"
    using context_replacements_ordered [OF wf, of "old_lines chunk" "new_lines chunk" i] by auto
  have "drop i ?ls = old_lines chunk @ drop (i + ?k) ?ls"
    by (metis assms(5) append_take_drop_id drop_drop add.commute)
  from context_replacements_splice [OF wf prefix_order.refl prefix_order.refl _ _ this rs(1)]
  have at_i: "splice_lines i (drop i ?ls) rs = new_lines chunk @ drop (i + ?k) ?ls" by simp
  have "i + ?k \<le> length ?ls" using seek_sequence_bounds(1) [OF assms(4,3)] .
  then have "splice_lines 0 ?ls rs = take i ?ls @ new_lines chunk @ drop (i + ?k) ?ls"
    using splice_lines_skip [of 0 i "i + ?k" rs ?ls] rs(2) at_i by simp
  moreover have "sort_key fst rs = rs"
    using ordered_from_sorted [OF rs(2)] by (simp add: sort_key_id_if_sorted)
  ultimately show ?thesis
    using rs(1) assms(2-4) 
      sf_apply_texts [OF ordered_from_mono [OF rs(2) le0], of "sf_parse original"]
    by (auto simp: derive_new_contents_def compute_replacements_def chunk_replacements_def
        seek_context_def locate_old_lines_def Let_def)
qed

definition sample_chunk :: update_file_chunk where
  "sample_chunk = (push_context_line default_chunk ''a'')
     \<lparr>old_lines := [''a'', ''b''], new_lines := [''a'', ''c'']\<rparr>"

definition sample_contents :: string where
  "sample_contents = ''a'' @ [carriage_return, newline] @ ''b''"

theorem preserving_update_exact_witness:
  "\<exists>sf'. derive_new_contents ''f'' PreserveLineEndings [sample_chunk] sample_contents
      = Inr (into_contents sf') \<and>
    line_texts sf' = take 0 (line_texts (sf_parse sample_contents)) @ new_lines sample_chunk
      @ drop (0 + length (old_lines sample_chunk)) (line_texts (sf_parse sample_contents)) \<and>
    (\<forall>l \<in> set (sf_lines sf'). line_end l \<noteq> None)"
proof (rule preserving_update_exact)
  show "chunk_wf sample_chunk" "change_context sample_chunk = None" "old_lines sample_chunk \<noteq> []"
    by (simp_all add: sample_chunk_def chunk_wf_def default_chunk_def push_context_line_def)
  show "seek_sequence (line_texts (sf_parse sample_contents)) (old_lines sample_chunk) 0
      (is_end_of_file sample_chunk) PreserveLineEndings = Some 0"
    by code_simp
  show "take (length (old_lines sample_chunk)) (drop 0 (line_texts (sf_parse sample_contents)))
      = old_lines sample_chunk"
    by code_simp
qed

text \<open>A legacy update of a file whose last line is empty can lose an insertion: the
  chunk without old lines is placed before that empty line, inside the range another chunk
  replaces. The inserted line is missing from the result.\<close>

theorem legacy_insertion_lost:
  "derive_new_contents ''f'' NormalizeToLf
     [default_chunk\<lparr>old_lines := [''a'', []], new_lines := [''b'', []]\<rparr>,
      default_chunk\<lparr>new_lines := [''inserted'']\<rparr>]
     [CHR ''a'', newline, newline]
   = Inr [CHR ''b'', newline, newline]"
  by code_simp

end
