(* ===== verification/Patch_Apply.thy ===== *)
theory Patch_Apply
  imports Patch_Update Patch_Parser
begin

text \<open>
  Applying hunks to a file system, \<^verbatim>\<open>apply-patch/src/lib.rs\<close>. The executor file system is a
  trait object in the code; here it is the argument \<open>fs\<close>, a record of functions on an abstract
  state. It is given with the working directory, the sandbox context and the symlink option
  already fixed, because every call of one run passes the same ones. Reads do not change the state;
  writes and removals return the new state whatever their outcome. The path operations of the URI
  library (\<open>join\<close>, \<open>parent\<close>, the native spelling) are functions of the same record.

  The code accumulates a delta of the committed changes and a flag saying whether it is exact.
  The result is about that flag: as long as it is set, replaying the delta on the contents
  before the run gives the contents after it, and undoing it gives the contents before,
  whether the run succeeded or failed half way.
\<close>

section \<open>The file system interface\<close>

datatype io_kind = NotFound | InvalidInput | OtherKind

datatype io_error = Io_Error (io_kind: io_kind) (io_text: string)

record metadata =
  is_directory :: bool
  is_file :: bool
  is_symlink :: bool

record ('s, 'u) executor_fs =
  join_cwd :: "string \<Rightarrow> string + 'u"
  parent_of :: "'u \<Rightarrow> 'u option"
  native_path :: "'u \<Rightarrow> string"
  read_file_text :: "'u \<Rightarrow> 's \<Rightarrow> io_error + string"
  get_metadata :: "'u \<Rightarrow> 's \<Rightarrow> io_error + metadata"
  write_file :: "'u \<Rightarrow> string \<Rightarrow> 's \<Rightarrow> 's \<times> (io_error + unit)"
  remove_file :: "'u \<Rightarrow> 's \<Rightarrow> 's \<times> (io_error + unit)"
  create_directory :: "'u \<Rightarrow> 's \<Rightarrow> 's \<times> (io_error + unit)"

section \<open>Deltas and errors\<close>

datatype 'u file_change =
    ChangeAdd string "string option"
  | ChangeDelete string
  | ChangeUpdate "'u option" string "string option" string

record 'u patch_delta =
  delta_changes :: "('u \<times> 'u file_change) list"
  delta_exact :: bool

definition empty_delta :: "'u patch_delta" where
  "empty_delta = \<lparr>delta_changes = [], delta_exact = True\<rparr>"

definition delta_append :: "'u patch_delta \<Rightarrow> 'u patch_delta \<Rightarrow> 'u patch_delta" where
  "delta_append d other = \<lparr>delta_changes = delta_changes d @ delta_changes other,
     delta_exact = (delta_exact d \<and> delta_exact other)\<rparr>"

definition push_change :: "'u \<Rightarrow> 'u file_change \<Rightarrow> 'u patch_delta \<Rightarrow> 'u patch_delta" where
  "push_change path change d = d\<lparr>delta_changes := delta_changes d @ [(path, change)]\<rparr>"

definition and_exact :: "bool \<Rightarrow> 'u patch_delta \<Rightarrow> 'u patch_delta" where
  "and_exact b d = d\<lparr>delta_exact := (delta_exact d \<and> b)\<rparr>"

datatype apply_patch_error =
    ParseFailed parse_error
  | IoFailed string string
  | ComputeFailed string
  | PathUriFailed string
  | ImplicitInvocation
  | Panicked

text \<open>
  The errors that travel as \<open>anyhow::Error\<close>: an I/O error under a context message, another error
  of the crate, or a message.
\<close>

datatype anyhow_error =
    ContextIo string io_error
  | Wrapped apply_patch_error
  | Message string

fun apply_error_text :: "apply_patch_error \<Rightarrow> string" where
  "apply_error_text (IoFailed ctx src) = ctx @ '': '' @ src"
| "apply_error_text (ComputeFailed msg) = msg"
| "apply_error_text (PathUriFailed msg) = msg"
| "apply_error_text (ParseFailed (InvalidPatchError msg)) = ''invalid patch: '' @ msg"
| "apply_error_text (ParseFailed (InvalidHunkError msg n)) =
     ''invalid hunk at line '' @ show_nat n @ '', '' @ msg"
| "apply_error_text ImplicitInvocation =
     ''patch detected without explicit call to apply_patch. Rerun as ['' @ [CHR 0x22] @ ''apply_patch'' @
     [CHR 0x22] @ '', '' @ [CHR 0x22] @ ''<patch>'' @ [CHR 0x22] @ '']''"
| "apply_error_text Panicked = []"

fun anyhow_text :: "anyhow_error \<Rightarrow> string" where
  "anyhow_text (ContextIo ctx _) = ctx"
| "anyhow_text (Wrapped e) = apply_error_text e"
| "anyhow_text (Message msg) = msg"

text \<open>The downcast to an I/O error drops the context message.\<close>

fun to_apply_error :: "anyhow_error \<Rightarrow> apply_patch_error" where
  "to_apply_error (ContextIo _ e) = IoFailed ''I/O error'' (io_text e)"
| "to_apply_error (Wrapped Panicked) = Panicked"
| "to_apply_error e = IoFailed (anyhow_text e) (anyhow_text e)"

section \<open>Helpers\<close>

definition note_existing_path_delta_support ::
  "('s, 'u) executor_fs \<Rightarrow> 'u \<Rightarrow> 's \<Rightarrow> bool" where
  "note_existing_path_delta_support fs path s =
     (case get_metadata fs path s of
        Inr md \<Rightarrow> is_file md \<and> \<not> is_symlink md
      | Inl e \<Rightarrow> io_kind e = NotFound)"

text \<open>The content if it could be read, and whether the delta stays exact.\<close>

definition read_optional_file_text_for_delta ::
  "('s, 'u) executor_fs \<Rightarrow> 'u \<Rightarrow> 's \<Rightarrow> string option \<times> bool" where
  "read_optional_file_text_for_delta fs path s =
     (let supported = note_existing_path_delta_support fs path s
      in case read_file_text fs path s of
           Inr content \<Rightarrow> (Some content, supported)
         | Inl e \<Rightarrow> if io_kind e = NotFound then (None, supported) else (None, False))"

definition ensure_not_directory :: "('s, 'u) executor_fs \<Rightarrow> 'u \<Rightarrow> 's \<Rightarrow> io_error + unit" where
  "ensure_not_directory fs path s =
     and_then (get_metadata fs path s) (\<lambda>md.
       if is_directory md then Inl (Io_Error InvalidInput ''path is a directory'') else Inr ())"

definition remove_failure_was_side_effect_free ::
  "('s, 'u) executor_fs \<Rightarrow> 'u \<Rightarrow> string option \<Rightarrow> 's \<Rightarrow> bool" where
  "remove_failure_was_side_effect_free fs path expected s =
     (case expected of Some content \<Rightarrow> read_file_text fs path s = Inr content | None \<Rightarrow> False)"

definition with_context :: "string \<Rightarrow> io_error + 'a \<Rightarrow> anyhow_error + 'a" where
  "with_context ctx r = (case r of Inl e \<Rightarrow> Inl (ContextIo ctx e) | Inr a \<Rightarrow> Inr a)"

definition write_file_with_missing_parent_retry ::
  "('s, 'u) executor_fs \<Rightarrow> 'u \<Rightarrow> string \<Rightarrow> 's \<Rightarrow> 's \<times> (anyhow_error + unit)" where
  "write_file_with_missing_parent_retry fs path contents s =
     (let failed = ''Failed to write file '' @ native_path fs path
      in case write_file fs path contents s of
           (s1, Inr _) \<Rightarrow> (s1, Inr ())
         | (s1, Inl e) \<Rightarrow>
             if io_kind e = NotFound
             then (case parent_of fs path of
                     None \<Rightarrow>
                       (case write_file fs path contents s1 of (s2, r) \<Rightarrow> (s2, with_context failed r))
                   | Some parent \<Rightarrow>
                       (case create_directory fs parent s1 of
                          (s2, Inl e') \<Rightarrow> (s2, Inl (ContextIo
                            (''Failed to create parent directories for '' @ native_path fs path) e'))
                        | (s2, Inr _) \<Rightarrow>
                            (case write_file fs path contents s2 of (s3, r) \<Rightarrow> (s3, with_context failed r))))
             else (s1, Inl (ContextIo failed e)))"

text \<open>Reading the file to update; the computation itself is that of the update theory.\<close>

definition derive_new_contents_from_chunks ::
  "('s, 'u) executor_fs \<Rightarrow> 'u \<Rightarrow> update_file_chunk list \<Rightarrow> update_mode \<Rightarrow> 's
     \<Rightarrow> apply_patch_error + (string \<times> string)" where
  "derive_new_contents_from_chunks fs path chunks mode s =
     (case read_file_text fs path s of
        Inl e \<Rightarrow> Inl (IoFailed (''Failed to read file to update '' @ native_path fs path) (io_text e))
      | Inr original \<Rightarrow>
          (case derive_new_contents (native_path fs path) mode chunks original of
             Inl (ComputeReplacements msg) \<Rightarrow> Inl (ComputeFailed msg)
           | Inl UpdatePanic \<Rightarrow> Inl Panicked
           | Inr new_contents \<Rightarrow> Inr (original, new_contents)))"

section \<open>The three kinds of hunks\<close>

type_synonym ('s, 'u) outcome = "'s \<times> 'u patch_delta \<times> (anyhow_error + unit)"

definition apply_add ::
  "('s, 'u) executor_fs \<Rightarrow> 'u \<Rightarrow> string \<Rightarrow> 's \<Rightarrow> 'u patch_delta \<Rightarrow> ('s, 'u) outcome" where
  "apply_add fs path contents s d =
     (let (overwritten, ok) = read_optional_file_text_for_delta fs path s;
          d1 = and_exact ok d
      in case write_file_with_missing_parent_retry fs path contents s of
           (s1, Inl e) \<Rightarrow> (s1, and_exact False d1, Inl e)
         | (s1, Inr _) \<Rightarrow> (s1, push_change path (ChangeAdd contents overwritten) d1, Inr ()))"

definition apply_delete ::
  "('s, 'u) executor_fs \<Rightarrow> 'u \<Rightarrow> 's \<Rightarrow> 'u patch_delta \<Rightarrow> ('s, 'u) outcome" where
  "apply_delete fs path s d =
     (let failed = ''Failed to delete file '' @ native_path fs path;
          deleted = (case read_file_text fs path s of Inr c \<Rightarrow> Some c | Inl _ \<Rightarrow> None);
          d1 = and_exact (deleted \<noteq> None) (and_exact (note_existing_path_delta_support fs path s) d)
      in case ensure_not_directory fs path s of
           Inl e \<Rightarrow> (s, d1, Inl (ContextIo failed e))
         | Inr _ \<Rightarrow>
             (case remove_file fs path s of
                (s1, Inl e) \<Rightarrow>
                  (s1, and_exact (remove_failure_was_side_effect_free fs path deleted s1) d1,
                   Inl (ContextIo failed e))
              | (s1, Inr _) \<Rightarrow>
                  (s1, (case deleted of Some c \<Rightarrow> push_change path (ChangeDelete c) d1 | None \<Rightarrow> d1), Inr ())))"

text \<open>
  A rename: write the destination, then remove the original. Between the two the delta records the
  destination as added; after the removal that entry becomes the update.
\<close>

definition apply_move ::
  "('s, 'u) executor_fs \<Rightarrow> 'u \<Rightarrow> 'u \<Rightarrow> string \<Rightarrow> string \<Rightarrow> 's \<Rightarrow> 'u patch_delta \<Rightarrow> ('s, 'u) outcome" where
  "apply_move fs path dest original new_contents s d =
     (let failed = ''Failed to remove original '' @ native_path fs path;
          (overwritten, ok) = read_optional_file_text_for_delta fs dest s;
          d1 = and_exact ok d
      in case write_file_with_missing_parent_retry fs dest new_contents s of
           (s1, Inl e) \<Rightarrow> (s1, and_exact False d1, Inl e)
         | (s1, Inr _) \<Rightarrow>
             (let d2 = push_change dest (ChangeAdd new_contents overwritten) d1
              in case ensure_not_directory fs path s1 of
                   Inl e \<Rightarrow> (s1, d2, Inl (ContextIo failed e))
                 | Inr _ \<Rightarrow>
                     (case remove_file fs path s1 of
                        (s2, Inl e) \<Rightarrow>
                          (s2, and_exact (remove_failure_was_side_effect_free fs path (Some original) s2) d2,
                           Inl (ContextIo failed e))
                      | (s2, Inr _) \<Rightarrow>
                          (s2, push_change path (ChangeUpdate (Some dest) original overwritten new_contents) d1,
                           Inr ()))))"

definition apply_update ::
  "('s, 'u) executor_fs \<Rightarrow> update_mode \<Rightarrow> 'u \<Rightarrow> string option \<Rightarrow> update_file_chunk list
     \<Rightarrow> 's \<Rightarrow> 'u patch_delta \<Rightarrow> ('s, 'u) outcome" where
  "apply_update fs mode path move chunks s d =
     (let d1 = and_exact (note_existing_path_delta_support fs path s) d
      in case derive_new_contents_from_chunks fs path chunks mode s of
           Inl e \<Rightarrow> (s, d1, Inl (Wrapped e))
         | Inr (original, new_contents) \<Rightarrow>
             (case move of
                Some dest \<Rightarrow>
                  (case join_cwd fs dest of
                     Inl e \<Rightarrow> (s, d1, Inl (Message e))
                   | Inr dest_uri \<Rightarrow> apply_move fs path dest_uri original new_contents s d1)
              | None \<Rightarrow>
                  (case write_file fs path new_contents s of
                     (s1, Inl e) \<Rightarrow> (s1, and_exact False d1,
                       Inl (ContextIo (''Failed to write file '' @ native_path fs path) e))
                   | (s1, Inr _) \<Rightarrow>
                       (s1, push_change path (ChangeUpdate None original None new_contents) d1, Inr ()))))"

definition resolve_path :: "('s, 'u) executor_fs \<Rightarrow> hunk \<Rightarrow> string + 'u" where
  "resolve_path fs h = join_cwd fs (hunk_source h)"

definition apply_hunk ::
  "('s, 'u) executor_fs \<Rightarrow> update_mode \<Rightarrow> hunk \<Rightarrow> 's \<Rightarrow> 'u patch_delta \<Rightarrow> ('s, 'u) outcome" where
  "apply_hunk fs mode h s d =
     (case resolve_path fs h of
        Inl e \<Rightarrow> (s, d, Inl (Message e))
      | Inr path \<Rightarrow>
          (case h of
             AddFile _ contents \<Rightarrow> apply_add fs path contents s d
           | DeleteFile _ \<Rightarrow> apply_delete fs path s d
           | UpdateFile _ move chunks \<Rightarrow> apply_update fs mode path move chunks s d))"

section \<open>Runs\<close>

record affected_paths =
  added :: "string list"
  modified :: "string list"
  deleted :: "string list"

definition note_affected :: "hunk \<Rightarrow> affected_paths \<Rightarrow> affected_paths" where
  "note_affected h a =
     (case h of
        AddFile _ _ \<Rightarrow> a\<lparr>added := added a @ [hunk_path h]\<rparr>
      | DeleteFile _ \<Rightarrow> a\<lparr>deleted := deleted a @ [hunk_path h]\<rparr>
      | UpdateFile _ _ _ \<Rightarrow> a\<lparr>modified := modified a @ [hunk_path h]\<rparr>)"

fun apply_hunk_list ::
  "('s, 'u) executor_fs \<Rightarrow> update_mode \<Rightarrow> hunk list \<Rightarrow> affected_paths \<Rightarrow> 's \<Rightarrow> 'u patch_delta
     \<Rightarrow> 's \<times> 'u patch_delta \<times> (anyhow_error + affected_paths)" where
  "apply_hunk_list fs mode [] a s d = (s, d, Inr a)"
| "apply_hunk_list fs mode (h # hs) a s d =
     (case apply_hunk fs mode h s d of
        (s1, d1, Inl e) \<Rightarrow> (s1, d1, Inl e)
      | (s1, d1, Inr _) \<Rightarrow> apply_hunk_list fs mode hs (note_affected h a) s1 d1)"

definition apply_hunks_to_files ::
  "('s, 'u) executor_fs \<Rightarrow> update_mode \<Rightarrow> hunk list \<Rightarrow> 's \<Rightarrow> 'u patch_delta
     \<Rightarrow> 's \<times> 'u patch_delta \<times> (anyhow_error + affected_paths)" where
  "apply_hunks_to_files fs mode hs s d =
     (if hs = [] then (s, d, Inl (Message ''No files were modified.''))
      else apply_hunk_list fs mode hs \<lparr>added = [], modified = [], deleted = []\<rparr> s d)"

definition print_summary :: "affected_paths \<Rightarrow> string" where
  "print_summary a =
     concat (map (\<lambda>l. l @ [newline])
       (''Success. Updated the following files:'' # map (\<lambda>p. ''A '' @ p) (added a)
        @ map (\<lambda>p. ''M '' @ p) (modified a) @ map (\<lambda>p. ''D '' @ p) (deleted a)))"

text \<open>
  The entry points. \<open>out\<close> and \<open>err\<close> stand for the two writers: given the text, the I/O error if
  writing it fails. A failure carries the error and the delta committed so far. \<open>Panicked\<close> is not
  an error value of the code but the mark of an unwinding run, which writes nothing more.
\<close>

type_synonym writer = "string \<Rightarrow> io_error option"

definition io_apply_error :: "io_error \<Rightarrow> apply_patch_error" where
  "io_apply_error e = IoFailed ''I/O error'' (io_text e)"

definition apply_hunks_with_options ::
  "('s, 'u) executor_fs \<Rightarrow> update_mode \<Rightarrow> writer \<Rightarrow> writer \<Rightarrow> hunk list \<Rightarrow> 's
     \<Rightarrow> 's \<times> ((apply_patch_error \<times> 'u patch_delta) + 'u patch_delta)" where
  "apply_hunks_with_options fs mode out err hs s =
     (case apply_hunks_to_files fs mode hs s empty_delta of
        (s1, d, Inr affected) \<Rightarrow>
          (s1, case out (print_summary affected) of
                 Some e \<Rightarrow> Inl (io_apply_error e, d)
               | None \<Rightarrow> Inr d)
      | (s1, d, Inl e) \<Rightarrow>
          (s1, if e = Wrapped Panicked then Inl (Panicked, d)
               else case err (anyhow_text e @ [newline]) of
                 Some e' \<Rightarrow> Inl (io_apply_error e', d)
               | None \<Rightarrow> Inl (to_apply_error e, d)))"

definition apply_patch_with_options ::
  "('s, 'u) executor_fs \<Rightarrow> update_mode \<Rightarrow> writer \<Rightarrow> writer \<Rightarrow> string \<Rightarrow> 's
     \<Rightarrow> 's \<times> ((apply_patch_error \<times> 'u patch_delta) + 'u patch_delta)" where
  "apply_patch_with_options fs mode out err patch s =
     (case parse_patch patch of
        Inr args \<Rightarrow> apply_hunks_with_options fs mode out err (args_hunks args) s
      | Inl e \<Rightarrow>
          (s, case err ((case e of
                   InvalidPatchError msg \<Rightarrow> ''Invalid patch: '' @ msg
                 | InvalidHunkError msg n \<Rightarrow>
                     ''Invalid patch hunk on line '' @ show_nat n @ '': '' @ msg) @ [newline]) of
                Some e' \<Rightarrow> Inl (io_apply_error e', empty_delta)
              | None \<Rightarrow> Inl (ParseFailed e, empty_delta)))"

section \<open>What a file system promises\<close>

text \<open>
  \<open>content s\<close> maps the paths of readable text files to their text. Reading reports it; a write
  or removal touches the path it is given and no other, and has its effect when it succeeds; a
  failed removal leaves the file as it was or gone; creating directories changes no file.
\<close>

type_synonym 'u contents = "'u \<Rightarrow> string option"

definition fs_lawful :: "('s, 'u) executor_fs \<Rightarrow> ('s \<Rightarrow> 'u contents) \<Rightarrow> bool" where
  "fs_lawful fs content \<longleftrightarrow>
     (\<forall>p s c. read_file_text fs p s = Inr c \<longrightarrow> content s p = Some c) \<and>
     (\<forall>p s e. read_file_text fs p s = Inl e \<longrightarrow> io_kind e = NotFound \<longrightarrow> content s p = None) \<and>
     (\<forall>p c s s' r. write_file fs p c s = (s', r) \<longrightarrow>
        (\<forall>q. q \<noteq> p \<longrightarrow> content s' q = content s q) \<and> (r = Inr () \<longrightarrow> content s' p = Some c)) \<and>
     (\<forall>p s s' r. remove_file fs p s = (s', r) \<longrightarrow>
        (\<forall>q. q \<noteq> p \<longrightarrow> content s' q = content s q) \<and>
        (content s' p = content s p \<or> content s' p = None) \<and> (r = Inr () \<longrightarrow> content s' p = None)) \<and>
     (\<forall>p s s' r. create_directory fs p s = (s', r) \<longrightarrow> content s' = content s)"

section \<open>Replaying and undoing a delta\<close>

fun replay_change :: "'u contents \<Rightarrow> 'u \<times> 'u file_change \<Rightarrow> 'u contents" where
  "replay_change m (p, ChangeAdd c _) = m(p := Some c)"
| "replay_change m (p, ChangeDelete _) = m(p := None)"
| "replay_change m (p, ChangeUpdate None _ _ c) = m(p := Some c)"
| "replay_change m (p, ChangeUpdate (Some dest) _ _ c) = m(dest := Some c, p := None)"

fun undo_change :: "'u \<times> 'u file_change \<Rightarrow> 'u contents \<Rightarrow> 'u contents" where
  "undo_change (p, ChangeAdd _ old) m = m(p := old)"
| "undo_change (p, ChangeDelete old) m = m(p := Some old)"
| "undo_change (p, ChangeUpdate None old _ _) m = m(p := Some old)"
| "undo_change (p, ChangeUpdate (Some dest) old overwritten _) m = m(dest := overwritten, p := Some old)"

definition replay :: "'u patch_delta \<Rightarrow> 'u contents \<Rightarrow> 'u contents" where
  "replay d m = foldl replay_change m (delta_changes d)"

definition undo :: "'u patch_delta \<Rightarrow> 'u contents \<Rightarrow> 'u contents" where
  "undo d m = foldr undo_change (delta_changes d) m"

text \<open>The delta, if exact, leads from \<open>before\<close> to \<open>after\<close> and back.\<close>

definition tracks :: "'u contents \<Rightarrow> 'u patch_delta \<Rightarrow> 'u contents \<Rightarrow> bool" where
  "tracks before d after \<longleftrightarrow> (delta_exact d \<longrightarrow> replay d before = after \<and> undo d after = before)"

lemma tracks_and_exact:
  "(b \<Longrightarrow> tracks m d m') \<Longrightarrow> tracks m (and_exact b d) m'"
  by (simp add: tracks_def and_exact_def replay_def undo_def)

lemma tracks_inexact: "tracks m (and_exact False d) m'"
  by (simp add: tracks_def and_exact_def)

lemma tracks_and_exactD: "tracks m (and_exact b d) m' \<Longrightarrow> b \<Longrightarrow> tracks m d m'"
  by (simp add: tracks_def and_exact_def replay_def undo_def)

lemma tracks_push:
  assumes "tracks m d m'"
    and "delta_exact d \<Longrightarrow> replay_change m' (p, c) = m'' \<and> undo_change (p, c) m'' = m'"
  shows "tracks m (push_change p c d) m''"
  using assms by (simp add: tracks_def push_change_def replay_def undo_def)

lemma and_exact_exact [simp]: "delta_exact (and_exact b d) \<longleftrightarrow> delta_exact d \<and> b"
  by (simp add: and_exact_def)

section \<open>Every hunk keeps the delta truthful\<close>

lemma content_write:
  assumes "fs_lawful fs content" "write_file fs p c s = (s', r)"
  shows "q \<noteq> p \<Longrightarrow> content s' q = content s q" "r = Inr () \<Longrightarrow> content s' = (content s)(p := Some c)"
  using assms by (auto simp: fs_lawful_def fun_eq_iff)

lemma content_remove:
  assumes "fs_lawful fs content" "remove_file fs p s = (s', r)"
  shows "r = Inr () \<Longrightarrow> content s' = (content s)(p := None)"
    "content s' p \<noteq> None \<Longrightarrow> content s' = content s"
proof -
  have other: "\<And>q. q \<noteq> p \<Longrightarrow> content s' q = content s q"
    and this_path: "content s' p = content s p \<or> content s' p = None" "r = Inr () \<Longrightarrow> content s' p = None"
    using assms by (auto simp: fs_lawful_def)
  show "content s' = (content s)(p := None)" if "r = Inr ()"
    using other this_path(2) that by (auto simp: fun_eq_iff)
  show "content s' = content s" if "content s' p \<noteq> None"
    using other this_path(1) that by (metis ext)
qed

lemma content_read:
  assumes "fs_lawful fs content"
  shows "read_file_text fs p s = Inr c \<Longrightarrow> content s p = Some c"
    "read_file_text fs p s = Inl e \<Longrightarrow> io_kind e = NotFound \<Longrightarrow> content s p = None"
  using assms by (auto simp: fs_lawful_def)

lemma content_create: "fs_lawful fs content \<Longrightarrow> create_directory fs p s = (s', r) \<Longrightarrow> content s' = content s"
  unfolding fs_lawful_def by blast

lemma read_optional_content:
  assumes "fs_lawful fs content" "read_optional_file_text_for_delta fs p s = (old, True)"
  shows "old = content s p"
  using assms content_read [OF assms(1), of p s]
  by (auto simp: read_optional_file_text_for_delta_def Let_def split: sum.splits if_splits)

lemma content_write_retry:
  assumes "fs_lawful fs content" "write_file_with_missing_parent_retry fs p c s = (s', Inr ())"
  shows "content s' = (content s)(p := Some c)"
proof -
  obtain s1 r1 where w1: "write_file fs p c s = (s1, r1)" by fastforce
  show ?thesis
  proof (cases r1)
    case (Inr u)
    with w1 assms content_write(2) [OF assms(1) w1] show ?thesis
      by (simp add: write_file_with_missing_parent_retry_def)
  next
    case (Inl e)
    have "\<exists>s2. content s2 = content s1 \<and> write_file fs p c s2 = (s', Inr ())"
    proof (cases "parent_of fs p")
      case None
      with assms(2) w1 Inl show ?thesis
        by (auto simp: write_file_with_missing_parent_retry_def Let_def with_context_def
            split: if_splits prod.splits sum.splits)
    next
      case (Some parent)
      obtain s2 r2 where c2: "create_directory fs parent s1 = (s2, r2)" by fastforce
      moreover obtain s3 r3 where w3: "write_file fs p c s2 = (s3, r3)" by fastforce
      ultimately have "s3 = s'" "r3 = Inr ()" using assms(2) w1 Inl Some
        by (auto simp: write_file_with_missing_parent_retry_def Let_def with_context_def
            split: if_splits sum.splits)
      with w3 content_create [OF assms(1) c2] show ?thesis by auto
    qed
    then obtain s2 where s2: "content s2 = content s1" "write_file fs p c s2 = (s', Inr ())" by blast
    show ?thesis
    proof
      fix q
      show "content s' q = ((content s)(p := Some c)) q"
        using content_write(2) [OF assms(1) s2(2)] content_write(1) [OF assms(1) w1, of q] s2(1) by simp
    qed
  qed
qed

text \<open>\<open>step_ok\<close>: an operation that starts from a truthful delta ends with one.\<close>

definition step_ok ::
  "('s \<Rightarrow> 'u contents) \<Rightarrow> ('s \<Rightarrow> 'u patch_delta \<Rightarrow> 's \<times> 'u patch_delta \<times> 'r) \<Rightarrow> bool" where
  "step_ok content f \<longleftrightarrow>
     (\<forall>m s d s' d' r. tracks m d (content s) \<longrightarrow> f s d = (s', d', r) \<longrightarrow> tracks m d' (content s'))"

lemma apply_add_ok:
  assumes "fs_lawful fs content"
  shows "step_ok content (apply_add fs p c)"
  unfolding step_ok_def
proof (intro allI impI)
  fix m s d s' d' r
  assume t: "tracks m d (content s)" and f: "apply_add fs p c s d = (s', d', r)"
  obtain old ok where o: "read_optional_file_text_for_delta fs p s = (old, ok)" by fastforce
  obtain s1 w where w: "write_file_with_missing_parent_retry fs p c s = (s1, w)" by fastforce
  show "tracks m d' (content s')"
  proof (cases w)
    case (Inl e)
    with f o w show ?thesis by (auto simp: apply_add_def tracks_inexact)
  next
    case (Inr u)
    with f o w have r: "s' = s1" "d' = push_change p (ChangeAdd c old) (and_exact ok d)"
      by (auto simp: apply_add_def)
    have "content s' = (content s)(p := Some c)" using content_write_retry [OF assms] w Inr r(1) by simp
    moreover have "old = content s p" if ok using read_optional_content [OF assms] o that by simp
    ultimately show ?thesis unfolding r(2)
      by (intro tracks_push [where m' = "content s"] tracks_and_exact t) auto
  qed
qed

lemma removal_tracks:
  assumes "fs_lawful fs content" "remove_file fs p s = (s1, Inl e)" "tracks m d (content s)"
  shows "tracks m (and_exact (remove_failure_was_side_effect_free fs p expected s1) d) (content s1)"
proof (rule tracks_and_exact)
  assume "remove_failure_was_side_effect_free fs p expected s1"
  then have "content s1 p \<noteq> None"
    using content_read(1) [OF assms(1), of p s1]
    by (auto simp: remove_failure_was_side_effect_free_def split: option.splits)
  then show "tracks m d (content s1)" using content_remove(2) [OF assms(1,2)] assms(3) by simp
qed

lemma apply_delete_ok:
  assumes "fs_lawful fs content"
  shows "step_ok content (apply_delete fs p)"
  unfolding step_ok_def
proof (intro allI impI)
  fix m s d s' d' r
  assume t: "tracks m d (content s)" and f: "apply_delete fs p s d = (s', d', r)"
  define old where "old = (case read_file_text fs p s of Inr c \<Rightarrow> Some c | Inl _ \<Rightarrow> None)"
  let ?d1 = "and_exact (old \<noteq> None) (and_exact (note_existing_path_delta_support fs p s) d)"
  have t1: "tracks m ?d1 (content s)" using t by (intro tracks_and_exact)
  have old: "old = Some c \<Longrightarrow> content s p = Some c" for c
    using content_read(1) [OF assms, of p s c] by (auto simp: old_def split: sum.splits)
  obtain s1 w where w: "remove_file fs p s = (s1, w)" by fastforce
  show "tracks m d' (content s')"
  proof (cases "ensure_not_directory fs p s")
    case (Inl e)
    with f t1 show ?thesis by (auto simp: apply_delete_def Let_def old_def)
  next
    case (Inr u)
    note dir = this
    show ?thesis
    proof (cases w)
      case (Inl e)
      with f w dir show ?thesis using removal_tracks [OF assms w [unfolded Inl] t1]
        by (auto simp: apply_delete_def Let_def old_def)
    next
      case (Inr u')
      then have c: "content s1 = (content s)(p := None)" using content_remove(1) [OF assms w] by simp
      have r: "s' = s1" "d' = (case old of Some c \<Rightarrow> push_change p (ChangeDelete c) ?d1 | None \<Rightarrow> ?d1)"
        using f by (cases old; simp add: apply_delete_def Let_def w dir Inr flip: old_def)+
      show ?thesis
      proof (cases old)
        case None
        then show ?thesis using r by (simp add: tracks_inexact)
      next
        case (Some x)
        have "(content s)(p := Some x) = content s" using old [OF Some] by auto
        with Some show ?thesis unfolding r c
          using t1 by (auto intro!: tracks_push [where m' = "content s"])
      qed
    qed
  qed
qed

lemma apply_move_ok:
  assumes "fs_lawful fs content" "tracks m d (content s)" "content s p = Some original"
    and "apply_move fs p dest original c s d = (s', d', r)"
  shows "tracks m d' (content s')"
proof -
  obtain old ok where o: "read_optional_file_text_for_delta fs dest s = (old, ok)" by fastforce
  obtain s1 w where w: "write_file_with_missing_parent_retry fs dest c s = (s1, w)" by fastforce
  obtain s2 w2 where w2: "remove_file fs p s1 = (s2, w2)" by fastforce
  let ?d1 = "and_exact ok d"
  let ?d2 = "push_change dest (ChangeAdd c old) ?d1"
  have old: "old = content s dest" if ok using read_optional_content [OF assms(1)] o that by simp
  note unf = apply_move_def Let_def
  show ?thesis
  proof (cases w)
    case (Inl e)
    with assms(4) o w show ?thesis by (auto simp: unf tracks_inexact)
  next
    case (Inr u)
    note written = this
    have c1: "content s1 = (content s)(dest := Some c)"
      using content_write_retry [OF assms(1)] w Inr by simp
    have t2: "tracks m ?d2 (content s1)"
      using old c1 by (intro tracks_push [where m' = "content s"] tracks_and_exact assms(2)) auto
    show ?thesis
    proof (cases "ensure_not_directory fs p s1")
      case (Inl e)
      with assms(4) o w written t2 show ?thesis by (auto simp: unf)
    next
      case (Inr u')
      note dir = this
      show ?thesis
      proof (cases w2)
        case (Inl e)
        with assms(4) o w written dir w2 show ?thesis
          using removal_tracks [OF assms(1) w2 [unfolded Inl] t2] by (auto simp: unf)
      next
        case (Inr u'')
        then have c2: "content s2 = (content s1)(p := None)" using content_remove(1) [OF assms(1) w2] by simp
        have r: "s' = s2" "d' = push_change p (ChangeUpdate (Some dest) original old c) ?d1"
          using assms(4) o w written dir w2 Inr by (auto simp: unf)
        show ?thesis unfolding r c2 c1 using old assms(3)
          by (intro tracks_push [where m' = "content s"] tracks_and_exact assms(2)) auto
      qed
    qed
  qed
qed

lemma apply_update_ok:
  assumes "fs_lawful fs content"
  shows "step_ok content (apply_update fs mode p mv chunks)"
  unfolding step_ok_def
proof (intro allI impI)
  fix m s d s' d' r
  assume t: "tracks m d (content s)" and f: "apply_update fs mode p mv chunks s d = (s', d', r)"
  let ?d1 = "and_exact (note_existing_path_delta_support fs p s) d"
  have t1: "tracks m ?d1 (content s)" using t by (intro tracks_and_exact)
  show "tracks m d' (content s')"
  proof (cases "derive_new_contents_from_chunks fs p chunks mode s")
    case (Inl e)
    with f t1 show ?thesis by (auto simp: apply_update_def)
  next
    case (Inr x)
    obtain original c where x: "x = (original, c)" by fastforce
    with Inr have orig: "content s p = Some original"
      using content_read(1) [OF assms, of p s original]
      by (auto simp: derive_new_contents_from_chunks_def split: sum.splits update_error.splits)
    show ?thesis
    proof (cases mv)
      case None
      obtain s1 w where w: "write_file fs p c s = (s1, w)" by fastforce
      show ?thesis
      proof (cases w)
        case (Inl e)
        with f \<open>derive_new_contents_from_chunks fs p chunks mode s = Inr x\<close> x None w show ?thesis
          by (auto simp: apply_update_def tracks_inexact)
      next
        case (Inr u)
        then have c: "content s1 = (content s)(p := Some c)" using content_write(2) [OF assms w] by simp
        have r: "s' = s1" "d' = push_change p (ChangeUpdate None original None c) ?d1"
          using f \<open>derive_new_contents_from_chunks fs p chunks mode s = Inr x\<close> x None w Inr
          by (auto simp: apply_update_def)
        show ?thesis unfolding r c using orig
          by (intro tracks_push [where m' = "content s"] t1) auto
      qed
    next
      case (Some dest)
      then show ?thesis
        using f Inr x t1 apply_move_ok [OF assms t1 orig]
        by (auto simp: apply_update_def Let_def split: sum.splits)
    qed
  qed
qed

lemma apply_hunk_ok:
  assumes "fs_lawful fs content"
  shows "step_ok content (apply_hunk fs mode h)"
proof (cases "resolve_path fs h")
  case (Inl e)
  then show ?thesis by (simp add: step_ok_def apply_hunk_def)
next
  case (Inr p)
  then have "apply_hunk fs mode h =
      (case h of AddFile _ contents \<Rightarrow> apply_add fs p contents
       | DeleteFile _ \<Rightarrow> apply_delete fs p
       | UpdateFile _ move chunks \<Rightarrow> apply_update fs mode p move chunks)"
    by (intro ext) (simp add: apply_hunk_def split: hunk.split)
  then show ?thesis
    using apply_add_ok [OF assms] apply_delete_ok [OF assms] apply_update_ok [OF assms]
    by (cases h) simp_all
qed

lemma apply_hunk_list_ok:
  assumes "fs_lawful fs content" "tracks m d (content s)" "apply_hunk_list fs mode hs a s d = (s', d', r)"
  shows "tracks m d' (content s')"
  using assms(2,3)
proof (induction hs arbitrary: a s d)
  case (Cons h hs)
  obtain s1 d1 r1 where h: "apply_hunk fs mode h s d = (s1, d1, r1)" by (metis prod_cases3)
  then have "tracks m d1 (content s1)"
    using apply_hunk_ok [OF assms(1), of mode h] Cons.prems(1) unfolding step_ok_def by blast
  with Cons h show ?case by (cases r1) auto
qed simp

lemma tracks_empty: "tracks m empty_delta m"
  by (simp add: tracks_def replay_def undo_def empty_delta_def)

lemma apply_hunks_with_options_result:
  assumes "apply_hunks_to_files fs mode hs s empty_delta = (s1, d1, r1)"
    and "apply_hunks_with_options fs mode out err hs s = (s', r)"
  shows "s' = s1" and "r = Inl (e, d) \<or> r = Inr d \<Longrightarrow> d = d1" and "r = Inr d \<Longrightarrow> \<exists>a. r1 = Inr a"
proof -
  have "s' = s1 \<and> (r = Inr d1 \<and> (\<exists>a. r1 = Inr a) \<or> (\<exists>e. r = Inl (e, d1)))"
  proof (cases r1)
    case (Inl x)
    with assms show ?thesis
      by (cases "x = Wrapped Panicked"; cases "err (anyhow_text x @ [newline])")
         (fastforce simp: apply_hunks_with_options_def)+
  next
    case (Inr a)
    with assms show ?thesis
      by (cases "out (print_summary a)") (fastforce simp: apply_hunks_with_options_def)+
  qed
  then show "s' = s1" and "r = Inl (e, d) \<or> r = Inr d \<Longrightarrow> d = d1" and "r = Inr d \<Longrightarrow> \<exists>a. r1 = Inr a"
    by auto
qed

lemma apply_hunks_with_options_tracks:
  assumes "fs_lawful fs content" "apply_hunks_with_options fs mode out err hs s = (s', r)"
    and "r = Inl (e, d) \<or> r = Inr d"
  shows "tracks (content s) d (content s')"
proof -
  obtain s1 d1 r1 where h: "apply_hunks_to_files fs mode hs s empty_delta = (s1, d1, r1)"
    by (metis prod_cases3)
  then have "tracks (content s) d1 (content s1)"
    using apply_hunk_list_ok [OF assms(1) tracks_empty]
    by (auto simp: apply_hunks_to_files_def tracks_empty split: if_splits)
  moreover have "s' = s1" "d = d1"
    using apply_hunks_with_options_result [OF h assms(2)] assms(3) by blast+
  ultimately show ?thesis by simp
qed

section \<open>Properties\<close>


text \<open>A file system in memory: the state is the map of the contents.\<close>

definition mem_fs :: "(string contents, string) executor_fs" where
  "mem_fs = \<lparr>join_cwd = Inr, parent_of = (\<lambda>_. None), native_path = (\<lambda>p. p),
     read_file_text = (\<lambda>p m. case m p of Some c \<Rightarrow> Inr c | None \<Rightarrow> Inl (Io_Error NotFound ''not found'')),
     get_metadata = (\<lambda>p m. case m p of
        Some _ \<Rightarrow> Inr \<lparr>is_directory = False, is_file = True, is_symlink = False\<rparr>
      | None \<Rightarrow> Inl (Io_Error NotFound ''not found'')),
     write_file = (\<lambda>p c m. (m(p := Some c), Inr ())),
     remove_file = (\<lambda>p m. (m(p := None), case m p of Some _ \<Rightarrow> Inr ()
        | None \<Rightarrow> Inl (Io_Error NotFound ''not found''))),
     create_directory = (\<lambda>p m. (m, Inr ()))\<rparr>"

lemma mem_fs_lawful: "fs_lawful mem_fs (\<lambda>m. m)"
  by (simp add: fs_lawful_def mem_fs_def split: option.splits)

definition sample_patch :: string where
  "sample_patch = join_with [newline]
     [''*** Begin Patch'', ''*** Delete File: a'', ''*** Add File: b'', ''+y'', ''*** End Patch'']"


text \<open>C39: renaming a file onto itself destroys it. When the patch names the file as its own
  destination, the code writes the new contents and then removes the original path, which is the
  same file: the run succeeds and the file is gone.\<close>

theorem move_onto_itself_loses_file:
  assumes "fs_lawful fs content" "join_cwd fs path = Inr u" "join_cwd fs dest = Inr u"
    and "apply_hunks_with_options fs mode out err [UpdateFile path (Some dest) chunks] s = (s', Inr d)"
  shows "content s' u = None"
proof -
  let ?a = "\<lparr>added = [], modified = [], deleted = []\<rparr>"
  obtain s1 d1 r1 where h: "apply_hunk fs mode (UpdateFile path (Some dest) chunks) s empty_delta = (s1, d1, r1)"
    by (metis prod_cases3)
  have ok: "r1 = Inr ()" "s' = s1"
  proof (atomize (full), cases r1)
    case (Inl e)
    with h have f: "apply_hunks_to_files fs mode [UpdateFile path (Some dest) chunks] s empty_delta = (s1, d1, Inl e)"
      by (simp add: apply_hunks_to_files_def)
    from apply_hunks_with_options_result(3) [OF f assms(4)] show "r1 = Inr () \<and> s' = s1" by simp
  next
    case (Inr x)
    with h obtain a where f:
      "apply_hunks_to_files fs mode [UpdateFile path (Some dest) chunks] s empty_delta = (s1, d1, Inr a)"
      by (simp add: apply_hunks_to_files_def)
    from apply_hunks_with_options_result(1) [OF f assms(4)] Inr show "r1 = Inr () \<and> s' = s1" by simp
  qed
  let ?d1 = "and_exact (note_existing_path_delta_support fs u s) empty_delta"
  from h ok assms(2,3) obtain original c where m: "apply_move fs u u original c s ?d1 = (s1, d1, Inr ())"
    by (auto simp: apply_hunk_def resolve_path_def apply_update_def Let_def split: sum.splits)
  then obtain s2 where "remove_file fs u s2 = (s1, Inr ())"
    by (auto simp: apply_move_def Let_def split: prod.splits sum.splits)
  then show ?thesis using content_remove(1) [OF assms(1)] ok(2) by auto
qed

theorem move_onto_itself_loses_file_witness:
  "\<exists>s' d. apply_hunks_with_options mem_fs PreserveLineEndings (\<lambda>_. None) (\<lambda>_. None)
      [UpdateFile ''a'' (Some ''a'') [default_chunk\<lparr>old_lines := [''x''], new_lines := [''y'']\<rparr>]]
      [''a'' \<mapsto> ''x''] = (s', Inr d) \<and> s' ''a'' = None"
proof -
  let ?c = "default_chunk\<lparr>old_lines := [''x''], new_lines := [''y'']\<rparr>"
  have new: "derive_new_contents ''a'' PreserveLineEndings [?c] ''x'' = Inr (''y'' @ [newline])"
    by code_simp
  have "\<exists>s' d. apply_hunks_with_options mem_fs PreserveLineEndings (\<lambda>_. None) (\<lambda>_. None)
      [UpdateFile ''a'' (Some ''a'') [?c]] [''a'' \<mapsto> ''x''] = (s', Inr d)"
    by (simp add: apply_hunks_with_options_def apply_hunks_to_files_def new
        apply_hunk_def resolve_path_def apply_update_def apply_move_def derive_new_contents_from_chunks_def
        mem_fs_def Let_def note_existing_path_delta_support_def ensure_not_directory_def
        read_optional_file_text_for_delta_def write_file_with_missing_parent_retry_def note_affected_def)
  then obtain s' d where run: "apply_hunks_with_options mem_fs PreserveLineEndings (\<lambda>_. None) (\<lambda>_. None)
      [UpdateFile ''a'' (Some ''a'') [?c]] [''a'' \<mapsto> ''x''] = (s', Inr d)"
    by blast
  with move_onto_itself_loses_file [OF mem_fs_lawful _ _ run, of "''a''"] show ?thesis
    by (auto simp: mem_fs_def)
qed

section \<open>No panics from parsed patches\<close>

lemma apply_update_no_panic:
  assumes "complete_hunk (UpdateFile path mv chunks)"
    and "apply_update fs PreserveLineEndings p mv chunks s d = (s', d', Inl e)"
  shows "e \<noteq> Wrapped Panicked"
proof -
  have wf: "list_all chunk_wf chunks" using assms(1) by (simp add: list_all_iff)
  have "derive_new_contents_from_chunks fs p chunks PreserveLineEndings s \<noteq> Inl Panicked"
    using preserving_update_result [OF wf, of "native_path fs p"]
    by (auto simp: derive_new_contents_from_chunks_def split: sum.splits update_error.splits)
       (metis Inl_Inr_False Inl_inject update_error.distinct(1))
  moreover have "e' \<noteq> Wrapped Panicked"
    if "write_file_with_missing_parent_retry fs q c s0 = (s1, Inl e')" for e' q c s0 s1
    using that by (auto simp: write_file_with_missing_parent_retry_def Let_def with_context_def
        split: prod.splits sum.splits if_splits option.splits)
  ultimately show ?thesis using assms(2)
    by (auto simp: apply_update_def apply_move_def Let_def split: prod.splits sum.splits option.splits)
qed

lemma apply_hunk_no_panic:
  assumes "complete_hunk h" "apply_hunk fs PreserveLineEndings h s d = (s', d', Inl e)"
  shows "e \<noteq> Wrapped Panicked"
proof (cases h)
  case (AddFile path c)
  with assms(2) show ?thesis
    by (auto simp: apply_hunk_def apply_add_def write_file_with_missing_parent_retry_def Let_def with_context_def
        split: prod.splits sum.splits if_splits option.splits)
next
  case (DeleteFile path)
  with assms(2) show ?thesis
    by (auto simp: apply_hunk_def apply_delete_def Let_def split: prod.splits sum.splits)
next
  case (UpdateFile path mv chunks)
  with assms show ?thesis
    using apply_update_no_panic [of path mv chunks fs]
    by (auto simp: apply_hunk_def split: sum.splits)
qed

lemma apply_hunk_list_no_panic:
  assumes "list_all complete_hunk hs" "apply_hunk_list fs PreserveLineEndings hs a s d = (s', d', Inl e)"
  shows "e \<noteq> Wrapped Panicked"
  using assms
proof (induction hs arbitrary: a s d)
  case (Cons h hs)
  obtain s1 d1 r1 where h: "apply_hunk fs PreserveLineEndings h s d = (s1, d1, r1)" by (metis prod_cases3)
  with Cons show ?case using apply_hunk_no_panic [of h fs s d] by (cases r1) auto
qed simp

lemma apply_hunks_no_panic:
  assumes "list_all complete_hunk hs"
  shows "snd (apply_hunks_with_options fs PreserveLineEndings out err hs s) \<noteq> Inl (Panicked, d)"
proof -
  obtain s1 d1 r1 where h: "apply_hunks_to_files fs PreserveLineEndings hs s empty_delta = (s1, d1, r1)"
    by (metis prod_cases3)
  have e: "to_apply_error x \<noteq> Panicked" if "x \<noteq> Wrapped Panicked" for x
    using that by (cases x rule: to_apply_error.cases) auto
  have "x \<noteq> Wrapped Panicked" if "r1 = Inl x" for x
    using apply_hunk_list_no_panic [OF assms, of fs] h that
    by (auto simp: apply_hunks_to_files_def split: if_splits)
  with h e show ?thesis
    by (cases r1) (auto simp: apply_hunks_with_options_def io_apply_error_def split: option.splits)
qed

end
