(* ===== verification/Inline_Tag.thy ===== *)
theory Inline_Tag
  imports Ava_Prelude
begin

text \<open>
  The streaming parser that hides inline tags, \<^verbatim>\<open>utils/stream-parser/src/inline_hidden_tag.rs\<close>,
  and its use for citations, \<^verbatim>\<open>citation.rs\<close>, with the result type of
  \<^verbatim>\<open>stream_text.rs\<close>.

  The loop of \<open>push_str\<close> is given fuel; with non-empty delimiters, which the constructor asserts,
  every iteration consumes input, so that one unit more than the pending bytes is enough
  (\<open>hidden_loop_total\<close>). The citation parser is shown to be independent of how the text is cut and
  to compute \<open>citation_spec\<close>.
\<close>

section \<open>Results of stream parsers\<close>

record 'x stream_text_chunk =
  visible_text :: string
  extracted :: "'x list"

definition empty_text_chunk :: "'x stream_text_chunk" where
  "empty_text_chunk = \<lparr>visible_text = [], extracted = []\<rparr>"

definition text_chunk_is_empty :: "'x stream_text_chunk \<Rightarrow> bool" where
  "text_chunk_is_empty c \<longleftrightarrow> visible_text c = [] \<and> extracted c = []"

definition append_chunk :: "'x stream_text_chunk \<Rightarrow> 'x stream_text_chunk \<Rightarrow> 'x stream_text_chunk" where
  "append_chunk a b = \<lparr>visible_text = visible_text a @ visible_text b, extracted = extracted a @ extracted b\<rparr>"

section \<open>The hidden tag parser\<close>

record 't extracted_tag =
  tag_of :: 't
  content_of :: string

record 't inline_tag_spec =
  spec_tag :: 't
  open_delim :: string
  close_delim :: string

record 't active_tag =
  active_tag :: 't
  active_close :: string
  active_content :: string

record 't hidden_tag_parser =
  tag_specs :: "'t inline_tag_spec list"
  pending :: string
  active :: "'t active_tag option"

text \<open>The constructor's assertions; \<open>None\<close> is the panic.\<close>

definition specs_ok :: "'t inline_tag_spec list \<Rightarrow> bool" where
  "specs_ok specs \<longleftrightarrow> specs \<noteq> [] \<and> list_all (\<lambda>s. open_delim s \<noteq> [] \<and> close_delim s \<noteq> []) specs"

definition hidden_new :: "'t inline_tag_spec list \<Rightarrow> 't hidden_tag_parser option" where
  "hidden_new specs =
     (if specs_ok specs then Some \<lparr>tag_specs = specs, pending = [], active = None\<rparr> else None)"

text \<open>\<open>str::is_char_boundary\<close> inside the string: the byte there is not a continuation byte.\<close>

definition is_char_boundary :: "string \<Rightarrow> nat \<Rightarrow> bool" where
  "is_char_boundary s k \<longleftrightarrow> k = 0 \<or> k = length s \<or> (k < length s \<and> \<not> is_continuation (s ! k))"

text \<open>The longest proper prefix of the needle at a character boundary that ends the text.\<close>

definition longest_suffix_prefix_len :: "string \<Rightarrow> string \<Rightarrow> nat" where
  "longest_suffix_prefix_len s needle =
     (case find (\<lambda>k. is_char_boundary needle k \<and> suffix (take k needle) s)
             (rev [1..<Suc (min (length s) (length needle - 1))]) of
        Some k \<Rightarrow> k
      | None \<Rightarrow> 0)"

text \<open>Candidates \<open>(pos, open_len, idx)\<close>; the least position wins, then the longest, then the first.\<close>

definition open_candidates :: "'t hidden_tag_parser \<Rightarrow> (nat \<times> nat \<times> nat) list" where
  "open_candidates p =
     List.map_filter (\<lambda>(idx, spec). map_option (\<lambda>pos. (pos, length (open_delim spec), idx))
       (find_sub (open_delim spec) (pending p))) (enumerate 0 (tag_specs p))"

fun better_open :: "nat \<times> nat \<times> nat \<Rightarrow> nat \<times> nat \<times> nat \<Rightarrow> bool" where
  "better_open (pos_a, len_a, idx_a) (pos_b, len_b, idx_b) \<longleftrightarrow>
     pos_a < pos_b \<or> pos_a = pos_b \<and> (len_b < len_a \<or> len_b = len_a \<and> idx_a < idx_b)"

definition find_next_open :: "'t hidden_tag_parser \<Rightarrow> (nat \<times> nat) option" where
  "find_next_open p =
     (case open_candidates p of
        [] \<Rightarrow> None
      | c # cs \<Rightarrow>
          (case foldl (\<lambda>best x. if better_open x best then x else best) c cs of
             (pos, _, idx) \<Rightarrow> Some (pos, idx)))"

definition max_open_prefix_suffix_len :: "'t hidden_tag_parser \<Rightarrow> nat" where
  "max_open_prefix_suffix_len p =
     foldl max 0 (map (\<lambda>spec. longest_suffix_prefix_len (pending p) (open_delim spec)) (tag_specs p))"

text \<open>Flush the pending text except for the last \<open>keep\<close> bytes; the text flushed is returned.\<close>

definition drain_visible_to_suffix_match :: "'t hidden_tag_parser \<Rightarrow> nat \<Rightarrow> 't hidden_tag_parser \<times> string" where
  "drain_visible_to_suffix_match p keep =
     (let n = length (pending p) - keep in (p\<lparr>pending := drop n (pending p)\<rparr>, take n (pending p)))"

text \<open>
  The body of the loop: whether it continues, the parser, and what is appended to the output.
\<close>

definition hidden_iteration ::
  "'t hidden_tag_parser \<Rightarrow> bool \<times> 't hidden_tag_parser \<times> 't extracted_tag stream_text_chunk" where
  "hidden_iteration p =
     (case active p of
        Some a \<Rightarrow>
          (case find_sub (active_close a) (pending p) of
             Some close_idx \<Rightarrow>
               (True, p\<lparr>active := None, pending := drop (close_idx + length (active_close a)) (pending p)\<rparr>,
                \<lparr>visible_text = [], extracted =
                  [\<lparr>tag_of = active_tag a, content_of = active_content a @ take close_idx (pending p)\<rparr>]\<rparr>)
           | None \<Rightarrow>
               (let n = length (pending p) - longest_suffix_prefix_len (pending p) (active_close a)
                in (False, p\<lparr>active := Some (a\<lparr>active_content := active_content a @ take n (pending p)\<rparr>),
                      pending := drop n (pending p)\<rparr>, empty_text_chunk)))
      | None \<Rightarrow>
          (case find_next_open p of
             Some (open_idx, spec_idx) \<Rightarrow>
               (let spec = tag_specs p ! spec_idx
                in (True, p\<lparr>pending := drop (open_idx + length (open_delim spec)) (pending p),
                      active := Some \<lparr>active_tag = spec_tag spec, active_close = close_delim spec,
                        active_content = []\<rparr>\<rparr>,
                    \<lparr>visible_text = take open_idx (pending p), extracted = []\<rparr>))
           | None \<Rightarrow>
               (case drain_visible_to_suffix_match p (max_open_prefix_suffix_len p) of
                  (q, v) \<Rightarrow> (False, q, \<lparr>visible_text = v, extracted = []\<rparr>))))"

fun hidden_loop ::
  "nat \<Rightarrow> 't hidden_tag_parser \<Rightarrow> 't extracted_tag stream_text_chunk
     \<Rightarrow> ('t hidden_tag_parser \<times> 't extracted_tag stream_text_chunk) option" where
  "hidden_loop 0 p out = None"
| "hidden_loop (Suc fuel) p out =
     (case hidden_iteration p of
        (True, q, piece) \<Rightarrow> hidden_loop fuel q (append_chunk out piece)
      | (False, q, piece) \<Rightarrow> Some (q, append_chunk out piece))"

definition hidden_push_str ::
  "'t hidden_tag_parser \<Rightarrow> string \<Rightarrow> ('t hidden_tag_parser \<times> 't extracted_tag stream_text_chunk) option" where
  "hidden_push_str p chunk =
     hidden_loop (Suc (length (pending p @ chunk))) (p\<lparr>pending := pending p @ chunk\<rparr>) empty_text_chunk"

definition hidden_finish ::
  "'t hidden_tag_parser \<Rightarrow> 't hidden_tag_parser \<times> 't extracted_tag stream_text_chunk" where
  "hidden_finish p =
     (case active p of
        Some a \<Rightarrow>
          (p\<lparr>active := None, pending := []\<rparr>,
           \<lparr>visible_text = [], extracted = [\<lparr>tag_of = active_tag a, content_of = active_content a @ pending p\<rparr>]\<rparr>)
      | None \<Rightarrow> (p\<lparr>pending := []\<rparr>, \<lparr>visible_text = pending p, extracted = []\<rparr>))"

section \<open>Citations\<close>

definition CITATION_OPEN :: string where "CITATION_OPEN = ''<oai-mem-citation>''"
definition CITATION_CLOSE :: string where "CITATION_CLOSE = ''</oai-mem-citation>''"

type_synonym citation_parser = "unit hidden_tag_parser"

definition citation_new :: citation_parser where
  "citation_new = \<lparr>tag_specs = [\<lparr>spec_tag = (), open_delim = CITATION_OPEN, close_delim = CITATION_CLOSE\<rparr>],
     pending = [], active = None\<rparr>"

definition map_citations :: "unit extracted_tag stream_text_chunk \<Rightarrow> string stream_text_chunk" where
  "map_citations c = \<lparr>visible_text = visible_text c, extracted = map content_of (extracted c)\<rparr>"

definition citation_push_str :: "citation_parser \<Rightarrow> string \<Rightarrow> (citation_parser \<times> string stream_text_chunk) option" where
  "citation_push_str p chunk = map_option (\<lambda>(p', c). (p', map_citations c)) (hidden_push_str p chunk)"

definition citation_finish :: "citation_parser \<Rightarrow> citation_parser \<times> string stream_text_chunk" where
  "citation_finish p = (case hidden_finish p of (p', c) \<Rightarrow> (p', map_citations c))"

definition strip_citations :: "string \<Rightarrow> (string \<times> string list) option" where
  "strip_citations s =
     (case citation_push_str citation_new s of
        None \<Rightarrow> None
      | Some (p, c) \<Rightarrow>
          (case citation_finish p of (_, tail) \<Rightarrow>
             Some (visible_text c @ visible_text tail, extracted c @ extracted tail)))"

section \<open>Enough fuel\<close>

definition parser_ok :: "'t hidden_tag_parser \<Rightarrow> bool" where
  "parser_ok p \<longleftrightarrow> specs_ok (tag_specs p) \<and> (\<forall>a. active p = Some a \<longrightarrow> active_close a \<noteq> [])"

lemma open_candidates_mem:
  assumes "(pos, len, idx) \<in> set (open_candidates p)"
  shows "idx < length (tag_specs p) \<and> find_sub (open_delim (tag_specs p ! idx)) (pending p) = Some pos"
  using assms
  by (auto simp: open_candidates_def map_filter_def in_set_enumerate_eq)

lemma foldl_best_mem: "foldl (\<lambda>best x. if better_open x best then x else best) c cs \<in> set (c # cs)"
  by (induction cs arbitrary: c) (auto split: if_splits)

lemma find_next_open_SomeD:
  assumes "find_next_open p = Some (pos, idx)"
  shows "idx < length (tag_specs p)" "find_sub (open_delim (tag_specs p ! idx)) (pending p) = Some pos"
proof -
  from assms obtain c cs where c: "open_candidates p = c # cs"
    by (auto simp: find_next_open_def split: list.splits)
  obtain pos' len idx' where b: "foldl (\<lambda>best x. if better_open x best then x else best) c cs = (pos', len, idx')"
    by (cases "foldl (\<lambda>best x. if better_open x best then x else best) c cs") auto
  with assms c have e: "pos' = pos" "idx' = idx" by (simp_all add: find_next_open_def)
  have "(pos', len, idx') \<in> set (open_candidates p)"
    unfolding c b [symmetric] by (rule foldl_best_mem)
  from open_candidates_mem [OF this] e show "idx < length (tag_specs p)"
      "find_sub (open_delim (tag_specs p ! idx)) (pending p) = Some pos"
    by simp_all
qed

lemma specs_ok_nth:
  "specs_ok specs \<Longrightarrow> i < length specs \<Longrightarrow> open_delim (specs ! i) \<noteq> [] \<and> close_delim (specs ! i) \<noteq> []"
  by (simp add: specs_ok_def list_all_length)

text \<open>An iteration that continues has consumed at least one pending byte.\<close>

lemma find_sub_consumes:
  "find_sub d s = Some i \<Longrightarrow> d \<noteq> [] \<Longrightarrow> length (drop (i + length d) s) < length s"
  using find_sub_SomeD [of d s i] by (cases d) auto

lemma hidden_iteration_step:
  assumes "parser_ok p" "hidden_iteration p = (cont, q, piece)"
  shows "parser_ok q" "tag_specs q = tag_specs p" "cont \<Longrightarrow> length (pending q) < length (pending p)"
proof -
  have "parser_ok q \<and> tag_specs q = tag_specs p \<and> (cont \<longrightarrow> length (pending q) < length (pending p))"
  proof (cases "active p")
    case (Some a)
    then have "active_close a \<noteq> []" using assms(1) by (simp add: parser_ok_def)
    with Some assms find_sub_consumes [of "active_close a" "pending p"] show ?thesis
      by (auto simp: hidden_iteration_def parser_ok_def Let_def split: option.splits)
  next
    case None
    show ?thesis
    proof (cases "find_next_open p")
      case (Some x)
      obtain i k where x: "x = (i, k)" by fastforce
      note f = find_next_open_SomeD [OF Some [unfolded x]]
      have "open_delim (tag_specs p ! k) \<noteq> []" "close_delim (tag_specs p ! k) \<noteq> []"
        using assms(1) f(1) specs_ok_nth by (auto simp: parser_ok_def)
      with find_sub_consumes [OF f(2)] None Some x assms show ?thesis
        by (auto simp: hidden_iteration_def parser_ok_def Let_def)
    qed (use None assms in \<open>auto simp: hidden_iteration_def parser_ok_def drain_visible_to_suffix_match_def Let_def\<close>)
  qed
  then show "parser_ok q" "tag_specs q = tag_specs p" "cont \<Longrightarrow> length (pending q) < length (pending p)"
    by auto
qed

lemma hidden_loop_total:
  assumes "parser_ok p" "length (pending p) < n"
  shows "\<exists>q out'. hidden_loop n p out = Some (q, out') \<and> parser_ok q \<and> tag_specs q = tag_specs p"
  using assms
proof (induction n arbitrary: p out)
  case (Suc n)
  obtain cont q piece where i: "hidden_iteration p = (cont, q, piece)" by (metis prod_cases3)
  note q = hidden_iteration_step [OF Suc.prems(1) i]
  show ?case
  proof (cases cont)
    case True
    with q Suc.prems(2) have "length (pending q) < n" by simp
    from Suc.IH [OF q(1) this] i True q(2) show ?thesis by simp
  qed (use i q in simp)
qed simp

lemma append_chunk_assoc: "append_chunk (append_chunk a b) c = append_chunk a (append_chunk b c)"
  by (simp add: append_chunk_def)

lemma append_chunk_empty [simp]: "append_chunk empty_text_chunk a = a" "append_chunk a empty_text_chunk = a"
  by (simp_all add: append_chunk_def empty_text_chunk_def)

lemma hidden_loop_fuel:
  "hidden_loop n p out = Some r \<Longrightarrow> n \<le> m \<Longrightarrow> hidden_loop m p out = Some r"
proof (induction n arbitrary: m p out)
  case (Suc n)
  then obtain m' where "m = Suc m'" "n \<le> m'" by (cases m) auto
  with Suc show ?case by (auto split: prod.splits bool.splits)
qed simp

lemma hidden_loop_out:
  "hidden_loop n p out = map_option (\<lambda>(q, piece). (q, append_chunk out piece)) (hidden_loop n p empty_text_chunk)"
proof (induction n arbitrary: p out)
  case (Suc n)
  obtain cont q piece where i: "hidden_iteration p = (cont, q, piece)" by (metis prod_cases3)
  show ?case
  proof (cases cont)
    case True
    with i show ?thesis
      using Suc [of q "append_chunk out piece"] Suc [of q piece]
      by (cases "hidden_loop n q empty_text_chunk") (auto simp: append_chunk_assoc)
  qed (use i in simp)
qed simp

section \<open>The loop as a function\<close>

definition drain :: "'t hidden_tag_parser \<Rightarrow> 't hidden_tag_parser \<times> 't extracted_tag stream_text_chunk" where
  "drain p = the (hidden_loop (Suc (length (pending p))) p empty_text_chunk)"

lemma hidden_push_drain:
  "parser_ok p \<Longrightarrow> hidden_push_str p chunk = Some (drain (p\<lparr>pending := pending p @ chunk\<rparr>))"
  using hidden_loop_total [of "p\<lparr>pending := pending p @ chunk\<rparr>" "Suc (length (pending p @ chunk))" empty_text_chunk]
  by (auto simp: hidden_push_str_def drain_def parser_ok_def)

lemma drain_ok:
  assumes "parser_ok p" "drain p = (q, piece)"
  shows "parser_ok q" "tag_specs q = tag_specs p"
  using hidden_loop_total [OF assms(1), of "Suc (length (pending p))" empty_text_chunk] assms(2)
  by (auto simp: drain_def)

lemma drain_unfold:
  assumes "parser_ok p"
  shows "drain p =
    (case hidden_iteration p of
       (True, q, piece) \<Rightarrow> (case drain q of (r, rest) \<Rightarrow> (r, append_chunk piece rest))
     | (False, q, piece) \<Rightarrow> (q, piece))"
proof -
  obtain cont q piece where i: "hidden_iteration p = (cont, q, piece)" by (metis prod_cases3)
  note q = hidden_iteration_step [OF assms i]
  show ?thesis
  proof (cases cont)
    case True
    obtain r rest where r: "hidden_loop (Suc (length (pending q))) q empty_text_chunk = Some (r, rest)"
      using hidden_loop_total [OF q(1), of "Suc (length (pending q))" empty_text_chunk] by auto
    with q(3) True have "hidden_loop (length (pending p)) q empty_text_chunk = Some (r, rest)"
      by (intro hidden_loop_fuel [OF r]) auto
    then have "hidden_loop (length (pending p)) q piece = Some (r, append_chunk piece rest)"
      using hidden_loop_out [of "length (pending p)" q piece] by simp
    with i True r show ?thesis by (simp add: drain_def)
  qed (use i in \<open>simp add: drain_def\<close>)
qed

section \<open>Searching a text that grows\<close>

definition ascii :: "string \<Rightarrow> bool" where
  "ascii s \<longleftrightarrow> list_all (\<lambda>c. (of_char c :: nat) < 128) s"

lemma ascii_boundary: "ascii s \<Longrightarrow> k \<le> length s \<Longrightarrow> is_char_boundary s k"
proof -
  assume a: "ascii s" "k \<le> length s"
  have "\<not> is_continuation (s ! k)" if "k < length s"
    using a that unfolding ascii_def is_continuation_def list_all_length by (meson not_le)
  with a(2) show ?thesis by (auto simp: is_char_boundary_def)
qed

lemma find_sub_append:
  assumes "find_sub d s = Some i"
  shows "find_sub d (s @ t) = Some i"
proof (rule find_sub_eqI)
  note f = find_sub_SomeD [OF assms]
  show "i \<le> length (s @ t)" "prefix d (drop i (s @ t))" using f by auto
  show "\<not> prefix d (drop j (s @ t))" if "j < i" for j
  proof
    assume "prefix d (drop j (s @ t))"
    moreover have "length d \<le> length (drop j s)" "drop j (s @ t) = drop j s @ t" using f that by auto
    ultimately have "prefix d (drop j s)" by (metis prefixI prefix_length_prefix)
    with f that show False by blast
  qed
qed

lemma find_rev_upt:
  "find P (rev [1..<Suc n]) = Some m \<Longrightarrow> P m \<and> m \<le> n \<and> (\<forall>j. P j \<longrightarrow> j \<le> n \<longrightarrow> j \<le> m)"
  by (induction n) (auto split: if_splits simp: le_Suc_eq)

lemma keep_props:
  fixes s :: string
  assumes "ascii d"
  defines "k \<equiv> longest_suffix_prefix_len s d"
  shows "k \<le> length s" "k \<le> length d - 1" "suffix (take k d) s"
    "\<And>j. suffix (take j d) s \<Longrightarrow> j \<le> length s \<Longrightarrow> j \<le> length d - 1 \<Longrightarrow> j \<le> k"
proof -
  let ?P = "\<lambda>k. is_char_boundary d k \<and> suffix (take k d) s"
  let ?n = "min (length s) (length d - 1)"
  have P: "?P j \<longleftrightarrow> suffix (take j d) s" if "j \<le> ?n" for j
    using that ascii_boundary [OF assms(1), of j] by auto
  have "k \<le> ?n \<and> suffix (take k d) s \<and> (\<forall>j. suffix (take j d) s \<and> j \<le> ?n \<longrightarrow> j \<le> k)"
  proof (cases "find ?P (rev [1..<Suc ?n])")
    case None
    then have none: "\<not> ?P j" if "1 \<le> j" "j \<le> ?n" for j
      using that unfolding find_None_iff by (auto simp del: upt_Suc)
    then have "j = 0" if "suffix (take j d) s" "j \<le> ?n" for j
      using P that by (metis One_nat_def Suc_leI not_gr_zero)
    with None show ?thesis by (auto simp: k_def longest_suffix_prefix_len_def)
  next
    case (Some m)
    then have "k = m" by (simp only: k_def longest_suffix_prefix_len_def option.case)
    with find_rev_upt [OF Some] P show ?thesis by blast
  qed
  then show "k \<le> length s" "k \<le> length d - 1" "suffix (take k d) s"
    "\<And>j. suffix (take j d) s \<Longrightarrow> j \<le> length s \<Longrightarrow> j \<le> length d - 1 \<Longrightarrow> j \<le> k"
    by auto
qed

text \<open>
  What has been flushed can no longer be part of a delimiter: no delimiter, complete or
  cut off at the end, starts before the kept suffix.
\<close>

lemma flushed_is_dead:
  assumes "ascii d" "find_sub d s = None" "j < length s - longest_suffix_prefix_len s d"
  shows "\<not> prefix d (drop j (s @ t))"
    "\<not> (prefix (drop j (s @ t)) d \<and> length (drop j (s @ t)) < length d)"
proof -
  let ?w = "drop j s"
  have j: "drop j (s @ t) = ?w @ t" using assms(3) by simp
  have long: "\<not> (prefix ?w d \<and> length ?w < length d)"
  proof
    assume w: "prefix ?w d \<and> length ?w < length d"
    then have "?w = take (length ?w) d" by (metis append_eq_conv_conj prefix_def)
    then have "suffix (take (length ?w) d) s" by (metis suffix_drop)
    then have "length ?w \<le> longest_suffix_prefix_len s d"
      by (rule keep_props(4) [OF assms(1)]) (use w in auto)
    with assms(3) show False by simp
  qed
  show "\<not> prefix d (drop j (s @ t))"
  proof
    assume p: "prefix d (drop j (s @ t))"
    show False
    proof (cases "length d \<le> length ?w")
      case True
      then have "prefix d ?w" using p j by (metis prefixI prefix_length_prefix)
      with find_sub_NoneD [OF assms(2)] show False by blast
    next
      case False
      then have "prefix ?w d" using p j by (metis prefixI prefix_length_prefix nat_le_linear)
      with long False show False by simp
    qed
  qed
  show "\<not> (prefix (drop j (s @ t)) d \<and> length (drop j (s @ t)) < length d)"
    using long j by (auto dest: append_prefixD)
qed

lemma find_sub_after_flush:
  assumes "ascii d" "find_sub d s = None"
  defines "n \<equiv> length s - longest_suffix_prefix_len s d"
  shows "find_sub d (s @ t) = map_option ((+) n) (find_sub d (drop n s @ t))"
proof -
  have dead: "\<not> prefix d (drop j (s @ t))" if "j < n" for j
    using flushed_is_dead(1) [OF assms(1,2)] that by (simp add: n_def)
  have tail: "drop (n + j) (s @ t) = drop j (drop n s @ t)" for j
    by (simp add: n_def add.commute)
  show ?thesis
  proof (cases "find_sub d (drop n s @ t)")
    case None
    have "\<not> prefix d (drop j (s @ t))" for j
    proof (cases "j < n")
      case False
      then have "drop j (s @ t) = drop (j - n) (drop n s @ t)" using tail [of "j - n"] by simp
      with find_sub_NoneD [OF None, of "j - n"] show ?thesis by simp
    qed (rule dead)
    then show ?thesis using None by (simp add: find_sub_noneI)
  next
    case (Some i)
    note f = find_sub_SomeD [OF Some]
    have "find_sub d (s @ t) = Some (n + i)"
    proof (rule find_sub_eqI)
      show "prefix d (drop (n + i) (s @ t))" using f by (simp only: tail)
      have "n \<le> length s" by (simp add: n_def)
      moreover have "i \<le> length (drop n s @ t)" using f by linarith
      ultimately show "n + i \<le> length (s @ t)" by simp
      show "\<not> prefix d (drop j (s @ t))" if "j < n + i" for j
      proof (cases "j < n")
        case False
        then have eq: "drop j (s @ t) = drop (j - n) (drop n s @ t)" using tail [of "j - n"] by simp
        have "j - n < i" using False that by linarith
        with f have "\<not> prefix d (drop (j - n) (drop n s @ t))" by blast
        then show ?thesis unfolding eq .
      qed (rule dead)
    qed
    with Some show ?thesis by simp
  qed
qed

lemma drop_suffix: "suffix v w \<Longrightarrow> drop (length w - length v) w = v"
  by (auto simp: suffix_def)

lemma keep_after_flush:
  assumes "ascii d" "find_sub d s = None" "d \<noteq> []"
  defines "n \<equiv> length s - longest_suffix_prefix_len s d"
  shows "longest_suffix_prefix_len (s @ t) d = longest_suffix_prefix_len (drop n s @ t) d"
proof (rule antisym)
  let ?k = "longest_suffix_prefix_len (s @ t) d" and ?k' = "longest_suffix_prefix_len (drop n s @ t) d"
  note K = keep_props [OF assms(1), where s = "s @ t"] and K' = keep_props [OF assms(1), where s = "drop n s @ t"]
  have len: "length (s @ t) = n + length (drop n s @ t)" by (simp add: n_def)
  have "?k \<le> length (drop n s @ t)"
  proof (rule ccontr)
    assume "\<not> ?thesis"
    then have "length (s @ t) - ?k < n" using len K(1) by simp
    moreover have "drop (length (s @ t) - ?k) (s @ t) = take ?k d"
      using drop_suffix [OF K(3)] K(2) by simp
    ultimately show False
      using flushed_is_dead(2) [OF assms(1,2), of "length (s @ t) - ?k" t] K(2) assms(3)
      by (auto simp: n_def take_is_prefix)
  qed
  moreover have "suffix (take ?k d) (drop n s @ t)"
  proof -
    have "suffix (drop n s @ t) (s @ t)" by (metis append_assoc append_take_drop_id suffixI)
    moreover have "length (take ?k d) \<le> length (drop n s @ t)" using \<open>?k \<le> length (drop n s @ t)\<close> by simp
    ultimately show ?thesis using K(3) suffix_length_suffix by blast
  qed
  ultimately show "?k \<le> ?k'" using K'(4) K(2) by blast
  have "suffix (take ?k' d) (s @ t)"
    using K'(3) by (metis append_assoc append_take_drop_id suffixI suffix_order.trans)
  then show "?k' \<le> ?k" using K(4) K'(1,2) len by simp
qed

section \<open>One kind of tag: the text may be cut anywhere\<close>

definition single_tag :: "'t inline_tag_spec \<Rightarrow> 't hidden_tag_parser \<Rightarrow> bool" where
  "single_tag spec p \<longleftrightarrow> tag_specs p = [spec] \<and> (\<forall>a. active p = Some a \<longrightarrow> active_close a = close_delim spec)"

definition plain_spec :: "'t inline_tag_spec \<Rightarrow> bool" where
  "plain_spec spec \<longleftrightarrow> open_delim spec \<noteq> [] \<and> close_delim spec \<noteq> [] \<and>
     ascii (open_delim spec) \<and> ascii (close_delim spec)"

lemma single_tag_ok: "plain_spec spec \<Longrightarrow> single_tag spec p \<Longrightarrow> parser_ok p"
  by (simp add: single_tag_def plain_spec_def parser_ok_def specs_ok_def)

lemma single_tag_pending [simp]: "single_tag spec (p\<lparr>pending := x\<rparr>) = single_tag spec p"
  by (simp add: single_tag_def)

lemma single_next_open:
  "tag_specs p = [spec] \<Longrightarrow> find_next_open p = map_option (\<lambda>pos. (pos, 0)) (find_sub (open_delim spec) (pending p))"
  by (simp add: find_next_open_def open_candidates_def map_filter_simps split: option.split)

lemma single_keep:
  "tag_specs p = [spec] \<Longrightarrow> max_open_prefix_suffix_len p = longest_suffix_prefix_len (pending p) (open_delim spec)"
  by (simp add: max_open_prefix_suffix_len_def)

lemma single_tag_iteration:
  "single_tag spec p \<Longrightarrow> hidden_iteration p = (cont, q, piece) \<Longrightarrow> single_tag spec q"
  by (auto simp: hidden_iteration_def single_tag_def single_next_open drain_visible_to_suffix_match_def Let_def
      split: option.splits)

lemma single_tag_drain:
  assumes "plain_spec spec" "single_tag spec p" "drain p = (q, piece)"
  shows "single_tag spec q"
  using assms(2,3)
proof (induction "length (pending p)" arbitrary: p piece rule: less_induct)
  case less
  obtain cont r a where i: "hidden_iteration p = (cont, r, a)" by (metis prod_cases3)
  note ok = single_tag_ok [OF assms(1) less.prems(1)]
  have r: "single_tag spec r" using single_tag_iteration [OF less.prems(1) i] .
  show ?case
  proof (cases cont)
    case True
    with i less.prems(2) drain_unfold [OF ok] obtain b where "drain r = (q, b)"
      by (auto split: prod.splits)
    with less.hyps [OF _ r] hidden_iteration_step(3) [OF ok i True] show ?thesis by blast
  qed (use i less.prems(2) drain_unfold [OF ok] r in simp)
qed

text \<open>
  An iteration that stops has flushed all but the kept suffix of the pending text; with more text
  the search goes on as if nothing had been flushed.
\<close>

lemma cut_shift:
  assumes "n \<le> length s"
  shows "take (n + m) (s @ t) = take n s @ take m (drop n s @ t)" "drop (n + m) (s @ t) = drop m (drop n s @ t)"
proof -
  have e: "s @ t = take n s @ (drop n s @ t)" by simp
  show "take (n + m) (s @ t) = take n s @ take m (drop n s @ t)"
    using assms by (subst e, subst take_append) (simp add: min_def)
  show "drop (n + m) (s @ t) = drop m (drop n s @ t)"
    using assms by (subst e, subst drop_append) (simp add: min_def add.commute)
qed

lemma flush_shift:
  fixes t :: string
  assumes "ascii d" "find_sub d s = None" "d \<noteq> []"
  defines "n \<equiv> length s - longest_suffix_prefix_len s d"
  defines "x \<equiv> drop (length s - longest_suffix_prefix_len s d) s @ t"
  shows "length (s @ t) - longest_suffix_prefix_len (s @ t) d = n + (length x - longest_suffix_prefix_len x d)"
proof -
  have k: "longest_suffix_prefix_len (s @ t) d = longest_suffix_prefix_len x d"
    using keep_after_flush [OF assms(1-3)] by (simp add: n_def x_def)
  have "longest_suffix_prefix_len x d \<le> length x" by (rule keep_props(1) [OF assms(1)])
  moreover have "length (s @ t) = n + length x" by (simp add: n_def x_def)
  ultimately show ?thesis unfolding k by linarith
qed

lemma stop_then_iterate:
  assumes "plain_spec spec" "single_tag spec p" "hidden_iteration p = (False, q, piece)"
  obtains cont r rest where "hidden_iteration (p\<lparr>pending := pending p @ t\<rparr>) = (cont, r, append_chunk piece rest)"
    "hidden_iteration (q\<lparr>pending := pending q @ t\<rparr>) = (cont, r, rest)"
proof (cases "active p")
  case (Some a)
  let ?d = "close_delim spec" and ?s = "pending p"
  have d: "active_close a = ?d" "ascii ?d" "?d \<noteq> []"
    using Some assms(1,2) by (auto simp: single_tag_def plain_spec_def)
  define n where "n = length ?s - longest_suffix_prefix_len ?s ?d"
  have none: "find_sub ?d ?s = None"
    using assms(3) Some d(1) by (auto simp: hidden_iteration_def split: option.splits)
  have q: "q = p\<lparr>active := Some (a\<lparr>active_content := active_content a @ take n ?s\<rparr>), pending := drop n ?s\<rparr>"
    "piece = empty_text_chunk"
    using assms(3) Some d(1) none by (auto simp: hidden_iteration_def Let_def n_def)
  note f = find_sub_after_flush [OF d(2) none, of t, folded n_def]
  have k: "length (?s @ t) - longest_suffix_prefix_len (?s @ t) ?d =
      n + (length (drop n ?s @ t) - longest_suffix_prefix_len (drop n ?s @ t) ?d)" "n \<le> length ?s"
    using flush_shift [OF d(2) none d(3), of t] by (simp_all add: n_def)
  show thesis
  proof (cases "find_sub ?d (drop n ?s @ t)")
    case None
    with f have "find_sub ?d (?s @ t) = None" by simp
    with that None Some d(1) show thesis unfolding q
      by (simp add: hidden_iteration_def Let_def k(1) cut_shift [OF k(2)]
          del: length_append take_append drop_append) blast
  next
    case (Some i)
    with f have "find_sub ?d (?s @ t) = Some (n + i)" by simp
    with that Some \<open>active p = Some a\<close> d(1) show thesis unfolding q
      by (simp add: hidden_iteration_def add.assoc cut_shift [OF k(2)] del: length_append take_append drop_append)
  qed
next
  case None
  let ?d = "open_delim spec" and ?s = "pending p"
  have specs: "tag_specs p = [spec]" using assms(2) by (simp add: single_tag_def)
  have d: "ascii ?d" "?d \<noteq> []" using assms(1) by (auto simp: plain_spec_def)
  define n where "n = length ?s - longest_suffix_prefix_len ?s ?d"
  have none: "find_sub ?d ?s = None"
    using assms(3) None by (auto simp: hidden_iteration_def single_next_open [OF specs] Let_def split: option.splits)
  have q: "q = p\<lparr>pending := drop n ?s\<rparr>" "piece = \<lparr>visible_text = take n ?s, extracted = []\<rparr>"
    using assms(3) None none
    by (auto simp: hidden_iteration_def single_next_open [OF specs] single_keep [OF specs]
        drain_visible_to_suffix_match_def Let_def n_def)
  note f = find_sub_after_flush [OF d(1) none, of t, folded n_def]
  have k: "length (?s @ t) - longest_suffix_prefix_len (?s @ t) ?d =
      n + (length (drop n ?s @ t) - longest_suffix_prefix_len (drop n ?s @ t) ?d)" "n \<le> length ?s"
    using flush_shift [OF d(1) none d(2), of t] by (simp_all add: n_def)
  have sp: "tag_specs (p\<lparr>pending := x\<rparr>) = [spec]" for x using specs by simp
  show thesis
  proof (cases "find_sub ?d (drop n ?s @ t)")
    case None
    with f have "find_sub ?d (?s @ t) = None" by simp
    note more = this
    define m where "m = length (drop n ?s @ t) - longest_suffix_prefix_len (drop n ?s @ t) ?d"
    have "hidden_iteration (p\<lparr>pending := ?s @ t\<rparr>) = (False, p\<lparr>pending := drop m (drop n ?s @ t)\<rparr>,
        append_chunk piece \<lparr>visible_text = take m (drop n ?s @ t), extracted = []\<rparr>)"
      using more \<open>active p = None\<close> unfolding q(2)
      by (simp add: hidden_iteration_def single_next_open [OF sp] single_keep [OF sp] Let_def
          drain_visible_to_suffix_match_def k(1) cut_shift [OF k(2)] append_chunk_def
          flip: m_def del: length_append take_append drop_append)
    moreover have "hidden_iteration (q\<lparr>pending := pending q @ t\<rparr>) = (False, p\<lparr>pending := drop m (drop n ?s @ t)\<rparr>,
        \<lparr>visible_text = take m (drop n ?s @ t), extracted = []\<rparr>)"
      using None \<open>active p = None\<close> unfolding q(1)
      by (simp add: hidden_iteration_def single_next_open [OF sp] single_keep [OF sp] Let_def
          drain_visible_to_suffix_match_def flip: m_def del: length_append take_append drop_append)
    ultimately show thesis by (rule that)
  next
    case (Some i)
    with f have "find_sub ?d (?s @ t) = Some (n + i)" by simp
    note more = this
    let ?r = "p\<lparr>pending := drop (i + length ?d) (drop n ?s @ t), active := Some \<lparr>active_tag = spec_tag spec,
      active_close = close_delim spec, active_content = []\<rparr>\<rparr>"
    have "hidden_iteration (p\<lparr>pending := ?s @ t\<rparr>) = (True, ?r,
        append_chunk piece \<lparr>visible_text = take i (drop n ?s @ t), extracted = []\<rparr>)"
      using more \<open>active p = None\<close> specs unfolding q(2)
      by (simp add: hidden_iteration_def single_next_open [OF sp] add.assoc cut_shift [OF k(2)] append_chunk_def
          del: length_append take_append drop_append)
    moreover have "hidden_iteration (q\<lparr>pending := pending q @ t\<rparr>) = (True, ?r,
        \<lparr>visible_text = take i (drop n ?s @ t), extracted = []\<rparr>)"
      using Some \<open>active p = None\<close> specs unfolding q(1)
      by (simp add: hidden_iteration_def single_next_open [OF sp] del: length_append take_append drop_append)
    ultimately show thesis by (rule that)
  qed
qed

abbreviation then_drain ::
  "'t hidden_tag_parser \<times> 't extracted_tag stream_text_chunk \<Rightarrow> string \<Rightarrow> 't hidden_tag_parser \<times> 't extracted_tag stream_text_chunk" where
  "then_drain x t \<equiv> (case x of (q, piece) \<Rightarrow>
     (case drain (q\<lparr>pending := pending q @ t\<rparr>) of (r, rest) \<Rightarrow> (r, append_chunk piece rest)))"

text \<open>A found delimiter is found at the same place when more text follows.\<close>

lemma continue_then_more:
  assumes "single_tag spec p" "hidden_iteration p = (True, q, piece)"
  shows "hidden_iteration (p\<lparr>pending := pending p @ t\<rparr>) = (True, q\<lparr>pending := pending q @ t\<rparr>, piece)"
proof -
  have specs: "tag_specs p = [spec]" using assms(1) by (simp add: single_tag_def)
  have sp: "tag_specs (p\<lparr>pending := x\<rparr>) = [spec]" for x using specs by simp
  have len: "i + length d \<le> length (pending p)" "find_sub d (pending p @ t) = Some i"
    if "find_sub d (pending p) = Some i" for d i
    using find_sub_SomeD [OF that] find_sub_append [OF that] by auto
  show ?thesis
  proof (cases "active p")
    case (Some a)
    with assms(2) obtain i where "find_sub (active_close a) (pending p) = Some i"
      by (auto simp: hidden_iteration_def Let_def split: option.splits)
    with len [OF this] Some assms(2) show ?thesis by (auto simp: hidden_iteration_def)
  next
    case None
    with assms(2) obtain i where "find_sub (open_delim spec) (pending p) = Some i"
      by (auto simp: hidden_iteration_def single_next_open [OF specs] drain_visible_to_suffix_match_def Let_def
          split: option.splits)
    with len [OF this] None assms(2) specs show ?thesis
      by (auto simp: hidden_iteration_def single_next_open [OF specs] single_next_open [OF sp] Let_def)
  qed
qed

lemma drain_append:
  assumes "plain_spec spec" "single_tag spec p"
  shows "drain (p\<lparr>pending := pending p @ t\<rparr>) = then_drain (drain p) t"
  using assms(2)
proof (induction "length (pending p)" arbitrary: p rule: less_induct)
  case less
  let ?p = "p\<lparr>pending := pending p @ t\<rparr>"
  obtain cont q piece where i: "hidden_iteration p = (cont, q, piece)" by (metis prod_cases3)
  have ok: "parser_ok p" "parser_ok ?p" using single_tag_ok [OF assms(1)] less.prems by simp_all
  have q: "single_tag spec q" using single_tag_iteration [OF less.prems i] .
  show ?case
  proof (cases cont)
    case True
    have "hidden_iteration ?p = (True, q\<lparr>pending := pending q @ t\<rparr>, piece)"
      using continue_then_more [OF less.prems] i True by simp
    moreover have "drain (q\<lparr>pending := pending q @ t\<rparr>) = then_drain (drain q) t"
      using less.hyps [OF _ q] hidden_iteration_step(3) [OF ok(1) i True] by blast
    ultimately show ?thesis
      using i True drain_unfold [OF ok(1)] drain_unfold [OF ok(2)]
      by (simp add: append_chunk_assoc split: prod.split)
  next
    case False
    then have "hidden_iteration p = (False, q, piece)" using i by simp
    then obtain c r rest where more: "hidden_iteration ?p = (c, r, append_chunk piece rest)"
      "hidden_iteration (q\<lparr>pending := pending q @ t\<rparr>) = (c, r, rest)"
      by (rule stop_then_iterate [OF assms(1) less.prems])
    have okq: "parser_ok (q\<lparr>pending := pending q @ t\<rparr>)" using single_tag_ok [OF assms(1)] q by simp
    show ?thesis
      using i False more drain_unfold [OF ok(1)] drain_unfold [OF ok(2)] drain_unfold [OF okq]
      by (cases c) (simp_all add: append_chunk_assoc split: prod.split)
  qed
qed

text \<open>What a push leaves pending cannot be flushed yet.\<close>

lemma drain_stable:
  assumes "plain_spec spec" "single_tag spec p" "drain p = (q, piece)"
  shows "drain q = (q, empty_text_chunk)"
proof -
  obtain r rest where r: "drain q = (r, rest)" by fastforce
  have "drain p = then_drain (drain p) []" using drain_append [OF assms(1,2), of "[]"] by simp
  with assms(3) r have "q = r" "piece = append_chunk piece rest" by simp_all
  then show ?thesis using r by (cases piece, cases rest) (simp add: append_chunk_def empty_text_chunk_def)
qed

section \<open>Citations in a stream\<close>

definition citation_tag :: "unit inline_tag_spec" where
  "citation_tag = \<lparr>spec_tag = (), open_delim = CITATION_OPEN, close_delim = CITATION_CLOSE\<rparr>"

lemma citation_tag_plain: "plain_spec citation_tag"
  by (simp add: plain_spec_def citation_tag_def CITATION_OPEN_def CITATION_CLOSE_def ascii_def)

definition citation_inv :: "citation_parser \<Rightarrow> bool" where
  "citation_inv p \<longleftrightarrow> single_tag citation_tag p \<and> drain p = (p, empty_text_chunk)"

definition citation_feed :: "citation_parser \<Rightarrow> string \<Rightarrow> citation_parser \<times> string stream_text_chunk" where
  "citation_feed p chunk = the (citation_push_str p chunk)"

lemma citation_push_drain:
  assumes "single_tag citation_tag p"
  shows "citation_push_str p chunk =
    Some (case drain (p\<lparr>pending := pending p @ chunk\<rparr>) of (q, piece) \<Rightarrow> (q, map_citations piece))"
  using hidden_push_drain [OF single_tag_ok [OF citation_tag_plain assms]] by (simp add: citation_push_str_def)

lemma map_citations_append: "map_citations (append_chunk a b) = append_chunk (map_citations a) (map_citations b)"
  by (simp add: map_citations_def append_chunk_def)

lemma map_citations_empty: "map_citations empty_text_chunk = empty_text_chunk"
  by (simp add: map_citations_def empty_text_chunk_def)

interpretation citations: transducer citation_feed append_chunk empty_text_chunk "\<lambda>_. True" citation_inv
proof
  fix p a b
  assume inv: "citation_inv p"
  then have single: "single_tag citation_tag p" by (simp add: citation_inv_def)
  obtain q piece where q: "drain (p\<lparr>pending := pending p @ a\<rparr>) = (q, piece)" by fastforce
  have sq: "single_tag citation_tag q" using single_tag_drain [OF citation_tag_plain _ q] single by simp
  obtain r rest where r: "drain (q\<lparr>pending := pending q @ b\<rparr>) = (r, rest)" by fastforce
  have "drain (p\<lparr>pending := pending p @ a @ b\<rparr>) = (r, append_chunk piece rest)"
    using drain_append [OF citation_tag_plain, of "p\<lparr>pending := pending p @ a\<rparr>" b] single q r by simp
  with q r show "citation_feed p (a @ b) =
      (let (s1, o1) = citation_feed p a; (s2, o2) = citation_feed s1 b in (s2, append_chunk o1 o2))"
    by (simp add: citation_feed_def citation_push_drain [OF single] citation_push_drain [OF sq] map_citations_append)
  show "citation_inv (fst (citation_feed p a))"
    using q sq drain_stable [OF citation_tag_plain _ q] single
    by (simp add: citation_feed_def citation_push_drain [OF single] citation_inv_def)
next
  fix p :: citation_parser
  assume "citation_inv p"
  then show "citation_feed p [] = (p, empty_text_chunk)"
    by (simp add: citation_feed_def citation_push_drain citation_inv_def map_citations_empty)
qed simp_all

lemma citation_inv_new: "citation_inv citation_new"
proof -
  have single: "single_tag citation_tag citation_new"
    by (simp add: single_tag_def citation_new_def citation_tag_def)
  have "hidden_iteration citation_new = (False, citation_new, empty_text_chunk)" by code_simp
  then show ?thesis
    using single drain_unfold [OF single_tag_ok [OF citation_tag_plain single]]
    by (simp add: citation_inv_def)
qed

text \<open>
  The specification on the complete text: citations are the pieces between an opening tag and the
  next closing tag (or the end); everything else is visible.
\<close>

function citation_spec :: "string \<Rightarrow> string \<times> string list" where
  "citation_spec s =
     (case find_sub CITATION_OPEN s of
        None \<Rightarrow> (s, [])
      | Some i \<Rightarrow>
          (let rest = drop (i + length CITATION_OPEN) s
           in case find_sub CITATION_CLOSE rest of
                None \<Rightarrow> (take i s, [rest])
              | Some j \<Rightarrow>
                  (let (v, cs) = citation_spec (drop (j + length CITATION_CLOSE) rest)
                   in (take i s @ v, take j rest # cs))))"
  by pat_completeness auto
termination
proof (relation "measure length")
  fix s i rest j
  assume "find_sub CITATION_OPEN s = Some i" "rest = drop (i + length CITATION_OPEN) s"
    "find_sub CITATION_CLOSE rest = Some j"
  then show "(drop (j + length CITATION_CLOSE) rest, s) \<in> measure length"
    using find_sub_consumes [of CITATION_OPEN s i] by (auto simp: CITATION_OPEN_def)
qed simp

declare citation_spec.simps [simp del]

text \<open>Drain the pending text and finish.\<close>

definition complete :: "citation_parser \<Rightarrow> string \<times> string list" where
  "complete p =
     (case drain p of (q, piece) \<Rightarrow>
        (case citation_finish q of (_, tail) \<Rightarrow>
           (visible_text piece @ visible_text tail, map content_of (extracted piece) @ extracted tail)))"

lemma complete_step:
  assumes "parser_ok p" "hidden_iteration p = (True, q, piece)"
  shows "complete p = (visible_text piece @ fst (complete q), map content_of (extracted piece) @ snd (complete q))"
  using drain_unfold [OF assms(1)] assms(2)
  by (simp add: complete_def append_chunk_def split: prod.split)

lemma complete_stop:
  assumes "parser_ok p" "hidden_iteration p = (False, q, piece)"
  shows "complete p = (visible_text piece @ visible_text (snd (citation_finish q)),
    map content_of (extracted piece) @ extracted (snd (citation_finish q)))"
  using drain_unfold [OF assms(1)] assms(2) by (simp add: complete_def split: prod.split)

lemma complete_spec:
  assumes "single_tag citation_tag p" "active p = None"
  shows "complete p = citation_spec (pending p)"
  using assms
proof (induction "length (pending p)" arbitrary: p rule: less_induct)
  case less
  note specs = less.prems(1) [unfolded single_tag_def, THEN conjunct1]
  note ok = single_tag_ok [OF citation_tag_plain]
  show ?case
  proof (cases "find_sub CITATION_OPEN (pending p)")
    case None
    have "hidden_iteration p = (False, p\<lparr>pending := drop n (pending p)\<rparr>,
        \<lparr>visible_text = take n (pending p), extracted = []\<rparr>)"
      if "n = length (pending p) - max_open_prefix_suffix_len p" for n
      using None less.prems(2) that
      by (simp add: hidden_iteration_def single_next_open [OF specs] citation_tag_def
          drain_visible_to_suffix_match_def Let_def)
    from complete_stop [OF ok [OF less.prems(1)] this [OF refl]] None less.prems(2) show ?thesis
      by (simp add: citation_spec.simps [of "pending p"] citation_finish_def hidden_finish_def map_citations_def)
  next
    case (Some i)
    let ?rest = "drop (i + length CITATION_OPEN) (pending p)"
    let ?q = "p\<lparr>pending := ?rest, active := Some \<lparr>active_tag = (), active_close = CITATION_CLOSE, active_content = []\<rparr>\<rparr>"
    have it: "hidden_iteration p = (True, ?q, \<lparr>visible_text = take i (pending p), extracted = []\<rparr>)"
      using Some less.prems(2) specs
      by (simp add: hidden_iteration_def single_next_open [OF specs] citation_tag_def)
    have sq: "single_tag citation_tag ?q" using specs by (simp add: single_tag_def citation_tag_def)
    show ?thesis
    proof (cases "find_sub CITATION_CLOSE ?rest")
      case None
      let ?n = "length ?rest - longest_suffix_prefix_len ?rest CITATION_CLOSE"
      have "hidden_iteration ?q = (False, ?q\<lparr>active := Some \<lparr>active_tag = (), active_close = CITATION_CLOSE,
          active_content = take ?n ?rest\<rparr>, pending := drop ?n ?rest\<rparr>, empty_text_chunk)"
        using None by (simp add: hidden_iteration_def Let_def)
      from complete_stop [OF ok [OF sq] this] complete_step [OF ok [OF less.prems(1)] it] None Some
      show ?thesis
        by (simp add: citation_spec.simps [of "pending p"] citation_finish_def hidden_finish_def
            map_citations_def empty_text_chunk_def Let_def del: drop_drop)
    next
      case (Some j)
      let ?r = "p\<lparr>active := None, pending := drop (j + length CITATION_CLOSE) ?rest\<rparr>"
      have it2: "hidden_iteration ?q = (True, ?r, \<lparr>visible_text = [], extracted =
          [\<lparr>tag_of = (), content_of = take j ?rest\<rparr>]\<rparr>)"
        using Some by (simp add: hidden_iteration_def del: drop_drop)
      have sr: "single_tag citation_tag ?r" using specs by (simp add: single_tag_def)
      have "length (pending ?r) < length (pending p)"
        using find_sub_consumes [OF \<open>find_sub CITATION_OPEN (pending p) = Some i\<close>]
        by (simp add: CITATION_OPEN_def)
      from less.hyps [OF this sr] have "complete ?r = citation_spec (drop (j + length CITATION_CLOSE) ?rest)"
        by (simp del: drop_drop)
      with complete_step [OF ok [OF less.prems(1)] it] complete_step [OF ok [OF sq] it2] Some
        \<open>find_sub CITATION_OPEN (pending p) = Some i\<close>
      show ?thesis
        by (simp add: citation_spec.simps [of "pending p"] Let_def case_prod_beta del: drop_drop)
    qed
  qed
qed

section \<open>Properties\<close>

lemma complete_feed:
  assumes "citation_inv p" "citation_feed p s = (q, piece)"
  shows "(visible_text piece @ visible_text (snd (citation_finish q)),
      extracted piece @ extracted (snd (citation_finish q))) = complete (p\<lparr>pending := pending p @ s\<rparr>)"
proof -
  have single: "single_tag citation_tag p" using assms(1) by (simp add: citation_inv_def)
  from assms(2) show ?thesis
    by (auto simp: citation_feed_def citation_push_drain [OF single] complete_def map_citations_def
        split: prod.splits)
qed

lemma citation_feed_complete:
  "let (p, out) = feed_chunks citation_feed append_chunk empty_text_chunk citation_new pieces;
       (_, tail) = citation_finish p
   in (visible_text out @ visible_text tail, extracted out @ extracted tail) = citation_spec (concat pieces)"
proof -
  obtain p out where f: "feed_chunks citation_feed append_chunk empty_text_chunk citation_new pieces = (p, out)"
    by fastforce
  have "citation_feed citation_new (concat pieces) = (p, out)"
    using citations.feed_chunks_concat [OF citation_inv_new, of pieces] f by (simp add: list_all_iff)
  from complete_feed [OF citation_inv_new this] f show ?thesis
    using complete_spec [of "citation_new\<lparr>pending := concat pieces\<rparr>"] citation_inv_new
    by (simp add: citation_inv_def case_prod_beta) (simp add: citation_new_def)
qed

text \<open>A stream of pieces; \<open>None\<close> if the loop of some call does not end.\<close>

fun citation_run :: "citation_parser \<Rightarrow> string list \<Rightarrow> (citation_parser \<times> string stream_text_chunk) option" where
  "citation_run p [] = Some (p, empty_text_chunk)"
| "citation_run p (c # cs) =
     (case citation_push_str p c of
        None \<Rightarrow> None
      | Some (q, out) \<Rightarrow> map_option (\<lambda>(r, rest). (r, append_chunk out rest)) (citation_run q cs))"

lemma citation_run_feed:
  "citation_inv p \<Longrightarrow> citation_run p pieces = Some (feed_chunks citation_feed append_chunk empty_text_chunk p pieces)"
proof (induction pieces arbitrary: p)
  case (Cons c cs)
  obtain q out where q: "citation_push_str p c = Some (q, out)"
    using citation_push_drain [of p c] Cons.prems by (auto simp: citation_inv_def split: prod.splits)
  then have feed: "citation_feed p c = (q, out)" by (simp add: citation_feed_def)
  then have "citation_inv q" using citations.feed_inv [OF Cons.prems, of c] by simp
  with Cons.IH q feed show ?case by (simp add: case_prod_beta)
qed simp

text \<open>C29: streaming a text through the citation parser, in whatever pieces, ends, and finishing it
  yields the visible text and the citations of the whole text: a tag cut in two by a piece boundary
  is recognised and no visible byte is lost, repeated or held back for good.\<close>

theorem citation_stream_correct:
  "\<exists>p out. citation_run citation_new pieces = Some (p, out) \<and>
     (let (_, tail) = citation_finish p
      in (visible_text out @ visible_text tail, extracted out @ extracted tail)) = citation_spec (concat pieces)"
  using citation_feed_complete [of pieces] citation_run_feed [OF citation_inv_new, of pieces]
  by (cases "feed_chunks citation_feed append_chunk empty_text_chunk citation_new pieces")
     (simp add: case_prod_beta)

text \<open>The one-shot helper returns, and returns the visible text and the citations.\<close>

theorem strip_citations_correct: "strip_citations s = Some (citation_spec s)"
proof -
  have single: "single_tag citation_tag citation_new" using citation_inv_new by (simp add: citation_inv_def)
  obtain p out where p: "citation_push_str citation_new s = Some (p, out)"
    using citation_push_drain [OF single, of s] by (auto split: prod.splits)
  then have "citation_feed citation_new s = (p, out)" by (simp add: citation_feed_def)
  from complete_feed [OF citation_inv_new this] p show ?thesis
    using complete_spec [of "citation_new\<lparr>pending := s\<rparr>"] single
    by (simp add: strip_citations_def case_prod_beta) (simp add: citation_new_def)
qed

definition overlapping_specs :: "nat inline_tag_spec list" where
  "overlapping_specs = [\<lparr>spec_tag = 1, open_delim = ''<a>'', close_delim = ''</a>''\<rparr>,
     \<lparr>spec_tag = 2, open_delim = ''<a>b'', close_delim = ''</a>''\<rparr>]"

definition overlapping_parser :: "nat hidden_tag_parser" where
  "overlapping_parser = \<lparr>tag_specs = overlapping_specs, pending = [], active = None\<rparr>"

definition tags_found :: "('t hidden_tag_parser \<times> 't extracted_tag stream_text_chunk) option \<Rightarrow> 't list" where
  "tags_found r = (case r of Some (_, c) \<Rightarrow> map tag_of (extracted c) | None \<Rightarrow> [])"

text \<open>With several kinds of tags the result depends on the cuts: for the delimiters
  <a> and <a>b the longer one wins when they arrive together, the shorter one when the text is
  cut after it.\<close>

theorem overlapping_tags_depend_on_cuts:
  "tags_found (hidden_push_str overlapping_parser ''<a>bx</a>'') = [2] \<and>
   tags_found (Option.bind (hidden_push_str overlapping_parser ''<a>'') (\<lambda>(p, _). hidden_push_str p ''bx</a>'')) = [1]"
  by code_simp

end
