(* ===== verification/Plan_Stream.thy ===== *)
theory Plan_Stream
  imports Inline_Tag
begin

text \<open>
  The line-based tag parser, \<^verbatim>\<open>utils/stream-parser/src/tagged_line_parser.rs\<close>, its use for
  proposed plans (\<^verbatim>\<open>proposed_plan.rs\<close>) and the parser of assistant text that combines both
  stream parsers (\<^verbatim>\<open>assistant_text.rs\<close>).

  A line is held back while it can still become a tag that stands alone on its line. Segments of the
  same kind are merged within one call; over several calls they are the same after merging
  (\<open>push_segment\<close>), which is how the results of two calls are combined here.
\<close>

section \<open>Tagged lines\<close>

record 't tag_spec =
  line_open :: string
  line_close :: string
  line_tag :: 't

datatype 't line_segment =
    Normal string
  | TagStart 't
  | TagDelta 't string
  | TagEnd 't

record 't tagged_line_parser =
  line_specs :: "'t tag_spec list"
  active_line_tag :: "'t option"
  detect_tag :: bool
  tag_buffer :: string

definition tagged_new :: "'t tag_spec list \<Rightarrow> 't tagged_line_parser" where
  "tagged_new specs = \<lparr>line_specs = specs, active_line_tag = None, detect_tag = True, tag_buffer = []\<rparr>"

fun push_segment :: "'t line_segment list \<Rightarrow> 't line_segment \<Rightarrow> 't line_segment list" where
  "push_segment segs (Normal delta) =
     (if delta = [] then segs
      else case (if segs = [] then None else Some (last segs)) of
        Some (Normal existing) \<Rightarrow> butlast segs @ [Normal (existing @ delta)]
      | _ \<Rightarrow> segs @ [Normal delta])"
| "push_segment segs (TagDelta t delta) =
     (if delta = [] then segs
      else case (if segs = [] then None else Some (last segs)) of
        Some (TagDelta t' existing) \<Rightarrow>
          if t' = t then butlast segs @ [TagDelta t (existing @ delta)] else segs @ [TagDelta t delta]
      | _ \<Rightarrow> segs @ [TagDelta t delta])"
| "push_segment segs seg = segs @ [seg]"

definition text_segment :: "'t tagged_line_parser \<Rightarrow> string \<Rightarrow> 't line_segment" where
  "text_segment p text = (case active_line_tag p of Some t \<Rightarrow> TagDelta t text | None \<Rightarrow> Normal text)"

definition push_text :: "'t tagged_line_parser \<Rightarrow> string \<Rightarrow> 't line_segment list \<Rightarrow> 't line_segment list" where
  "push_text p text segs = push_segment segs (text_segment p text)"

definition is_tag_prefix :: "'t tagged_line_parser \<Rightarrow> string \<Rightarrow> bool" where
  "is_tag_prefix p slug \<longleftrightarrow>
     list_ex (\<lambda>spec. prefix (trim_end slug) (line_open spec) \<or> prefix (trim_end slug) (line_close spec)) (line_specs p)"

definition match_open :: "'t tagged_line_parser \<Rightarrow> string \<Rightarrow> 't option" where
  "match_open p slug = map_option line_tag (find (\<lambda>spec. line_open spec = slug) (line_specs p))"

definition match_close :: "'t tagged_line_parser \<Rightarrow> string \<Rightarrow> 't option" where
  "match_close p slug = map_option line_tag (find (\<lambda>spec. line_close spec = slug) (line_specs p))"

definition line_slug :: "string \<Rightarrow> string" where
  "line_slug line =
     trim_end (trim_start (case strip_suffix [newline] line of Some l \<Rightarrow> l | None \<Rightarrow> line))"

text \<open>A complete line: the tag it opens or closes, or its text.\<close>

definition line_event :: "'t tagged_line_parser \<Rightarrow> string \<Rightarrow> 't tagged_line_parser \<times> 't line_segment" where
  "line_event p line =
     (case (match_open p (line_slug line), active_line_tag p) of
        (Some t, None) \<Rightarrow> (p\<lparr>active_line_tag := Some t\<rparr>, TagStart t)
      | _ \<Rightarrow>
          (case match_close p (line_slug line) of
             Some t \<Rightarrow>
               if active_line_tag p = Some t then (p\<lparr>active_line_tag := None\<rparr>, TagEnd t)
               else (p, text_segment p line)
           | None \<Rightarrow> (p, text_segment p line)))"

definition finish_tag_line ::
  "'t tagged_line_parser \<Rightarrow> 't line_segment list \<Rightarrow> 't tagged_line_parser \<times> 't line_segment list" where
  "finish_tag_line p segs =
     (case line_event (p\<lparr>tag_buffer := [], detect_tag := True\<rparr>) (tag_buffer p) of
        (q, seg) \<Rightarrow> (q, push_segment segs seg))"

text \<open>One character of \<open>parse\<close>: the parser, the current run of plain text, the segments.\<close>

definition tagged_char ::
  "'t tagged_line_parser \<times> string \<times> 't line_segment list \<Rightarrow> string
     \<Rightarrow> 't tagged_line_parser \<times> string \<times> 't line_segment list" where
  "tagged_char st ch =
     (case st of (p, run, segs) \<Rightarrow>
        if detect_tag p then
          (let segs1 = (if run \<noteq> [] then push_text p run segs else segs);
               p1 = p\<lparr>tag_buffer := tag_buffer p @ ch\<rparr>;
               slug = trim_start (tag_buffer p1)
           in if ch = [newline] then (case finish_tag_line p1 segs1 of (q, segs2) \<Rightarrow> (q, [], segs2))
              else if slug = [] \<or> is_tag_prefix p1 slug then (p1, [], segs1)
              else (p1\<lparr>tag_buffer := [], detect_tag := False\<rparr>, [], push_text p1 (tag_buffer p1) segs1))
        else if ch = [newline] then (p\<lparr>detect_tag := True\<rparr>, [], push_text p (run @ ch) segs)
        else (p, run @ ch, segs))"

definition tagged_parse :: "'t tagged_line_parser \<Rightarrow> string \<Rightarrow> 't tagged_line_parser \<times> 't line_segment list" where
  "tagged_parse p delta =
     (case foldl tagged_char (p, [], []) (chars delta) of
        (q, run, segs) \<Rightarrow> (q, if run \<noteq> [] then push_text q run segs else segs))"

definition tagged_finish :: "'t tagged_line_parser \<Rightarrow> 't tagged_line_parser \<times> 't line_segment list" where
  "tagged_finish p =
     (let (q, segs) = (if tag_buffer p = [] then (p, [])
                       else case line_event (p\<lparr>tag_buffer := []\<rparr>) (tag_buffer p) of
                              (q, seg) \<Rightarrow> (q, push_segment [] seg));
          segs' = (case active_line_tag q of Some t \<Rightarrow> push_segment segs (TagEnd t) | None \<Rightarrow> segs)
      in (q\<lparr>active_line_tag := None, detect_tag := True\<rparr>, segs'))"

section \<open>Proposed plans\<close>

definition OPEN_TAG :: string where "OPEN_TAG = ''<proposed_plan>''"
definition CLOSE_TAG :: string where "CLOSE_TAG = ''</proposed_plan>''"

datatype plan_segment =
    PlanNormal string | ProposedPlanStart | ProposedPlanDelta string | ProposedPlanEnd

type_synonym plan_parser = "unit tagged_line_parser"

definition plan_new :: plan_parser where
  "plan_new = tagged_new [\<lparr>line_open = OPEN_TAG, line_close = CLOSE_TAG, line_tag = ()\<rparr>]"

fun map_segment :: "unit line_segment \<Rightarrow> plan_segment" where
  "map_segment (Normal text) = PlanNormal text"
| "map_segment (TagStart _) = ProposedPlanStart"
| "map_segment (TagDelta _ text) = ProposedPlanDelta text"
| "map_segment (TagEnd _) = ProposedPlanEnd"

fun visible_of :: "plan_segment \<Rightarrow> string" where
  "visible_of (PlanNormal text) = text"
| "visible_of _ = []"

definition map_segments :: "unit line_segment list \<Rightarrow> plan_segment stream_text_chunk" where
  "map_segments segs =
     \<lparr>visible_text = concat (map (visible_of \<circ> map_segment) segs), extracted = map map_segment segs\<rparr>"

definition plan_push_str :: "plan_parser \<Rightarrow> string \<Rightarrow> plan_parser \<times> plan_segment stream_text_chunk" where
  "plan_push_str p chunk = (case tagged_parse p chunk of (q, segs) \<Rightarrow> (q, map_segments segs))"

definition plan_finish :: "plan_parser \<Rightarrow> plan_parser \<times> plan_segment stream_text_chunk" where
  "plan_finish p = (case tagged_finish p of (q, segs) \<Rightarrow> (q, map_segments segs))"

definition strip_proposed_plan_blocks :: "string \<Rightarrow> string" where
  "strip_proposed_plan_blocks s =
     (let (p, out) = plan_push_str plan_new s; (_, tail) = plan_finish p
      in visible_text out @ visible_text tail)"

fun plan_text_step :: "bool \<times> string \<Rightarrow> plan_segment \<Rightarrow> bool \<times> string" where
  "plan_text_step (saw, text) ProposedPlanStart = (True, [])"
| "plan_text_step (saw, text) (ProposedPlanDelta delta) = (saw, text @ delta)"
| "plan_text_step st _ = st"

definition extract_proposed_plan_text :: "string \<Rightarrow> string option" where
  "extract_proposed_plan_text s =
     (let (p, out) = plan_push_str plan_new s; (_, tail) = plan_finish p;
          (saw, text) = foldl plan_text_step (False, []) (extracted out @ extracted tail)
      in if saw then Some text else None)"

section \<open>Assistant text\<close>

record assistant_text_chunk =
  assistant_visible :: string
  assistant_citations :: "string list"
  plan_segments :: "plan_segment list"

record assistant_parser =
  plan_mode :: bool
  citation_part :: citation_parser
  plan_part :: plan_parser

definition assistant_new :: "bool \<Rightarrow> assistant_parser" where
  "assistant_new mode = \<lparr>plan_mode = mode, citation_part = citation_new, plan_part = plan_new\<rparr>"

definition parse_visible_text :: "assistant_parser \<Rightarrow> string \<Rightarrow> assistant_parser \<times> assistant_text_chunk" where
  "parse_visible_text p visible =
     (if plan_mode p then
        (case plan_push_str (plan_part p) visible of (q, c) \<Rightarrow>
           (p\<lparr>plan_part := q\<rparr>, \<lparr>assistant_visible = visible_text c, assistant_citations = [], plan_segments = extracted c\<rparr>))
      else (p, \<lparr>assistant_visible = visible, assistant_citations = [], plan_segments = []\<rparr>))"

definition assistant_push_str :: "assistant_parser \<Rightarrow> string \<Rightarrow> (assistant_parser \<times> assistant_text_chunk) option" where
  "assistant_push_str p chunk =
     (case citation_push_str (citation_part p) chunk of
        None \<Rightarrow> None
      | Some (cp, c) \<Rightarrow>
          (case parse_visible_text (p\<lparr>citation_part := cp\<rparr>) (visible_text c) of (q, out) \<Rightarrow>
             Some (q, out\<lparr>assistant_citations := extracted c\<rparr>)))"

definition assistant_finish :: "assistant_parser \<Rightarrow> assistant_parser \<times> assistant_text_chunk" where
  "assistant_finish p =
     (let (cp, c) = citation_finish (citation_part p);
          (q, out) = parse_visible_text (p\<lparr>citation_part := cp\<rparr>) (visible_text c);
          (r, out') =
            (if plan_mode q then
               (case plan_finish (plan_part q) of (pp, tail) \<Rightarrow>
                  (q\<lparr>plan_part := pp\<rparr>,
                   if text_chunk_is_empty tail then out
                   else out\<lparr>assistant_visible := assistant_visible out @ visible_text tail,
                            plan_segments := plan_segments out @ extracted tail\<rparr>))
             else (q, out))
      in (r, out'\<lparr>assistant_citations := extracted c\<rparr>))"

section \<open>Merging segments\<close>

abbreviation merge :: "'t line_segment list \<Rightarrow> 't line_segment list \<Rightarrow> 't line_segment list" where
  "merge \<equiv> foldl push_segment"

lemma push_segment_normal:
  "push_segment (push_segment segs (Normal a)) (Normal b) = push_segment segs (Normal (a @ b))"
proof (cases segs rule: rev_cases)
  case (snoc init x)
  then show ?thesis by (cases x) (simp_all add: butlast_append)
qed simp

lemma push_segment_delta:
  "push_segment (push_segment segs (TagDelta t a)) (TagDelta t b) = push_segment segs (TagDelta t (a @ b))"
proof (cases segs rule: rev_cases)
  case (snoc init x)
  then show ?thesis by (cases x) (simp_all add: butlast_append)
qed simp

lemmas push_segment_text = push_segment_normal push_segment_delta

lemma push_segment_snoc:
  "push_segment segs seg = segs @ [seg] \<or> push_segment segs seg = segs \<and> (\<forall>x. push_segment x seg = x) \<or>
   (\<exists>init a b. segs = init @ [Normal a] \<and> seg = Normal b \<and> push_segment segs seg = init @ [Normal (a @ b)]) \<or>
   (\<exists>init t a b. segs = init @ [TagDelta t a] \<and> seg = TagDelta t b \<and>
      push_segment segs seg = init @ [TagDelta t (a @ b)])"
proof (cases segs rule: rev_cases)
  case Nil
  then show ?thesis by (cases seg) auto
next
  case (snoc init x)
  then show ?thesis by (cases seg; cases x) auto
qed

lemma merge_push: "merge base (push_segment segs seg) = push_segment (merge base segs) seg"
  using push_segment_snoc [of segs seg]
  by (elim disjE exE conjE) (simp_all only: foldl_append foldl.simps push_segment_text)

lemma merge_merge: "merge base (merge [] segs) = merge base segs"
  by (induction segs rule: rev_induct) (simp_all add: merge_push)

lemma merge_assoc: "merge (merge a b) c = merge a (merge b c)"
  by (induction c rule: rev_induct) (simp_all add: merge_push)

lemma push_text_append:
  "push_text p (a @ b) segs = push_text p b (push_text p a segs)"
  by (cases "active_line_tag p") (simp_all only: push_text_def text_segment_def option.case push_segment_text)

lemma push_text_empty [simp]: "push_text p [] segs = segs"
  by (simp add: push_text_def text_segment_def split: option.split)

lemma push_empty_text [simp]: "push_segment segs (text_segment p []) = segs"
  using push_text_empty [of p segs] by (simp only: push_text_def)

section \<open>The events of a character\<close>

text \<open>
  What one character does to the parser and which segments it emits, independently of how the
  run of plain text is buffered.
\<close>

definition char_event :: "'t tagged_line_parser \<Rightarrow> string \<Rightarrow> 't tagged_line_parser \<times> 't line_segment list" where
  "char_event p ch =
     (let p1 = p\<lparr>tag_buffer := tag_buffer p @ ch\<rparr>; slug = trim_start (tag_buffer p1)
      in if \<not> detect_tag p then (p\<lparr>detect_tag := (ch = [newline])\<rparr>, [text_segment p ch])
         else if ch = [newline]
         then (case line_event (p1\<lparr>tag_buffer := [], detect_tag := True\<rparr>) (tag_buffer p1) of (q, seg) \<Rightarrow> (q, [seg]))
         else if slug = [] \<or> is_tag_prefix p1 slug then (p1, [])
         else (p1\<lparr>tag_buffer := [], detect_tag := False\<rparr>, [text_segment p1 (tag_buffer p1)]))"

fun char_events :: "'t tagged_line_parser \<Rightarrow> string list \<Rightarrow> 't tagged_line_parser \<times> 't line_segment list" where
  "char_events p [] = (p, [])"
| "char_events p (ch # cs) =
     (let (q, a) = char_event p ch; (r, b) = char_events q cs in (r, a @ b))"

lemma char_events_append:
  "char_events p (xs @ ys) = (let (q, a) = char_events p xs; (r, b) = char_events q ys in (r, a @ b))"
  by (induction xs arbitrary: p) (simp_all add: case_prod_beta Let_def)

definition run_ok :: "'t tagged_line_parser \<Rightarrow> string \<Rightarrow> bool" where
  "run_ok p run \<longleftrightarrow> (detect_tag p \<longrightarrow> run = [])"

lemma tagged_char_event:
  assumes "run_ok p run" "tagged_char (p, run, segs) ch = (q, run', segs')"
  shows "run_ok q run' \<and> fst (char_event p ch) = q \<and>
    push_text q run' segs' = merge (push_text p run segs) (snd (char_event p ch))"
proof (cases "detect_tag p")
  case True
  with assms(1) have "run = []" by (simp add: run_ok_def)
  with assms(2) True show ?thesis
    by (auto simp: tagged_char_def char_event_def Let_def run_ok_def finish_tag_line_def push_text_def
        split: if_splits prod.splits) 
next
  case False
  have t: "text_segment (p\<lparr>detect_tag := x\<rparr>) s = text_segment p s" for x s by (simp add: text_segment_def)
  from False assms show ?thesis
    using push_text_append [of p run ch segs]
    by (auto simp: tagged_char_def char_event_def Let_def run_ok_def push_text_def t split: if_splits)
qed

lemma tagged_chars_events:
  assumes "run_ok p run" "foldl tagged_char (p, run, segs) cs = (q, run', segs')"
  shows "run_ok q run' \<and> fst (char_events p cs) = q \<and>
    push_text q run' segs' = merge (push_text p run segs) (snd (char_events p cs))"
  using assms
proof (induction cs arbitrary: p run segs)
  case (Cons ch cs)
  obtain p1 run1 segs1 where st: "tagged_char (p, run, segs) ch = (p1, run1, segs1)" by (metis prod_cases3)
  note e = tagged_char_event [OF Cons.prems(1) st]
  with Cons.prems(2) st Cons.IH [of p1 run1 segs1] show ?case
    by (simp add: case_prod_beta Let_def)
qed simp

text \<open>A call of \<open>parse\<close> emits the merged events of its characters.\<close>

lemma tagged_parse_events:
  "tagged_parse p delta = (case char_events p (chars delta) of (q, es) \<Rightarrow> (q, merge [] es))"
proof -
  obtain q run segs where f: "foldl tagged_char (p, [], []) (chars delta) = (q, run, segs)"
    by (metis prod_cases3)
  then show ?thesis
    using tagged_chars_events [OF _ f] by (auto simp: tagged_parse_def run_ok_def split: prod.splits)
qed

interpretation tagged: transducer tagged_parse merge "[]" str_start "\<lambda>_. True"
proof
  fix p :: "'a tagged_line_parser" and a b :: string
  assume "str_start a" "str_start b"
  then show "tagged_parse p (a @ b) =
      (let (s1, o1) = tagged_parse p a; (s2, o2) = tagged_parse s1 b in (s2, merge o1 o2))"
    by (simp add: tagged_parse_events chars_append char_events_append case_prod_beta Let_def
        merge_merge flip: merge_assoc)
  show "str_start (a @ b)"
    using \<open>str_start a\<close> \<open>str_start b\<close> by (cases a) (simp_all add: str_start_def)
qed (simp_all add: tagged_parse_events str_start_def)

section \<open>Properties\<close>

text \<open>Feeding the line tag parser a text in pieces, cut at character boundaries, leaves it in
  the same state and emits the same segments, up to merging neighbouring text, as feeding the
  text at once.\<close>

theorem tagged_lines_independent_of_pieces:
  assumes "list_all str_start pieces"
  shows "feed_chunks tagged_parse (foldl push_segment) [] p pieces = tagged_parse p (concat pieces)"
  using assms by (rule tagged.feed_chunks_concat [OF TrueI])

theorem tagged_lines_independent_of_pieces_witness:
  "feed_chunks tagged_parse (foldl push_segment) [] plan_new [''<proposed'', ''_plan>'', ''x'']
     = tagged_parse plan_new (concat [''<proposed'', ''_plan>'', ''x''])"
  by (rule tagged_lines_independent_of_pieces) (simp add: str_start_def is_continuation_def)

end
