(* ===== verification/Utf8_Stream.thy ===== *)
theory Utf8_Stream
  imports Inline_Tag
begin

text \<open>
  Byte streams into text parsers, \<^verbatim>\<open>utils/stream-parser/src/utf8_stream.rs\<close>. The validation
  of \<open>core::str::from_utf8\<close> is written out: for the first code point of the input it reports the
  length, the length of the invalid sequence, or that the input ends inside the code point.
  The wrapped parser is the argument \<open>push\<close> (and \<open>fin\<close> for its \<open>finish\<close>).
\<close>

section \<open>UTF-8 validation\<close>

abbreviation byte :: "char \<Rightarrow> nat" where "byte \<equiv> of_char"

definition utf8_width :: "char \<Rightarrow> nat" where
  "utf8_width b =
     (if byte b < 0x80 then 1
      else if 0xC2 \<le> byte b \<and> byte b \<le> 0xDF then 2
      else if 0xE0 \<le> byte b \<and> byte b \<le> 0xEF then 3
      else if 0xF0 \<le> byte b \<and> byte b \<le> 0xF4 then 4
      else 0)"

definition second_ok :: "char \<Rightarrow> char \<Rightarrow> bool" where
  "second_ok b c \<longleftrightarrow>
     (if byte b = 0xE0 then 0xA0 \<le> byte c \<and> byte c \<le> 0xBF
      else if byte b = 0xED then 0x80 \<le> byte c \<and> byte c \<le> 0x9F
      else if byte b = 0xF0 then 0x90 \<le> byte c \<and> byte c \<le> 0xBF
      else if byte b = 0xF4 then 0x80 \<le> byte c \<and> byte c \<le> 0x8F
      else is_continuation c)"

datatype first_result = ValidChar nat | InvalidChar nat | IncompleteChar

text \<open>The bytes after the second one: each has to be a continuation byte.\<close>

fun check_tail :: "nat \<Rightarrow> nat \<Rightarrow> string \<Rightarrow> first_result" where
  "check_tail seen 0 s = ValidChar seen"
| "check_tail seen (Suc n) [] = IncompleteChar"
| "check_tail seen (Suc n) (c # s) =
     (if is_continuation c then check_tail (Suc seen) n s else InvalidChar seen)"

fun utf8_first :: "string \<Rightarrow> first_result" where
  "utf8_first [] = IncompleteChar"
| "utf8_first (b # s) =
     (if utf8_width b = 0 then InvalidChar 1
      else if utf8_width b = 1 then ValidChar 1
      else case s of
        [] \<Rightarrow> IncompleteChar
      | c # s' \<Rightarrow> if second_ok b c then check_tail 2 (utf8_width b - 2) s' else InvalidChar 1)"

lemma check_tail_Valid: "check_tail seen n s = ValidChar m \<Longrightarrow> m = seen + n \<and> n \<le> length s"
  by (induction seen n s rule: check_tail.induct) (auto split: if_splits)

lemma utf8_first_Valid: "utf8_first s = ValidChar n \<Longrightarrow> 0 < n \<and> n \<le> length s"
  by (cases s) (auto split: if_splits list.splits dest!: check_tail_Valid)

text \<open>\<open>Utf8Error\<close>: the valid prefix, and the length of the invalid sequence unless the input ended.\<close>

datatype utf8_result = Utf8Ok | Utf8Err (valid_up_to: nat) (error_len: "nat option")

function from_utf8_at :: "nat \<Rightarrow> string \<Rightarrow> utf8_result" where
  "from_utf8_at pos s =
     (if s = [] then Utf8Ok
      else case utf8_first s of
        ValidChar n \<Rightarrow> from_utf8_at (pos + n) (drop n s)
      | InvalidChar n \<Rightarrow> Utf8Err pos (Some n)
      | IncompleteChar \<Rightarrow> Utf8Err pos None)"
  by pat_completeness auto
termination
  by (relation "measure (length \<circ> snd)") (auto dest: utf8_first_Valid)

declare from_utf8_at.simps [simp del]

definition from_utf8 :: "string \<Rightarrow> utf8_result" where
  "from_utf8 s = from_utf8_at 0 s"

section \<open>The parser\<close>

datatype utf8_stream_error = InvalidUtf8 nat nat | IncompleteUtf8AtEof

record 'p utf8_stream_parser =
  inner :: 'p
  pending_utf8 :: string

definition utf8_new :: "'p \<Rightarrow> 'p utf8_stream_parser" where
  "utf8_new p = \<lparr>inner = p, pending_utf8 = []\<rparr>"

definition utf8_push_bytes ::
  "('p \<Rightarrow> string \<Rightarrow> 'p \<times> 'x stream_text_chunk) \<Rightarrow> 'p utf8_stream_parser \<Rightarrow> string
     \<Rightarrow> 'p utf8_stream_parser \<times> (utf8_stream_error + 'x stream_text_chunk)" where
  "utf8_push_bytes push p chunk =
     (let old_len = length (pending_utf8 p);
          p1 = p\<lparr>pending_utf8 := pending_utf8 p @ chunk\<rparr>;
          rolled_back = p1\<lparr>pending_utf8 := take old_len (pending_utf8 p1)\<rparr>
      in case from_utf8 (pending_utf8 p1) of
           Utf8Ok \<Rightarrow>
             (case push (inner p1) (pending_utf8 p1) of (i, out) \<Rightarrow> (\<lparr>inner = i, pending_utf8 = []\<rparr>, Inr out))
         | Utf8Err valid (Some n) \<Rightarrow> (rolled_back, Inl (InvalidUtf8 valid n))
         | Utf8Err valid None \<Rightarrow>
             if valid = 0 then (p1, Inr empty_text_chunk)
             else (case from_utf8 (take valid (pending_utf8 p1)) of
                     Utf8Ok \<Rightarrow>
                       (case push (inner p1) (take valid (pending_utf8 p1)) of (i, out) \<Rightarrow>
                          (\<lparr>inner = i, pending_utf8 = drop valid (pending_utf8 p1)\<rparr>, Inr out))
                   | Utf8Err valid' n \<Rightarrow>
                       (rolled_back, Inl (InvalidUtf8 valid' (case n of Some k \<Rightarrow> k | None \<Rightarrow> 0)))))"

definition check_pending :: "string \<Rightarrow> utf8_stream_error + unit" where
  "check_pending bytes =
     (case from_utf8 bytes of
        Utf8Ok \<Rightarrow> Inr ()
      | Utf8Err valid (Some n) \<Rightarrow> Inl (InvalidUtf8 valid n)
      | Utf8Err valid None \<Rightarrow> Inl IncompleteUtf8AtEof)"

definition utf8_finish ::
  "('p \<Rightarrow> string \<Rightarrow> 'p \<times> 'x stream_text_chunk) \<Rightarrow> ('p \<Rightarrow> 'p \<times> 'x stream_text_chunk) \<Rightarrow> 'p utf8_stream_parser
     \<Rightarrow> 'p utf8_stream_parser \<times> (utf8_stream_error + 'x stream_text_chunk)" where
  "utf8_finish push fin p =
     (case check_pending (pending_utf8 p) of
        Inl e \<Rightarrow> (p, Inl e)
      | Inr _ \<Rightarrow>
          (let (i, out) = (if pending_utf8 p = [] then (inner p, empty_text_chunk)
                           else push (inner p) (pending_utf8 p));
               (i', tail) = fin i
           in (\<lparr>inner = i', pending_utf8 = []\<rparr>, Inr (append_chunk out tail))))"

definition utf8_into_inner :: "'p utf8_stream_parser \<Rightarrow> utf8_stream_error + 'p" where
  "utf8_into_inner p =
     (if pending_utf8 p = [] then Inr (inner p)
      else and_then (check_pending (pending_utf8 p)) (\<lambda>_. Inr (inner p)))"

definition utf8_into_inner_lossy :: "'p utf8_stream_parser \<Rightarrow> 'p" where
  "utf8_into_inner_lossy p = inner p"

section \<open>Prefixes of valid text\<close>

lemma from_utf8_at_pos:
  "from_utf8_at (pos + k) s =
     (case from_utf8_at pos s of Utf8Ok \<Rightarrow> Utf8Ok | Utf8Err v n \<Rightarrow> Utf8Err (v + k) n)"
proof (induction pos s rule: from_utf8_at.induct)
  case (1 pos s)
  show ?case
  proof (cases "utf8_first s")
    case (ValidChar n)
    have e: "pos + k + n = pos + n + k" by simp
    show ?thesis
    proof (cases "s = []")
      case False
      then show ?thesis
        using 1 [OF False ValidChar]
        by (simp only: from_utf8_at.simps [of _ s] ValidChar if_False first_result.case e)
    qed (simp add: from_utf8_at.simps [of _ "[]"])
  qed (simp_all add: from_utf8_at.simps [of _ s])
qed

lemma from_utf8_Cons:
  "from_utf8 s = (if s = [] then Utf8Ok
      else case utf8_first s of
        ValidChar n \<Rightarrow> (case from_utf8 (drop n s) of Utf8Ok \<Rightarrow> Utf8Ok | Utf8Err v m \<Rightarrow> Utf8Err (v + n) m)
      | InvalidChar n \<Rightarrow> Utf8Err 0 (Some n)
      | IncompleteChar \<Rightarrow> Utf8Err 0 None)"
proof (cases "utf8_first s")
  case (ValidChar n)
  have "from_utf8_at n (drop n s) =
      (case from_utf8_at 0 (drop n s) of Utf8Ok \<Rightarrow> Utf8Ok | Utf8Err v m \<Rightarrow> Utf8Err (v + n) m)"
    using from_utf8_at_pos [of 0 n "drop n s"] by simp
  with ValidChar show ?thesis by (simp add: from_utf8_def from_utf8_at.simps [of 0 s])
qed (simp_all add: from_utf8_def from_utf8_at.simps [of 0 s])

lemma check_tail_prefix:
  "check_tail seen n (s @ t) = ValidChar m \<Longrightarrow>
     check_tail seen n s = (if n \<le> length s then ValidChar m else IncompleteChar)"
  by (induction seen n s rule: check_tail.induct) (auto split: if_splits)

lemma utf8_first_prefix:
  assumes "utf8_first (s @ t) = ValidChar n" "s \<noteq> []"
  shows "utf8_first s = (if n \<le> length s then ValidChar n else IncompleteChar)"
proof (cases s)
  case (Cons b s')
  show ?thesis
  proof (cases s')
    case Nil
    with Cons assms(1) show ?thesis
      by (auto split: if_splits list.splits dest!: check_tail_Valid)
  next
    case (Cons c r)
    with \<open>s = b # s'\<close> assms(1) check_tail_prefix [of 2 "utf8_width b - 2" r t n]
      check_tail_Valid [of 2 "utf8_width b - 2" "r @ t" n]
    show ?thesis by (auto split: if_splits)
  qed
qed (use assms in simp)

text \<open>
  Cutting a valid text leaves a valid text and an incomplete code point that the rest
  completes.
\<close>

lemma valid_prefix_split:
  assumes "from_utf8 (s @ t) = Utf8Ok"
  shows "from_utf8 s = Utf8Ok \<and> from_utf8 t = Utf8Ok \<or>
    (\<exists>v. from_utf8 s = Utf8Err v None \<and> v < length s \<and> from_utf8 (take v s) = Utf8Ok \<and>
       from_utf8 (drop v s) = Utf8Err 0 None \<and> from_utf8 (drop v s @ t) = Utf8Ok)"
  using assms
proof (induction "length s" arbitrary: s rule: less_induct)
  case less
  show ?case
  proof (cases "s = []")
    case True
    with less.prems show ?thesis by (simp add: from_utf8_Cons [of "[]"])
  next
    case False
    with less.prems obtain n where n: "utf8_first (s @ t) = ValidChar n" "from_utf8 (drop n (s @ t)) = Utf8Ok"
      by (auto simp: from_utf8_Cons [of "s @ t"] split: first_result.splits utf8_result.splits)
    show ?thesis
    proof (cases "n \<le> length s")
      case True
      with utf8_first_prefix [OF n(1) False] have f: "utf8_first s = ValidChar n" by simp
      have "0 < n" using utf8_first_Valid [OF f] by simp
      with True n(2) less.hyps [of "drop n s"] False
      consider "from_utf8 (drop n s) = Utf8Ok" "from_utf8 t = Utf8Ok"
        | v where "from_utf8 (drop n s) = Utf8Err v None" "v < length (drop n s)"
          "from_utf8 (take v (drop n s)) = Utf8Ok" "from_utf8 (drop v (drop n s)) = Utf8Err 0 None"
          "from_utf8 (drop v (drop n s) @ t) = Utf8Ok"
        by auto
      then show ?thesis
      proof cases
        case 1
        with f False show ?thesis by (simp add: from_utf8_Cons [of s])
      next
        case (2 v)
        have "utf8_first (take (v + n) s) = ValidChar n"
          using utf8_first_prefix [of "take (v + n) s" "drop (v + n) s" n] f True \<open>0 < n\<close> False by simp
        then have "from_utf8 (take (v + n) s) = Utf8Ok"
          using 2(3) False \<open>0 < n\<close> by (simp add: from_utf8_Cons [of "take (v + n) s"] drop_take)
        then show ?thesis using 2 f False True
          by (intro disjI2 exI [of _ "v + n"]) (simp add: from_utf8_Cons [of s])
      qed
    next
      case False
      with utf8_first_prefix [OF n(1) \<open>s \<noteq> []\<close>] \<open>s \<noteq> []\<close> less.prems show ?thesis
        by (intro disjI2 exI [of _ 0]) (simp add: from_utf8_Cons [of s] from_utf8_Cons [of "[]"])
    qed
  qed
qed

section \<open>Properties\<close>

text \<open>A chunk that makes the stream invalid is rejected as a whole: the wrapped parser has not
  seen any of it and the buffered bytes are those from before the call.\<close>

theorem invalid_chunk_rolls_back:
  assumes "utf8_push_bytes push p chunk = (q, Inl e)"
  shows "q = p"
  using assms
  by (cases p) (auto simp: utf8_push_bytes_def Let_def split: utf8_result.splits option.splits if_splits prod.splits)

theorem invalid_chunk_rolls_back_witness:
  "\<exists>q e. utf8_push_bytes (\<lambda>(l :: string) s. (l @ s, empty_text_chunk :: nat stream_text_chunk))
      (utf8_new ''x'') [CHR ''a'', CHR 0xFF] = (q, Inl e) \<and> q = utf8_new ''x''"
proof -
  let ?push = "\<lambda>(l :: string) s. (l @ s, empty_text_chunk :: nat stream_text_chunk)"
  have "utf8_push_bytes ?push (utf8_new ''x'') [CHR ''a'', CHR 0xFF] = (utf8_new ''x'', Inl (InvalidUtf8 1 1))"
    by code_simp
  from invalid_chunk_rolls_back [OF this] this show ?thesis by blast
qed

text \<open>Feed byte chunks one after the other; \<open>None\<close> if one is rejected.\<close>

fun push_all ::
  "('p \<Rightarrow> string \<Rightarrow> 'p \<times> 'x stream_text_chunk) \<Rightarrow> 'p utf8_stream_parser \<Rightarrow> string list
     \<Rightarrow> ('p utf8_stream_parser \<times> 'x stream_text_chunk) option" where
  "push_all push p [] = Some (p, empty_text_chunk)"
| "push_all push p (c # cs) =
     (case utf8_push_bytes push p c of
        (q, Inl e) \<Rightarrow> None
      | (q, Inr out) \<Rightarrow> map_option (\<lambda>(r, rest). (r, append_chunk out rest)) (push_all push q cs))"

definition waiting :: "string \<Rightarrow> bool" where
  "waiting s \<longleftrightarrow> s = [] \<or> from_utf8 s = Utf8Err 0 None"

lemma push_valid:
  assumes "from_utf8 (pending_utf8 p @ chunk @ rest) = Utf8Ok"
  obtains texts where "list_all (\<lambda>t. from_utf8 t = Utf8Ok) texts"
    "utf8_push_bytes push p chunk =
       (\<lparr>inner = fst (feed_chunks push append_chunk empty_text_chunk (inner p) texts),
         pending_utf8 = drop (length (concat texts)) (pending_utf8 p @ chunk)\<rparr>,
        Inr (snd (feed_chunks push append_chunk empty_text_chunk (inner p) texts)))"
    "pending_utf8 p @ chunk = concat texts @ drop (length (concat texts)) (pending_utf8 p @ chunk)"
    "waiting (drop (length (concat texts)) (pending_utf8 p @ chunk))"
    "from_utf8 (drop (length (concat texts)) (pending_utf8 p @ chunk) @ rest) = Utf8Ok"
proof -
  let ?s = "pending_utf8 p @ chunk"
  consider "from_utf8 ?s = Utf8Ok" "from_utf8 rest = Utf8Ok"
    | v where "from_utf8 ?s = Utf8Err v None" "v < length ?s" "from_utf8 (take v ?s) = Utf8Ok"
        "from_utf8 (drop v ?s) = Utf8Err 0 None" "from_utf8 (drop v ?s @ rest) = Utf8Ok"
    using valid_prefix_split [of ?s rest] assms by auto
  then show thesis
  proof cases
    case 1
    show thesis
      by (rule that [of "[?s]"])
         (use 1 in \<open>simp_all add: utf8_push_bytes_def Let_def waiting_def split: prod.split\<close>)
  next
    case (2 v)
    show thesis
    proof (cases "v = 0")
      case True
      show thesis
        by (rule that [of "[]"]) (use 2 True in \<open>simp_all add: utf8_push_bytes_def Let_def waiting_def\<close>)
    next
      case False
      have "length (take v ?s) = v" using 2(2) by simp
      then show thesis
        by (intro that [of "[take v ?s]"])
           (use 2 False in \<open>simp_all add: utf8_push_bytes_def Let_def waiting_def del: take_append drop_append length_append split: prod.split\<close>)
    qed
  qed
qed

lemma feed_chunks_append:
  "feed_chunks push append_chunk empty_text_chunk i (xs @ ys) =
     (let (j, a) = feed_chunks push append_chunk empty_text_chunk i xs;
          (k, b) = feed_chunks push append_chunk empty_text_chunk j ys
      in (k, append_chunk a b))"
  by (induction xs arbitrary: i) (simp_all add: case_prod_beta Let_def append_chunk_assoc)

lemma push_all_valid:
  assumes "from_utf8 (pending_utf8 p @ concat chunks) = Utf8Ok" "waiting (pending_utf8 p)"
  shows "\<exists>texts. list_all (\<lambda>t. from_utf8 t = Utf8Ok) texts \<and> concat texts = pending_utf8 p @ concat chunks \<and>
    push_all push p chunks =
      Some (utf8_new (fst (feed_chunks push append_chunk empty_text_chunk (inner p) texts)),
            snd (feed_chunks push append_chunk empty_text_chunk (inner p) texts))"
  using assms
proof (induction chunks arbitrary: p)
  case Nil
  then have "pending_utf8 p = []" by (auto simp: waiting_def)
  then show ?case by (intro exI [of _ "[]"]) (cases p, simp add: utf8_new_def)
next
  case (Cons c cs)
  have "from_utf8 (pending_utf8 p @ c @ concat cs) = Utf8Ok" using Cons.prems(1) by simp
  then obtain texts where t: "list_all (\<lambda>t. from_utf8 t = Utf8Ok) texts"
    "utf8_push_bytes push p c =
       (\<lparr>inner = fst (feed_chunks push append_chunk empty_text_chunk (inner p) texts),
         pending_utf8 = drop (length (concat texts)) (pending_utf8 p @ c)\<rparr>,
        Inr (snd (feed_chunks push append_chunk empty_text_chunk (inner p) texts)))"
    "pending_utf8 p @ c = concat texts @ drop (length (concat texts)) (pending_utf8 p @ c)"
    "waiting (drop (length (concat texts)) (pending_utf8 p @ c))"
    "from_utf8 (drop (length (concat texts)) (pending_utf8 p @ c) @ concat cs) = Utf8Ok"
    by (rule push_valid)
  define q where "q = \<lparr>inner = fst (feed_chunks push append_chunk empty_text_chunk (inner p) texts),
     pending_utf8 = drop (length (concat texts)) (pending_utf8 p @ c)\<rparr>"
  have "\<exists>texts'. list_all (\<lambda>t. from_utf8 t = Utf8Ok) texts' \<and> concat texts' = pending_utf8 q @ concat cs \<and>
      push_all push q cs =
        Some (utf8_new (fst (feed_chunks push append_chunk empty_text_chunk (inner q) texts')),
              snd (feed_chunks push append_chunk empty_text_chunk (inner q) texts'))"
    using t(4,5) by (intro Cons.IH) (simp_all add: q_def)
  then obtain texts' where t': "list_all (\<lambda>t. from_utf8 t = Utf8Ok) texts'"
      "concat texts' = pending_utf8 q @ concat cs"
      "push_all push q cs =
        Some (utf8_new (fst (feed_chunks push append_chunk empty_text_chunk (inner q) texts')),
              snd (feed_chunks push append_chunk empty_text_chunk (inner q) texts'))"
    by blast
  have cat: "concat (texts @ texts') = pending_utf8 p @ concat (c # cs)"
    using t(3) t'(2) by (simp add: q_def del: drop_append)
  have "push_all push p (c # cs) =
      Some (utf8_new (fst (feed_chunks push append_chunk empty_text_chunk (inner p) (texts @ texts'))),
            snd (feed_chunks push append_chunk empty_text_chunk (inner p) (texts @ texts')))"
    using t(2) t'(3) by (simp add: feed_chunks_append case_prod_beta Let_def flip: q_def) (simp add: q_def)
  with t(1) t'(1) cat show ?case by (intro exI [of _ "texts @ texts'"]) simp
qed

text \<open>A valid text that arrives as bytes, cut anywhere, even inside code points, is never
  rejected; the wrapped parser receives exactly this text, in pieces that are valid strings, and no
  byte stays behind.\<close>

theorem utf8_stream_delivers_text:
  assumes "from_utf8 (concat chunks) = Utf8Ok"
  shows "\<exists>texts. list_all (\<lambda>t. from_utf8 t = Utf8Ok) texts \<and> concat texts = concat chunks \<and>
    push_all push (utf8_new i) chunks =
      Some (utf8_new (fst (feed_chunks push append_chunk empty_text_chunk i texts)),
            snd (feed_chunks push append_chunk empty_text_chunk i texts))"
  using push_all_valid [of "utf8_new i" chunks push] assms by (simp add: utf8_new_def waiting_def)

theorem utf8_stream_delivers_text_witness:
  "\<exists>texts. list_all (\<lambda>t. from_utf8 t = Utf8Ok) texts \<and> concat texts = concat [[CHR 0xC3], [CHR 0xA9]] \<and>
    push_all citation_feed (utf8_new citation_new) [[CHR 0xC3], [CHR 0xA9]] =
      Some (utf8_new (fst (feed_chunks citation_feed append_chunk empty_text_chunk citation_new texts)),
            snd (feed_chunks citation_feed append_chunk empty_text_chunk citation_new texts))"
  by (rule utf8_stream_delivers_text) code_simp

end
