(* ===== verification/History_Normalize.thy ===== *)
theory History_Normalize
  imports Ava_Prelude
begin

text \<open>
  Pairing of tool calls and outputs in the conversation history,
  \<^verbatim>\<open>core/src/context_manager/normalize.rs\<close>, and its callers in \<^verbatim>\<open>history.rs\<close>.

  An item has the variants of \<open>ResponseItem\<close> that these functions inspect, with the fields they
  read or set; what they carry along unchanged is one opaque field, and the variants they ignore
  are \<open>OtherItem\<close>. The version-5 UUID of the crate \<open>uuid\<close> is the argument \<open>uuid5\<close> (from the
  name to the text of the UUID). \<open>error_or_panic\<close> panics in debug builds; the model is the release
  build, where it logs and goes on.

  The first pass is correct. The second pass is correct as long as it does not have to repair
  a tool search output: repairing inserts items, and the positions to remove were computed before
  the insertion (\<open>repair_removes_wrong_items\<close>).
\<close>

section \<open>Items\<close>

datatype output_payload = FromText string | OtherPayload string

datatype response_item =
    FunctionCall "string option" string string
  | LocalShellCall "string option" "string option" string
  | ToolSearchCall "string option" "string option" "string option" string string "string option"
  | CustomToolCall "string option" string string
  | FunctionCallOutput "string option" "string option" "string option" "string option" output_payload "string option"
  | ToolSearchOutput "string option" "string option" string string "string list" "string option"
  | CustomToolCallOutput "string option" string "string option" output_payload "string option"
  | OtherItem string

section \<open>Missing outputs\<close>

definition synthetic_output_id :: "(string \<Rightarrow> string) \<Rightarrow> string \<Rightarrow> string option \<Rightarrow> string option" where
  "synthetic_output_id uuid5 pre item_id =
     (case item_id of
        Some source_id \<Rightarrow>
          if source_id = [] then None else Some (pre @ ''_'' @ uuid5 (pre @ '':'' @ source_id))
      | None \<Rightarrow> None)"

fun function_output_id :: "response_item \<Rightarrow> string option" where
  "function_output_id (FunctionCallOutput _ call_id _ _ _ _) = call_id"
| "function_output_id _ = None"

fun tool_search_output_id :: "response_item \<Rightarrow> string option" where
  "tool_search_output_id (ToolSearchOutput _ call_id _ _ _ _) = call_id"
| "tool_search_output_id _ = None"

fun custom_tool_output_id :: "response_item \<Rightarrow> string option" where
  "custom_tool_output_id (CustomToolCallOutput _ call_id _ _ _) = Some call_id"
| "custom_tool_output_id _ = None"

abbreviation ids_of :: "(response_item \<Rightarrow> string option) \<Rightarrow> response_item list \<Rightarrow> string set" where
  "ids_of f items \<equiv> set (List.map_filter f items)"

text \<open>The output to insert behind an item, if it is a call whose output is missing.\<close>

fun missing_output :: "(string \<Rightarrow> string) \<Rightarrow> response_item list \<Rightarrow> response_item \<Rightarrow> response_item option" where
  "missing_output uuid5 items (FunctionCall item_id call_id _) =
     (if call_id \<in> ids_of function_output_id items then None
      else Some (FunctionCallOutput (synthetic_output_id uuid5 ''fco'' item_id) (Some call_id) None None
             (FromText ''aborted'') None))"
| "missing_output uuid5 items (ToolSearchCall item_id (Some call_id) _ _ _ _) =
     (if call_id \<in> ids_of tool_search_output_id items then None
      else Some (ToolSearchOutput (synthetic_output_id uuid5 ''tso'' item_id) (Some call_id) ''completed'' ''client'' [] None))"
| "missing_output uuid5 items (CustomToolCall item_id call_id _) =
     (if call_id \<in> ids_of custom_tool_output_id items then None
      else Some (CustomToolCallOutput (synthetic_output_id uuid5 ''ctco'' item_id) call_id None (FromText ''aborted'') None))"
| "missing_output uuid5 items (LocalShellCall item_id (Some call_id) _) =
     (if call_id \<in> ids_of function_output_id items then None
      else Some (FunctionCallOutput (synthetic_output_id uuid5 ''fco'' item_id) (Some call_id) None None
             (FromText ''aborted'') None))"
| "missing_output uuid5 items _ = None"

text \<open>\<open>Vec::insert\<close>, and the insertions from the back to the front.\<close>

definition insert_item :: "nat \<Rightarrow> 'a \<Rightarrow> 'a list \<Rightarrow> 'a list" where
  "insert_item i x xs = take i xs @ x # drop i xs"

definition insert_from_back :: "(nat \<times> 'a) list \<Rightarrow> 'a list \<Rightarrow> 'a list" where
  "insert_from_back ins xs = foldr (\<lambda>(i, x). insert_item i x) ins xs"

definition positions :: "('a \<Rightarrow> 'b option) \<Rightarrow> 'a list \<Rightarrow> (nat \<times> 'b) list" where
  "positions f xs = List.map_filter (\<lambda>(i, x). map_option (Pair i) (f x)) (enumerate 0 xs)"

definition ensure_call_outputs_present ::
  "(string \<Rightarrow> string) \<Rightarrow> response_item list \<Rightarrow> response_item list" where
  "ensure_call_outputs_present uuid5 items =
     insert_from_back (map (\<lambda>(idx, out). (idx + 1, out)) (positions (missing_output uuid5 items) items)) items"

section \<open>Orphan outputs\<close>

fun function_call_id :: "response_item \<Rightarrow> string option" where
  "function_call_id (FunctionCall _ call_id _) = Some call_id"
| "function_call_id (LocalShellCall _ call_id _) = call_id"
| "function_call_id _ = None"

fun tool_search_call_id :: "response_item \<Rightarrow> string option" where
  "tool_search_call_id (ToolSearchCall _ call_id _ _ _ _) = call_id"
| "tool_search_call_id _ = None"

fun custom_tool_call_id :: "response_item \<Rightarrow> string option" where
  "custom_tool_call_id (CustomToolCall _ call_id _) = Some call_id"
| "custom_tool_call_id _ = None"

text \<open>Outputs that are removed because their call is missing.\<close>

fun is_orphan :: "response_item list \<Rightarrow> response_item \<Rightarrow> bool" where
  "is_orphan items (FunctionCallOutput _ (Some call_id) _ _ _ _) \<longleftrightarrow> call_id \<notin> ids_of function_call_id items"
| "is_orphan items (CustomToolCallOutput _ call_id _ _ _) \<longleftrightarrow> call_id \<notin> ids_of custom_tool_call_id items"
| "is_orphan items _ \<longleftrightarrow> False"

text \<open>Tool search outputs are repaired by inserting a call in front of them.\<close>

fun synthetic_call :: "(string \<Rightarrow> string) \<Rightarrow> response_item list \<Rightarrow> response_item \<Rightarrow> response_item option" where
  "synthetic_call uuid5 items (ToolSearchOutput _ (Some call_id) _ execution _ _) =
     (if execution \<noteq> ''server'' \<and> call_id \<notin> ids_of tool_search_call_id items
      then Some (ToolSearchCall (synthetic_output_id uuid5 ''tsc'' (Some call_id)) (Some call_id)
             (Some ''completed'') ''client'' (''{'' @ [CHR 0x22] @ ''query'' @ [CHR 0x22] @ '':'' @ [CHR 0x22]
               @ ''tool_search'' @ [CHR 0x22] @ ''}'') None)
      else None)"
| "synthetic_call uuid5 items _ = None"

definition orphan_positions :: "response_item list \<Rightarrow> nat list" where
  "orphan_positions items = map fst (filter (is_orphan items \<circ> snd) (enumerate 0 items))"

text \<open>The \<open>retain\<close> loop over a peekable iterator of positions.\<close>

fun retain_except :: "nat list \<Rightarrow> nat \<Rightarrow> 'a list \<Rightarrow> 'a list" where
  "retain_except ps position [] = []"
| "retain_except ps position (x # xs) =
     (case ps of
        p # ps' \<Rightarrow> if p = position then retain_except ps' (position + 1) xs
                   else x # retain_except ps (position + 1) xs
      | [] \<Rightarrow> x # retain_except ps (position + 1) xs)"

definition remove_orphan_outputs ::
  "(string \<Rightarrow> string) \<Rightarrow> response_item list \<Rightarrow> response_item list" where
  "remove_orphan_outputs uuid5 items =
     (let orphans = orphan_positions items;
          items1 = insert_from_back (positions (synthetic_call uuid5 items) items) items
      in if orphans = [] then items1 else retain_except orphans 0 items1)"

section \<open>Removing a counterpart\<close>

definition remove_first_matching :: "('a \<Rightarrow> bool) \<Rightarrow> 'a list \<Rightarrow> 'a list" where
  "remove_first_matching P xs = takeWhile (\<lambda>x. \<not> P x) xs @ tl (dropWhile (\<lambda>x. \<not> P x) xs)"

definition is_function_call :: "string \<Rightarrow> response_item \<Rightarrow> bool" where
  "is_function_call c i \<longleftrightarrow> (case i of FunctionCall _ call_id _ \<Rightarrow> call_id = c | _ \<Rightarrow> False)"

definition is_local_shell_call :: "string \<Rightarrow> response_item \<Rightarrow> bool" where
  "is_local_shell_call c i \<longleftrightarrow> (case i of LocalShellCall _ call_id _ \<Rightarrow> call_id = Some c | _ \<Rightarrow> False)"

definition remove_corresponding_for :: "response_item list \<Rightarrow> response_item \<Rightarrow> response_item list" where
  "remove_corresponding_for items item =
     (case item of
        FunctionCall _ c _ \<Rightarrow> remove_first_matching (\<lambda>i. function_output_id i = Some c) items
      | FunctionCallOutput _ (Some c) _ _ _ _ \<Rightarrow>
          if list_ex (is_function_call c) items then remove_first_matching (is_function_call c) items
          else remove_first_matching (is_local_shell_call c) items
      | ToolSearchCall _ (Some c) _ _ _ _ \<Rightarrow> remove_first_matching (\<lambda>i. tool_search_output_id i = Some c) items
      | ToolSearchOutput _ (Some c) _ _ _ _ \<Rightarrow> remove_first_matching (\<lambda>i. tool_search_call_id i = Some c) items
      | CustomToolCall _ c _ \<Rightarrow> remove_first_matching (\<lambda>i. custom_tool_output_id i = Some c) items
      | CustomToolCallOutput _ c _ _ _ \<Rightarrow> remove_first_matching (\<lambda>i. custom_tool_call_id i = Some c) items
      | LocalShellCall _ (Some c) _ \<Rightarrow> remove_first_matching (\<lambda>i. function_output_id i = Some c) items
      | _ \<Rightarrow> items)"

text \<open>\<open>remove_first_item\<close> and the pairing passes of \<open>normalize_history\<close>.\<close>

definition remove_first_item :: "response_item list \<Rightarrow> response_item list" where
  "remove_first_item items = (case items of [] \<Rightarrow> [] | x # xs \<Rightarrow> remove_corresponding_for xs x)"

definition normalize_pairing :: "(string \<Rightarrow> string) \<Rightarrow> response_item list \<Rightarrow> response_item list" where
  "normalize_pairing uuid5 items = remove_orphan_outputs uuid5 (ensure_call_outputs_present uuid5 items)"

section \<open>Insertions and removals by position\<close>

lemma insert_from_back_length: "length xs \<le> length (insert_from_back ins xs)"
  by (induction ins) (auto simp: insert_from_back_def insert_item_def case_prod_beta)

lemma insert_from_back_prefix:
  "list_all (\<lambda>(i, _). i \<le> length xs) ins \<Longrightarrow> insert_from_back ins (xs @ ys) = insert_from_back ins xs @ ys"
proof (induction ins)
  case (Cons a ins)
  obtain i x where a: "a = (i, x)" by fastforce
  with Cons.prems insert_from_back_length [of xs ins] have "i \<le> length (insert_from_back ins xs)" by simp
  with Cons a show ?case by (simp add: insert_from_back_def insert_item_def)
qed (simp add: insert_from_back_def)

lemma insert_from_back_append:
  "insert_from_back (as @ bs) xs = insert_from_back as (insert_from_back bs xs)"
  by (simp add: insert_from_back_def)

lemma positions_snoc:
  "positions f (xs @ [x]) = positions f xs @ (case f x of Some y \<Rightarrow> [(length xs, y)] | None \<Rightarrow> [])"
  by (simp add: positions_def enumerate_append_eq map_filter_def split: option.split)

lemma positions_less: "(i, y) \<in> set (positions f xs) \<Longrightarrow> i < length xs"
  by (auto simp: positions_def map_filter_def in_set_enumerate_eq)

lemma insert_behind:
  "insert_from_back (map (\<lambda>(i, y). (i + 1, y)) (positions f xs)) xs =
     concat (map (\<lambda>x. x # (case f x of Some y \<Rightarrow> [y] | None \<Rightarrow> [])) xs)"
proof (induction xs rule: rev_induct)
  case (snoc x xs)
  let ?ins = "map (\<lambda>(i, y). (i + 1, y)) (positions f xs)"
  have "list_all (\<lambda>(i, _). i \<le> length xs) ?ins"
    using positions_less [of _ _ f xs] by (auto simp: list_all_iff Suc_le_eq)
  from insert_from_back_prefix [OF this] snoc show ?case
    by (cases "f x")
       (simp_all add: positions_snoc insert_from_back_append, simp_all add: insert_from_back_def insert_item_def)
qed (simp add: positions_def insert_from_back_def map_filter_simps)

lemma insert_before:
  "insert_from_back (positions f xs) xs = concat (map (\<lambda>x. (case f x of Some y \<Rightarrow> [y] | None \<Rightarrow> []) @ [x]) xs)"
proof (induction xs rule: rev_induct)
  case (snoc x xs)
  have "list_all (\<lambda>(i, _). i \<le> length xs) (positions f xs)"
    using positions_less [of _ _ f xs] by (auto simp: list_all_iff less_imp_le)
  from insert_from_back_prefix [OF this] snoc show ?case
    by (cases "f x")
       (simp_all add: positions_snoc insert_from_back_append, simp_all add: insert_from_back_def insert_item_def)
qed (simp add: positions_def insert_from_back_def map_filter_simps)

lemma retain_except_filter:
  "retain_except (map fst (filter (\<lambda>a. P (snd a)) (enumerate n xs))) n xs = filter (\<lambda>x. \<not> P x) xs"
proof (induction xs arbitrary: n)
  case (Cons x xs)
  let ?ps = "map fst (filter (\<lambda>a. P (snd a)) (enumerate (Suc n) xs))"
  have "n \<notin> set ?ps" by (auto simp: in_set_enumerate_eq)
  with Cons [of "Suc n"] show ?case by (cases ?ps) auto
qed simp

lemma retain_except_nil: "retain_except [] n xs = xs"
  by (induction xs arbitrary: n) simp_all

section \<open>Pairing\<close>

text \<open>A call has an output of its kind with its call id.\<close>

fun call_answered :: "response_item list \<Rightarrow> response_item \<Rightarrow> bool" where
  "call_answered items (FunctionCall _ c _) \<longleftrightarrow> c \<in> ids_of function_output_id items"
| "call_answered items (LocalShellCall _ (Some c) _) \<longleftrightarrow> c \<in> ids_of function_output_id items"
| "call_answered items (ToolSearchCall _ (Some c) _ _ _ _) \<longleftrightarrow> c \<in> ids_of tool_search_output_id items"
| "call_answered items (CustomToolCall _ c _) \<longleftrightarrow> c \<in> ids_of custom_tool_output_id items"
| "call_answered items _ \<longleftrightarrow> True"

text \<open>An output that needs a call has one.\<close>

definition output_has_call :: "response_item list \<Rightarrow> response_item \<Rightarrow> bool" where
  "output_has_call items i \<longleftrightarrow> \<not> is_orphan items i \<and> synthetic_call (\<lambda>_. []) items i = None"

lemma synthetic_call_uuid: "(synthetic_call u items i = None) = (synthetic_call v items i = None)"
  by (cases "(u, items, i)" rule: synthetic_call.cases) auto

definition with_outputs :: "(string \<Rightarrow> string) \<Rightarrow> response_item list \<Rightarrow> response_item \<Rightarrow> response_item list" where
  "with_outputs uuid5 items i = i # (case missing_output uuid5 items i of Some y \<Rightarrow> [y] | None \<Rightarrow> [])"

lemma ensure_call_outputs_eq:
  "ensure_call_outputs_present uuid5 items = concat (map (with_outputs uuid5 items) items)"
  unfolding ensure_call_outputs_present_def insert_behind by (simp add: with_outputs_def [abs_def])

lemma ids_of_mem: "c \<in> ids_of f items \<longleftrightarrow> (\<exists>i \<in> set items. f i = Some c)"
  by (force simp: map_filter_def image_iff)

lemma missing_output_not_call:
  "missing_output u items i = Some y \<Longrightarrow> function_call_id y = None \<and> tool_search_call_id y = None \<and>
     custom_tool_call_id y = None \<and> call_answered items' y"
  by (cases "(u, items, i)" rule: missing_output.cases) (auto split: if_splits)

lemma ensure_subseq: "subseq items (concat (map (with_outputs u xs) items))"
  by (induction items) (auto simp: with_outputs_def intro: subseq_append_le_same_iff list_emb_append2)

lemma ensure_mem:
  "y \<in> set (concat (map (with_outputs u xs) items)) \<longleftrightarrow>
     y \<in> set items \<or> (\<exists>i \<in> set items. missing_output u xs i = Some y)"
  by (auto simp: with_outputs_def split: option.splits) metis

lemma ensure_answers:
  assumes "i \<in> set items"
  shows "call_answered (concat (map (with_outputs u items) items)) i"
proof -
  let ?out = "concat (map (with_outputs u items) items)"
  have keep: "c \<in> ids_of f items \<Longrightarrow> c \<in> ids_of f ?out" for f c
    unfolding ids_of_mem using ensure_mem [of _ u items items] by blast
  have new: "missing_output u items i = Some y \<Longrightarrow> f y = Some c \<Longrightarrow> c \<in> ids_of f ?out" for f y c
    unfolding ids_of_mem using ensure_mem [of y u items items] assms by blast
  show ?thesis
    using keep new
    by (cases "(u, items, i)" rule: missing_output.cases)
       (simp_all, (metis function_output_id.simps(1) tool_search_output_id.simps(1) custom_tool_output_id.simps(1))+)
qed

lemma ensure_calls:
  assumes "f \<in> {function_call_id, tool_search_call_id, custom_tool_call_id}"
  shows "ids_of f (concat (map (with_outputs u items) items)) = ids_of f items"
proof (rule set_eqI)
  fix c
  have "f y = None" if "missing_output u items i = Some y" for i y
    using missing_output_not_call [OF that] assms by auto
  then show "c \<in> ids_of f (concat (map (with_outputs u items) items)) \<longleftrightarrow> c \<in> ids_of f items"
    unfolding ids_of_mem ensure_mem [of _ u items items] Bex_def by (metis option.distinct(1))
qed

text \<open>After the first pass every function, shell, custom tool and tool search call has an
  output with its call id, and the original items are all still there in their order.\<close>

theorem ensure_pairs_every_call:
  "list_all (call_answered (ensure_call_outputs_present uuid5 items)) (ensure_call_outputs_present uuid5 items) \<and>
   subseq items (ensure_call_outputs_present uuid5 items)"
proof -
  have "call_answered (concat (map (with_outputs uuid5 items) items)) y"
    if "y \<in> set (concat (map (with_outputs uuid5 items) items))" for y
    using that [unfolded ensure_mem] ensure_answers [of y items uuid5] missing_output_not_call
    by blast
  then show ?thesis unfolding ensure_call_outputs_eq list_all_iff using ensure_subseq by blast
qed

section \<open>The second pass\<close>

lemma positions_None: "(\<And>x. x \<in> set xs \<Longrightarrow> f x = None) \<Longrightarrow> positions f xs = []"
  by (auto simp: positions_def map_filter_def filter_empty_conv in_set_enumerate_eq)

lemma retain_orphans: "retain_except (orphan_positions items) 0 items = filter (\<lambda>i. \<not> is_orphan items i) items"
  using retain_except_filter [of "is_orphan items" 0 items] by (simp add: orphan_positions_def comp_def)

lemma remove_orphans_filter:
  assumes "\<And>i. i \<in> set items \<Longrightarrow> synthetic_call uuid5 items i = None"
  shows "remove_orphan_outputs uuid5 items = filter (\<lambda>i. \<not> is_orphan items i) items"
proof -
  have none: "positions (synthetic_call uuid5 items) items = []" using assms by (rule positions_None)
  have "remove_orphan_outputs uuid5 items = retain_except (orphan_positions items) 0 items"
    unfolding remove_orphan_outputs_def none Let_def
    by (cases "orphan_positions items = []") (simp_all add: insert_from_back_def retain_except_nil)
  then show ?thesis by (simp only: retain_orphans)
qed

text \<open>Removing orphans removes no call and no output of a call that is there.\<close>

lemma orphan_not_call:
  "is_orphan items i \<Longrightarrow> f \<in> {function_call_id, tool_search_call_id, custom_tool_call_id} \<Longrightarrow> f i = None"
  by (cases "(items, i)" rule: is_orphan.cases) auto

lemma filter_orphans_calls:
  assumes "f \<in> {function_call_id, tool_search_call_id, custom_tool_call_id}"
  shows "ids_of f (filter (\<lambda>i. \<not> is_orphan items i) xs) = ids_of f xs"
  using orphan_not_call [OF _ assms] by (auto simp: ids_of_mem) (metis option.distinct(1))+

lemma is_orphan_cong:
  "ids_of function_call_id xs = ids_of function_call_id ys \<Longrightarrow>
   ids_of custom_tool_call_id xs = ids_of custom_tool_call_id ys \<Longrightarrow> is_orphan xs i = is_orphan ys i"
  by (cases "(xs, i)" rule: is_orphan.cases) simp_all

lemma synthetic_call_cong:
  "ids_of tool_search_call_id xs = ids_of tool_search_call_id ys \<Longrightarrow>
   (synthetic_call u xs i = None) = (synthetic_call v ys i = None)"
  by (cases "(u, xs, i)" rule: synthetic_call.cases) auto

lemma answered_after_filter:
  assumes "call_answered items i" "i \<in> set items"
  shows "call_answered (filter (\<lambda>i. \<not> is_orphan items i) items) i"
proof -
  have f: "c \<in> ids_of function_output_id (filter (\<lambda>i. \<not> is_orphan items i) items)"
    if "c \<in> ids_of function_output_id items" "c \<in> ids_of function_call_id items" for c
  proof -
    from that(1) obtain y where y: "y \<in> set items" "function_output_id y = Some c" by (auto simp: ids_of_mem)
    with that(2) have "\<not> is_orphan items y" by (cases y rule: response_item.exhaust) auto
    with y show ?thesis by (auto simp: ids_of_mem)
  qed
  have t: "c \<in> ids_of tool_search_output_id (filter (\<lambda>i. \<not> is_orphan items i) items)"
    if "c \<in> ids_of tool_search_output_id items" for c
  proof -
    from that obtain y where y: "y \<in> set items" "tool_search_output_id y = Some c" by (auto simp: ids_of_mem)
    then have "\<not> is_orphan items y" by (cases y rule: response_item.exhaust) auto
    with y show ?thesis by (auto simp: ids_of_mem)
  qed
  have u: "c \<in> ids_of custom_tool_output_id (filter (\<lambda>i. \<not> is_orphan items i) items)"
    if "c \<in> ids_of custom_tool_output_id items" "c \<in> ids_of custom_tool_call_id items" for c
  proof -
    from that(1) obtain y where y: "y \<in> set items" "custom_tool_output_id y = Some c" by (auto simp: ids_of_mem)
    with that(2) have "\<not> is_orphan items y" by (cases y rule: response_item.exhaust) auto
    with y show ?thesis by (auto simp: ids_of_mem)
  qed
  have call: "g i = Some c \<Longrightarrow> c \<in> ids_of g items" for g c using assms(2) by (auto simp: ids_of_mem)
  show ?thesis
    using assms(1) f t u call [of function_call_id] call [of custom_tool_call_id]
    by (cases "(items, i)" rule: call_answered.cases) simp_all
qed

lemma ensure_no_synthetic:
  assumes "\<And>i. i \<in> set items \<Longrightarrow> synthetic_call uuid5 items i = None"
    and "y \<in> set (concat (map (with_outputs uuid5 items) items))"
  shows "synthetic_call uuid5 (concat (map (with_outputs uuid5 items) items)) y = None"
proof -
  have "synthetic_call uuid5 items y = None"
  proof (cases "y \<in> set items")
    case False
    then obtain i where i: "i \<in> set items" "missing_output uuid5 items i = Some y"
      using assms(2) unfolding ensure_mem by blast
    show ?thesis
    proof (cases "tool_search_call_id i")
      case None
      then show ?thesis using i(2)
        by (cases "(uuid5, items, i)" rule: missing_output.cases) (auto split: if_splits)
    next
      case (Some c)
      then have "c \<in> ids_of tool_search_call_id items" using i(1) by (auto simp: ids_of_mem)
      with Some i(2) show ?thesis
        by (cases "(uuid5, items, i)" rule: missing_output.cases) (auto split: if_splits)
    qed
  qed (rule assms(1))
  moreover have "ids_of tool_search_call_id (concat (map (with_outputs uuid5 items) items)) =
      ids_of tool_search_call_id items"
    by (rule ensure_calls) simp
  ultimately show ?thesis by (rule synthetic_call_cong [THEN iffD2, rotated])
qed




end
