(* ===== verification/Dangerous_Command.thy ===== *)
theory Dangerous_Command
  imports Ava_Prelude
begin

text \<open>
  The classifier of dangerous commands,
  \<^verbatim>\<open>shell-command/src/command_safety/is_dangerous_command.rs\<close>. Wrappers (\<open>sudo\<close>, \<open>env\<close>,
  \<open>trap\<close>, shell scripts) are taken off and the command inside is classified, up to a nesting depth
  beyond which everything counts as dangerous. Arguments of the model: \<open>literal_commands\<close>, the
  literal commands of a \<open>sh -c\<close> style invocation as the tree-sitter based parser of
  \<^verbatim>\<open>bash.rs\<close> finds them, and \<open>windows_rule\<close>, the Windows rules of
  \<^verbatim>\<open>windows_dangerous_commands.rs\<close>.

  The main result replaces the recursion by a relation \<open>runs\<close> between an invocation and the
  commands it runs: reported is exactly what reaches a dangerous command along it, or goes too deep.
\<close>

datatype platform = Posix | Windows

datatype dangerous_match = ForcedRm | OtherDanger

definition MAX_DANGEROUS_COMMAND_WRAPPER_DEPTH :: nat where
  "MAX_DANGEROUS_COMMAND_WRAPPER_DEPTH = 8"

section \<open>Executable names\<close>

text \<open>The part behind the last separator; the whole string if there is none.\<close>

definition after_last :: "char list \<Rightarrow> string \<Rightarrow> string" where
  "after_last seps s = rev (takeWhile (\<lambda>c. c \<notin> set seps) (rev s))"

definition is_ascii_alphabetic :: "char \<Rightarrow> bool" where
  "is_ascii_alphabetic c \<longleftrightarrow> is_ascii_lowercase c \<or> is_ascii_uppercase c"

definition strip_drive :: "string \<Rightarrow> string" where
  "strip_drive name =
     (case name of
        d # c # rest \<Rightarrow> if c = CHR '':'' \<and> is_ascii_alphabetic d then rest else name
      | _ \<Rightarrow> name)"

fun strip_executable_suffix :: "string list \<Rightarrow> string \<Rightarrow> string option" where
  "strip_executable_suffix [] name = None"
| "strip_executable_suffix (x # xs) name =
     (case strip_suffix x name of Some stripped \<Rightarrow> Some stripped | None \<Rightarrow> strip_executable_suffix xs name)"

definition executable_name_lookup_key :: "string \<Rightarrow> platform \<Rightarrow> string option" where
  "executable_name_lookup_key raw pf =
     (case pf of
        Posix \<Rightarrow> (let name = after_last [CHR ''/''] raw in if name = [] then None else Some name)
      | Windows \<Rightarrow>
          (let base = after_last [CHR ''/'', CHR 0x5C] raw
           in if base = [] then None
              else (let name = map to_ascii_lower (strip_drive base)
                    in case strip_executable_suffix [''.exe'', ''.cmd'', ''.bat'', ''.com''] name of
                         Some stripped \<Rightarrow> Some stripped
                       | None \<Rightarrow> if name = [] then None else Some name)))"

section \<open>Rules\<close>

definition short_force_flag :: "string \<Rightarrow> bool" where
  "short_force_flag arg \<longleftrightarrow>
     (case strip_prefix ''-'' arg of
        Some flags \<Rightarrow> \<not> prefix ''-'' flags \<and> CHR ''f'' \<in> set flags
      | None \<Rightarrow> False)"

definition rm_args_include_force_option :: "string list \<Rightarrow> bool" where
  "rm_args_include_force_option args =
     list_ex (\<lambda>arg. arg = ''--force'' \<or> short_force_flag arg) (takeWhile (\<lambda>arg. arg \<noteq> ''--'') args)"

text \<open>Skip the options and assignments of \<open>env\<close>.\<close>

definition env_assignment :: "string \<Rightarrow> bool" where
  "env_assignment arg \<longleftrightarrow>
     CHR ''='' \<in> set arg \<and>
     (let name = takeWhile (\<lambda>c. c \<noteq> CHR ''='') arg in name \<noteq> [] \<and> \<not> prefix ''-'' name)"

fun skip_env :: "string list \<Rightarrow> string list" where
  "skip_env [] = []"
| "skip_env (arg # args) =
     (if arg = ''--'' then args
      else if arg = ''-i'' \<or> arg = ''--ignore-environment'' \<or> env_assignment arg then skip_env args
      else arg # args)"

text \<open>The script of a \<open>trap\<close> action.\<close>

definition trap_script :: "string list \<Rightarrow> string list option" where
  "trap_script command =
     (let action_index = (if 1 < length command \<and> command ! 1 = ''--'' then 2 else 1)
      in if action_index < length command \<and> \<not> prefix ''-'' (command ! action_index)
         then Some [''sh'', ''-c'', command ! action_index] else None)"

text \<open>The verdict on an invocation by itself, or the command it wraps.\<close>

datatype exec_verdict = Verdict "dangerous_match option" | Unwrap "string list"

definition classify_exec :: "string list \<Rightarrow> platform \<Rightarrow> exec_verdict" where
  "classify_exec command pf =
     (case command of
        [] \<Rightarrow> Verdict None
      | program # args \<Rightarrow>
          (let cmd0 = executable_name_lookup_key program pf
           in if cmd0 = Some ''rm'' \<and> rm_args_include_force_option args then Verdict (Some ForcedRm)
              else if cmd0 = Some ''sudo'' then Unwrap args
              else if cmd0 = Some ''env'' then Unwrap (skip_env args)
              else if cmd0 = Some ''trap'' then
                (case trap_script command of Some script \<Rightarrow> Unwrap script | None \<Rightarrow> Verdict None)
              else Verdict None))"

fun find_map :: "('a \<Rightarrow> 'b option) \<Rightarrow> 'a list \<Rightarrow> 'b option" where
  "find_map f [] = None"
| "find_map f (x # xs) = (case f x of Some y \<Rightarrow> Some y | None \<Rightarrow> find_map f xs)"

lemma find_map_cong [fundef_cong]:
  "xs = ys \<Longrightarrow> (\<And>x. x \<in> set ys \<Longrightarrow> f x = g x) \<Longrightarrow> find_map f xs = find_map g ys"
  by (induction ys arbitrary: xs) (auto split: option.split)

lemma find_map_None: "find_map f xs = None \<longleftrightarrow> (\<forall>x \<in> set xs. f x = None)"
  by (induction xs) (auto split: option.splits)

type_synonym literal_commands = "string list \<Rightarrow> string list list option"
type_synonym windows_rule = "string list \<Rightarrow> bool"

function dangerous_command_match_with_depth ::
  "literal_commands \<Rightarrow> windows_rule \<Rightarrow> string list \<Rightarrow> nat \<Rightarrow> platform \<Rightarrow> dangerous_match option" where
  "dangerous_command_match_with_depth lits win command depth pf =
     (if MAX_DANGEROUS_COMMAND_WRAPPER_DEPTH < depth then Some OtherDanger
      else case (case classify_exec command pf of
                   Verdict m \<Rightarrow> m
                 | Unwrap inner \<Rightarrow> dangerous_command_match_with_depth lits win inner (depth + 1) pf) of
        Some m \<Rightarrow> Some m
      | None \<Rightarrow>
          (case (case lits command of
                   None \<Rightarrow> None
                 | Some commands \<Rightarrow>
                     find_map (\<lambda>c. dangerous_command_match_with_depth lits win c (depth + 1) pf) commands) of
             Some m \<Rightarrow> Some m
           | None \<Rightarrow> if pf = Windows \<and> win command then Some OtherDanger else None))"
  by pat_completeness auto
termination
  by (relation "measure (\<lambda>(lits, win, c, depth, pf). Suc MAX_DANGEROUS_COMMAND_WRAPPER_DEPTH - depth)") auto

declare dangerous_command_match_with_depth.simps [simp del]

definition dangerous_command_match_for_platform ::
  "literal_commands \<Rightarrow> windows_rule \<Rightarrow> string list \<Rightarrow> platform \<Rightarrow> dangerous_match option" where
  "dangerous_command_match_for_platform lits win command pf =
     dangerous_command_match_with_depth lits win command 0 pf"

definition dangerous_powershell_words_match ::
  "windows_rule \<Rightarrow> string list \<Rightarrow> platform \<Rightarrow> dangerous_match option" where
  "dangerous_powershell_words_match words_rule command pf =
     (if pf = Windows \<and> words_rule command then Some OtherDanger else None)"

section \<open>What is reported\<close>

text \<open>The commands an invocation runs: the operand of \<open>sudo\<close>, the command behind the options
  and assignments of \<open>env\<close> (which a marker \<^verbatim>\<open>--\<close> may end), the action of a \<open>trap\<close>, and every
  literal command of a script.\<close>

definition env_option :: "string \<Rightarrow> bool" where
  "env_option arg \<longleftrightarrow> arg \<in> {''-i'', ''--ignore-environment''} \<or> env_assignment arg"

inductive env_operand :: "string list \<Rightarrow> string list \<Rightarrow> bool" where
  behind_marker: "list_all env_option opts \<Longrightarrow> env_operand (opts @ ''--'' # command) command"
| no_operand: "list_all env_option opts \<Longrightarrow> env_operand opts []"
| first_operand: "list_all env_option opts \<Longrightarrow> \<not> env_option arg \<Longrightarrow> arg \<noteq> ''--'' \<Longrightarrow>
    env_operand (opts @ arg # args) (arg # args)"

inductive runs :: "literal_commands \<Rightarrow> platform \<Rightarrow> string list \<Rightarrow> string list \<Rightarrow> bool"
  for lits pf where
  runs_sudo: "executable_name_lookup_key program pf = Some ''sudo'' \<Longrightarrow> runs lits pf (program # args) args"
| runs_env: "executable_name_lookup_key program pf = Some ''env'' \<Longrightarrow> env_operand args command \<Longrightarrow>
    runs lits pf (program # args) command"
| runs_trap: "executable_name_lookup_key program pf = Some ''trap'' \<Longrightarrow>
    action = (if prefix [''--''] args then drop 1 args else args) \<Longrightarrow>
    action \<noteq> [] \<Longrightarrow> \<not> prefix ''-'' (hd action) \<Longrightarrow>
    runs lits pf (program # args) [''sh'', ''-c'', hd action]"
| runs_script: "lits command = Some commands \<Longrightarrow> c \<in> set commands \<Longrightarrow> runs lits pf command c"

inductive_simps runs_iff: "runs lits pf c i"

text \<open>The invocations that are dangerous by themselves.\<close>

definition dangerous_alone :: "windows_rule \<Rightarrow> platform \<Rightarrow> string list \<Rightarrow> bool" where
  "dangerous_alone win pf command \<longleftrightarrow>
     (command \<noteq> [] \<and> executable_name_lookup_key (hd command) pf = Some ''rm'' \<and>
      rm_args_include_force_option (tl command)) \<or>
     (pf = Windows \<and> win command)"

lemma env_option_marker: "\<not> env_option ''--''"
  by (simp add: env_option_def env_assignment_def)

lemma skip_env_options: "list_all env_option opts \<Longrightarrow> skip_env (opts @ args) = skip_env args"
  by (induction opts) (auto simp: env_option_def env_assignment_def)

lemma env_operand_skip_env: "env_operand args (skip_env args)"
proof -
  obtain opts rest where args: "args = opts @ rest" "list_all env_option opts"
    "rest = [] \<or> \<not> env_option (hd rest)"
    using takeWhile_dropWhile_id[of env_option args] set_takeWhileD hd_dropWhile[of env_option args]
    by (metis list_all_iff)
  then show ?thesis
    by (cases rest)
      (auto simp: skip_env_options skip_env_options[of opts "[]", simplified] env_option_def
        intro: env_operand.intros)
qed

lemma env_operand_iff: "env_operand args command \<longleftrightarrow> command = skip_env args"
proof
  assume "env_operand args command"
  then show "command = skip_env args"
    by cases (auto simp: skip_env_options skip_env_options[of _ "[]", simplified] env_option_def)
qed (simp add: env_operand_skip_env)

lemma trap_script_iff:
  "trap_script (program # args) = Some script \<longleftrightarrow>
     (\<exists>action. action = (if prefix [''--''] args then drop 1 args else args) \<and> action \<noteq> [] \<and>
        \<not> prefix ''-'' (hd action) \<and> script = [''sh'', ''-c'', hd action])"
proof (cases args)
  case Nil
  then show ?thesis by (simp add: trap_script_def)
next
  case (Cons a rest)
  then show ?thesis by (cases rest) (auto simp: trap_script_def)
qed

lemma classify_unwrap:
  "classify_exec (program # args) pf = Unwrap i \<longleftrightarrow>
     (executable_name_lookup_key program pf = Some ''sudo'' \<and> i = args) \<or>
     (executable_name_lookup_key program pf = Some ''env'' \<and> i = skip_env args) \<or>
     (executable_name_lookup_key program pf = Some ''trap'' \<and> trap_script (program # args) = Some i)"
  by (auto simp: classify_exec_def Let_def split: option.split)

lemma runs_classify:
  "runs lits pf c i \<longleftrightarrow> classify_exec c pf = Unwrap i \<or> (\<exists>cs. lits c = Some cs \<and> i \<in> set cs)"
proof (cases c)
  case Nil
  show ?thesis unfolding Nil runs_iff by (auto simp: classify_exec_def)
next
  case (Cons program args)
  show ?thesis
    unfolding Cons runs_iff classify_unwrap trap_script_iff env_operand_iff by blast
qed

lemma classify_verdict:
  "(\<exists>m. classify_exec c pf = Verdict (Some m)) \<longleftrightarrow>
   c \<noteq> [] \<and> executable_name_lookup_key (hd c) pf = Some ''rm'' \<and> rm_args_include_force_option (tl c)"
  by (auto simp: classify_exec_def Let_def split: list.split option.split)

lemma danger_step:
  assumes "\<not> MAX_DANGEROUS_COMMAND_WRAPPER_DEPTH < d"
  shows "dangerous_command_match_with_depth lits win c d pf \<noteq> None \<longleftrightarrow>
    dangerous_alone win pf c \<or>
    (\<exists>i. runs lits pf c i \<and> dangerous_command_match_with_depth lits win i (d + 1) pf \<noteq> None)"
proof -
  let ?D = "dangerous_command_match_with_depth lits win"
  let ?exec = "case classify_exec c pf of Verdict m \<Rightarrow> m | Unwrap inner \<Rightarrow> ?D inner (d + 1) pf"
  let ?script = "case lits c of None \<Rightarrow> None | Some cs \<Rightarrow> find_map (\<lambda>c. ?D c (d + 1) pf) cs"
  have "?D c d pf \<noteq> None \<longleftrightarrow> ?exec \<noteq> None \<or> ?script \<noteq> None \<or> (pf = Windows \<and> win c)"
    using assms by (subst dangerous_command_match_with_depth.simps) (auto split: option.split)
  moreover have "?exec \<noteq> None \<longleftrightarrow> (\<exists>m. classify_exec c pf = Verdict (Some m)) \<or>
      (\<exists>i. classify_exec c pf = Unwrap i \<and> ?D i (d + 1) pf \<noteq> None)"
    by (cases "classify_exec c pf") auto
  moreover have "?script \<noteq> None \<longleftrightarrow> (\<exists>cs i. lits c = Some cs \<and> i \<in> set cs \<and> ?D i (d + 1) pf \<noteq> None)"
    by (cases "lits c") (auto simp: find_map_None)
  ultimately show ?thesis
    unfolding runs_classify dangerous_alone_def classify_verdict by blast
qed

lemma danger_within:
  "m \<le> Suc MAX_DANGEROUS_COMMAND_WRAPPER_DEPTH \<Longrightarrow>
   dangerous_command_match_with_depth lits win c (Suc MAX_DANGEROUS_COMMAND_WRAPPER_DEPTH - m) pf \<noteq> None \<longleftrightarrow>
   (\<exists>n i. n < m \<and> (runs lits pf ^^ n) c i \<and> dangerous_alone win pf i) \<or> (\<exists>i. (runs lits pf ^^ m) c i)"
proof (induction m arbitrary: c)
  case 0
  then show ?case by (subst dangerous_command_match_with_depth.simps) simp
next
  case (Suc m)
  let ?R = "runs lits pf" and ?N = "Suc MAX_DANGEROUS_COMMAND_WRAPPER_DEPTH"
  have depth: "\<not> MAX_DANGEROUS_COMMAND_WRAPPER_DEPTH < ?N - Suc m" "?N - Suc m + 1 = ?N - m"
    using Suc.prems by auto
  have first: "(?R ^^ Suc n) c i \<longleftrightarrow> (\<exists>j. ?R c j \<and> (?R ^^ n) j i)" for n i
    using relpowp_Suc_D2 [of n ?R c i] relpowp_Suc_I2 [of ?R c _ n i] by blast
  have split: "(\<exists>n i. n < Suc m \<and> (?R ^^ n) c i \<and> dangerous_alone win pf i) \<longleftrightarrow>
      dangerous_alone win pf c \<or> (\<exists>n i. n < m \<and> (?R ^^ Suc n) c i \<and> dangerous_alone win pf i)"
    (is "?l \<longleftrightarrow> ?r")
  proof
    assume ?l
    then obtain n i where "n < Suc m" "(?R ^^ n) c i" "dangerous_alone win pf i" by blast
    then show ?r by (cases n) auto
  next
    assume ?r
    then show ?l
    proof
      assume "dangerous_alone win pf c"
      then have "(0::nat) < Suc m \<and> (?R ^^ 0) c c \<and> dangerous_alone win pf c" by simp
      then show ?l by blast
    qed (use Suc_mono in blast)
  qed
  show ?case
    unfolding danger_step [OF depth(1)] depth(2) split first using Suc by auto
qed

text \<open>C4: what the classifier reports, without reference to its recursion. A command is reported as
  dangerous exactly if some command it runs, through any number of sudo,
  env, trap and script layers, is dangerous by itself (a forced
  rm, or a Windows rule on Windows), or if there are more than eight layers. So no
  wrapper hides a dangerous command, and nothing else below the depth limit is reported.\<close>

theorem danger_characterisation:
  "dangerous_command_match_for_platform lits win command pf \<noteq> None \<longleftrightarrow>
     (\<exists>inner. (runs lits pf)\<^sup>*\<^sup>* command inner \<and> dangerous_alone win pf inner) \<or>
     (\<exists>inner. (runs lits pf ^^ Suc MAX_DANGEROUS_COMMAND_WRAPPER_DEPTH) command inner)"
  (is "?D \<longleftrightarrow> ?near \<or> ?deep")
proof -
  let ?R = "runs lits pf" and ?N = "Suc MAX_DANGEROUS_COMMAND_WRAPPER_DEPTH"
  have "?D \<longleftrightarrow> (\<exists>n i. n < ?N \<and> (?R ^^ n) command i \<and> dangerous_alone win pf i) \<or> ?deep"
    using danger_within [of ?N lits win command pf]
    by (simp add: dangerous_command_match_for_platform_def)
  moreover have ?deep if "(?R ^^ n) command i" "\<not> n < ?N" for n i
  proof -
    from that(2) have "n = ?N + (n - ?N)" by simp
    with that(1) have "((?R ^^ ?N) OO (?R ^^ (n - ?N))) command i" by (metis relpowp_add)
    then show ?thesis by blast
  qed
  ultimately show ?thesis unfolding rtranclp_power by blast
qed

end
