(* ===== verification/Agent_Path.thy ===== *)
theory Agent_Path
  imports Ava_Prelude
begin

text \<open>
  Addresses of agents, \<^verbatim>\<open>protocol/src/agent_path.rs\<close>. The type wraps a string that has passed
  \<open>validate_absolute_path\<close>; the smart constructors are \<open>from_string\<close>, \<open>join\<close> and \<open>resolve\<close>.
  The results relate the strings to the tree they stand for: a path is either the one outside the
  tree or a list of agent names below the root, and \<open>resolve\<close> on a relative reference is repeated
  \<open>join\<close>.
\<close>

datatype agent_path = AgentPath (as_str: string)

definition ROOT :: string where "ROOT = ''/root''"
definition MORPHEUS :: string where "MORPHEUS = ''/morpheus''"
definition ROOT_SEGMENT :: string where "ROOT_SEGMENT = ''root''"

abbreviation slash :: char where "slash \<equiv> CHR ''/''"

definition agent_name_char :: "char \<Rightarrow> bool" where
  "agent_name_char ch \<longleftrightarrow> is_ascii_lowercase ch \<or> is_ascii_digit ch \<or> ch = CHR ''_''"

definition validate_agent_name :: "string \<Rightarrow> string + unit" where
  "validate_agent_name agent_name =
     (if agent_name = [] then Inl ''agent_name must not be empty''
      else if agent_name = ROOT_SEGMENT then Inl ''agent_name `root` is reserved''
      else if agent_name = ''.'' \<or> agent_name = ''..'' then Inl (''agent_name `'' @ agent_name @ ''` is reserved'')
      else if slash \<in> set agent_name then Inl ''agent_name must not contain `/`''
      else if \<not> list_all agent_name_char agent_name then
        Inl ''agent_name must use only lowercase letters, digits, and underscores''
      else Inr ())"

fun validate_segments :: "string list \<Rightarrow> string + unit" where
  "validate_segments [] = Inr ()"
| "validate_segments (segment # segments) =
     (case validate_agent_name segment of Inl e \<Rightarrow> Inl e | Inr _ \<Rightarrow> validate_segments segments)"

definition absolute_path_error :: string where
  "absolute_path_error = ''absolute agent paths must start with `/root` or be `/morpheus`''"

definition validate_absolute_path :: "string \<Rightarrow> string + unit" where
  "validate_absolute_path path =
     (if path = MORPHEUS then Inr ()
      else case strip_prefix [slash] path of
        None \<Rightarrow> Inl absolute_path_error
      | Some stripped \<Rightarrow>
          (case split_on slash stripped of
             [] \<Rightarrow> Inl ''absolute agent path must not be empty''
           | root # segments \<Rightarrow>
               if root \<noteq> ROOT_SEGMENT then Inl absolute_path_error
               else if suffix [slash] stripped then Inl ''absolute agent path must not end with `/`''
               else validate_segments segments))"

definition validate_relative_reference :: "string \<Rightarrow> string + unit" where
  "validate_relative_reference reference =
     (if suffix [slash] reference then Inl ''relative agent path must not end with `/`''
      else validate_segments (split_on slash reference))"

definition from_string :: "string \<Rightarrow> string + agent_path" where
  "from_string path = (case validate_absolute_path path of Inl e \<Rightarrow> Inl e | Inr _ \<Rightarrow> Inr (AgentPath path))"

definition root_path :: agent_path where "root_path = AgentPath ROOT"
definition morpheus_path :: agent_path where "morpheus_path = AgentPath MORPHEUS"

definition is_root :: "agent_path \<Rightarrow> bool" where "is_root p \<longleftrightarrow> as_str p = ROOT"

definition agent_name :: "agent_path \<Rightarrow> string" where
  "agent_name p =
     (if is_root p then ROOT_SEGMENT
      else let segment = last (split_on slash (as_str p)) in if segment = [] then ROOT_SEGMENT else segment)"

definition agent_join :: "agent_path \<Rightarrow> string \<Rightarrow> string + agent_path" where
  "agent_join p name =
     (case validate_agent_name name of Inl e \<Rightarrow> Inl e | Inr _ \<Rightarrow> from_string (as_str p @ [slash] @ name))"

definition agent_resolve :: "agent_path \<Rightarrow> string \<Rightarrow> string + agent_path" where
  "agent_resolve p reference =
     (if reference = [] then Inl ''agent path must not be empty''
      else if reference = ROOT then Inr root_path
      else if prefix [slash] reference then from_string reference
      else case validate_relative_reference reference of
        Inl e \<Rightarrow> Inl e
      | Inr _ \<Rightarrow> from_string (as_str p @ [slash] @ reference))"

section \<open>The tree of agents\<close>

text \<open>A name an agent can have, and the string of the agent with a given list of names below the root.\<close>

definition valid_name :: "string \<Rightarrow> bool" where
  "valid_name n \<longleftrightarrow> n \<noteq> [] \<and> n \<noteq> ''root'' \<and> list_all agent_name_char n"

definition tree_path :: "string list \<Rightarrow> string" where
  "tree_path names = concat (map (\<lambda>n. slash # n) (''root'' # names))"

definition valid_path :: "agent_path \<Rightarrow> bool" where
  "valid_path p \<longleftrightarrow> as_str p = MORPHEUS \<or> (\<exists>names. list_all valid_name names \<and> as_str p = tree_path names)"

lemma agent_name_char_neq: "agent_name_char ch \<Longrightarrow> ch \<noteq> slash \<and> ch \<noteq> CHR ''.''"
  by (auto simp: agent_name_char_def is_ascii_lowercase_def is_ascii_digit_def)

lemma valid_name_no_slash: "valid_name n \<Longrightarrow> slash \<notin> set n"
  using agent_name_char_neq by (fastforce simp: valid_name_def list_all_iff)

lemma validate_agent_name_iff: "validate_agent_name n = Inr u \<longleftrightarrow> valid_name n"
proof -
  have "n \<noteq> ''.'' \<and> n \<noteq> ''..''" if "valid_name n"
    using that agent_name_char_neq [of "CHR ''.''"] by (auto simp: valid_name_def)
  then show ?thesis using valid_name_no_slash [of n]
    by (auto simp: validate_agent_name_def valid_name_def ROOT_SEGMENT_def)
qed

lemma validate_segments_iff: "validate_segments ns = Inr u \<longleftrightarrow> list_all valid_name ns"
proof (induction ns)
  case (Cons n ns)
  then show ?case by (cases "validate_agent_name n") (auto simp: validate_agent_name_iff [of n "()", symmetric])
qed auto

lemma join_with_tree: "join_with [slash] (n # ns) = n @ concat (map (\<lambda>n. slash # n) ns)"
  by (induction ns arbitrary: n) auto

lemma tree_path_join: "tree_path names = slash # join_with [slash] (''root'' # names)"
  by (simp add: tree_path_def join_with_tree)

lemma split_tree_path:
  "list_all valid_name names \<Longrightarrow> split_on slash (join_with [slash] (''root'' # names)) = ''root'' # names"
  using valid_name_no_slash by (intro split_join_with) (auto simp: list_all_iff)

lemma split_on_suffix: "suffix [c] s \<Longrightarrow> last (split_on c s) = []"
proof -
  assume "suffix [c] s"
  then obtain r where "s = r @ [c]" by (auto simp: suffix_def)
  moreover have "split_on c (r @ [c]) = split_on c r @ [[]]"
    by (induction r) (auto split: list.split)
  ultimately show ?thesis by simp
qed

lemma valid_not_suffix: "list_all valid_name names \<Longrightarrow> names \<noteq> [] \<Longrightarrow> last names \<noteq> []"
  by (auto simp: list_all_iff valid_name_def)

lemma tree_not_morpheus [simp]: "tree_path names \<noteq> MORPHEUS"
  by (simp add: tree_path_def MORPHEUS_def)

lemma validate_absolute_path_iff:
  "validate_absolute_path s = Inr u \<longleftrightarrow> s = MORPHEUS \<or> (\<exists>names. list_all valid_name names \<and> s = tree_path names)"
  (is "?l \<longleftrightarrow> ?r")
proof
  assume l: ?l
  show ?r
  proof (cases "s = MORPHEUS")
    case False
    with l obtain stripped segs where s: "strip_prefix [slash] s = Some stripped"
      and segs: "split_on slash stripped = ''root'' # segs" "validate_segments segs = Inr u"
      by (auto simp: validate_absolute_path_def ROOT_SEGMENT_def split: option.splits list.splits if_splits)
    from s have "s = slash # stripped" by (auto simp: rust_str)
    moreover have "stripped = join_with [slash] (''root'' # segs)"
      using join_split_on [of slash stripped] segs(1) by simp
    ultimately show ?thesis using segs(2) by (auto simp: validate_segments_iff tree_path_join)
  qed simp
next
  assume ?r
  then show ?l
  proof
    assume "\<exists>names. list_all valid_name names \<and> s = tree_path names"
    then obtain names where names: "list_all valid_name names" "s = tree_path names" by blast
    let ?t = "join_with [slash] (''root'' # names)"
    note sp = split_tree_path [OF names(1)]
    have "\<not> suffix [slash] ?t"
      using split_on_suffix [of slash ?t] sp valid_not_suffix [OF names(1)] by (auto split: if_splits)
    moreover have "strip_prefix [slash] s = Some ?t" using names(2) by (simp add: tree_path_join rust_str)
    ultimately show ?thesis using names sp
      by (simp add: validate_absolute_path_def ROOT_SEGMENT_def validate_segments_iff)
  qed (simp add: validate_absolute_path_def)
qed

lemma from_string_Inr: "from_string s = Inr p \<longleftrightarrow> p = AgentPath s \<and> valid_path p"
  using validate_absolute_path_iff [of s "()"]
  by (cases "validate_absolute_path s") (auto simp: from_string_def valid_path_def)

lemma tree_path_snoc: "tree_path (names @ [n]) = tree_path names @ [slash] @ n"
  by (simp add: tree_path_def)

lemma tree_path_append: "ns \<noteq> [] \<Longrightarrow> tree_path (names @ ns) = tree_path names @ [slash] @ join_with [slash] ns"
  by (cases ns) (auto simp: tree_path_def join_with_tree)

lemma tree_path_inj:
  assumes "list_all valid_name a" "list_all valid_name b" "tree_path a = tree_path b"
  shows "a = b"
proof -
  from assms(3) have "join_with [slash] (''root'' # a) = join_with [slash] (''root'' # b)"
    unfolding tree_path_join by (rule list.inject [THEN iffD1, THEN conjunct2])
  then have "split_on slash (join_with [slash] (''root'' # a)) = split_on slash (join_with [slash] (''root'' # b))"
    by (rule arg_cong)
  then have "''root'' # a = ''root'' # b"
    by (simp only: split_tree_path [OF assms(1)] split_tree_path [OF assms(2)])
  then show ?thesis by blast
qed

text \<open>Nothing lies below the path outside the tree.\<close>

lemma morpheus_no_child: "\<not> valid_path (AgentPath (MORPHEUS @ slash # s))"
  by (simp add: valid_path_def MORPHEUS_def tree_path_def)

lemma agent_join_Inr:
  assumes "valid_path p"
  shows "agent_join p n = Inr q \<longleftrightarrow>
    valid_name n \<and> (\<exists>names. list_all valid_name names \<and> as_str p = tree_path names \<and>
      q = AgentPath (tree_path (names @ [n])))" (is "?l \<longleftrightarrow> ?r")
proof
  assume l: ?l
  then have n: "valid_name n" and q: "q = AgentPath (as_str p @ [slash] @ n)" "valid_path q"
    using validate_agent_name_iff [of n "()"]
    by (auto simp: agent_join_def from_string_Inr split: sum.splits)
  with morpheus_no_child have "as_str p \<noteq> MORPHEUS" by auto
  with assms q n show ?r by (auto simp: valid_path_def tree_path_snoc)
next
  assume ?r
  then obtain names where n: "valid_name n" "list_all valid_name names" "as_str p = tree_path names"
    "q = AgentPath (tree_path (names @ [n]))" by blast
  then have "valid_path q" unfolding valid_path_def by (intro disjI2 exI [of _ "names @ [n]"]) simp
  with n show ?l using validate_agent_name_iff [of n "()"]
    by (simp add: agent_join_def from_string_Inr tree_path_snoc)
qed

fun join_all :: "agent_path \<Rightarrow> string list \<Rightarrow> string + agent_path" where
  "join_all p [] = Inr p"
| "join_all p (n # ns) = (case agent_join p n of Inl e \<Rightarrow> Inl e | Inr q \<Rightarrow> join_all q ns)"

lemma join_all_tree:
  assumes "list_all valid_name names"
  shows "join_all (AgentPath (tree_path names)) ns = Inr q \<longleftrightarrow>
    list_all valid_name ns \<and> q = AgentPath (tree_path (names @ ns))"
  using assms
proof (induction ns arbitrary: names)
  case (Cons n ns)
  let ?p = "AgentPath (tree_path names)"
  have p: "valid_path ?p" using Cons.prems by (auto simp: valid_path_def)
  have j: "agent_join ?p n = Inr r \<longleftrightarrow> valid_name n \<and> r = AgentPath (tree_path (names @ [n]))" for r
    using agent_join_Inr [OF p, of n r] Cons.prems tree_path_inj by auto
  show ?case
  proof (cases "valid_name n")
    case True
    with j have "agent_join ?p n = Inr (AgentPath (tree_path (names @ [n])))" by simp
    with True Cons.IH [of "names @ [n]"] Cons.prems show ?thesis by simp
  next
    case False
    with j have "agent_join ?p n \<noteq> Inr r" for r by simp
    with False show ?thesis by (cases "agent_join ?p n") auto
  qed
qed auto

lemma relative_split_not_suffix:
  "list_all valid_name (split_on slash r) \<Longrightarrow> \<not> suffix [slash] r"
  using split_on_suffix [of slash r] valid_not_suffix [of "split_on slash r"] by auto

lemma validate_relative_iff:
  "validate_relative_reference r = Inr u \<longleftrightarrow> list_all valid_name (split_on slash r)"
  using relative_split_not_suffix [of r]
  by (auto simp: validate_relative_reference_def validate_segments_iff)

section \<open>Properties\<close>

text \<open>The validation of agent paths accepts exactly the path outside the tree and the paths of the
  tree: /root followed by names that are not empty, not root and made of
  lower-case letters, digits and underscores. What is accepted is kept as it is, and different lists
  of names have different paths.\<close>

theorem from_string_accepts_tree:
  "(from_string s = Inr p \<longleftrightarrow>
      p = AgentPath s \<and> (s = ''/morpheus'' \<or> (\<exists>names. list_all valid_name names \<and> s = tree_path names))) \<and>
   inj_on tree_path {names. list_all valid_name names}"
  using tree_path_inj by (auto simp: from_string_Inr valid_path_def MORPHEUS_def inj_on_def)

text \<open>A child has the name it was created with, is a valid path itself, and comes from one
  parent and one name only.\<close>

theorem join_name_roundtrip:
  assumes "valid_path p" and "agent_join p n = Inr q"
  shows "valid_path q \<and> agent_name q = n \<and> \<not> is_root q \<and>
    (\<forall>p' n'. valid_path p' \<longrightarrow> agent_join p' n' = Inr q \<longrightarrow> p' = p \<and> n' = n)"
proof -
  from assms obtain names where n: "valid_name n" "list_all valid_name names"
    "as_str p = tree_path names" "q = AgentPath (tree_path (names @ [n]))"
    using agent_join_Inr by blast
  have all: "list_all valid_name (names @ [n])" using n by simp
  have "valid_path q" unfolding valid_path_def using n(4) all by (intro disjI2 exI [of _ "names @ [n]"]) simp
  moreover have r: "\<not> is_root q"
    using tree_path_inj [OF all, of "[]"] n(4) by (auto simp: is_root_def ROOT_def tree_path_def)
  moreover have "split_on slash (as_str q) = [] # ''root'' # names @ [n]"
    using split_tree_path [OF all] n(4) by (simp add: tree_path_join)
  then have "agent_name q = n" using r n(1) by (simp add: agent_name_def valid_name_def)
  moreover have "p' = p \<and> n' = n" if "valid_path p'" "agent_join p' n' = Inr q" for p' n'
  proof -
    from that obtain ns where ns: "valid_name n'" "list_all valid_name ns" "as_str p' = tree_path ns"
      "q = AgentPath (tree_path (ns @ [n']))" using agent_join_Inr by blast
    with n all have "ns @ [n'] = names @ [n]" by (intro tree_path_inj) auto
    with ns n show ?thesis by (cases p; cases p') simp
  qed
  ultimately show ?thesis by blast
qed

theorem join_name_roundtrip_witness:
  "agent_join root_path ''a'' = Inr (AgentPath ''/root/a'') \<and> agent_name (AgentPath ''/root/a'') = ''a''"
proof -
  have v: "valid_path root_path"
    by (auto simp: valid_path_def root_path_def ROOT_def tree_path_def intro!: exI [of _ "[]"])
  have j: "agent_join root_path ''a'' = Inr (AgentPath ''/root/a'')" by code_simp
  from join_name_roundtrip [OF v j] j show ?thesis by blast
qed

text \<open>Resolving a relative reference is the same as walking down the tree one name at a time: it
  succeeds with a path exactly if joining the segments of the reference one after the other does.
  An absolute reference does not depend on where it is resolved.\<close>

theorem resolve_is_descent:
  assumes "valid_path p" and "r \<noteq> []"
  shows "if prefix ''/'' r then agent_resolve p r = from_string r
         else agent_resolve p r = Inr q \<longleftrightarrow> join_all p (split_on slash r) = Inr q"
proof (cases "prefix [slash] r")
  case True
  have "from_string ROOT = Inr root_path"
    by (auto simp: from_string_Inr root_path_def valid_path_def ROOT_def tree_path_def intro!: exI [of _ "[]"])
  with True assms(2) show ?thesis by (auto simp: agent_resolve_def)
next
  case False
  then have rel: "agent_resolve p r = Inr q \<longleftrightarrow>
      list_all valid_name (split_on slash r) \<and> from_string (as_str p @ [slash] @ r) = Inr q"
    using assms(2) validate_relative_iff [of r "()"]
    by (cases "validate_relative_reference r") (auto simp: agent_resolve_def ROOT_def)
  show ?thesis
  proof (cases "as_str p = MORPHEUS")
    case True
    then have "agent_join p n \<noteq> Inr q'" for n q'
      using agent_join_Inr [OF assms(1)] tree_not_morpheus by metis
    then have "join_all p (split_on slash r) \<noteq> Inr q"
      using split_on_nonempty [of slash r]
      by (cases "split_on slash r"; cases "agent_join p (hd (split_on slash r))") auto
    moreover have "from_string (as_str p @ [slash] @ r) \<noteq> Inr q"
      using True morpheus_no_child by (auto simp: from_string_Inr)
    ultimately show ?thesis using rel False by simp
  next
    case not_morpheus: False
    with assms(1) obtain names where names: "list_all valid_name names" "p = AgentPath (tree_path names)"
      by (cases p) (auto simp: valid_path_def)
    have "as_str p @ [slash] @ r = tree_path (names @ split_on slash r)"
      using names(2) tree_path_append [of "split_on slash r" names] by simp
    moreover have "valid_path (AgentPath (tree_path (names @ split_on slash r)))"
      if "list_all valid_name (split_on slash r)"
      unfolding valid_path_def using that names(1)
      by (intro disjI2 exI [of _ "names @ split_on slash r"]) simp
    ultimately show ?thesis using rel False join_all_tree [OF names(1)] names(2)
      by (auto simp: from_string_Inr)
  qed
qed

theorem resolve_is_descent_witness:
  "agent_resolve root_path ''a/b'' = Inr (AgentPath ''/root/a/b'') \<longleftrightarrow>
   join_all root_path [''a'', ''b''] = Inr (AgentPath ''/root/a/b'')"
proof -
  have v: "valid_path root_path"
    by (auto simp: valid_path_def root_path_def ROOT_def tree_path_def intro!: exI [of _ "[]"])
  from resolve_is_descent [OF v, of "''a/b''" "AgentPath ''/root/a/b''"] show ?thesis by simp
qed

end
