(* ===== verification/Agent_Registry.thy ===== *)
theory Agent_Registry
  imports Agent_Path
begin

text \<open>
  The registry of the agents of a user session, \<open>ava-rs/core/src/agent/registry.rs\<close>, with
  \<open>AgentMetadata\<close> of \<open>agent/types.rs\<close>. The registry is shared by concurrent callers: its indices are
  behind a mutex, the number of spawned threads is an atomic counter beside them. The operations are
  functions on the registry; their atomic parts are the steps of a transition system whose actors are
  the calls of \<open>reserve_spawn_slot\<close> in their compare-and-exchange loop, the live
  \<open>SpawnReservation\<close>s, and the calls that have yet to give their slot back.

  A thread id is its display string. The environments of an evicted agent are values of a type
  parameter; the random choice of a nickname is an argument.
\<close>

section \<open>State\<close>

record agent_metadata =
  agent_id :: "string option"
  agent_path :: "agent_path option"
  agent_nickname :: "string option"
  agent_role :: "string option"

definition default_metadata :: agent_metadata where
  "default_metadata =
     \<lparr>agent_id = None, agent_path = None, agent_nickname = None, agent_role = None\<rparr>"

record 'e registered_agent =
  reg_path :: string
  evicted_environments :: "'e list option"

definition registered_agent_new :: "string \<Rightarrow> 'e registered_agent" where
  "registered_agent_new p = \<lparr>reg_path = p, evicted_environments = None\<rparr>"

record 'e registry =
  agent_tree :: "string \<rightharpoonup> agent_metadata"
  thread_paths :: "string \<rightharpoonup> 'e registered_agent"
  used_agent_nicknames :: "string set"
  nickname_reset_count :: nat
  total_count :: nat

definition registry_default :: "'e registry" where
  "registry_default =
     \<lparr>agent_tree = Map.empty, thread_paths = Map.empty, used_agent_nicknames = {},
      nickname_reset_count = 0, total_count = 0\<rparr>"

text \<open>\<open>AtomicUsize::fetch_add\<close> and \<open>fetch_sub\<close> wrap around.\<close>

definition fetch_add_one :: "'e registry \<Rightarrow> 'e registry" where
  "fetch_add_one r = r\<lparr>total_count := (total_count r + 1) mod 2 ^ 64\<rparr>"

definition fetch_sub_one :: "'e registry \<Rightarrow> 'e registry" where
  "fetch_sub_one r = r\<lparr>total_count := (total_count r + (2 ^ 64 - 1)) mod 2 ^ 64\<rparr>"

section \<open>Nicknames\<close>

definition ordinal_suffix :: "nat \<Rightarrow> string" where
  "ordinal_suffix value =
     (if 11 \<le> value mod 100 \<and> value mod 100 \<le> 13 then ''th''
      else if value mod 10 = 1 then ''st''
      else if value mod 10 = 2 then ''nd''
      else if value mod 10 = 3 then ''rd''
      else ''th'')"

definition format_agent_nickname :: "string \<Rightarrow> nat \<Rightarrow> string" where
  "format_agent_nickname name reset_count =
     (if reset_count = 0 then name
      else name @ '' the '' @ show_nat (reset_count + 1) @ ordinal_suffix (reset_count + 1))"

definition reserve_agent_nickname ::
  "(string list \<Rightarrow> string option) \<Rightarrow> 'e registry \<Rightarrow> string list \<Rightarrow> string option
    \<Rightarrow> 'e registry \<times> string option" where
  "reserve_agent_nickname pick r names preferred =
     (let use = (\<lambda>r' nick.
            (r'\<lparr>used_agent_nicknames := insert nick (used_agent_nicknames r')\<rparr>, Some nick))
      in case preferred of
        Some p \<Rightarrow> use r p
      | None \<Rightarrow>
          if names = [] then (r, None)
          else
            let available = filter (\<lambda>n. n \<notin> used_agent_nicknames r)
                  (map (\<lambda>n. format_agent_nickname n (nickname_reset_count r)) names)
            in case pick available of
                 Some n \<Rightarrow> use r n
               | None \<Rightarrow>
                   let r' = r\<lparr>used_agent_nicknames := {},
                              nickname_reset_count := nickname_reset_count r + 1\<rparr>
                   in case pick names of
                        None \<Rightarrow> (r', None)
                      | Some n \<Rightarrow> use r' (format_agent_nickname n (nickname_reset_count r')))"

section \<open>Registration\<close>

definition is_root_agent :: "agent_metadata \<Rightarrow> bool" where
  "is_root_agent md = (case agent_path md of None \<Rightarrow> False | Some p \<Rightarrow> is_root p)"

definition release_agent_entry :: "'e registry \<Rightarrow> string \<Rightarrow> 'e registry \<times> bool" where
  "release_agent_entry r thread_id =
     (case thread_paths r thread_id of
        None \<Rightarrow> (r, False)
      | Some agent \<Rightarrow>
          let r1 = r\<lparr>thread_paths := (thread_paths r)(thread_id := None)\<rparr>
          in case agent_tree r (reg_path agent) of
               None \<Rightarrow> (r1, False)
             | Some md \<Rightarrow>
                 (r1\<lparr>agent_tree := (agent_tree r)(reg_path agent := None)\<rparr>, \<not> is_root_agent md))"

definition release_spawned_thread :: "'e registry \<Rightarrow> string \<Rightarrow> 'e registry" where
  "release_spawned_thread r thread_id =
     (let (r', removed_counted_agent) = release_agent_entry r thread_id
      in if removed_counted_agent then fetch_sub_one r' else r')"

definition register_root_thread :: "'e registry \<Rightarrow> string \<Rightarrow> 'e registry" where
  "register_root_thread r thread_id =
     (let root_md = (case agent_tree r ROOT of
            Some md \<Rightarrow> md
          | None \<Rightarrow> default_metadata\<lparr>agent_id := Some thread_id, agent_path := Some root_path\<rparr>);
          r1 = r\<lparr>agent_tree := (agent_tree r)(ROOT \<mapsto> root_md)\<rparr>
      in case agent_id root_md of
           None \<Rightarrow> r1
         | Some t \<Rightarrow>
             r1\<lparr>thread_paths := (thread_paths r1)(t \<mapsto> registered_agent_new ROOT)\<rparr>)"

definition agent_id_for_path :: "'e registry \<Rightarrow> agent_path \<Rightarrow> string option" where
  "agent_id_for_path r p = Option.bind (agent_tree r (as_str p)) agent_id"

definition agent_metadata_for_thread :: "'e registry \<Rightarrow> string \<Rightarrow> agent_metadata option" where
  "agent_metadata_for_thread r thread_id =
     Option.bind (thread_paths r thread_id) (\<lambda>agent. agent_tree r (reg_path agent))"

definition update_registered ::
  "'e registry \<Rightarrow> string \<Rightarrow> ('e registered_agent \<Rightarrow> 'e registered_agent) \<Rightarrow> 'e registry" where
  "update_registered r thread_id f =
     (case thread_paths r thread_id of
        None \<Rightarrow> r
      | Some agent \<Rightarrow> r\<lparr>thread_paths := (thread_paths r)(thread_id \<mapsto> f agent)\<rparr>)"

definition save_evicted_environments :: "'e registry \<Rightarrow> string \<Rightarrow> 'e list \<Rightarrow> 'e registry" where
  "save_evicted_environments r thread_id envs =
     update_registered r thread_id (\<lambda>a. a\<lparr>evicted_environments := Some envs\<rparr>)"

definition evicted_environments_of :: "'e registry \<Rightarrow> string \<Rightarrow> 'e list option" where
  "evicted_environments_of r thread_id =
     Option.bind (thread_paths r thread_id) evicted_environments"

definition clear_evicted_environments :: "'e registry \<Rightarrow> string \<Rightarrow> 'e registry" where
  "clear_evicted_environments r thread_id =
     update_registered r thread_id (\<lambda>a. a\<lparr>evicted_environments := None\<rparr>)"

definition is_live :: "agent_metadata \<Rightarrow> bool" where
  "is_live md \<longleftrightarrow> agent_id md \<noteq> None \<and> \<not> is_root_agent md"

text \<open>
  \<open>live_agents\<close> returns values of a hash map, one for every key and in no particular order:
  the set of its entries.
\<close>

definition live_agents :: "'e registry \<Rightarrow> (string \<times> agent_metadata) set" where
  "live_agents r = {(k, md). agent_tree r k = Some md \<and> is_live md}"

definition agent_key :: "agent_metadata \<Rightarrow> string \<Rightarrow> string" where
  "agent_key md thread_id =
     (case agent_path md of Some p \<Rightarrow> as_str p | None \<Rightarrow> ''thread:'' @ thread_id)"

definition register_spawned_thread :: "'e registry \<Rightarrow> agent_metadata \<Rightarrow> 'e registry" where
  "register_spawned_thread r md =
     (case agent_id md of
        None \<Rightarrow> r
      | Some thread_id \<Rightarrow>
          let key = agent_key md thread_id;
              nicknames = (case agent_nickname md of
                None \<Rightarrow> used_agent_nicknames r
              | Some n \<Rightarrow> insert n (used_agent_nicknames r));
              paths1 = (thread_paths r)(thread_id \<mapsto> registered_agent_new key);
              tree1 = (case thread_paths r thread_id of
                Some previous \<Rightarrow>
                  if reg_path previous \<noteq> key then (agent_tree r)(reg_path previous := None)
                  else agent_tree r
              | None \<Rightarrow> agent_tree r);
              paths2 = (case Option.bind (tree1 key) agent_id of
                Some previous_id \<Rightarrow>
                  if previous_id \<noteq> thread_id then paths1(previous_id := None) else paths1
              | None \<Rightarrow> paths1)
          in r\<lparr>agent_tree := tree1(key \<mapsto> md), thread_paths := paths2,
               used_agent_nicknames := nicknames\<rparr>)"

datatype agent_error =
    AgentLimitReached nat
  | UnsupportedOperation string

definition registry_reserve_agent_path ::
  "'e registry \<Rightarrow> agent_path \<Rightarrow> 'e registry \<times> (agent_error + unit)" where
  "registry_reserve_agent_path r p =
     (case agent_tree r (as_str p) of
        Some _ \<Rightarrow>
          (r, Inl (UnsupportedOperation (''agent path `'' @ as_str p @ ''` already exists'')))
      | None \<Rightarrow>
          (r\<lparr>agent_tree := (agent_tree r)(as_str p \<mapsto> default_metadata\<lparr>agent_path := Some p\<rparr>)\<rparr>,
           Inr ()))"

definition release_reserved_agent_path :: "'e registry \<Rightarrow> agent_path \<Rightarrow> 'e registry" where
  "release_reserved_agent_path r p =
     (case agent_tree r (as_str p) of
        None \<Rightarrow> r
      | Some md \<Rightarrow>
          if agent_id md = None then r\<lparr>agent_tree := (agent_tree r)(as_str p := None)\<rparr> else r)"

section \<open>Reservations\<close>

record spawn_reservation =
  active :: bool
  reserved_agent_nickname :: "string option"
  reserved_agent_path :: "agent_path option"

definition reservation_new :: spawn_reservation where
  "reservation_new = \<lparr>active = True, reserved_agent_nickname = None, reserved_agent_path = None\<rparr>"

definition reserve_agent_nickname_with_preference ::
  "(string list \<Rightarrow> string option) \<Rightarrow> 'e registry \<Rightarrow> spawn_reservation \<Rightarrow> string list \<Rightarrow> string option
    \<Rightarrow> 'e registry \<times> spawn_reservation \<times> (agent_error + string)" where
  "reserve_agent_nickname_with_preference pick r res names preferred =
     (case reserve_agent_nickname pick r names preferred of
        (r', None) \<Rightarrow> (r', res, Inl (UnsupportedOperation ''no available agent nicknames''))
      | (r', Some n) \<Rightarrow> (r', res\<lparr>reserved_agent_nickname := Some n\<rparr>, Inr n))"

definition reserve_agent_path ::
  "'e registry \<Rightarrow> spawn_reservation \<Rightarrow> agent_path
    \<Rightarrow> 'e registry \<times> spawn_reservation \<times> (agent_error + unit)" where
  "reserve_agent_path r res p =
     (case registry_reserve_agent_path r p of
        (r', Inl e) \<Rightarrow> (r', res, Inl e)
      | (r', Inr _) \<Rightarrow> (r', res\<lparr>reserved_agent_path := Some p\<rparr>, Inr ()))"

definition release_reservation_path :: "'e registry \<Rightarrow> spawn_reservation \<Rightarrow> 'e registry" where
  "release_reservation_path r res =
     (case reserved_agent_path res of None \<Rightarrow> r | Some p \<Rightarrow> release_reserved_agent_path r p)"

definition drop_reservation :: "'e registry \<Rightarrow> spawn_reservation \<Rightarrow> 'e registry" where
  "drop_reservation r res =
     (if active res then fetch_sub_one (release_reservation_path r res) else r)"

text \<open>\<open>commit\<close> consumes the reservation, which is dropped at its end.\<close>

definition commit_reservation ::
  "'e registry \<Rightarrow> spawn_reservation \<Rightarrow> agent_metadata \<Rightarrow> 'e registry" where
  "commit_reservation r res md =
     (let res1 = res\<lparr>reserved_agent_nickname := None, reserved_agent_path := None\<rparr>;
          r1 = register_spawned_thread r md
      in drop_reservation r1 (res1\<lparr>active := False\<rparr>))"

text \<open>\<open>reserve_spawn_slot\<close> when no other caller interferes with its loop.\<close>

definition reserve_spawn_slot ::
  "'e registry \<Rightarrow> nat option \<Rightarrow> 'e registry \<times> (agent_error + spawn_reservation)" where
  "reserve_spawn_slot r max_threads =
     (case max_threads of
        Some m \<Rightarrow>
          if total_count r \<ge> m then (r, Inl (AgentLimitReached m))
          else (r\<lparr>total_count := total_count r + 1\<rparr>, Inr reservation_new)
      | None \<Rightarrow> (fetch_add_one r, Inr reservation_new))"

section \<open>The transition system\<close>

datatype actor =
    Trying nat nat  \<comment> \<open>the loop of \<open>try_increment_spawned\<close>: \<open>max_threads\<close> and \<open>current\<close>\<close>
  | Holding spawn_reservation
  | Releasing  \<comment> \<open>about to \<open>fetch_sub\<close>\<close>

record 'e system =
  reg :: "'e registry"
  actors :: "actor list"

datatype 'e registry_call =
    ReserveSlot "nat option"
  | LimitReached nat
  | SlotTaken
  | Retry
  | ReserveNickname "string list" "string option"
  | ReservePath agent_path
  | Commit agent_metadata
  | DropReservation
  | GiveBack
  | Release string
  | RegisterRoot string
  | SaveEvicted string "'e list"
  | ClearEvicted string

inductive registry_step ::
  "'e system \<Rightarrow> 'e registry_call \<Rightarrow> 'e system \<Rightarrow> bool" where
  reserve_unlimited:
    "registry_step s (ReserveSlot None)
       (s\<lparr>reg := fetch_add_one (reg s), actors := Holding reservation_new # actors s\<rparr>)"
| reserve_load:
    "registry_step s (ReserveSlot (Some m))
       (s\<lparr>actors := Trying m (total_count (reg s)) # actors s\<rparr>)"
| limit_reached:
    "actors s = xs @ Trying m c # ys \<Longrightarrow> m \<le> c \<Longrightarrow>
       registry_step s (LimitReached m) (s\<lparr>actors := xs @ ys\<rparr>)"
| exchange:
    "actors s = xs @ Trying m c # ys \<Longrightarrow> c < m \<Longrightarrow> total_count (reg s) = c \<Longrightarrow>
       registry_step s SlotTaken
         (s\<lparr>reg := (reg s)\<lparr>total_count := c + 1\<rparr>, actors := xs @ Holding reservation_new # ys\<rparr>)"
| exchange_fails:
    "actors s = xs @ Trying m c # ys \<Longrightarrow> c < m \<Longrightarrow>
       registry_step s Retry (s\<lparr>actors := xs @ Trying m (total_count (reg s)) # ys\<rparr>)"
| nickname:
    "actors s = xs @ Holding res # ys \<Longrightarrow>
       reserve_agent_nickname_with_preference pick (reg s) res names pref = (r', res', out) \<Longrightarrow>
       registry_step s (ReserveNickname names pref) (s\<lparr>reg := r', actors := xs @ Holding res' # ys\<rparr>)"
| path:
    "actors s = xs @ Holding res # ys \<Longrightarrow>
       reserve_agent_path (reg s) res p = (r', res', out) \<Longrightarrow>
       registry_step s (ReservePath p) (s\<lparr>reg := r', actors := xs @ Holding res' # ys\<rparr>)"
| commit:
    "actors s = xs @ Holding res # ys \<Longrightarrow>
       registry_step s (Commit md)
         (s\<lparr>reg := commit_reservation (reg s) res md, actors := xs @ ys\<rparr>)"
| drop:
    "actors s = xs @ Holding res # ys \<Longrightarrow> active res \<Longrightarrow>
       registry_step s DropReservation
         (s\<lparr>reg := release_reservation_path (reg s) res, actors := xs @ Releasing # ys\<rparr>)"
| give_back:
    "actors s = xs @ Releasing # ys \<Longrightarrow>
       registry_step s GiveBack (s\<lparr>reg := fetch_sub_one (reg s), actors := xs @ ys\<rparr>)"
| release:
    "release_agent_entry (reg s) t = (r', counted) \<Longrightarrow>
       registry_step s (Release t)
         (s\<lparr>reg := r', actors := (if counted then Releasing # actors s else actors s)\<rparr>)"
| register_root:
    "registry_step s (RegisterRoot t) (s\<lparr>reg := register_root_thread (reg s) t\<rparr>)"
| save_evicted:
    "registry_step s (SaveEvicted t envs) (s\<lparr>reg := save_evicted_environments (reg s) t envs\<rparr>)"
| clear_evicted:
    "registry_step s (ClearEvicted t) (s\<lparr>reg := clear_evicted_environments (reg s) t\<rparr>)"

text \<open>
  The states that a run of calls leads to, when every call satisfies \<open>P\<close> in the state it is
  made in.
\<close>

inductive registry_run ::
  "('e system \<Rightarrow> 'e registry_call \<Rightarrow> bool) \<Rightarrow> 'e registry_call list \<Rightarrow> 'e system \<Rightarrow> bool" for P where
  start: "registry_run P [] \<lparr>reg = registry_default, actors = []\<rparr>"
| more: "registry_run P calls s \<Longrightarrow> P s c \<Longrightarrow> registry_step s c s' \<Longrightarrow>
    registry_run P (calls @ [c]) s'"

inductive_cases registry_step_cases: "registry_step s c s'"

section \<open>Live agents and the tree\<close>

definition live_keys :: "'e registry \<Rightarrow> string set" where
  "live_keys r = {k. \<exists>md. agent_tree r k = Some md \<and> is_live md}"

named_theorems registry_simps \<open>what the operations do to the tree, the index and the counter\<close>

lemma card_live_agents: "card (live_agents r) = card (live_keys r)"
proof -
  have "live_keys r = fst ` live_agents r"
    by (force simp: live_keys_def live_agents_def)
  moreover have "inj_on fst (live_agents r)"
    by (auto simp: inj_on_def live_agents_def)
  ultimately show ?thesis by (simp add: card_image)
qed

lemma live_keys_cong: "agent_tree r = agent_tree r' \<Longrightarrow> live_keys r = live_keys r'"
  by (simp add: live_keys_def)

lemma live_keys_tree_update:
  "live_keys (r\<lparr>agent_tree := t(k := None)\<rparr>) = live_keys (r\<lparr>agent_tree := t\<rparr>) - {k}"
  "live_keys (r\<lparr>agent_tree := t(k \<mapsto> md)\<rparr>) =
     (if is_live md then insert k (live_keys (r\<lparr>agent_tree := t\<rparr>))
      else live_keys (r\<lparr>agent_tree := t\<rparr>) - {k})"
  by (auto simp: live_keys_def)

lemma finite_live_keys: "finite (dom (agent_tree r)) \<Longrightarrow> finite (live_keys r)"
  by (rule finite_subset [of _ "dom (agent_tree r)"]) (auto simp: live_keys_def)

lemma live_keys_fetch [registry_simps]:
  "live_keys (fetch_add_one r) = live_keys r"
  "live_keys (fetch_sub_one r) = live_keys r"
  "live_keys (r\<lparr>total_count := n\<rparr>) = live_keys r"
  by (simp_all add: fetch_add_one_def fetch_sub_one_def live_keys_def)

section \<open>The index\<close>

text \<open>Every registered thread leads to an entry of the tree that carries its id.\<close>

definition index_ok :: "'e registry \<Rightarrow> bool" where
  "index_ok r \<longleftrightarrow>
     (\<forall>t a. thread_paths r t = Some a \<longrightarrow>
        (\<exists>md. agent_tree r (reg_path a) = Some md \<and> agent_id md = Some t))"

lemma index_okD:
  "index_ok r \<Longrightarrow> thread_paths r t = Some a \<Longrightarrow>
     \<exists>md. agent_tree r (reg_path a) = Some md \<and> agent_id md = Some t"
  by (simp add: index_ok_def)

lemma index_ok_fetch [registry_simps]:
  "index_ok (fetch_add_one r) \<longleftrightarrow> index_ok r"
  "index_ok (fetch_sub_one r) \<longleftrightarrow> index_ok r"
  "index_ok (r\<lparr>total_count := n\<rparr>) \<longleftrightarrow> index_ok r"
  by (simp_all add: fetch_add_one_def fetch_sub_one_def index_ok_def)

lemma index_ok_default: "index_ok registry_default"
  by (simp add: index_ok_def registry_default_def)

lemma index_ok_root: "index_ok r \<Longrightarrow> index_ok (register_root_thread r t)"
  by (auto simp: register_root_thread_def index_ok_def Let_def registered_agent_new_def
      split: option.splits) (metis option.distinct(1) option.inject)+

lemma index_ok_register: 
  assumes "index_ok r"
  shows "index_ok (register_spawned_thread r md)"
proof (cases "agent_id md")
  case None
  with assms show ?thesis by (simp add: register_spawned_thread_def)
next
  case (Some tid)
  show ?thesis
    unfolding index_ok_def
  proof (intro allI impI)
    fix t a
    assume a: "thread_paths (register_spawned_thread r md) t = Some a"
    show "\<exists>md'. agent_tree (register_spawned_thread r md) (reg_path a) = Some md' \<and> agent_id md' = Some t"
    proof (cases "t = tid")
      case True
      with a Some show ?thesis
        by (auto simp: register_spawned_thread_def registered_agent_new_def Let_def
            split: option.splits if_splits)
    next
      case False
      with a Some have old: "thread_paths r t = Some a"
        by (auto simp: register_spawned_thread_def Let_def split: option.splits if_splits)
      from index_okD [OF assms old] obtain md' where
        md': "agent_tree r (reg_path a) = Some md'" "agent_id md' = Some t" by blast
      have "reg_path a \<noteq> agent_key md tid"
        using a md' Some False
        by (auto simp: register_spawned_thread_def Let_def split: option.splits if_splits
            dest: index_okD [OF assms])
      moreover have "reg_path prev \<noteq> reg_path a" if "thread_paths r tid = Some prev" for prev
        using index_okD [OF assms that] md' False by auto
      ultimately show ?thesis
        using md' Some by (auto simp: register_spawned_thread_def Let_def split: option.splits)
    qed
  qed
qed

lemma index_ok_release:
  assumes "index_ok r" "release_agent_entry r t = (r', counted)"
  shows "index_ok r'"
proof (cases "thread_paths r t")
  case None
  with assms show ?thesis by (simp add: release_agent_entry_def)
next
  case (Some a)
  from index_okD [OF assms(1) Some] obtain md where
    md: "agent_tree r (reg_path a) = Some md" "agent_id md = Some t" by blast
  have "reg_path a' \<noteq> reg_path a" if "thread_paths r t' = Some a'" "t' \<noteq> t" for t' a'
    using index_okD [OF assms(1) that(1)] that(2) md by auto
  moreover have "r' = r\<lparr>thread_paths := (thread_paths r)(t := None),
      agent_tree := (agent_tree r)(reg_path a := None)\<rparr>"
    using Some md assms(2) by (simp add: release_agent_entry_def)
  ultimately show ?thesis
    using assms(1) by (auto simp: index_ok_def)
qed

lemma index_ok_new_entry:
  "index_ok r \<Longrightarrow> agent_tree r k = None \<Longrightarrow> index_ok (r\<lparr>agent_tree := (agent_tree r)(k \<mapsto> md)\<rparr>)"
  by (auto simp: index_ok_def) (metis option.distinct(1))

lemma index_ok_reserve_path:
  "index_ok r \<Longrightarrow> reserve_agent_path r res p = (r', res', out) \<Longrightarrow> index_ok r'"
  by (auto simp: reserve_agent_path_def registry_reserve_agent_path_def intro: index_ok_new_entry
      split: option.splits prod.splits sum.splits)

lemma index_ok_release_path:
  assumes "index_ok r"
  shows "index_ok (release_reservation_path r res)"
proof -
  have "index_ok (release_reserved_agent_path r p)" for p
    using assms
    by (auto simp: release_reserved_agent_path_def index_ok_def split: option.splits)
      (metis option.distinct(1) option.sel)
  then show ?thesis
    using assms by (simp add: release_reservation_path_def split: option.splits)
qed

lemma index_ok_update:
  "index_ok r \<Longrightarrow> (\<And>a. reg_path (f a) = reg_path a) \<Longrightarrow> index_ok (update_registered r t f)"
  by (auto simp: update_registered_def index_ok_def split: option.splits)

lemma nickname_keeps:
  "reserve_agent_nickname_with_preference pick r res names pref = (r', res', out) \<Longrightarrow>
     agent_tree r' = agent_tree r \<and> thread_paths r' = thread_paths r \<and>
     total_count r' = total_count r \<and> active res' = active res"
  by (auto simp: reserve_agent_nickname_with_preference_def reserve_agent_nickname_def Let_def
      split: option.splits if_splits prod.splits)

lemma index_ok_cong:
  "agent_tree r' = agent_tree r \<Longrightarrow> thread_paths r' = thread_paths r \<Longrightarrow> index_ok r' \<longleftrightarrow> index_ok r"
  by (simp add: index_ok_def)

lemma commit_register: "commit_reservation r res md = register_spawned_thread r md"
  by (simp add: commit_reservation_def drop_reservation_def Let_def)

definition registry_inv :: "'e registry \<Rightarrow> bool" where
  "registry_inv r \<longleftrightarrow> index_ok r \<and> finite (dom (agent_tree r))"

lemma registry_invD [dest]:
  "registry_inv r \<Longrightarrow> index_ok r"
  "registry_inv r \<Longrightarrow> finite (dom (agent_tree r))"
  by (simp_all add: registry_inv_def)

lemma tree_register:
  "agent_id md = Some t \<Longrightarrow>
     agent_tree (register_spawned_thread r md) =
       (case thread_paths r t of
          Some previous \<Rightarrow>
            if reg_path previous \<noteq> agent_key md t then (agent_tree r)(reg_path previous := None)
            else agent_tree r
        | None \<Rightarrow> agent_tree r)(agent_key md t \<mapsto> md)"
  "agent_id md = None \<Longrightarrow> register_spawned_thread r md = r"
  by (simp_all add: register_spawned_thread_def Let_def)

lemma tree_release:
  assumes "index_ok r" "release_agent_entry r t = (r', counted)"
  shows "total_count r' = total_count r \<and>
    (thread_paths r t = None \<and> r' = r \<and> \<not> counted \<or>
     (\<exists>k md. agent_tree r k = Some md \<and> agent_id md = Some t \<and>
        agent_tree r' = (agent_tree r)(k := None) \<and> counted = is_live md))"
proof (cases "thread_paths r t")
  case None
  with assms(2) show ?thesis by (simp add: release_agent_entry_def)
next
  case (Some a)
  from index_okD [OF assms(1) Some] obtain md where
    md: "agent_tree r (reg_path a) = Some md" "agent_id md = Some t" by blast
  with Some assms(2) have "r' = r\<lparr>thread_paths := (thread_paths r)(t := None),
      agent_tree := (agent_tree r)(reg_path a := None)\<rparr>" "counted = is_live md"
    by (simp_all add: release_agent_entry_def is_live_def)
  with md show ?thesis by auto
qed

lemma tree_reserve_path:
  assumes "reserve_agent_path r res p = (r', res', out)"
  shows "total_count r' = total_count r \<and> active res' = active res \<and>
    (agent_tree r' = agent_tree r \<or>
     (agent_tree r (as_str p) = None \<and>
      agent_tree r' = (agent_tree r)(as_str p \<mapsto> default_metadata\<lparr>agent_path := Some p\<rparr>)))"
  using assms
  by (auto simp: reserve_agent_path_def registry_reserve_agent_path_def split: option.splits)

lemma tree_release_path:
  "total_count (release_reservation_path r res) = total_count r \<and>
   (agent_tree (release_reservation_path r res) = agent_tree r \<or>
    (\<exists>k md. agent_tree r k = Some md \<and> agent_id md = None \<and>
       agent_tree (release_reservation_path r res) = (agent_tree r)(k := None)))"
  by (auto simp: release_reservation_path_def release_reserved_agent_path_def split: option.splits)

lemma tree_root:
  "total_count (register_root_thread r t) = total_count r \<and>
   (agent_tree (register_root_thread r t) = agent_tree r \<or>
    (agent_tree r ROOT = None \<and>
     agent_tree (register_root_thread r t) = (agent_tree r)(ROOT \<mapsto>
       default_metadata\<lparr>agent_id := Some t, agent_path := Some root_path\<rparr>)))"
proof (cases "agent_tree r ROOT")
  case None
  then show ?thesis
    by (simp add: register_root_thread_def Let_def)
next
  case (Some md)
  then show ?thesis
    by (auto simp: register_root_thread_def Let_def fun_upd_idem split: option.splits)
qed

lemma not_live_new [registry_simps]:
  "\<not> is_live (default_metadata\<lparr>agent_path := Some p\<rparr>)"
  "\<not> is_live (default_metadata\<lparr>agent_id := Some t, agent_path := Some root_path\<rparr>)"
  by (simp_all add: is_live_def default_metadata_def is_root_agent_def root_path_def is_root_def)

lemma tree_update [registry_simps]:
  "agent_tree (update_registered r t f) = agent_tree r"
  "total_count (update_registered r t f) = total_count r"
  by (simp_all add: update_registered_def split: option.splits)

section \<open>Every slot is accounted for\<close>

fun owes :: "actor \<Rightarrow> nat" where
  "owes (Trying _ _) = 0"
| "owes (Holding _) = 1"
| "owes Releasing = 1"

definition slots_owed :: "'e system \<Rightarrow> nat" where
  "slots_owed s = sum_list (map owes (actors s))"

text \<open>The slots the counter holds beyond those of reservations, pending releases and live agents.\<close>

definition slack :: "'e system \<Rightarrow> int" where
  "slack s = int (total_count (reg s)) - int (slots_owed s) - int (card (live_keys (reg s)))"

text \<open>
  A commit is fresh when it registers a new thread, not as the root, under a path that no
  registered agent has.
\<close>

definition fresh_commit :: "'e system \<Rightarrow> 'e registry_call \<Rightarrow> bool" where
  "fresh_commit s c =
     (case c of
        Commit md \<Rightarrow>
          (case agent_id md of
             None \<Rightarrow> False
           | Some t \<Rightarrow>
               \<not> is_root_agent md \<and> thread_paths (reg s) t = None \<and>
               Option.bind (agent_tree (reg s) (agent_key md t)) agent_id = None)
      | _ \<Rightarrow> True)"

lemma live_keys_remove:
  "agent_tree r' = (agent_tree r)(k := None) \<Longrightarrow> live_keys r' = live_keys r - {k}"
  by (auto simp: live_keys_def)

lemma live_keys_add:
  "agent_tree r' = (agent_tree r)(k \<mapsto> md) \<Longrightarrow>
     live_keys r' = (if is_live md then insert k (live_keys r) else live_keys r - {k})"
  by (auto simp: live_keys_def)

lemma in_live_keys: "agent_tree r k = Some md \<Longrightarrow> k \<in> live_keys r \<longleftrightarrow> is_live md"
  by (simp add: live_keys_def)

lemma not_in_live_keys: "agent_tree r k = None \<Longrightarrow> k \<notin> live_keys r"
  by (simp add: live_keys_def)

lemma live_register:
  assumes "finite (dom (agent_tree r))"
  shows "card (live_keys (register_spawned_thread r md)) \<le> Suc (card (live_keys r))"
proof (cases "agent_id md")
  case None
  then show ?thesis by (simp add: tree_register)
next
  case (Some t)
  then have "live_keys (register_spawned_thread r md) \<subseteq> insert (agent_key md t) (live_keys r)"
    by (auto simp: live_keys_def tree_register split: option.splits if_splits)
  then have "card (live_keys (register_spawned_thread r md)) \<le>
      card (insert (agent_key md t) (live_keys r))"
    using finite_live_keys [OF assms] by (intro card_mono) auto
  also have "\<dots> \<le> Suc (card (live_keys r))"
    by (rule card_insert_le_m1) (simp_all add: card_insert_le_m1)
  finally show ?thesis .
qed

lemma live_register_fresh:
  assumes "finite (dom (agent_tree (reg s)))" "fresh_commit s (Commit md)"
  shows "card (live_keys (register_spawned_thread (reg s) md)) = Suc (card (live_keys (reg s)))"
proof -
  from assms(2) obtain t where t: "agent_id md = Some t" "\<not> is_root_agent md"
    "thread_paths (reg s) t = None"
    "Option.bind (agent_tree (reg s) (agent_key md t)) agent_id = None"
    by (auto simp: fresh_commit_def split: option.splits)
  have "live_keys (register_spawned_thread (reg s) md) = insert (agent_key md t) (live_keys (reg s))"
    using live_keys_add [OF tree_register(1) [OF t(1), of "reg s", unfolded t(3) option.case]] t
    by (simp add: is_live_def)
  moreover have "agent_key md t \<notin> live_keys (reg s)"
    using t(4) by (auto simp: live_keys_def is_live_def)
  ultimately show ?thesis
    using finite_live_keys [OF assms(1)] by simp
qed

lemma total_register [registry_simps]: "total_count (register_spawned_thread r md) = total_count r"
  by (simp add: register_spawned_thread_def Let_def split: option.splits)

lemma finite_register:
  "finite (dom (agent_tree r)) \<Longrightarrow> finite (dom (agent_tree (register_spawned_thread r md)))"
  by (cases "agent_id md") (auto simp: tree_register split: option.splits)

lemma slots_owed_simps [simp]:
  "actors s = xs @ a # ys \<Longrightarrow> slots_owed s = sum_list (map owes xs) + owes a + sum_list (map owes ys)"
  "slots_owed (s\<lparr>actors := xs\<rparr>) = sum_list (map owes xs)"
  "slots_owed (s\<lparr>reg := r\<rparr>) = slots_owed s"
  by (simp_all add: slots_owed_def)

lemma live_keys_same:
  assumes "agent_tree r' = agent_tree r \<or>
    k \<notin> live_keys r \<and>
      (agent_tree r' = (agent_tree r)(k := None) \<or>
       \<not> is_live md \<and> agent_tree r' = (agent_tree r)(k \<mapsto> md))"
  shows "live_keys r' = live_keys r"
  using assms by (elim disjE conjE) (auto simp: live_keys_def split: if_splits)

lemma live_keys_keep [registry_simps]:
  "live_keys (register_root_thread r t) = live_keys r"
  "live_keys (release_reservation_path r res) = live_keys r"
  "live_keys (update_registered r t f) = live_keys r"
  "reserve_agent_path r res p = (r', res', out) \<Longrightarrow> live_keys r' = live_keys r"
  "reserve_agent_nickname_with_preference pick r res names pref = (r', res', nick) \<Longrightarrow>
     live_keys r' = live_keys r"
proof -
  show "live_keys (register_root_thread r t) = live_keys r"
    using tree_root [of r t] not_in_live_keys [of r ROOT] not_live_new(2) [of t]
    by (intro live_keys_same) blast
  show "live_keys (release_reservation_path r res) = live_keys r"
    using tree_release_path [of r res]
  proof (elim conjE disjE exE)
    fix k md
    assume k: "agent_tree r k = Some md" "agent_id md = None"
      "agent_tree (release_reservation_path r res) = (agent_tree r)(k := None)"
    then have "k \<notin> live_keys r" by (simp add: in_live_keys is_live_def)
    with k(3) show ?thesis by (intro live_keys_same) blast
  qed (rule live_keys_cong)
  show "live_keys (update_registered r t f) = live_keys r"
    by (rule live_keys_cong) (rule tree_update)
  show "live_keys r' = live_keys r" if "reserve_agent_path r res p = (r', res', out)"
    using tree_reserve_path [OF that] not_in_live_keys [of r "as_str p"] not_live_new(1) [of p]
    by (intro live_keys_same) blast
  show "live_keys r' = live_keys r"
    if "reserve_agent_nickname_with_preference pick r res names pref = (r', res', nick)"
    using nickname_keeps [OF that] by (intro live_keys_cong) simp
qed

lemma fetch_sub_total:
  "0 < total_count r \<Longrightarrow> total_count r < 2 ^ 64 - 1 \<Longrightarrow>
     total_count (fetch_sub_one r) = total_count r - 1"
  by (simp add: fetch_sub_one_def mod_if)

text \<open>What the steps leave of the counter, other than the reservations and the returned slots.\<close>

lemma total_count_keep [registry_simps]:
  "total_count (register_root_thread r t) = total_count r"
  "total_count (release_reservation_path r res) = total_count r"
  "reserve_agent_path r res p = (r', res', out) \<Longrightarrow> total_count r' = total_count r"
  "reserve_agent_nickname_with_preference pick r res names pref = (r', res', nick) \<Longrightarrow>
     total_count r' = total_count r"
  "release_agent_entry r t = (r', counted) \<Longrightarrow> total_count r' = total_count r"
  using tree_root [of r t] tree_release_path [of r res] tree_reserve_path [of r res p r' res' out]
    nickname_keeps [of pick r res names pref r' res' nick]
  by (auto simp: release_agent_entry_def Let_def split: option.splits)

lemma slack_mono:
  assumes "registry_step s c s'" "registry_inv (reg s)" "0 \<le> slack s"
    and "total_count (reg s) < 2 ^ 64 - 1"
  shows "slack s \<le> slack s' \<and> (fresh_commit s c \<longrightarrow> slack s' = slack s)"
  using assms(1)
proof cases
  case (commit xs res ys md)
  then show ?thesis
    using live_register [of "reg s" md] live_register_fresh [of s md] assms(2)
    by (auto simp: slack_def commit_register total_register)
next
  case (give_back xs ys)
  have "0 < total_count (reg s)" using assms(3) give_back by (simp add: slack_def)
  with give_back show ?thesis
    by (simp add: slack_def live_keys_fetch fetch_sub_total [OF _ assms(4)])
next
  case (release t r' counted)
  from tree_release [OF registry_invD(1) [OF assms(2)] release(3)] show ?thesis
  proof (elim conjE disjE exE)
    fix k md
    assume k: "agent_tree r' = (agent_tree (reg s))(k := None)" "agent_tree (reg s) k = Some md"
      "counted = is_live md" "total_count r' = total_count (reg s)"
    have "card (live_keys (reg s)) = (if counted then Suc else id) (card (live_keys r'))"
      using k in_live_keys [OF k(2)] finite_live_keys [OF registry_invD(2) [OF assms(2)]]
      by (cases counted)
        (simp_all add: live_keys_remove [OF k(1)] card_Suc_Diff1 del: card_Diff_singleton card_Diff_insert)
    with release k(4) show ?thesis by (auto simp: slack_def slots_owed_def)
  qed (use release in \<open>simp_all add: slack_def\<close>)
qed (use assms(4) in \<open>auto simp: slack_def slots_owed_def registry_simps
    save_evicted_environments_def clear_evicted_environments_def\<close>,
    auto simp: fetch_add_one_def)

lemma registry_inv_step:
  assumes "registry_step s c s'" "registry_inv (reg s)"
  shows "registry_inv (reg s')"
  using assms(1)
proof cases
  case (commit xs res ys md)
  with assms(2) show ?thesis
    by (simp add: registry_inv_def commit_register index_ok_register finite_register)
next
  case (release t r' counted)
  with assms(2) index_ok_release [OF _ release(3)] tree_release [OF _ release(3)] show ?thesis
    by (force simp: registry_inv_def)
next
  case (register_root t)
  with assms(2) tree_root [of "reg s" t] show ?thesis
    by (auto simp: registry_inv_def index_ok_root)
next
  case (path xs res ys p r' res' out)
  with assms(2) index_ok_reserve_path [OF _ path(4)] tree_reserve_path [OF path(4)] show ?thesis
    by (auto simp: registry_inv_def)
next
  case (drop xs res ys)
  with assms(2) tree_release_path [of "reg s" res] show ?thesis
    by (auto simp: registry_inv_def index_ok_release_path)
next
  case (nickname xs res ys pick names pref r' res' out)
  with assms(2) nickname_keeps [OF nickname(4)] show ?thesis
    by (simp add: registry_inv_def index_ok_cong [of r' "reg s"])
qed (use assms(2) in \<open>auto simp: registry_inv_def index_ok_fetch tree_update index_ok_update
    save_evicted_environments_def clear_evicted_environments_def\<close>,
    auto simp: fetch_add_one_def fetch_sub_one_def)

lemma total_count_step:
  assumes "registry_step s c s'" "registry_inv (reg s)" "0 \<le> slack s"
    and "total_count (reg s) < 2 ^ 64 - 1"
  shows "total_count (reg s') \<le> Suc (total_count (reg s))"
  using assms(1)
proof cases
  case (give_back xs ys)
  have "0 < total_count (reg s)" using assms(3) give_back by (simp add: slack_def)
  with give_back show ?thesis by (simp add: fetch_sub_total [OF _ assms(4)])
qed (auto simp: registry_simps commit_register save_evicted_environments_def
    clear_evicted_environments_def, simp add: fetch_add_one_def)

lemma run_invariant:
  "registry_run P calls s \<Longrightarrow> length calls < 2 ^ 64 \<Longrightarrow>
     registry_inv (reg s) \<and> 0 \<le> slack s \<and> total_count (reg s) \<le> length calls"
proof (induction rule: registry_run.induct)
  case start
  show ?case
    by (simp add: registry_inv_def index_ok_default slack_def slots_owed_def)
      (simp add: registry_default_def live_keys_def)
next
  case (more calls s c s')
  then have IH: "registry_inv (reg s)" "0 \<le> slack s" "total_count (reg s) < 2 ^ 64 - 1"
    "total_count (reg s) \<le> length calls"
    by auto
  have "registry_inv (reg s')" using registry_inv_step [OF more(3) IH(1)] .
  moreover have "0 \<le> slack s'" using slack_mono [OF more(3) IH(1-3)] IH(2) by linarith
  moreover have "total_count (reg s') \<le> length (calls @ [c])"
    using total_count_step [OF more(3) IH(1-3)] IH(4) by simp
  ultimately show ?case by blast
qed

lemma run_fresh_slack:
  "registry_run fresh_commit calls s \<Longrightarrow> length calls < 2 ^ 64 \<Longrightarrow> slack s = 0"
proof (induction rule: registry_run.induct)
  case start
  show ?case
    by (simp add: slack_def slots_owed_def registry_default_def live_keys_def)
next
  case (more calls s c s')
  then have "registry_inv (reg s)" "0 \<le> slack s" "total_count (reg s) < 2 ^ 64 - 1"
    using run_invariant [OF more(1)] by auto
  with more show ?case using slack_mono [OF more(3)] by simp
qed

section \<open>The limit\<close>

text \<open>Every slot is reserved with a limit of at most \<open>m\<close>.\<close>

definition capped :: "nat \<Rightarrow> 'e system \<Rightarrow> 'e registry_call \<Rightarrow> bool" where
  "capped m s c = (case c of ReserveSlot lim \<Rightarrow> (case lim of None \<Rightarrow> False | Some k \<Rightarrow> k \<le> m) | _ \<Rightarrow> True)"

fun trying_below :: "nat \<Rightarrow> actor \<Rightarrow> bool" where
  "trying_below m (Trying k _) = (k \<le> m)"
| "trying_below m _ = True"

lemma capped_step:
  assumes "registry_step s c s'" "capped m s c" "registry_inv (reg s)" "0 \<le> slack s"
    and "total_count (reg s) < 2 ^ 64 - 1"
    and "list_all (trying_below m) (actors s) \<and> total_count (reg s) \<le> m"
  shows "list_all (trying_below m) (actors s') \<and> total_count (reg s') \<le> m"
  using assms(1)
proof cases
  case (give_back xs ys)
  have "0 < total_count (reg s)" using assms(4) give_back by (simp add: slack_def)
  with assms(6) give_back show ?thesis by (auto simp: fetch_sub_total [OF _ assms(5)])
qed (use assms(2,6) in \<open>auto simp: capped_def registry_simps commit_register
    save_evicted_environments_def clear_evicted_environments_def\<close>)

lemma run_capped:
  "registry_run (capped m) calls s \<Longrightarrow> length calls < 2 ^ 64 \<Longrightarrow>
     list_all (trying_below m) (actors s) \<and> total_count (reg s) \<le> m"
proof (induction rule: registry_run.induct)
  case start
  show ?case by (simp add: registry_default_def)
next
  case (more calls s c s')
  then have "registry_inv (reg s)" "0 \<le> slack s" "total_count (reg s) < 2 ^ 64 - 1"
    using run_invariant [OF more(1)] by auto
  with more show ?case using capped_step [OF more(3,2)] by simp
qed

section \<open>Paths and entries\<close>

text \<open>An entry that has a path is stored under it.\<close>

definition keys_ok :: "'e registry \<Rightarrow> bool" where
  "keys_ok r \<longleftrightarrow> (\<forall>k md p. agent_tree r k = Some md \<longrightarrow> agent_path md = Some p \<longrightarrow> as_str p = k)"

lemma keys_ok_remove:
  "keys_ok r \<Longrightarrow> agent_tree r' = (agent_tree r)(k := None) \<Longrightarrow> keys_ok r'"
  by (simp add: keys_ok_def)

lemma keys_ok_add:
  "keys_ok r \<Longrightarrow> agent_tree r' = (agent_tree r)(k \<mapsto> md) \<Longrightarrow>
     (\<And>p. agent_path md = Some p \<Longrightarrow> as_str p = k) \<Longrightarrow> keys_ok r'"
  by (auto simp: keys_ok_def)

lemma keys_ok_cong: "keys_ok r \<Longrightarrow> agent_tree r' = agent_tree r \<Longrightarrow> keys_ok r'"
  by (simp add: keys_ok_def)

lemma keys_ok_register: "keys_ok r \<Longrightarrow> keys_ok (register_spawned_thread r md)"
  by (cases "agent_id md")
    (auto simp: keys_ok_def tree_register agent_key_def split: option.splits if_splits)

lemma keys_ok_step:
  assumes "registry_step s c s'" "index_ok (reg s)" "keys_ok (reg s)"
  shows "keys_ok (reg s')"
  using assms(1)
proof cases
  case (commit xs res ys md)
  with assms(3) show ?thesis by (simp add: commit_register keys_ok_register)
next
  case (release t r' counted)
  with assms(3) tree_release [OF assms(2) release(3)] show ?thesis
    by (auto intro: keys_ok_remove)
next
  case (register_root t)
  have "keys_ok (register_root_thread (reg s) t)"
    using tree_root [of "reg s" t] keys_ok_add [OF assms(3)] keys_ok_cong [OF assms(3)]
    by (fastforce simp: root_path_def)
  with register_root show ?thesis by simp
next
  case (path xs res ys p r' res' out)
  with assms(3) tree_reserve_path [OF path(4)] show ?thesis
    by (auto intro: keys_ok_cong keys_ok_add)
next
  case (drop xs res ys)
  with assms(3) tree_release_path [of "reg s" res] show ?thesis
    by (auto intro: keys_ok_cong keys_ok_remove)
next
  case (nickname xs res ys pick names pref r' res' out)
  with assms(3) nickname_keeps [OF nickname(4)] show ?thesis
    by (auto intro: keys_ok_cong)
qed (use assms(3) in \<open>auto simp: save_evicted_environments_def clear_evicted_environments_def
    tree_update fetch_add_one_def fetch_sub_one_def elim!: keys_ok_cong\<close>)

lemma run_keys_ok:
  "registry_run P calls s \<Longrightarrow> length calls < 2 ^ 64 \<Longrightarrow> keys_ok (reg s)"
proof (induction rule: registry_run.induct)
  case start
  show ?case by (simp add: keys_ok_def registry_default_def)
next
  case (more calls s c s')
  then show ?case using keys_ok_step [OF more(3)] run_invariant [OF more(1)] by auto
qed

section \<open>Properties\<close>

text \<open>
  C26: however the calls of concurrent callers interleave, when every slot is reserved with a
  limit of at most m threads there are never more than m live agents, reservations and pending
  releases together, and the counter does not wrap around: it stays between that number and m.
  Runs of fewer than 2 to the power of 64 steps are considered.
\<close>

theorem agents_within_limit:
  assumes "registry_run (capped m) calls s" "length calls < 2 ^ 64"
  shows "finite (live_agents (reg s)) \<and>
    card (live_agents (reg s)) + slots_owed s \<le> total_count (reg s) \<and> total_count (reg s) \<le> m"
proof -
  have inv: "registry_inv (reg s)" "0 \<le> slack s" using run_invariant [OF assms] by auto
  have "live_agents (reg s) \<subseteq> (\<lambda>k. (k, the (agent_tree (reg s) k))) ` dom (agent_tree (reg s))"
    by (force simp: live_agents_def)
  then have "finite (live_agents (reg s))"
    using inv(1) by (blast intro: finite_subset)
  with inv(2) run_capped [OF assms] show ?thesis
    by (auto simp: slack_def card_live_agents)
qed

definition sample_agent :: agent_metadata where
  "sample_agent = default_metadata\<lparr>agent_id := Some ''t1'', agent_path := Some (AgentPath ''/root/a'')\<rparr>"

definition sample_state :: "unit system" where
  "sample_state =
     \<lparr>reg = register_spawned_thread (registry_default\<lparr>total_count := 1\<rparr>) sample_agent, actors = []\<rparr>"

lemma sample_run:
  assumes "\<And>s. P s (ReserveSlot (Some 1))" "\<And>s. P s SlotTaken"
    and "P \<lparr>reg = registry_default\<lparr>total_count := 1\<rparr>, actors = [Holding reservation_new]\<rparr> (Commit sample_agent)"
  shows "registry_run P [ReserveSlot (Some 1), SlotTaken, Commit sample_agent] sample_state"
proof -
  let ?s0 = "\<lparr>reg = registry_default, actors = []\<rparr> :: unit system"
  let ?s1 = "\<lparr>reg = registry_default, actors = [Trying 1 0]\<rparr> :: unit system"
  let ?s2 = "\<lparr>reg = registry_default\<lparr>total_count := 1\<rparr>, actors = [Holding reservation_new]\<rparr> :: unit system"
  have "registry_step ?s0 (ReserveSlot (Some 1)) ?s1"
    using reserve_load [of ?s0 1] by (simp add: registry_default_def)
  moreover have "registry_step ?s1 SlotTaken ?s2"
    using exchange [of ?s1 "[]" 1 0 "[]"] by (simp add: registry_default_def)
  moreover have "registry_step ?s2 (Commit sample_agent) sample_state"
    using registry_step.commit [of ?s2 "[]" reservation_new "[]" sample_agent]
    by (simp add: sample_state_def commit_register)
  ultimately show ?thesis
    using registry_run.more [OF registry_run.more [OF registry_run.more [OF registry_run.start]]]
      assms by (metis append_Cons append_Nil)
qed

lemma sample_live: "live_agents (reg sample_state) = {(''/root/a'', sample_agent)}"
  by (auto simp: sample_state_def live_agents_def sample_agent_def register_spawned_thread_def
      registry_default_def default_metadata_def agent_key_def is_live_def is_root_agent_def
      is_root_def ROOT_def Let_def split: if_splits)

theorem agents_within_limit_witness:
  "card (live_agents (reg sample_state)) + slots_owed sample_state \<le> 1"
proof -
  have "registry_run (capped 1) [ReserveSlot (Some 1), SlotTaken, Commit sample_agent] sample_state"
    by (rule sample_run) (simp_all add: capped_def)
  from agents_within_limit [OF this] show ?thesis by simp
qed

text \<open>
  No slot is lost. When every commit registers a new, non-root thread under a path that no
  registered agent has, the counter is at every moment exactly the number of live agents,
  reservations and pending releases. So once the agents are released and no call is under way a slot
  can be reserved again, whatever happened before.
\<close>

theorem slots_never_leak:
  assumes "registry_run fresh_commit calls s" "length calls < 2 ^ 64"
  shows "total_count (reg s) = card (live_agents (reg s)) + slots_owed s \<and>
    (live_agents (reg s) = {} \<longrightarrow> actors s = [] \<longrightarrow> 0 < m \<longrightarrow>
       snd (reserve_spawn_slot (reg s) (Some m)) = Inr reservation_new)"
proof -
  have t: "total_count (reg s) = card (live_agents (reg s)) + slots_owed s"
    using run_fresh_slack [OF assms] by (simp add: slack_def card_live_agents)
  then show ?thesis by (auto simp: reserve_spawn_slot_def slots_owed_def)
qed

theorem slots_never_leak_witness:
  "total_count (reg sample_state) = card (live_agents (reg sample_state)) + slots_owed sample_state"
proof -
  have "registry_run fresh_commit [ReserveSlot (Some 1), SlotTaken, Commit sample_agent] sample_state"
    by (rule sample_run)
      (simp_all add: fresh_commit_def sample_agent_def default_metadata_def is_root_agent_def
        is_root_def ROOT_def registry_default_def)
  from slots_never_leak [OF this, of 1] show ?thesis by simp
qed

text \<open>
  The two indices of the registry agree in every reachable state: the metadata found for a
  thread carries the id of that thread, and when it has a path the lookup by path leads back to the
  thread.
\<close>

theorem registry_indices_agree:
  assumes "registry_run P calls s" "length calls < 2 ^ 64"
    and "agent_metadata_for_thread (reg s) t = Some md"
  shows "agent_id md = Some t \<and>
    (\<forall>p. agent_path md = Some p \<longrightarrow> agent_id_for_path (reg s) p = Some t)"
proof -
  from assms(3) obtain a where a: "thread_paths (reg s) t = Some a" "agent_tree (reg s) (reg_path a) = Some md"
    by (auto simp: agent_metadata_for_thread_def bind_eq_Some_conv)
  have "registry_inv (reg s)" "keys_ok (reg s)"
    using run_invariant [OF assms(1,2)] run_keys_ok [OF assms(1,2)] by auto
  with a index_okD [OF _ a(1)] show ?thesis
    by (auto simp: registry_inv_def keys_ok_def agent_id_for_path_def)
qed

theorem registry_indices_agree_witness:
  "agent_id_for_path (reg sample_state) (AgentPath ''/root/a'') = Some ''t1''"
proof -
  have "registry_run (\<lambda>_ _. True) [ReserveSlot (Some 1), SlotTaken, Commit sample_agent] sample_state"
    by (rule sample_run) simp_all
  moreover have "agent_metadata_for_thread (reg sample_state) ''t1'' = Some sample_agent"
    by (simp add: agent_metadata_for_thread_def sample_state_def sample_agent_def
        register_spawned_thread_def registry_default_def default_metadata_def agent_key_def
        registered_agent_new_def Let_def)
  ultimately show ?thesis
    using registry_indices_agree [of "\<lambda>_ _. True"] by (force simp: sample_agent_def)
qed

section \<open>Nicknames\<close>

text \<open>
  A nickname drawn from the pool was not in use, and is from then on; when all of them are in
  use the pool starts over with the next ordinal.
\<close>

lemma nickname_fresh:
  assumes "\<And>xs. pick xs = None \<longleftrightarrow> xs = []" "\<And>xs x. pick xs = Some x \<Longrightarrow> x \<in> set xs"
    and "reserve_agent_nickname pick r names None = (r', out)" "names \<noteq> []"
  shows "\<exists>n name. out = Some n \<and> name \<in> set names \<and> n \<in> used_agent_nicknames r' \<and>
    n = format_agent_nickname name (nickname_reset_count r') \<and>
    (n \<notin> used_agent_nicknames r \<and> nickname_reset_count r' = nickname_reset_count r \<or>
     nickname_reset_count r' = nickname_reset_count r + 1 \<and>
       (\<forall>x \<in> set names. format_agent_nickname x (nickname_reset_count r) \<in> used_agent_nicknames r))"
proof (cases "pick (filter (\<lambda>n. n \<notin> used_agent_nicknames r)
    (map (\<lambda>n. format_agent_nickname n (nickname_reset_count r)) names))")
  case None
  obtain name where "pick names = Some name" "name \<in> set names"
    using assms(1) [of names] assms(2) [of names] assms(4) by (cases "pick names") auto
  moreover have "\<forall>x \<in> set names. format_agent_nickname x (nickname_reset_count r) \<in> used_agent_nicknames r"
    using None by (simp add: assms(1) filter_empty_conv)
  ultimately show ?thesis
    using assms(3,4) None by (auto simp: reserve_agent_nickname_def Let_def)
next
  case (Some n)
  from assms(2) [OF Some] obtain name where
    name: "name \<in> set names" "n = format_agent_nickname name (nickname_reset_count r)"
    "n \<notin> used_agent_nicknames r" by auto
  have "out = Some n" "r' = r\<lparr>used_agent_nicknames := insert n (used_agent_nicknames r)\<rparr>"
    using Some assms(3,4) by (simp_all add: reserve_agent_nickname_def Let_def)
  with name show ?thesis by auto
qed

end
