(* ===== verification/Circuit_Breaker.thy ===== *)
theory Circuit_Breaker
  imports Ava_Prelude
begin

text \<open>
  The circuit breaker of the guardian reviewer,
  \<open>ava-rs/ext/guardian-reviewer/src/circuit_breaker.rs\<close>: it counts the denied reviews of every
  turn and asks the host to interrupt a turn that is denied too often. The state kept per turn
  (a saturating counter and a window of 50 reviews) is related to the list of all the reviews of
  the turn since it was last cleared.
\<close>

section \<open>The code\<close>

definition MAX_CONSECUTIVE_CYBER_GUARDIAN_DENIALS_PER_TURN :: nat where
  "MAX_CONSECUTIVE_CYBER_GUARDIAN_DENIALS_PER_TURN = 1"

definition MAX_CONSECUTIVE_GUARDIAN_DENIALS_PER_TURN :: nat where
  "MAX_CONSECUTIVE_GUARDIAN_DENIALS_PER_TURN = 3"

definition MAX_RECENT_CYBER_AUTO_REVIEW_DENIALS_PER_TURN :: nat where
  "MAX_RECENT_CYBER_AUTO_REVIEW_DENIALS_PER_TURN = 1"

definition MAX_RECENT_AUTO_REVIEW_DENIALS_PER_TURN :: nat where
  "MAX_RECENT_AUTO_REVIEW_DENIALS_PER_TURN = 10"

definition AUTO_REVIEW_DENIAL_WINDOW_SIZE :: nat where
  "AUTO_REVIEW_DENIAL_WINDOW_SIZE = 50"

text \<open>A \<open>u32\<close> is a natural number below \<open>2 ^ 32\<close>: \<open>saturating_add\<close> and the \<open>as u32\<close> cast.\<close>

definition u32_max :: nat where
  "u32_max = 2 ^ 32 - 1"

definition u32_saturating_add :: "nat \<Rightarrow> nat \<Rightarrow> nat" where
  "u32_saturating_add a b = min (a + b) u32_max"

definition as_u32 :: "nat \<Rightarrow> nat" where
  "as_u32 n = n mod 2 ^ 32"

record breaker_turn =
  consecutive_denials :: nat
  recent_denials :: "bool list"
  interrupt_triggered :: bool

definition default_turn :: breaker_turn where
  "default_turn = \<lparr>consecutive_denials = 0, recent_denials = [], interrupt_triggered = False\<rparr>"

type_synonym circuit_breaker = "string \<rightharpoonup> breaker_turn"

datatype breaker_policy = Standard | CyberModel

definition MODEL_SPECIALTY_CYBER :: string where
  "MODEL_SPECIALTY_CYBER = ''cyber''"

definition policy_of_model :: "string option \<Rightarrow> breaker_policy" where
  "policy_of_model model_specialty =
     (if model_specialty = Some MODEL_SPECIALTY_CYBER then CyberModel else Standard)"

datatype breaker_action = Continue | InterruptTurn nat nat

definition clear_turn :: "circuit_breaker \<Rightarrow> string \<Rightarrow> circuit_breaker" where
  "clear_turn turns turn_id = turns(turn_id := None)"

definition turn_or_default :: "circuit_breaker \<Rightarrow> string \<Rightarrow> breaker_turn" where
  "turn_or_default turns turn_id =
     (case turns turn_id of None \<Rightarrow> default_turn | Some turn \<Rightarrow> turn)"

definition record_recent_review :: "breaker_turn \<Rightarrow> bool \<Rightarrow> breaker_turn" where
  "record_recent_review turn denied =
     (let pushed = recent_denials turn @ [denied]
      in turn\<lparr>recent_denials :=
           (if length pushed > AUTO_REVIEW_DENIAL_WINDOW_SIZE then tl pushed else pushed)\<rparr>)"

fun policy_limits :: "breaker_policy \<Rightarrow> nat \<times> nat" where
  "policy_limits Standard =
     (MAX_CONSECUTIVE_GUARDIAN_DENIALS_PER_TURN, MAX_RECENT_AUTO_REVIEW_DENIALS_PER_TURN)"
| "policy_limits CyberModel =
     (MAX_CONSECUTIVE_CYBER_GUARDIAN_DENIALS_PER_TURN,
      MAX_RECENT_CYBER_AUTO_REVIEW_DENIALS_PER_TURN)"

definition deny :: "breaker_turn \<Rightarrow> breaker_policy \<Rightarrow> breaker_turn \<times> breaker_action" where
  "deny turn0 policy =
     (let turn = turn0\<lparr>consecutive_denials := u32_saturating_add (consecutive_denials turn0) 1\<rparr>;
          turn = record_recent_review turn True;
          recent = as_u32 (length (filter (\<lambda>denied. denied) (recent_denials turn)));
          (max_consecutive, max_recent) = policy_limits policy
      in if \<not> interrupt_triggered turn \<and>
            (consecutive_denials turn \<ge> max_consecutive \<or> recent \<ge> max_recent)
         then (turn\<lparr>interrupt_triggered := True\<rparr>, InterruptTurn (consecutive_denials turn) recent)
         else (turn, Continue))"

definition record_denial ::
  "circuit_breaker \<Rightarrow> string \<Rightarrow> breaker_policy \<Rightarrow> circuit_breaker \<times> breaker_action" where
  "record_denial turns turn_id policy =
     (let (turn, action) = deny (turn_or_default turns turn_id) policy
      in (turns(turn_id \<mapsto> turn), action))"

definition record_non_denial :: "circuit_breaker \<Rightarrow> string \<Rightarrow> circuit_breaker" where
  "record_non_denial turns turn_id =
     (let turn = (turn_or_default turns turn_id)\<lparr>consecutive_denials := 0\<rparr>
      in turns(turn_id \<mapsto> record_recent_review turn False))"

section \<open>Sequences of calls\<close>

datatype breaker_call =
    Denial string breaker_policy
  | NonDenial string
  | ClearTurn string

fun breaker_step :: "circuit_breaker \<Rightarrow> breaker_call \<Rightarrow> circuit_breaker \<times> breaker_action" where
  "breaker_step b (Denial t p) = record_denial b t p"
| "breaker_step b (NonDenial t) = (record_non_denial b t, Continue)"
| "breaker_step b (ClearTurn t) = (clear_turn b t, Continue)"

definition breaker_after :: "breaker_call list \<Rightarrow> circuit_breaker" where
  "breaker_after calls = fst (run_ops breaker_step Map.empty calls)"

section \<open>What the calls mean\<close>

text \<open>
  A review is \<open>Some p\<close> (denied under the policy \<open>p\<close>) or \<open>None\<close> (not denied). \<open>reviews t calls\<close>
  are the reviews of turn \<open>t\<close> since it was last cleared, oldest first.
\<close>

type_synonym review = "breaker_policy option"

fun add_review :: "string \<Rightarrow> breaker_call \<Rightarrow> review list \<Rightarrow> review list" where
  "add_review t (Denial u p) rs = (if u = t then rs @ [Some p] else rs)"
| "add_review t (NonDenial u) rs = (if u = t then rs @ [None] else rs)"
| "add_review t (ClearTurn u) rs = (if u = t then [] else rs)"

definition reviews :: "string \<Rightarrow> breaker_call list \<Rightarrow> review list" where
  "reviews t calls = fold (add_review t) calls []"

definition streak :: "review list \<Rightarrow> nat" where
  "streak rs = length (takeWhile (\<lambda>r. r \<noteq> None) (rev rs))"

definition denials_in_window :: "review list \<Rightarrow> nat" where
  "denials_in_window rs =
     length (filter (\<lambda>r. r \<noteq> None) (last_n AUTO_REVIEW_DENIAL_WINDOW_SIZE rs))"

definition too_many :: "review list \<Rightarrow> breaker_policy \<Rightarrow> bool" where
  "too_many rs p \<longleftrightarrow>
     (case p of Standard \<Rightarrow> 3 \<le> streak rs \<or> 10 \<le> denials_in_window rs | CyberModel \<Rightarrow> True)"

text \<open>One of the reviews so far was a denial that exceeded the limits of its policy.\<close>

definition tripped :: "review list \<Rightarrow> bool" where
  "tripped rs \<longleftrightarrow> (\<exists>i < length rs. \<exists>p. rs ! i = Some p \<and> too_many (take (Suc i) rs) p)"

lemma reviews_snoc: "reviews t (calls @ [c]) = add_review t c (reviews t calls)"
  by (simp add: reviews_def)

lemma tripped_Nil [simp]: "\<not> tripped []"
  by (simp add: tripped_def)

lemma tripped_snoc:
  "tripped (rs @ [r]) \<longleftrightarrow> tripped rs \<or> (\<exists>p. r = Some p \<and> too_many (rs @ [r]) p)"
  by (auto simp: tripped_def nth_append less_Suc_eq)

lemma streak_snoc: "streak (rs @ [r]) = (if r = None then 0 else Suc (streak rs))"
  by (simp add: streak_def)

lemma denials_in_window_le: "denials_in_window rs \<le> AUTO_REVIEW_DENIAL_WINDOW_SIZE"
proof -
  have "length (last_n AUTO_REVIEW_DENIAL_WINDOW_SIZE rs) \<le> AUTO_REVIEW_DENIAL_WINDOW_SIZE"
    by (simp add: last_n_def)
  then show ?thesis
    unfolding denials_in_window_def by (rule le_trans [OF length_filter_le])
qed

section \<open>The state represents the reviews\<close>

definition turn_of :: "review list \<Rightarrow> breaker_turn" where
  "turn_of rs =
     \<lparr>consecutive_denials = min (streak rs) u32_max,
      recent_denials = map (\<lambda>r. r \<noteq> None) (last_n AUTO_REVIEW_DENIAL_WINDOW_SIZE rs),
      interrupt_triggered = tripped rs\<rparr>"

lemma turn_of_Nil: "turn_of [] = default_turn"
  by (simp add: turn_of_def default_turn_def streak_def last_n_def)

lemma record_recent_turn_of:
  "recent_denials (record_recent_review turn (r \<noteq> None)) =
     map (\<lambda>r. r \<noteq> None) (last_n AUTO_REVIEW_DENIAL_WINDOW_SIZE (rs @ [r]))"
  if "recent_denials turn = map (\<lambda>r. r \<noteq> None) (last_n AUTO_REVIEW_DENIAL_WINDOW_SIZE rs)"
  using that
  by (simp add: record_recent_review_def last_n_snoc AUTO_REVIEW_DENIAL_WINDOW_SIZE_def
      Let_def map_tl)

lemma record_recent_fields [simp]:
  "consecutive_denials (record_recent_review turn d) = consecutive_denials turn"
  "interrupt_triggered (record_recent_review turn d) = interrupt_triggered turn"
  by (simp_all add: record_recent_review_def Let_def)

lemma too_many_limits:
  assumes "policy_limits p = (c, w)"
  shows "too_many (rs @ [Some p]) p \<longleftrightarrow>
    c \<le> min (streak (rs @ [Some p])) u32_max \<or> w \<le> denials_in_window (rs @ [Some p])"
  using assms
  by (cases p)
    (auto simp: too_many_def streak_snoc u32_max_def
      MAX_CONSECUTIVE_GUARDIAN_DENIALS_PER_TURN_def MAX_RECENT_AUTO_REVIEW_DENIALS_PER_TURN_def
      MAX_CONSECUTIVE_CYBER_GUARDIAN_DENIALS_PER_TURN_def
      MAX_RECENT_CYBER_AUTO_REVIEW_DENIALS_PER_TURN_def)

lemma non_denial_turn_of:
  "record_recent_review ((turn_of rs)\<lparr>consecutive_denials := 0\<rparr>) False = turn_of (rs @ [None])"
  using record_recent_turn_of [of "(turn_of rs)\<lparr>consecutive_denials := 0\<rparr>" rs None]
  by (intro breaker_turn.equality)
    (simp_all add: turn_of_def streak_snoc tripped_snoc)

lemma deny_turn_of:
  "deny (turn_of rs) p =
     (turn_of (rs @ [Some p]),
      if too_many (rs @ [Some p]) p \<and> \<not> tripped rs
      then InterruptTurn (min (Suc (streak rs)) u32_max) (denials_in_window (rs @ [Some p]))
      else Continue)"
proof -
  define t1 where "t1 = (turn_of rs)\<lparr>consecutive_denials :=
    u32_saturating_add (consecutive_denials (turn_of rs)) 1\<rparr>"
  define t2 where "t2 = record_recent_review t1 True"
  obtain c w where lim: "policy_limits p = (c, w)" by force
  have rec: "recent_denials t2 =
      map (\<lambda>r. r \<noteq> None) (last_n AUTO_REVIEW_DENIAL_WINDOW_SIZE (rs @ [Some p]))"
    using record_recent_turn_of [of t1 rs "Some p"] by (simp add: t2_def t1_def turn_of_def)
  have con: "consecutive_denials t2 = min (streak (rs @ [Some p])) u32_max"
    by (simp add: t2_def t1_def turn_of_def u32_saturating_add_def streak_snoc min_def)
  have trig: "interrupt_triggered t2 = tripped rs"
    by (simp add: t2_def t1_def turn_of_def)
  have "length (filter (\<lambda>d. d) (recent_denials t2)) = denials_in_window (rs @ [Some p])"
    by (simp add: rec denials_in_window_def filter_map comp_def)
  moreover have "as_u32 (denials_in_window xs) = denials_in_window xs" for xs
    using denials_in_window_le [of xs]
    by (simp add: as_u32_def AUTO_REVIEW_DENIAL_WINDOW_SIZE_def)
  ultimately have cnt:
    "as_u32 (length (filter (\<lambda>d. d) (recent_denials t2))) = denials_in_window (rs @ [Some p])"
    by simp
  have res: "turn_of (rs @ [Some p]) =
      t2\<lparr>interrupt_triggered := tripped rs \<or> too_many (rs @ [Some p]) p\<rparr>"
    by (intro breaker_turn.equality)
      (auto simp: turn_of_def rec con trig tripped_snoc)
  have upd: "t2\<lparr>interrupt_triggered := tripped rs\<rparr> = t2"
    by (simp flip: trig)
  show ?thesis
    unfolding deny_def Let_def
    by (fold t1_def, fold t2_def)
      (use upd in \<open>auto simp: lim cnt con trig res streak_snoc too_many_limits [OF lim]\<close>)
qed

lemma breaker_after_snoc:
  "breaker_after (calls @ [c]) = fst (breaker_step (breaker_after calls) c)"
  by (simp add: breaker_after_def run_ops_snoc)

lemma breaker_after_reviews: "turn_or_default (breaker_after calls) t = turn_of (reviews t calls)"
proof (induction calls rule: rev_induct)
  case Nil
  then show ?case
    by (simp add: breaker_after_def turn_or_default_def reviews_def turn_of_Nil)
next
  case (snoc c calls)
  then show ?case
  proof (cases c)
    case (Denial u p)
    with snoc show ?thesis
      by (auto simp: breaker_after_snoc reviews_snoc record_denial_def deny_turn_of
          turn_or_default_def Let_def split_beta)
  next
    case (NonDenial u)
    with snoc show ?thesis
      by (auto simp: breaker_after_snoc reviews_snoc record_non_denial_def
          turn_or_default_def Let_def non_denial_turn_of)
  next
    case (ClearTurn u)
    with snoc show ?thesis
      by (auto simp: breaker_after_snoc reviews_snoc clear_turn_def
          turn_or_default_def turn_of_Nil)
  qed
qed

section \<open>Properties\<close>

text \<open>
  C36: after any sequence of calls, a denied review of a turn asks for the interruption exactly
  when the denial exceeds a limit and no earlier denial of the turn (since it was last cleared)
  did. The limits are those of the policy of the review: three denials in a row or ten among the
  last fifty reviews of the turn; for a cyber model every denial exceeds it. The request carries
  the true length of the streak and the true number of denials in the window; other turns play no
  part.
\<close>

theorem breaker_interrupts_exactly:
  "snd (record_denial (breaker_after calls) t p) =
     (let rs = reviews t calls @ [Some p]
      in if too_many rs p \<and> \<not> tripped (reviews t calls)
         then InterruptTurn (min (streak rs) u32_max) (denials_in_window rs)
         else Continue)"
  by (simp add: record_denial_def breaker_after_reviews deny_turn_of streak_snoc Let_def)

subsection \<open>At most one interruption per turn\<close>

definition interrupts :: "string \<Rightarrow> breaker_call \<Rightarrow> breaker_action \<Rightarrow> bool" where
  "interrupts t c a \<longleftrightarrow> (\<exists>p. c = Denial t p) \<and> a \<noteq> Continue"

definition clears :: "string \<Rightarrow> breaker_call \<Rightarrow> bool" where
  "clears t c \<longleftrightarrow> c = ClearTurn t"

lemma deny_latch:
  "snd (deny turn p) \<noteq> Continue \<Longrightarrow>
     \<not> interrupt_triggered turn \<and> interrupt_triggered (fst (deny turn p))"
  "interrupt_triggered turn \<Longrightarrow> interrupt_triggered (fst (deny turn p))"
  by (auto simp: deny_def Let_def split: prod.splits if_splits)

interpretation breaker: latch breaker_step "interrupts t" "clears t"
  "\<lambda>b. interrupt_triggered (turn_or_default b t)" for t
proof
  show "\<not> interrupt_triggered (turn_or_default s t)"
    if "interrupts t x (snd (breaker_step s x))" for x s
    using that deny_latch(1) [of "turn_or_default s t"]
    by (auto simp: interrupts_def record_denial_def Let_def split_beta)
  show "interrupt_triggered (turn_or_default (fst (breaker_step s x)) t)"
    if "interrupts t x (snd (breaker_step s x))" for x s
    using that deny_latch(1) [of "turn_or_default s t"]
    by (auto simp: interrupts_def record_denial_def Let_def split_beta turn_or_default_def)
  show "interrupt_triggered (turn_or_default (fst (breaker_step s x)) t)"
    if "interrupt_triggered (turn_or_default s t)" "\<not> clears t x" for x s
    using that deny_latch(2) [of "turn_or_default s t"]
    by (cases x) (auto simp: clears_def record_denial_def record_non_denial_def clear_turn_def
        Let_def split_beta turn_or_default_def)
qed

lemma breaker_interrupts_once:
  "list_all (\<lambda>c. c \<noteq> ClearTurn t) calls \<Longrightarrow>
     length (filter (\<lambda>(c, a). interrupts t c a) (zip calls (snd (run_ops breaker_step b calls)))) \<le> 1"
  using breaker.fires_at_most_once [of t calls b] breaker.firings_def [of t b calls]
  by (simp add: clears_def)

end
