(* ===== verification/Compact_Window.thy ===== *)
theory Compact_Window
  imports Ava_Prelude "HOL-Library.Signed_Division"
begin

text \<open>
  When a conversation is compacted. The accounting state of the current compaction window
  (\<open>ava-rs/core/src/state/auto_compact_window.rs\<close>), the token budget configuration
  (\<open>TokenBudgetConfig\<close> in \<open>core/src/config/mod.rs\<close>, \<open>resolve_token_budget\<close> in
  \<open>core/src/session/token_budget.rs\<close>), the limits of a model (\<open>protocol/src/ava_models.rs\<close>) and the
  decision itself, \<open>context_window_token_status_with_config\<close> in
  \<open>core/src/session/context_window.rs\<close>.

  An \<open>i64\<close> is an \<^typ>\<open>int\<close>, with the saturating and the wrapping operations written out; a fresh
  \<open>Uuid::now_v7\<close> is an argument of the operation that draws it.
\<close>

section \<open>64-bit arithmetic\<close>

definition i64_min :: int where "i64_min = - (2 ^ 63)"
definition i64_max :: int where "i64_max = 2 ^ 63 - 1"

definition i64_range :: "int \<Rightarrow> bool" where
  "i64_range x \<longleftrightarrow> i64_min \<le> x \<and> x \<le> i64_max"

definition i64_sat :: "int \<Rightarrow> int" where
  "i64_sat x = max i64_min (min x i64_max)"

definition i64_wrap :: "int \<Rightarrow> int" where
  "i64_wrap x = (x + 2 ^ 63) mod 2 ^ 64 - 2 ^ 63"

definition u64_max :: nat where "u64_max = 2 ^ 64 - 1"

lemma i64_sat_range [simp]: "i64_range (i64_sat x)"
  by (simp add: i64_range_def i64_sat_def i64_min_def i64_max_def)

lemma i64_sat_le_zero [simp]: "i64_sat x \<le> 0 \<longleftrightarrow> x \<le> 0"
  by (simp add: i64_sat_def i64_min_def i64_max_def min_le_iff_disj)

lemma i64_sat_eq_zero [simp]: "i64_sat x = 0 \<longleftrightarrow> x = 0"
  by (auto simp: i64_sat_def i64_min_def i64_max_def min_def max_def)

lemma i64_sat_add_ge: "i64_range a \<Longrightarrow> 0 \<le> b \<Longrightarrow> a \<le> i64_sat (a + b)"
  by (auto simp: i64_sat_def i64_range_def)

section \<open>The compaction window\<close>

type_synonym uuid = string

record window_ids =
  first_window_id :: uuid
  previous_window_id :: "uuid option"
  window_id :: uuid

definition new_initial :: "uuid \<Rightarrow> window_ids" where
  "new_initial fresh =
     \<lparr>first_window_id = fresh, previous_window_id = None, window_id = fresh\<rparr>"

datatype window_prefill = ServerObserved int | Estimated int

record compact_window =
  window_number :: nat
  ids :: window_ids
  new_context_window_requested :: bool
  prefill_input_tokens :: "window_prefill option"
  token_budget_reminder_delivered :: bool
  auto_compact_fallback_delivered :: bool

definition new_with_ids :: "window_ids \<Rightarrow> compact_window" where
  "new_with_ids i =
     \<lparr>window_number = 0, ids = i, new_context_window_requested = False,
      prefill_input_tokens = None, token_budget_reminder_delivered = False,
      auto_compact_fallback_delivered = False\<rparr>"

definition clear_prefill :: "compact_window \<Rightarrow> compact_window" where
  "clear_prefill w = w\<lparr>prefill_input_tokens := None\<rparr>"

definition restore_window :: "compact_window \<Rightarrow> nat \<Rightarrow> window_ids \<Rightarrow> compact_window" where
  "restore_window w n i = w\<lparr>window_number := n, ids := i\<rparr>"

definition advance_window :: "compact_window \<Rightarrow> uuid \<Rightarrow> compact_window \<times> (nat \<times> window_ids)" where
  "advance_window w fresh =
     (let n = min (window_number w + 1) u64_max;
          i = (ids w)\<lparr>previous_window_id := Some (window_id (ids w)), window_id := fresh\<rparr>
      in (w\<lparr>window_number := n, ids := i, new_context_window_requested := False,
            token_budget_reminder_delivered := False, auto_compact_fallback_delivered := False\<rparr>,
          (n, i)))"

definition claim_token_budget_reminder :: "compact_window \<Rightarrow> compact_window \<times> bool" where
  "claim_token_budget_reminder w =
     (w\<lparr>token_budget_reminder_delivered := True\<rparr>, \<not> token_budget_reminder_delivered w)"

definition claim_auto_compact_fallback :: "compact_window \<Rightarrow> compact_window \<times> bool" where
  "claim_auto_compact_fallback w =
     (w\<lparr>auto_compact_fallback_delivered := True\<rparr>, \<not> auto_compact_fallback_delivered w)"

definition request_new_context_window :: "compact_window \<Rightarrow> compact_window" where
  "request_new_context_window w = w\<lparr>new_context_window_requested := True\<rparr>"

definition take_new_context_window_request :: "compact_window \<Rightarrow> compact_window \<times> bool" where
  "take_new_context_window_request w =
     (w\<lparr>new_context_window_requested := False\<rparr>, new_context_window_requested w)"

fun server_observed :: "window_prefill option \<Rightarrow> bool" where
  "server_observed (Some (ServerObserved _)) = True"
| "server_observed _ = False"

definition ensure_server_observed_prefill :: "compact_window \<Rightarrow> int \<Rightarrow> compact_window" where
  "ensure_server_observed_prefill w input_tokens =
     (if server_observed (prefill_input_tokens w) then w
      else w\<lparr>prefill_input_tokens := Some (ServerObserved (max input_tokens 0))\<rparr>)"

definition set_estimated_prefill :: "compact_window \<Rightarrow> int \<Rightarrow> compact_window" where
  "set_estimated_prefill w tokens =
     (if server_observed (prefill_input_tokens w) then w
      else w\<lparr>prefill_input_tokens := Some (Estimated (max tokens 0))\<rparr>)"

fun prefill_tokens :: "window_prefill option \<Rightarrow> int option" where
  "prefill_tokens (Some (ServerObserved t)) = Some t"
| "prefill_tokens (Some (Estimated t)) = Some t"
| "prefill_tokens None = None"

definition window_snapshot :: "compact_window \<Rightarrow> int option" where
  "window_snapshot w = prefill_tokens (prefill_input_tokens w)"

section \<open>The limits of a model and the token budget\<close>

text \<open>
  The fields of \<open>ModelInfo\<close> that the limits read, and the defaults for the token budget that
  the model messages of a model may carry.
\<close>

record budget_defaults =
  d_reminder_threshold_tokens :: int
  d_reminder_message_template :: string
  d_guidance_message :: string
  d_auto_compact_fallback_prompt :: string
  d_auto_compact_fallback_buffer_tokens :: int

record model_info =
  context_window :: "int option"
  max_context_window :: "int option"
  m_auto_compact_token_limit :: "int option"
  effective_context_window_percent :: int
  token_budget_defaults :: "budget_defaults option"

definition option_or :: "'a option \<Rightarrow> 'a option \<Rightarrow> 'a option" where
  "option_or a b = (case a of Some x \<Rightarrow> Some x | None \<Rightarrow> b)"

definition resolved_context_window :: "model_info \<Rightarrow> int option" where
  "resolved_context_window m = option_or (context_window m) (max_context_window m)"

definition usable_context_window :: "model_info \<Rightarrow> int option" where
  "usable_context_window m =
     map_option (\<lambda>w. i64_sat (w * effective_context_window_percent m) sdiv 100)
       (resolved_context_window m)"

definition auto_compact_token_limit :: "model_info \<Rightarrow> int option" where
  "auto_compact_token_limit m =
     (case map_option (\<lambda>w. i64_wrap (w * 9) sdiv 10) (resolved_context_window m) of
        Some context_limit \<Rightarrow>
          Some (case m_auto_compact_token_limit m of
                  None \<Rightarrow> context_limit
                | Some limit \<Rightarrow> min limit context_limit)
      | None \<Rightarrow> m_auto_compact_token_limit m)"

record token_budget =
  use_history_notes_extension :: bool
  reminder_threshold_tokens :: "int option"
  reminder_message_template :: string
  guidance_message :: "string option"
  auto_compact_fallback_prompt :: "string option"
  auto_compact_fallback_buffer_tokens :: "int option"

datatype budget_error =
    ThresholdNotPositive
  | TemplateEmpty
  | TemplateTooLong
  | GuidanceTooLong
  | PromptTooLong
  | BufferMissing
  | BufferNotPositive

definition TOKEN_BUDGET_MESSAGE_MAX_BYTES :: nat where
  "TOKEN_BUDGET_MESSAGE_MAX_BYTES = 2000"

definition is_some_and :: "'a option \<Rightarrow> ('a \<Rightarrow> bool) \<Rightarrow> bool" where
  "is_some_and x P = (case x of None \<Rightarrow> False | Some a \<Rightarrow> P a)"

lemma is_some_and_simps [simp]:
  "\<not> is_some_and None P"
  "is_some_and (Some a) P \<longleftrightarrow> P a"
  by (simp_all add: is_some_and_def)

definition validate_budget :: "token_budget \<Rightarrow> budget_error + unit" where
  "validate_budget b =
     (if is_some_and (reminder_threshold_tokens b) (\<lambda>t. t \<le> 0) then Inl ThresholdNotPositive
      else if str_trim (reminder_message_template b) = [] then Inl TemplateEmpty
      else if length (reminder_message_template b) > TOKEN_BUDGET_MESSAGE_MAX_BYTES
        then Inl TemplateTooLong
      else if is_some_and (guidance_message b) (\<lambda>m. length m > TOKEN_BUDGET_MESSAGE_MAX_BYTES)
        then Inl GuidanceTooLong
      else if is_some_and (auto_compact_fallback_prompt b)
                (\<lambda>p. length p > TOKEN_BUDGET_MESSAGE_MAX_BYTES) then Inl PromptTooLong
      else if auto_compact_fallback_prompt b \<noteq> None \<and> auto_compact_fallback_buffer_tokens b = None
        then Inl BufferMissing
      else if is_some_and (auto_compact_fallback_buffer_tokens b) (\<lambda>t. t \<le> 0)
        then Inl BufferNotPositive
      else Inr ())"

definition fallback_buffer_tokens :: "token_budget \<Rightarrow> int" where
  "fallback_buffer_tokens b =
     (if auto_compact_fallback_prompt b \<noteq> None
      then (case auto_compact_fallback_buffer_tokens b of None \<Rightarrow> 0 | Some t \<Rightarrow> t)
      else 0)"

definition resolve_token_budget ::
  "token_budget option \<Rightarrow> bool \<Rightarrow> model_info \<Rightarrow> token_budget option" where
  "resolve_token_budget configured use_model_defaults m =
     (if \<not> use_model_defaults then configured
      else case token_budget_defaults m of
        None \<Rightarrow> configured
      | Some d \<Rightarrow>
          let b = \<lparr>use_history_notes_extension =
                     is_some_and configured use_history_notes_extension,
                   reminder_threshold_tokens = Some (d_reminder_threshold_tokens d),
                   reminder_message_template = d_reminder_message_template d,
                   guidance_message = Some (d_guidance_message d),
                   auto_compact_fallback_prompt = Some (d_auto_compact_fallback_prompt d),
                   auto_compact_fallback_buffer_tokens =
                     Some (d_auto_compact_fallback_buffer_tokens d)\<rparr>
          in case validate_budget b of Inl _ \<Rightarrow> configured | Inr _ \<Rightarrow> Some b)"

section \<open>The decision\<close>

datatype limit_scope = Total | BodyAfterPrefix

record compact_config =
  model_auto_compact_token_limit :: "int option"
  model_auto_compact_token_limit_scope :: limit_scope
  model_post_turn_compact_threshold_percent :: nat
  config_token_budget :: "token_budget option"

record token_status =
  active_context_tokens :: int
  auto_compact_scope_tokens :: int
  auto_compact_scope_limit :: "int option"
  full_context_window_limit :: "int option"
  base_window_tokens_remaining :: "int option"
  auto_compact_window_prefill_tokens :: "int option"
  full_context_window_limit_reached :: bool
  token_limit_reached :: bool
  turn_end_compaction_threshold_reached :: bool

definition tokens_remaining :: "int option \<Rightarrow> int \<Rightarrow> int option" where
  "tokens_remaining limit used = map_option (\<lambda>l. max (i64_sat (l - used)) 0) limit"

definition opt_min :: "int option \<Rightarrow> int option \<Rightarrow> int option" where
  "opt_min a b =
     (case (a, b) of
        (Some x, Some y) \<Rightarrow> Some (min x y)
      | (Some x, None) \<Rightarrow> Some x
      | (None, y) \<Rightarrow> y)"

definition scope_usage ::
  "compact_window \<Rightarrow> compact_config \<Rightarrow> model_info \<Rightarrow> int \<Rightarrow> int \<times> int option \<times> int option" where
  "scope_usage w config m active =
     (case model_auto_compact_token_limit_scope config of
        Total \<Rightarrow> (active, auto_compact_token_limit m, None)
      | BodyAfterPrefix \<Rightarrow>
          let prefill = window_snapshot w;
              baseline = (case prefill of None \<Rightarrow> active | Some t \<Rightarrow> t)
          in (i64_sat (active - baseline),
              option_or (model_auto_compact_token_limit config) (auto_compact_token_limit m),
              prefill))"

definition context_window_token_status_with_config ::
  "compact_window \<Rightarrow> compact_config \<Rightarrow> model_info \<Rightarrow> int \<Rightarrow> token_status" where
  "context_window_token_status_with_config w config m active =
     (let (scope_tokens, scope_limit, prefill) = scope_usage w config m active;
          full_limit = map_option (\<lambda>cw. i64_sat (cw * effective_context_window_percent m) sdiv 100)
                         (resolved_context_window m);
          remaining = opt_min (tokens_remaining scope_limit scope_tokens)
                        (tokens_remaining full_limit active);
          buffer = (case config_token_budget config of
                      None \<Rightarrow> 0 | Some b \<Rightarrow> fallback_buffer_tokens b);
          buffered = map_option (\<lambda>l. i64_sat (l + buffer)) scope_limit;
          full_reached = is_some_and full_limit (\<lambda>l. active \<ge> l);
          reached = is_some_and buffered (\<lambda>l. scope_tokens \<ge> l) \<or> full_reached;
          percent = int (model_post_turn_compact_threshold_percent config);
          turn_end = (percent > 0 \<and>
            (reached \<or> is_some_and full_limit (\<lambda>l. active * 100 \<ge> l * percent)))
      in \<lparr>active_context_tokens = active, auto_compact_scope_tokens = scope_tokens,
          auto_compact_scope_limit = scope_limit, full_context_window_limit = full_limit,
          base_window_tokens_remaining = remaining, auto_compact_window_prefill_tokens = prefill,
          full_context_window_limit_reached = full_reached, token_limit_reached = reached,
          turn_end_compaction_threshold_reached = turn_end\<rparr>)"

definition context_window_token_status_for_model ::
  "compact_window \<Rightarrow> compact_config \<Rightarrow> token_budget option \<Rightarrow> bool \<Rightarrow> model_info \<Rightarrow> int
    \<Rightarrow> token_status" where
  "context_window_token_status_for_model w config configured use_model_defaults m active =
     context_window_token_status_with_config w
       (config\<lparr>config_token_budget := resolve_token_budget configured use_model_defaults m\<rparr>)
       m active"

section \<open>Sequences of calls on the window\<close>

datatype window_call =
    ClaimReminder
  | ClaimFallback
  | RequestWindow
  | TakeRequest
  | AdvanceWindow uuid
  | RestoreWindow nat window_ids
  | ClearPrefill
  | ServerUsage int
  | EstimatePrefill int

fun window_step :: "compact_window \<Rightarrow> window_call \<Rightarrow> compact_window \<times> bool" where
  "window_step w ClaimReminder = claim_token_budget_reminder w"
| "window_step w ClaimFallback = claim_auto_compact_fallback w"
| "window_step w RequestWindow = (request_new_context_window w, False)"
| "window_step w TakeRequest = take_new_context_window_request w"
| "window_step w (AdvanceWindow u) = (fst (advance_window w u), False)"
| "window_step w (RestoreWindow n i) = (restore_window w n i, False)"
| "window_step w ClearPrefill = (clear_prefill w, False)"
| "window_step w (ServerUsage t) = (ensure_server_observed_prefill w t, False)"
| "window_step w (EstimatePrefill t) = (set_estimated_prefill w t, False)"

fun advances :: "window_call \<Rightarrow> bool" where
  "advances (AdvanceWindow _) = True"
| "advances _ = False"

lemmas window_defs =
  claim_token_budget_reminder_def claim_auto_compact_fallback_def request_new_context_window_def
  take_new_context_window_request_def advance_window_def restore_window_def clear_prefill_def
  ensure_server_observed_prefill_def set_estimated_prefill_def

interpretation reminder: one_shot window_step "\<lambda>c a. c = ClaimReminder \<and> a" advances
  token_budget_reminder_delivered "\<lambda>c. c = ClaimReminder"
proof
  show "token_budget_reminder_delivered (fst (window_step s x))"
    if "token_budget_reminder_delivered s" "\<not> advances x" for s x
    using that by (cases x) (auto simp: window_defs)
  show "\<not> token_budget_reminder_delivered (fst (window_step s x))"
    if "x \<noteq> ClaimReminder" "\<not> token_budget_reminder_delivered s" for s x
    using that by (cases x) (auto simp: window_defs Let_def)
qed (auto simp: window_defs)

interpretation fallback: one_shot window_step "\<lambda>c a. c = ClaimFallback \<and> a" advances
  auto_compact_fallback_delivered "\<lambda>c. c = ClaimFallback"
proof
  show "auto_compact_fallback_delivered (fst (window_step s x))"
    if "auto_compact_fallback_delivered s" "\<not> advances x" for s x
    using that by (cases x) (auto simp: window_defs)
  show "\<not> auto_compact_fallback_delivered (fst (window_step s x))"
    if "x \<noteq> ClaimFallback" "\<not> auto_compact_fallback_delivered s" for s x
    using that by (cases x) (auto simp: window_defs Let_def)
qed (auto simp: window_defs)

text \<open>How many calls of the sequence are \<open>c\<close> and were answered with true.\<close>

definition granted :: "window_call \<Rightarrow> compact_window \<Rightarrow> window_call list \<Rightarrow> nat" where
  "granted c w calls =
     length (filter (\<lambda>(c', a). c' = c \<and> a) (zip calls (snd (run_ops window_step w calls))))"

lemma granted_reminder: "granted ClaimReminder w calls = reminder.firings w calls"
  by (simp add: granted_def reminder.firings_def)

lemma granted_fallback: "granted ClaimFallback w calls = fallback.firings w calls"
  by (simp add: granted_def fallback.firings_def)

text \<open>
  Within one compaction window the token budget reminder and the fallback prompt are each
  granted once: from the moment the window was opened and until the next one is, exactly one claim
  of each kind is answered with true when there is one, whatever other calls are made in between.
\<close>

theorem window_claims_granted_once:
  assumes "list_all (\<lambda>c. \<not> advances c) calls"
  shows "granted ClaimReminder (fst (advance_window w u)) calls = min 1 (count_list calls ClaimReminder) \<and>
    granted ClaimFallback (fst (advance_window w u)) calls = min 1 (count_list calls ClaimFallback)"
proof -
  have one: "min (Suc 0) (count_list calls c) = (if list_ex (\<lambda>x. x = c) calls then 1 else 0)" for c
    by (induction calls) auto
  have "\<not> token_budget_reminder_delivered (fst (advance_window w u))"
    "\<not> auto_compact_fallback_delivered (fst (advance_window w u))"
    by (simp_all add: advance_window_def Let_def)
  with assms show ?thesis
    by (simp add: one granted_reminder granted_fallback reminder.firings_exact
        fallback.firings_exact)
qed

theorem window_claims_granted_once_witness:
  "granted ClaimReminder (fst (advance_window (new_with_ids (new_initial ''a'')) ''b''))
     [ServerUsage 5, ClaimReminder, ClaimFallback, ClaimReminder] = 1"
  using window_claims_granted_once [of "[ServerUsage 5, ClaimReminder, ClaimFallback, ClaimReminder]"
      "new_with_ids (new_initial ''a'')" "''b''"]
  by simp

section \<open>The baseline of the window\<close>

text \<open>
  The baseline that a sequence of calls should leave: the first usage the server reports, or,
  as long as there is none, the last estimate.
\<close>

fun first_usage :: "window_call list \<Rightarrow> int option" where
  "first_usage [] = None"
| "first_usage (ServerUsage t # cs) = Some (max t 0)"
| "first_usage (_ # cs) = first_usage cs"

fun last_estimate :: "int option \<Rightarrow> window_call list \<Rightarrow> int option" where
  "last_estimate e [] = e"
| "last_estimate e (EstimatePrefill t # cs) = last_estimate (Some (max t 0)) cs"
| "last_estimate e (_ # cs) = last_estimate e cs"

definition baseline :: "window_call list \<Rightarrow> int option" where
  "baseline calls = option_or (first_usage calls) (last_estimate None calls)"

lemma prefill_stays_observed:
  "prefill_input_tokens w = Some (ServerObserved t) \<Longrightarrow> ClearPrefill \<notin> set calls \<Longrightarrow>
     prefill_input_tokens (fst (run_ops window_step w calls)) = Some (ServerObserved t)"
proof (induction calls arbitrary: w)
  case (Cons c cs)
  then show ?case by (cases c) (auto simp: window_defs Let_def split_beta)
qed simp

lemma snapshot_run:
  "\<not> server_observed (prefill_input_tokens w) \<Longrightarrow> ClearPrefill \<notin> set calls \<Longrightarrow>
     window_snapshot (fst (run_ops window_step w calls)) =
       option_or (first_usage calls) (last_estimate (window_snapshot w) calls)"
proof (induction calls arbitrary: w)
  case Nil
  then show ?case by (simp add: option_or_def)
next
  case (Cons c cs)
  show ?case
  proof (cases c)
    case (ServerUsage t)
    let ?w = "ensure_server_observed_prefill w t"
    have "prefill_input_tokens ?w = Some (ServerObserved (max t 0))"
      using Cons.prems(1) by (simp add: window_defs)
    then have "prefill_input_tokens (fst (run_ops window_step ?w cs)) =
        Some (ServerObserved (max t 0))"
      using Cons.prems(2) by (intro prefill_stays_observed) auto
    with ServerUsage show ?thesis
      by (simp add: window_snapshot_def option_or_def Let_def split_beta)
  qed (use Cons in \<open>auto simp: window_defs window_snapshot_def Let_def split_beta\<close>)
qed

text \<open>
  The baseline subtracted from the usage of the window is the input side of the first usage
  that the server reported since the history was last replaced; until there is one it is the latest
  estimate, and it is never negative. Later usages and estimates, advancing and restoring the window
  do not move it.
\<close>

theorem window_baseline:
  assumes "prefill_input_tokens w = None" "ClearPrefill \<notin> set calls"
  shows "window_snapshot (fst (run_ops window_step w calls)) = baseline calls"
  using snapshot_run [of w calls] assms by (simp add: baseline_def window_snapshot_def)

theorem window_baseline_witness:
  "window_snapshot (fst (run_ops window_step (new_with_ids (new_initial ''a''))
     [EstimatePrefill 40, ServerUsage 30, EstimatePrefill 50, ServerUsage 70])) = Some 30"
  using window_baseline [of "new_with_ids (new_initial ''a'')"
      "[EstimatePrefill 40, ServerUsage 30, EstimatePrefill 50, ServerUsage 70]"]
  by (simp add: new_with_ids_def baseline_def option_or_def)

section \<open>The decision is consistent with what is reported\<close>

lemma validated_buffer: "validate_budget b = Inr () \<Longrightarrow> 0 \<le> fallback_buffer_tokens b"
  by (auto simp: validate_budget_def fallback_buffer_tokens_def split: if_splits option.splits)

lemma tokens_remaining_zero:
  "tokens_remaining limit used = Some 0 \<longleftrightarrow> is_some_and limit (\<lambda>l. used \<ge> l)"
  by (cases limit) (auto simp: tokens_remaining_def max_def not_le dest: leI)

lemma tokens_remaining_nonneg: "tokens_remaining limit used = Some r \<Longrightarrow> 0 \<le> r"
  by (auto simp: tokens_remaining_def)

lemma opt_min_zero:
  "(\<And>r. a = Some r \<Longrightarrow> 0 \<le> r) \<Longrightarrow> (\<And>r. b = Some r \<Longrightarrow> 0 \<le> r) \<Longrightarrow>
     opt_min a b = Some 0 \<longleftrightarrow> a = Some 0 \<or> b = Some 0"
  by (auto simp: opt_min_def min_def split: option.splits)

lemma status_fields:
  "base_window_tokens_remaining (context_window_token_status_with_config w config m active) = Some 0 \<longleftrightarrow>
     is_some_and (fst (snd (scope_usage w config m active)))
       (\<lambda>l. fst (scope_usage w config m active) \<ge> l) \<or>
     is_some_and (usable_context_window m) (\<lambda>l. active \<ge> l)"
  "token_limit_reached (context_window_token_status_with_config w config m active) \<longleftrightarrow>
     is_some_and (fst (snd (scope_usage w config m active)))
       (\<lambda>l. fst (scope_usage w config m active) \<ge>
          i64_sat (l + (case config_token_budget config of None \<Rightarrow> 0 | Some b \<Rightarrow> fallback_buffer_tokens b))) \<or>
     is_some_and (usable_context_window m) (\<lambda>l. active \<ge> l)"
proof -
  show "token_limit_reached (context_window_token_status_with_config w config m active) \<longleftrightarrow>
     is_some_and (fst (snd (scope_usage w config m active)))
       (\<lambda>l. fst (scope_usage w config m active) \<ge>
          i64_sat (l + (case config_token_budget config of None \<Rightarrow> 0 | Some b \<Rightarrow> fallback_buffer_tokens b))) \<or>
     is_some_and (usable_context_window m) (\<lambda>l. active \<ge> l)"
    by (auto simp: context_window_token_status_with_config_def usable_context_window_def Let_def
        split_beta is_some_and_def split: option.splits)
qed (simp add: context_window_token_status_with_config_def usable_context_window_def Let_def
      split_beta opt_min_zero tokens_remaining_nonneg tokens_remaining_zero)

text \<open>The limits of a model and of the configuration are \<open>i64\<close> values.\<close>

definition limits_in_range :: "compact_config \<Rightarrow> model_info \<Rightarrow> bool" where
  "limits_in_range config m \<longleftrightarrow>
     (\<forall>l. model_auto_compact_token_limit config = Some l \<longrightarrow> i64_range l) \<and>
     (\<forall>l. m_auto_compact_token_limit m = Some l \<longrightarrow> i64_range l)"

lemma i64_wrap_range: "i64_range (i64_wrap x)"
  by (simp add: i64_range_def i64_wrap_def i64_min_def i64_max_def)

lemma sdiv_10_range: "i64_range x \<Longrightarrow> i64_range (x sdiv 10)"
  by (auto simp: i64_range_def signed_divide_int_def i64_min_def i64_max_def sgn_if)

lemma auto_compact_token_limit_range:
  assumes "limits_in_range config m" "auto_compact_token_limit m = Some l"
  shows "i64_range l"
  using assms sdiv_10_range [OF i64_wrap_range]
  by (auto simp: auto_compact_token_limit_def limits_in_range_def min_def split: option.splits if_splits)

lemma scope_limit_range:
  assumes "limits_in_range config m" "fst (snd (scope_usage w config m active)) = Some l"
  shows "i64_range l"
  using assms auto_compact_token_limit_range [OF assms(1)]
  by (auto simp: scope_usage_def Let_def option_or_def limits_in_range_def
      split: limit_scope.splits option.splits)

text \<open>
  Compaction is forced only when the reported number of remaining tokens is zero, and, unless
  a fallback prompt reserves a buffer, always when it is. With a fallback prompt the usage can pass
  the scope limit by less than the validated buffer before compaction is forced, and never reaches
  the context window of the model without it. Limits are 64-bit values and the budget in force
  has passed its validation.
\<close>

theorem compaction_when_no_tokens_remain:
  fixes w :: compact_window and active :: int
  assumes "limits_in_range config m"
    and "\<And>b. config_token_budget config = Some b \<Longrightarrow> validate_budget b = Inr ()"
  defines "st \<equiv> context_window_token_status_with_config w config m active"
    and "buffer \<equiv> (case config_token_budget config of None \<Rightarrow> 0 | Some b \<Rightarrow> fallback_buffer_tokens b)"
  shows "(token_limit_reached st \<longrightarrow> base_window_tokens_remaining st = Some 0) \<and>
    (buffer = 0 \<longrightarrow> base_window_tokens_remaining st = Some 0 \<longrightarrow> token_limit_reached st) \<and>
    (\<not> token_limit_reached st \<longrightarrow>
       (\<forall>l. auto_compact_scope_limit st = Some l \<longrightarrow> auto_compact_scope_tokens st < l + buffer) \<and>
       (\<forall>l. usable_context_window m = Some l \<longrightarrow> active < l))"
proof -
  let ?u = "scope_usage w config m active"
  have buf: "0 \<le> buffer"
    using assms(2) validated_buffer by (auto simp: buffer_def split: option.splits)
  have rng: "i64_range l" if "fst (snd ?u) = Some l" for l
    using scope_limit_range [OF assms(1) that] .
  have ge: "l \<le> i64_sat (l + buffer)" "i64_sat (l + buffer) \<le> l + buffer"
    "buffer = 0 \<Longrightarrow> i64_sat (l + buffer) = l" if "fst (snd ?u) = Some l" for l
    using i64_sat_add_ge [OF rng [OF that] buf] rng [OF that] buf
    by (auto simp: i64_sat_def i64_range_def)
  have fields: "auto_compact_scope_limit st = fst (snd ?u)" "auto_compact_scope_tokens st = fst ?u"
    by (simp_all add: st_def context_window_token_status_with_config_def Let_def split_beta)
  show ?thesis
    unfolding fields unfolding st_def status_fields buffer_def [symmetric]
    using ge by (cases "fst (snd ?u)"; cases "usable_context_window m") (force simp: not_le)+
qed

theorem compaction_when_no_tokens_remain_witness:
  "(let config = \<lparr>model_auto_compact_token_limit = None, model_auto_compact_token_limit_scope = Total,
          model_post_turn_compact_threshold_percent = 0, config_token_budget = None\<rparr>;
        m = \<lparr>context_window = Some 1000, max_context_window = None, m_auto_compact_token_limit = Some 800,
          effective_context_window_percent = 95, token_budget_defaults = None\<rparr>
    in token_limit_reached
         (context_window_token_status_with_config (new_with_ids (new_initial ''a'')) config m 850))"
proof -
  define config where "config = \<lparr>model_auto_compact_token_limit = None,
    model_auto_compact_token_limit_scope = Total, model_post_turn_compact_threshold_percent = 0,
    config_token_budget = None\<rparr>"
  define m where "m = \<lparr>context_window = Some 1000, max_context_window = None,
    m_auto_compact_token_limit = Some 800, effective_context_window_percent = 95,
    token_budget_defaults = None\<rparr>"
  have "limits_in_range config m"
    by (simp add: limits_in_range_def config_def m_def i64_range_def i64_min_def i64_max_def)
  moreover have "base_window_tokens_remaining
      (context_window_token_status_with_config (new_with_ids (new_initial ''a'')) config m 850) = Some 0"
    by (simp add: status_fields(1) scope_usage_def config_def m_def auto_compact_token_limit_def
        resolved_context_window_def option_or_def i64_wrap_def signed_divide_int_def)
  ultimately show ?thesis
    using compaction_when_no_tokens_remain [of config m "new_with_ids (new_initial ''a'')" 850]
    by (simp add: config_def m_def)
qed

text \<open>
  A resolved token budget is valid when the configured one is: model defaults that do not pass
  the validation are ignored.
\<close>

lemma resolved_budget_valid:
  assumes "\<And>b. configured = Some b \<Longrightarrow> validate_budget b = Inr ()"
    and "resolve_token_budget configured use_model_defaults m = Some b"
  shows "validate_budget b = Inr ()"
  using assms
  by (auto simp: resolve_token_budget_def Let_def split: if_splits option.splits sum.splits)

end
