(* ===== verification/Message_Framing.thy ===== *)
theory Message_Framing
  imports Ava_Prelude "HOL-Library.Word"
begin

unbundle bit_operations_syntax

text \<open>
  Messages in the encrypted byte stream between the agent and the exec server,
  \<^verbatim>\<open>exec-server/src/noise_relay/message_framing.rs\<close>. A message is sent as a four-byte big-endian
  length and its bytes; the stream is cut into bounded records, and the decoder puts messages
  together again, whatever the cuts. The length prefix is a 32-bit word. Serialization of JSON-RPC
  messages (\<open>serde_json\<close>) is an argument.
\<close>

definition LENGTH_PREFIX_BYTES :: nat where "LENGTH_PREFIX_BYTES = 4"
definition MAX_NOISE_JSONRPC_MESSAGE_LEN :: nat where "MAX_NOISE_JSONRPC_MESSAGE_LEN = 64 * 1024 * 1024"
definition NOISE_RECORD_PLAINTEXT_LEN :: nat where "NOISE_RECORD_PLAINTEXT_LEN = 60 * 1024"

datatype exec_server_error = ProtocolError string | JsonError string

section \<open>Length prefixes\<close>

definition to_be_bytes :: "32 word \<Rightarrow> string" where
  "to_be_bytes w = map (\<lambda>k. char_of (unat (take_bit 8 (drop_bit k w)))) [24, 16, 8, 0]"

definition byte_word :: "char \<Rightarrow> 32 word" where
  "byte_word c = of_nat (of_char c)"

definition from_be_bytes :: "char \<Rightarrow> char \<Rightarrow> char \<Rightarrow> char \<Rightarrow> 32 word" where
  "from_be_bytes a b c d =
     push_bit 24 (byte_word a) OR push_bit 16 (byte_word b) OR push_bit 8 (byte_word c) OR byte_word d"

lemma byte_word_char: "byte_word (char_of (unat (take_bit 8 w))) = take_bit 8 w" for w :: "32 word"
proof -
  have "unat (take_bit 8 w) < 256" 
    using take_bit_nat_less_exp [of 8 "unat w"] by (simp add: unsigned_take_bit_eq)
  then show ?thesis by (simp add: byte_word_def)
qed

lemma from_to_be_bytes:
  "from_be_bytes (to_be_bytes w ! 0) (to_be_bytes w ! 1) (to_be_bytes w ! 2) (to_be_bytes w ! 3) = w"
proof (rule bit_word_eqI)
  fix n
  assume n: "n < LENGTH(32)"
  then consider "n < 8" | "8 \<le> n" "n < 16" | "16 \<le> n" "n < 24" | "24 \<le> n" by linarith
  then show "bit (from_be_bytes (to_be_bytes w ! 0) (to_be_bytes w ! 1) (to_be_bytes w ! 2) (to_be_bytes w ! 3)) n = bit w n"
    using n by cases (auto simp: to_be_bytes_def from_be_bytes_def byte_word_char bit_simps nth_Cons')
qed

definition message_length_prefix :: "nat \<Rightarrow> exec_server_error + string" where
  "message_length_prefix n =
     (if n = 0 \<or> MAX_NOISE_JSONRPC_MESSAGE_LEN < n
      then Inl (ProtocolError ''Noise relay JSON-RPC message exceeds maximum length'')
      else Inr (to_be_bytes (of_nat n)))"

definition frame_message :: "string \<Rightarrow> exec_server_error + string" where
  "frame_message message = and_then (message_length_prefix (length message)) (\<lambda>p. Inr (p @ message))"

definition frame_jsonrpc_message :: "('m \<Rightarrow> exec_server_error + string) \<Rightarrow> 'm \<Rightarrow> exec_server_error + string" where
  "frame_jsonrpc_message to_json message =
     and_then (to_json message) (\<lambda>text.
       and_then (message_length_prefix (length text)) (\<lambda>p. Inr (p @ text)))"

section \<open>The decoder\<close>

text \<open>The loop over complete messages. The state is the buffer; an error leaves it as the loop
  found it, and drops the messages found before.\<close>

function take_messages :: "string \<Rightarrow> string list \<Rightarrow> string \<times> (exec_server_error + string list)" where
  "take_messages buffered messages =
     (case buffered of
        a # b # c # d # rest \<Rightarrow>
          (let message_len = unat (from_be_bytes a b c d)
           in if message_len = 0 \<or> MAX_NOISE_JSONRPC_MESSAGE_LEN < message_len
              then (buffered, Inl (ProtocolError ''Noise relay JSON-RPC message has invalid length''))
              else if length buffered < LENGTH_PREFIX_BYTES + message_len then (buffered, Inr messages)
              else take_messages (drop message_len rest) (messages @ [take message_len rest]))
      | _ \<Rightarrow> (buffered, Inr messages))"
  by pat_completeness auto
termination by (relation "measure (length \<circ> fst)") auto

declare take_messages.simps [simp del]

definition push_record :: "string \<Rightarrow> string \<Rightarrow> string \<times> (exec_server_error + string list)" where
  "push_record buffered record =
     (if NOISE_RECORD_PLAINTEXT_LEN < length record
      then (buffered, Inl (ProtocolError ''Noise relay plaintext record exceeds maximum length''))
      else case take_messages (buffered @ record) [] of
        (buffered', Inl e) \<Rightarrow> (buffered', Inl e)
      | (buffered', Inr messages) \<Rightarrow>
          if LENGTH_PREFIX_BYTES + MAX_NOISE_JSONRPC_MESSAGE_LEN < length buffered'
          then (buffered', Inl (ProtocolError ''Noise relay JSON-RPC reassembly buffer exceeds maximum length''))
          else (buffered', Inr messages))"

fun parse_messages :: "(string \<Rightarrow> exec_server_error + 'm) \<Rightarrow> string list \<Rightarrow> exec_server_error + 'm list" where
  "parse_messages from_json [] = Inr []"
| "parse_messages from_json (t # ts) =
     and_then (from_json t) (\<lambda>m. and_then (parse_messages from_json ts) (\<lambda>ms. Inr (m # ms)))"

definition push_jsonrpc :: "(string \<Rightarrow> exec_server_error + 'm) \<Rightarrow> string \<Rightarrow> string
    \<Rightarrow> string \<times> (exec_server_error + 'm list)" where
  "push_jsonrpc from_json buffered record =
     (case push_record buffered record of (buffered', r) \<Rightarrow> (buffered', and_then r (parse_messages from_json)))"

text \<open>A connection: records are pushed until one is rejected.\<close>

fun push_records :: "(string \<Rightarrow> exec_server_error + 'm) \<Rightarrow> string \<Rightarrow> string list
    \<Rightarrow> string \<times> (exec_server_error + 'm list)" where
  "push_records from_json buffered [] = (buffered, Inr [])"
| "push_records from_json buffered (r # rs) =
     (case push_jsonrpc from_json buffered r of
        (buffered', Inl e) \<Rightarrow> (buffered', Inl e)
      | (buffered', Inr ms) \<Rightarrow>
          (case push_records from_json buffered' rs of
             (buffered'', res) \<Rightarrow> (buffered'', and_then res (\<lambda>ms'. Inr (ms @ ms')))))"

section \<open>Messages and cuts\<close>

lemma length_to_be_bytes [simp]: "length (to_be_bytes w) = 4"
  by (simp add: to_be_bytes_def)

lemma to_be_bytes_split:
  obtains a b c d where "to_be_bytes w = [a, b, c, d]" "from_be_bytes a b c d = w"
proof
  show "to_be_bytes w = [to_be_bytes w ! 0, to_be_bytes w ! 1, to_be_bytes w ! 2, to_be_bytes w ! 3]"
    by (simp add: to_be_bytes_def)
qed (rule from_to_be_bytes)

lemma length_word:
  assumes "n \<le> MAX_NOISE_JSONRPC_MESSAGE_LEN"
  shows "unat (of_nat n :: 32 word) = n"
  using assms by (simp add: unat_of_nat MAX_NOISE_JSONRPC_MESSAGE_LEN_def)

lemma frame_messageE:
  assumes "frame_message m = Inr f"
  obtains a b c d where "f = a # b # c # d # m" "unat (from_be_bytes a b c d) = length m"
    "length m \<noteq> 0" "length m \<le> MAX_NOISE_JSONRPC_MESSAGE_LEN"
proof -
  from assms have len: "length m \<noteq> 0" "length m \<le> MAX_NOISE_JSONRPC_MESSAGE_LEN"
    and f: "f = to_be_bytes (of_nat (length m)) @ m"
    by (auto simp: frame_message_def message_length_prefix_def split: if_splits)
  obtain a b c d where "to_be_bytes (of_nat (length m)) = [a, b, c, d]" "from_be_bytes a b c d = of_nat (length m)"
    by (rule to_be_bytes_split)
  with that [of a b c d] len f show thesis by (simp add: length_word)
qed

lemma prefix_cases:
  obtains (short) "length buf < LENGTH_PREFIX_BYTES" | (full) a b c d rest where "buf = a # b # c # d # rest"
proof (cases "length buf < 4")
  case False
  then obtain a b c d rest where "buf = a # b # c # d # rest"
    by (cases buf; cases "tl buf"; cases "tl (tl buf)"; cases "tl (tl (tl buf))") auto
  then show thesis by (rule full)
qed (simp add: short LENGTH_PREFIX_BYTES_def)

lemma take_messages_short: "length buf < LENGTH_PREFIX_BYTES \<Longrightarrow> take_messages buf acc = (buf, Inr acc)"
  by (auto simp: take_messages.simps [of buf] LENGTH_PREFIX_BYTES_def split: list.split)

lemma take_messages_prefix:
  "take_messages (a # b # c # d # rest) acc =
     (let n = unat (from_be_bytes a b c d)
      in if n = 0 \<or> MAX_NOISE_JSONRPC_MESSAGE_LEN < n
         then (a # b # c # d # rest, Inl (ProtocolError ''Noise relay JSON-RPC message has invalid length''))
         else if length rest < n then (a # b # c # d # rest, Inr acc)
         else take_messages (drop n rest) (acc @ [take n rest]))"
  by (simp add: take_messages.simps [of "a # b # c # d # rest"] LENGTH_PREFIX_BYTES_def Let_def)

lemma take_messages_frame:
  assumes "frame_message m = Inr f"
  shows "take_messages (f @ buf) acc = take_messages buf (acc @ [m])"
proof -
  from assms obtain a b c d where "f = a # b # c # d # m" "unat (from_be_bytes a b c d) = length m"
    "length m \<noteq> 0" "length m \<le> MAX_NOISE_JSONRPC_MESSAGE_LEN"
    by (rule frame_messageE)
  then show ?thesis by (simp add: take_messages_prefix)
qed

lemma take_messages_partial:
  assumes "frame_message m = Inr f" "buf @ more = f" "more \<noteq> []"
  shows "take_messages buf acc = (buf, Inr acc)"
proof (cases buf rule: prefix_cases)
  case (full a b c d rest)
  from assms(1) obtain a' b' c' d' where f: "f = a' # b' # c' # d' # m" "unat (from_be_bytes a' b' c' d') = length m"
    "length m \<noteq> 0" "length m \<le> MAX_NOISE_JSONRPC_MESSAGE_LEN"
    by (rule frame_messageE)
  have "m = rest @ more" using assms(2) full f(1) by simp
  then have "length rest < length m" using assms(3) by simp
  with full f assms(2) show ?thesis by (simp add: take_messages_prefix)
qed (rule take_messages_short)

text \<open>The buffer after a push is a proper prefix of a frame, so it stays small.\<close>

lemma take_messages_bound:
  "take_messages buf acc = (buf', Inr ms) \<Longrightarrow> length buf' < LENGTH_PREFIX_BYTES + MAX_NOISE_JSONRPC_MESSAGE_LEN"
proof (induction "length buf" arbitrary: buf acc rule: less_induct)
  case less
  show ?case
  proof (cases buf rule: prefix_cases)
    case short
    with less.prems show ?thesis by (simp add: take_messages_short)
  next
    case (full a b c d rest)
    with less.prems less.hyps [of "drop (unat (from_be_bytes a b c d)) rest"] show ?thesis
      by (auto simp: take_messages_prefix Let_def LENGTH_PREFIX_BYTES_def split: if_splits)
  qed
qed

text \<open>What is left in the buffer holds no complete message.\<close>

lemma take_messages_idem:
  "take_messages buf acc = (buf', Inr ms) \<Longrightarrow> take_messages buf' acc' = (buf', Inr acc')"
proof (induction "length buf" arbitrary: buf acc rule: less_induct)
  case less
  show ?case
  proof (cases buf rule: prefix_cases)
    case short
    with less.prems show ?thesis by (simp add: take_messages_short)
  next
    case (full a b c d rest)
    with less.prems less.hyps [of "drop (unat (from_be_bytes a b c d)) rest"] show ?thesis
      by (auto simp: take_messages_prefix Let_def split: if_splits)
  qed
qed

lemma take_messages_stream:
  assumes "list_all2 (\<lambda>m f. frame_message m = Inr f) ms frames" "buf @ more = concat frames"
  shows "\<exists>k rest. take_messages buf acc = (rest, Inr (acc @ take k ms)) \<and> rest @ more = concat (drop k frames) \<and>
    (more = [] \<longrightarrow> rest = [] \<and> length ms \<le> k)"
  using assms
proof (induction ms frames arbitrary: buf acc rule: list_all2_induct)
  case Nil
  then show ?case by (intro exI [of _ 0] exI [of _ "[]"]) (simp add: take_messages.simps)
next
  case (Cons m ms f frames)
  show ?case
  proof (cases "length f \<le> length buf")
    case True
    with Cons.prems obtain buf' where buf': "buf = f @ buf'" "buf' @ more = concat frames"
      by (auto simp: append_eq_append_conv2)
    from Cons.IH [OF buf'(2), of "acc @ [m]"] obtain k rest where
      "take_messages buf' (acc @ [m]) = (rest, Inr ((acc @ [m]) @ take k ms))"
      "rest @ more = concat (drop k frames)" "more = [] \<longrightarrow> rest = [] \<and> length ms \<le> k" by blast
    then show ?thesis using buf'(1) Cons.hyps(1)
      by (intro exI [of _ "Suc k"] exI [of _ rest]) (simp add: take_messages_frame)
  next
    case False
    with Cons.prems obtain tail where tail: "buf @ tail = f" "tail \<noteq> []" "more = tail @ concat frames"
      by (auto simp: append_eq_append_conv2)
    then show ?thesis using take_messages_partial [OF Cons.hyps(1) tail(1,2)] Cons.prems
      by (intro exI [of _ 0] exI [of _ buf]) simp
  qed
qed

lemma parse_messages_take:
  "list_all2 (\<lambda>t m. from_json t = Inr m) ts ms \<Longrightarrow> parse_messages from_json ts = Inr ms"
  by (induction ts ms rule: list_all2_induct) auto

lemma push_record_ok:
  assumes "length r \<le> NOISE_RECORD_PLAINTEXT_LEN" "take_messages (buf @ r) [] = (buf', Inr ts)"
  shows "push_record buf r = (buf', Inr ts)"
  using assms take_messages_bound [OF assms(2)] by (simp add: push_record_def)

text \<open>Records that together are the frames of the messages still to come.\<close>

lemma push_records_stream:
  assumes "list_all2 (\<lambda>m f. frame_message m = Inr f) ts frames" "list_all2 (\<lambda>t m. from_json t = Inr m) ts ms"
    and "buf @ concat records = concat frames" "list_all (\<lambda>r. length r \<le> NOISE_RECORD_PLAINTEXT_LEN) records"
    and "take_messages buf [] = (buf, Inr [])"
  shows "push_records from_json buf records = ([], Inr ms)"
  using assms
proof (induction records arbitrary: buf ts frames ms)
  case Nil
  obtain k rest where "take_messages buf [] = (rest, Inr (take k ts))" "rest = []" "length ts \<le> k"
    using take_messages_stream [OF Nil(1), of buf "[]" "[]"] Nil(3) by (metis append_Nil append_Nil2 concat.simps(1))
  with Nil(5) have "buf = []" "ts = []" by simp_all
  with Nil(2) show ?case by simp
next
  case (Cons r rs)
  from take_messages_stream [OF Cons.prems(1), of "buf @ r" "concat rs" "[]"] Cons.prems(3)
  obtain k rest where k: "take_messages (buf @ r) [] = (rest, Inr (take k ts))"
    "rest @ concat rs = concat (drop k frames)" by auto
  from Cons.prems(1,2) have later: "list_all2 (\<lambda>m f. frame_message m = Inr f) (drop k ts) (drop k frames)"
    "list_all2 (\<lambda>t m. from_json t = Inr m) (drop k ts) (drop k ms)"
    and now: "list_all2 (\<lambda>t m. from_json t = Inr m) (take k ts) (take k ms)"
    by (simp_all add: list_all2_dropI list_all2_takeI)
  have "push_jsonrpc from_json buf r = (rest, Inr (take k ms))"
    using push_record_ok [OF _ k(1)] Cons.prems(4) parse_messages_take [OF now] by (simp add: push_jsonrpc_def)
  moreover have "push_records from_json rest rs = ([], Inr (drop k ms))"
    using Cons.IH [OF later k(2)] Cons.prems(4) take_messages_idem [OF k(1)] by simp
  ultimately show ?case by simp
qed

section \<open>Properties\<close>

text \<open>C34: messages survive the transport. When each of a list of messages is serialized and framed,
  and the bytes of all frames are cut into records in any way that respects the record limit, the
  receiver decodes exactly these messages in order, rejects nothing and ends with an empty buffer.
  Of the serialization it is assumed that it can be read back.\<close>

theorem framing_roundtrip:
  assumes json: "\<And>m t. to_json m = Inr t \<Longrightarrow> from_json t = Inr m"
    and frames: "list_all2 (\<lambda>m f. frame_jsonrpc_message to_json m = Inr f) ms frames"
    and cut: "concat records = concat frames" "list_all (\<lambda>r. length r \<le> NOISE_RECORD_PLAINTEXT_LEN) records"
  shows "push_records from_json [] records = ([], Inr ms)"
proof -
  have "\<exists>ts. list_all2 (\<lambda>m f. frame_message m = Inr f) ts frames \<and> list_all2 (\<lambda>t m. from_json t = Inr m) ts ms"
    using frames
  proof (induction ms frames rule: list_all2_induct)
    case (Cons m ms f fs)
    from Cons.hyps(1) obtain t where "to_json m = Inr t" "frame_message t = Inr f"
      by (auto simp: frame_jsonrpc_message_def frame_message_def and_then_Inr_iff)
    with json have t: "from_json t = Inr m" "frame_message t = Inr f" by blast+
    from Cons.IH obtain ts where "list_all2 (\<lambda>m f. frame_message m = Inr f) ts fs"
      "list_all2 (\<lambda>t m. from_json t = Inr m) ts ms" by blast
    with t show ?case by (intro exI [of _ "t # ts"]) simp
  qed simp
  then obtain ts where "list_all2 (\<lambda>m f. frame_message m = Inr f) ts frames"
    "list_all2 (\<lambda>t m. from_json t = Inr m) ts ms" by blast
  then show ?thesis using cut by (intro push_records_stream) (simp_all add: take_messages_short LENGTH_PREFIX_BYTES_def)
qed

theorem framing_roundtrip_witness:
  "push_records Inr [] [[CHR 0x00, CHR 0x00], [CHR 0x00, CHR 0x02, CHR ''h''], [CHR ''i'']] = ([], Inr [''hi''])"
proof (rule framing_roundtrip)
  show "list_all2 (\<lambda>m f. frame_jsonrpc_message Inr m = Inr f) [''hi''] [[CHR 0x00, CHR 0x00, CHR 0x00, CHR 0x02, CHR ''h'', CHR ''i'']]"
    by (simp add: frame_jsonrpc_message_def message_length_prefix_def MAX_NOISE_JSONRPC_MESSAGE_LEN_def
        to_be_bytes_def char_of_def bit_0)
qed (simp_all add: NOISE_RECORD_PLAINTEXT_LEN_def)

text \<open>The memory of the decoder is bounded whatever the peer sends: after a record that is not
  rejected less than one maximal frame is buffered, so that the check for an oversized buffer at the
  end of a push never fires.\<close>

theorem decoder_memory_bounded:
  "case push_record buf r of
     (buf', Inr ms) \<Rightarrow> length buf' < LENGTH_PREFIX_BYTES + MAX_NOISE_JSONRPC_MESSAGE_LEN
   | (buf', Inl e) \<Rightarrow> e \<noteq> ProtocolError ''Noise relay JSON-RPC reassembly buffer exceeds maximum length''"
proof -
  have err: "take_messages buf acc = (b, Inl e) \<Longrightarrow> e = ProtocolError ''Noise relay JSON-RPC message has invalid length''"
    for buf acc b e
  proof (induction "length buf" arbitrary: buf acc rule: less_induct)
    case less
    show ?case
    proof (cases buf rule: prefix_cases)
      case short
      with less.prems show ?thesis by (simp add: take_messages_short)
    next
      case (full a b' c d rest)
      with less.prems less.hyps [of "drop (unat (from_be_bytes a b' c d)) rest"] show ?thesis
        by (auto simp: take_messages_prefix Let_def split: if_splits)
    qed
  qed
  show ?thesis
    using take_messages_bound [of "buf @ r" "[]"] err [of "buf @ r" "[]"]
    by (auto simp: push_record_def split: prod.split sum.split)
qed

end
