(* ===== verification/Reverse_Scanner.thy ===== *)
theory Reverse_Scanner
  imports Ava_Prelude
begin

text \<open>
  Reading a rollout file backwards, \<^verbatim>\<open>rollout/src/reverse_jsonl_scanner.rs\<close>. The scanner reads
  the file in chunks from the end and hands out its newline-separated records, last one first,
  without the blank ones and, if a limit is set, without the oversized ones. Arguments of the model:
  \<open>read_at\<close>, which seeks to an offset and reads a number of bytes, and \<open>parse\<close>, the
  deserialization of a record.

  The result is that the scanner is an iterator over the records of the file in reverse order:
  neither the chunk boundaries nor the limit change which records are found, and every call ends.
\<close>

definition READ_CHUNK_SIZE :: nat where "READ_CHUNK_SIZE = 64 * 1024"

datatype ('t, 'e) scan_outcome = Parsed 't | Rejected 'e

record scanner =
  next_chunk_end :: nat
  chunk_position :: nat
  chunk :: string
  record_reversed :: string
  max_record_bytes :: "nat option"
  discarding :: bool

type_synonym 'x read_at = "nat \<Rightarrow> nat \<Rightarrow> 'x + string"

definition scanner_new_at :: "nat \<Rightarrow> nat \<Rightarrow> string + scanner" where
  "scanner_new_at file_len end_byte_offset =
     (if file_len < end_byte_offset then Inl ''reverse JSONL scan end is past the file''
      else Inr \<lparr>next_chunk_end = end_byte_offset, chunk_position = 0, chunk = replicate READ_CHUNK_SIZE (CHR 0x00),
             record_reversed = [], max_record_bytes = None, discarding = False\<rparr>)"

definition scanner_new :: "nat \<Rightarrow> string + scanner" where
  "scanner_new file_len = scanner_new_at file_len file_len"

definition with_max_record_bytes :: "nat \<Rightarrow> scanner \<Rightarrow> scanner" where
  "with_max_record_bytes m s = s\<lparr>max_record_bytes := Some m\<rparr>"

definition is_ascii_whitespace :: "char \<Rightarrow> bool" where
  "is_ascii_whitespace c \<longleftrightarrow> c \<in> {CHR '' '', CHR 0x09, CHR 0x0A, CHR 0x0C, CHR 0x0D}"

definition finish_record :: "(string \<Rightarrow> 'e + 't) \<Rightarrow> scanner \<Rightarrow> scanner \<times> ('t, 'e) scan_outcome option" where
  "finish_record parse s =
     (let record = rev (record_reversed s)
      in (s\<lparr>record_reversed := []\<rparr>,
          if list_all is_ascii_whitespace record then None
          else Some (case parse record of Inr v \<Rightarrow> Parsed v | Inl e \<Rightarrow> Rejected e)))"

text \<open>Add a piece to the front of the current record, or start to discard it.\<close>

definition absorb :: "string \<Rightarrow> scanner \<Rightarrow> scanner" where
  "absorb fragment s =
     (if discarding s then s
      else if (case max_record_bytes s of
                 Some m \<Rightarrow> m < sat_add (length (record_reversed s)) (length fragment) | None \<Rightarrow> False)
      then s\<lparr>record_reversed := [], discarding := True\<rparr>
      else s\<lparr>record_reversed := record_reversed s @ rev fragment\<rparr>)"

text \<open>The index of the last occurrence.\<close>

definition rposition :: "'a \<Rightarrow> 'a list \<Rightarrow> nat option" where
  "rposition c xs = (if c \<in> set xs then Some (length xs - Suc (length (takeWhile (\<lambda>x. x \<noteq> c) (rev xs)))) else None)"

definition refill :: "'x read_at \<Rightarrow> scanner \<Rightarrow> scanner \<times> ('x + unit)" where
  "refill read_at s =
     (let read_size = min (next_chunk_end s) READ_CHUNK_SIZE;
          s1 = s\<lparr>next_chunk_end := next_chunk_end s - read_size\<rparr>
      in case read_at (next_chunk_end s1) read_size of
           Inl e \<Rightarrow> (s1, Inl e)
         | Inr bytes \<Rightarrow> (s1\<lparr>chunk := bytes @ drop read_size (chunk s), chunk_position := read_size\<rparr>, Inr ()))"

lemma rposition_less: "rposition c xs = Some p \<Longrightarrow> p < length xs"
  by (auto simp: rposition_def split: if_splits) (metis length_pos_if_in_set diff_less zero_less_Suc)

lemma refill_measure:
  assumes "(s1, Inr u) = refill read_at s" "chunk_position s = 0" "0 < next_chunk_end s"
  shows "next_chunk_end s = next_chunk_end s1 + chunk_position s1 \<and> 0 < chunk_position s1"
  using assms by (auto simp: refill_def Let_def READ_CHUNK_SIZE_def split: sum.splits)

lemma absorb_position [simp]:
  "next_chunk_end (absorb f s) = next_chunk_end s" "chunk (absorb f s) = chunk s"
  "chunk_position (absorb f s) = chunk_position s" "max_record_bytes (absorb f s) = max_record_bytes s"
  by (simp_all add: absorb_def)

function scan_next :: "(string \<Rightarrow> 'e + 't) \<Rightarrow> 'x read_at \<Rightarrow> scanner \<Rightarrow> scanner \<times> ('x + ('t, 'e) scan_outcome option)" where
  "scan_next parse read_at s =
     (if chunk_position s = 0 \<and> next_chunk_end s = 0
      then (if discarding s then (s\<lparr>discarding := False\<rparr>, Inr None)
            else case finish_record parse s of (s1, out) \<Rightarrow> (s1, Inr out))
      else case (if chunk_position s = 0 then refill read_at s else (s, Inr ())) of
        (s1, Inl e) \<Rightarrow> (s1, Inl e)
      | (s1, Inr _) \<Rightarrow>
          (let piece = take (chunk_position s1) (chunk s1)
           in case rposition newline piece of
                Some newline_position \<Rightarrow>
                  (let s2 = (absorb (drop (newline_position + 1) piece) s1)\<lparr>chunk_position := newline_position\<rparr>
                   in if discarding s2 then scan_next parse read_at (s2\<lparr>discarding := False\<rparr>)
                      else (case finish_record parse s2 of
                              (s3, Some out) \<Rightarrow> (s3, Inr (Some out))
                            | (s3, None) \<Rightarrow> scan_next parse read_at s3))
              | None \<Rightarrow> scan_next parse read_at ((absorb piece s1)\<lparr>chunk_position := 0\<rparr>)))"
  by pat_completeness auto
termination
  by (relation "measure (\<lambda>(parse, read_at, s). next_chunk_end s + chunk_position s)")
     (auto simp: finish_record_def Let_def split: if_splits dest!: rposition_less dest: refill_measure)

declare scan_next.simps [simp del]

section \<open>The records still to come\<close>

text \<open>The part of the file that has not been looked at, and the records it and the current record
  make up, last one first. A record that is being discarded is not among them.\<close>

definition unread :: "string \<Rightarrow> scanner \<Rightarrow> string" where
  "unread contents s = take (next_chunk_end s) contents @ take (chunk_position s) (chunk s)"

fun within_limit :: "nat option \<Rightarrow> nat \<Rightarrow> bool" where
  "within_limit None n \<longleftrightarrow> True"
| "within_limit (Some m) n \<longleftrightarrow> n \<le> m"

lemma within_limit_0 [simp]: "within_limit m 0"
  by (cases m) simp_all

definition wanted :: "nat option \<Rightarrow> string \<Rightarrow> bool" where
  "wanted m record \<longleftrightarrow> \<not> list_all is_ascii_whitespace record \<and> within_limit m (length record)"

definition records_left :: "string \<Rightarrow> scanner \<Rightarrow> string list" where
  "records_left contents s =
     filter (wanted (max_record_bytes s))
       (if discarding s then tl (rev (split_on newline (unread contents s)))
        else rev (split_on newline (unread contents s @ rev (record_reversed s))))"

definition outcome_of :: "(string \<Rightarrow> 'e + 't) \<Rightarrow> string \<Rightarrow> ('t, 'e) scan_outcome" where
  "outcome_of parse record = (case parse record of Inr v \<Rightarrow> Parsed v | Inl e \<Rightarrow> Rejected e)"

definition scanner_inv :: "string \<Rightarrow> scanner \<Rightarrow> bool" where
  "scanner_inv contents s \<longleftrightarrow>
     next_chunk_end s \<le> length contents \<and> length contents \<le> usize_max \<and>
     chunk_position s \<le> length (chunk s) \<and>
     newline \<notin> set (record_reversed s) \<and> (discarding s \<longrightarrow> record_reversed s = []) \<and>
     within_limit (max_record_bytes s) (length (record_reversed s)) \<and>
     length (unread contents s @ record_reversed s) \<le> length contents"

text \<open>What reading from the file gives.\<close>

definition reads :: "'x read_at \<Rightarrow> string \<Rightarrow> bool" where
  "reads read_at contents \<longleftrightarrow>
     (\<forall>offset n. offset + n \<le> length contents \<longrightarrow> read_at offset n = Inr (take n (drop offset contents)))"

lemma refill_reads:
  assumes "reads read_at contents" "scanner_inv contents s" "chunk_position s = 0" "next_chunk_end s \<noteq> 0"
  obtains s1 where "refill read_at s = (s1, Inr ())" "unread contents s1 = unread contents s"
    "scanner_inv contents s1" "records_left contents s1 = records_left contents s"
    "next_chunk_end s1 + chunk_position s1 = next_chunk_end s" "0 < chunk_position s1"
proof -
  define n where "n = min (next_chunk_end s) READ_CHUNK_SIZE"
  define e where "e = next_chunk_end s - n"
  have len: "e + n = next_chunk_end s" "next_chunk_end s \<le> length contents"
    using assms(2) by (simp_all add: n_def e_def scanner_inv_def)
  let ?s1 = "s\<lparr>next_chunk_end := e, chunk := take n (drop e contents) @ drop n (chunk s), chunk_position := n\<rparr>"
  have refill: "refill read_at s = (?s1, Inr ())"
    using assms(1) len by (simp add: refill_def reads_def Let_def n_def e_def)
  have u: "unread contents ?s1 = unread contents s"
    using len assms(3) by (simp add: unread_def flip: take_add)
  moreover have "scanner_inv contents ?s1"
    using assms(2) len u by (simp add: scanner_inv_def)
  moreover have "records_left contents ?s1 = records_left contents s"
    using u by (simp add: records_left_def)
  moreover have "0 < n" using assms(4) by (simp add: n_def READ_CHUNK_SIZE_def)
  ultimately show thesis using that [OF refill] len(1) by simp
qed

lemma rposition_split:
  assumes "rposition c xs = Some p"
  shows "xs = take p xs @ c # drop (p + 1) xs" "c \<notin> set (drop (p + 1) xs)"
proof -
  let ?tail = "rev (takeWhile (\<lambda>x. x \<noteq> c) (rev xs))"
  from assms have c: "c \<in> set (rev xs)" and p: "p = length xs - Suc (length ?tail)"
    by (auto simp: rposition_def split: if_splits)
  from c obtain rest where rest: "dropWhile (\<lambda>x. x \<noteq> c) (rev xs) = c # rest"
    by (metis (mono_tags, lifting) dropWhile_eq_Cons_conv dropWhile_eq_Nil_conv list.exhaust)
  then have "rev xs = takeWhile (\<lambda>x. x \<noteq> c) (rev xs) @ c # rest" by (metis takeWhile_dropWhile_id)
  then have xs: "xs = rev rest @ c # ?tail" by (metis append.assoc append_Cons append_Nil rev.simps(2) rev_append rev_rev_ident)
  then have "p = length (rev rest)" using p by (metis One_nat_def add_diff_cancel_right' length_Cons length_append)
  then have "take p xs = rev rest" "drop (p + 1) xs = ?tail" by (subst xs; simp)+
  moreover have "c \<notin> set ?tail" by (auto dest: set_takeWhileD)
  ultimately show "xs = take p xs @ c # drop (p + 1) xs" "c \<notin> set (drop (p + 1) xs)" using xs by simp_all
qed

lemma rposition_None: "rposition c xs = None \<longleftrightarrow> c \<notin> set xs"
  by (simp add: rposition_def)

lemma rev_split_snoc: "c \<notin> set ys \<Longrightarrow> rev (split_on c (xs @ c # ys)) = ys # rev (split_on c xs)"
  by (simp add: split_on_snoc)

text \<open>Text without a separator only extends the last record.\<close>

lemma rev_split_extend:
  assumes "c \<notin> set ys"
  shows "rev (split_on c (xs @ ys)) = (last (split_on c xs) @ ys) # tl (rev (split_on c xs))"
proof -
  have "split_on c (xs @ ys) = butlast (split_on c xs) @ [last (split_on c xs) @ ys]"
    using assms by (induction xs) (auto simp: split_on_id split: list.split)
  moreover have "rev (butlast (split_on c xs)) = tl (rev (split_on c xs))"
    by (metis butlast_rev rev_rev_ident)
  ultimately show ?thesis by simp
qed

text \<open>The three outcomes of adding a piece.\<close>

lemma absorb_cases:
  assumes "scanner_inv contents s" "length (record_reversed s) + length f \<le> length contents"
  obtains (discarding) "discarding s" "absorb f s = s"
    | (oversized) m where "\<not> discarding s" "max_record_bytes s = Some m" "m < length f + length (record_reversed s)"
        "absorb f s = s\<lparr>record_reversed := [], discarding := True\<rparr>"
    | (fits) "\<not> discarding s" "within_limit (max_record_bytes s) (length (record_reversed s) + length f)"
        "absorb f s = s\<lparr>record_reversed := record_reversed s @ rev f\<rparr>"
proof (cases "discarding s")
  case False
  have "sat_add (length (record_reversed s)) (length f) = length f + length (record_reversed s)"
    using assms by (simp add: sat_add_def scanner_inv_def)
  with False show thesis
    by (cases "max_record_bytes s"; cases "\<exists>m. max_record_bytes s = Some m \<and> m < length f + length (record_reversed s)")
       (auto simp: absorb_def not_less add.commute intro: oversized fits)
qed (simp add: discarding absorb_def)

lemma absorb_plain:
  assumes inv: "scanner_inv contents s" and plain: "newline \<notin> set (take (chunk_position s) (chunk s))"
  defines "s' \<equiv> (absorb (take (chunk_position s) (chunk s)) s)\<lparr>chunk_position := 0\<rparr>"
  shows "scanner_inv contents s'" "records_left contents s' = records_left contents s"
proof -
  let ?f = "take (chunk_position s) (chunk s)" and ?A = "take (next_chunk_end s) contents"
  have f: "length (record_reversed s) + length ?f \<le> length contents"
    using inv by (simp add: scanner_inv_def unread_def min_def split: if_splits)
  have "scanner_inv contents s' \<and> records_left contents s' = records_left contents s"
    using inv f
  proof (cases rule: absorb_cases)
    case discarding
    then show ?thesis using inv rev_split_extend [OF plain, of ?A]
      by (simp add: s'_def scanner_inv_def records_left_def unread_def)
  next
    case (oversized m)
    have "newline \<notin> set (?f @ rev (record_reversed s))" using plain inv by (simp add: scanner_inv_def)
    from rev_split_extend [OF this, of ?A] oversized show ?thesis using inv
      by (simp add: s'_def scanner_inv_def records_left_def unread_def wanted_def)
  next
    case fits
    then show ?thesis using inv plain
      by (auto simp: s'_def scanner_inv_def records_left_def unread_def split: option.splits)
  qed
  then show "scanner_inv contents s'" "records_left contents s' = records_left contents s" by simp_all
qed

lemma absorb_newline:
  assumes inv: "scanner_inv contents s" and p: "rposition newline (take (chunk_position s) (chunk s)) = Some p"
  defines "f \<equiv> drop (p + 1) (take (chunk_position s) (chunk s))"
  defines "s' \<equiv> (absorb f s)\<lparr>chunk_position := p\<rparr>"
  shows "scanner_inv contents s'"
    "if discarding s' then records_left contents s = records_left contents (s'\<lparr>discarding := False\<rparr>)
     else records_left contents s =
       filter (wanted (max_record_bytes s)) [rev (record_reversed s')] @ records_left contents (s'\<lparr>record_reversed := []\<rparr>)"
proof -
  let ?piece = "take (chunk_position s) (chunk s)" and ?A = "take (next_chunk_end s) contents"
  let ?B = "?A @ take p ?piece"
  note split = rposition_split [OF p, folded f_def]
  have pos: "p < chunk_position s" "chunk_position s \<le> length (chunk s)"
    using rposition_less [OF p] inv by (simp_all add: scanner_inv_def)
  have B: "unread contents s = ?B @ newline # f" "unread contents s' = ?B"
    using split(1) pos by (simp_all add: unread_def s'_def min_def)
  have len: "length ?B + Suc (length f) + length (record_reversed s) \<le> length contents"
    using inv B(1) by (auto simp: scanner_inv_def min_def split: if_splits)
  then have f: "length (record_reversed s) + length f \<le> length contents" by linarith
  have keep: "next_chunk_end s' = next_chunk_end s" "chunk s' = chunk s" "chunk_position s' = p"
      "max_record_bytes s' = max_record_bytes s" by (simp_all add: s'_def)
  have "scanner_inv contents s' \<and> (if discarding s' then records_left contents s = records_left contents (s'\<lparr>discarding := False\<rparr>)
     else records_left contents s =
       filter (wanted (max_record_bytes s)) [rev (record_reversed s')] @ records_left contents (s'\<lparr>record_reversed := []\<rparr>))"
    using inv f
  proof (cases rule: absorb_cases)
    case discarding
    then show ?thesis using inv keep B len rev_split_snoc [OF split(2), of ?B] pos
      by (simp add: s'_def scanner_inv_def records_left_def unread_def)
  next
    case (oversized m)
    have "newline \<notin> set (f @ rev (record_reversed s))" using split(2) inv by (simp add: scanner_inv_def)
    from rev_split_snoc [OF this, of ?B] oversized show ?thesis using inv keep B len pos
      by (simp add: s'_def scanner_inv_def records_left_def unread_def wanted_def)
  next
    case fits
    have "newline \<notin> set (f @ rev (record_reversed s))" using split(2) inv by (simp add: scanner_inv_def)
    from rev_split_snoc [OF this, of ?B] fits show ?thesis using inv keep B len pos split(2)
      by (simp add: s'_def scanner_inv_def records_left_def unread_def)
  qed
  then show "scanner_inv contents s'"
    "if discarding s' then records_left contents s = records_left contents (s'\<lparr>discarding := False\<rparr>)
     else records_left contents s =
       filter (wanted (max_record_bytes s)) [rev (record_reversed s')] @ records_left contents (s'\<lparr>record_reversed := []\<rparr>)"
    by simp_all
qed

lemma finish_record_alt:
  "finish_record parse s = (s\<lparr>record_reversed := []\<rparr>,
     if list_all is_ascii_whitespace (rev (record_reversed s)) then None
     else Some (outcome_of parse (rev (record_reversed s))))"
  by (simp add: finish_record_def outcome_of_def Let_def)

lemma scanner_inv_reset:
  "scanner_inv contents s \<Longrightarrow> scanner_inv contents (s\<lparr>record_reversed := []\<rparr>)"
  "scanner_inv contents s \<Longrightarrow> scanner_inv contents (s\<lparr>discarding := False\<rparr>)"
  by (auto simp: scanner_inv_def unread_def)

lemma scan_end:
  assumes "scanner_inv contents s" "chunk_position s = 0" "next_chunk_end s = 0"
  shows "records_left contents s = (if discarding s then [] else filter (wanted (max_record_bytes s)) [rev (record_reversed s)])"
  using assms by (auto simp: records_left_def unread_def scanner_inv_def split_on_id)

definition yields :: "(string \<Rightarrow> 'e + 't) \<Rightarrow> string \<Rightarrow> scanner \<Rightarrow> scanner \<times> ('x + ('t, 'e) scan_outcome option) \<Rightarrow> bool" where
  "yields parse contents s res \<longleftrightarrow>
     scanner_inv contents (fst res) \<and> records_left contents (fst res) = tl (records_left contents s) \<and>
     snd res = Inr (case records_left contents s of [] \<Rightarrow> None | r # _ \<Rightarrow> Some (outcome_of parse r))"

lemma scan_next_yields:
  assumes "reads read_at contents"
  shows "scanner_inv contents s \<Longrightarrow> yields parse contents s (scan_next parse read_at s)"
proof (induction "next_chunk_end s + chunk_position s" arbitrary: s rule: less_induct)
  case less
  show ?case
  proof (cases "chunk_position s = 0 \<and> next_chunk_end s = 0")
    case True
    have "wanted (max_record_bytes s) (rev (record_reversed s)) \<longleftrightarrow> \<not> list_all is_ascii_whitespace (rev (record_reversed s))"
      using less.prems by (simp add: wanted_def scanner_inv_def)
    moreover have "discarding s \<longrightarrow> record_reversed s = []" using less.prems by (simp add: scanner_inv_def)
    ultimately show ?thesis
      using True less.prems scan_end [OF less.prems] scanner_inv_reset [OF less.prems]
        scan_end [OF scanner_inv_reset(1) [OF less.prems]] scan_end [OF scanner_inv_reset(2) [OF less.prems]]
      by (cases "discarding s"; cases "list_all is_ascii_whitespace (rev (record_reversed s))")
         (simp_all add: scan_next.simps [of parse read_at s] yields_def finish_record_alt wanted_def)
  next
    case False
    obtain s1 where s1: "(if chunk_position s = 0 then refill read_at s else (s, Inr ())) = (s1, Inr ())"
      "scanner_inv contents s1" "records_left contents s1 = records_left contents s"
      "next_chunk_end s1 + chunk_position s1 = next_chunk_end s + chunk_position s" "0 < chunk_position s1"
    proof (cases "chunk_position s = 0")
      case True
      with False refill_reads [OF assms less.prems True] that show thesis by auto
    qed (use less.prems that in auto)
    let ?piece = "take (chunk_position s1) (chunk s1)"
    show ?thesis
    proof (cases "rposition newline ?piece")
      case None
      let ?s' = "(absorb ?piece s1)\<lparr>chunk_position := 0\<rparr>"
      have "scan_next parse read_at s = scan_next parse read_at ?s'"
        using False s1(1) None by (auto simp: scan_next.simps [of parse read_at s])
      with less.hyps [of ?s'] absorb_plain [OF s1(2)] None s1(3-5) show ?thesis
        by (simp add: yields_def rposition_None)
    next
      case (Some p)
      let ?s2 = "(absorb (drop (p + 1) ?piece) s1)\<lparr>chunk_position := p\<rparr>"
      note nl = absorb_newline [OF s1(2) Some]
      have p: "p < chunk_position s1" using rposition_less [OF Some] by simp
      have unfold: "scan_next parse read_at s =
          (if discarding ?s2 then scan_next parse read_at (?s2\<lparr>discarding := False\<rparr>)
           else case finish_record parse ?s2 of
             (s3, Some out) \<Rightarrow> (s3, Inr (Some out)) | (s3, None) \<Rightarrow> scan_next parse read_at s3)"
        using False s1(1) Some by (auto simp: scan_next.simps [of parse read_at s] Let_def)
      have limit: "within_limit (max_record_bytes s1) (length (record_reversed ?s2))"
        using nl(1) by (simp add: scanner_inv_def)
      show ?thesis
        using nl limit p s1(3,4) less.hyps [of "?s2\<lparr>discarding := False\<rparr>"] less.hyps [of "?s2\<lparr>record_reversed := []\<rparr>"]
        unfolding unfold
        by (cases "discarding ?s2"; cases "list_all is_ascii_whitespace (rev (record_reversed ?s2))")
           (simp_all add: yields_def finish_record_alt scanner_inv_reset wanted_def)
    qed
  qed
qed

section \<open>The scanner as an iterator\<close>

text \<open>Reading from memory; reads past the end fail.\<close>

definition memory_reader :: "string \<Rightarrow> string read_at" where
  "memory_reader contents offset n =
     (if offset + n \<le> length contents then Inr (take n (drop offset contents)) else Inl ''unexpected end of file'')"

lemma memory_reader_reads: "reads (memory_reader contents) contents"
  by (simp add: reads_def memory_reader_def)

text \<open>One call, for readers that do not fail.\<close>

definition scan_step :: "(string \<Rightarrow> 'e + 't) \<Rightarrow> 'x read_at \<Rightarrow> scanner \<Rightarrow> scanner \<times> ('t, 'e) scan_outcome option" where
  "scan_step parse read_at s =
     (case scan_next parse read_at s of (s', Inr out) \<Rightarrow> (s', out) | (s', Inl _) \<Rightarrow> (s', None))"

lemma scan_step_iterator:
  assumes "reads read_at contents"
  shows "iterator (scan_step parse read_at) (\<lambda>s. map (outcome_of parse) (records_left contents s)) (scanner_inv contents)"
proof
  fix s
  assume "scanner_inv contents s"
  from scan_next_yields [OF assms this, of parse]
  show "snd (scan_step parse read_at s) =
      (case map (outcome_of parse) (records_left contents s) of [] \<Rightarrow> None | a # _ \<Rightarrow> Some a)"
    and "map (outcome_of parse) (records_left contents (fst (scan_step parse read_at s))) =
      tl (map (outcome_of parse) (records_left contents s))"
    and "scanner_inv contents (fst (scan_step parse read_at s))"
    by (auto simp: yields_def scan_step_def map_tl split: prod.splits sum.splits list.splits)
qed

interpretation memory: iterator "scan_step parse (memory_reader contents)"
  "\<lambda>s. map (outcome_of parse) (records_left contents s)" "scanner_inv contents"
  by (rule scan_step_iterator [OF memory_reader_reads])

lemma scanner_new_inv:
  assumes "scanner_new_at (length contents) n = Inr s" "length contents \<le> usize_max"
  shows "scanner_inv contents s"
    "records_left contents s = filter (wanted (max_record_bytes s)) (rev (split_on newline (take n contents)))"
    "scanner_inv contents (with_max_record_bytes m s)"
    "records_left contents (with_max_record_bytes m s) = filter (wanted (Some m)) (rev (split_on newline (take n contents)))"
  using assms
  by (auto simp: scanner_new_at_def with_max_record_bytes_def scanner_inv_def records_left_def unread_def split: if_splits)

section \<open>Properties\<close>

text \<open>C35: reading a file backwards, up to a given end and with a record limit, yields exactly the
  records in front of that end that are not blank and not longer than the limit, the last one first,
  each as its deserialization, and then nothing more. Chunk boundaries play no role, and every call
  ends.\<close>

theorem scanner_reads_records_backwards:
  assumes "reads read_at contents" "length contents \<le> usize_max"
    and "scanner_new_at (length contents) n = Inr s"
    and "length (split_on newline contents) < fuel"
  shows "collect (scan_step parse read_at) fuel (with_max_record_bytes m s) =
    Some (map (outcome_of parse) (filter (wanted (Some m)) (rev (split_on newline (take n contents)))))"
proof -
  note s = scanner_new_inv(3,4) [OF assms(3,2)]
  have "length (split_on newline (take n contents)) \<le> length (split_on newline contents)"
    by (rule split_on_take)
  then have "length (filter (wanted (Some m)) (rev (split_on newline (take n contents)))) < fuel"
    using assms(4) by (intro le_less_trans [OF length_filter_le]) simp
  then show ?thesis
    using iterator.collect_remaining [OF scan_step_iterator [OF assms(1), of parse] s(1)] s(2) by simp
qed

theorem scanner_reads_records_backwards_witness:
  "collect (scan_step Inr (memory_reader (''a'' @ [newline] @ ''bcd'' @ [newline] @ ''e''))) 4
     (with_max_record_bytes 2 (projr (scanner_new 7))) =
   Some (map (outcome_of (Inr :: string \<Rightarrow> string + string)) [''e'', ''a''])"
proof -
  let ?c = "''a'' @ [newline] @ ''bcd'' @ [newline] @ ''e''"
  have c: "length ?c \<le> usize_max" by (simp add: usize_max_def)
  have s: "scanner_new_at (length ?c) 7 = Inr (projr (scanner_new 7))" by (simp add: scanner_new_def scanner_new_at_def)
  have "collect (scan_step Inr (memory_reader ?c)) 4 (with_max_record_bytes 2 (projr (scanner_new 7))) =
      Some (map (outcome_of (Inr :: string \<Rightarrow> string + string)) (filter (wanted (Some 2)) (rev (split_on newline (take 7 ?c)))))"
    by (rule scanner_reads_records_backwards [OF memory_reader_reads c s]) simp
  then show ?thesis by (simp add: wanted_def is_ascii_whitespace_def)
qed

end
