(* ===== verification/Rollout_Ordinal.thy ===== *)
theory Rollout_Ordinal
  imports Reverse_Scanner Utf8_Stream
begin

text \<open>
  The ordinals of the records of a rollout file, \<open>ava-rs/rollout/src/ordinal.rs\<close>, with the decoding
  of a line in \<open>rollout/src/lib.rs\<close> and \<open>scan_next_rollout_line\<close> of
  \<open>rollout/src/reverse_jsonl_scanner.rs\<close>. When a paginated thread is resumed, the next ordinal is found
  by reading the file backwards to its last valid record (theory \<open>Reverse_Scanner\<close>).

  JSON values belong to a library: what the code asks of them are the fields of a record of
  parameters. Ordinals are \<open>u64\<close> values, natural numbers below \<open>2 ^ 64\<close>.
\<close>

section \<open>Lines\<close>

datatype history_mode = LegacyHistory | PaginatedHistory

datatype 'i rollout_item = SessionMeta history_mode "nat option" | OtherItem 'i

record 'i rollout_line =
  l_timestamp :: string
  l_ordinal :: "nat option"
  l_item :: "'i rollout_item"

record ('v, 'i, 'e) json_api =
  json_parse :: "string \<Rightarrow> 'e + 'v"
  as_object :: "'v \<Rightarrow> (string \<times> 'v) list option"
  not_an_object :: 'e
  missing_field :: "string \<Rightarrow> 'e"
  to_timestamp :: "'v \<Rightarrow> 'e + string"
  to_ordinal :: "'v \<Rightarrow> 'e + nat option"
  to_item :: "(string \<times> 'v) list \<Rightarrow> 'e + 'i rollout_item"

definition remove_field :: "string \<Rightarrow> (string \<times> 'v) list \<Rightarrow> (string \<times> 'v) list" where
  "remove_field k fs = filter (\<lambda>(k', _). k' \<noteq> k) fs"

definition decode_rollout_line :: "('v, 'i, 'e) json_api \<Rightarrow> 'v \<Rightarrow> 'e + 'i rollout_line" where
  "decode_rollout_line js v =
     (case as_object js v of
        None \<Rightarrow> Inl (not_an_object js)
      | Some fs \<Rightarrow>
          and_then (case map_of fs ''timestamp'' of
                      None \<Rightarrow> Inl (missing_field js ''timestamp'') | Some t \<Rightarrow> to_timestamp js t)
            (\<lambda>timestamp.
              let fs1 = remove_field ''timestamp'' fs
              in and_then (case map_of fs1 ''ordinal'' of None \<Rightarrow> Inr None | Some x \<Rightarrow> to_ordinal js x)
                (\<lambda>ordinal.
                  and_then (to_item js (remove_field ''ordinal'' fs1))
                    (\<lambda>item. Inr \<lparr>l_timestamp = timestamp, l_ordinal = ordinal, l_item = item\<rparr>))))"

definition parse_rollout_line :: "('v, 'i, 'e) json_api \<Rightarrow> string \<Rightarrow> 'e + 'i rollout_line" where
  "parse_rollout_line js line = and_then (json_parse js line) (decode_rollout_line js)"

definition decode_outcome ::
  "('v, 'i, 'e) json_api \<Rightarrow> ('v, 'e) scan_outcome \<Rightarrow> ('i rollout_line, 'e) scan_outcome" where
  "decode_outcome js out =
     (case out of
        Parsed v \<Rightarrow> (case decode_rollout_line js v of Inr line \<Rightarrow> Parsed line | Inl e \<Rightarrow> Rejected e)
      | Rejected e \<Rightarrow> Rejected e)"

definition scan_next_rollout_line ::
  "('v, 'i, 'e) json_api \<Rightarrow> 'x read_at \<Rightarrow> scanner
    \<Rightarrow> scanner \<times> ('x + ('i rollout_line, 'e) scan_outcome option)" where
  "scan_next_rollout_line js read_at s =
     (case scan_next (json_parse js) read_at s of
        (s', Inl e) \<Rightarrow> (s', Inl e)
      | (s', Inr out) \<Rightarrow> (s', Inr (map_option (decode_outcome js) out)))"

section \<open>Ordinals\<close>

datatype ordinal_state = Legacy | Paginated "nat option"

datatype ('x, 'e) ordinal_error =
    OrdinalOverflow
  | ReadError 'x
  | InvalidUtf8Line
  | FirstRecordInvalid 'e
  | NoSessionMetadata
  | ScanEndPastFile
  | NoValidRecords
  | OrdinalMissing
  | IncompletePrefix nat nat

definition u64_checked_add_one :: "nat \<Rightarrow> nat option" where
  "u64_checked_add_one n = (if n + 1 < 2 ^ 64 then Some (n + 1) else None)"

definition for_new_rollout :: "history_mode \<Rightarrow> nat option \<Rightarrow> ordinal_state" where
  "for_new_rollout mode base_end =
     (case mode of
        LegacyHistory \<Rightarrow> Legacy
      | PaginatedHistory \<Rightarrow> Paginated (Some (case base_end of None \<Rightarrow> 0 | Some n \<Rightarrow> n)))"

fun current_ordinal :: "ordinal_state \<Rightarrow> ('x, 'e) ordinal_error + nat option" where
  "current_ordinal Legacy = Inr None"
| "current_ordinal (Paginated None) = Inl OrdinalOverflow"
| "current_ordinal (Paginated (Some n)) = Inr (Some n)"

fun advance_ordinal :: "ordinal_state \<Rightarrow> ordinal_state" where
  "advance_ordinal (Paginated (Some n)) = Paginated (u64_checked_add_one n)"
| "advance_ordinal s = s"

text \<open>
  What \<open>BufRead::lines\<close> yields: lines, or the error of reading one. A line that is not valid
  UTF-8 is such an error.
\<close>

definition lines_of :: "string \<Rightarrow> ('x + string) list" where
  "lines_of contents = map Inr (str_lines contents)"

fun read_history_metadata ::
  "('v, 'i, 'e) json_api \<Rightarrow> ('x + string) list
    \<Rightarrow> ('x, 'e) ordinal_error + (history_mode \<times> nat option) option" where
  "read_history_metadata js [] = Inr None"
| "read_history_metadata js (Inl x # ls) = Inl (ReadError x)"
| "read_history_metadata js (Inr line # ls) =
     (if from_utf8 line \<noteq> Utf8Ok then Inl InvalidUtf8Line
      else if str_trim line = [] then read_history_metadata js ls
      else (case parse_rollout_line js line of
              Inl e \<Rightarrow> Inl (FirstRecordInvalid e)
            | Inr record \<Rightarrow>
                (case l_item record of
                   SessionMeta mode start \<Rightarrow> Inr (Some (mode, start))
                 | OtherItem _ \<Rightarrow> Inl NoSessionMetadata)))"

text \<open>The loop that looks for the last valid record; \<open>None\<close> when the fuel runs out.\<close>

fun last_valid_record ::
  "('v, 'i, 'e) json_api \<Rightarrow> 'x read_at \<Rightarrow> nat \<Rightarrow> scanner
    \<Rightarrow> (('x, 'e) ordinal_error + 'i rollout_line) option" where
  "last_valid_record js read_at 0 s = None"
| "last_valid_record js read_at (Suc fuel) s =
     (case scan_next_rollout_line js read_at s of
        (s', Inl x) \<Rightarrow> Some (Inl (ReadError x))
      | (s', Inr (Some (Parsed record))) \<Rightarrow> Some (Inr record)
      | (s', Inr (Some (Rejected _))) \<Rightarrow> last_valid_record js read_at fuel s'
      | (s', Inr None) \<Rightarrow> Some (Inl NoValidRecords))"

definition next_after :: "nat option \<Rightarrow> 'i rollout_line \<Rightarrow> ('x, 'e) ordinal_error + ordinal_state" where
  "next_after start record =
     (case l_ordinal record of
        None \<Rightarrow> Inl OrdinalMissing
      | Some ordinal \<Rightarrow>
          (case start of
             Some n \<Rightarrow>
               if 1 \<le> n \<and> ordinal < n - 1 then Inl (IncompletePrefix (n - 1) ordinal)
               else Inr (Paginated (u64_checked_add_one ordinal))
           | None \<Rightarrow> Inr (Paginated (u64_checked_add_one ordinal))))"

definition ordinal_state_for_rollout ::
  "('v, 'i, 'e) json_api \<Rightarrow> ('x + string) list \<Rightarrow> nat \<Rightarrow> 'x read_at \<Rightarrow> nat
    \<Rightarrow> (('x, 'e) ordinal_error + ordinal_state) option" where
  "ordinal_state_for_rollout js ls file_len read_at fuel =
     (case read_history_metadata js ls of
        Inl e \<Rightarrow> Some (Inl e)
      | Inr None \<Rightarrow> Some (Inr Legacy)
      | Inr (Some (LegacyHistory, _)) \<Rightarrow> Some (Inr Legacy)
      | Inr (Some (PaginatedHistory, start)) \<Rightarrow>
          (case scanner_new file_len of
             Inl _ \<Rightarrow> Some (Inl ScanEndPastFile)
           | Inr s \<Rightarrow> map_option (\<lambda>r. and_then r (next_after start)) (last_valid_record js read_at fuel s)))"

section \<open>The last valid record\<close>

text \<open>The valid records of a file, in their order.\<close>

definition valid_records :: "('v, 'i, 'e) json_api \<Rightarrow> string \<Rightarrow> 'i rollout_line list" where
  "valid_records js contents =
     List.map_filter (\<lambda>l. case parse_rollout_line js l of Inl _ \<Rightarrow> None | Inr r \<Rightarrow> Some r)
       (filter (wanted None) (split_on newline contents))"

lemma decode_outcome_of:
  "decode_outcome js (outcome_of (json_parse js) r) = outcome_of (parse_rollout_line js) r"
  by (cases "json_parse js r") (simp_all add: decode_outcome_def outcome_of_def parse_rollout_line_def)

lemma scan_rollout_yields:
  assumes "reads read_at contents" "scanner_inv contents s"
  shows "case scan_next_rollout_line js read_at s of (s', out) \<Rightarrow>
    scanner_inv contents s' \<and> records_left contents s' = tl (records_left contents s) \<and>
    out = Inr (case records_left contents s of [] \<Rightarrow> None | r # _ \<Rightarrow> Some (outcome_of (parse_rollout_line js) r))"
  using scan_next_yields [OF assms, of "json_parse js"]
  by (auto simp: yields_def scan_next_rollout_line_def decode_outcome_of split: prod.splits sum.splits list.splits)

text \<open>The first record of a list that is valid.\<close>

fun first_valid :: "('v, 'i, 'e) json_api \<Rightarrow> string list \<Rightarrow> 'i rollout_line option" where
  "first_valid js [] = None"
| "first_valid js (r # rs) = (case parse_rollout_line js r of Inr x \<Rightarrow> Some x | Inl _ \<Rightarrow> first_valid js rs)"

lemma last_valid_record_first:
  assumes "reads read_at contents"
  shows "scanner_inv contents s \<Longrightarrow> length (records_left contents s) < fuel \<Longrightarrow>
    last_valid_record js read_at fuel s =
      Some (case first_valid js (records_left contents s) of None \<Rightarrow> Inl NoValidRecords | Some r \<Rightarrow> Inr r)"
proof (induction fuel arbitrary: s)
  case (Suc fuel)
  obtain s' out where sc: "scan_next_rollout_line js read_at s = (s', out)" by force
  note y = scan_rollout_yields [OF assms Suc.prems(1), of js, unfolded sc prod.case]
  show ?case
  proof (cases "records_left contents s")
    case Nil
    with y sc show ?thesis by simp
  next
    case (Cons r rs)
    with y Suc.prems(2) Suc.IH [of s'] sc show ?thesis
      by (cases "parse_rollout_line js r") (simp_all add: outcome_of_def)
  qed
qed simp

lemma first_valid_last: "first_valid js (rev rs) = (let vs = List.map_filter
    (\<lambda>l. case parse_rollout_line js l of Inl _ \<Rightarrow> None | Inr r \<Rightarrow> Some r) rs in if vs = [] then None else Some (last vs))"
proof (induction rs rule: rev_induct)
  case (snoc r rs)
  then show ?case
    by (cases "parse_rollout_line js r") (auto simp: Let_def List.map_filter_simps)
qed (simp add: List.map_filter_simps)

lemma last_valid_record_new:
  assumes "reads read_at contents" "length contents \<le> usize_max"
    and "length (split_on newline contents) < fuel"
  shows "\<exists>s. scanner_new (length contents) = Inr s \<and>
    last_valid_record js read_at fuel s =
      Some (if valid_records js contents = [] then Inl NoValidRecords
            else Inr (last (valid_records js contents)))"
proof -
  obtain s where s: "scanner_new_at (length contents) (length contents) = Inr s"
    by (simp add: scanner_new_at_def)
  note inv = scanner_new_inv(1,2) [OF s assms(2)]
  have m: "max_record_bytes s = None" using s by (auto simp: scanner_new_at_def)
  have rl: "records_left contents s = rev (filter (wanted None) (split_on newline contents))"
    using inv(2) m by (simp add: rev_filter)
  have "length (records_left contents s) < fuel"
    unfolding rl length_rev by (rule le_less_trans [OF length_filter_le assms(3)])
  from last_valid_record_first [OF assms(1) inv(1) this, of js] show ?thesis
    using s by (auto simp: scanner_new_def rl first_valid_last valid_records_def Let_def)
qed

section \<open>Resuming\<close>

text \<open>
  The writer of a rollout: every item becomes a line with the current ordinal, after which the
  ordinal advances; writing ends when the ordinals are used up.
\<close>

fun record_lines ::
  "(nat option \<Rightarrow> 'i rollout_item \<Rightarrow> string) \<Rightarrow> ordinal_state \<Rightarrow> 'i rollout_item list
    \<Rightarrow> string list \<times> ordinal_state" where
  "record_lines render st [] = ([], st)"
| "record_lines render st (item # items) =
     (case (current_ordinal st :: (unit, unit) ordinal_error + nat option) of
        Inl _ \<Rightarrow> ([], st)
      | Inr n \<Rightarrow>
          let (ls, st') = record_lines render (advance_ordinal st) items in (render n item # ls, st'))"

text \<open>
  What is relied on of the printed lines: they are parsed back with their ordinal and item, are
  not blank, valid UTF-8 and free of line breaks.
\<close>

definition renders :: "('v, 'i, 'e) json_api \<Rightarrow> (nat option \<Rightarrow> 'i rollout_item \<Rightarrow> string) \<Rightarrow> bool" where
  "renders js render \<longleftrightarrow>
     (\<forall>n item. (\<exists>t. parse_rollout_line js (render n item) = Inr \<lparr>l_timestamp = t, l_ordinal = n, l_item = item\<rparr>) \<and>
        newline \<notin> set (render n item) \<and> carriage_return \<notin> set (render n item) \<and>
        from_utf8 (render n item) = Utf8Ok \<and> str_trim (render n item) \<noteq> [] \<and>
        \<not> list_all is_ascii_whitespace (render n item))"

definition file_of :: "string list \<Rightarrow> string \<Rightarrow> string" where
  "file_of ls torn = concat (map (\<lambda>l. l @ [newline]) ls) @ torn"

lemma split_file_of:
  "list_all (\<lambda>l. newline \<notin> set l) ls \<Longrightarrow> newline \<notin> set torn \<Longrightarrow> split_on newline (file_of ls torn) = ls @ [torn]"
  by (induction ls) (simp_all add: file_of_def split_on_id split_on_append)

lemma record_lines_shape:
  assumes "renders js render"
  shows "list_all (\<lambda>l. newline \<notin> set l \<and> wanted None l \<and> (\<exists>r. parse_rollout_line js l = Inr r))
    (fst (record_lines render st items))"
proof (induction items arbitrary: st)
  case (Cons item items)
  show ?case
  proof (cases "current_ordinal st :: (unit, unit) ordinal_error + nat option")
    case (Inr n)
    have "newline \<notin> set (render n item) \<and> wanted None (render n item) \<and>
        (\<exists>r. parse_rollout_line js (render n item) = Inr r)"
      using assms unfolding renders_def wanted_def by (metis within_limit.simps(1))
    with Inr Cons.IH show ?thesis by (simp add: Let_def split_beta)
  qed simp
qed simp

text \<open>The state after writing is the one after the ordinal of the last line.\<close>

lemma record_lines_last:
  assumes "renders js render"
  shows "record_lines render (Paginated (Some n)) (item # items) = (ls, st) \<Longrightarrow>
    \<exists>r q. parse_rollout_line js (last ls) = Inr r \<and> ls \<noteq> [] \<and> l_ordinal r = Some q \<and> n \<le> q \<and>
      st = Paginated (u64_checked_add_one q)"
proof (induction items arbitrary: n item ls st)
  case Nil
  have "\<exists>t. parse_rollout_line js (render (Some n) item) =
      Inr \<lparr>l_timestamp = t, l_ordinal = Some n, l_item = item\<rparr>"
    using assms unfolding renders_def by blast
  with Nil show ?case by auto
next
  case (Cons item2 items)
  obtain ls' st' where r: "record_lines render (advance_ordinal (Paginated (Some n))) (item2 # items) = (ls', st')"
    by force
  with Cons.prems have ls: "ls = render (Some n) item # ls'" "st = st'" by (simp_all add: Let_def)
  show ?case
  proof (cases "n + 1 < 2 ^ 64")
    case True
    then have "advance_ordinal (Paginated (Some n)) = Paginated (Some (n + 1))"
      by (simp add: u64_checked_add_one_def)
    with Cons.IH [of "n + 1" item2 ls' st'] r ls show ?thesis by force
  next
    case False
    then have "advance_ordinal (Paginated (Some n)) = Paginated None"
      by (simp add: u64_checked_add_one_def)
    with r have "ls' = []" "st' = Paginated None" by simp_all
    moreover have "\<exists>t. parse_rollout_line js (render (Some n) item) =
        Inr \<lparr>l_timestamp = t, l_ordinal = Some n, l_item = item\<rparr>"
      using assms unfolding renders_def by blast
    ultimately show ?thesis using ls False by (auto simp: u64_checked_add_one_def)
  qed
qed

lemma map_filter_all:
  "list_all (\<lambda>x. \<exists>y. f x = Some y) xs \<Longrightarrow> List.map_filter f xs = map (\<lambda>x. the (f x)) xs"
  by (induction xs) (auto simp: List.map_filter_simps)

lemma valid_records_file:
  assumes "renders js render" "fst (record_lines render st items) = ls" "ls \<noteq> []"
    and "newline \<notin> set torn" "\<And>r. parse_rollout_line js torn \<noteq> Inr r"
    and "parse_rollout_line js (last ls) = Inr r"
  shows "valid_records js (file_of ls torn) \<noteq> [] \<and> last (valid_records js (file_of ls torn)) = r"
proof -
  have sh: "list_all (\<lambda>l. newline \<notin> set l) ls" "list_all (wanted None) ls"
    "list_all (\<lambda>l. \<exists>y. (case parse_rollout_line js l of Inl _ \<Rightarrow> None | Inr r \<Rightarrow> Some r) = Some y) ls"
    using record_lines_shape [OF assms(1), of st items] assms(2) by (auto simp: list_all_iff)
  have t: "List.map_filter (\<lambda>l. case parse_rollout_line js l of Inl _ \<Rightarrow> None | Inr r \<Rightarrow> Some r)
      (filter (wanted None) [torn]) = []"
    using assms(5) by (cases "parse_rollout_line js torn") (auto simp: List.map_filter_simps)
  have "filter (wanted None) ls = ls" using sh(2) by (simp add: filter_id_conv list_all_iff)
  then have "valid_records js (file_of ls torn) =
      map (\<lambda>l. the (case parse_rollout_line js l of Inl _ \<Rightarrow> None | Inr r \<Rightarrow> Some r)) ls"
    using split_file_of [OF sh(1) assms(4)] t map_filter_all [OF sh(3)]
    by (simp add: valid_records_def)
  with assms(3,6) show ?thesis by (simp add: last_map)
qed

lemma first_line_metadata:
  assumes "renders js render" "newline \<notin> set torn"
    and "record_lines render (Paginated (Some n)) (SessionMeta mode start # items) = (ls, st)"
  shows "read_history_metadata js (lines_of (file_of ls torn)) = Inr (Some (mode, start))"
proof -
  let ?l = "render (Some n) (SessionMeta mode start)"
  obtain ls' where ls: "ls = ?l # ls'" using assms(3) by (auto simp: Let_def split: prod.splits)
  have "list_all (\<lambda>l. newline \<notin> set l) ls"
    using record_lines_shape [OF assms(1), of "Paginated (Some n)" "SessionMeta mode start # items"] assms(3)
    by (auto simp: list_all_iff)
  from split_file_of [OF this assms(2)] ls have sp: "split_on newline (file_of ls torn) = ?l # ls' @ [torn]"
    by simp
  have l: "carriage_return \<notin> set ?l" "from_utf8 ?l = Utf8Ok" "str_trim ?l \<noteq> []"
    "\<exists>t. parse_rollout_line js ?l = Inr \<lparr>l_timestamp = t, l_ordinal = Some n, l_item = SessionMeta mode start\<rparr>"
    using assms(1) unfolding renders_def by blast+
  have "strip_suffix [carriage_return] ?l = None"
    using l(1) by (auto simp: strip_suffix_None suffix_def)
  then have "drop_cr ?l = ?l" by (simp add: drop_cr_def)
  then obtain rest where "str_lines (file_of ls torn) = ?l # rest"
    by (simp add: str_lines_def sp Let_def)
  then show ?thesis using l(2-4) by (auto simp: lines_of_def)
qed


subsection \<open>An example of a notation for lines\<close>

text \<open>
  A line is a letter for the kind of its item, followed by the two optional numbers in unary
  notation. It stands for its own JSON value.
\<close>

definition bars :: "char \<Rightarrow> nat option \<Rightarrow> string" where
  "bars c n = replicate (case n of None \<Rightarrow> 0 | Some k \<Rightarrow> Suc k) c"

definition unbars :: "char \<Rightarrow> string \<Rightarrow> nat option" where
  "unbars c s = (case count_list s c of 0 \<Rightarrow> None | Suc k \<Rightarrow> Some k)"

fun bar_render :: "nat option \<Rightarrow> unit rollout_item \<Rightarrow> string" where
  "bar_render n (SessionMeta LegacyHistory start) = CHR ''l'' # bars CHR ''a'' start @ bars CHR ''b'' n"
| "bar_render n (SessionMeta PaginatedHistory start) = CHR ''p'' # bars CHR ''a'' start @ bars CHR ''b'' n"
| "bar_render n (OtherItem _) = CHR ''x'' # bars CHR ''b'' n"

definition bar_item :: "string \<Rightarrow> unit + unit rollout_item" where
  "bar_item v =
     (if prefix ''l'' v then Inr (SessionMeta LegacyHistory (unbars CHR ''a'' v))
      else if prefix ''p'' v then Inr (SessionMeta PaginatedHistory (unbars CHR ''a'' v))
      else if prefix ''x'' v then Inr (OtherItem ()) else Inl ())"

definition bar_api :: "(string, unit, unit) json_api" where
  "bar_api =
     \<lparr>json_parse = (\<lambda>s. if tl s = bars CHR ''a'' (unbars CHR ''a'' s) @ bars CHR ''b'' (unbars CHR ''b'' s)
                       then Inr s else Inl ()),
      as_object = (\<lambda>v. Some [(''timestamp'', v), (''ordinal'', v), (''item'', v)]),
      not_an_object = (), missing_field = (\<lambda>_. ()), to_timestamp = (\<lambda>_. Inr []),
      to_ordinal = (\<lambda>v. Inr (unbars CHR ''b'' v)),
      to_item = (\<lambda>fs. case fs of [] \<Rightarrow> Inl () | (_, v) # _ \<Rightarrow> bar_item v)\<rparr>"

lemma count_replicate: "count_list (replicate n c) d = (if c = d then n else 0)"
  by (induction n) auto

lemma unbars_bars [simp]:
  "unbars CHR ''a'' (h # bars CHR ''a'' m @ bars CHR ''b'' n) = m" if "h \<noteq> CHR ''a''"
  using that by (simp add: unbars_def bars_def count_replicate split: option.splits)

lemma unbars_bars' [simp]:
  "unbars CHR ''b'' (h # bars CHR ''a'' m @ bars CHR ''b'' n) = n" if "h \<noteq> CHR ''b''"
  using that by (simp add: unbars_def bars_def count_replicate split: option.splits)

lemma bars_None [simp]: "bars c None = []"
  by (simp add: bars_def)

lemma bar_parse:
  "parse_rollout_line bar_api (bar_render n item) = Inr \<lparr>l_timestamp = [], l_ordinal = n, l_item = item\<rparr>"
proof -
  have x: "unbars CHR ''a'' (CHR ''x'' # bars CHR ''b'' n) = None" "unbars CHR ''b'' (CHR ''x'' # bars CHR ''b'' n) = n"
    using unbars_bars [of "CHR ''x''" None n] unbars_bars' [of "CHR ''x''" None n] by simp_all
  show ?thesis
    by (cases "(n, item)" rule: bar_render.cases)
      (simp_all add: parse_rollout_line_def decode_rollout_line_def bar_api_def remove_field_def bar_item_def x)
qed

lemma bar_letters: "set (bar_render n item) \<subseteq> {CHR ''l'', CHR ''p'', CHR ''x'', CHR ''a'', CHR ''b''}"
  by (cases "(n, item)" rule: bar_render.cases) (auto simp: bars_def)

lemma bar_nonempty: "bar_render n item \<noteq> []"
  by (cases "(n, item)" rule: bar_render.cases) auto

lemma ascii_utf8: "list_all (\<lambda>c. (of_char c :: nat) < 128) s \<Longrightarrow> from_utf8_at pos s = Utf8Ok"
proof (induction s arbitrary: pos)
  case Nil
  then show ?case by (subst from_utf8_at.simps) simp
next
  case (Cons c s)
  then have "utf8_first (c # s) = ValidChar 1" by (simp add: utf8_width_def)
  with Cons show ?case by (subst from_utf8_at.simps) simp
qed

lemma letters_not_trimmed:
  assumes "s \<noteq> []" "set s \<subseteq> {CHR ''l'', CHR ''p'', CHR ''x'', CHR ''a'', CHR ''b''}"
  shows "str_trim s = s"
proof -
  let ?L = "{CHR ''l'', CHR ''p'', CHR ''x'', CHR ''a'', CHR ''b''}"
  have head: "hd ` set ws_encodings \<inter> ?L = {}" "hd ` set (map rev ws_encodings) \<inter> ?L = {}"
    by (simp_all add: ws_encodings_def)
  have none: "strip_any es t = None" if "hd ` set es \<inter> ?L = {}" "[] \<notin> set es" "t \<noteq> []" "hd t \<in> ?L" for es t
  proof -
    have "\<not> prefix e t" if "e \<in> set es" for e
    proof
      assume "prefix e t"
      moreover have "e \<noteq> []" using that \<open>[] \<notin> set es\<close> by auto
      ultimately have "hd e = hd t" by (auto simp: prefix_def)
      with that \<open>hd ` set es \<inter> ?L = {}\<close> \<open>hd t \<in> ?L\<close> show False by (metis disjoint_iff image_eqI)
    qed
    then show ?thesis by (simp add: strip_any_None)
  qed
  have "hd (rev s) \<in> set s" using hd_in_set [of "rev s"] assms(1) by (simp del: hd_rev)
  then have "hd s \<in> ?L" "hd (rev s) \<in> ?L"
    using subsetD [OF assms(2)] hd_in_set [OF assms(1)] by blast+
  then have "strip_any ws_encodings s = None" "strip_any (map rev ws_encodings) (rev s) = None"
    using none [OF head(1) ws_encodings_nonempty(1)] none [OF head(2) ws_encodings_nonempty(2)] assms(1)
    by blast+
  then show ?thesis
    by (simp only: str_trim_def trim_start_def trim_end_def trim_by_id rev_rev_ident)
qed

lemma bar_renders: "renders bar_api bar_render"
proof -
  have "from_utf8 (bar_render n item) = Utf8Ok" for n item
    unfolding from_utf8_def
    using bar_letters [of n item] by (intro ascii_utf8) (auto simp: list_all_iff)
  moreover have "str_trim (bar_render n item) \<noteq> []" for n item
    using letters_not_trimmed [OF bar_nonempty bar_letters] bar_nonempty by simp
  moreover have "\<not> list_all is_ascii_whitespace (bar_render n item)" for n item
    by (cases "(n, item)" rule: bar_render.cases) (simp_all add: is_ascii_whitespace_def)
  moreover have "newline \<notin> set (bar_render n item)" "carriage_return \<notin> set (bar_render n item)" for n item
    using bar_letters [of n item] by auto
  ultimately show ?thesis by (simp add: renders_def bar_parse)
qed


end
