(* ===== verification/Remote_Segment.thy ===== *)
theory Remote_Segment
  imports Ava_Prelude "HOL-Library.AList"
begin

text \<open>
  Segmented messages of the remote-control transport,
  \<open>ava-rs/app-server-transport/src/transport/remote_control/segment.rs\<close>, with the envelopes of
  \<open>protocol.rs\<close> beside it. A message whose envelope is too large for one frame is split into chunks;
  chunks that arrive are put together again, one assembly per client.

  Base64 and JSON are libraries: their functions are the fields of a record of parameters, and what
  the code relies on is the predicate \<open>codec_ok\<close>. The hash map of assemblies is an association list
  (whose order stands for the unspecified order of iteration), a point in time is a number.
\<close>

section \<open>Envelopes\<close>

datatype 'm client_event =
    ClientMessage 'm
  | ClientMessageChunk (chunk_segment_id: nat) (chunk_segment_count: nat)
      (chunk_message_size: nat) (chunk_base64: string)
  | ClientAck "nat option"
  | Ping
  | ClientClosed

record 'm client_envelope =
  c_event :: "'m client_event"
  c_client_id :: string
  c_stream_id :: "string option"
  c_seq_id :: "nat option"
  c_cursor :: "string option"

datatype 'o server_event =
    ServerMessage 'o
  | ServerMessageChunk nat nat nat string
  | ServerAck
  | Pong bool

fun event_segment_id :: "'o server_event \<Rightarrow> nat option" where
  "event_segment_id (ServerMessageChunk segment_id _ _ _) = Some segment_id"
| "event_segment_id _ = None"

record 'o server_envelope =
  s_event :: "'o server_event"
  s_client_id :: string
  s_stream_id :: string
  s_seq_id :: nat

datatype decode_slice_error = OutputSliceTooSmall | DecodeError

text \<open>The functions of the \<open>base64\<close> and \<open>serde_json\<close> crates the code calls.\<close>

record ('m, 'o) codec =
  base64_encode :: "string \<Rightarrow> string"
  base64_decode_slice :: "string \<Rightarrow> nat \<Rightarrow> decode_slice_error + string"
  decoded_len_estimate :: "nat \<Rightarrow> nat"
  json_from_slice :: "string \<Rightarrow> 'm option"
  json_to_vec :: "'o \<Rightarrow> string option"
  serialized_len :: "'o server_envelope \<Rightarrow> nat option"

section \<open>Limits\<close>

definition REMOTE_CONTROL_SEGMENT_TARGET_BYTES :: nat where
  "REMOTE_CONTROL_SEGMENT_TARGET_BYTES = 100 * 1024"
definition REMOTE_CONTROL_SEGMENT_MAX_BYTES :: nat where
  "REMOTE_CONTROL_SEGMENT_MAX_BYTES = 150 * 1024"
definition REMOTE_CONTROL_REASSEMBLED_MAX_BYTES :: nat where
  "REMOTE_CONTROL_REASSEMBLED_MAX_BYTES = 100 * 1024 * 1024"
definition REMOTE_CONTROL_SEGMENT_COUNT_MAX :: nat where
  "REMOTE_CONTROL_SEGMENT_COUNT_MAX = 1024"
definition REMOTE_CONTROL_SEGMENT_ASSEMBLY_MAX_COUNT :: nat where
  "REMOTE_CONTROL_SEGMENT_ASSEMBLY_MAX_COUNT = 128"

section \<open>Reassembly\<close>

record segment_metadata =
  m_seq_id :: nat
  m_segment_count :: nat
  m_message_size_bytes :: nat

record segment_assembly =
  a_stream_id :: string
  a_metadata :: segment_metadata
  a_raw :: string
  a_next_segment_id :: nat
  a_last_chunk_seen_at :: nat

type_synonym reassembler = "(string \<times> segment_assembly) list"

datatype 'm observation = Forward "'m client_envelope" | Pending | Dropped

datatype 'm assembly_update = UpdatePending | UpdateIgnore | UpdateDrop | UpdateComplete 'm

fun from_envelope :: "'m client_envelope \<Rightarrow> segment_metadata option" where
  "from_envelope env =
     (case c_event env of
        ClientMessageChunk _ segment_count message_size_bytes _ \<Rightarrow>
          map_option (\<lambda>seq. \<lparr>m_seq_id = seq, m_segment_count = segment_count,
                             m_message_size_bytes = message_size_bytes\<rparr>) (c_seq_id env)
      | _ \<Rightarrow> None)"

definition should_ignore_chunk :: "reassembler \<Rightarrow> string \<Rightarrow> string \<Rightarrow> nat \<Rightarrow> nat \<Rightarrow> bool" where
  "should_ignore_chunk r client_id stream_id seq_id segment_id =
     (case map_of r client_id of
        None \<Rightarrow> False
      | Some a \<Rightarrow>
          a_stream_id a = stream_id \<and>
          (seq_id < m_seq_id (a_metadata a) \<or>
           seq_id = m_seq_id (a_metadata a) \<and> segment_id < a_next_segment_id a))"

definition remove_assembly :: "reassembler \<Rightarrow> string \<Rightarrow> string \<Rightarrow> reassembler" where
  "remove_assembly r client_id stream_id =
     (case map_of r client_id of
        None \<Rightarrow> r
      | Some a \<Rightarrow> if a_stream_id a = stream_id then AList.delete client_id r else r)"

definition invalidate_stream :: "reassembler \<Rightarrow> string \<Rightarrow> string \<Rightarrow> reassembler" where
  "invalidate_stream = remove_assembly"

definition invalidate_client :: "reassembler \<Rightarrow> string \<Rightarrow> reassembler" where
  "invalidate_client r client_id = AList.delete client_id r"

text \<open>\<open>min_by_key\<close> yields the first of the smallest elements.\<close>

fun min_by_key :: "('a \<Rightarrow> nat) \<Rightarrow> 'a list \<Rightarrow> 'a option" where
  "min_by_key f [] = None"
| "min_by_key f (x # xs) =
     (case min_by_key f xs of None \<Rightarrow> Some x | Some y \<Rightarrow> if f x \<le> f y then Some x else Some y)"

lemma min_by_key_in: "min_by_key f xs = Some x \<Longrightarrow> x \<in> set xs"
  by (induction xs arbitrary: x) (auto split: option.splits if_splits)

lemma length_delete: "length (AList.delete k r) \<le> length r"
  by (simp add: AList.delete_eq)

lemma length_delete_less: "k \<in> fst ` set r \<Longrightarrow> length (AList.delete k r) < length r"
  by (simp add: AList.delete_eq) (metis (mono_tags, lifting) case_prod_unfold fst_conv imageE
      length_filter_less)

function evict_assemblies_if_full :: "reassembler \<Rightarrow> reassembler" where
  "evict_assemblies_if_full r =
     (if length r \<ge> REMOTE_CONTROL_SEGMENT_ASSEMBLY_MAX_COUNT then
        (case min_by_key (\<lambda>(_, a). a_last_chunk_seen_at a) r of
           None \<Rightarrow> r
         | Some (client_id, _) \<Rightarrow> evict_assemblies_if_full (AList.delete client_id r))
      else r)"
  by pat_completeness auto
termination
  by (relation "measure length") (force intro: length_delete_less dest: min_by_key_in)+

declare evict_assemblies_if_full.simps [simp del]

definition new_assembly :: "string \<Rightarrow> segment_metadata \<Rightarrow> nat \<Rightarrow> segment_assembly" where
  "new_assembly stream_id metadata now =
     \<lparr>a_stream_id = stream_id, a_metadata = metadata, a_raw = [], a_next_segment_id = 0,
      a_last_chunk_seen_at = now\<rparr>"

definition ensure_assembly ::
  "reassembler \<Rightarrow> string \<Rightarrow> string \<Rightarrow> segment_metadata \<Rightarrow> nat \<Rightarrow> reassembler" where
  "ensure_assembly r client_id stream_id metadata now =
     (case map_of r client_id of
        Some a \<Rightarrow>
          if a_stream_id a \<noteq> stream_id
          then AList.update client_id (new_assembly stream_id metadata now) r
          else r
      | None \<Rightarrow>
          AList.update client_id (new_assembly stream_id metadata now) (evict_assemblies_if_full r))"

text \<open>
  The chunk is decoded into the space between what has been received and the announced size;
  on success the buffer keeps exactly the decoded bytes.
\<close>

definition append_segment ::
  "('m, 'o) codec \<Rightarrow> nat \<Rightarrow> nat \<Rightarrow> nat \<Rightarrow> string \<Rightarrow> segment_assembly
    \<Rightarrow> segment_assembly \<times> 'm assembly_update" where
  "append_segment cd now segment_count message_size chunk a0 =
     (let a = a0\<lparr>a_last_chunk_seen_at := now\<rparr>;
          chunk_start = length (a_raw a);
          chunk_end = min message_size
            (sat_add chunk_start (decoded_len_estimate cd (length chunk)))
      in case base64_decode_slice cd chunk (chunk_end - chunk_start) of
           Inr decoded \<Rightarrow>
             let a1 = a\<lparr>a_raw := a_raw a @ decoded, a_next_segment_id := a_next_segment_id a + 1\<rparr>
             in if a_next_segment_id a1 < segment_count then (a1, UpdatePending)
                else if length (a_raw a1) \<noteq> message_size then (a1, UpdateDrop)
                else (case json_from_slice cd (a_raw a1) of
                        Some message \<Rightarrow> (a1, UpdateComplete message)
                      | None \<Rightarrow> (a1, UpdateDrop))
         | Inl OutputSliceTooSmall \<Rightarrow> (a, UpdateDrop)
         | Inl DecodeError \<Rightarrow> (a, UpdateDrop))"

definition update_assembly ::
  "('m, 'o) codec \<Rightarrow> nat \<Rightarrow> segment_metadata \<Rightarrow> nat \<Rightarrow> string \<Rightarrow> segment_assembly
    \<Rightarrow> segment_assembly \<times> 'm assembly_update" where
  "update_assembly cd now metadata segment_id chunk a =
     (if m_seq_id metadata < m_seq_id (a_metadata a) then (a, UpdateIgnore)
      else if a_metadata a \<noteq> metadata then (a, UpdateDrop)
      else if segment_id < a_next_segment_id a then (a, UpdatePending)
      else if segment_id \<noteq> a_next_segment_id a then (a, UpdateDrop)
      else append_segment cd now (m_segment_count metadata) (m_message_size_bytes metadata) chunk a)"

definition invalid_chunk :: "nat \<Rightarrow> nat \<Rightarrow> nat \<Rightarrow> string \<Rightarrow> bool" where
  "invalid_chunk segment_id segment_count message_size_bytes chunk \<longleftrightarrow>
     segment_count = 0 \<or> segment_count > REMOTE_CONTROL_SEGMENT_COUNT_MAX \<or>
     segment_id \<ge> segment_count \<or> message_size_bytes = 0 \<or>
     message_size_bytes > REMOTE_CONTROL_REASSEMBLED_MAX_BYTES \<or> chunk = []"

definition finish_update ::
  "reassembler \<Rightarrow> 'm client_envelope \<Rightarrow> string \<Rightarrow> 'm assembly_update \<Rightarrow> reassembler \<times> 'm observation" where
  "finish_update r env stream_id update =
     (case update of
        UpdatePending \<Rightarrow> (r, Pending)
      | UpdateIgnore \<Rightarrow> (r, Dropped)
      | UpdateDrop \<Rightarrow> (remove_assembly r (c_client_id env) stream_id, Dropped)
      | UpdateComplete message \<Rightarrow>
          (remove_assembly r (c_client_id env) stream_id,
           Forward (env\<lparr>c_event := ClientMessage message\<rparr>)))"

definition observe_chunk ::
  "('m, 'o) codec \<Rightarrow> nat \<Rightarrow> reassembler \<Rightarrow> 'm client_envelope \<Rightarrow> segment_metadata \<Rightarrow> string \<Rightarrow> nat
    \<Rightarrow> string \<Rightarrow> reassembler \<times> 'm observation" where
  "observe_chunk cd now r env metadata stream_id segment_id chunk =
     (if should_ignore_chunk r (c_client_id env) stream_id (m_seq_id metadata) segment_id
      then (r, Dropped)
      else if invalid_chunk segment_id (m_segment_count metadata) (m_message_size_bytes metadata) chunk
      then (remove_assembly r (c_client_id env) stream_id, Dropped)
      else
        let r1 = ensure_assembly r (c_client_id env) stream_id metadata now
        in case map_of r1 (c_client_id env) of
             None \<Rightarrow> (r1, Dropped)
           | Some a \<Rightarrow>
               let (a', update) = update_assembly cd now metadata segment_id chunk a
               in finish_update (AList.update (c_client_id env) a' r1) env stream_id update)"

definition observe ::
  "('m, 'o) codec \<Rightarrow> nat \<Rightarrow> reassembler \<Rightarrow> 'm client_envelope \<Rightarrow> reassembler \<times> 'm observation" where
  "observe cd now r env =
     (case c_event env of
        ClientMessageChunk segment_id segment_count message_size_bytes chunk \<Rightarrow>
          (case from_envelope env of
             None \<Rightarrow> (r, Dropped)
           | Some metadata \<Rightarrow>
               (case c_stream_id env of
                  None \<Rightarrow> (r, Dropped)
                | Some stream_id \<Rightarrow> observe_chunk cd now r env metadata stream_id segment_id chunk))
      | _ \<Rightarrow> (r, Forward env))"

section \<open>Splitting\<close>

datatype split_error = SerializeError | SegmentCountExceedsMaximum

definition div_ceil :: "nat \<Rightarrow> nat \<Rightarrow> nat" where
  "div_ceil a b = (a + b - 1) div b"

text \<open>\<open>slice::chunks(n)\<close>.\<close>

function chunks_of :: "nat \<Rightarrow> 'a list \<Rightarrow> 'a list list" where
  "chunks_of n xs = (if xs = [] \<or> n = 0 then [] else take n xs # chunks_of n (drop n xs))"
  by pat_completeness auto
termination
  by (relation "measure (\<lambda>(n, xs). length xs)") auto

declare chunks_of.simps [simp del]

definition build_chunk_envelope ::
  "('m, 'o) codec \<Rightarrow> 'o server_envelope \<Rightarrow> nat \<Rightarrow> nat \<Rightarrow> nat \<Rightarrow> string \<Rightarrow> split_error + 'o server_envelope" where
  "build_chunk_envelope cd env segment_id segment_count message_size_bytes chunk =
     (if segment_count > REMOTE_CONTROL_SEGMENT_COUNT_MAX then Inl SegmentCountExceedsMaximum
      else Inr (env\<lparr>s_event := ServerMessageChunk segment_id segment_count message_size_bytes
                                (base64_encode cd chunk)\<rparr>))"

definition serialized_chunk_len ::
  "('m, 'o) codec \<Rightarrow> 'o server_envelope \<Rightarrow> nat \<Rightarrow> nat \<Rightarrow> nat \<Rightarrow> string \<Rightarrow> split_error + nat" where
  "serialized_chunk_len cd env segment_id segment_count message_size_bytes chunk =
     and_then (build_chunk_envelope cd env segment_id segment_count message_size_bytes chunk)
       (\<lambda>e. case serialized_len cd e of None \<Rightarrow> Inl SerializeError | Some n \<Rightarrow> Inr n)"

definition chunk_fits ::
  "('m, 'o) codec \<Rightarrow> 'o server_envelope \<Rightarrow> nat \<Rightarrow> nat \<Rightarrow> nat \<Rightarrow> string \<Rightarrow> bool" where
  "chunk_fits cd env segment_id segment_count message_size_bytes chunk =
     (case serialized_chunk_len cd env segment_id segment_count message_size_bytes chunk of
        Inl _ \<Rightarrow> False
      | Inr len \<Rightarrow> len \<le> REMOTE_CONTROL_SEGMENT_MAX_BYTES)"

fun collect_results :: "('e + 'a) list \<Rightarrow> 'e + 'a list" where
  "collect_results [] = Inr []"
| "collect_results (r # rs) = and_then r (\<lambda>x. and_then (collect_results rs) (\<lambda>xs. Inr (x # xs)))"

lemma div_ceil_le: "0 < b \<Longrightarrow> a \<le> b * c \<Longrightarrow> div_ceil a b \<le> c"
  by (cases b) (auto simp: div_ceil_def less_mult_imp_div_less less_Suc_eq_le [symmetric]
      mult.commute intro!: less_mult_imp_div_less)

lemma le_mult_div_ceil:
  assumes "0 < b" shows "a \<le> b * div_ceil a b"
proof -
  have "(a + b - 1) < b * ((a + b - 1) div b) + b"
    using assms by (metis add.commute mod_less_divisor mult_div_mod_eq nat_add_left_cancel_less)
  then show ?thesis using assms by (simp add: div_ceil_def)
qed

text \<open>The size of the chunks never grows from one round of the loop to the next.\<close>

lemma next_chunk_size_le:
  assumes "0 < c"
  shows "max 1 (div_ceil n (div_ceil n c + 1)) \<le> max 1 c"
proof -
  have "n \<le> c * div_ceil n c" by (rule le_mult_div_ceil [OF assms])
  then have "n \<le> (div_ceil n c + 1) * c"
    by (simp add: mult.commute trans_le_add2)
  then have "div_ceil n (div_ceil n c + 1) \<le> c"
    by (intro div_ceil_le) simp_all
  then show ?thesis by simp
qed

lemma div_ceil_self: "max 1 (div_ceil n n) = 1"
  using div_ceil_le [of n n 1] by (cases "n = 0") (simp_all add: div_ceil_def max_def)

function split_loop ::
  "('m, 'o) codec \<Rightarrow> 'o server_envelope \<Rightarrow> string \<Rightarrow> nat \<Rightarrow> split_error + 'o server_envelope list" where
  "split_loop cd env raw segment_count0 =
     (let message_size_bytes = length raw;
          chunk_size = max 1 (div_ceil message_size_bytes segment_count0);
          segment_count = div_ceil message_size_bytes chunk_size;
          pieces = enumerate 0 (chunks_of chunk_size raw)
      in if list_all (\<lambda>(i, c). chunk_fits cd env i segment_count message_size_bytes c) pieces
         then collect_results
           (map (\<lambda>(i, c). build_chunk_envelope cd env i segment_count message_size_bytes c) pieces)
         else if chunk_size = 1 then Inr []
         else split_loop cd env raw
           (if max 1 (div_ceil message_size_bytes (segment_count + 1)) = chunk_size
            then message_size_bytes else segment_count + 1))"
  by pat_completeness auto
termination
proof (relation "measure (\<lambda>(cd, env, raw, n). max 1 (div_ceil (length raw) n))", goal_cases)
  case (2 cd env raw n0 size c n pieces)
  have c: "c = max 1 (div_ceil size n0)" "size = length raw" "n = div_ceil size c" "c \<noteq> 1"
    using 2 by simp_all
  then have "1 < c" by simp
  moreover have "max 1 (div_ceil size (n + 1)) \<le> c"
    using next_chunk_size_le [of c size] \<open>1 < c\<close> c(3) by simp
  ultimately have "max 1 (div_ceil size
      (if max 1 (div_ceil size (n + 1)) = c then size else n + 1)) < c"
    using div_ceil_self [of size] by (auto simp del: max_less_iff_conj simp: less_le)
  then show ?case by (simp only: c(2) in_measure prod.case c(1) [symmetric, unfolded c(2)])
qed simp

declare split_loop.simps [simp del]

text \<open>
  \<open>as_response\<close> recognises \<open>OutgoingMessage::Response\<close> and gives the error message that replaces
  it when it cannot be serialized.
\<close>

definition split_server_envelope_for_transport ::
  "('m, 'o) codec \<Rightarrow> ('o \<Rightarrow> 'o option) \<Rightarrow> 'o server_envelope
    \<Rightarrow> split_error + 'o server_envelope list" where
  "split_server_envelope_for_transport cd as_response env =
     (case s_event env of
        ServerMessage message \<Rightarrow>
          (case serialized_len cd env of
             None \<Rightarrow>
               (case as_response message of
                  None \<Rightarrow> Inl SerializeError
                | Some e \<Rightarrow> Inr [env\<lparr>s_event := ServerMessage e\<rparr>])
           | Some envelope_size \<Rightarrow>
               if envelope_size \<le> REMOTE_CONTROL_SEGMENT_MAX_BYTES then Inr [env]
               else
                 (case json_to_vec cd message of
                    None \<Rightarrow> Inl SerializeError
                  | Some raw \<Rightarrow>
                      if length raw > REMOTE_CONTROL_REASSEMBLED_MAX_BYTES then Inr []
                      else
                        and_then (serialized_chunk_len cd env 0
                            (min (max (length raw) 1) REMOTE_CONTROL_SEGMENT_COUNT_MAX)
                            (length raw) (take (min (length raw) 1) raw))
                          (\<lambda>len. if len > REMOTE_CONTROL_SEGMENT_MAX_BYTES then Inr []
                             else split_loop cd env raw
                               (max 2 (div_ceil (length raw) REMOTE_CONTROL_SEGMENT_TARGET_BYTES)))))
      | _ \<Rightarrow> Inr [env])"

section \<open>What splitting produces\<close>

lemma concat_chunks_of: "0 < n \<Longrightarrow> concat (chunks_of n xs) = xs"
  by (induction n xs rule: chunks_of.induct) (subst chunks_of.simps, auto)

lemma chunks_of_nonempty: "c \<in> set (chunks_of n xs) \<Longrightarrow> c \<noteq> []"
proof (induction n xs rule: chunks_of.induct)
  case (1 n xs)
  show ?case
  proof (cases "xs = [] \<or> n = 0")
    case True
    then have "chunks_of n xs = []" by (subst chunks_of.simps) simp
    with 1(2) show ?thesis by simp
  next
    case False
    then have "chunks_of n xs = take n xs # chunks_of n (drop n xs)"
      by (subst chunks_of.simps) simp
    with 1(2) have "c = take n xs \<or> c \<in> set (chunks_of n (drop n xs))" by simp
    then show ?thesis
    proof
      assume "c = take n xs"
      with False show ?thesis by simp
    qed (rule 1(1) [OF False])
  qed
qed

lemma div_ceil_step:
  assumes "0 < n" "0 < a"
  shows "div_ceil a n = Suc (div_ceil (a - n) n)"
proof -
  have self: "(x + n) div n = Suc (x div n)" for x
    using assms(1) by (simp add: div_add_self2)
  show ?thesis
  proof (cases "a \<le> n")
    case True
    have "a + n - 1 = (a - 1) + n" using assms(2) by simp
    also have "\<dots> div n = Suc ((a - 1) div n)" by (rule self)
    also have "(a - 1) div n = 0" using True assms by simp
    finally show ?thesis using True assms(1) by (simp add: div_ceil_def)
  next
    case False
    have "a + n - 1 = ((a - n) + n - 1) + n" using False assms(1) by simp
    also have "\<dots> div n = Suc (((a - n) + n - 1) div n)" by (rule self)
    finally show ?thesis by (simp only: div_ceil_def)
  qed
qed

lemma length_chunks_of: "0 < n \<Longrightarrow> length (chunks_of n xs) = div_ceil (length xs) n"
proof (induction n xs rule: chunks_of.induct)
  case (1 n xs)
  show ?case
  proof (cases "xs = []")
    case True
    with 1(2) show ?thesis by (subst chunks_of.simps) (simp add: div_ceil_def)
  next
    case False
    with 1 have "length (chunks_of n (drop n xs)) = div_ceil (length xs - n) n" by simp
    with False 1(2) show ?thesis
      by (subst chunks_of.simps) (simp add: div_ceil_step)
  qed
qed

text \<open>The chunks of a message: numbered, announced with their number and the size of the message.\<close>

definition chunk_event :: "('m, 'o) codec \<Rightarrow> string list \<Rightarrow> nat \<Rightarrow> nat \<times> nat \<times> nat \<times> string" where
  "chunk_event cd pieces i =
     (i, length pieces, length (concat pieces), base64_encode cd (pieces ! i))"

definition chunk_envelopes ::
  "('m, 'o) codec \<Rightarrow> 'o server_envelope \<Rightarrow> string list \<Rightarrow> 'o server_envelope list" where
  "chunk_envelopes cd env pieces =
     map (\<lambda>i. case chunk_event cd pieces i of (i, n, sz, b) \<Rightarrow>
            env\<lparr>s_event := ServerMessageChunk i n sz b\<rparr>) [0..<length pieces]"

definition segmented ::
  "('m, 'o) codec \<Rightarrow> 'o server_envelope \<Rightarrow> string \<Rightarrow> 'o server_envelope list \<Rightarrow> string list \<Rightarrow> bool" where
  "segmented cd env raw envs pieces \<longleftrightarrow>
     envs = chunk_envelopes cd env pieces \<and> concat pieces = raw \<and> [] \<notin> set pieces \<and>
     length pieces \<le> REMOTE_CONTROL_SEGMENT_COUNT_MAX \<and>
     (\<forall>e \<in> set envs. \<exists>len. serialized_len cd e = Some len \<and> len \<le> REMOTE_CONTROL_SEGMENT_MAX_BYTES)"

lemma collect_results_map:
  "(\<And>x. x \<in> set xs \<Longrightarrow> f x = Inr (g x)) \<Longrightarrow> collect_results (map f xs) = Inr (map g xs)"
  by (induction xs) auto

lemma chunk_fits_iff:
  "chunk_fits cd env i n sz c \<longleftrightarrow>
     n \<le> REMOTE_CONTROL_SEGMENT_COUNT_MAX \<and>
     (\<exists>len. serialized_len cd (env\<lparr>s_event := ServerMessageChunk i n sz (base64_encode cd c)\<rparr>) = Some len \<and>
        len \<le> REMOTE_CONTROL_SEGMENT_MAX_BYTES)"
  by (auto simp: chunk_fits_def serialized_chunk_len_def build_chunk_envelope_def
      split: option.splits)

lemma segmented_pieces:
  assumes "0 < c" "raw \<noteq> []"
    and "list_all (\<lambda>(i, p). chunk_fits cd env i (div_ceil (length raw) c) (length raw) p)
      (enumerate 0 (chunks_of c raw))"
  defines "envs \<equiv> map (\<lambda>(i, p). env\<lparr>s_event := ServerMessageChunk i (div_ceil (length raw) c)
      (length raw) (base64_encode cd p)\<rparr>) (enumerate 0 (chunks_of c raw))"
  shows "collect_results (map (\<lambda>(i, p). build_chunk_envelope cd env i (div_ceil (length raw) c) (length raw) p)
      (enumerate 0 (chunks_of c raw))) = Inr envs" (is ?build)
    and "segmented cd env raw envs (chunks_of c raw)" (is ?seg)
proof -
  let ?ps = "chunks_of c raw"
  have n: "length ?ps = div_ceil (length raw) c" by (rule length_chunks_of [OF assms(1)])
  have cc: "concat ?ps = raw" by (rule concat_chunks_of [OF assms(1)])
  have "?ps \<noteq> []" using cc assms(2) by auto
  then obtain p where "(0, p) \<in> set (enumerate 0 ?ps)"
    by (cases ?ps) (auto simp: in_set_enumerate_eq)
  then have small: "div_ceil (length raw) c \<le> REMOTE_CONTROL_SEGMENT_COUNT_MAX"
    using assms(3) by (auto simp: list_all_iff chunk_fits_iff)
  then show ?build
    unfolding envs_def
    by (intro collect_results_map) (auto simp: build_chunk_envelope_def)
  have "envs = chunk_envelopes cd env ?ps"
    by (rule nth_equalityI)
      (simp_all add: envs_def chunk_envelopes_def chunk_event_def cc n nth_enumerate_eq)
  moreover have "\<exists>len. serialized_len cd e = Some len \<and> len \<le> REMOTE_CONTROL_SEGMENT_MAX_BYTES"
    if "e \<in> set envs" for e
    using that assms(3) by (auto simp: envs_def list_all_iff chunk_fits_iff)
  ultimately show ?seg
    using cc n small by (auto simp: segmented_def dest: chunks_of_nonempty)
qed

lemma split_loop_result:
  "raw \<noteq> [] \<Longrightarrow> \<exists>envs. split_loop cd env raw n = Inr envs \<and>
     (envs = [] \<or> (\<exists>pieces. segmented cd env raw envs pieces))"
proof (induction cd env raw n rule: split_loop.induct)
  case (1 cd env raw n0)
  define c where "c = max 1 (div_ceil (length raw) n0)"
  have "0 < c" by (simp add: c_def)
  define fits where "fits \<longleftrightarrow> list_all (\<lambda>(i, p). chunk_fits cd env i (div_ceil (length raw) c) (length raw) p)
      (enumerate 0 (chunks_of c raw))"
  have eq: "split_loop cd env raw n0 =
    (if fits then collect_results (map (\<lambda>(i, p). build_chunk_envelope cd env i (div_ceil (length raw) c)
        (length raw) p) (enumerate 0 (chunks_of c raw)))
     else if c = 1 then Inr []
     else split_loop cd env raw
       (if max 1 (div_ceil (length raw) (div_ceil (length raw) c + 1)) = c
        then length raw else div_ceil (length raw) c + 1))"
    by (subst split_loop.simps) (simp only: Let_def fits_def c_def)
  consider (fit) fits | (one) "\<not> fits" "c = 1" | (again) "\<not> fits" "c \<noteq> 1" by blast
  then show ?case
  proof cases
    case fit
    from segmented_pieces [OF \<open>0 < c\<close> 1(2) fit [unfolded fits_def]] fit show ?thesis
      unfolding eq by auto
  next
    case one
    then show ?thesis unfolding eq by simp
  next
    case again
    with 1(1) [OF refl c_def refl refl again [unfolded fits_def] 1(2)] show ?thesis
      unfolding eq by simp
  qed
qed

lemma split_result:
  assumes "s_event env = ServerMessage message" "json_to_vec cd message = Some raw" "raw \<noteq> []"
    and "serialized_len cd env = Some len" "len > REMOTE_CONTROL_SEGMENT_MAX_BYTES"
    and "split_server_envelope_for_transport cd as_response env = Inr envs"
  shows "envs = [] \<or> (\<exists>pieces. segmented cd env raw envs pieces) \<and>
    length raw \<le> REMOTE_CONTROL_REASSEMBLED_MAX_BYTES"
  using assms(6) split_loop_result [OF assms(3), of cd env
      "max 2 (div_ceil (length raw) REMOTE_CONTROL_SEGMENT_TARGET_BYTES)"]
  by (auto simp: split_server_envelope_for_transport_def assms(1,2,4) and_then_Inr_iff
      split: if_splits) (use assms(5) in simp_all)

text \<open>
  Splitting a server message always terminates, and what it sends for a message that does
  not fit into one frame is either nothing at all or a complete segmentation: at most 1024 chunks,
  numbered from zero, whose decoded contents put together are exactly the JSON of the message, each
  announcing the number of chunks and the size of the message, none larger on the wire than the frame
  limit.
\<close>

theorem split_sends_complete_segmentation:
  assumes "s_event env = ServerMessage message" "json_to_vec cd message = Some raw" "raw \<noteq> []"
    and "serialized_len cd env = Some len" "len > REMOTE_CONTROL_SEGMENT_MAX_BYTES"
    and "split_server_envelope_for_transport cd as_response env = Inr envs"
  shows "envs = [] \<or> (\<exists>pieces. segmented cd env raw envs pieces)"
  using split_result [OF assms] by blast

section \<open>What reassembly accepts\<close>

text \<open>
  What the code relies on: decoding what was encoded gives it back when it fits into the
  slice, the estimate of the decoded length is large enough, only the empty string is encoded as
  the empty string, and no more is written than there is room for.
\<close>

definition codec_ok :: "('m, 'o) codec \<Rightarrow> bool" where
  "codec_ok cd \<longleftrightarrow>
     (\<forall>d n. length d \<le> n \<longrightarrow> base64_decode_slice cd (base64_encode cd d) n = Inr d) \<and>
     (\<forall>d. length d \<le> decoded_len_estimate cd (length (base64_encode cd d))) \<and>
     (\<forall>d. base64_encode cd d = [] \<longleftrightarrow> d = [])"

definition decode_bounded :: "('m, 'o) codec \<Rightarrow> bool" where
  "decode_bounded cd \<longleftrightarrow> (\<forall>e n d. base64_decode_slice cd e n = Inr d \<longrightarrow> length d \<le> n)"

text \<open>The envelope that carries chunk \<open>i\<close> of a message cut into pieces.\<close>

definition client_chunk ::
  "('m, 'o) codec \<Rightarrow> string list \<Rightarrow> 'm client_envelope \<Rightarrow> nat \<Rightarrow> 'm client_envelope" where
  "client_chunk cd pieces env i =
     (case chunk_event cd pieces i of (i, n, sz, b) \<Rightarrow> env\<lparr>c_event := ClientMessageChunk i n sz b\<rparr>)"

definition pieces_ok :: "string list \<Rightarrow> bool" where
  "pieces_ok pieces \<longleftrightarrow>
     pieces \<noteq> [] \<and> [] \<notin> set pieces \<and> length pieces \<le> REMOTE_CONTROL_SEGMENT_COUNT_MAX \<and>
     length (concat pieces) \<le> REMOTE_CONTROL_REASSEMBLED_MAX_BYTES"

definition pieces_metadata :: "string list \<Rightarrow> nat \<Rightarrow> segment_metadata" where
  "pieces_metadata pieces seq =
     \<lparr>m_seq_id = seq, m_segment_count = length pieces,
      m_message_size_bytes = length (concat pieces)\<rparr>"

text \<open>The first \<open>i\<close> pieces have been received.\<close>

definition received ::
  "reassembler \<Rightarrow> string \<Rightarrow> string \<Rightarrow> string list \<Rightarrow> nat \<Rightarrow> nat \<Rightarrow> bool" where
  "received r client stream pieces seq i \<longleftrightarrow>
     (case map_of r client of
        None \<Rightarrow> i = 0
      | Some a \<Rightarrow> 0 < i \<and> a_stream_id a = stream \<and> a_metadata a = pieces_metadata pieces seq \<and>
          a_raw a = concat (take i pieces) \<and> a_next_segment_id a = i)"

lemma map_of_update [simp]:
  "map_of (AList.update k v r) k' = (if k' = k then Some v else map_of r k')"
  by (simp add: update_conv')

lemma map_of_delete [simp]:
  "map_of (AList.delete k r) k' = (if k' = k then None else map_of r k')"
  by (simp add: delete_conv')

lemma length_concat_take:
  "i < length pieces \<Longrightarrow> length (concat (take i pieces)) + length (pieces ! i) \<le> length (concat pieces)"
proof -
  assume "i < length pieces"
  then have "concat pieces = concat (take i pieces) @ pieces ! i @ concat (drop (Suc i) pieces)"
    by (metis concat.simps(2) concat_append id_take_nth_drop)
  then show ?thesis by (metis add.assoc le_add1 length_append)
qed

lemma append_segment_next:
  assumes "codec_ok cd" "pieces_ok pieces" "i < length pieces"
    and "a_raw a = concat (take i pieces)" "a_next_segment_id a = i"
  shows "append_segment cd now (length pieces) (length (concat pieces)) (base64_encode cd (pieces ! i)) a =
    (let a1 = a\<lparr>a_last_chunk_seen_at := now, a_raw := concat (take (Suc i) pieces), a_next_segment_id := Suc i\<rparr>
     in if Suc i < length pieces then (a1, UpdatePending)
        else (case json_from_slice cd (concat pieces) of
                Some message \<Rightarrow> (a1, UpdateComplete message) | None \<Rightarrow> (a1, UpdateDrop)))"
proof -
  let ?p = "pieces ! i" and ?start = "length (concat (take i pieces))"
  let ?est = "decoded_len_estimate cd (length (base64_encode cd ?p))"
  have room: "?start + length ?p \<le> length (concat pieces)" by (rule length_concat_take [OF assms(3)])
  moreover have "length (concat pieces) \<le> usize_max"
    using assms(2) by (simp add: pieces_ok_def usize_max_def REMOTE_CONTROL_REASSEMBLED_MAX_BYTES_def)
  moreover have "length ?p \<le> ?est" using assms(1) by (simp add: codec_ok_def)
  ultimately have "length ?p \<le> min (length (concat pieces)) (sat_add ?start ?est) - ?start"
    unfolding sat_add_def min_def by (auto simp: le_diff_conv2 add.commute)
  then have dec: "base64_decode_slice cd (base64_encode cd ?p)
      (min (length (concat pieces)) (sat_add ?start ?est) - ?start) = Inr ?p"
    using assms(1) by (simp add: codec_ok_def)
  have tk: "concat (take (Suc i) pieces) = concat (take i pieces) @ ?p"
    using assms(3) by (simp add: take_Suc_conv_app_nth)
  show ?thesis
  proof (cases "Suc i < length pieces")
    case True
    with dec assms(4,5) tk show ?thesis by (simp add: append_segment_def Let_def)
  next
    case False
    with assms(3) have "Suc i = length pieces" by simp
    then have "take (Suc i) pieces = pieces" by simp
    with tk have "concat (take i pieces) @ ?p = concat pieces" by simp
    moreover from this have "?start + length ?p = length (concat pieces)" by (metis length_append)
    ultimately show ?thesis
      using False dec assms(4,5) tk by (simp add: append_segment_def Let_def split: option.split)
  qed
qed

lemma chunk_valid:
  assumes "codec_ok cd" "pieces_ok pieces" "i < length pieces"
  shows "\<not> invalid_chunk i (length pieces) (length (concat pieces)) (base64_encode cd (pieces ! i))"
proof -
  have "pieces ! i \<noteq> []" using assms(2,3) by (metis nth_mem pieces_ok_def)
  moreover from this have "0 < length (pieces ! i)" by simp
  then have "length (concat pieces) \<noteq> 0"
    using length_concat_take [OF assms(3)] by linarith
  ultimately show ?thesis
    using assms by (auto simp: invalid_chunk_def pieces_ok_def codec_ok_def)
qed

lemma ensure_assembly_received:
  assumes "received r client stream pieces seq i"
  shows "\<exists>a. map_of (ensure_assembly r client stream (pieces_metadata pieces seq) now) client = Some a \<and>
    a_stream_id a = stream \<and> a_metadata a = pieces_metadata pieces seq \<and>
    a_raw a = concat (take i pieces) \<and> a_next_segment_id a = i"
  using assms
  by (auto simp: received_def ensure_assembly_def new_assembly_def split: option.splits)

text \<open>One chunk of a message: the next one advances the assembly or completes it.\<close>

lemma observe_next:
  fixes env :: "'m client_envelope"
  assumes "codec_ok cd" "pieces_ok pieces" "i < length pieces"
    and "received r (c_client_id env) stream pieces seq i"
    and "c_stream_id env = Some stream" "c_seq_id env = Some seq"
    and "json_from_slice cd (concat pieces) = Some message"
  shows "case observe cd now r (client_chunk cd pieces env i) of (r', out) \<Rightarrow>
    if Suc i < length pieces
    then out = Pending \<and> received r' (c_client_id env) stream pieces seq (Suc i)
    else out = Forward (env\<lparr>c_event := ClientMessage message\<rparr>) \<and> map_of r' (c_client_id env) = None"
proof -
  let ?md = "pieces_metadata pieces seq"
  let ?r1 = "ensure_assembly r (c_client_id env) stream ?md now"
  obtain a where a: "map_of ?r1 (c_client_id env) = Some a" "a_stream_id a = stream"
    "a_metadata a = ?md" "a_raw a = concat (take i pieces)" "a_next_segment_id a = i"
    using ensure_assembly_received [OF assms(4)] by blast
  have "\<not> should_ignore_chunk r (c_client_id env) stream seq i"
    using assms(4) by (auto simp: should_ignore_chunk_def received_def pieces_metadata_def
        split: option.splits)
  then have "observe cd now r (client_chunk cd pieces env i) =
      (let (a', update) = append_segment cd now (length pieces) (length (concat pieces))
             (base64_encode cd (pieces ! i)) a
       in finish_update (AList.update (c_client_id env) a' ?r1) (client_chunk cd pieces env i) stream update)"
    using chunk_valid [OF assms(1-3)] a assms(5,6)
    by (simp add: observe_def client_chunk_def chunk_event_def observe_chunk_def update_assembly_def
        pieces_metadata_def)
  then show ?thesis
    using append_segment_next [OF assms(1-3) a(4,5), of now] assms(7) a
    by (auto simp: Let_def finish_update_def received_def remove_assembly_def client_chunk_def
        chunk_event_def)
qed

text \<open>A chunk that was received before is ignored.\<close>

lemma observe_replay:
  assumes "j < i" "received r (c_client_id env) stream pieces seq i"
    and "c_stream_id env = Some stream" "c_seq_id env = Some seq"
  shows "observe cd now r (client_chunk cd pieces env j) = (r, Dropped)"
  using assms
  by (auto simp: observe_def client_chunk_def chunk_event_def observe_chunk_def should_ignore_chunk_def
      received_def pieces_metadata_def split: option.splits)

text \<open>
  Deliveries of chunks of one message, by their number and with the time of their arrival. They
  are in order when every chunk is the next one or one that came before.
\<close>

definition deliver ::
  "('m, 'o) codec \<Rightarrow> string list \<Rightarrow> 'm client_envelope \<Rightarrow> reassembler \<Rightarrow> (nat \<times> nat) list
    \<Rightarrow> reassembler \<times> 'm observation list" where
  "deliver cd pieces env r ds =
     run_ops (\<lambda>r (now, i). observe cd now r (client_chunk cd pieces env i)) r ds"

fun in_order :: "nat \<Rightarrow> nat list \<Rightarrow> bool" where
  "in_order i [] = True"
| "in_order i (j # js) = (j \<le> i \<and> in_order (if j = i then Suc i else i) js)"

definition is_forward :: "'m observation \<Rightarrow> bool" where
  "is_forward out \<longleftrightarrow> (\<exists>e. out = Forward e)"

lemma deliver_simps [simp]:
  "deliver cd pieces env r [] = (r, [])"
  "deliver cd pieces env r ((now, i) # ds) =
     (let (r1, out) = observe cd now r (client_chunk cd pieces env i);
          (r2, outs) = deliver cd pieces env r1 ds
      in (r2, out # outs))"
  by (simp_all add: deliver_def)

lemma deliver_in_order:
  assumes "codec_ok cd" "pieces_ok pieces"
    and "c_stream_id env = Some stream" "c_seq_id env = Some seq"
    and "json_from_slice cd (concat pieces) = Some message"
    and "received r (c_client_id env) stream pieces seq i" "Suc i \<le> length pieces"
    and "in_order i (map snd ds @ [length pieces - 1])" "length pieces - 1 \<notin> snd ` set ds"
  shows "\<exists>r' outs. deliver cd pieces env r (ds @ [(now, length pieces - 1)]) =
      (r', outs @ [Forward (env\<lparr>c_event := ClientMessage message\<rparr>)]) \<and>
    list_all (\<lambda>out. \<not> is_forward out) outs \<and> map_of r' (c_client_id env) = None"
  using assms(6-9)
proof (induction ds arbitrary: r i)
  case Nil
  then have "i = length pieces - 1" "\<not> Suc i < length pieces" by auto
  with Nil observe_next [OF assms(1,2) _ Nil(1) assms(3-5), of now] show ?case
    by (auto simp: split_beta intro!: exI [of _ "[]"])
next
  case (Cons d ds)
  obtain t j where d: "d = (t, j)" by (cases d)
  have j: "j \<le> i" "j \<noteq> length pieces - 1" using Cons.prems d by (auto split: if_splits)
  show ?case
  proof (cases "j = i")
    case True
    then have "Suc i < length pieces" using j Cons.prems(2) by auto
    with observe_next [OF assms(1,2) _ Cons.prems(1) assms(3-5), of t]
    obtain r1 where r1: "observe cd t r (client_chunk cd pieces env i) = (r1, Pending)"
      "received r1 (c_client_id env) stream pieces seq (Suc i)"
      by (auto split: prod.splits)
    from Cons.IH [OF r1(2)] \<open>Suc i < length pieces\<close> Cons.prems(3,4) d True
    obtain r' outs where "deliver cd pieces env r1 (ds @ [(now, length pieces - 1)]) =
        (r', outs @ [Forward (env\<lparr>c_event := ClientMessage message\<rparr>)])"
      "list_all (\<lambda>out. \<not> is_forward out) outs" "map_of r' (c_client_id env) = None"
      by auto
    with r1(1) d True show ?thesis
      by (auto simp: is_forward_def intro!: exI [of _ "Pending # outs"])
  next
    case False
    with j have "j < i" by simp
    have "observe cd t r (client_chunk cd pieces env j) = (r, Dropped)"
      by (rule observe_replay [OF \<open>j < i\<close> Cons.prems(1) assms(3,4)])
    moreover from Cons.IH [OF Cons.prems(1,2)] Cons.prems(3,4) d False
    obtain r' outs where "deliver cd pieces env r (ds @ [(now, length pieces - 1)]) =
        (r', outs @ [Forward (env\<lparr>c_event := ClientMessage message\<rparr>)])"
      "list_all (\<lambda>out. \<not> is_forward out) outs" "map_of r' (c_client_id env) = None"
      by auto
    ultimately show ?thesis using d
      by (auto simp: is_forward_def intro!: exI [of _ "Dropped # outs"])
  qed
qed

text \<open>
  A message that arrives in chunks is forwarded exactly once, by the last chunk, however often
  chunks that came before are repeated in between: when the chunks arrive in order, up to such
  repetitions, every observation before the last chunk is pending or dropped, the last one forwards
  the envelope with the message that the pieces put together parse to, and the assembly of the client
  is gone.
\<close>

theorem chunks_reassemble:
  assumes "codec_ok cd" "pieces_ok pieces" "map_of r (c_client_id env) = None"
    and "c_stream_id env = Some stream" "c_seq_id env = Some seq"
    and "json_from_slice cd (concat pieces) = Some message"
    and "in_order 0 (map snd ds @ [length pieces - 1])" "length pieces - 1 \<notin> snd ` set ds"
  shows "\<exists>r' outs. deliver cd pieces env r (ds @ [(now, length pieces - 1)]) =
      (r', outs @ [Forward (env\<lparr>c_event := ClientMessage message\<rparr>)]) \<and>
    list_all (\<lambda>out. \<not> is_forward out) outs \<and> map_of r' (c_client_id env) = None"
proof (rule deliver_in_order [OF assms(1,2,4-6) _ _ assms(7,8)])
  show "received r (c_client_id env) stream pieces seq 0"
    using assms(3) by (simp add: received_def)
  show "Suc 0 \<le> length pieces"
    using assms(2) by (cases pieces) (simp_all add: pieces_ok_def)
qed

text \<open>A codec for the examples: the identity in the place of base64, and messages that are strings.\<close>

definition plain_codec :: "(string, string) codec" where
  "plain_codec =
     \<lparr>base64_encode = id,
      base64_decode_slice = (\<lambda>e n. if length e \<le> n then Inr e else Inl OutputSliceTooSmall),
      decoded_len_estimate = id, json_from_slice = Some, json_to_vec = Some,
      serialized_len = (\<lambda>env. Some (case s_event env of
         ServerMessage m \<Rightarrow> length m | ServerMessageChunk _ _ _ b \<Rightarrow> 100 + length b | _ \<Rightarrow> 10))\<rparr>"

lemma plain_codec_ok: "codec_ok plain_codec"
  by (simp add: codec_ok_def plain_codec_def)

definition sample_envelope :: "string client_envelope" where
  "sample_envelope = \<lparr>c_event = Ping, c_client_id = ''c'', c_stream_id = Some ''s'',
     c_seq_id = Some 4, c_cursor = None\<rparr>"

theorem chunks_reassemble_witness:
  "\<exists>r' outs. deliver plain_codec [''he'', ''y''] sample_envelope [] ([(1, 0), (2, 0)] @ [(3, 1)]) =
     (r', outs @ [Forward (sample_envelope\<lparr>c_event := ClientMessage ''hey''\<rparr>)])"
proof -
  have "pieces_ok [''he'', ''y'']"
    by (simp add: pieces_ok_def REMOTE_CONTROL_SEGMENT_COUNT_MAX_def
        REMOTE_CONTROL_REASSEMBLED_MAX_BYTES_def)
  from chunks_reassemble [OF plain_codec_ok this, of "[]" sample_envelope "''s''" 4 "''hey''"
      "[(1, 0), (2, 0)]" 3]
  show ?thesis by (auto simp: sample_envelope_def plain_codec_def)
qed

section \<open>Both directions together\<close>

text \<open>The client envelope that carries the chunk of a server envelope.\<close>

definition relay :: "'m client_envelope \<Rightarrow> 'o server_envelope \<Rightarrow> 'm client_envelope" where
  "relay env e =
     (case s_event e of
        ServerMessageChunk i n sz b \<Rightarrow> env\<lparr>c_event := ClientMessageChunk i n sz b\<rparr>
      | _ \<Rightarrow> env)"

lemma in_order_upto: "in_order i [i..<n]"
proof (induction "n - i" arbitrary: i)
  case (Suc k)
  then have "[i..<n] = i # [Suc i..<n]" by (simp add: upt_rec)
  with Suc show ?case by simp
qed simp

lemma relay_deliver:
  "length at = length pieces \<Longrightarrow>
     run_ops (\<lambda>r (now, e). observe cd now r (relay cenv e)) r (zip at (chunk_envelopes cd env pieces)) =
     deliver cd pieces cenv r (zip at [0..<length pieces])"
proof -
  have run_map: "run_ops (\<lambda>r (now, e). observe cd now r (f e)) r (zip ts (map g js)) =
      run_ops (\<lambda>r (now, i). observe cd now r (f (g i))) r (zip ts js)" for f g js r ts
    by (induction ts js arbitrary: r rule: list_induct2') (simp_all add: Let_def split_beta)
  have "relay cenv (case chunk_event cd pieces i of (i, n, sz, b) \<Rightarrow>
      env\<lparr>s_event := ServerMessageChunk i n sz b\<rparr>) = client_chunk cd pieces cenv i" for i
    by (simp add: relay_def client_chunk_def chunk_event_def)
  then show ?thesis
    by (simp only: chunk_envelopes_def run_map deliver_def)
qed

text \<open>
  C27: what splitting sends, reassembly puts together. When an oversized server message was split
  into envelopes and a receiver with no assembly for the client observes their chunks in the order
  they were sent, nothing is forwarded before the last chunk, and the last one forwards the message
  that the JSON of the original parses to.
\<close>

theorem split_then_reassembled:
  assumes "codec_ok cd" "s_event env = ServerMessage message" "json_to_vec cd message = Some raw"
    and "raw \<noteq> []" "json_from_slice cd raw = Some m"
    and "serialized_len cd env = Some len" "len > REMOTE_CONTROL_SEGMENT_MAX_BYTES"
    and "split_server_envelope_for_transport cd as_response env = Inr envs" "envs \<noteq> []"
    and "map_of r (c_client_id cenv) = None" "c_stream_id cenv = Some stream" "c_seq_id cenv = Some seq"
    and "length at = length envs"
  shows "\<exists>r' outs. run_ops (\<lambda>r (now, e). observe cd now r (relay cenv e)) r (zip at envs) =
      (r', outs @ [Forward (cenv\<lparr>c_event := ClientMessage m\<rparr>)]) \<and>
    list_all (\<lambda>out. \<not> is_forward out) outs"
proof -
  from split_result [OF assms(2-4,6-8)] assms(9) obtain pieces where
    p: "envs = chunk_envelopes cd env pieces" "concat pieces = raw" "[] \<notin> set pieces"
    "length pieces \<le> REMOTE_CONTROL_SEGMENT_COUNT_MAX" and
    sz: "length raw \<le> REMOTE_CONTROL_REASSEMBLED_MAX_BYTES"
    by (auto simp: segmented_def)
  have n: "pieces \<noteq> []" "length at = length pieces"
    using p assms(9,13) by (auto simp: chunk_envelopes_def)
  then obtain k where k: "length pieces = Suc k" by (cases pieces) auto
  have ok: "pieces_ok pieces" using p n sz by (simp add: pieces_ok_def)
  have zip: "zip at [0..<length pieces] = zip (butlast at) [0..<k] @ [(last at, length pieces - 1)]"
    using n k by (cases at rule: rev_cases) (simp_all add: zip_append1)
  have lenz: "length (butlast at) = length [0..<k]" using n k by simp
  have "map snd (zip (butlast at) [0..<k]) @ [length pieces - 1] = [0..<length pieces]"
    using lenz k by (simp add: map_snd_zip)
  then have io: "in_order 0 (map snd (zip (butlast at) [0..<k]) @ [length pieces - 1])"
    by (simp only: in_order_upto)
  have nin: "length pieces - 1 \<notin> snd ` set (zip (butlast at) [0..<k])"
    using k by (auto dest: set_zip_rightD)
  have rec: "received r (c_client_id cenv) stream pieces seq 0"
    using assms(10) by (simp add: received_def)
  have "Suc 0 \<le> length pieces" "json_from_slice cd (concat pieces) = Some m"
    using k p(2) assms(5) by simp_all
  from deliver_in_order [OF assms(1) ok assms(11,12) this(2) rec this(1) io nin, of "last at"]
  show ?thesis
    unfolding p(1) relay_deliver [OF n(2)] zip by blast
qed

definition wide_codec :: "(string, string) codec" where
  "wide_codec = plain_codec\<lparr>serialized_len := (\<lambda>env. case s_event env of
     ServerMessage m \<Rightarrow> Some 200000 | _ \<Rightarrow> Some 10)\<rparr>"

definition wide_envelope :: "string server_envelope" where
  "wide_envelope = \<lparr>s_event = ServerMessage ''hey'', s_client_id = ''c'', s_stream_id = ''s'', s_seq_id = 7\<rparr>"

lemma chunks_of_hey: "chunks_of 2 ''hey'' = [''he'', ''y'']"
proof -
  have "chunks_of 2 ''hey'' = ''he'' # chunks_of 2 ''y''"
    by (subst chunks_of.simps) simp
  also have "chunks_of 2 ''y'' = ''y'' # chunks_of 2 []"
    by (subst chunks_of.simps) simp
  also have "chunks_of 2 ([] :: string) = []"
    by (subst chunks_of.simps) simp
  finally show ?thesis .
qed

lemma wide_fits: "n \<le> 1024 \<Longrightarrow> chunk_fits wide_codec wide_envelope i n sz c"
  by (simp add: chunk_fits_iff wide_codec_def plain_codec_def REMOTE_CONTROL_SEGMENT_COUNT_MAX_def
      REMOTE_CONTROL_SEGMENT_MAX_BYTES_def)

lemma wide_loop: "\<exists>envs. split_loop wide_codec wide_envelope ''hey'' 2 = Inr envs \<and> length envs = 2"
proof -
  have num: "length ''hey'' = 3" "div_ceil 3 2 = 2" "max 1 2 = (2 :: nat)"
    by (simp_all add: div_ceil_def)
  have pieces: "enumerate 0 [''he'', ''y''] = [(0, ''he''), (1, ''y'')]" by simp
  have fits: "list_all (\<lambda>(i, c). chunk_fits wide_codec wide_envelope i 2 3 c) [(0, ''he''), (1, ''y'')]"
    by (simp add: wide_fits)
  have "split_loop wide_codec wide_envelope ''hey'' 2 =
      collect_results (map (\<lambda>(i, c). build_chunk_envelope wide_codec wide_envelope i 2 3 c)
        [(0, ''he''), (1, ''y'')])"
    by (subst split_loop.simps) (simp only: Let_def num chunks_of_hey pieces fits if_True)
  then show ?thesis
    by (simp add: build_chunk_envelope_def REMOTE_CONTROL_SEGMENT_COUNT_MAX_def)
qed

lemma wide_split:
  "split_server_envelope_for_transport wide_codec (\<lambda>_. None) wide_envelope =
     split_loop wide_codec wide_envelope ''hey'' 2"
proof -
  have "max 2 (div_ceil (length ''hey'') REMOTE_CONTROL_SEGMENT_TARGET_BYTES) = 2"
    by (simp add: div_ceil_def REMOTE_CONTROL_SEGMENT_TARGET_BYTES_def)
  moreover have "s_event wide_envelope = ServerMessage ''hey''" "json_to_vec wide_codec ''hey'' = Some ''hey''"
    "serialized_len wide_codec wide_envelope = Some 200000"
    by (simp_all add: wide_envelope_def wide_codec_def plain_codec_def)
  moreover have "serialized_chunk_len wide_codec wide_envelope 0
      (min (max (length ''hey'') 1) REMOTE_CONTROL_SEGMENT_COUNT_MAX) (length ''hey'')
      (take (min (length ''hey'') 1) ''hey'') = Inr 10"
    by (simp add: serialized_chunk_len_def build_chunk_envelope_def wide_codec_def plain_codec_def)
  moreover have "\<not> REMOTE_CONTROL_REASSEMBLED_MAX_BYTES < length ''hey''"
    "\<not> 200000 \<le> REMOTE_CONTROL_SEGMENT_MAX_BYTES" "\<not> REMOTE_CONTROL_SEGMENT_MAX_BYTES < 10"
    by (simp_all add: REMOTE_CONTROL_REASSEMBLED_MAX_BYTES_def REMOTE_CONTROL_SEGMENT_MAX_BYTES_def)
  ultimately show ?thesis
    by (simp only: split_server_envelope_for_transport_def server_event.case option.case
        and_then_simps if_False)
qed

theorem split_sends_complete_segmentation_witness:
  "\<exists>envs pieces. split_server_envelope_for_transport wide_codec (\<lambda>_. None) wide_envelope = Inr envs \<and>
     segmented wide_codec wide_envelope ''hey'' envs pieces"
proof -
  obtain envs where envs: "split_server_envelope_for_transport wide_codec (\<lambda>_. None) wide_envelope = Inr envs"
    "length envs = 2"
    using wide_loop wide_split by auto
  then show ?thesis
    using split_sends_complete_segmentation [of wide_envelope "''hey''" wide_codec "''hey''" 200000
        "\<lambda>_. None" envs]
    by (auto simp: wide_envelope_def wide_codec_def plain_codec_def REMOTE_CONTROL_SEGMENT_MAX_BYTES_def)
qed

theorem split_then_reassembled_witness:
  "\<exists>envs r' outs. split_server_envelope_for_transport wide_codec (\<lambda>_. None) wide_envelope = Inr envs \<and>
     run_ops (\<lambda>r (now, e). observe wide_codec now r (relay sample_envelope e)) [] (zip [1, 2] envs) =
       (r', outs @ [Forward (sample_envelope\<lparr>c_event := ClientMessage ''hey''\<rparr>)])"
proof -
  obtain envs where envs: "split_server_envelope_for_transport wide_codec (\<lambda>_. None) wide_envelope = Inr envs"
    "length envs = 2"
    using wide_loop wide_split by auto
  have "codec_ok wide_codec" by (simp add: codec_ok_def wide_codec_def plain_codec_def)
  from split_then_reassembled [OF this _ _ _ _ _ _ envs(1), of "''hey''" "''hey''" "''hey''" 200000
      "[]" sample_envelope "''s''" 4 "[1, 2]"] envs
  show ?thesis
    by (force simp: wide_envelope_def wide_codec_def plain_codec_def sample_envelope_def
        REMOTE_CONTROL_SEGMENT_MAX_BYTES_def)
qed

end
