(* ===== verification/Remote_Link.thy ===== *)
theory Remote_Link
  imports Remote_Segment "HOL-Library.Product_Lexorder"
begin

text \<open>
  The state of a remote-control websocket,
  \<open>ava-rs/app-server-transport/src/transport/remote_control/websocket.rs\<close>: the buffer of server
  envelopes that were not acknowledged yet, the sequence numbers of the streams, and what was
  completed of the messages that clients send in chunks. The bodies of the writer and of the reader
  loop are functions on this state; sending, receiving and the tracker of the clients are left out.

  The bounds of the reassembler (theory \<open>Remote_Segment\<close>) are proved here too.
\<close>

section \<open>The outbound buffer\<close>

type_synonym stream_key = "string \<times> string"

record 'o outbound_buffer =
  buffer_by_stream :: "stream_key \<rightharpoonup> 'o server_envelope list"
  used :: nat

definition outbound_new :: "'o outbound_buffer" where
  "outbound_new = \<lparr>buffer_by_stream = Map.empty, used = 0\<rparr>"

definition stream_buffer :: "'o outbound_buffer \<Rightarrow> stream_key \<Rightarrow> 'o server_envelope list" where
  "stream_buffer b k = (case buffer_by_stream b k of None \<Rightarrow> [] | Some q \<Rightarrow> q)"

definition buffer_insert :: "'o outbound_buffer \<Rightarrow> 'o server_envelope \<Rightarrow> 'o outbound_buffer" where
  "buffer_insert b env =
     (let key = (s_client_id env, s_stream_id env)
      in b\<lparr>buffer_by_stream := (buffer_by_stream b)(key \<mapsto> stream_buffer b key @ [env]),
           used := used b + 1\<rparr>)"

definition envelope_cursor :: "'o server_envelope \<Rightarrow> nat \<times> nat" where
  "envelope_cursor env =
     (s_seq_id env, case event_segment_id (s_event env) of None \<Rightarrow> 0 | Some i \<Rightarrow> i)"

definition ack_cursor :: "nat \<Rightarrow> nat option \<Rightarrow> nat \<times> nat" where
  "ack_cursor acked_seq_id acked_segment_id =
     (acked_seq_id, case acked_segment_id of None \<Rightarrow> usize_max | Some i \<Rightarrow> i)"

text \<open>The count is decreased once for every acknowledged envelope; \<open>None\<close> is the underflow.\<close>

definition buffer_ack ::
  "'o outbound_buffer \<Rightarrow> string \<Rightarrow> string \<Rightarrow> nat \<Rightarrow> nat option \<Rightarrow> 'o outbound_buffer option" where
  "buffer_ack b client_id stream_id acked_seq_id acked_segment_id =
     (case buffer_by_stream b (client_id, stream_id) of
        None \<Rightarrow> Some b
      | Some q \<Rightarrow>
          let is_acked = (\<lambda>e. envelope_cursor e \<le> ack_cursor acked_seq_id acked_segment_id);
              acked = length (filter is_acked q);
              kept = filter (\<lambda>e. \<not> is_acked e) q
          in if used b < acked then None
             else Some (b\<lparr>buffer_by_stream := (buffer_by_stream b)
                             ((client_id, stream_id) := (if kept = [] then None else Some kept)),
                          used := used b - acked\<rparr>))"

section \<open>The state of the websocket\<close>

type_synonym message_key = "(string \<times> string option) \<times> nat"

record 'o websocket_state =
  outbound_buffer :: "'o outbound_buffer"
  subscribe_cursor :: "string option"
  next_seq_id_by_stream :: "stream_key \<rightharpoonup> nat"
  last_completed :: "(string \<times> string option) \<rightharpoonup> nat"
  segment_reassembler :: reassembler

definition websocket_new :: "'o websocket_state" where
  "websocket_new =
     \<lparr>outbound_buffer = outbound_new, subscribe_cursor = None, next_seq_id_by_stream = Map.empty,
      last_completed = Map.empty, segment_reassembler = []\<rparr>"

definition client_message_key :: "'m client_envelope \<Rightarrow> message_key option" where
  "client_message_key env =
     (case (c_event env, c_seq_id env) of
        (ClientMessageChunk _ _ _ _, Some seq_id) \<Rightarrow>
          Some ((c_client_id env, c_stream_id env), seq_id)
      | _ \<Rightarrow> None)"

definition already_completed :: "'o websocket_state \<Rightarrow> message_key \<Rightarrow> bool" where
  "already_completed s k =
     (case last_completed s (fst k) of None \<Rightarrow> False | Some last_seq_id \<Rightarrow> last_seq_id \<ge> snd k)"

definition ignored_chunk :: "'o websocket_state \<Rightarrow> 'm client_envelope \<Rightarrow> bool" where
  "ignored_chunk s env =
     (case (client_message_key env, c_stream_id env, c_event env) of
        (Some (_, seq_id), Some stream_id, ClientMessageChunk segment_id _ _ _) \<Rightarrow>
          should_ignore_chunk (segment_reassembler s) (c_client_id env) stream_id seq_id segment_id
      | _ \<Rightarrow> False)"

definition observe_client_message ::
  "('m, 'o) codec \<Rightarrow> nat \<Rightarrow> 'o websocket_state \<Rightarrow> 'm client_envelope \<Rightarrow> nat
    \<Rightarrow> 'o websocket_state \<times> 'm observation" where
  "observe_client_message cd now s env wire_size_bytes =
     (let key = client_message_key env
      in if (case key of None \<Rightarrow> False | Some k \<Rightarrow> already_completed s k) then (s, Dropped)
         else if ignored_chunk s env then (s, Dropped)
         else if key \<noteq> None \<and> wire_size_bytes > REMOTE_CONTROL_SEGMENT_MAX_BYTES then
           (case c_stream_id env of
              None \<Rightarrow> (s, Dropped)
            | Some stream_id \<Rightarrow>
                (s\<lparr>segment_reassembler :=
                     invalidate_stream (segment_reassembler s) (c_client_id env) stream_id\<rparr>, Dropped))
         else
           let (r, out) = observe cd now (segment_reassembler s) env
           in (s\<lparr>segment_reassembler := r\<rparr>, out))"

definition record_client_message_delivery ::
  "'o websocket_state \<Rightarrow> 'm client_envelope \<Rightarrow> message_key option \<Rightarrow> 'o websocket_state option" where
  "record_client_message_delivery s env key =
     (let s1 = (case c_cursor env of None \<Rightarrow> s | Some c \<Rightarrow> s\<lparr>subscribe_cursor := Some c\<rparr>);
          s2 = (case key of
            None \<Rightarrow> s1
          | Some (k, seq_id) \<Rightarrow> s1\<lparr>last_completed := (last_completed s1)(k \<mapsto> seq_id)\<rparr>)
      in case (c_event env, c_seq_id env, c_stream_id env) of
           (ClientAck segment_id, Some acked_seq_id, Some stream_id) \<Rightarrow>
             map_option (\<lambda>b. s2\<lparr>outbound_buffer := b\<rparr>)
               (buffer_ack (outbound_buffer s2) (c_client_id env) stream_id acked_seq_id segment_id)
         | _ \<Rightarrow> Some s2)"

definition invalidate_client_message_stream ::
  "'o websocket_state \<Rightarrow> string \<Rightarrow> string \<Rightarrow> 'o websocket_state" where
  "invalidate_client_message_stream s client_id stream_id =
     s\<lparr>last_completed := (last_completed s)((client_id, Some stream_id) := None)\<rparr>"

definition invalidate_client_message_client ::
  "'o websocket_state \<Rightarrow> string \<Rightarrow> 'o websocket_state" where
  "invalidate_client_message_client s client_id =
     s\<lparr>last_completed := (\<lambda>k. if fst k = client_id then None else last_completed s k)\<rparr>"

definition close_client ::
  "'o websocket_state \<Rightarrow> string \<Rightarrow> string option \<Rightarrow> 'o websocket_state" where
  "close_client s client_id stream_id =
     (case stream_id of
        Some st \<Rightarrow>
          invalidate_client_message_stream
            (s\<lparr>segment_reassembler := invalidate_stream (segment_reassembler s) client_id st\<rparr>)
            client_id st
      | None \<Rightarrow>
          invalidate_client_message_client
            (s\<lparr>segment_reassembler := invalidate_client (segment_reassembler s) client_id\<rparr>) client_id)"

text \<open>
  The body of the reader loop for an envelope that was received, when the tracker of the
  clients accepts it. The result is the new state and the envelope that was handed to the tracker.
\<close>

definition read_envelope ::
  "('m, 'o) codec \<Rightarrow> 'o websocket_state \<Rightarrow> nat \<times> nat \<times> 'm client_envelope
    \<Rightarrow> ('o websocket_state \<times> 'm client_envelope option) option" where
  "read_envelope cd s x =
     (case x of (now, wire_size_bytes, env) \<Rightarrow>
       (case observe_client_message cd now s env wire_size_bytes of
          (s1, Forward fwd) \<Rightarrow>
            (case record_client_message_delivery s1 fwd (client_message_key env) of
               None \<Rightarrow> None
             | Some s2 \<Rightarrow>
                 Some (if c_event fwd = ClientClosed
                       then close_client s2 (c_client_id fwd) (c_stream_id fwd) else s2, Some fwd))
        | (s1, _) \<Rightarrow> Some (s1, None)))"

text \<open>
  The body of the writer loop for a queued event: it gets the next number of its stream, is
  split, and every envelope that can be serialized is buffered and sent.
\<close>

definition write_event ::
  "('m, 'o) codec \<Rightarrow> ('o \<Rightarrow> 'o option) \<Rightarrow> 'o websocket_state \<Rightarrow> string \<Rightarrow> string \<Rightarrow> 'o server_event
    \<Rightarrow> 'o websocket_state \<times> 'o server_envelope list" where
  "write_event cd as_response s client_id stream_id event =
     (let key = (client_id, stream_id);
          seq_id = (case next_seq_id_by_stream s key of None \<Rightarrow> 1 | Some n \<Rightarrow> n);
          s1 = s\<lparr>next_seq_id_by_stream := (next_seq_id_by_stream s)(key \<mapsto> seq_id)\<rparr>;
          env = \<lparr>s_event = event, s_client_id = client_id, s_stream_id = stream_id, s_seq_id = seq_id\<rparr>
      in case split_server_envelope_for_transport cd as_response env of
           Inl _ \<Rightarrow> (s1, [])
         | Inr envs \<Rightarrow>
             let sent = filter (\<lambda>e. serialized_len cd e \<noteq> None) envs
             in (s1\<lparr>outbound_buffer := fold (\<lambda>e b. buffer_insert b e) sent (outbound_buffer s1),
                    next_seq_id_by_stream :=
                      (next_seq_id_by_stream s1)(key \<mapsto> min (seq_id + 1) (2 ^ 64 - 1))\<rparr>, sent))"

section \<open>The bounds of the reassembler\<close>

definition assembly_ok :: "segment_assembly \<Rightarrow> bool" where
  "assembly_ok a \<longleftrightarrow>
     length (a_raw a) \<le> m_message_size_bytes (a_metadata a) \<and>
     m_message_size_bytes (a_metadata a) \<le> REMOTE_CONTROL_REASSEMBLED_MAX_BYTES"

definition reassembler_inv :: "reassembler \<Rightarrow> bool" where
  "reassembler_inv r \<longleftrightarrow>
     distinct (map fst r) \<and> length r \<le> REMOTE_CONTROL_SEGMENT_ASSEMBLY_MAX_COUNT \<and>
     (\<forall>x \<in> set r. assembly_ok (snd x))"

lemma length_update_mem: "map_of r k \<noteq> None \<Longrightarrow> length (AList.update k v r) = length r"
  by (induction r) auto

lemma length_update: "length (AList.update k v r) \<le> Suc (length r)"
  by (induction r) auto

lemma set_update: "x \<in> set (AList.update k v r) \<Longrightarrow> x = (k, v) \<or> x \<in> set r"
  by (induction r) (auto split: if_splits)

lemma set_delete: "set (AList.delete k r) \<subseteq> set r"
  by (auto simp: AList.delete_eq)

lemma inv_delete: "reassembler_inv r \<Longrightarrow> reassembler_inv (AList.delete k r)"
  using length_delete [of k r] set_delete [of k r]
  by (auto simp: reassembler_inv_def intro: distinct_delete)

lemma inv_update_mem:
  "reassembler_inv r \<Longrightarrow> map_of r k \<noteq> None \<Longrightarrow> assembly_ok a \<Longrightarrow> reassembler_inv (AList.update k a r)"
  by (auto simp: reassembler_inv_def length_update_mem distinct_update dest!: set_update)

lemma min_by_key_None: "min_by_key f xs = None \<longleftrightarrow> xs = []"
  by (cases xs) (auto split: option.split)

lemma evict_inv:
  "reassembler_inv r \<Longrightarrow>
     reassembler_inv (evict_assemblies_if_full r) \<and>
     length (evict_assemblies_if_full r) < REMOTE_CONTROL_SEGMENT_ASSEMBLY_MAX_COUNT"
proof (induction r rule: evict_assemblies_if_full.induct)
  case (1 r)
  show ?case
  proof (cases "REMOTE_CONTROL_SEGMENT_ASSEMBLY_MAX_COUNT \<le> length r")
    case False
    then have "evict_assemblies_if_full r = r" by (subst evict_assemblies_if_full.simps) simp
    with False 1(2) show ?thesis by simp
  next
    case True
    then have "r \<noteq> []" by (auto simp: REMOTE_CONTROL_SEGMENT_ASSEMBLY_MAX_COUNT_def)
    then obtain k a where m: "min_by_key (\<lambda>(_, a). a_last_chunk_seen_at a) r = Some (k, a)"
      using min_by_key_None by (metis not_None_eq surj_pair)
    then have "evict_assemblies_if_full r = evict_assemblies_if_full (AList.delete k r)"
      using True by (subst evict_assemblies_if_full.simps) simp
    with 1(1) [OF True m refl inv_delete [OF 1(2)]] show ?thesis by simp
  qed
qed

lemma inv_insert:
  assumes "reassembler_inv r" "length r < REMOTE_CONTROL_SEGMENT_ASSEMBLY_MAX_COUNT" "assembly_ok a"
  shows "reassembler_inv (AList.update k a r)"
  using assms length_update [of k a r]
  by (auto simp: reassembler_inv_def distinct_update dest!: set_update)

lemma assembly_ok_new:
  "m_message_size_bytes md \<le> REMOTE_CONTROL_REASSEMBLED_MAX_BYTES \<Longrightarrow> assembly_ok (new_assembly st md now)"
  by (simp add: assembly_ok_def new_assembly_def)

lemma inv_ensure:
  assumes "reassembler_inv r" "m_message_size_bytes md \<le> REMOTE_CONTROL_REASSEMBLED_MAX_BYTES"
  shows "reassembler_inv (ensure_assembly r c st md now)"
  using assms evict_inv [OF assms(1)] assembly_ok_new [OF assms(2)]
  by (auto simp: ensure_assembly_def intro: inv_insert inv_update_mem split: option.splits)

lemma inv_remove: "reassembler_inv r \<Longrightarrow> reassembler_inv (remove_assembly r c st)"
  by (simp add: remove_assembly_def inv_delete split: option.splits)

lemma assembly_ok_update:
  assumes "decode_bounded cd" "assembly_ok a"
  shows "assembly_ok (fst (update_assembly cd now md i chunk a))"
proof -
  let ?size = "m_message_size_bytes (a_metadata a)"
  have "assembly_ok (fst (append_segment cd now n ?size chunk a))" for n
  proof (cases "base64_decode_slice cd chunk
      (min ?size (sat_add (length (a_raw a)) (decoded_len_estimate cd (length chunk))) - length (a_raw a))")
    case (Inl e)
    with assms(2) show ?thesis
      by (cases e) (simp_all add: append_segment_def assembly_ok_def Let_def)
  next
    case (Inr d)
    then have "length d \<le> ?size - length (a_raw a)"
      using assms(1) unfolding decode_bounded_def by (meson diff_le_mono le_trans min.cobounded1)
    with Inr assms(2) show ?thesis
      by (auto simp: append_segment_def assembly_ok_def Let_def split: option.splits)
  qed
  with assms(2) show ?thesis by (auto simp: update_assembly_def)
qed

lemma inv_observe:
  assumes "decode_bounded cd" "reassembler_inv r"
  shows "reassembler_inv (fst (observe cd now r env))"
proof -
  have "reassembler_inv (fst (observe_chunk cd now r env md st i chunk))" for md st i chunk
  proof (cases "should_ignore_chunk r (c_client_id env) st (m_seq_id md) i \<or>
      invalid_chunk i (m_segment_count md) (m_message_size_bytes md) chunk")
    case True
    then show ?thesis using assms by (auto simp: observe_chunk_def inv_remove)
  next
    case False
    let ?r1 = "ensure_assembly r (c_client_id env) st md now"
    have r1: "reassembler_inv ?r1"
      using False assms by (intro inv_ensure) (auto simp: invalid_chunk_def)
    show ?thesis
    proof (cases "map_of ?r1 (c_client_id env)")
      case None
      with False r1 show ?thesis by (simp add: observe_chunk_def Let_def)
    next
      case (Some a)
      then have "assembly_ok a" using r1 map_of_SomeD [OF Some] by (force simp: reassembler_inv_def)
      then have "reassembler_inv (AList.update (c_client_id env) (fst (update_assembly cd now md i chunk a)) ?r1)"
        using Some r1 by (intro inv_update_mem assembly_ok_update [OF assms(1)]) auto
      then show ?thesis
        using False Some
        by (auto simp: observe_chunk_def Let_def split_beta finish_update_def inv_remove
            split: assembly_update.splits)
    qed
  qed
  then show ?thesis
    using assms by (simp add: observe_def split: client_event.splits option.splits)
qed

section \<open>Cursors of what is sent\<close>

definition same_stream :: "'o server_envelope \<Rightarrow> 'o server_envelope \<Rightarrow> bool" where
  "same_stream env e \<longleftrightarrow>
     s_client_id e = s_client_id env \<and> s_stream_id e = s_stream_id env \<and> s_seq_id e = s_seq_id env"

definition cursors_increase :: "'o server_envelope list \<Rightarrow> bool" where
  "cursors_increase es \<longleftrightarrow> sorted_wrt (<) (map envelope_cursor es)"

lemma chunk_envelopes_order:
  "list_all (same_stream env) (chunk_envelopes cd env pieces) \<and>
   cursors_increase (chunk_envelopes cd env pieces)"
proof -
  have "map envelope_cursor (chunk_envelopes cd env pieces) = map (\<lambda>i. (s_seq_id env, i)) [0..<length pieces]"
    by (simp add: chunk_envelopes_def chunk_event_def envelope_cursor_def)
  moreover have "sorted_wrt (<) (map (\<lambda>i. (s_seq_id env, i)) [0..<length pieces])"
    by (simp add: sorted_wrt_map)
  ultimately show ?thesis
    by (simp add: cursors_increase_def)
      (simp add: list_all_iff chunk_envelopes_def chunk_event_def same_stream_def)
qed

lemma split_loop_nil: "split_loop cd env [] n = Inr []"
proof -
  have "chunks_of c [] = ([] :: string list)" for c by (subst chunks_of.simps) simp
  then show ?thesis by (subst split_loop.simps) (simp add: Let_def)
qed

lemma split_order:
  assumes "split_server_envelope_for_transport cd as_response env = Inr envs"
  shows "list_all (same_stream env) envs \<and> cursors_increase envs"
proof -
  have single: "list_all (same_stream env) [env\<lparr>s_event := e\<rparr>] \<and> cursors_increase [env\<lparr>s_event := e\<rparr>]"
    "list_all (same_stream env) [env] \<and> cursors_increase [env]"
    "list_all (same_stream env) [] \<and> cursors_increase ([] :: 'o server_envelope list)"
    for e and env :: "'o server_envelope"
    by (simp_all add: same_stream_def cursors_increase_def)
  have loop: "list_all (same_stream env) es \<and> cursors_increase es"
    if "split_loop cd env raw n = Inr es" for raw n es
  proof (cases "raw = []")
    case True
    with that show ?thesis by (simp add: split_loop_nil single)
  next
    case False
    from split_loop_result [OF this, of cd env n] that show ?thesis
      by (auto simp: segmented_def chunk_envelopes_order single)
  qed
  show ?thesis
  proof (cases "s_event env")
    case (ServerMessage m)
    with assms show ?thesis
      by (auto simp: split_server_envelope_for_transport_def and_then_Inr_iff same_stream_def
          cursors_increase_def split: option.splits if_splits dest: loop)
  qed (use assms single in \<open>auto simp: split_server_envelope_for_transport_def\<close>)
qed

section \<open>What the outbound buffer holds\<close>

definition held_in :: "('k \<rightharpoonup> 'a list) \<Rightarrow> nat" where
  "held_in m = (\<Sum>k \<in> dom m. length (case m k of None \<Rightarrow> [] | Some q \<Rightarrow> q))"

definition held :: "'o outbound_buffer \<Rightarrow> nat" where
  "held b = held_in (buffer_by_stream b)"

text \<open>
  The buffer is consistent: the count is the number of buffered envelopes, no stream has an
  empty queue, and the cursors of every queue increase, with sequence numbers below the next one of
  the stream.
\<close>

definition next_seq :: "'o websocket_state \<Rightarrow> stream_key \<Rightarrow> nat" where
  "next_seq s k = (case next_seq_id_by_stream s k of None \<Rightarrow> 1 | Some n \<Rightarrow> n)"

definition outbound_inv :: "'o outbound_buffer \<Rightarrow> bool" where
  "outbound_inv b \<longleftrightarrow>
     finite (dom (buffer_by_stream b)) \<and> used b = held b \<and>
     (\<forall>k. cursors_increase (stream_buffer b k))"

lemma held_update:
  assumes "finite (dom m)"
  shows "held_in (m(k \<mapsto> v)) + length (case m k of None \<Rightarrow> [] | Some q \<Rightarrow> q) =
    held_in m + length v"
    and "held_in (m(k := None)) + length (case m k of None \<Rightarrow> [] | Some q \<Rightarrow> q) =
    held_in m"
proof -
  let ?f = "\<lambda>m k. length (case m k of None \<Rightarrow> [] | Some q \<Rightarrow> q)"
  have rest: "sum (?f (m(k := x))) (dom m - {k}) = sum (?f m) (dom m - {k})" for x
    by (rule sum.cong) auto
  have all: "sum (?f m) (dom m) = sum (?f m) (dom m - {k}) + ?f m k"
    using assms by (cases "k \<in> dom m") (simp_all add: sum.remove domIff)
  have "dom (m(k \<mapsto> v)) = insert k (dom m - {k})" by auto
  then have "sum (?f (m(k \<mapsto> v))) (dom (m(k \<mapsto> v))) =
      ?f (m(k \<mapsto> v)) k + sum (?f (m(k \<mapsto> v))) (dom m - {k})"
    using assms by (simp only: sum.insert finite_Diff Diff_iff singletonI not_True_eq_False simp_thms)
  then have "sum (?f (m(k \<mapsto> v))) (dom (m(k \<mapsto> v))) = length v + sum (?f m) (dom m - {k})"
    using rest [of "Some v"] by simp
  with all show "held_in (m(k \<mapsto> v)) + ?f m k =
      held_in m + length v"
    by (simp add: held_in_def)
  have "dom (m(k := None)) = dom m - {k}" by auto
  with all rest show "held_in (m(k := None)) + ?f m k =
      held_in m"
    by (simp add: held_in_def)
qed

lemma stream_buffer_insert [simp]:
  "stream_buffer (buffer_insert b e) k =
     (if k = (s_client_id e, s_stream_id e) then stream_buffer b k @ [e] else stream_buffer b k)"
  by (simp add: stream_buffer_def buffer_insert_def Let_def)

lemma cursors_increase_append:
  "cursors_increase (xs @ ys) \<longleftrightarrow> cursors_increase xs \<and> cursors_increase ys \<and>
     (\<forall>x \<in> set xs. \<forall>y \<in> set ys. envelope_cursor x < envelope_cursor y)"
  by (auto simp: cursors_increase_def sorted_wrt_append)

lemma cursors_increase_filter: "cursors_increase xs \<Longrightarrow> cursors_increase (filter P xs)"
  by (simp add: cursors_increase_def sorted_wrt_map sorted_wrt_filter)

lemma outbound_insert:
  assumes "outbound_inv b"
    and "\<And>x. x \<in> set (stream_buffer b (s_client_id e, s_stream_id e)) \<Longrightarrow> envelope_cursor x < envelope_cursor e"
  shows "outbound_inv (buffer_insert b e)"
proof -
  have "held (buffer_insert b e) = held b + 1"
    using held_update(1) [of "buffer_by_stream b" "(s_client_id e, s_stream_id e)"
        "stream_buffer b (s_client_id e, s_stream_id e) @ [e]"] assms(1)
    by (simp add: outbound_inv_def held_def buffer_insert_def Let_def stream_buffer_def)
  moreover have one: "cursors_increase [e]" by (simp add: cursors_increase_def)
  have "cursors_increase (stream_buffer b k)" for k using assms(1) unfolding outbound_inv_def by blast
  then have "cursors_increase (stream_buffer (buffer_insert b e) k)" for k
    using assms(2) one by (simp add: cursors_increase_append)
  moreover have "finite (dom (buffer_by_stream (buffer_insert b e)))"
    "used (buffer_insert b e) = used b + 1"
    using assms(1) by (simp_all add: outbound_inv_def buffer_insert_def Let_def)
  ultimately show ?thesis
    using assms(1) unfolding outbound_inv_def by simp
qed

lemma outbound_insert_all:
  assumes "outbound_inv b" "list_all (\<lambda>e. (s_client_id e, s_stream_id e) = k) es"
    and "cursors_increase (stream_buffer b k @ es)"
  shows "outbound_inv (fold (\<lambda>e b. buffer_insert b e) es b) \<and>
    (\<forall>k'. stream_buffer (fold (\<lambda>e b. buffer_insert b e) es b) k' =
       (if k' = k then stream_buffer b k @ es else stream_buffer b k'))"
  using assms
proof (induction es arbitrary: b)
  case (Cons e es)
  have "outbound_inv (buffer_insert b e)"
    using Cons.prems by (intro outbound_insert) (auto simp: cursors_increase_append)
  with Cons.IH [of "buffer_insert b e"] Cons.prems show ?case by auto
qed simp

lemma outbound_ack:
  assumes "outbound_inv b"
  shows "\<exists>b'. buffer_ack b c st q i = Some b' \<and> outbound_inv b' \<and>
    (\<forall>k. stream_buffer b' k =
       (if k = (c, st) then filter (\<lambda>e. \<not> envelope_cursor e \<le> ack_cursor q i) (stream_buffer b k)
        else stream_buffer b k))"
proof (cases "buffer_by_stream b (c, st)")
  case None
  with assms show ?thesis by (auto simp: buffer_ack_def stream_buffer_def)
next
  case (Some xs)
  let ?acked = "filter (\<lambda>e. envelope_cursor e \<le> ack_cursor q i) xs"
  let ?kept = "filter (\<lambda>e. \<not> envelope_cursor e \<le> ack_cursor q i) xs"
  have fin: "finite (dom (buffer_by_stream b))" and u: "used b = held b"
    using assms by (simp_all add: outbound_inv_def)
  have len: "length xs = length ?acked + length ?kept"
    using sum_length_filter_compl [of "\<lambda>e. envelope_cursor e \<le> ack_cursor q i" xs] by simp
  define b' where "b' = b\<lparr>buffer_by_stream := (buffer_by_stream b)
    ((c, st) := (if ?kept = [] then None else Some ?kept)), used := used b - length ?acked\<rparr>"
  have h: "held b' + length xs = held b + length ?kept"
    using held_update [OF fin, of "(c, st)"] Some
    by (auto simp: held_def b'_def)
  have "length xs \<le> held b"
    using held_update(2) [OF fin, of "(c, st)"] Some by (simp add: held_def)
  then have "buffer_ack b c st q i = Some b'" "used b' = held b'"
    using Some u h len by (simp_all add: buffer_ack_def b'_def Let_def)
  have sx: "stream_buffer b (c, st) = xs" using Some by (simp add: stream_buffer_def)
  have sb: "stream_buffer b' k = (if k = (c, st) then ?kept else stream_buffer b k)" for k
    by (simp add: stream_buffer_def b'_def)
  have "cursors_increase (stream_buffer b k)" for k using assms unfolding outbound_inv_def by blast
  then have "cursors_increase (stream_buffer b' k)" for k
    using sb [of k] sx cursors_increase_filter by metis
  moreover have "finite (dom (buffer_by_stream b'))" using fin by (simp add: b'_def)
  ultimately have "outbound_inv b'" unfolding outbound_inv_def using \<open>used b' = held b'\<close> by blast
  with \<open>buffer_ack b c st q i = Some b'\<close> sb sx show ?thesis by (intro exI [of _ b']) simp
qed

section \<open>Runs of the connection\<close>

datatype ('m, 'o) link_op =
    Receive nat nat "'m client_envelope"  \<comment> \<open>time, size on the wire\<close>
  | Send string string "'o server_event"

text \<open>\<open>None\<close> is the underflow of the count of buffered envelopes.\<close>

fun link_step ::
  "('m, 'o) codec \<Rightarrow> ('o \<Rightarrow> 'o option) \<Rightarrow> 'o websocket_state \<Rightarrow> ('m, 'o) link_op
    \<Rightarrow> ('o websocket_state \<times> 'm client_envelope option) option" where
  "link_step cd as_response s (Receive now wire env) = read_envelope cd s (now, wire, env)"
| "link_step cd as_response s (Send c st event) =
     Some (fst (write_event cd as_response s c st event), None)"

fun link_run ::
  "('m, 'o) codec \<Rightarrow> ('o \<Rightarrow> 'o option) \<Rightarrow> 'o websocket_state \<Rightarrow> ('m, 'o) link_op list
    \<Rightarrow> ('o websocket_state \<times> 'm client_envelope option list) option" where
  "link_run cd as_response s [] = Some (s, [])"
| "link_run cd as_response s (x # xs) =
     (case link_step cd as_response s x of
        None \<Rightarrow> None
      | Some (s1, out) \<Rightarrow> map_option (\<lambda>(s2, outs). (s2, out # outs)) (link_run cd as_response s1 xs))"

definition link_inv :: "nat \<Rightarrow> 'o websocket_state \<Rightarrow> bool" where
  "link_inv n s \<longleftrightarrow>
     reassembler_inv (segment_reassembler s) \<and> outbound_inv (outbound_buffer s) \<and>
     (\<forall>k. \<forall>e \<in> set (stream_buffer (outbound_buffer s) k). s_seq_id e < next_seq s k) \<and>
     (\<forall>k. next_seq s k \<le> n + 1)"

lemma link_inv_mono: "link_inv n s \<Longrightarrow> n \<le> m \<Longrightarrow> link_inv m s"
  unfolding link_inv_def by (meson add_le_mono1 le_trans)

lemma link_inv_new: "link_inv 0 websocket_new"
  by (simp add: link_inv_def websocket_new_def outbound_new_def reassembler_inv_def outbound_inv_def
      held_def held_in_def stream_buffer_def cursors_increase_def next_seq_def)

lemma record_delivery_ok:
  assumes "outbound_inv (outbound_buffer s)"
  shows "\<exists>s2. record_client_message_delivery s env key = Some s2 \<and> outbound_inv (outbound_buffer s2) \<and>
    segment_reassembler s2 = segment_reassembler s \<and>
    next_seq_id_by_stream s2 = next_seq_id_by_stream s \<and>
    last_completed s2 = (case key of None \<Rightarrow> last_completed s | Some (k, q) \<Rightarrow> (last_completed s)(k \<mapsto> q)) \<and>
    (\<forall>k. set (stream_buffer (outbound_buffer s2) k) \<subseteq> set (stream_buffer (outbound_buffer s) k))"
proof -
  define s2 where "s2 = (let s1 = (case c_cursor env of None \<Rightarrow> s | Some c \<Rightarrow> s\<lparr>subscribe_cursor := Some c\<rparr>)
    in case key of None \<Rightarrow> s1 | Some (k, q) \<Rightarrow> s1\<lparr>last_completed := (last_completed s1)(k \<mapsto> q)\<rparr>)"
  have f: "outbound_buffer s2 = outbound_buffer s" "segment_reassembler s2 = segment_reassembler s"
    "next_seq_id_by_stream s2 = next_seq_id_by_stream s"
    "last_completed s2 = (case key of None \<Rightarrow> last_completed s | Some (k, q) \<Rightarrow> (last_completed s)(k \<mapsto> q))"
    by (simp_all add: s2_def Let_def split: option.splits)
  have r: "record_client_message_delivery s env key =
    (case (c_event env, c_seq_id env, c_stream_id env) of
       (ClientAck segment_id, Some q, Some st) \<Rightarrow>
         map_option (\<lambda>b. s2\<lparr>outbound_buffer := b\<rparr>)
           (buffer_ack (outbound_buffer s) (c_client_id env) st q segment_id)
     | _ \<Rightarrow> Some s2)"
    unfolding record_client_message_delivery_def Let_def f(1) [symmetric] s2_def ..
  show ?thesis
  proof (cases "\<exists>i q st. c_event env = ClientAck i \<and> c_seq_id env = Some q \<and> c_stream_id env = Some st")
    case True
    then obtain i q st where e: "c_event env = ClientAck i" "c_seq_id env = Some q" "c_stream_id env = Some st"
      by blast
    from outbound_ack [OF assms, of "c_client_id env" st q i] obtain b' where
      b: "buffer_ack (outbound_buffer s) (c_client_id env) st q i = Some b'" "outbound_inv b'"
      "\<And>k. set (stream_buffer b' k) \<subseteq> set (stream_buffer (outbound_buffer s) k)"
      by (metis (no_types, lifting) filter_is_subset order_refl)
    then show ?thesis using e f by (simp add: r)
  next
    case False
    then have "record_client_message_delivery s env key = Some s2"
      by (auto simp: r split: client_event.splits option.splits)
    then show ?thesis using f assms by simp
  qed
qed

lemma inv_invalidate:
  "reassembler_inv r \<Longrightarrow> reassembler_inv (invalidate_stream r c st)"
  "reassembler_inv r \<Longrightarrow> reassembler_inv (invalidate_client r c)"
  by (simp_all add: invalidate_stream_def invalidate_client_def inv_remove inv_delete)

lemma observe_message_keeps:
  assumes "observe_client_message cd now s env wire = (s1, out)"
  shows "outbound_buffer s1 = outbound_buffer s \<and> next_seq_id_by_stream s1 = next_seq_id_by_stream s \<and>
    last_completed s1 = last_completed s \<and>
    (decode_bounded cd \<longrightarrow> reassembler_inv (segment_reassembler s) \<longrightarrow> reassembler_inv (segment_reassembler s1))"
  using assms inv_observe [of cd "segment_reassembler s" now env]
  by (auto simp: observe_client_message_def Let_def split_beta inv_invalidate
      split: if_splits option.splits)

lemma close_client_keeps:
  "outbound_buffer (close_client s c st) = outbound_buffer s"
  "next_seq_id_by_stream (close_client s c st) = next_seq_id_by_stream s"
  "reassembler_inv (segment_reassembler s) \<Longrightarrow> reassembler_inv (segment_reassembler (close_client s c st))"
  by (simp_all add: close_client_def invalidate_client_message_stream_def
      invalidate_client_message_client_def inv_invalidate split: option.splits)

lemma link_inv_cong:
  assumes "link_inv n s" "reassembler_inv (segment_reassembler s')" "outbound_inv (outbound_buffer s')"
    and "next_seq_id_by_stream s' = next_seq_id_by_stream s"
    and "\<And>k. set (stream_buffer (outbound_buffer s') k) \<subseteq> set (stream_buffer (outbound_buffer s) k)"
  shows "link_inv n s'"
proof -
  have "next_seq s' = next_seq s" using assms(4) by (simp add: next_seq_def fun_eq_iff)
  then show ?thesis using assms unfolding link_inv_def by (metis subsetD)
qed

lemma read_inv:
  assumes "decode_bounded cd" "link_inv n s"
  shows "\<exists>s' out. read_envelope cd s (now, wire, env) = Some (s', out) \<and> link_inv n s'"
proof -
  obtain s1 out where o: "observe_client_message cd now s env wire = (s1, out)" by force
  note k = observe_message_keeps [OF o]
  have inv: "reassembler_inv (segment_reassembler s)" "outbound_inv (outbound_buffer s)"
    using assms(2) by (simp_all add: link_inv_def)
  have r1: "reassembler_inv (segment_reassembler s1)" "outbound_inv (outbound_buffer s1)"
    using k assms(1) inv by simp_all
  show ?thesis
  proof (cases out)
    case (Forward fwd)
    from record_delivery_ok [OF r1(2), of fwd "client_message_key env"] obtain s2 where
      s2: "record_client_message_delivery s1 fwd (client_message_key env) = Some s2"
      "outbound_inv (outbound_buffer s2)" "segment_reassembler s2 = segment_reassembler s1"
      "next_seq_id_by_stream s2 = next_seq_id_by_stream s1"
      "\<And>k. set (stream_buffer (outbound_buffer s2) k) \<subseteq> set (stream_buffer (outbound_buffer s1) k)"
      by blast
    have "link_inv n s2"
      by (rule link_inv_cong [OF assms(2)]) (use s2 k r1 in auto)
    moreover have "link_inv n (close_client s2 c st)" for c st
      by (rule link_inv_cong [OF \<open>link_inv n s2\<close>])
        (use s2 r1 in \<open>auto simp: close_client_keeps\<close>)
    ultimately show ?thesis using Forward o s2(1) by (simp add: read_envelope_def)
  qed (use o k r1 in \<open>auto simp: read_envelope_def intro: link_inv_cong [OF assms(2)]\<close>)
qed

lemma cursor_less: "s_seq_id x < s_seq_id y \<Longrightarrow> envelope_cursor x < envelope_cursor y"
  by (simp add: envelope_cursor_def)

lemma write_inv:
  assumes "link_inv n s" "n + 2 < 2 ^ 64"
  shows "link_inv (Suc n) (fst (write_event cd as_response s c st event))"
proof -
  let ?k = "(c, st)" and ?q = "next_seq s (c, st)"
  let ?env = "\<lparr>s_event = event, s_client_id = c, s_stream_id = st, s_seq_id = ?q\<rparr>"
  let ?s1 = "s\<lparr>next_seq_id_by_stream := (next_seq_id_by_stream s)(?k \<mapsto> ?q)\<rparr>"
  have q: "(case next_seq_id_by_stream s ?k of None \<Rightarrow> 1 | Some n \<Rightarrow> n) = ?q"
    by (simp add: next_seq_def)
  have "next_seq ?s1 = next_seq s" by (auto simp: next_seq_def fun_eq_iff)
  then have s1: "link_inv (Suc n) ?s1"
    using link_inv_mono [OF assms(1), of "Suc n"] by (simp add: link_inv_def)
  show ?thesis
  proof (cases "split_server_envelope_for_transport cd as_response ?env")
    case (Inl e)
    with s1 q show ?thesis by (simp add: write_event_def Let_def)
  next
    case (Inr envs)
    define sent where "sent = filter (\<lambda>e. serialized_len cd e \<noteq> None) envs"
    note so = split_order [OF Inr]
    have key: "list_all (\<lambda>e. (s_client_id e, s_stream_id e) = ?k) sent" "\<forall>e \<in> set sent. s_seq_id e = ?q"
      using so by (auto simp: sent_def list_all_iff same_stream_def)
    have old: "\<forall>e \<in> set (stream_buffer (outbound_buffer s) ?k). s_seq_id e < ?q"
      using assms(1) unfolding link_inv_def by blast
    have "cursors_increase sent" using so cursors_increase_filter by (auto simp: sent_def)
    moreover have "cursors_increase (stream_buffer (outbound_buffer s) ?k)"
      using assms(1) unfolding link_inv_def outbound_inv_def by blast
    ultimately have "cursors_increase (stream_buffer (outbound_buffer s) ?k @ sent)"
      using old key(2) by (simp add: cursors_increase_append cursor_less)
    moreover have "outbound_inv (outbound_buffer s)" using assms(1) by (simp add: link_inv_def)
    ultimately have b: "outbound_inv (fold (\<lambda>e b. buffer_insert b e) sent (outbound_buffer s))"
      "\<And>k. stream_buffer (fold (\<lambda>e b. buffer_insert b e) sent (outbound_buffer s)) k =
        (if k = ?k then stream_buffer (outbound_buffer s) ?k @ sent else stream_buffer (outbound_buffer s) k)"
      using outbound_insert_all [OF _ key(1)] by blast+
    define s' where "s' = ?s1\<lparr>outbound_buffer := fold (\<lambda>e b. buffer_insert b e) sent (outbound_buffer s),
      next_seq_id_by_stream := (next_seq_id_by_stream s)(?k \<mapsto> Suc ?q)\<rparr>"
    have all_n: "next_seq s k \<le> n + 1" for k using assms(1) unfolding link_inv_def by blast
    note qn = all_n [of ?k]
    have ns: "next_seq s' k = (if k = ?k then Suc ?q else next_seq s k)" for k
      by (simp add: s'_def next_seq_def)
    have "fst (write_event cd as_response s c st event) = s'"
      using Inr q qn assms(2) by (simp add: write_event_def Let_def s'_def sent_def min_def)
    moreover have "s_seq_id e < next_seq s' k" if "e \<in> set (stream_buffer (outbound_buffer s') k)" for e k
    proof (cases "k = ?k")
      case True
      with that b(2) [of k] old key(2) ns [of k] show ?thesis by (auto simp: s'_def less_Suc_eq)
    next
      case False
      with that b(2) [of k] have "e \<in> set (stream_buffer (outbound_buffer s) k)" by (simp add: s'_def)
      with assms(1) False ns [of k] show ?thesis unfolding link_inv_def by metis
    qed
    moreover have "next_seq s' k \<le> Suc n + 1" for k
      using ns [of k] qn all_n [of k] by (cases "k = ?k") auto
    moreover have "reassembler_inv (segment_reassembler s')" "outbound_inv (outbound_buffer s')"
      using assms(1) b(1) by (simp_all add: s'_def link_inv_def)
    ultimately show ?thesis unfolding link_inv_def by auto
  qed
qed

lemma link_run_inv:
  assumes "decode_bounded cd"
  shows "link_inv n s \<Longrightarrow> n + length xs + 1 < 2 ^ 64 \<Longrightarrow>
    \<exists>s' outs. link_run cd as_response s xs = Some (s', outs) \<and> link_inv (n + length xs) s'"
proof (induction xs arbitrary: n s)
  case (Cons x xs)
  have "\<exists>s1 out. link_step cd as_response s x = Some (s1, out) \<and> link_inv (Suc n) s1"
  proof (cases x)
    case (Receive now wire env)
    with read_inv [OF assms Cons.prems(1), of now wire env] show ?thesis
      using link_inv_mono [of n _ "Suc n"] by fastforce
  next
    case (Send c st event)
    with write_inv [OF Cons.prems(1)] Cons.prems(2) show ?thesis by auto
  qed
  then obtain s1 out where s1: "link_step cd as_response s x = Some (s1, out)" "link_inv (Suc n) s1"
    by blast
  from Cons.IH [OF s1(2)] Cons.prems(2) show ?case by (auto simp: s1(1))
qed auto

section \<open>Properties\<close>

text \<open>
  C28: whatever envelopes arrive and whatever events are sent over a connection, its state stays
  consistent and bounded. The count of buffered envelopes never underflows and is the number of
  envelopes in the queues; the envelopes of every queue are in strictly increasing order of sequence
  and segment number, below the next number of the stream; there are at most 128 assemblies, and none
  holds more bytes than its message announced, which is at most 100 MiB. Runs of fewer than
  2 to the power of 64, less one, steps are considered, and decoding writes no more than there is room for.
\<close>

theorem link_state_consistent:
  assumes "decode_bounded cd" "length ops + 1 < 2 ^ 64"
  shows "\<exists>s outs. link_run cd as_response websocket_new ops = Some (s, outs) \<and>
    used (outbound_buffer s) = held (outbound_buffer s) \<and>
    (\<forall>k. cursors_increase (stream_buffer (outbound_buffer s) k)) \<and>
    (\<forall>k. \<forall>e \<in> set (stream_buffer (outbound_buffer s) k). s_seq_id e < next_seq s k) \<and>
    length (segment_reassembler s) \<le> 128 \<and>
    (\<forall>(c, a) \<in> set (segment_reassembler s). length (a_raw a) \<le> m_message_size_bytes (a_metadata a) \<and>
       m_message_size_bytes (a_metadata a) \<le> 100 * 1024 * 1024)"
proof -
  from link_run_inv [OF assms(1) link_inv_new, of ops as_response] assms(2) obtain s outs where
    s: "link_run cd as_response websocket_new ops = Some (s, outs)" "link_inv (length ops) s" by auto
  have "assembly_ok a" if "(c, a) \<in> set (segment_reassembler s)" for c a
    using s(2) that by (auto simp: link_inv_def reassembler_inv_def)
  with s show ?thesis
    by (auto simp: link_inv_def reassembler_inv_def outbound_inv_def assembly_ok_def
        REMOTE_CONTROL_REASSEMBLED_MAX_BYTES_def REMOTE_CONTROL_SEGMENT_ASSEMBLY_MAX_COUNT_def)
qed

theorem link_state_consistent_witness:
  "\<exists>s outs. link_run plain_codec (\<lambda>_. None) websocket_new
       [Send ''c'' ''s'' (Pong True), Receive 1 50 sample_envelope] = Some (s, outs) \<and>
     used (outbound_buffer s) = held (outbound_buffer s)"
proof -
  have "decode_bounded plain_codec" by (auto simp: decode_bounded_def plain_codec_def split: if_splits)
  from link_state_consistent [OF this,
      of "[Send ''c'' ''s'' (Pong True), Receive 1 50 sample_envelope]" "\<lambda>_. None"]
  show ?thesis by auto
qed

lemma cursors_drop:
  "cursors_increase xs \<Longrightarrow>
     filter (\<lambda>e. \<not> envelope_cursor e \<le> c) xs = dropWhile (\<lambda>e. envelope_cursor e \<le> c) xs"
proof (induction xs)
  case (Cons x xs)
  show ?case
  proof (cases "envelope_cursor x \<le> c")
    case True
    with Cons show ?thesis by (simp add: cursors_increase_def)
  next
    case False
    have "\<not> envelope_cursor e \<le> c" if "e \<in> set xs" for e
      using Cons.prems that False by (auto simp: cursors_increase_def)
    then have "filter (\<lambda>e. \<not> envelope_cursor e \<le> c) xs = xs" by (simp add: filter_id_conv)
    with False show ?thesis by simp
  qed
qed simp

text \<open>
  An acknowledgement is cumulative. In every state of a connection it takes from the queue of its
  stream the leading envelopes up to the acknowledged position and nothing else, leaves the other
  streams alone, and frees as many places of the buffer.
\<close>

theorem ack_takes_prefix:
  assumes "decode_bounded cd" "length ops + 1 < 2 ^ 64"
    and "link_run cd as_response websocket_new ops = Some (s, outs)"
  shows "\<exists>b'. buffer_ack (outbound_buffer s) c st q i = Some b' \<and>
    stream_buffer b' (c, st) =
      dropWhile (\<lambda>e. envelope_cursor e \<le> ack_cursor q i) (stream_buffer (outbound_buffer s) (c, st)) \<and>
    (\<forall>k. k \<noteq> (c, st) \<longrightarrow> stream_buffer b' k = stream_buffer (outbound_buffer s) k) \<and>
    used b' = held b'"
proof -
  have inv: "outbound_inv (outbound_buffer s)"
    using link_run_inv [OF assms(1) link_inv_new, of ops as_response] assms(2,3)
    by (auto simp: link_inv_def)
  then have "cursors_increase (stream_buffer (outbound_buffer s) (c, st))"
    unfolding outbound_inv_def by blast
  note drop = cursors_drop [OF this, of "ack_cursor q i"]
  from outbound_ack [OF inv, of c st q i] obtain b' where
    "buffer_ack (outbound_buffer s) c st q i = Some b'" "outbound_inv b'"
    "\<And>k. stream_buffer b' k = (if k = (c, st)
       then filter (\<lambda>e. \<not> envelope_cursor e \<le> ack_cursor q i) (stream_buffer (outbound_buffer s) k)
       else stream_buffer (outbound_buffer s) k)" by blast
  with drop show ?thesis by (intro exI [of _ b']) (simp add: outbound_inv_def)
qed

theorem ack_takes_prefix_witness:
  "\<exists>s outs b'. link_run plain_codec (\<lambda>_. None) websocket_new [Send ''c'' ''s'' (Pong True)] = Some (s, outs) \<and>
     buffer_ack (outbound_buffer s) ''c'' ''s'' 1 None = Some b'"
proof -
  have d: "decode_bounded plain_codec" by (auto simp: decode_bounded_def plain_codec_def split: if_splits)
  obtain s outs where r: "link_run plain_codec (\<lambda>_. None) websocket_new
      [Send ''c'' ''s'' (Pong True)] = Some (s, outs)" by simp
  from ack_takes_prefix [OF d _ r, of "''c''" "''s''" 1 None] r show ?thesis by auto
qed

section \<open>A message is delivered once\<close>

text \<open>
  The reader as a machine that always answers: where the count would underflow it stays put.
\<close>

definition read_step ::
  "('m, 'o) codec \<Rightarrow> 'o websocket_state \<Rightarrow> nat \<times> nat \<times> 'm client_envelope
    \<Rightarrow> 'o websocket_state \<times> 'm client_envelope option" where
  "read_step cd s x = (case read_envelope cd s x of None \<Rightarrow> (s, None) | Some r \<Rightarrow> r)"

definition completes :: "message_key \<Rightarrow> nat \<times> nat \<times> 'm client_envelope \<Rightarrow> 'm client_envelope option \<Rightarrow> bool" where
  "completes k x out \<longleftrightarrow> client_message_key (snd (snd x)) = Some k \<and> out \<noteq> None"

definition closes :: "message_key \<Rightarrow> nat \<times> nat \<times> 'm client_envelope \<Rightarrow> bool" where
  "closes k x \<longleftrightarrow> c_event (snd (snd x)) = ClientClosed \<and> c_client_id (snd (snd x)) = fst (fst k)"

lemma observe_forward_chunk:
  assumes "observe cd now r env = (r', Forward fwd)"
  shows "if client_message_key env \<noteq> None then (\<exists>m. c_event fwd = ClientMessage m) else fwd = env"
  using assms
  by (auto simp: observe_def observe_chunk_def finish_update_def client_message_key_def Let_def split_beta
      split: client_event.splits option.splits if_splits assembly_update.splits)

lemma record_last:
  assumes "record_client_message_delivery s env key = Some s2"
  shows "last_completed s2 =
    (case key of None \<Rightarrow> last_completed s | Some k \<Rightarrow> (last_completed s)(fst k \<mapsto> snd k))"
  using assms
  by (auto simp: record_client_message_delivery_def Let_def
      split: option.splits client_event.splits prod.splits)

lemma observe_message_forward:
  assumes "observe_client_message cd now s env wire = (s1, Forward fwd)"
  shows "(case client_message_key env of
      None \<Rightarrow> fwd = env
    | Some k \<Rightarrow> \<not> already_completed s k \<and> (\<exists>m. c_event fwd = ClientMessage m))"
proof -
  obtain r' ob where r: "observe cd now (segment_reassembler s) env = (r', ob)" by force
  have "ob = Forward fwd" "case client_message_key env of None \<Rightarrow> True | Some k \<Rightarrow> \<not> already_completed s k"
    using assms r by (auto simp: observe_client_message_def Let_def split: if_splits option.splits)
  with observe_forward_chunk [of cd now "segment_reassembler s" env r' fwd] r show ?thesis
    by (auto split: option.splits)
qed

lemma read_step_last:
  assumes "read_step cd s (now, wire, env) = (s', out)"
  shows "out = None \<Longrightarrow> last_completed s' = last_completed s"
    and "out \<noteq> None \<Longrightarrow> client_message_key env = Some k \<Longrightarrow>
      \<not> already_completed s k \<and> last_completed s' = (last_completed s)(fst k \<mapsto> snd k)"
    and "out \<noteq> None \<Longrightarrow> client_message_key env = None \<Longrightarrow>
      fst k' \<noteq> c_client_id env \<or> c_event env \<noteq> ClientClosed \<Longrightarrow> last_completed s' k' = last_completed s k'"
proof -
  obtain s1 ob where o: "observe_client_message cd now s env wire = (s1, ob)" by force
  have l1: "last_completed s1 = last_completed s" using observe_message_keeps [OF o] by simp
  have fw: "\<exists>fwd s2. ob = Forward fwd \<and>
      record_client_message_delivery s1 fwd (client_message_key env) = Some s2 \<and>
      s' = (if c_event fwd = ClientClosed then close_client s2 (c_client_id fwd) (c_stream_id fwd) else s2)"
    if "out \<noteq> None"
    using assms o that
    by (auto simp: read_step_def read_envelope_def split: observation.splits option.splits)
  show "last_completed s' = last_completed s" if "out = None"
    using assms o that l1
    by (auto simp: read_step_def read_envelope_def split: observation.splits option.splits)
  show "\<not> already_completed s k \<and> last_completed s' = (last_completed s)(fst k \<mapsto> snd k)"
    if "out \<noteq> None" "client_message_key env = Some k"
    using fw [OF that(1)] o that(2) observe_message_forward [of cd now s env wire s1] record_last l1
    by fastforce
  show "last_completed s' k' = last_completed s k'"
    if "out \<noteq> None" "client_message_key env = None" "fst k' \<noteq> c_client_id env \<or> c_event env \<noteq> ClientClosed"
  proof -
    from fw [OF that(1)] obtain fwd s2 where f: "ob = Forward fwd"
      "record_client_message_delivery s1 fwd (client_message_key env) = Some s2"
      "s' = (if c_event fwd = ClientClosed then close_client s2 (c_client_id fwd) (c_stream_id fwd) else s2)"
      by blast
    have "fwd = env" using observe_message_forward [OF o [unfolded f(1)]] that(2) by simp
    moreover have "last_completed s2 = last_completed s" using record_last [OF f(2)] that(2) l1 by simp
    ultimately show ?thesis
      using f(3) that(3)
      by (auto simp: close_client_def invalidate_client_message_stream_def
          invalidate_client_message_client_def split: option.splits)
  qed
qed

interpretation completion: latch "read_step cd" "completes k" "closes k" "\<lambda>s. already_completed s k"
  for cd :: "('m, 'o) codec" and k
proof
  fix x :: "nat \<times> nat \<times> 'm client_envelope" and s :: "'o websocket_state"
  obtain now wire env where x: "x = (now, wire, env)" by (cases x)
  obtain s' out where r: "read_step cd s (now, wire, env) = (s', out)" by force
  show "\<not> already_completed s k" if "completes k x (snd (read_step cd s x))"
    using that read_step_last(2) [OF r] by (auto simp: completes_def x r)
  show "already_completed (fst (read_step cd s x)) k" if "completes k x (snd (read_step cd s x))"
    using that read_step_last(2) [OF r] by (auto simp: completes_def x r already_completed_def)
  show "already_completed (fst (read_step cd s x)) k" if "already_completed s k" "\<not> closes k x"
  proof (cases "out = None \<or> client_message_key env = None")
    case True
    have "last_completed s' (fst k) = last_completed s (fst k)"
      using True read_step_last(1) [OF r] read_step_last(3) [OF r, of "fst k"] that(2)
      by (cases "out = None") (auto simp: closes_def x)
    with that(1) show ?thesis by (simp add: x r already_completed_def)
  next
    case False
    then obtain k1 where k1: "client_message_key env = Some k1" "out \<noteq> None" by auto
    from read_step_last(2) [OF r k1(2,1)] that(1) show ?thesis
      by (auto simp: x r already_completed_def split: option.splits if_splits)
  qed
qed

text \<open>
  A message that a client sends in chunks is handed on at most once: among all envelopes
  that the reader processes, whatever else arrives in between and however often the chunks are sent
  again, at most one completes the message with a given sequence number on a stream, as long as the
  client is not closed.
\<close>

theorem chunked_message_delivered_once:
  assumes "list_all (\<lambda>x. \<not> closes k x) xs"
  shows "length (filter (\<lambda>(x, out). completes k x out) (zip xs (snd (run_ops (read_step cd) s xs)))) \<le> 1"
  using completion.fires_at_most_once [OF assms, of cd s] by (simp add: completion.firings_def)

theorem chunked_message_delivered_once_witness:
  "length (filter (\<lambda>(x, out). completes ((''c'', Some ''s''), 4) x out)
     (zip [(1, 9, client_chunk plain_codec [''hey''] sample_envelope 0),
           (2, 9, client_chunk plain_codec [''hey''] sample_envelope 0)]
        (snd (run_ops (read_step plain_codec) websocket_new
          [(1, 9, client_chunk plain_codec [''hey''] sample_envelope 0),
           (2, 9, client_chunk plain_codec [''hey''] sample_envelope 0)])))) \<le> 1"
  by (rule chunked_message_delivered_once)
    (simp add: closes_def client_chunk_def chunk_event_def)

end
