(* ===== verification/Output_Truncation.thy ===== *)
theory Output_Truncation
  imports Ava_Prelude
begin

text \<open>
  Truncation of tool output, \<^verbatim>\<open>utils/string/src/truncate.rs\<close>,
  \<^verbatim>\<open>utils/output-truncation/src/lib.rs\<close> and the budgets of \<open>TruncationPolicy\<close> in
  \<^verbatim>\<open>protocol/src/protocol.rs\<close>. A text is its UTF-8 bytes; the loop of \<open>split_string\<close> runs over the
  code points with their byte offsets. The theorems say which code points stay, that the number in the
  marker is the number that went, and what a list of output items may cost after truncation.
  The estimator of the tokens of an audio item is an argument, as in the code.
\<close>

section \<open>Estimates\<close>

definition APPROX_BYTES_PER_TOKEN :: nat where
  "APPROX_BYTES_PER_TOKEN = 4"

definition approx_token_count :: "string \<Rightarrow> nat" where
  "approx_token_count text = sat_add (length text) (APPROX_BYTES_PER_TOKEN - 1) div APPROX_BYTES_PER_TOKEN"

definition approx_bytes_for_tokens :: "nat \<Rightarrow> nat" where
  "approx_bytes_for_tokens tokens = sat_mul tokens APPROX_BYTES_PER_TOKEN"

definition approx_tokens_from_byte_count :: "nat \<Rightarrow> nat" where
  "approx_tokens_from_byte_count bytes = sat_add bytes (APPROX_BYTES_PER_TOKEN - 1) div APPROX_BYTES_PER_TOKEN"

definition approx_tokens_from_byte_count_i64 :: "int \<Rightarrow> int" where
  "approx_tokens_from_byte_count_i64 bytes =
     (if bytes \<le> 0 then 0
      else min (int (approx_tokens_from_byte_count (nat bytes))) (2 ^ 63 - 1))"

section \<open>Cutting the middle out of a text\<close>

text \<open>\<open>str::char_indices\<close>: the code points with the offsets of their first bytes.\<close>

fun char_indices_from :: "nat \<Rightarrow> string list \<Rightarrow> (nat \<times> string) list" where
  "char_indices_from idx [] = []"
| "char_indices_from idx (ch # chs) = (idx, ch) # char_indices_from (idx + length ch) chs"

definition char_indices :: "string \<Rightarrow> (nat \<times> string) list" where
  "char_indices s = char_indices_from 0 (chars s)"

record split_state =
  prefix_end :: nat
  suffix_start :: nat
  removed_chars :: nat
  suffix_started :: bool

definition split_step :: "nat \<Rightarrow> nat \<Rightarrow> split_state \<Rightarrow> nat \<times> string \<Rightarrow> split_state" where
  "split_step beginning_bytes tail_start_target st ic =
     (let idx = fst ic; char_end = idx + length (snd ic)
      in if char_end \<le> beginning_bytes then st\<lparr>prefix_end := char_end\<rparr>
         else if tail_start_target \<le> idx then
           (if \<not> suffix_started st then st\<lparr>suffix_start := idx, suffix_started := True\<rparr> else st)
         else st\<lparr>removed_chars := sat_add (removed_chars st) 1\<rparr>)"

text \<open>
  The slices are taken at \<open>prefix_end\<close> and \<open>suffix_start\<close>, which are the ends of code points
  (\<open>split_string_spec\<close> below), so that slicing does not panic.
\<close>

definition split_string :: "string \<Rightarrow> nat \<Rightarrow> nat \<Rightarrow> nat \<times> string \<times> string" where
  "split_string s beginning_bytes end_bytes =
     (if s = [] then (0, [], [])
      else let len = length s;
               tail_start_target = len - end_bytes;
               st = foldl (split_step beginning_bytes tail_start_target)
                      \<lparr>prefix_end = 0, suffix_start = len, removed_chars = 0, suffix_started = False\<rparr>
                      (char_indices s);
               suffix = (if suffix_start st < prefix_end st then prefix_end st else suffix_start st)
           in (removed_chars st, take (prefix_end st) s, drop suffix s))"

definition split_budget :: "nat \<Rightarrow> nat \<times> nat" where
  "split_budget budget = (let left = budget div 2 in (left, budget - left))"

text \<open>U+2026, the horizontal ellipsis, in UTF-8.\<close>

definition ellipsis :: string where
  "ellipsis = [CHR 0xE2, CHR 0x80, CHR 0xA6]"

definition format_truncation_marker :: "bool \<Rightarrow> nat \<Rightarrow> string" where
  "format_truncation_marker use_tokens removed_count =
     (if use_tokens then ellipsis @ show_nat removed_count @ '' tokens truncated'' @ ellipsis
      else ellipsis @ show_nat removed_count @ '' chars truncated'' @ ellipsis)"

definition removed_units :: "bool \<Rightarrow> nat \<Rightarrow> nat \<Rightarrow> nat" where
  "removed_units use_tokens removed_bytes removed =
     (if use_tokens then approx_tokens_from_byte_count removed_bytes else removed)"

definition assemble_truncated_output :: "string \<Rightarrow> string \<Rightarrow> string \<Rightarrow> string" where
  "assemble_truncated_output pre suf marker = pre @ marker @ suf"

definition truncate_with_byte_estimate :: "string \<Rightarrow> nat \<Rightarrow> bool \<Rightarrow> string" where
  "truncate_with_byte_estimate s max_bytes use_tokens =
     (if s = [] then []
      else let total_chars = length (chars s)
           in if max_bytes = 0 then
                format_truncation_marker use_tokens (removed_units use_tokens (length s) total_chars)
              else if length s \<le> max_bytes then s
              else let (left_budget, right_budget) = split_budget max_bytes;
                       (removed, left, right) = split_string s left_budget right_budget;
                       marker = format_truncation_marker use_tokens
                                  (removed_units use_tokens (length s - max_bytes) removed)
                   in assemble_truncated_output left right marker)"

definition truncate_middle_chars :: "string \<Rightarrow> nat \<Rightarrow> string" where
  "truncate_middle_chars s max_bytes = truncate_with_byte_estimate s max_bytes False"

definition truncate_middle_with_token_budget :: "string \<Rightarrow> nat \<Rightarrow> string \<times> nat option" where
  "truncate_middle_with_token_budget s max_tokens =
     (if s = [] then ([], None)
      else if 0 < max_tokens \<and> length s \<le> approx_bytes_for_tokens max_tokens then (s, None)
      else let truncated = truncate_with_byte_estimate s (approx_bytes_for_tokens max_tokens) True;
               total_tokens = approx_token_count s
           in if truncated = s then (truncated, None) else (truncated, Some total_tokens))"

text \<open>\<open>take_bytes_at_char_boundary\<close> of \<^verbatim>\<open>utils/string/src/lib.rs\<close>; the loop breaks at the first code
  point that does not fit.\<close>

fun last_boundary :: "nat \<Rightarrow> nat \<Rightarrow> (nat \<times> string) list \<Rightarrow> nat" where
  "last_boundary maxb last_ok [] = last_ok"
| "last_boundary maxb last_ok ((i, ch) # rest) =
     (let nb = i + length ch in if maxb < nb then last_ok else last_boundary maxb nb rest)"

definition take_bytes_at_char_boundary :: "string \<Rightarrow> nat \<Rightarrow> string" where
  "take_bytes_at_char_boundary s maxb =
     (if length s \<le> maxb then s else take (last_boundary maxb 0 (char_indices s)) s)"

section \<open>Policies\<close>

datatype truncation_policy = Bytes nat | Tokens nat

datatype truncation_mode = BytesMode | TokensMode

record truncation_policy_config =
  cfg_mode :: truncation_mode
  cfg_limit :: int

text \<open>The cast of the \<open>i64\<close> limit to \<open>usize\<close> wraps around.\<close>

definition policy_from_config :: "truncation_policy_config \<Rightarrow> truncation_policy" where
  "policy_from_config config =
     (case cfg_mode config of
        BytesMode \<Rightarrow> Bytes (nat (cfg_limit config mod 2 ^ 64))
      | TokensMode \<Rightarrow> Tokens (nat (cfg_limit config mod 2 ^ 64)))"

fun token_budget_of :: "truncation_policy \<Rightarrow> nat" where
  "token_budget_of (Bytes bytes) = approx_tokens_from_byte_count bytes"
| "token_budget_of (Tokens tokens) = tokens"

fun byte_budget :: "truncation_policy \<Rightarrow> nat" where
  "byte_budget (Bytes bytes) = bytes"
| "byte_budget (Tokens tokens) = approx_bytes_for_tokens tokens"

fun truncate_text :: "string \<Rightarrow> truncation_policy \<Rightarrow> string" where
  "truncate_text content (Bytes bytes) = truncate_middle_chars content bytes"
| "truncate_text content (Tokens tokens) = fst (truncate_middle_with_token_budget content tokens)"

definition formatted_truncate_text :: "string \<Rightarrow> truncation_policy \<Rightarrow> string" where
  "formatted_truncate_text content policy =
     (if length content \<le> byte_budget policy then content
      else ''Warning: truncated output (original token count: '' @ show_nat (approx_token_count content)
           @ '')'' @ [newline] @ ''Total output lines: '' @ show_nat (length (str_lines content))
           @ [newline, newline] @ truncate_text content policy)"

section \<open>Lists of output items\<close>

datatype image_reference = InlineImage string | FileImage string

datatype image_detail = DetailAuto | DetailLow | DetailHigh | DetailOriginal

datatype output_item =
    InputText string
  | InputImage image_reference "image_detail option"
  | InputAudio string
  | EncryptedContent string

datatype output_body = TextBody string | ContentItems "output_item list"

record output_payload =
  payload_body :: output_body
  payload_success :: "bool option"

fun text_of_item :: "output_item \<Rightarrow> string option" where
  "text_of_item (InputText t) = Some t"
| "text_of_item (InputImage i d) = None"
| "text_of_item (InputAudio u) = None"
| "text_of_item (EncryptedContent e) = None"

definition combine_texts :: "string list \<Rightarrow> string" where
  "combine_texts segments =
     foldl (\<lambda>combined t. (if combined \<noteq> [] then combined @ [newline] else combined) @ t) [] segments"

definition formatted_truncate_text_content_items_with_policy ::
  "output_item list \<Rightarrow> truncation_policy \<Rightarrow> output_item list \<times> nat option" where
  "formatted_truncate_text_content_items_with_policy items policy =
     (let text_segments = List.map_filter text_of_item items
      in if text_segments = [] then (items, None)
         else let combined = combine_texts text_segments
              in if length combined \<le> byte_budget policy then (items, None)
                 else (InputText (formatted_truncate_text combined policy)
                         # filter (\<lambda>i. text_of_item i = None) items,
                       Some (approx_token_count combined)))"

record items_state =
  out_items :: "output_item list"
  remaining_budget :: nat
  omitted_text_items :: nat
  omitted_audio_items :: nat

definition text_cost :: "truncation_policy \<Rightarrow> string \<Rightarrow> nat" where
  "text_cost policy t = (case policy of Bytes _ \<Rightarrow> length t | Tokens _ \<Rightarrow> approx_token_count t)"

definition audio_cost :: "truncation_policy \<Rightarrow> (string \<Rightarrow> nat) \<Rightarrow> string \<Rightarrow> nat" where
  "audio_cost policy estimate url =
     (case policy of Bytes _ \<Rightarrow> approx_bytes_for_tokens (estimate url) | Tokens _ \<Rightarrow> estimate url)"

definition snippet_policy :: "truncation_policy \<Rightarrow> nat \<Rightarrow> truncation_policy" where
  "snippet_policy policy remaining =
     (case policy of Bytes _ \<Rightarrow> Bytes remaining | Tokens _ \<Rightarrow> Tokens remaining)"

fun items_step :: "truncation_policy \<Rightarrow> (string \<Rightarrow> nat) \<Rightarrow> items_state \<Rightarrow> output_item \<Rightarrow> items_state" where
  "items_step policy estimate st (InputText t) =
     (if t = [] then st
      else if remaining_budget st = 0 then st\<lparr>omitted_text_items := omitted_text_items st + 1\<rparr>
      else let cost = text_cost policy t
           in if cost \<le> remaining_budget st then
                st\<lparr>out_items := out_items st @ [InputText t],
                   remaining_budget := remaining_budget st - cost\<rparr>
              else let snippet = truncate_text t (snippet_policy policy (remaining_budget st))
                   in (if snippet = [] then st\<lparr>omitted_text_items := omitted_text_items st + 1\<rparr>
                       else st\<lparr>out_items := out_items st @ [InputText snippet]\<rparr>)\<lparr>remaining_budget := 0\<rparr>)"
| "items_step policy estimate st (InputImage i d) = st\<lparr>out_items := out_items st @ [InputImage i d]\<rparr>"
| "items_step policy estimate st (InputAudio url) =
     (let cost = audio_cost policy estimate url
      in if cost \<le> remaining_budget st then
           st\<lparr>out_items := out_items st @ [InputAudio url],
              remaining_budget := remaining_budget st - cost\<rparr>
         else st\<lparr>omitted_audio_items := omitted_audio_items st + 1\<rparr>)"
| "items_step policy estimate st (EncryptedContent e) = st\<lparr>out_items := out_items st @ [EncryptedContent e]\<rparr>"

definition items_budget :: "truncation_policy \<Rightarrow> nat" where
  "items_budget policy = (case policy of Bytes _ \<Rightarrow> byte_budget policy | Tokens _ \<Rightarrow> token_budget_of policy)"

definition items_start :: "truncation_policy \<Rightarrow> items_state" where
  "items_start policy =
     \<lparr>out_items = [], remaining_budget = items_budget policy, omitted_text_items = 0, omitted_audio_items = 0\<rparr>"

definition omission_note :: "nat \<Rightarrow> string \<Rightarrow> output_item list" where
  "omission_note n kind =
     (if 0 < n then [InputText (''[omitted '' @ show_nat n @ '' '' @ kind @ '' items ...]'')] else [])"

definition truncate_function_output_items_with_policy ::
  "output_item list \<Rightarrow> truncation_policy \<Rightarrow> (string \<Rightarrow> nat) \<Rightarrow> output_item list" where
  "truncate_function_output_items_with_policy items policy estimate =
     (let st = foldl (items_step policy estimate) (items_start policy) items
      in out_items st @ omission_note (omitted_text_items st) ''text''
           @ omission_note (omitted_audio_items st) ''audio'')"

definition truncate_function_output_payload ::
  "output_payload \<Rightarrow> truncation_policy \<Rightarrow> (string \<Rightarrow> nat) \<Rightarrow> output_payload" where
  "truncate_function_output_payload output policy estimate =
     output\<lparr>payload_body :=
       (case payload_body output of
          TextBody t \<Rightarrow> TextBody (truncate_text t policy)
        | ContentItems items \<Rightarrow>
            ContentItems (truncate_function_output_items_with_policy items policy estimate))\<rparr>"

section \<open>Which code points stay\<close>

text \<open>
  The two counts behind the loop: how many leading code points fit into a number of bytes, and how
  many of them start before an offset.
\<close>

fun fitting :: "nat \<Rightarrow> string list \<Rightarrow> nat" where
  "fitting b [] = 0"
| "fitting b (c # cs) = (if length c \<le> b then Suc (fitting (b - length c) cs) else 0)"

fun starting_before :: "nat \<Rightarrow> string list \<Rightarrow> nat" where
  "starting_before t [] = 0"
| "starting_before t (c # cs) = (if t = 0 then 0 else Suc (starting_before (t - length c) cs))"

abbreviation bytes_of :: "string list \<Rightarrow> nat" where
  "bytes_of cs \<equiv> length (concat cs)"

lemma fitting_le: "fitting b cs \<le> length cs"
  by (induction b cs rule: fitting.induct) auto

lemma fitting_fits: "bytes_of (take (fitting b cs) cs) \<le> b"
  by (induction b cs rule: fitting.induct) auto

lemma fitting_maximal: "fitting b cs < length cs \<Longrightarrow> b < bytes_of (take (Suc (fitting b cs)) cs)"
  by (induction b cs rule: fitting.induct) (auto split: if_splits)

lemma starting_before_le: "starting_before t cs \<le> length cs"
  by (induction t cs rule: starting_before.induct) auto

lemma starting_before_reaches:
  "starting_before t cs < length cs \<Longrightarrow> t \<le> bytes_of (take (starting_before t cs) cs)"
  by (induction t cs rule: starting_before.induct) (auto split: if_splits)

lemma starting_before_minimal: "j < starting_before t cs \<Longrightarrow> bytes_of (take j cs) < t"
proof (induction t cs arbitrary: j rule: starting_before.induct)
  case (2 t c cs)
  then have t: "0 < t" by (auto split: if_splits)
  show ?case
  proof (cases j)
    case (Suc i)
    with 2(2) t have "i < starting_before (t - length c) cs" by simp
    from 2(1)[OF _ this] t have "bytes_of (take i cs) < t - length c" by simp
    with Suc show ?thesis by simp
  qed (simp add: t)
qed simp

lemma split_after_start:
  assumes "suffix_started st" "t \<le> idx" "b < idx"
  shows "foldl (split_step b t) st (char_indices_from idx cs) = st"
  using assms
  by (induction idx cs rule: char_indices_from.induct) (simp_all add: split_step_def)

lemma split_after_prefix:
  assumes "\<And>c cs'. cs = c # cs' \<Longrightarrow> b < idx + length c"
    and "\<not> suffix_started st" and "removed_chars st + length cs \<le> usize_max"
    and "[] \<notin> set cs"
  shows "foldl (split_step b t) st (char_indices_from idx cs) =
    (let k = starting_before (t - idx) cs
     in st\<lparr>suffix_start := (if k < length cs then idx + bytes_of (take k cs) else suffix_start st),
           suffix_started := (k < length cs),
           removed_chars := removed_chars st + k\<rparr>)"
  using assms
proof (induction idx cs arbitrary: st rule: char_indices_from.induct)
  case (1 idx)
  then show ?case by simp
next
  case (2 idx c cs)
  have b: "b < idx + length c" and c: "0 < length c" using 2(2,5) by auto
  show ?case
  proof (cases "t \<le> idx")
    case True
    have "foldl (split_step b t) (st\<lparr>suffix_start := idx, suffix_started := True\<rparr>)
        (char_indices_from (idx + length c) cs) = st\<lparr>suffix_start := idx, suffix_started := True\<rparr>"
      using True b by (intro split_after_start) auto
    moreover have "split_step b t st (idx, c) = st\<lparr>suffix_start := idx, suffix_started := True\<rparr>"
      using True b 2(3) by (simp add: split_step_def)
    ultimately show ?thesis using True by simp
  next
    case False
    let ?st = "st\<lparr>removed_chars := removed_chars st + 1\<rparr>"
    have "foldl (split_step b t) ?st (char_indices_from (idx + length c) cs) =
      (let k = starting_before (t - (idx + length c)) cs
       in ?st\<lparr>suffix_start := (if k < length cs then (idx + length c) + bytes_of (take k cs)
                               else suffix_start ?st),
             suffix_started := (k < length cs),
             removed_chars := removed_chars ?st + k\<rparr>)"
      using 2(2-5) b by (intro 2(1)) auto
    moreover have "split_step b t st (idx, c) = ?st"
      using False b 2(4) by (simp add: split_step_def sat_add_def)
    ultimately show ?thesis using False by (simp add: Let_def add.assoc)
  qed
qed

lemma split_prefix:
  assumes "prefix_end st = idx" "idx \<le> b"
  shows "foldl (split_step b t) st (char_indices_from idx cs) =
    (let n = fitting (b - idx) cs; o' = idx + bytes_of (take n cs)
     in foldl (split_step b t) (st\<lparr>prefix_end := o'\<rparr>) (char_indices_from o' (drop n cs)))"
  using assms
proof (induction idx cs arbitrary: st rule: char_indices_from.induct)
  case (2 idx c cs)
  show ?case
  proof (cases "idx + length c \<le> b")
    case True
    have "foldl (split_step b t) (st\<lparr>prefix_end := idx + length c\<rparr>) (char_indices_from (idx + length c) cs) =
      (let n = fitting (b - (idx + length c)) cs; o' = (idx + length c) + bytes_of (take n cs)
       in foldl (split_step b t) (st\<lparr>prefix_end := o'\<rparr>) (char_indices_from o' (drop n cs)))"
      using 2(1)[of "st\<lparr>prefix_end := idx + length c\<rparr>"] True by (simp add: Let_def)
    moreover have "split_step b t st (idx, c) = st\<lparr>prefix_end := idx + length c\<rparr>"
      using True by (simp add: split_step_def)
    ultimately show ?thesis using True by (simp add: Let_def add.assoc)
  next
    case False
    with 2(3) have "\<not> length c \<le> b - idx" by arith
    with 2(2) show ?thesis by auto
  qed
qed simp

lemma chars_nonempty: "[] \<notin> set (chars s)"
  by (induction s rule: chars.induct) auto

lemma length_chars: "length (chars s) \<le> length s"
proof -
  have "length cs \<le> bytes_of cs" if "[] \<notin> set cs" for cs :: "string list"
    using that
  proof (induction cs)
    case (Cons c cs)
    then have "0 < length c" "length cs \<le> bytes_of cs" by auto
    then have "Suc (length cs) \<le> length c + bytes_of cs" by linarith
    then show ?case by simp
  qed simp
  from this[OF chars_nonempty] show ?thesis by simp
qed

lemma bytes_take_drop: "bytes_of (take n cs) + bytes_of (drop n cs) = bytes_of cs"
  by (metis append_take_drop_id concat_append length_append)

lemma take_bytes_take: "take (bytes_of (take n cs)) (concat cs) = concat (take n cs)"
  by (metis append_eq_conv_conj append_take_drop_id concat_append)

lemma drop_bytes_take: "drop (bytes_of (take n cs)) (concat cs) = concat (drop n cs)"
  by (metis append_eq_conv_conj append_take_drop_id concat_append)

lemma last_boundary_fitting:
  "idx \<le> m \<Longrightarrow> last_boundary m idx (char_indices_from idx cs) = idx + bytes_of (take (fitting (m - idx) cs) cs)"
proof (induction idx cs rule: char_indices_from.induct)
  case (2 idx c cs)
  show ?case
  proof (cases "idx + length c \<le> m")
    case True
    with 2 show ?thesis by (simp add: Let_def)
  next
    case False
    with 2(2) have "\<not> length c \<le> m - idx" by arith
    with False show ?thesis by (simp add: Let_def)
  qed
qed simp

lemma fitting_all: "bytes_of cs \<le> m \<Longrightarrow> fitting m cs = length cs"
  by (induction m cs rule: fitting.induct) auto

text \<open>The longest run of whole code points at the start that fits.\<close>

lemma take_bytes_is_fitting:
  "take_bytes_at_char_boundary s m = concat (take (fitting m (chars s)) (chars s))"
  using last_boundary_fitting[of 0 m "chars s"] take_bytes_take[of "fitting m (chars s)" "chars s"]
    fitting_all[of "chars s" m]
  by (simp add: take_bytes_at_char_boundary_def char_indices_def)

text \<open>
  Both slices end at code points: the first \<open>n\<close> of them and the ones from the \<open>k\<close>-th, where the \<open>n\<close>
  ones fit into the first budget and the ones from the \<open>k\<close>-th start in the tail.
\<close>

lemma split_string_spec:
  fixes b e :: nat
  assumes "s \<noteq> []" "length s \<le> usize_max"
  defines "cs \<equiv> chars s"
  defines "n \<equiv> fitting b cs"
  defines "k \<equiv> n + starting_before (length s - e - bytes_of (take n cs)) (drop n cs)"
  shows "split_string s b e = (k - n, concat (take n cs), concat (drop k cs))"
proof -
  let ?t = "length s - e" and ?o = "bytes_of (take n cs)"
  let ?m = "starting_before (?t - ?o) (drop n cs)"
  let ?init = "\<lparr>prefix_end = 0, suffix_start = length s, removed_chars = 0, suffix_started = False\<rparr>"
  have cs: "concat cs = s" and len: "length cs \<le> usize_max"
    using length_chars[of s] assms(2) by (simp_all add: cs_def)
  have next': "b < ?o + length c" if "drop n cs = c # cs'" for c cs'
  proof -
    from that have "n < length cs" by (metis drop_all list.distinct(1) not_le)
    then have "b < bytes_of (take (Suc n) cs)" using fitting_maximal[of b cs] by (simp add: n_def)
    moreover have "take (Suc n) cs = take n cs @ [c]"
      using that \<open>n < length cs\<close> by (metis Cons_nth_drop_Suc list.inject take_Suc_conv_app_nth)
    ultimately show ?thesis by simp
  qed
  have ne: "[] \<notin> set (drop n cs)"
    using chars_nonempty[of s] by (auto simp: cs_def dest: in_set_dropD)
  have "foldl (split_step b ?t) ?init (char_indices s)
      = foldl (split_step b ?t) (?init\<lparr>prefix_end := ?o\<rparr>) (char_indices_from ?o (drop n cs))"
    using split_prefix[of ?init 0 b ?t cs] by (simp add: char_indices_def cs_def n_def Let_def)
  also have "\<dots> = (let k = ?m
     in (?init\<lparr>prefix_end := ?o\<rparr>)\<lparr>suffix_start := (if k < length (drop n cs) then ?o + bytes_of (take k (drop n cs))
                                                   else length s),
           suffix_started := (k < length (drop n cs)), removed_chars := k\<rparr>)"
    using len ne next' by (subst split_after_prefix) (auto simp: Let_def)
  finally have fold: "foldl (split_step b ?t) ?init (char_indices s) =
      \<lparr>prefix_end = ?o, suffix_start = (if ?m < length (drop n cs) then ?o + bytes_of (take ?m (drop n cs)) else length s),
       removed_chars = ?m, suffix_started = (?m < length (drop n cs))\<rparr>"
    by (simp add: Let_def)
  have split: "take (n + ?m) cs = take n cs @ take ?m (drop n cs)" by (rule take_add)
  have suf: "(if ?m < length (drop n cs) then ?o + bytes_of (take ?m (drop n cs)) else length s)
      = bytes_of (take k cs)"
  proof (cases "?m < length (drop n cs)")
    case False
    then have "length cs \<le> k" using fitting_le[of b cs] by (simp add: k_def n_def)
    then show ?thesis using False cs by simp
  qed (simp add: split k_def del: diff_diff_left)
  have "?o \<le> bytes_of (take k cs)" by (simp add: split k_def del: diff_diff_left)
  moreover have "k - n = ?m" by (simp add: k_def)
  ultimately show ?thesis
    using assms(1) take_bytes_take[of n cs] drop_bytes_take[of k cs] cs
    unfolding split_string_def Let_def fold[unfolded suf] by (simp del: diff_diff_left)
qed

lemma split_string_ends:
  fixes m :: nat
  assumes "m < length s" "length s \<le> usize_max"
  obtains n k where "n < k" "k \<le> length (chars s)"
    "split_string s (m div 2) (m - m div 2) = (k - n, concat (take n (chars s)), concat (drop k (chars s)))"
    "bytes_of (take n (chars s)) \<le> m div 2" "m div 2 < bytes_of (take (Suc n) (chars s))"
    "bytes_of (drop k (chars s)) \<le> m - m div 2" "m - m div 2 < bytes_of (drop (k - 1) (chars s))"
proof -
  let ?cs = "chars s" and ?b = "m div 2" and ?e = "m - m div 2"
  define n where "n = fitting ?b ?cs"
  define o' where "o' = bytes_of (take n ?cs)"
  define j where "j = starting_before (length s - ?e - o') (drop n ?cs)"
  have fits: "o' \<le> ?b" by (simp add: n_def o'_def fitting_fits)
  have target: "?b < length s - ?e" using assms(1) by linarith
  have len: "bytes_of (take i ?cs) + bytes_of (drop i ?cs) = length s" for i
    using bytes_take_drop[of i ?cs] by simp
  have add: "bytes_of (take (n + i) ?cs) = o' + bytes_of (take i (drop n ?cs))" for i
    by (simp add: take_add o'_def)
  have n: "n < length ?cs"
  proof (rule ccontr)
    assume "\<not> n < length ?cs"
    then have "o' = length s" by (simp add: o'_def)
    with fits target show False by linarith
  qed
  then obtain c cs where "drop n ?cs = c # cs" by (metis Cons_nth_drop_Suc)
  then have j: "0 < j" using target fits by (simp add: j_def)
  have bound: "n + j \<le> length ?cs"
    using n starting_before_le[of "length s - ?e - o'" "drop n ?cs"] by (simp add: j_def del: diff_diff_left)
  have suf: "bytes_of (drop (n + j) ?cs) \<le> ?e"
  proof (cases "j < length (drop n ?cs)")
    case True
    then have "length s - ?e - o' \<le> bytes_of (take j (drop n ?cs))"
      unfolding j_def by (rule starting_before_reaches)
    with add[of j] len[of "n + j"] show ?thesis by linarith
  next
    case False
    then show ?thesis by simp
  qed
  have "bytes_of (take (j - 1) (drop n ?cs)) < length s - ?e - o'"
    by (rule starting_before_minimal) (use j in \<open>simp add: j_def del: diff_diff_left\<close>)
  moreover have "n + j - 1 = n + (j - 1)" using j by simp
  ultimately have last: "?e < bytes_of (drop (n + j - 1) ?cs)"
    using add[of "j - 1"] len[of "n + j - 1"] by (simp del: diff_diff_left) linarith
  show ?thesis
  proof (rule that[of n "n + j"])
    have "s \<noteq> []" using assms(1) by auto
    from split_string_spec[OF this assms(2), of ?b ?e]
    show "split_string s ?b ?e = (n + j - n, concat (take n ?cs), concat (drop (n + j) ?cs))"
      by (simp add: n_def j_def o'_def)
    show "?b < bytes_of (take (Suc n) ?cs)"
      using n unfolding n_def by (rule fitting_maximal)
  qed (use j bound fits suf last in \<open>simp_all add: o'_def\<close>)
qed

text \<open>C37: truncation at the budget. A text longer than the budget keeps the longest
  run of whole code points at its start that fits into half of the budget and the longest such run at
  its end that fits into the rest; between them stands one marker, with exactly the number of
  code points that were removed or, for token budgets, the excess in bytes over four rounded up.
  At least one code point is removed, and no code point is cut in two.\<close>

theorem truncation_keeps_ends:
  assumes "0 < max_bytes" "max_bytes < length s" "length s < 2 ^ 63"
  shows "\<exists>n k. n < k \<and> k \<le> length (chars s) \<and>
    truncate_with_byte_estimate s max_bytes use_tokens =
      concat (take n (chars s))
      @ format_truncation_marker use_tokens (if use_tokens then (length s - max_bytes + 3) div 4 else k - n)
      @ concat (drop k (chars s)) \<and>
    length (concat (take n (chars s))) \<le> max_bytes div 2 \<and>
    max_bytes div 2 < length (concat (take (Suc n) (chars s))) \<and>
    length (concat (drop k (chars s))) \<le> max_bytes - max_bytes div 2 \<and>
    max_bytes - max_bytes div 2 < length (concat (drop (k - 1) (chars s)))"
proof -
  have "length s \<le> usize_max" using assms(3) by (simp add: usize_max_def)
  from split_string_ends[OF assms(2) this] obtain n k where nk: "n < k" "k \<le> length (chars s)"
    and split: "split_string s (max_bytes div 2) (max_bytes - max_bytes div 2) =
      (k - n, concat (take n (chars s)), concat (drop k (chars s)))"
    and ends: "bytes_of (take n (chars s)) \<le> max_bytes div 2"
      "max_bytes div 2 < bytes_of (take (Suc n) (chars s))"
      "bytes_of (drop k (chars s)) \<le> max_bytes - max_bytes div 2"
      "max_bytes - max_bytes div 2 < bytes_of (drop (k - 1) (chars s))" by blast
  have tokens: "approx_tokens_from_byte_count (length s - max_bytes) = (length s - max_bytes + 3) div 4"
    using assms by (simp add: approx_tokens_from_byte_count_def sat_add_def usize_max_def
        APPROX_BYTES_PER_TOKEN_def)
  have "truncate_with_byte_estimate s max_bytes use_tokens =
      concat (take n (chars s))
      @ format_truncation_marker use_tokens (if use_tokens then (length s - max_bytes + 3) div 4 else k - n)
      @ concat (drop k (chars s))"
    using assms split tokens
    by (auto simp: truncate_with_byte_estimate_def split_budget_def Let_def removed_units_def
        assemble_truncated_output_def)
  with nk ends show ?thesis by blast
qed

theorem truncation_keeps_ends_witness:
  "\<exists>n k. n < k \<and> k \<le> length (chars ''0123456789'') \<and>
    truncate_with_byte_estimate ''0123456789'' 5 True =
      concat (take n (chars ''0123456789''))
      @ format_truncation_marker True (if True then (length ''0123456789'' - 5 + 3) div 4 else k - n)
      @ concat (drop k (chars ''0123456789'')) \<and>
    length (concat (take n (chars ''0123456789''))) \<le> 5 div 2 \<and>
    5 div 2 < length (concat (take (Suc n) (chars ''0123456789''))) \<and>
    length (concat (drop k (chars ''0123456789''))) \<le> 5 - 5 div 2 \<and>
    5 - 5 div 2 < length (concat (drop (k - 1) (chars ''0123456789'')))"
  by (rule truncation_keeps_ends) simp_all

section \<open>What truncated items cost\<close>

lemma length_show_nat: "n < 10 ^ Suc k \<Longrightarrow> length (show_nat n) \<le> Suc k"
proof (induction k arbitrary: n)
  case 0
  then show ?case by (simp add: show_nat.simps)
next
  case (Suc k)
  then have "n div 10 < 10 ^ Suc k" by (simp add: less_mult_imp_div_less)
  from Suc.IH[OF this] show ?case by (subst show_nat.simps) simp
qed

lemma length_marker:
  assumes "n \<le> usize_max"
  shows "length (format_truncation_marker use_tokens n) \<le> 43"
proof -
  have "length (show_nat n) \<le> 20"
    using length_show_nat[of n 19] assms by (simp add: usize_max_def)
  then show ?thesis by (simp add: format_truncation_marker_def ellipsis_def)
qed

lemma marker_nonempty [simp]: "format_truncation_marker use_tokens n \<noteq> []"
  by (simp add: format_truncation_marker_def ellipsis_def)

lemma truncated_length:
  assumes "0 < m" "m < length s" "length s < 2 ^ 63"
  shows "length (truncate_with_byte_estimate s m use_tokens) \<le> m + 43"
    and "truncate_with_byte_estimate s m use_tokens \<noteq> []"
proof -
  have "length s \<le> usize_max" using assms(3) by (simp add: usize_max_def)
  from split_string_ends[OF assms(2) this] obtain n k where nk: "n < k" "k \<le> length (chars s)"
    and split: "split_string s (m div 2) (m - m div 2) =
      (k - n, concat (take n (chars s)), concat (drop k (chars s)))"
    and ends: "bytes_of (take n (chars s)) \<le> m div 2" "bytes_of (drop k (chars s)) \<le> m - m div 2"
    by blast
  let ?r = "removed_units use_tokens (length s - m) (k - n)"
  have out: "truncate_with_byte_estimate s m use_tokens =
      concat (take n (chars s)) @ format_truncation_marker use_tokens ?r @ concat (drop k (chars s))"
    using assms split
    by (auto simp: truncate_with_byte_estimate_def split_budget_def Let_def assemble_truncated_output_def)
  have "k - n \<le> usize_max" using nk length_chars[of s] \<open>length s \<le> usize_max\<close> by linarith
  moreover have "approx_tokens_from_byte_count b \<le> usize_max" for b
    by (simp add: approx_tokens_from_byte_count_def sat_add_def APPROX_BYTES_PER_TOKEN_def usize_max_def
        div_le_mono le_trans[OF div_le_dividend])
  ultimately have "?r \<le> usize_max" by (simp add: removed_units_def)
  from length_marker[OF this, of use_tokens] ends
  show "length (truncate_with_byte_estimate s m use_tokens) \<le> m + 43" by (simp add: out)
  show "truncate_with_byte_estimate s m use_tokens \<noteq> []" by (simp add: out)
qed

text \<open>An item that is cut to the remaining budget costs at most that budget and the marker.\<close>

lemma snippet_cost:
  assumes "0 < r" "r < text_cost policy t" "length t < 2 ^ 63"
  shows "text_cost policy (truncate_text t (snippet_policy policy r)) \<le> r + 43"
    and "truncate_text t (snippet_policy policy r) \<noteq> []"
proof -
  have tok: "approx_token_count u = (length u + 3) div 4" if "length u < 2 ^ 63 + 2 ^ 62" for u
    using that by (simp add: approx_token_count_def sat_add_def usize_max_def APPROX_BYTES_PER_TOKEN_def)
  have "text_cost policy (truncate_text t (snippet_policy policy r)) \<le> r + 43 \<and>
    truncate_text t (snippet_policy policy r) \<noteq> []"
  proof (cases policy)
    case (Bytes b)
    with assms truncated_length[of r t False] show ?thesis
      by (simp add: text_cost_def snippet_policy_def truncate_middle_chars_def)
  next
    case (Tokens b)
    have long: "4 * r < length t" using assms(2,3) Tokens tok[of t] by (simp add: text_cost_def)
    have bytes: "approx_bytes_for_tokens r = 4 * r"
      using long assms(3) by (simp add: approx_bytes_for_tokens_def sat_mul_def usize_max_def APPROX_BYTES_PER_TOKEN_def)
    let ?u = "truncate_with_byte_estimate t (4 * r) True"
    have u: "truncate_text t (Tokens r) = ?u"
      using long assms(1) by (auto simp: truncate_middle_with_token_budget_def bytes Let_def)
    have len: "length ?u \<le> 4 * r + 43" and "?u \<noteq> []"
      using truncated_length[of "4 * r" t True] long assms(1,3) by simp_all
    have "approx_token_count ?u = (length ?u + 3) div 4"
      using len long assms(3) by (intro tok) simp
    also have "\<dots> \<le> (4 * r + 46) div 4" using len by (intro div_le_mono) simp
    finally show ?thesis using \<open>?u \<noteq> []\<close> by (simp add: Tokens text_cost_def snippet_policy_def u [unfolded truncate_text.simps])
  qed
  then show "text_cost policy (truncate_text t (snippet_policy policy r)) \<le> r + 43"
    "truncate_text t (snippet_policy policy r) \<noteq> []" by simp_all
qed

text \<open>The cost of an item, and the items that truncation counts: texts, audio, and the rest, which is free.\<close>

fun item_cost :: "truncation_policy \<Rightarrow> (string \<Rightarrow> nat) \<Rightarrow> output_item \<Rightarrow> nat" where
  "item_cost policy estimate (InputText t) = text_cost policy t"
| "item_cost policy estimate (InputAudio url) = audio_cost policy estimate url"
| "item_cost policy estimate i = 0"

definition is_text :: "output_item \<Rightarrow> bool" where
  "is_text i \<longleftrightarrow> (case i of InputText t \<Rightarrow> t \<noteq> [] | _ \<Rightarrow> False)"

definition is_audio :: "output_item \<Rightarrow> bool" where
  "is_audio i \<longleftrightarrow> (case i of InputAudio u \<Rightarrow> True | _ \<Rightarrow> False)"

definition is_media :: "output_item \<Rightarrow> bool" where
  "is_media i \<longleftrightarrow> (case i of InputImage r d \<Rightarrow> True | EncryptedContent e \<Rightarrow> True | _ \<Rightarrow> False)"

lemmas item_kind_defs = is_text_def is_audio_def is_media_def

definition count_items :: "(output_item \<Rightarrow> bool) \<Rightarrow> output_item list \<Rightarrow> nat" where
  "count_items P items = length (filter P items)"

lemma count_items_append [simp]: "count_items P (xs @ ys) = count_items P xs + count_items P ys"
  by (simp add: count_items_def)

lemma count_items_Nil [simp]: "count_items P [] = 0"
  by (simp add: count_items_def)

lemma count_items_Cons [simp]: "count_items P (x # xs) = (if P x then 1 else 0) + count_items P xs"
  by (simp add: count_items_def)

definition cost_of :: "truncation_policy \<Rightarrow> (string \<Rightarrow> nat) \<Rightarrow> output_item list \<Rightarrow> nat" where
  "cost_of policy estimate items = sum_list (map (item_cost policy estimate) items)"

lemma cost_of_simps [simp]:
  "cost_of policy estimate [] = 0"
  "cost_of policy estimate (i # is) = item_cost policy estimate i + cost_of policy estimate is"
  "cost_of policy estimate (xs @ ys) = cost_of policy estimate xs + cost_of policy estimate ys"
  by (simp_all add: cost_of_def)

text \<open>
  While items are added, every text and every audio item is either among the output or counted as
  omitted, and the output with what remains of the budget costs no more than the budget; once a text
  was cut, nothing remains, and the marker comes on top.
\<close>

definition items_account :: "truncation_policy \<Rightarrow> (string \<Rightarrow> nat) \<Rightarrow> output_item list \<Rightarrow> items_state \<Rightarrow> bool" where
  "items_account policy estimate items st \<longleftrightarrow>
     filter is_media (out_items st) = filter is_media items \<and>
     omitted_text_items st + count_items is_text (out_items st) = count_items is_text items \<and>
     omitted_audio_items st + count_items is_audio (out_items st) = count_items is_audio items \<and>
     (cost_of policy estimate (out_items st) + remaining_budget st \<le> items_budget policy \<and>
        set (out_items st) \<subseteq> set items \<or>
      remaining_budget st = 0 \<and> cost_of policy estimate (out_items st) \<le> items_budget policy + 43 \<and>
        count_items (\<lambda>i. i \<notin> set items) (out_items st) \<le> 1)"

lemma count_items_mono: "set xs \<subseteq> set ys \<Longrightarrow> count_items (\<lambda>i. i \<notin> set ys) zs \<le> count_items (\<lambda>i. i \<notin> set xs) zs"
  by (induction zs) auto

lemma count_items_zero: "set zs \<subseteq> set xs \<Longrightarrow> count_items (\<lambda>i. i \<notin> set xs) zs = 0"
  by (induction zs) auto

lemma items_account_step:
  assumes acc: "items_account policy estimate items st"
    and small: "\<And>t. i = InputText t \<Longrightarrow> length t < 2 ^ 63"
  shows "items_account policy estimate (items @ [i]) (items_step policy estimate st i)"
proof -
  have mono: "count_items (\<lambda>j. j \<notin> set (items @ [i])) zs \<le> count_items (\<lambda>j. j \<notin> set items) zs" for zs
    by (rule count_items_mono) auto
  note fewer = mono[of "out_items st", simplified]
  show ?thesis
  proof (cases i)
    case (InputText t)
    show ?thesis
    proof (cases "t = [] \<or> remaining_budget st = 0 \<or> text_cost policy t \<le> remaining_budget st")
      case True
      then show ?thesis using acc fewer unfolding items_account_def InputText
        by (auto simp: item_kind_defs Let_def)
    next
      case False
      then have cut: "0 < remaining_budget st" "remaining_budget st < text_cost policy t" "t \<noteq> []" by auto
      note snip = snippet_cost[OF cut(1,2) small[OF InputText]]
      have zero: "set (out_items st) \<subseteq> set items"
        and left: "cost_of policy estimate (out_items st) + remaining_budget st \<le> items_budget policy"
        using acc cut(1) by (auto simp: items_account_def)
      have "count_items (\<lambda>j. j \<notin> set (items @ [i])) (out_items st) = 0"
        by (rule count_items_zero) (use zero in auto)
      then show ?thesis using acc cut snip left unfolding items_account_def InputText
        by (simp add: item_kind_defs Let_def)
    qed
  next
    case (InputImage r d)
    then show ?thesis using acc fewer by (auto simp: items_account_def item_kind_defs)
  next
    case (InputAudio u)
    then show ?thesis using acc fewer by (auto simp: items_account_def item_kind_defs Let_def)
  next
    case (EncryptedContent e)
    then show ?thesis using acc fewer by (auto simp: items_account_def item_kind_defs)
  qed
qed

lemma items_account_fold:
  assumes "\<forall>t. InputText t \<in> set items \<longrightarrow> length t < 2 ^ 63"
  shows "items_account policy estimate items (foldl (items_step policy estimate) (items_start policy) items)"
  using assms
proof (induction items rule: rev_induct)
  case Nil
  show ?case by (simp add: items_account_def items_start_def)
next
  case (snoc i items)
  then show ?case by (simp add: items_account_step)
qed

lemma text_cost_zero [simp]: "text_cost policy t = 0 \<longleftrightarrow> t = []"
proof (cases t)
  case Nil
  then show ?thesis
    by (simp add: text_cost_def approx_token_count_def sat_add_def usize_max_def
        APPROX_BYTES_PER_TOKEN_def split: truncation_policy.split)
next
  case (Cons c u)
  then have "4 \<le> sat_add (length t) 3" by (simp add: sat_add_def usize_max_def)
  then have "0 < sat_add (length t) 3 div 4" by (simp only: div_greater_zero_iff) simp
  with Cons show ?thesis
    by (simp add: text_cost_def approx_token_count_def APPROX_BYTES_PER_TOKEN_def
        split: truncation_policy.split)
qed

lemma text_cost_Nil [simp]: "text_cost policy [] = 0"
  by simp

text \<open>Items that are affordable stay as they are, but for empty texts.\<close>

lemma affordable_items_kept:
  assumes "cost_of policy estimate items \<le> items_budget policy"
  shows "truncate_function_output_items_with_policy items policy estimate = filter (\<lambda>i. i \<noteq> InputText []) items"
proof -
  have "foldl (items_step policy estimate) (items_start policy) items =
      \<lparr>out_items = filter (\<lambda>i. i \<noteq> InputText []) items,
       remaining_budget = items_budget policy - cost_of policy estimate items,
       omitted_text_items = 0, omitted_audio_items = 0\<rparr>"
    using assms
  proof (induction items rule: rev_induct)
    case Nil
    show ?case by (simp add: items_start_def)
  next
    case (snoc i items)
    then have cost: "item_cost policy estimate i \<le> items_budget policy - cost_of policy estimate items"
      and fold: "foldl (items_step policy estimate) (items_start policy) items =
      \<lparr>out_items = filter (\<lambda>i. i \<noteq> InputText []) items,
       remaining_budget = items_budget policy - cost_of policy estimate items,
       omitted_text_items = 0, omitted_audio_items = 0\<rparr>" by auto
    show ?case using cost by (cases i) (auto simp: fold Let_def)
  qed
  then show ?thesis
    by (simp add: truncate_function_output_items_with_policy_def Let_def omission_note_def)
qed

lemma fitting_text_kept: "length content \<le> byte_budget policy \<Longrightarrow> truncate_text content policy = content"
  by (cases policy)
    (auto simp: truncate_middle_chars_def truncate_with_byte_estimate_def Let_def
      truncate_middle_with_token_budget_def approx_bytes_for_tokens_def sat_mul_def)

text \<open>Truncating a list of output items accounts for every item. Images and encrypted items stay,
  in order; every non-empty text and every audio item either is in the result or is counted in one of
  the two notes at its end, with the exact number; the result without the notes costs at most
  the budget and the 43 bytes of one marker, and at most one of its items is not one of the given ones.
  When the given items are affordable, nothing but the empty texts is left out.\<close>

theorem truncated_items_accounted:
  assumes "\<forall>t. InputText t \<in> set items \<longrightarrow> length t < 2 ^ 63"
  shows "(\<exists>body nt na.
      truncate_function_output_items_with_policy items policy estimate =
        body @ omission_note nt ''text'' @ omission_note na ''audio'' \<and>
      filter is_media body = filter is_media items \<and>
      nt + count_items is_text body = count_items is_text items \<and>
      na + count_items is_audio body = count_items is_audio items \<and>
      cost_of policy estimate body \<le> items_budget policy + 43 \<and>
      count_items (\<lambda>i. i \<notin> set items) body \<le> 1) \<and>
    (cost_of policy estimate items \<le> items_budget policy \<longrightarrow>
      truncate_function_output_items_with_policy items policy estimate = filter (\<lambda>i. i \<noteq> InputText []) items)"
proof (intro conjI impI)
  let ?st = "foldl (items_step policy estimate) (items_start policy) items"
  have acc: "items_account policy estimate items ?st" by (rule items_account_fold[OF assms])
  moreover from acc have "count_items (\<lambda>i. i \<notin> set items) (out_items ?st) \<le> 1"
    using count_items_zero[of "out_items ?st" items] by (auto simp: items_account_def)
  ultimately show "\<exists>body nt na.
      truncate_function_output_items_with_policy items policy estimate =
        body @ omission_note nt ''text'' @ omission_note na ''audio'' \<and>
      filter is_media body = filter is_media items \<and>
      nt + count_items is_text body = count_items is_text items \<and>
      na + count_items is_audio body = count_items is_audio items \<and>
      cost_of policy estimate body \<le> items_budget policy + 43 \<and>
      count_items (\<lambda>i. i \<notin> set items) body \<le> 1"
    by (intro exI[of _ "out_items ?st"] exI[of _ "omitted_text_items ?st"] exI[of _ "omitted_audio_items ?st"])
      (auto simp: items_account_def truncate_function_output_items_with_policy_def Let_def)
qed (rule affordable_items_kept)

theorem truncated_items_accounted_witness:
  "(\<exists>body nt na.
      truncate_function_output_items_with_policy [InputText ''abcd'', InputText ''efgh''] (Bytes 6) length =
        body @ omission_note nt ''text'' @ omission_note na ''audio'' \<and>
      nt + count_items is_text body = count_items is_text [InputText ''abcd'', InputText ''efgh''] \<and>
      cost_of (Bytes 6) length body \<le> items_budget (Bytes 6) + 43)"
proof -
  have "\<forall>t. InputText t \<in> set [InputText ''abcd'', InputText ''efgh''] \<longrightarrow> length t < 2 ^ 63" by simp
  from truncated_items_accounted[OF this, of "Bytes 6" length] show ?thesis by blast
qed

end
