(* ===== verification/Network_Host.thy ===== *)
theory Network_Host
  imports Ava_Prelude "HOL-Library.Word"
begin

unbundle bit_operations_syntax

text \<open>
  Hosts and addresses as the network proxy sees them, the first half of
  \<^verbatim>\<open>network-proxy/src/policy.rs\<close>: which addresses are public, and the normal form of host names and
  address literals. Addresses are words of 32 and 128 bits. The parser of \<open>IpAddr::from_str\<close> in the
  standard library is written out.
\<close>

section \<open>Addresses\<close>

type_synonym ipv4 = "32 word"
type_synonym ipv6 = "128 word"

datatype ip_addr = V4 ipv4 | V6 ipv6

definition octet :: "nat \<Rightarrow> ipv4 \<Rightarrow> nat" where
  "octet k ip = unat ip div 256 ^ (3 - k) mod 256"

definition ipv4_of_octets :: "nat list \<Rightarrow> ipv4" where
  "ipv4_of_octets os = of_nat (foldl (\<lambda>a b. a * 256 + b) 0 os)"

definition ipv6_of_segments :: "nat list \<Rightarrow> ipv6" where
  "ipv6_of_segments ss = of_nat (foldl (\<lambda>a b. a * 65536 + b) 0 ss)"

text \<open>The classification methods of \<open>Ipv4Addr\<close> and \<open>Ipv6Addr\<close>.\<close>

definition v4_is_loopback :: "ipv4 \<Rightarrow> bool" where
  "v4_is_loopback ip \<longleftrightarrow> octet 0 ip = 127"

definition v4_is_private :: "ipv4 \<Rightarrow> bool" where
  "v4_is_private ip \<longleftrightarrow>
     octet 0 ip = 10 \<or> (octet 0 ip = 172 \<and> 16 \<le> octet 1 ip \<and> octet 1 ip \<le> 31) \<or>
     (octet 0 ip = 192 \<and> octet 1 ip = 168)"

definition v4_is_link_local :: "ipv4 \<Rightarrow> bool" where
  "v4_is_link_local ip \<longleftrightarrow> octet 0 ip = 169 \<and> octet 1 ip = 254"

definition v4_is_unspecified :: "ipv4 \<Rightarrow> bool" where
  "v4_is_unspecified ip \<longleftrightarrow> ip = 0"

definition v4_is_multicast :: "ipv4 \<Rightarrow> bool" where
  "v4_is_multicast ip \<longleftrightarrow> 224 \<le> octet 0 ip \<and> octet 0 ip \<le> 239"

definition v4_is_broadcast :: "ipv4 \<Rightarrow> bool" where
  "v4_is_broadcast ip \<longleftrightarrow> ip = - 1"

definition first_segment :: "ipv6 \<Rightarrow> 16 word" where
  "first_segment ip = ucast (drop_bit 112 ip)"

definition v6_is_loopback :: "ipv6 \<Rightarrow> bool" where
  "v6_is_loopback ip \<longleftrightarrow> ip = 1"

definition v6_is_unspecified :: "ipv6 \<Rightarrow> bool" where
  "v6_is_unspecified ip \<longleftrightarrow> ip = 0"

definition v6_is_multicast :: "ipv6 \<Rightarrow> bool" where
  "v6_is_multicast ip \<longleftrightarrow> first_segment ip AND 0xFF00 = 0xFF00"

definition v6_is_unique_local :: "ipv6 \<Rightarrow> bool" where
  "v6_is_unique_local ip \<longleftrightarrow> first_segment ip AND 0xFE00 = 0xFC00"

definition v6_is_unicast_link_local :: "ipv6 \<Rightarrow> bool" where
  "v6_is_unicast_link_local ip \<longleftrightarrow> first_segment ip AND 0xFFC0 = 0xFE80"

text \<open>\<open>Ipv6Addr::to_ipv4\<close>: the addresses \<open>::a.b.c.d\<close> and \<open>::ffff:a.b.c.d\<close>.\<close>

definition to_ipv4 :: "ipv6 \<Rightarrow> ipv4 option" where
  "to_ipv4 ip = (if drop_bit 32 ip = 0 \<or> drop_bit 32 ip = 0xFFFF then Some (ucast ip) else None)"

fun ip_is_loopback :: "ip_addr \<Rightarrow> bool" where
  "ip_is_loopback (V4 ip) = v4_is_loopback ip"
| "ip_is_loopback (V6 ip) = v6_is_loopback ip"

section \<open>Public addresses\<close>

definition ipv4_in_cidr :: "ipv4 \<Rightarrow> nat list \<Rightarrow> nat \<Rightarrow> bool" where
  "ipv4_in_cidr ip base pfx =
     (let b = ipv4_of_octets base;
          m = (if pfx = 0 then 0 else push_bit (32 - pfx) (- 1))
      in ip AND m = b AND m)"

definition is_non_public_ipv4 :: "ipv4 \<Rightarrow> bool" where
  "is_non_public_ipv4 ip \<longleftrightarrow>
     v4_is_loopback ip \<or> v4_is_private ip \<or> v4_is_link_local ip \<or> v4_is_unspecified ip \<or>
     v4_is_multicast ip \<or> v4_is_broadcast ip \<or>
     ipv4_in_cidr ip [0, 0, 0, 0] 8 \<or>
     ipv4_in_cidr ip [100, 64, 0, 0] 10 \<or>
     ipv4_in_cidr ip [192, 0, 0, 0] 24 \<or>
     ipv4_in_cidr ip [192, 0, 2, 0] 24 \<or>
     ipv4_in_cidr ip [198, 18, 0, 0] 15 \<or>
     ipv4_in_cidr ip [198, 51, 100, 0] 24 \<or>
     ipv4_in_cidr ip [203, 0, 113, 0] 24 \<or>
     ipv4_in_cidr ip [240, 0, 0, 0] 4"

definition is_non_public_ipv6 :: "ipv6 \<Rightarrow> bool" where
  "is_non_public_ipv6 ip =
     (case to_ipv4 ip of
        Some v4 \<Rightarrow> is_non_public_ipv4 v4 \<or> v6_is_loopback ip
      | None \<Rightarrow> v6_is_loopback ip \<or> v6_is_unspecified ip \<or> v6_is_multicast ip \<or>
                v6_is_unique_local ip \<or> v6_is_unicast_link_local ip)"

fun is_non_public_ip :: "ip_addr \<Rightarrow> bool" where
  "is_non_public_ip (V4 ip) = is_non_public_ipv4 ip"
| "is_non_public_ip (V6 ip) = is_non_public_ipv6 ip"

section \<open>Parsing address literals\<close>

text \<open>
  \<open>core::net::parser\<close>: a reader takes the remaining input and returns a value and what is left. A
  number reads every digit there is and fails on too many of them.
\<close>

definition digit_of :: "nat \<Rightarrow> char \<Rightarrow> nat option" where
  "digit_of radix c =
     (let v = (if is_ascii_digit c then Some ((of_char c :: nat) - 48)
               else if is_ascii_lowercase c then Some ((of_char c :: nat) - 87)
               else if is_ascii_uppercase c then Some ((of_char c :: nat) - 55) else None)
      in case v of Some d \<Rightarrow> if d < radix then Some d else None | None \<Rightarrow> None)"

definition read_number :: "nat \<Rightarrow> nat \<Rightarrow> bool \<Rightarrow> nat \<Rightarrow> string \<Rightarrow> (nat \<times> string) option" where
  "read_number radix max_digits allow_zero_prefix bound s =
     (let ds = takeWhile (\<lambda>c. digit_of radix c \<noteq> None) s;
          v = foldl (\<lambda>a c. a * radix + the (digit_of radix c)) 0 ds
      in if ds = [] \<or> max_digits < length ds \<or> (\<not> allow_zero_prefix \<and> hd ds = CHR ''0'' \<and> 1 < length ds)
            \<or> bound \<le> v
         then None else Some (v, drop (length ds) s))"

definition read_given_char :: "char \<Rightarrow> string \<Rightarrow> string option" where
  "read_given_char c s = (case s of x # r \<Rightarrow> if x = c then Some r else None | [] \<Rightarrow> None)"

definition read_separator :: "char \<Rightarrow> nat \<Rightarrow> (string \<Rightarrow> ('a \<times> string) option) \<Rightarrow> string \<Rightarrow> ('a \<times> string) option" where
  "read_separator sep i inner s =
     (if 0 < i then (case read_given_char sep s of Some r \<Rightarrow> inner r | None \<Rightarrow> None) else inner s)"

fun read_octets :: "nat \<Rightarrow> nat \<Rightarrow> string \<Rightarrow> (nat list \<times> string) option" where
  "read_octets i 0 s = Some ([], s)"
| "read_octets i (Suc n) s =
     (case read_separator (CHR ''.'') i (read_number 10 3 False 256) s of
        None \<Rightarrow> None
      | Some (o1, r) \<Rightarrow> map_option (\<lambda>(os, r'). (o1 # os, r')) (read_octets (i + 1) n r))"

definition read_ipv4_addr :: "string \<Rightarrow> (nat list \<times> string) option" where
  "read_ipv4_addr s = read_octets 0 4 s"

text \<open>The groups of an IPv6 literal, up to a limit; the last two may be an IPv4 literal. The flag tells
  whether they were.\<close>

fun read_groups :: "nat \<Rightarrow> nat \<Rightarrow> string \<Rightarrow> nat list \<times> bool \<times> string" where
  "read_groups i 0 s = ([], False, s)"
| "read_groups i (Suc n) s =
     (case (if 0 < n then read_separator (CHR '':'') i read_ipv4_addr s else None) of
        Some (os, r) \<Rightarrow> ([os ! 0 * 256 + os ! 1, os ! 2 * 256 + os ! 3], True, r)
      | None \<Rightarrow>
          (case read_separator (CHR '':'') i (read_number 16 4 True 65536) s of
             None \<Rightarrow> ([], False, s)
           | Some (g, r) \<Rightarrow> (case read_groups (i + 1) n r of (gs, v4, r') \<Rightarrow> (g # gs, v4, r'))))"

definition read_ipv6_addr :: "string \<Rightarrow> (nat list \<times> string) option" where
  "read_ipv6_addr s =
     (case read_groups 0 8 s of (hs, v4, r) \<Rightarrow>
        if length hs = 8 then Some (hs, r)
        else if v4 then None
        else (case read_given_char (CHR '':'') r of
                None \<Rightarrow> None
              | Some r1 \<Rightarrow>
                  (case read_given_char (CHR '':'') r1 of
                     None \<Rightarrow> None
                   | Some r2 \<Rightarrow>
                       (case read_groups 0 (8 - (length hs + 1)) r2 of (ts, _, r3) \<Rightarrow>
                          Some (hs @ replicate (8 - length hs - length ts) 0 @ ts, r3)))))"

definition parse_ip :: "string \<Rightarrow> ip_addr option" where
  "parse_ip s =
     (case read_ipv4_addr s of
        Some (os, r) \<Rightarrow> if r = [] then Some (V4 (ipv4_of_octets os)) else None
      | None \<Rightarrow>
          (case read_ipv6_addr s of
             Some (ss, r) \<Rightarrow> if r = [] then Some (V6 (ipv6_of_segments ss)) else None
           | None \<Rightarrow> None))"

section \<open>Host names\<close>

text \<open>\<open>split_once\<close> at a substring.\<close>

definition split_once_at :: "string \<Rightarrow> string \<Rightarrow> (string \<times> string) option" where
  "split_once_at p s = map_option (\<lambda>i. (take i s, drop (i + length p) s)) (find_sub p s)"

definition unscoped_ip_literal :: "string \<Rightarrow> string option" where
  "unscoped_ip_literal host =
     (case split_once (CHR ''%'') host of
        None \<Rightarrow> None
      | Some (ip, _) \<Rightarrow> if parse_ip ip = None then None else Some ip)"

fun scoped_literal :: "string \<Rightarrow> string list \<Rightarrow> string option" where
  "scoped_literal host [] = None"
| "scoped_literal host (delimiter # ds) =
     (case split_once_at delimiter host of
        Some (ip, scope) \<Rightarrow>
          if parse_ip ip \<noteq> None then Some (ip @ ''%'' @ scope) else scoped_literal host ds
      | None \<Rightarrow> scoped_literal host ds)"

definition normalize_ip_literal :: "string \<Rightarrow> string option" where
  "normalize_ip_literal host =
     (if parse_ip host \<noteq> None then Some host else scoped_literal host [''%25'', ''%''])"

definition normalize_dns_host_or_ip_literal :: "string \<Rightarrow> string" where
  "normalize_dns_host_or_ip_literal host =
     (let h = trim_end_matches (CHR ''.'') (map to_ascii_lower host)
      in case normalize_ip_literal h of Some ip \<Rightarrow> ip | None \<Rightarrow> h)"

definition normalize_host :: "string \<Rightarrow> string" where
  "normalize_host raw =
     (let host = str_trim raw
      in case (if prefix ''['' host then find_sub '']'' host else None) of
           Some e \<Rightarrow> normalize_dns_host_or_ip_literal (drop 1 (take e host))
         | None \<Rightarrow>
             if count_list host (CHR '':'') = 1
             then normalize_dns_host_or_ip_literal (takeWhile (\<lambda>c. c \<noteq> CHR '':'') host)
             else normalize_dns_host_or_ip_literal host)"

text \<open>\<open>Host::parse\<close>; \<open>None\<close> is the error of an empty host.\<close>

definition host_parse :: "string \<Rightarrow> string option" where
  "host_parse input = (let normalized = normalize_host input in if normalized = [] then None else Some normalized)"

definition is_loopback_host :: "string \<Rightarrow> bool" where
  "is_loopback_host host =
     (let h = (case unscoped_ip_literal host of Some ip \<Rightarrow> ip | None \<Rightarrow> host)
      in if h = ''localhost'' then True
         else case parse_ip h of Some ip \<Rightarrow> ip_is_loopback ip | None \<Rightarrow> False)"

definition is_default_proxy_bypass_host :: "string \<Rightarrow> bool" where
  "is_default_proxy_bypass_host raw =
     (let host = normalize_host raw
      in case parse_ip host of
           Some (V4 ip) \<Rightarrow> ip = ipv4_of_octets [127, 0, 0, 1] \<or> v4_is_private ip
         | Some (V6 ip) \<Rightarrow> ip = 1
         | None \<Rightarrow> host = ''localhost'' \<or> suffix ''.localhost'' host)"

section \<open>The public addresses\<close>

lemma and_not_mask_eq_iff:
  fixes a b :: "'a::len word"
  shows "a AND NOT (mask n) = b AND NOT (mask n) \<longleftrightarrow> drop_bit n a = drop_bit n b"
proof
  assume "a AND NOT (mask n) = b AND NOT (mask n)"
  then have "drop_bit n (a AND NOT (mask n)) = drop_bit n (b AND NOT (mask n))" by simp
  then show "drop_bit n a = drop_bit n b"
    by (auto simp: drop_bit_and bit_eq_iff bit_simps dest: bit_imp_le_length)
next
  assume eq: "drop_bit n a = drop_bit n b"
  have "bit a i = bit b i" if "n \<le> i" for i
    using arg_cong[OF eq, of "\<lambda>w. bit w (i - n)"] that by (simp add: bit_drop_bit_eq)
  then show "a AND NOT (mask n) = b AND NOT (mask n)"
    by (auto simp: bit_eq_iff bit_simps)
qed

lemma ipv4_in_cidr_iff:
  assumes "0 < p" "p \<le> 32"
  shows "ipv4_in_cidr ip base p \<longleftrightarrow>
    unat ip div 2 ^ (32 - p) = unat (ipv4_of_octets base) div 2 ^ (32 - p)"
proof -
  have "push_bit (32 - p) (- 1) = NOT (mask (32 - p) :: ipv4)" by (simp add: push_bit_minus_one_eq_not_mask)
  then have "ipv4_in_cidr ip base p \<longleftrightarrow> drop_bit (32 - p) ip = drop_bit (32 - p) (ipv4_of_octets base)"
    using assms by (simp add: ipv4_in_cidr_def Let_def and_not_mask_eq_iff)
  also have "\<dots> \<longleftrightarrow> unat (drop_bit (32 - p) ip) = unat (drop_bit (32 - p) (ipv4_of_octets base))"
    by (simp only: word_unat_eq_iff)
  finally show ?thesis unfolding unat_drop_bit_eq by (simp only: drop_bit_eq_div)
qed

lemma div_eq_interval: "0 < n \<Longrightarrow> x div n = c \<longleftrightarrow> c * n \<le> x \<and> x < (c + 1) * n" for x n c :: nat
  using div_nat_eqI[of n c x] by (auto simp: div_times_less_eq_dividend dividend_less_times_div mult.commute
      simp flip: less_mult_imp_div_less)

text \<open>The non-public blocks, as intervals of addresses.\<close>

definition non_public_ranges :: "(nat list \<times> nat list) list" where
  "non_public_ranges =
    [([0, 0, 0, 0], [0, 255, 255, 255]),
     ([10, 0, 0, 0], [10, 255, 255, 255]),
     ([100, 64, 0, 0], [100, 127, 255, 255]),
     ([127, 0, 0, 0], [127, 255, 255, 255]),
     ([169, 254, 0, 0], [169, 254, 255, 255]),
     ([172, 16, 0, 0], [172, 31, 255, 255]),
     ([192, 0, 0, 0], [192, 0, 0, 255]),
     ([192, 0, 2, 0], [192, 0, 2, 255]),
     ([192, 168, 0, 0], [192, 168, 255, 255]),
     ([198, 18, 0, 0], [198, 19, 255, 255]),
     ([198, 51, 100, 0], [198, 51, 100, 255]),
     ([203, 0, 113, 0], [203, 0, 113, 255]),
     ([224, 0, 0, 0], [255, 255, 255, 255])]"

lemma octet_0: "octet 0 ip = unat ip div 16777216"
proof -
  have "unat ip div 16777216 < 256" using unsigned_less[of ip, where 'a=nat] by (simp add: less_mult_imp_div_less)
  then show ?thesis by (simp add: octet_def)
qed

lemma octet_1: "octet 0 ip * 256 + octet 1 ip = unat ip div 65536"
  unfolding octet_0 by (simp add: octet_def div_mult2_eq[of "unat ip" 65536 256, simplified] mult.commute)

text \<open>The conditions on the octets as intervals.\<close>

definition in_block :: "nat \<Rightarrow> nat \<Rightarrow> ipv4 \<Rightarrow> bool" where
  "in_block lo hi ip \<longleftrightarrow> lo \<le> unat ip \<and> unat ip \<le> hi"

lemma div_block: "0 < n \<Longrightarrow> unat ip div n = c \<longleftrightarrow> in_block (c * n) (c * n + (n - 1)) ip"
  by (auto simp: div_eq_interval in_block_def)

lemma octet_0_block: "octet 0 ip = a \<longleftrightarrow> in_block (a * 16777216) (a * 16777216 + 16777215) ip"
  by (simp add: octet_0 div_block)

lemma two_digits_between:
  fixes q r a c d :: nat
  assumes "r < 256" "d < 256"
  shows "q = a \<and> c \<le> r \<and> r \<le> d \<longleftrightarrow> a * 256 + c \<le> q * 256 + r \<and> q * 256 + r < a * 256 + d + 1"
proof (cases q a rule: linorder_cases)
  case less
  then have "Suc q * 256 \<le> a * 256" by (intro mult_le_mono) auto
  with less assms show ?thesis by auto
next
  case greater
  then have "Suc a * 256 \<le> q * 256" by (intro mult_le_mono) auto
  with greater assms show ?thesis by auto
qed auto

lemma octets_block:
  assumes "d < 256"
  shows "octet 0 ip = a \<and> c \<le> octet 1 ip \<and> octet 1 ip \<le> d \<longleftrightarrow>
    in_block ((a * 256 + c) * 65536) ((a * 256 + d) * 65536 + 65535) ip"
proof -
  have "octet 1 ip < 256" by (simp add: octet_def)
  then have "octet 0 ip = a \<and> c \<le> octet 1 ip \<and> octet 1 ip \<le> d \<longleftrightarrow>
      a * 256 + c \<le> unat ip div 65536 \<and> unat ip div 65536 < a * 256 + d + 1"
    using two_digits_between assms unfolding octet_1[symmetric] by blast
  also have "\<dots> \<longleftrightarrow> (a * 256 + c) * 65536 \<le> unat ip \<and> unat ip < (a * 256 + d + 1) * 65536"
    by (simp add: less_eq_div_iff_mult_less_eq div_less_iff_less_mult)
  also have "(a * 256 + d + 1) * 65536 = Suc ((a * 256 + d) * 65536 + 65535)" by simp
  finally show ?thesis by (simp only: in_block_def less_Suc_eq_le)
qed

text \<open>Every condition is a block of addresses.\<close>

lemma in_cidr_block:
  assumes "0 < p" "p \<le> 32" "2 ^ (32 - p) = n" "unat (ipv4_of_octets base) = c * n"
  shows "ipv4_in_cidr ip base p \<longleftrightarrow> in_block (c * n) (c * n + (n - 1)) ip"
proof -
  have "0 < n" using assms(3) by (metis zero_less_power zero_less_numeral)
  then show ?thesis
    unfolding ipv4_in_cidr_iff[OF assms(1,2)] assms(3,4) by (simp add: div_block)
qed

lemma unat_of_octets:
  "unat (ipv4_of_octets [a, b, c, d]) = (((a * 256 + b) * 256 + c) * 256 + d) mod 2 ^ 32"
  by (simp only: ipv4_of_octets_def foldl.simps unat_of_nat) simp

lemmas cidr_blocks =
  in_cidr_block[of 8 16777216 "[0, 0, 0, 0]" 0]
  in_cidr_block[of 10 4194304 "[100, 64, 0, 0]" 401]
  in_cidr_block[of 24 256 "[192, 0, 0, 0]" 12582912]
  in_cidr_block[of 24 256 "[192, 0, 2, 0]" 12582914]
  in_cidr_block[of 15 131072 "[198, 18, 0, 0]" 25353]
  in_cidr_block[of 24 256 "[198, 51, 100, 0]" 12989284]
  in_cidr_block[of 24 256 "[203, 0, 113, 0]" 13303921]
  in_cidr_block[of 4 268435456 "[240, 0, 0, 0]" 15]

lemma loopback_block: "v4_is_loopback ip \<longleftrightarrow> in_block 2130706432 2147483647 ip"
  by (simp add: v4_is_loopback_def octet_0_block)

lemma private_block:
  "v4_is_private ip \<longleftrightarrow> in_block 167772160 184549375 ip \<or> in_block 2886729728 2887778303 ip \<or>
     in_block 3232235520 3232301055 ip"
  using octets_block[of 31 ip 172 16] octets_block[of 168 ip 192 168] octet_0_block[of ip 10]
  by (auto simp: v4_is_private_def)

lemma link_local_block: "v4_is_link_local ip \<longleftrightarrow> in_block 2851995648 2852061183 ip"
  using octets_block[of 254 ip 169 254] by (auto simp: v4_is_link_local_def)

lemma multicast_block: "v4_is_multicast ip \<longleftrightarrow> in_block 3758096384 4026531839 ip"
  unfolding v4_is_multicast_def octet_0 in_block_def by auto

lemmas block_rules = loopback_block private_block link_local_block multicast_block
  cidr_blocks[simplified unat_of_octets, simplified]

text \<open>C21: the addresses the proxy treats as not public. An IPv4 address is not public exactly if it
  lies in one of thirteen blocks: this network, the private networks, carrier-grade NAT, loopback,
  link-local, protocol assignments, the three documentation networks, benchmarking, and everything
  from 224.0.0.0 on.\<close>

theorem non_public_ipv4_blocks:
  "is_non_public_ipv4 ip \<longleftrightarrow>
     (\<exists>(lo, hi) \<in> set non_public_ranges. ipv4_of_octets lo \<le> ip \<and> ip \<le> ipv4_of_octets hi)"
proof -
  have max: "unat ip < 4294967296" using unsigned_less[of ip, where 'a=nat] by simp
  have low: "v4_is_unspecified ip \<or> in_block 0 16777215 ip \<longleftrightarrow> in_block 0 16777215 ip"
    by (auto simp: v4_is_unspecified_def in_block_def)
  have "v4_is_broadcast ip \<longleftrightarrow> unat ip = 4294967295"
    by (simp add: v4_is_broadcast_def word_unat_eq_iff unsigned_minus_1_eq_mask mask_eq_exp_minus_1)
  then have high: "in_block 3758096384 4026531839 ip \<or> v4_is_broadcast ip \<or> in_block 4026531840 4294967295 ip \<longleftrightarrow>
      in_block 3758096384 4294967295 ip"
    using max by (auto simp: in_block_def)
  have ranges: "(\<exists>(lo, hi) \<in> set rs. ipv4_of_octets lo \<le> ip \<and> ip \<le> ipv4_of_octets hi) \<longleftrightarrow>
      (\<exists>(lo, hi) \<in> set rs. in_block (unat (ipv4_of_octets lo)) (unat (ipv4_of_octets hi)) ip)" for rs
    by (simp add: in_block_def word_le_nat_alt)
  show ?thesis
    unfolding is_non_public_ipv4_def block_rules ranges
    using low high by (simp add: non_public_ranges_def unat_of_octets) blast
qed

text \<open>An IPv4 address embedded in an IPv6 address is classified like the IPv4 address.\<close>

lemma embedded_ipv4_classified:
  assumes "to_ipv4 ip = Some v4" "ip \<noteq> 1"
  shows "is_non_public_ipv6 ip \<longleftrightarrow> is_non_public_ipv4 v4"
  using assms by (simp add: is_non_public_ipv6_def v6_is_loopback_def)

end
