(* ===== verification/Network_Domain.thy ===== *)
theory Network_Domain
  imports Network_Host
begin

text \<open>
  Domain patterns and domain lists, the second half of \<^verbatim>\<open>network-proxy/src/policy.rs\<close> and the domain
  permissions of \<^verbatim>\<open>network-proxy/src/config.rs\<close>. The glob matcher (crate globset) and the host
  parser of the url crate are arguments: \<open>globs\<close> has the validity of a glob and its matches, with case
  ignored, and \<open>url_host\<close> is \<open>url::Host::parse\<close> followed by \<open>to_string\<close>.
\<close>

section \<open>Patterns\<close>

datatype domain_pattern = ApexAndSubdomains string | SubdomainsOnly string | ExactDomain string

definition parse_domain :: "string \<Rightarrow> (string \<Rightarrow> domain_pattern) \<Rightarrow> domain_pattern" where
  "parse_domain raw build = (let domain = str_trim raw in if domain = [] then ExactDomain [] else build domain)"

definition pattern_parse :: "string \<Rightarrow> domain_pattern" where
  "pattern_parse raw =
     (let input = str_trim raw
      in if input = [] then ExactDomain []
         else case strip_prefix ''**.'' input of
           Some domain \<Rightarrow> parse_domain domain ApexAndSubdomains
         | None \<Rightarrow>
             (case strip_prefix ''*.'' input of
                Some domain \<Rightarrow> parse_domain domain SubdomainsOnly
              | None \<Rightarrow> ExactDomain input))"

definition parse_domain_for_constraints :: "(string \<Rightarrow> string option) \<Rightarrow> string \<Rightarrow> string" where
  "parse_domain_for_constraints url_host raw =
     (let domain = trim_end_matches (CHR ''.'') (str_trim raw)
      in if domain = [] then []
         else let host = (if prefix ''['' domain \<and> suffix '']'' domain
                          then drop 1 (take (length domain - 1) domain) else domain)
              in if CHR ''*'' \<in> set host \<or> CHR ''?'' \<in> set host \<or> CHR ''%'' \<in> set host then domain
                 else case url_host host of Some h \<Rightarrow> h | None \<Rightarrow> [])"

definition parse_for_constraints :: "(string \<Rightarrow> string option) \<Rightarrow> string \<Rightarrow> domain_pattern" where
  "parse_for_constraints url_host raw =
     (let input = str_trim raw
      in if input = [] then ExactDomain []
         else case strip_prefix ''**.'' input of
           Some domain \<Rightarrow> ApexAndSubdomains (parse_domain_for_constraints url_host domain)
         | None \<Rightarrow>
             (case strip_prefix ''*.'' input of
                Some domain \<Rightarrow> SubdomainsOnly (parse_domain_for_constraints url_host domain)
              | None \<Rightarrow> ExactDomain (parse_domain_for_constraints url_host input)))"

definition normalize_domain :: "string \<Rightarrow> string" where
  "normalize_domain domain = map to_ascii_lower (trim_end_matches (CHR ''.'') domain)"

definition domain_eq :: "string \<Rightarrow> string \<Rightarrow> bool" where
  "domain_eq left right \<longleftrightarrow> normalize_domain left = normalize_domain right"

definition is_subdomain_or_equal :: "string \<Rightarrow> string \<Rightarrow> bool" where
  "is_subdomain_or_equal child parent =
     (let c = normalize_domain child; p = normalize_domain parent in c = p \<or> suffix (''.'' @ p) c)"

definition is_strict_subdomain :: "string \<Rightarrow> string \<Rightarrow> bool" where
  "is_strict_subdomain child parent =
     (let c = normalize_domain child; p = normalize_domain parent in c \<noteq> p \<and> suffix (''.'' @ p) c)"

fun allows :: "domain_pattern \<Rightarrow> domain_pattern \<Rightarrow> bool" where
  "allows (ExactDomain d) (ExactDomain c) = domain_eq c d"
| "allows (ExactDomain d) _ = False"
| "allows (SubdomainsOnly d) (ExactDomain c) = is_strict_subdomain c d"
| "allows (SubdomainsOnly d) (SubdomainsOnly c) = is_subdomain_or_equal c d"
| "allows (SubdomainsOnly d) (ApexAndSubdomains c) = is_strict_subdomain c d"
| "allows (ApexAndSubdomains d) (ExactDomain c) = is_subdomain_or_equal c d"
| "allows (ApexAndSubdomains d) (SubdomainsOnly c) = is_subdomain_or_equal c d"
| "allows (ApexAndSubdomains d) (ApexAndSubdomains c) = is_subdomain_or_equal c d"

definition expand_domain_pattern :: "string \<Rightarrow> string list" where
  "expand_domain_pattern pattern =
     (case pattern_parse pattern of
        ExactDomain d \<Rightarrow> [d]
      | SubdomainsOnly d \<Rightarrow> [''?*.'' @ d]
      | ApexAndSubdomains d \<Rightarrow> [d, ''?*.'' @ d])"

definition normalize_pattern :: "string \<Rightarrow> string" where
  "normalize_pattern raw =
     (let pattern = str_trim raw
      in if pattern = ''*'' then ''*''
         else let (pre, remainder) =
                    (case strip_prefix ''**.'' pattern of
                       Some domain \<Rightarrow> (''**.'', domain)
                     | None \<Rightarrow>
                         (case strip_prefix ''*.'' pattern of
                            Some domain \<Rightarrow> (''*.'', domain)
                          | None \<Rightarrow> ('''', pattern)))
              in pre @ normalize_host remainder)"

definition is_global_wildcard_domain_pattern :: "string \<Rightarrow> bool" where
  "is_global_wildcard_domain_pattern pattern =
     list_ex (\<lambda>c. c = ''*'') (expand_domain_pattern (normalize_pattern pattern))"

section \<open>Compiled sets\<close>

record globs =
  glob_valid :: "string \<Rightarrow> bool"
  glob_matches :: "string \<Rightarrow> string \<Rightarrow> bool"
  set_builds :: "string list \<Rightarrow> bool"

datatype global_wildcard = AllowGlobal | RejectGlobal

datatype compile_error = UnsupportedGlobalWildcard | InvalidGlob string | SetNotBuilt

text \<open>A compiled set is the list of its globs. \<open>seen\<close> holds the candidates met so far, which are the
  globs of the builder.\<close>

fun add_candidates :: "globs \<Rightarrow> string list \<Rightarrow> string list \<Rightarrow> compile_error + string list" where
  "add_candidates g builder [] = Inr builder"
| "add_candidates g builder (candidate # cs) =
     (if candidate \<in> set builder then add_candidates g builder cs
      else if glob_valid g candidate then add_candidates g (builder @ [candidate]) cs
      else Inl (InvalidGlob candidate))"

fun add_patterns :: "globs \<Rightarrow> global_wildcard \<Rightarrow> string list \<Rightarrow> string list \<Rightarrow> compile_error + string list" where
  "add_patterns g gw builder [] = Inr builder"
| "add_patterns g gw builder (pattern # ps) =
     (if gw = RejectGlobal \<and> is_global_wildcard_domain_pattern pattern then Inl UnsupportedGlobalWildcard
      else and_then (add_candidates g builder (expand_domain_pattern (normalize_pattern pattern)))
             (\<lambda>b. add_patterns g gw b ps))"

definition compile_globset_with_policy :: "globs \<Rightarrow> string list \<Rightarrow> global_wildcard \<Rightarrow> compile_error + string list" where
  "compile_globset_with_policy g patterns gw =
     and_then (add_patterns g gw [] patterns) (\<lambda>b. if set_builds g b then Inr b else Inl SetNotBuilt)"

definition compile_allowlist_globset :: "globs \<Rightarrow> string list \<Rightarrow> compile_error + string list" where
  "compile_allowlist_globset g patterns = compile_globset_with_policy g patterns AllowGlobal"

definition compile_denylist_globset :: "globs \<Rightarrow> string list \<Rightarrow> compile_error + string list" where
  "compile_denylist_globset g patterns = compile_globset_with_policy g patterns RejectGlobal"

definition set_is_match :: "globs \<Rightarrow> string list \<Rightarrow> string \<Rightarrow> bool" where
  "set_is_match g s host = list_ex (\<lambda>p. glob_matches g p host) s"

definition globset_matches_host_or_unscoped :: "globs \<Rightarrow> string list \<Rightarrow> string \<Rightarrow> bool" where
  "globset_matches_host_or_unscoped g s host =
     (set_is_match g s host \<or>
      (case unscoped_ip_literal host of Some ip \<Rightarrow> set_is_match g s ip | None \<Rightarrow> False))"

section \<open>Permissions of domains\<close>

text \<open>The order of the variants is the precedence: a denial wins over a permission.\<close>

datatype domain_permission = NoPermission | AllowDomain | DenyDomain

fun permission_rank :: "domain_permission \<Rightarrow> nat" where
  "permission_rank NoPermission = 0"
| "permission_rank AllowDomain = 1"
| "permission_rank DenyDomain = 2"

instantiation domain_permission :: linorder
begin

definition less_eq_domain_permission :: "domain_permission \<Rightarrow> domain_permission \<Rightarrow> bool" where
  "less_eq_domain_permission a b \<longleftrightarrow> permission_rank a \<le> permission_rank b"

definition less_domain_permission :: "domain_permission \<Rightarrow> domain_permission \<Rightarrow> bool" where
  "less_domain_permission a b \<longleftrightarrow> permission_rank a < permission_rank b"

instance
proof
  fix a b :: domain_permission
  show "a \<le> b \<Longrightarrow> b \<le> a \<Longrightarrow> a = b"
    by (cases a; cases b) (simp_all add: less_eq_domain_permission_def)
qed (auto simp: less_eq_domain_permission_def less_domain_permission_def)

end

record domain_entry =
  entry_pattern :: string
  entry_permission :: domain_permission

text \<open>The loop keeps the patterns in the order of their first occurrence and the largest permission
  of each. Every pattern is in the order once, so that taking it out of the map afterwards finds it.\<close>

definition effective_step ::
  "string list \<times> (string \<rightharpoonup> domain_permission) \<Rightarrow> domain_entry \<Rightarrow> string list \<times> (string \<rightharpoonup> domain_permission)" where
  "effective_step st e =
     (let (order, perms) = st;
          order' = (if perms (entry_pattern e) = None then order @ [entry_pattern e] else order);
          current = (case perms (entry_pattern e) of None \<Rightarrow> entry_permission e | Some p \<Rightarrow> p);
          new = (if current < entry_permission e then entry_permission e else current)
      in (order', perms(entry_pattern e \<mapsto> new)))"

definition effective_entries :: "domain_entry list \<Rightarrow> domain_entry list" where
  "effective_entries entries =
     (let (order, perms) = foldl effective_step ([], Map.empty) entries
      in List.map_filter (\<lambda>p. map_option (\<lambda>x. \<lparr>entry_pattern = p, entry_permission = x\<rparr>) (perms p)) order)"

definition domain_entries :: "domain_entry list option \<Rightarrow> domain_permission \<Rightarrow> string list option" where
  "domain_entries domains permission =
     (case domains of
        None \<Rightarrow> None
      | Some entries \<Rightarrow>
          (let ps = map entry_pattern (filter (\<lambda>e. entry_permission e = permission) (effective_entries entries))
           in if ps = [] then None else Some ps))"

definition upsert_domain_permission ::
  "domain_entry list option \<Rightarrow> string \<Rightarrow> domain_permission \<Rightarrow> domain_entry list option" where
  "upsert_domain_permission domains host permission =
     (let entries = (case domains of Some es \<Rightarrow> es | None \<Rightarrow> []);
          kept = filter (\<lambda>e. normalize_host (entry_pattern e) \<noteq> normalize_host host) entries;
          entries' = kept @ [\<lparr>entry_pattern = host, entry_permission = permission\<rparr>]
      in if entries' = [] then None else Some entries')"

fun add_entries :: "domain_permission \<Rightarrow> domain_entry list \<Rightarrow> string list \<Rightarrow> domain_entry list" where
  "add_entries permission es [] = es"
| "add_entries permission es (p # ps) =
     (if list_ex (\<lambda>e. entry_pattern e = p \<and> entry_permission e = permission) es
      then add_entries permission es ps
      else add_entries permission (es @ [\<lparr>entry_pattern = p, entry_permission = permission\<rparr>]) ps)"

definition set_domain_entries ::
  "domain_entry list option \<Rightarrow> string list \<Rightarrow> domain_permission \<Rightarrow> domain_entry list option" where
  "set_domain_entries domains entries permission =
     (let kept = filter (\<lambda>e. entry_permission e \<noteq> permission) (case domains of Some es \<Rightarrow> es | None \<Rightarrow> []);
          entries' = add_entries permission kept entries
      in if entries' = [] then None else Some entries')"

section \<open>What a pattern covers\<close>

text \<open>The hosts of a pattern, with case and trailing dots ignored.\<close>

definition below :: "string \<Rightarrow> string \<Rightarrow> bool" where
  "below d h \<longleftrightarrow> suffix (''.'' @ d) h"

fun hosts_of :: "domain_pattern \<Rightarrow> string set" where
  "hosts_of (ExactDomain d) = {h. normalize_domain h = normalize_domain d}"
| "hosts_of (SubdomainsOnly d) = {h. below (normalize_domain d) (normalize_domain h)}"
| "hosts_of (ApexAndSubdomains d) =
     {h. normalize_domain h = normalize_domain d \<or> below (normalize_domain d) (normalize_domain h)}"

fun pattern_domain :: "domain_pattern \<Rightarrow> string" where
  "pattern_domain (ExactDomain d) = d"
| "pattern_domain (SubdomainsOnly d) = d"
| "pattern_domain (ApexAndSubdomains d) = d"

lemma to_ascii_lower_idem [simp]: "to_ascii_lower (to_ascii_lower c) = to_ascii_lower c"
proof (cases "is_ascii_uppercase c")
  case True
  then have "(of_char c :: nat) + 32 < 256" by (simp add: is_ascii_uppercase_def)
  then have "(of_char (char_of ((of_char c :: nat) + 32) :: char) :: nat) = of_char c + 32" by simp
  then have "\<not> is_ascii_uppercase (char_of ((of_char c :: nat) + 32))"
    using True by (simp add: is_ascii_uppercase_def)
  with True show ?thesis by (simp add: to_ascii_lower_def)
qed (simp add: to_ascii_lower_def)

lemma to_ascii_lower_dot: "to_ascii_lower c = CHR ''.'' \<longleftrightarrow> c = CHR ''.''"
proof (cases "is_ascii_uppercase c")
  case True
  then have n: "(of_char c :: nat) + 32 < 256" "(of_char c :: nat) + 32 \<noteq> 46" "(of_char c :: nat) \<noteq> 46"
    by (simp_all add: is_ascii_uppercase_def)
  have "char_of ((of_char c :: nat) + 32) \<noteq> CHR ''.''"
  proof
    assume "char_of ((of_char c :: nat) + 32) = CHR ''.''"
    then have "(of_char (char_of ((of_char c :: nat) + 32) :: char) :: nat) = of_char (CHR ''.'')" by simp
    with n show False by simp
  qed
  moreover have "c \<noteq> CHR ''.''" using n(3) by auto
  ultimately show ?thesis using True by (simp add: to_ascii_lower_def)
qed (simp add: to_ascii_lower_def)

lemma trim_end_matches_last: "trim_end_matches c s = [] \<or> last (trim_end_matches c s) \<noteq> c"
  using hd_dropWhile[of "\<lambda>x. x = c" "rev s"] by (auto simp: trim_end_matches_def last_rev)

lemma trim_end_matches_id: "s = [] \<or> last s \<noteq> c \<Longrightarrow> trim_end_matches c s = s"
  by (cases s rule: rev_cases) (auto simp: trim_end_matches_def)

lemma normalize_domain_id:
  "map to_ascii_lower d = d \<Longrightarrow> d = [] \<or> last d \<noteq> CHR ''.'' \<Longrightarrow> normalize_domain d = d"
  by (simp add: normalize_domain_def trim_end_matches_id)

lemma normalize_domain_shape:
  "map to_ascii_lower (normalize_domain d) = normalize_domain d"
  "normalize_domain d = [] \<or> last (normalize_domain d) \<noteq> CHR ''.''"
  using trim_end_matches_last[of "CHR ''.''" d]
  by (auto simp: normalize_domain_def last_map to_ascii_lower_dot)

lemma normalize_domain_idem [simp]: "normalize_domain (normalize_domain d) = normalize_domain d"
  by (rule normalize_domain_id) (rule normalize_domain_shape)+

lemma normalize_subdomain:
  assumes "normalize_domain d \<noteq> []" "map to_ascii_lower x = x"
  shows "normalize_domain (x @ ''.'' @ normalize_domain d) = x @ ''.'' @ normalize_domain d"
  using normalize_domain_shape[of d] assms
  by (intro normalize_domain_id) (auto simp: to_ascii_lower_dot)

lemma below_trans: "below p c \<Longrightarrow> below c h \<Longrightarrow> below p h"
  unfolding below_def by (metis append_assoc suffix_def suffix_order.trans)

lemma not_below_itself: "\<not> below d d"
  by (auto simp: below_def dest: suffix_length_le)

lemma below_child: "below d (x # CHR ''.'' # c) \<longleftrightarrow> d = c \<or> below d c" if "x \<noteq> CHR ''.''"
  using that by (auto simp: below_def suffix_Cons)

lemma strict_subdomain_iff: "is_strict_subdomain c d \<longleftrightarrow> below (normalize_domain d) (normalize_domain c)"
  using not_below_itself[of "normalize_domain d"] by (auto simp: is_strict_subdomain_def Let_def below_def)

lemma subdomain_or_equal_iff:
  "is_subdomain_or_equal c d \<longleftrightarrow>
     normalize_domain c = normalize_domain d \<or> below (normalize_domain d) (normalize_domain c)"
  by (simp add: is_subdomain_or_equal_def Let_def below_def)

lemmas allows_iff = domain_eq_def strict_subdomain_iff subdomain_or_equal_iff

lemma allows_sound: "allows p q \<Longrightarrow> hosts_of q \<subseteq> hosts_of p"
  by (cases p; cases q) (auto simp: allows_iff intro: below_trans)

text \<open>Two hosts below a domain that agree on nothing but the domain.\<close>

lemma children:
  assumes "normalize_domain c \<noteq> []" "x = CHR ''a'' \<or> x = CHR ''b''"
  shows "normalize_domain (x # CHR ''.'' # normalize_domain c) = x # CHR ''.'' # normalize_domain c"
    and "below (normalize_domain c) (x # CHR ''.'' # normalize_domain c)"
    and "below d (x # CHR ''.'' # normalize_domain c) \<longleftrightarrow> d = normalize_domain c \<or> below d (normalize_domain c)"
proof -
  have "to_ascii_lower x = x" using assms(2) by (auto simp: to_ascii_lower_def is_ascii_uppercase_def)
  then show "normalize_domain (x # CHR ''.'' # normalize_domain c) = x # CHR ''.'' # normalize_domain c"
    using normalize_subdomain[OF assms(1), of "[x]"] by simp
  show "below (normalize_domain c) (x # CHR ''.'' # normalize_domain c)"
    using assms(2) by (auto simp: below_child)
  show "below d (x # CHR ''.'' # normalize_domain c) \<longleftrightarrow> d = normalize_domain c \<or> below d (normalize_domain c)"
    using assms(2) by (auto simp: below_child)
qed

lemma subdomains_covered:
  assumes "normalize_domain c \<noteq> []" "hosts_of (SubdomainsOnly c) \<subseteq> hosts_of p"
  shows "allows p (SubdomainsOnly c)"
proof -
  have child: "x # CHR ''.'' # normalize_domain c \<in> hosts_of p" if "x = CHR ''a'' \<or> x = CHR ''b''" for x
    using assms(2) children(1,2)[OF assms(1) that] by (simp add: subset_iff)
  let ?n = "normalize_domain c"
  note norm = children(1)[OF assms(1)] and under = children(3)[OF assms(1)]
  have two: "\<not> (normalize_domain (CHR ''a'' # CHR ''.'' # ?n) = d \<and> normalize_domain (CHR ''b'' # CHR ''.'' # ?n) = d)" for d
    by (simp add: norm) auto
  show ?thesis
  proof (cases p)
    case (ExactDomain d)
    with child[of "CHR ''a''"] child[of "CHR ''b''"] two[of "normalize_domain d"] show ?thesis by simp
  next
    case (SubdomainsOnly d)
    with child[of "CHR ''a''"] show ?thesis by (auto simp: allows_iff norm under)
  next
    case (ApexAndSubdomains d)
    have "below (normalize_domain d) (x # CHR ''.'' # ?n) \<or> normalize_domain (x # CHR ''.'' # ?n) = normalize_domain d"
      if "x = CHR ''a'' \<or> x = CHR ''b''" for x
      using child[OF that] ApexAndSubdomains norm[OF that] by auto
    then have "below (normalize_domain d) (CHR ''a'' # CHR ''.'' # ?n) \<or> below (normalize_domain d) (CHR ''b'' # CHR ''.'' # ?n)"
      using two[of "normalize_domain d"] by blast
    then show ?thesis using ApexAndSubdomains by (auto simp: allows_iff under)
  qed
qed

lemma allows_complete:
  assumes "normalize_domain (pattern_domain q) \<noteq> []" "hosts_of q \<subseteq> hosts_of p"
  shows "allows p q"
proof (cases q)
  case (ExactDomain c)
  then have "c \<in> hosts_of p" using assms(2) by auto
  with ExactDomain show ?thesis by (cases p) (auto simp: allows_iff)
next
  case (SubdomainsOnly c)
  with assms subdomains_covered show ?thesis by auto
next
  case (ApexAndSubdomains c)
  then have "c \<in> hosts_of p" using assms(2) by auto
  moreover have "allows p (SubdomainsOnly c)"
    using assms ApexAndSubdomains by (intro subdomains_covered) auto
  ultimately show ?thesis using ApexAndSubdomains by (cases p) (auto simp: allows_iff)
qed



section \<open>What a list of permissions means\<close>

text \<open>The permissions given for a pattern; the largest one is in force.\<close>

definition permissions_of :: "domain_entry list \<Rightarrow> string \<Rightarrow> domain_permission set" where
  "permissions_of es p = entry_permission ` {e \<in> set es. entry_pattern e = p}"

lemma finite_permissions_of [simp]: "finite (permissions_of es p)"
  by (simp add: permissions_of_def)

lemma permissions_of_Nil [simp]: "permissions_of [] p = {}"
  by (simp add: permissions_of_def)

lemma permissions_of_snoc:
  "permissions_of (es @ [e]) p =
     (if entry_pattern e = p then insert (entry_permission e) (permissions_of es p) else permissions_of es p)"
  by (auto simp: permissions_of_def)

definition in_force :: "domain_entry list \<Rightarrow> string \<Rightarrow> domain_permission option" where
  "in_force es p = (if permissions_of es p = {} then None else Some (Max (permissions_of es p)))"

lemma in_force_snoc:
  "in_force (es @ [e]) p =
     (if entry_pattern e = p
      then Some (case in_force es p of None \<Rightarrow> entry_permission e | Some x \<Rightarrow> max (entry_permission e) x)
      else in_force es p)"
  by (auto simp: in_force_def permissions_of_snoc)

lemma effective_fold:
  assumes "foldl effective_step ([], Map.empty) es = (order, perms)"
  shows "perms = in_force es" and "set order = {p. permissions_of es p \<noteq> {}}"
  using assms
proof (induction es arbitrary: order perms rule: rev_induct)
  case Nil
  {
    case 1
    then show ?case by (auto simp: in_force_def)
  next
    case 2
    then show ?case by simp
  }
next
  case (snoc e es)
  obtain o' m where f: "foldl effective_step ([], Map.empty) es = (o', m)" by fastforce
  note m = snoc.IH[OF f]
  {
    case 1
    then have step: "effective_step (o', m) e = (order, perms)" by (simp add: f)
    show ?case
    proof
      fix p
      show "perms p = in_force (es @ [e]) p"
        using step m(1)
        by (auto simp: effective_step_def Let_def in_force_snoc max_def split: option.splits if_splits)
    qed
  next
    case 2
    then have step: "effective_step (o', m) e = (order, perms)" by (simp add: f)
    show ?case
      using step m by (auto simp: effective_step_def Let_def in_force_def permissions_of_snoc split: if_splits)
  }
qed

lemma effective_entries_set:
  "e \<in> set (effective_entries es) \<longleftrightarrow> in_force es (entry_pattern e) = Some (entry_permission e)"
proof -
  obtain order perms where f: "foldl effective_step ([], Map.empty) es = (order, perms)" by fastforce
  show ?thesis
    using effective_fold[OF f]
    by (cases e) (auto simp: effective_entries_def f List.map_filter_def in_force_def image_iff split: if_splits)
qed

text \<open>\<open>unwrap_or_default\<close> of the two lists.\<close>

definition domain_list :: "domain_entry list option \<Rightarrow> domain_permission \<Rightarrow> string list" where
  "domain_list domains permission = (case domain_entries domains permission of None \<Rightarrow> [] | Some l \<Rightarrow> l)"

lemma domain_list_in_force:
  "p \<in> set (domain_list (Some es) x) \<longleftrightarrow> in_force es p = Some x"
proof -
  have "p \<in> set (domain_list (Some es) x) \<longleftrightarrow>
      (\<exists>e \<in> set (effective_entries es). entry_permission e = x \<and> entry_pattern e = p)"
    by (auto simp: domain_list_def domain_entries_def Let_def filter_empty_conv)
  also have "\<dots> \<longleftrightarrow> in_force es p = Some x"
    using effective_entries_set[of "\<lparr>entry_pattern = p, entry_permission = x\<rparr>" es]
    by (auto simp: effective_entries_set intro: bexI[of _ "\<lparr>entry_pattern = p, entry_permission = x\<rparr>"])
  finally show ?thesis .
qed

lemma domain_list_None [simp]: "domain_list None x = []"
  by (simp add: domain_list_def domain_entries_def)

text \<open>A denial is in force wherever there is one; a permission only where there is none.\<close>

lemma denied_iff:
  "p \<in> set (domain_list (Some es) DenyDomain) \<longleftrightarrow> (\<exists>e \<in> set es. entry_pattern e = p \<and> entry_permission e = DenyDomain)"
proof -
  have "x \<le> DenyDomain" for x by (cases x) (simp_all add: less_eq_domain_permission_def)
  then have "DenyDomain \<in> permissions_of es p \<Longrightarrow> Max (permissions_of es p) = DenyDomain"
    by (intro Max_eqI) auto
  moreover have "permissions_of es p \<noteq> {} \<Longrightarrow> Max (permissions_of es p) \<in> permissions_of es p"
    by (rule Max_in) simp_all
  ultimately have "in_force es p = Some DenyDomain \<longleftrightarrow> DenyDomain \<in> permissions_of es p"
    unfolding in_force_def by (metis option.inject option.distinct(1) empty_iff)
  moreover have "DenyDomain \<in> permissions_of es p \<longleftrightarrow>
      (\<exists>e \<in> set es. entry_pattern e = p \<and> entry_permission e = DenyDomain)"
    by (auto simp: permissions_of_def image_iff)
  ultimately show ?thesis by (simp add: domain_list_in_force)
qed

lemma allowed_not_denied:
  "p \<in> set (domain_list domains AllowDomain) \<Longrightarrow> p \<notin> set (domain_list domains DenyDomain)"
  by (cases domains) (auto simp: domain_list_in_force)

section \<open>Plain names\<close>

text \<open>
  A plain name consists of lower-case letters, digits, hyphens and dots and does not end in a dot.
  It is its own normal form, and as a pattern it stands for itself.
\<close>

definition name_char :: "char \<Rightarrow> bool" where
  "name_char c \<longleftrightarrow> is_ascii_lowercase c \<or> is_ascii_digit c \<or> c = CHR ''-'' \<or> c = CHR ''.''"

definition plain_name :: "string \<Rightarrow> bool" where
  "plain_name h \<longleftrightarrow> h \<noteq> [] \<and> list_all name_char h \<and> last h \<noteq> CHR ''.''"

lemma name_char_code: "name_char c \<Longrightarrow> 45 \<le> (of_char c :: nat) \<and> (of_char c :: nat) < 128 \<and>
    \<not> (58 \<le> (of_char c :: nat) \<and> (of_char c :: nat) \<le> 96)"
  by (auto simp: name_char_def is_ascii_lowercase_def is_ascii_digit_def)

lemma name_char_lower: "name_char c \<Longrightarrow> to_ascii_lower c = c"
  using name_char_code[of c] by (auto simp: to_ascii_lower_def is_ascii_uppercase_def)

lemma name_char_not: "name_char c \<Longrightarrow> c \<notin> {CHR ''['', CHR '':'', CHR ''%'', CHR ''*'', CHR ''?''}"
  using name_char_code[of c] by auto

text \<open>Visible ASCII characters are not trimmed.\<close>

definition visible :: "char \<Rightarrow> bool" where
  "visible c \<longleftrightarrow> 32 < (of_char c :: nat) \<and> (of_char c :: nat) < 127"

lemma name_char_visible: "name_char c \<Longrightarrow> visible c"
  by (auto simp: name_char_def visible_def is_ascii_lowercase_def is_ascii_digit_def)

lemma visible_not_ws: "visible c \<Longrightarrow> e \<in> set ws_encodings \<Longrightarrow> c \<noteq> hd e \<and> c \<noteq> last e"
  by (auto simp: ws_encodings_def visible_def)

lemma trim_visible:
  assumes "list_all visible h"
  shows "str_trim h = h"
proof -
  have ne: "e \<noteq> []" if "e \<in> set ws_encodings" for e using that by (auto simp: ws_encodings_def)
  have "strip_any ws_encodings h = None"
    unfolding strip_any_None
  proof
    fix e assume e: "e \<in> set ws_encodings"
    from ne[OF this] assms visible_not_ws[OF _ e] show "\<not> prefix e h"
      by (cases e; cases h) auto
  qed
  moreover have "strip_any (map rev ws_encodings) (rev h) = None"
    unfolding strip_any_None
  proof
    fix e' assume "e' \<in> set (map rev ws_encodings)"
    then obtain e where e: "e \<in> set ws_encodings" "e' = rev e" by auto
    show "\<not> prefix e' (rev h)"
    proof
      assume "prefix e' (rev h)"
      then have "suffix e h" by (simp add: e(2) suffix_to_prefix)
      then have "last e = last h" "h \<noteq> []" using ne[OF e(1)] by (auto simp: suffix_def)
      with visible_not_ws[of "last h", OF _ e(1)] assms show False by (simp add: list_all_iff)
    qed
  qed
  ultimately show ?thesis by (simp add: str_trim_def trim_start_def trim_end_def trim_by_id)
qed

lemma trim_plain: "list_all name_char h \<Longrightarrow> str_trim h = h"
  by (rule trim_visible) (auto simp: list_all_iff name_char_visible)

lemma find_sub_None: "hd p \<notin> set s \<Longrightarrow> p \<noteq> [] \<Longrightarrow> find_sub p s = None"
  by (induction p s rule: find_sub.induct) (auto simp: neq_Nil_conv)

lemma normalize_dns_plain:
  assumes "plain_name h"
  shows "normalize_dns_host_or_ip_literal h = h"
    and "trim_end_matches (CHR ''.'') (map to_ascii_lower h) = h"
proof -
  have nc: "c \<in> set h \<Longrightarrow> name_char c" for c using assms by (simp add: plain_name_def list_all_iff)
  then have no: "CHR ''%'' \<notin> set h" using name_char_not by blast
  have lower: "map to_ascii_lower h = h" using nc by (simp add: map_idI name_char_lower)
  have dots: "trim_end_matches (CHR ''.'') h = h" using assms by (intro trim_end_matches_id) (simp add: plain_name_def)
  have "find_sub ''%25'' h = None" "find_sub ''%'' h = None" using no by (auto intro: find_sub_None)
  then have "scoped_literal h [''%25'', ''%''] = None" by (simp add: split_once_at_def)
  then show "normalize_dns_host_or_ip_literal h = h"
    by (simp add: normalize_dns_host_or_ip_literal_def lower dots normalize_ip_literal_def Let_def)
  show "trim_end_matches (CHR ''.'') (map to_ascii_lower h) = h" by (simp add: lower dots)
qed

lemma normalize_plain:
  assumes "plain_name h"
  shows "normalize_host h = h"
proof -
  have nc: "c \<in> set h \<Longrightarrow> name_char c" for c using assms by (simp add: plain_name_def list_all_iff)
  then have no: "CHR ''['' \<notin> set h" "CHR '':'' \<notin> set h" using name_char_not by blast+
  have trim: "str_trim h = h" using assms by (intro trim_plain) (simp add: plain_name_def)
  have bracket: "\<not> prefix ''['' h" using no(1) by (cases h) auto
  have count: "count_list h (CHR '':'') = 0" using no(2) by (simp add: count_list_0_iff)
  show ?thesis by (simp add: normalize_host_def trim bracket count normalize_dns_plain[OF assms])
qed

lemma plain_pattern:
  assumes "plain_name h"
  shows "normalize_pattern h = h" and "expand_domain_pattern h = [h]"
proof -
  have "CHR ''*'' \<notin> set h" using assms name_char_not unfolding plain_name_def list_all_iff by blast
  then have star: "h \<noteq> ''*''" "strip_prefix ''**.'' h = None" "strip_prefix ''*.'' h = None"
    by (auto simp: strip_prefix_def prefix_def)
  have trim: "str_trim h = h" using assms by (intro trim_plain) (simp add: plain_name_def)
  show "normalize_pattern h = h"
    by (simp add: normalize_pattern_def Let_def trim star normalize_plain[OF assms])
  show "expand_domain_pattern h = [h]"
    using assms by (simp add: expand_domain_pattern_def pattern_parse_def Let_def trim star plain_name_def)
qed

lemma plain_not_global: "plain_name h \<Longrightarrow> \<not> is_global_wildcard_domain_pattern h"
  using name_char_not[of "CHR ''*''"]
  by (auto simp: is_global_wildcard_domain_pattern_def plain_pattern plain_name_def)

lemma plain_constraint:
  assumes "plain_name h" "url_host h = Some h"
  shows "parse_for_constraints url_host h = ExactDomain h"
    and "parse_domain_for_constraints url_host h = h"
proof -
  have no: "CHR ''*'' \<notin> set h" "CHR ''?'' \<notin> set h" "CHR ''%'' \<notin> set h" "CHR ''['' \<notin> set h"
    using assms(1) name_char_not unfolding plain_name_def list_all_iff by blast+
  then have star: "strip_prefix ''**.'' h = None" "strip_prefix ''*.'' h = None" "\<not> prefix ''['' h"
    by (auto simp: strip_prefix_def prefix_def)
  have h: "str_trim h = h" "h \<noteq> []" "trim_end_matches (CHR ''.'') h = h"
    using assms(1) by (auto simp: plain_name_def intro: trim_plain trim_end_matches_id)
  show p: "parse_domain_for_constraints url_host h = h"
    by (simp add: parse_domain_for_constraints_def Let_def h star no assms(2))
  show "parse_for_constraints url_host h = ExactDomain h"
    by (simp add: parse_for_constraints_def Let_def h star p)
qed

lemma wildcard_trim:
  assumes "plain_name d"
  shows "str_trim (''*.'' @ d) = ''*.'' @ d"
proof (rule trim_visible)
  have "visible (CHR ''*'')" "visible (CHR ''.'')" by (simp_all add: visible_def)
  with assms show "list_all visible (''*.'' @ d)" by (auto simp: plain_name_def list_all_iff name_char_visible)
qed

lemma wildcard_constraint:
  assumes "plain_name d" "url_host d = Some d"
  shows "parse_for_constraints url_host (''*.'' @ d) = SubdomainsOnly d"
  using wildcard_trim[OF assms(1)] plain_constraint(2)[of d url_host] assms
  by (simp add: parse_for_constraints_def Let_def strip_prefix_def)

lemma wildcard_not_global:
  assumes "plain_name d"
  shows "\<not> is_global_wildcard_domain_pattern (''*.'' @ d)"
proof -
  have "normalize_pattern (''*.'' @ d) = ''*.'' @ d"
    using wildcard_trim[OF assms] by (simp add: normalize_pattern_def Let_def strip_prefix_def normalize_plain[OF assms])
  moreover have "str_trim d = d" "d \<noteq> []" using assms by (auto simp: plain_name_def intro: trim_plain)
  ultimately show ?thesis
    using wildcard_trim[OF assms]
    by (simp add: is_global_wildcard_domain_pattern_def expand_domain_pattern_def pattern_parse_def
        parse_domain_def Let_def strip_prefix_def)
qed

section \<open>What is compiled\<close>

lemma add_candidates_set: "add_candidates g b cs = Inr b' \<Longrightarrow> set b' = set b \<union> set cs"
  by (induction g b cs rule: add_candidates.induct) (auto split: if_splits)

lemma add_patterns_set:
  "add_patterns g gw b ps = Inr b' \<Longrightarrow>
     set b' = set b \<union> (\<Union>p \<in> set ps. set (expand_domain_pattern (normalize_pattern p)))"
proof (induction g gw b ps rule: add_patterns.induct)
  case (2 g gw b p ps)
  then obtain c where "add_candidates g b (expand_domain_pattern (normalize_pattern p)) = Inr c"
    "add_patterns g gw c ps = Inr b'"
    by (auto simp: and_then_Inr_iff split: if_splits)
  with 2 show ?case by (auto simp: add_candidates_set split: if_splits)
qed simp

lemma compiled_set:
  assumes "compile_globset_with_policy g ps gw = Inr s"
  shows "set s = (\<Union>p \<in> set ps. set (expand_domain_pattern (normalize_pattern p)))"
  using assms by (auto simp: compile_globset_with_policy_def and_then_Inr_iff dest!: add_patterns_set split: if_splits)

end
