(* ===== verification/Network_Config.thy ===== *)
theory Network_Config
  imports Network_Domain
begin

text \<open>
  The configuration of the network proxy and the managed constraints on it,
  \<^verbatim>\<open>network-proxy/src/config.rs\<close>, \<^verbatim>\<open>state.rs\<close> and \<^verbatim>\<open>socket_path.rs\<close>: the
  checks of a configuration against its constraints, and building the state a configuration is
  compiled to. Arguments of the model, in \<open>proxy_env\<close>: the glob matcher, the host parser of the url
  crate, the validity of one MITM hook (\<^verbatim>\<open>mitm_hook.rs\<close>) and whether hooks and certificates can be
  compiled. Errors of constraints are the field they name.
\<close>

section \<open>Configuration\<close>

datatype network_mode = LimitedMode | FullMode

fun allows_method :: "network_mode \<Rightarrow> string \<Rightarrow> bool" where
  "allows_method FullMode method = True"
| "allows_method LimitedMode method = (method = ''GET'' \<or> method = ''HEAD'' \<or> method = ''OPTIONS'')"

fun network_mode_rank :: "network_mode \<Rightarrow> nat" where
  "network_mode_rank LimitedMode = 0"
| "network_mode_rank FullMode = 1"

datatype unix_permission = AllowSocket | DenySocket

datatype exec_platform = OnLinux | OnMacos | OnWindows | OnUnknown

text \<open>The fields these operations do not read are in \<open>nc_rest\<close>; the map of sockets is listed in the
  order of its keys.\<close>

record ('h, 'r) network_config =
  nc_enabled :: bool
  nc_allow_upstream_proxy :: bool
  nc_allow_non_loopback :: bool
  nc_allow_all_unix_sockets :: "bool option"
  nc_mode :: network_mode
  nc_domains :: "domain_entry list option"
  nc_unix_sockets :: "(string \<times> unix_permission) list option"
  nc_allow_local_binding :: "bool option"
  nc_mitm :: bool
  nc_credential_broker :: bool
  nc_mitm_hooks :: "'h list"
  nc_rest :: 'r

definition allowed_domains :: "('h, 'r) network_config \<Rightarrow> string list option" where
  "allowed_domains c = domain_entries (nc_domains c) AllowDomain"

definition denied_domains :: "('h, 'r) network_config \<Rightarrow> string list option" where
  "denied_domains c = domain_entries (nc_domains c) DenyDomain"

definition unwrap_list :: "'a list option \<Rightarrow> 'a list" where
  "unwrap_list x = (case x of None \<Rightarrow> [] | Some l \<Rightarrow> l)"

definition unwrap_bool :: "bool option \<Rightarrow> bool \<Rightarrow> bool" where
  "unwrap_bool x d = (case x of None \<Rightarrow> d | Some b \<Rightarrow> b)"

definition allow_local_binding :: "('h, 'r) network_config \<Rightarrow> bool" where
  "allow_local_binding c = unwrap_bool (nc_allow_local_binding c) False"

definition allow_unix_sockets :: "('h, 'r) network_config \<Rightarrow> string list" where
  "allow_unix_sockets c =
     (case nc_unix_sockets c of
        None \<Rightarrow> []
      | Some m \<Rightarrow> map fst (filter (\<lambda>(_, p). p = AllowSocket) m))"

definition set_allowed_domains :: "('h, 'r) network_config \<Rightarrow> string list \<Rightarrow> ('h, 'r) network_config" where
  "set_allowed_domains c ds = c\<lparr>nc_domains := set_domain_entries (nc_domains c) ds AllowDomain\<rparr>"

section \<open>Local binding\<close>

datatype local_binding_policy = DefaultFalse | RequireTrue

definition resolve_local_binding :: "local_binding_policy \<Rightarrow> ('h, 'r) network_config \<Rightarrow> bool" where
  "resolve_local_binding pol c =
     unwrap_bool (nc_allow_local_binding c) (nc_enabled c \<and> pol = RequireTrue)"

definition resolved_config :: "local_binding_policy \<Rightarrow> ('h, 'r) network_config \<Rightarrow> ('h, 'r) network_config" where
  "resolved_config pol c = c\<lparr>nc_allow_local_binding := Some (resolve_local_binding pol c)\<rparr>"

section \<open>Socket paths\<close>

definition slash :: "char \<Rightarrow> bool" where
  "slash c \<longleftrightarrow> c = CHR ''/'' \<or> c = CHR 0x5C"

text \<open>The components of a path between slashes of either kind.\<close>

fun split_slashes :: "string \<Rightarrow> string list" where
  "split_slashes [] = [[]]"
| "split_slashes (c # s) =
     (if slash c then [] # split_slashes s
      else case split_slashes s of p # ps \<Rightarrow> (c # p) # ps | [] \<Rightarrow> [[c]])"

definition windows_path_is_absolute :: "string \<Rightarrow> bool" where
  "windows_path_is_absolute path =
     (case path of
        drive # colon # sep # _ \<Rightarrow>
          (colon = CHR '':'' \<and> slash sep \<and> (is_ascii_lowercase drive \<or> is_ascii_uppercase drive)) \<or>
          (slash drive \<and> slash colon \<and>
            (prefix [CHR 0x5C, CHR 0x5C, CHR ''?'', CHR 0x5C] path \<or>
             (case drop 2 path of c # d # _ \<Rightarrow> c = CHR ''.'' \<and> slash d | _ \<Rightarrow> False) \<or>
             (case split_slashes (drop 2 path) of server # share # _ \<Rightarrow> server \<noteq> [] \<and> share \<noteq> [] | _ \<Rightarrow> False)))
      | _ \<Rightarrow> False)"

definition socket_path_is_absolute :: "exec_platform \<Rightarrow> string \<Rightarrow> bool" where
  "socket_path_is_absolute os path =
     (prefix ''/'' path \<or>
      (case os of
         OnLinux \<Rightarrow> False
       | OnMacos \<Rightarrow> False
       | OnWindows \<Rightarrow> windows_path_is_absolute path
       | OnUnknown \<Rightarrow> windows_path_is_absolute path))"

definition validate_unix_socket_allowlist_paths :: "('h, 'r) network_config \<Rightarrow> exec_platform \<Rightarrow> bool" where
  "validate_unix_socket_allowlist_paths c os =
     list_all (\<lambda>p. socket_path_is_absolute os p \<and> CHR 0x00 \<notin> set p) (allow_unix_sockets c)"

section \<open>Constraints\<close>

record proxy_constraints =
  pc_enabled :: "bool option"
  pc_mode :: "network_mode option"
  pc_allow_upstream_proxy :: "bool option"
  pc_allow_non_loopback :: "bool option"
  pc_allow_all_unix_sockets :: "bool option"
  pc_allowed_domains :: "string list option"
  pc_allowlist_expansion :: "bool option"
  pc_denied_domains :: "string list option"
  pc_denylist_expansion :: "bool option"
  pc_allow_unix_sockets :: "string list option"
  pc_allow_local_binding :: "bool option"

record ('h, 'r) proxy_env =
  env_globs :: globs
  env_url_host :: "string \<Rightarrow> string option"
  env_hook_ok :: "'h \<Rightarrow> bool"
  env_mitm_builds :: "('h, 'r) network_config \<Rightarrow> bool"

abbreviation lower_set :: "string list \<Rightarrow> string set" where
  "lower_set xs \<equiv> set (map (map to_ascii_lower) xs)"

definition validate_mitm_hook_config :: "('h, 'r) proxy_env \<Rightarrow> ('h, 'r) network_config \<Rightarrow> bool" where
  "validate_mitm_hook_config env c \<longleftrightarrow>
     nc_mitm_hooks c = [] \<or> (nc_mitm c \<and> list_all (env_hook_ok env) (nc_mitm_hooks c))"

definition has_global_wildcard :: "string list \<Rightarrow> bool" where
  "has_global_wildcard ps = list_ex is_global_wildcard_domain_pattern ps"

text \<open>A check is the field and the condition under which it is rejected.\<close>

fun first_error :: "(string \<times> bool) list \<Rightarrow> string + unit" where
  "first_error [] = Inr ()"
| "first_error ((field, rejected) # checks) = (if rejected then Inl field else first_error checks)"

lemma first_error_ok: "first_error checks = Inr () \<longleftrightarrow> (\<forall>(f, r) \<in> set checks. \<not> r)"
  by (induction checks rule: first_error.induct) auto

definition allowlist_rejected ::
  "('h, 'r) proxy_env \<Rightarrow> bool option \<Rightarrow> string list \<Rightarrow> string list \<Rightarrow> string list \<Rightarrow> bool" where
  "allowlist_rejected env expansion managed allowed denied =
     (case expansion of
        Some True \<Rightarrow> \<not> lower_set managed \<subseteq> lower_set allowed \<union> lower_set denied
      | Some False \<Rightarrow> lower_set allowed \<noteq> lower_set managed - lower_set denied
      | None \<Rightarrow>
          list_ex (\<lambda>entry. \<not> list_ex (\<lambda>m. allows (parse_for_constraints (env_url_host env) m)
                                             (parse_for_constraints (env_url_host env) entry)) managed) allowed)"

definition denylist_rejected :: "bool option \<Rightarrow> string list \<Rightarrow> string list \<Rightarrow> bool" where
  "denylist_rejected expansion managed denied =
     (case expansion of
        Some False \<Rightarrow> lower_set denied \<noteq> lower_set managed
      | _ \<Rightarrow> \<not> lower_set managed \<subseteq> lower_set denied)"

definition constraint_checks ::
  "('h, 'r) proxy_env \<Rightarrow> ('h, 'r) network_config \<Rightarrow> proxy_constraints \<Rightarrow> (string \<times> bool) list" where
  "constraint_checks env c k =
     (let allowed = unwrap_list (allowed_domains c); denied = unwrap_list (denied_domains c)
      in [(''network.mitm_hooks'', \<not> validate_mitm_hook_config env c),
          (''network.denied_domains'', has_global_wildcard denied),
          (''network.enabled'', pc_enabled k = Some False \<and> nc_enabled c),
          (''network.mode'',
             case pc_mode k of Some m \<Rightarrow> network_mode_rank m < network_mode_rank (nc_mode c) | None \<Rightarrow> False),
          (''network.allow_upstream_proxy'', pc_allow_upstream_proxy k = Some False \<and> nc_allow_upstream_proxy c),
          (''network.dangerously_allow_non_loopback_proxy'',
             pc_allow_non_loopback k = Some False \<and> nc_allow_non_loopback c),
          (''network.dangerously_allow_all_unix_sockets'',
             unwrap_bool (nc_allow_all_unix_sockets c) False \<and>
             \<not> unwrap_bool (pc_allow_all_unix_sockets k) (pc_allow_unix_sockets k = None)),
          (''network.allow_local_binding'', pc_allow_local_binding k = Some False \<and> allow_local_binding c)]
         @ (case pc_allowed_domains k of
              None \<Rightarrow> []
            | Some managed \<Rightarrow>
                [(''network.allowed_domains'', has_global_wildcard managed),
                 (''network.allowed_domains'',
                    allowlist_rejected env (pc_allowlist_expansion k) managed allowed denied)])
         @ (case pc_denied_domains k of
              None \<Rightarrow> []
            | Some managed \<Rightarrow>
                [(''network.denied_domains'', has_global_wildcard managed),
                 (''network.denied_domains'', denylist_rejected (pc_denylist_expansion k) managed denied)])
         @ (case pc_allow_unix_sockets k of
              None \<Rightarrow> []
            | Some managed \<Rightarrow>
                [(''network.allow_unix_sockets'', \<not> lower_set (allow_unix_sockets c) \<subseteq> lower_set managed)]))"

definition validate_policy_against_constraints ::
  "('h, 'r) proxy_env \<Rightarrow> ('h, 'r) network_config \<Rightarrow> proxy_constraints \<Rightarrow> string + unit" where
  "validate_policy_against_constraints env c k = first_error (constraint_checks env c k)"

section \<open>Building the state\<close>

record blocked_request =
  br_host :: string
  br_reason :: string
  br_client :: "string option"
  br_method :: "string option"
  br_mode :: "network_mode option"
  br_protocol :: string
  br_execution_id :: "string option"
  br_decision :: "string option"
  br_source :: "string option"
  br_port :: "nat option"
  br_timestamp :: int

record ('h, 'r) config_state =
  cs_os :: exec_platform
  cs_config :: "('h, 'r) network_config"
  cs_default_allowlist :: bool
  cs_allow_set :: "string list"
  cs_deny_set :: "string list"
  cs_constraints :: proxy_constraints
  cs_blocked :: "blocked_request list"
  cs_blocked_total :: nat

datatype build_error = BadSocketPath | BrokerNeedsMitm | GlobalWildcardDenied | BadGlobs compile_error | MitmNotBuilt

definition broker_config :: "proxy_constraints \<Rightarrow> ('h, 'r) network_config \<Rightarrow> ('h, 'r) network_config \<times> bool" where
  "broker_config k c0 =
     (let c1 = (if pc_enabled k = Some False then c0\<lparr>nc_credential_broker := False\<rparr> else c0);
          created = nc_credential_broker c1 \<and> \<not> nc_enabled c1;
          default_allowlist = created \<and> allowed_domains c1 = None \<and> pc_allowed_domains k = None;
          c2 = (if created then c1\<lparr>nc_enabled := True\<rparr> else c1);
          c3 = (if default_allowlist then set_allowed_domains c2 [''*''] else c2)
      in (c3, default_allowlist))"

definition map_error :: "('e \<Rightarrow> 'f) \<Rightarrow> 'e + 'a \<Rightarrow> 'f + 'a" where
  "map_error f r = (case r of Inl e \<Rightarrow> Inl (f e) | Inr a \<Rightarrow> Inr a)"

definition build_config_state ::
  "('h, 'r) proxy_env \<Rightarrow> ('h, 'r) network_config \<Rightarrow> proxy_constraints \<Rightarrow> exec_platform
     \<Rightarrow> build_error + ('h, 'r) config_state" where
  "build_config_state env c0 k os =
     (let (c, default_allowlist) = broker_config k c0
      in if \<not> validate_unix_socket_allowlist_paths c os then Inl BadSocketPath
         else if nc_credential_broker c \<and> \<not> nc_mitm c then Inl BrokerNeedsMitm
         else let allowed = unwrap_list (allowed_domains c); denied = unwrap_list (denied_domains c)
              in if has_global_wildcard denied then Inl GlobalWildcardDenied
                 else and_then (map_error BadGlobs (compile_denylist_globset (env_globs env) denied)) (\<lambda>deny_set.
                   and_then (map_error BadGlobs (compile_allowlist_globset (env_globs env) allowed)) (\<lambda>allow_set.
                     if env_mitm_builds env c
                     then Inr \<lparr>cs_os = os, cs_config = c, cs_default_allowlist = default_allowlist,
                               cs_allow_set = allow_set, cs_deny_set = deny_set, cs_constraints = k,
                               cs_blocked = [], cs_blocked_total = 0\<rparr>
                     else Inl MitmNotBuilt)))"

section \<open>What the checks guarantee\<close>

lemma valid_checks:
  "validate_policy_against_constraints env c k = Inr () \<longleftrightarrow> (\<forall>(f, r) \<in> set (constraint_checks env c k). \<not> r)"
  by (simp add: validate_policy_against_constraints_def first_error_ok)

lemma unwrap_allowed: "unwrap_list (allowed_domains c) = domain_list (nc_domains c) AllowDomain"
  by (simp add: unwrap_list_def allowed_domains_def domain_list_def)

lemma unwrap_denied: "unwrap_list (denied_domains c) = domain_list (nc_domains c) DenyDomain"
  by (simp add: unwrap_list_def denied_domains_def domain_list_def)

lemma valid_allowlist:
  assumes "validate_policy_against_constraints env c k = Inr ()" "pc_allowed_domains k = Some managed"
  shows "\<not> allowlist_rejected env (pc_allowlist_expansion k) managed (domain_list (nc_domains c) AllowDomain)
           (domain_list (nc_domains c) DenyDomain)"
  using assms unfolding valid_checks constraint_checks_def by (auto simp: Let_def unwrap_allowed unwrap_denied)

lemma valid_denylist:
  assumes "validate_policy_against_constraints env c k = Inr ()" "pc_denied_domains k = Some managed"
  shows "\<not> denylist_rejected (pc_denylist_expansion k) managed (domain_list (nc_domains c) DenyDomain)"
  using assms unfolding valid_checks constraint_checks_def by (auto simp: Let_def unwrap_denied)


definition plain_globs :: globs where
  "plain_globs = \<lparr>glob_valid = \<lambda>_. True, glob_matches = \<lambda>p h. p = ''*'' \<or> p = h, set_builds = \<lambda>_. True\<rparr>"

definition plain_env :: "(unit, unit) proxy_env" where
  "plain_env = \<lparr>env_globs = plain_globs, env_url_host = Some, env_hook_ok = \<lambda>_. True, env_mitm_builds = \<lambda>_. True\<rparr>"

definition example_config :: "domain_entry list \<Rightarrow> (unit, unit) network_config" where
  "example_config es = \<lparr>nc_enabled = True, nc_allow_upstream_proxy = True, nc_allow_non_loopback = False,
     nc_allow_all_unix_sockets = None, nc_mode = FullMode, nc_domains = Some es, nc_unix_sockets = None,
     nc_allow_local_binding = None, nc_mitm = False, nc_credential_broker = False, nc_mitm_hooks = [],
     nc_rest = ()\<rparr>"

definition example_constraints :: proxy_constraints where
  "example_constraints = \<lparr>pc_enabled = None, pc_mode = None, pc_allow_upstream_proxy = None,
     pc_allow_non_loopback = None, pc_allow_all_unix_sockets = None,
     pc_allowed_domains = Some [''*.example.com''], pc_allowlist_expansion = None,
     pc_denied_domains = None, pc_denylist_expansion = None, pc_allow_unix_sockets = None,
     pc_allow_local_binding = None\<rparr>"


section \<open>Changes of a valid configuration\<close>

lemma mode_check_separate:
  assumes "validate_policy_against_constraints env c k = Inr ()"
    and "validate_policy_against_constraints env (c'\<lparr>nc_mode := m\<rparr>) k = Inr ()"
  shows "validate_policy_against_constraints env (c\<lparr>nc_mode := m\<rparr>) k = Inr ()"
proof -
  have lists: "allowed_domains (c\<lparr>nc_mode := m\<rparr>) = allowed_domains c" "denied_domains (c\<lparr>nc_mode := m\<rparr>) = denied_domains c"
    "allow_unix_sockets (c\<lparr>nc_mode := m\<rparr>) = allow_unix_sockets c"
    "allow_local_binding (c\<lparr>nc_mode := m\<rparr>) = allow_local_binding c"
    "validate_mitm_hook_config env (c\<lparr>nc_mode := m\<rparr>) = validate_mitm_hook_config env c" for c
    by (simp_all add: allowed_domains_def denied_domains_def allow_unix_sockets_def allow_local_binding_def
        validate_mitm_hook_config_def)
  show ?thesis
    using assms unfolding valid_checks constraint_checks_def Let_def set_append ball_Un lists
    by (cases "pc_mode k"; cases "pc_allowed_domains k"; cases "pc_denied_domains k";
        cases "pc_allow_unix_sockets k") simp_all
qed

lemma resolved_mode: "resolved_config pol (c\<lparr>nc_mode := m\<rparr>) = (resolved_config pol c)\<lparr>nc_mode := m\<rparr>"
  by (simp add: resolved_config_def resolve_local_binding_def)

text \<open>What holds of every built state, and that building leaves such a configuration alone.\<close>

definition broker_settled :: "proxy_constraints \<Rightarrow> ('h, 'r) network_config \<Rightarrow> bool" where
  "broker_settled k c \<longleftrightarrow> (nc_credential_broker c \<longrightarrow> nc_enabled c) \<and>
     (pc_enabled k = Some False \<longrightarrow> \<not> nc_credential_broker c)"

lemma broker_settled_fixed: "broker_settled k c \<Longrightarrow> broker_config k c = (c, False)"
  by (auto simp: broker_settled_def broker_config_def Let_def)

lemma broker_config_settled: "broker_settled k (fst (broker_config k c))"
  by (auto simp: broker_settled_def broker_config_def Let_def set_allowed_domains_def)

lemma built_state:
  assumes "build_config_state env c k os = Inr st"
  shows "cs_config st = fst (broker_config k c)" "cs_constraints st = k" "cs_os st = os"
    "cs_blocked st = []" "cs_blocked_total st = 0"
    "compile_denylist_globset (env_globs env) (unwrap_list (denied_domains (cs_config st))) = Inr (cs_deny_set st)"
    "compile_allowlist_globset (env_globs env) (unwrap_list (allowed_domains (cs_config st))) = Inr (cs_allow_set st)"
  using assms
  by (auto simp: build_config_state_def Let_def and_then_Inr_iff map_error_def
      split: prod.splits if_splits sum.splits)

end
