(* ===== verification/Network_State.thy ===== *)
theory Network_State
  imports Network_Config
begin

text \<open>
  The decisions of the network proxy and the state they are made from,
  \<^verbatim>\<open>network-proxy/src/runtime.rs\<close>, \<^verbatim>\<open>network_policy.rs\<close> and \<^verbatim>\<open>connect_policy.rs\<close>. The
  state is shared by the connections of the proxy: operations read it under a lock, work without the
  lock and write it back under the lock, and the step relation interleaves these parts. Arguments:
  \<open>lookup\<close>, the DNS resolver (\<open>None\<close> for a failure or a timeout), the policy decider, and the states
  a configuration reloader delivers.
\<close>

section \<open>Decisions about hosts\<close>

datatype host_block_reason = Denied | NotAllowed | NotAllowedLocal

fun block_reason_str :: "host_block_reason \<Rightarrow> string" where
  "block_reason_str Denied = ''denied''"
| "block_reason_str NotAllowed = ''not_allowed''"
| "block_reason_str NotAllowedLocal = ''not_allowed_local''"

datatype host_block_decision = HostAllowed | HostBlocked host_block_reason

type_synonym dns_lookup = "string \<Rightarrow> nat \<Rightarrow> ip_addr list option"

definition host_resolves_to_non_public_ip :: "dns_lookup \<Rightarrow> string \<Rightarrow> nat \<Rightarrow> bool" where
  "host_resolves_to_non_public_ip lookup host port =
     (case parse_ip host of
        Some ip \<Rightarrow> is_non_public_ip ip
      | None \<Rightarrow>
          (case lookup host port of
             None \<Rightarrow> True
           | Some addrs \<Rightarrow> list_ex is_non_public_ip addrs))"

definition explicit_local_pattern :: "string \<Rightarrow> string \<Rightarrow> bool" where
  "explicit_local_pattern host raw =
     (let pattern = str_trim raw
      in if pattern = ''*'' \<or> prefix ''*.'' pattern \<or> prefix ''**.'' pattern then False
         else if CHR ''*'' \<in> set pattern \<or> CHR ''?'' \<in> set pattern then False
         else let normalized = normalize_host pattern
              in normalized = host \<or> unscoped_ip_literal host = Some normalized)"

definition is_explicit_local_allowlisted :: "string list \<Rightarrow> string \<Rightarrow> bool" where
  "is_explicit_local_allowlisted domains host = list_ex (explicit_local_pattern host) domains"

definition local_literal :: "string \<Rightarrow> bool" where
  "local_literal host =
     (let host_no_scope = (case unscoped_ip_literal host of Some ip \<Rightarrow> ip | None \<Rightarrow> host)
      in if is_loopback_host host then True
         else case parse_ip host_no_scope of Some ip \<Rightarrow> is_non_public_ip ip | None \<Rightarrow> False)"

definition local_binding_in_force ::
  "local_binding_policy \<Rightarrow> bool option \<Rightarrow> ('h, 'r) network_config \<Rightarrow> bool" where
  "local_binding_in_force pol override c \<longleftrightarrow>
     unwrap_bool override (resolve_local_binding pol c) \<and> nc_allow_local_binding c \<noteq> Some False"

definition host_blocked_with_local_binding ::
  "('h, 'r) proxy_env \<Rightarrow> local_binding_policy \<Rightarrow> dns_lookup \<Rightarrow> ('h, 'r) config_state \<Rightarrow> string \<Rightarrow> nat
     \<Rightarrow> bool option \<Rightarrow> host_block_decision" where
  "host_blocked_with_local_binding env pol lookup st raw port override =
     (case host_parse raw of
        None \<Rightarrow> HostBlocked NotAllowed
      | Some host \<Rightarrow>
          (let allowed = allowed_domains (cs_config st);
               local_ok = local_binding_in_force pol override (cs_config st);
               is_allowlisted = globset_matches_host_or_unscoped (env_globs env) (cs_allow_set st) host
           in if globset_matches_host_or_unscoped (env_globs env) (cs_deny_set st) host then HostBlocked Denied
              else if \<not> local_ok \<and>
                      (if local_literal host then \<not> is_explicit_local_allowlisted (unwrap_list allowed) host
                       else host_resolves_to_non_public_ip lookup host port)
                then HostBlocked NotAllowedLocal
              else if allowed = None \<or> \<not> is_allowlisted then HostBlocked NotAllowed
              else HostAllowed))"

definition host_blocked ::
  "('h, 'r) proxy_env \<Rightarrow> local_binding_policy \<Rightarrow> dns_lookup \<Rightarrow> ('h, 'r) config_state \<Rightarrow> string \<Rightarrow> nat
     \<Rightarrow> host_block_decision" where
  "host_blocked env pol lookup st raw port = host_blocked_with_local_binding env pol lookup st raw port None"

section \<open>Policy decisions\<close>

datatype proxy_protocol = PHttp | PHttpsConnect | PSocks5Tcp | PSocks5Udp

datatype decision_source = BaselinePolicy | ModeGuard | ProxyState | Decider

datatype policy_decision = DecisionDeny | DecisionAsk

datatype network_decision = NetAllow | NetDeny string decision_source policy_decision

definition deny_with_source :: "string \<Rightarrow> decision_source \<Rightarrow> network_decision" where
  "deny_with_source reason source =
     NetDeny (if reason = [] then ''policy_denied'' else reason) source DecisionDeny"

definition ask_with_source :: "string \<Rightarrow> decision_source \<Rightarrow> network_decision" where
  "ask_with_source reason source =
     NetDeny (if reason = [] then ''policy_denied'' else reason) source DecisionAsk"

record network_request =
  rq_protocol :: proxy_protocol
  rq_host :: string
  rq_port :: nat
  rq_environment_id :: "string option"
  rq_client_addr :: "string option"
  rq_method :: "string option"
  rq_command :: "string option"
  rq_exec_policy_hint :: "string option"
  rq_execution_id :: "string option"

fun map_decider_decision :: "network_decision \<Rightarrow> network_decision" where
  "map_decider_decision NetAllow = NetAllow"
| "map_decider_decision (NetDeny reason source d) = NetDeny reason Decider d"

fun policy_decision_str :: "policy_decision \<Rightarrow> string" where
  "policy_decision_str DecisionDeny = ''deny''"
| "policy_decision_str DecisionAsk = ''ask''"

text \<open>The audit event: decision, source, reason, and whether the decider overrode the policy.\<close>

record policy_audit =
  au_decision :: string
  au_source :: decision_source
  au_reason :: string
  au_override :: bool

definition audit_of :: "network_decision \<Rightarrow> bool \<Rightarrow> policy_audit" where
  "audit_of d override =
     (case d of
        NetAllow \<Rightarrow> \<lparr>au_decision = ''allow'', au_source = (if override then Decider else BaselinePolicy),
                     au_reason = (if override then block_reason_str NotAllowed else ''allow''), au_override = override\<rparr>
      | NetDeny reason source pd \<Rightarrow>
          \<lparr>au_decision = policy_decision_str pd, au_source = source, au_reason = reason, au_override = override\<rparr>)"

definition evaluate_host_policy ::
  "('h, 'r) proxy_env \<Rightarrow> local_binding_policy \<Rightarrow> dns_lookup \<Rightarrow> ('h, 'r) config_state
     \<Rightarrow> string option \<Rightarrow> string option \<Rightarrow> (network_request \<Rightarrow> network_decision) option \<Rightarrow> network_request
     \<Rightarrow> network_decision \<times> policy_audit" where
  "evaluate_host_policy env pol lookup st environment_id execution_id decider request =
     (let (d, override) =
        (case host_blocked env pol lookup st (rq_host request) (rq_port request) of
           HostAllowed \<Rightarrow> (NetAllow, False)
         | HostBlocked NotAllowed \<Rightarrow>
             (case decider of
                Some decide \<Rightarrow>
                  (let request' = (if rq_environment_id request = None
                                   then request\<lparr>rq_environment_id := environment_id\<rparr> else request);
                       answer = map_decider_decision (decide (request'\<lparr>rq_execution_id := execution_id\<rparr>))
                   in (answer, answer = NetAllow))
              | None \<Rightarrow> (deny_with_source (block_reason_str NotAllowed) BaselinePolicy, False))
         | HostBlocked reason \<Rightarrow> (deny_with_source (block_reason_str reason) BaselinePolicy, False))
      in (d, audit_of d override))"

section \<open>The check at connection time\<close>

text \<open>\<open>rama_net::address::Host\<close>: a name or an address; \<open>show_target\<close> is its display.\<close>

datatype target_host = TargetName string | TargetAddress ip_addr

definition named_localhost :: "string \<Rightarrow> bool" where
  "named_localhost name \<longleftrightarrow> map to_ascii_lower (trim_end_matches (CHR ''.'') name) = ''localhost''"

fun is_non_public_target :: "target_host \<Rightarrow> bool" where
  "is_non_public_target (TargetAddress ip) = is_non_public_ip ip"
| "is_non_public_target (TargetName name) = named_localhost name"

fun target_matches_non_public_addr :: "target_host \<Rightarrow> ip_addr \<Rightarrow> bool" where
  "target_matches_non_public_addr (TargetAddress ip) addr = (ip = addr)"
| "target_matches_non_public_addr (TargetName name) addr = (named_localhost name \<and> ip_is_loopback addr)"

definition allows_non_public_target ::
  "('h, 'r) proxy_env \<Rightarrow> local_binding_policy \<Rightarrow> dns_lookup \<Rightarrow> ('h, 'r) config_state
     \<Rightarrow> (target_host \<Rightarrow> string) \<Rightarrow> target_host \<Rightarrow> nat \<Rightarrow> ip_addr \<Rightarrow> bool" where
  "allows_non_public_target env pol lookup st show_target target port addr =
     (if resolve_local_binding pol (cs_config st) then True
      else if \<not> target_matches_non_public_addr target addr then False
      else host_blocked env pol lookup st (show_target target) port = HostAllowed)"

text \<open>Whether a connection to an address is attempted for a target.\<close>

definition connect_permitted ::
  "('h, 'r) proxy_env \<Rightarrow> local_binding_policy \<Rightarrow> dns_lookup \<Rightarrow> ('h, 'r) config_state
     \<Rightarrow> (target_host \<Rightarrow> string) \<Rightarrow> target_host \<Rightarrow> nat \<Rightarrow> ip_addr \<Rightarrow> bool" where
  "connect_permitted env pol lookup st show_target target port addr =
     (\<not> (is_non_public_ip addr \<and> \<not> allows_non_public_target env pol lookup st show_target target port addr))"

section \<open>Changing the state\<close>

definition MAX_BLOCKED_EVENTS :: nat where
  "MAX_BLOCKED_EVENTS = 200"

definition u64_top :: nat where
  "u64_top = 2 ^ 64 - 1"

definition keep_blocked :: "('h, 'r) config_state \<Rightarrow> ('h, 'r) config_state \<Rightarrow> ('h, 'r) config_state" where
  "keep_blocked old new = new\<lparr>cs_blocked := cs_blocked old, cs_blocked_total := cs_blocked_total old\<rparr>"

definition reload_if_needed ::
  "('h, 'r) config_state \<Rightarrow> 'e + ('h, 'r) config_state option \<Rightarrow> ('h, 'r) config_state \<times> ('e + unit)" where
  "reload_if_needed st maybe =
     (case maybe of
        Inl e \<Rightarrow> (st, Inl e)
      | Inr None \<Rightarrow> (st, Inr ())
      | Inr (Some new) \<Rightarrow> (keep_blocked st new, Inr ()))"

definition force_reload ::
  "('h, 'r) config_state \<Rightarrow> 'e + ('h, 'r) config_state \<Rightarrow> ('h, 'r) config_state \<times> ('e + unit)" where
  "force_reload st reloaded =
     (case reloaded of
        Inl e \<Rightarrow> (st, Inl e)
      | Inr new \<Rightarrow> (new\<lparr>cs_blocked := cs_blocked st\<rparr>, Inr ()))"

definition replace_config_state :: "('h, 'r) config_state \<Rightarrow> ('h, 'r) config_state \<Rightarrow> ('h, 'r) config_state" where
  "replace_config_state st new = keep_blocked st new"

definition record_blocked ::
  "('h, 'r) config_state \<Rightarrow> string option \<Rightarrow> blocked_request \<Rightarrow> ('h, 'r) config_state" where
  "record_blocked st execution_id e =
     (let blocked = cs_blocked st @ [e\<lparr>br_execution_id := execution_id\<rparr>]
      in st\<lparr>cs_blocked := drop (length blocked - MAX_BLOCKED_EVENTS) blocked,
            cs_blocked_total := min (cs_blocked_total st + 1) u64_top\<rparr>)"

definition blocked_snapshot :: "('h, 'r) config_state \<Rightarrow> blocked_request list" where
  "blocked_snapshot st = cs_blocked st"

definition drain_blocked :: "('h, 'r) config_state \<Rightarrow> ('h, 'r) config_state \<times> blocked_request list" where
  "drain_blocked st = (st\<lparr>cs_blocked := []\<rparr>, cs_blocked st)"

datatype domain_list_kind = AllowList | DenyList

fun kind_permission :: "domain_list_kind \<Rightarrow> domain_permission" where
  "kind_permission AllowList = AllowDomain"
| "kind_permission DenyList = DenyDomain"

fun kind_entries :: "domain_list_kind \<Rightarrow> ('h, 'r) network_config \<Rightarrow> string list" where
  "kind_entries AllowList c = unwrap_list (allowed_domains c)"
| "kind_entries DenyList c = unwrap_list (denied_domains c)"

fun kind_opposite_entries :: "domain_list_kind \<Rightarrow> ('h, 'r) network_config \<Rightarrow> string list" where
  "kind_opposite_entries AllowList c = unwrap_list (denied_domains c)"
| "kind_opposite_entries DenyList c = unwrap_list (allowed_domains c)"

text \<open>What a call of \<open>update_domain_list\<close> read, what it prepares without the lock, and what it does under
  the write lock: it starts over when the configuration, the constraints or the platform changed.\<close>

record ('h, 'r) update_ticket =
  tk_config :: "('h, 'r) network_config"
  tk_constraints :: proxy_constraints
  tk_blocked :: "blocked_request list"
  tk_blocked_total :: nat
  tk_os :: exec_platform

datatype update_error = InvalidHost | Constrained string | UpdateNotBuilt build_error

definition update_read :: "('h, 'r) config_state \<Rightarrow> ('h, 'r) update_ticket" where
  "update_read st =
     \<lparr>tk_config = cs_config st, tk_constraints = cs_constraints st, tk_blocked = cs_blocked st,
      tk_blocked_total = cs_blocked_total st, tk_os = cs_os st\<rparr>"

definition update_candidate :: "string \<Rightarrow> domain_list_kind \<Rightarrow> ('h, 'r) network_config \<Rightarrow> ('h, 'r) network_config" where
  "update_candidate host kind c =
     c\<lparr>nc_domains := upsert_domain_permission (nc_domains c) host (kind_permission kind)\<rparr>"

definition update_plan ::
  "('h, 'r) proxy_env \<Rightarrow> local_binding_policy \<Rightarrow> string \<Rightarrow> domain_list_kind \<Rightarrow> ('h, 'r) update_ticket
     \<Rightarrow> update_error + ('h, 'r) config_state option" where
  "update_plan env pol host kind tk =
     (if list_ex (\<lambda>e. normalize_host e = host) (kind_entries kind (tk_config tk)) \<and>
         \<not> list_ex (\<lambda>e. normalize_host e = host) (kind_opposite_entries kind (tk_config tk))
      then Inr None
      else let candidate = update_candidate host kind (tk_config tk)
           in and_then (map_error Constrained
                  (validate_policy_against_constraints env (resolved_config pol candidate) (tk_constraints tk))) (\<lambda>_.
                and_then (map_error UpdateNotBuilt (build_config_state env candidate (tk_constraints tk) (tk_os tk)))
                  (\<lambda>new. Inr (Some (new\<lparr>cs_blocked := tk_blocked tk, cs_blocked_total := tk_blocked_total tk\<rparr>)))))"

definition update_commit ::
  "('h, 'r) config_state \<Rightarrow> ('h, 'r) update_ticket \<Rightarrow> ('h, 'r) config_state \<Rightarrow> ('h, 'r) config_state option" where
  "update_commit st tk new =
     (if cs_constraints st \<noteq> tk_constraints tk \<or> cs_config st \<noteq> tk_config tk \<or> cs_os st \<noteq> tk_os tk then None
      else Some new)"

text \<open>A call that is not interrupted commits in its first round.\<close>

definition update_domain_list ::
  "('h, 'r) proxy_env \<Rightarrow> local_binding_policy \<Rightarrow> ('h, 'r) config_state \<Rightarrow> string \<Rightarrow> domain_list_kind
     \<Rightarrow> ('h, 'r) config_state \<times> (update_error + unit)" where
  "update_domain_list env pol st raw kind =
     (case host_parse raw of
        None \<Rightarrow> (st, Inl InvalidHost)
      | Some host \<Rightarrow>
          (case update_plan env pol host kind (update_read st) of
             Inl e \<Rightarrow> (st, Inl e)
           | Inr None \<Rightarrow> (st, Inr ())
           | Inr (Some new) \<Rightarrow> (new, Inr ())))"

lemma uninterrupted_commit: "update_commit st (update_read st) new = Some new"
  by (simp add: update_commit_def update_read_def)

definition mode_plan ::
  "('h, 'r) proxy_env \<Rightarrow> local_binding_policy \<Rightarrow> network_mode \<Rightarrow> ('h, 'r) network_config \<Rightarrow> proxy_constraints
     \<Rightarrow> string + unit" where
  "mode_plan env pol m c k =
     validate_policy_against_constraints env (resolved_config pol (c\<lparr>nc_mode := m\<rparr>)) k"

definition mode_commit ::
  "('h, 'r) config_state \<Rightarrow> network_mode \<Rightarrow> proxy_constraints \<Rightarrow> ('h, 'r) config_state option" where
  "mode_commit st m k =
     (if cs_constraints st \<noteq> k then None
      else Some (st\<lparr>cs_config := (cs_config st)\<lparr>nc_mode := m\<rparr>\<rparr>))"

section \<open>A state to try them on\<close>

definition open_constraints :: proxy_constraints where
  "open_constraints = \<lparr>pc_enabled = None, pc_mode = None, pc_allow_upstream_proxy = None,
     pc_allow_non_loopback = None, pc_allow_all_unix_sockets = None, pc_allowed_domains = None,
     pc_allowlist_expansion = None, pc_denied_domains = None, pc_denylist_expansion = None,
     pc_allow_unix_sockets = None, pc_allow_local_binding = None\<rparr>"

definition example_state :: "string list \<Rightarrow> (unit, unit) config_state" where
  "example_state allowed =
     \<lparr>cs_os = OnLinux,
      cs_config = example_config (map (\<lambda>p. \<lparr>entry_pattern = p, entry_permission = AllowDomain\<rparr>) allowed),
      cs_default_allowlist = False, cs_allow_set = allowed, cs_deny_set = [], cs_constraints = open_constraints,
      cs_blocked = [], cs_blocked_total = 0\<rparr>"

definition public_lookup :: dns_lookup where
  "public_lookup host port = Some [V4 (ipv4_of_octets [93, 184, 216, 34])]"

text \<open>A text that starts with neither a hexadecimal digit nor a colon is not an address.\<close>

definition no_ip_start :: "string \<Rightarrow> bool" where
  "no_ip_start s \<longleftrightarrow> s = [] \<or> (digit_of 16 (hd s) = None \<and> hd s \<noteq> CHR '':'')"

lemma no_number:
  assumes "no_ip_start s"
  shows "read_number 16 n z b s = None" "read_number 10 n z b s = None"
proof -
  have "digit_of 10 c = None" if "digit_of 16 c = None" for c
    using that by (auto simp: digit_of_def Let_def split: option.splits if_splits)
  with assms show "read_number 16 n z b s = None" "read_number 10 n z b s = None"
    by (cases s; auto simp: no_ip_start_def read_number_def)+
qed

lemma no_ip:
  assumes "no_ip_start s"
  shows "parse_ip s = None"
proof -
  note none = no_number[OF assms]
  have "read_octets 0 (Suc 3) s = None" by (simp only: read_octets.simps read_separator_def none) simp
  then have v4: "read_ipv4_addr s = None" by (simp add: read_ipv4_addr_def)
  have "read_groups 0 (Suc 7) s = ([], False, s)"
    by (simp only: read_groups.simps read_separator_def v4 none) simp
  then have "read_groups 0 8 s = ([], False, s)" by simp
  moreover have "read_given_char (CHR '':'') s = None"
    using assms by (cases s) (auto simp: no_ip_start_def read_given_char_def)
  ultimately show ?thesis by (simp add: parse_ip_def v4 read_ipv6_addr_def)
qed

lemma split_once_absent: "c \<notin> set s \<Longrightarrow> split_once c s = None"
  by (simp add: split_once_def)

lemma no_scope: "CHR ''%'' \<notin> set s \<Longrightarrow> unscoped_ip_literal s = None"
  by (simp add: unscoped_ip_literal_def split_once_absent)

lemma public_example: "\<not> is_non_public_ip (V4 (ipv4_of_octets [93, 184, 216, 34]))"
  unfolding is_non_public_ip.simps is_non_public_ipv4_def block_rules
  by (simp add: in_block_def unat_of_octets v4_is_unspecified_def v4_is_broadcast_def word_unat_eq_iff
      unsigned_minus_1_eq_mask mask_eq_exp_minus_1)

lemma loopback_example: "ip_is_loopback (V4 (ipv4_of_octets [127, 0, 0, 1]))"
   "is_non_public_ip (V4 (ipv4_of_octets [127, 0, 0, 1]))"
  unfolding is_non_public_ip.simps ip_is_loopback.simps is_non_public_ipv4_def block_rules
  by (simp_all add: in_block_def unat_of_octets)

section \<open>Which hosts are let through\<close>

text \<open>What local protection asks of a host: an address that is not public has to be listed
  literally, and a name has to resolve to public addresses only.\<close>

definition locally_vetted :: "dns_lookup \<Rightarrow> string list \<Rightarrow> string \<Rightarrow> nat \<Rightarrow> bool" where
  "locally_vetted lookup allowed host port \<longleftrightarrow>
     (if local_literal host then is_explicit_local_allowlisted allowed host
      else \<not> host_resolves_to_non_public_ip lookup host port)"

lemma host_allowed_iff:
  "host_blocked_with_local_binding env pol lookup st raw port override = HostAllowed \<longleftrightarrow>
     (\<exists>h. host_parse raw = Some h \<and>
        \<not> globset_matches_host_or_unscoped (env_globs env) (cs_deny_set st) h \<and>
        globset_matches_host_or_unscoped (env_globs env) (cs_allow_set st) h \<and>
        allowed_domains (cs_config st) \<noteq> None \<and>
        (local_binding_in_force pol override (cs_config st) \<or>
         locally_vetted lookup (unwrap_list (allowed_domains (cs_config st))) h port))"
  by (auto simp: host_blocked_with_local_binding_def locally_vetted_def Let_def split: option.split)

lemma not_allowed_vetted:
  assumes "host_blocked_with_local_binding env pol lookup st raw port override = HostBlocked NotAllowed"
    and "host_parse raw = Some h"
  shows "\<not> globset_matches_host_or_unscoped (env_globs env) (cs_deny_set st) h"
    and "local_binding_in_force pol override (cs_config st) \<or>
      locally_vetted lookup (unwrap_list (allowed_domains (cs_config st))) h port"
  using assms
  by (auto simp: host_blocked_with_local_binding_def locally_vetted_def Let_def split: if_splits)



section \<open>Which addresses are connected to\<close>

text \<open>How the display of a target reads: a name is itself, and the text of an address parses to
  the address and is in normal form.\<close>

fun displays :: "target_host \<Rightarrow> string \<Rightarrow> bool" where
  "displays (TargetName name) s \<longleftrightarrow> s = name"
| "displays (TargetAddress ip) s \<longleftrightarrow> parse_ip s = Some ip \<and> normalize_host s = s \<and> CHR ''%'' \<notin> set s"

lemma displayed_address_local:
  assumes "displays (TargetAddress ip) s" "is_non_public_ip ip"
  shows "local_literal s"
  using assms by (simp add: local_literal_def no_scope)

lemma lower_visible: "visible (to_ascii_lower c) \<Longrightarrow> visible c"
  by (auto simp: to_ascii_lower_def is_ascii_uppercase_def visible_def split: if_splits)

lemma trim_end_matches_decomp: "\<exists>k. s = trim_end_matches c s @ replicate k c"
proof -
  have "takeWhile (\<lambda>x. x = c) (rev s) = replicate (length (takeWhile (\<lambda>x. x = c) (rev s))) c"
    by (rule replicate_eqI) (auto dest: set_takeWhileD)
  moreover have "s = trim_end_matches c s @ rev (takeWhile (\<lambda>x. x = c) (rev s))"
    unfolding trim_end_matches_def by (metis rev_append rev_rev_ident takeWhile_dropWhile_id)
  ultimately show ?thesis by (metis rev_replicate)
qed

lemma localhost_normal:
  assumes "named_localhost n"
  shows "normalize_host n = ''localhost''"
proof -
  let ?t = "trim_end_matches (CHR ''.'') n"
  have low: "map to_ascii_lower ?t = ''localhost''" using assms by (simp add: named_localhost_def)
  obtain k where n: "n = ?t @ replicate k (CHR ''.'')" using trim_end_matches_decomp by blast
  have chars: "to_ascii_lower c \<in> set ''localhost'' \<union> {CHR ''.''}" if c: "c \<in> set n" for c
  proof (cases "c \<in> set ?t")
    case True
    then have "to_ascii_lower c \<in> set (map to_ascii_lower ?t)" by simp
    then show ?thesis unfolding low by blast
  next
    case False
    with c n have "c \<in> set (replicate k (CHR ''.''))" by (metis Un_iff set_append)
    then show ?thesis by (simp add: to_ascii_lower_dot split: if_splits)
  qed
  have "\<forall>x \<in> set ''localhost'' \<union> {CHR ''.''}. visible x" by (simp add: visible_def)
  then have "visible c" if "c \<in> set n" for c
    using chars[OF that] lower_visible by blast
  then have trim: "str_trim n = n" by (intro trim_visible) (simp add: list_all_iff)
  have no: "CHR '':'' \<notin> set n" "CHR ''['' \<notin> set n"
    using chars[of "CHR '':''"] chars[of "CHR ''[''"] by (force simp: to_ascii_lower_def is_ascii_uppercase_def)+
  have "map to_ascii_lower n = ''localhost'' @ replicate k (CHR ''.'')"
    using n low by (metis map_append map_replicate to_ascii_lower_dot)
  moreover have "trim_end_matches (CHR ''.'') (''localhost'' @ replicate k (CHR ''.'')) = ''localhost''"
    by (simp add: trim_end_matches_def) (induction k, simp_all)
  moreover have plain: "plain_name ''localhost''"
    by (simp add: plain_name_def name_char_def is_ascii_lowercase_def)
  ultimately have "normalize_dns_host_or_ip_literal n = normalize_dns_host_or_ip_literal ''localhost''"
    unfolding normalize_dns_host_or_ip_literal_def by (simp only: normalize_dns_plain(2))
  then have "normalize_dns_host_or_ip_literal n = ''localhost''" by (simp only: normalize_dns_plain(1)[OF plain])
  moreover have "\<not> prefix ''['' n" using no(2) by (cases n) auto
  moreover have "count_list n (CHR '':'') = 0" using no(1) by (simp add: count_list_0_iff)
  ultimately show ?thesis by (simp add: normalize_host_def trim)
qed

lemma localhost_local: "local_literal ''localhost''"
  by (simp add: local_literal_def is_loopback_host_def no_scope)

text \<open>C17: with local binding off, a connection to an address that is not public is attempted only for a
  target that was addressed literally. Whatever names resolve to, and whenever, the
  address is the one of the request, or it is a loopback address and the request named localhost;
  and that literal is listed in the allowlist without a wildcard and matches no denial.\<close>

theorem local_connections_listed_literally:
  assumes "connect_permitted env pol lookup st show_target target port addr"
    and "is_non_public_ip addr"
    and "\<not> resolve_local_binding pol (cs_config st)"
    and "displays target (show_target target)"
  shows "(target = TargetAddress addr \<or> (\<exists>name. target = TargetName name \<and> named_localhost name \<and> ip_is_loopback addr)) \<and>
    is_explicit_local_allowlisted (unwrap_list (allowed_domains (cs_config st))) (normalize_host (show_target target)) \<and>
    \<not> globset_matches_host_or_unscoped (env_globs env) (cs_deny_set st) (normalize_host (show_target target))"
proof -
  have matches: "target_matches_non_public_addr target addr"
    and allowed: "host_blocked env pol lookup st (show_target target) port = HostAllowed"
    using assms(1-3) by (auto simp: connect_permitted_def allows_non_public_target_def split: if_splits)
  have "local_literal (normalize_host (show_target target))"
  proof (cases target)
    case (TargetName name)
    with matches assms(4) show ?thesis by (simp add: localhost_normal localhost_local)
  next
    case (TargetAddress ip)
    with matches assms(2,4) displayed_address_local[of ip "show_target target"] show ?thesis by simp
  qed
  moreover have "\<not> local_binding_in_force pol None (cs_config st)"
    using assms(3) by (simp add: local_binding_in_force_def unwrap_bool_def)
  moreover have "target = TargetAddress addr \<or> (\<exists>name. target = TargetName name \<and> named_localhost name \<and> ip_is_loopback addr)"
    using matches by (cases target) auto
  ultimately show ?thesis
    using allowed
    by (auto simp: host_blocked_def host_allowed_iff locally_vetted_def host_parse_def Let_def split: if_splits)
qed

theorem local_connections_listed_literally_witness:
  "is_explicit_local_allowlisted [''localhost''] (normalize_host ''localhost'')"
proof -
  let ?st = "example_state [''localhost'']" and ?show = "\<lambda>_. ''localhost''"
  have plain: "plain_name ''localhost''" by (simp add: plain_name_def name_char_def is_ascii_lowercase_def)
  have parsed: "host_parse ''localhost'' = Some ''localhost''" by (simp add: host_parse_def normalize_plain[OF plain])
  have unscoped: "unscoped_ip_literal ''localhost'' = None" by (rule no_scope) simp
  have lists: "allowed_domains (cs_config ?st) = Some [''localhost'']" by code_simp
  have sets: "cs_deny_set ?st = []" "cs_allow_set ?st = [''localhost'']" by (simp_all add: example_state_def)
  have "str_trim ''localhost'' = ''localhost''" by (rule trim_plain) (use plain in \<open>simp add: plain_name_def\<close>)
  then have listed: "is_explicit_local_allowlisted [''localhost''] ''localhost''"
    by (simp add: is_explicit_local_allowlisted_def explicit_local_pattern_def normalize_plain[OF plain])
  have "host_blocked plain_env DefaultFalse public_lookup ?st ''localhost'' 8080 = HostAllowed"
    unfolding host_blocked_def host_blocked_with_local_binding_def Let_def parsed sets
    by (simp add: lists listed localhost_local globset_matches_host_or_unscoped_def unwrap_list_def
        set_is_match_def unscoped plain_env_def plain_globs_def)
  moreover have named: "named_localhost ''localhost''" by code_simp
  moreover note loop = loopback_example
  ultimately have "connect_permitted plain_env DefaultFalse public_lookup ?st ?show (TargetName ''localhost'') 8080
      (V4 (ipv4_of_octets [127, 0, 0, 1]))"
    by (simp add: connect_permitted_def allows_non_public_target_def)
  moreover have "\<not> resolve_local_binding DefaultFalse (cs_config ?st)" by code_simp
  ultimately show ?thesis
    using local_connections_listed_literally[of plain_env DefaultFalse public_lookup ?st ?show "TargetName ''localhost''"
        8080 "V4 (ipv4_of_octets [127, 0, 0, 1])"] loop lists by (simp add: unwrap_list_def)
qed

section \<open>The state under interleaved updates\<close>

text \<open>
  The calls that change the state, cut where they give up the lock. \<open>Updating\<close> is a call of
  \<open>update_domain_list\<close> that has read the state, \<open>ModeSetting\<close> one of \<open>set_network_mode\<close>. A call whose
  commit is refused goes back to its start, which is the rule that drops its entry.
\<close>

datatype ('h, 'r) pending_call =
    Updating string domain_list_kind "('h, 'r) update_ticket"
  | ModeSetting network_mode "('h, 'r) network_config" proxy_constraints

type_synonym ('h, 'r) proxy_world = "('h, 'r) config_state \<times> ('h, 'r) pending_call set"

text \<open>What the configuration sources promise of the states they deliver, and what is kept: the
  configuration passes its checks, and the sets are compiled from it.\<close>

definition policy_ok :: "('h, 'r) proxy_env \<Rightarrow> local_binding_policy \<Rightarrow> ('h, 'r) config_state \<Rightarrow> bool" where
  "policy_ok env pol st \<longleftrightarrow>
     validate_policy_against_constraints env (resolved_config pol (cs_config st)) (cs_constraints st) = Inr () \<and>
     broker_settled (cs_constraints st) (cs_config st) \<and>
     compile_denylist_globset (env_globs env) (unwrap_list (denied_domains (cs_config st))) = Inr (cs_deny_set st) \<and>
     compile_allowlist_globset (env_globs env) (unwrap_list (allowed_domains (cs_config st))) = Inr (cs_allow_set st)"

inductive proxy_step ::
  "('h, 'r) proxy_env \<Rightarrow> local_binding_policy \<Rightarrow> ('h, 'r) proxy_world \<Rightarrow> ('h, 'r) proxy_world \<Rightarrow> bool"
  for env pol where
  reload: "policy_ok env pol new \<Longrightarrow>
    proxy_step env pol (st, calls) (fst (reload_if_needed st (Inr (Some new) :: unit + _)), calls)"
| forced: "policy_ok env pol new \<Longrightarrow> cs_blocked_total new \<le> u64_top \<Longrightarrow>
    proxy_step env pol (st, calls) (fst (force_reload st (Inr new :: unit + _)), calls)"
| replace: "policy_ok env pol new \<Longrightarrow> proxy_step env pol (st, calls) (replace_config_state st new, calls)"
| recorded: "proxy_step env pol (st, calls) (record_blocked st execution_id e, calls)"
| drain: "proxy_step env pol (st, calls) (fst (drain_blocked st), calls)"
| begin_update: "proxy_step env pol (st, calls) (st, insert (Updating host kind (update_read st)) calls)"
| commit_update: "Updating host kind tk \<in> calls \<Longrightarrow> update_plan env pol host kind tk = Inr (Some new) \<Longrightarrow>
    update_commit st tk new = Some st' \<Longrightarrow>
    proxy_step env pol (st, calls) (st', calls - {Updating host kind tk})"
| begin_mode: "proxy_step env pol (st, calls) (st, insert (ModeSetting m (cs_config st) (cs_constraints st)) calls)"
| commit_mode: "ModeSetting m c k \<in> calls \<Longrightarrow> mode_plan env pol m c k = Inr () \<Longrightarrow>
    mode_commit st m k = Some st' \<Longrightarrow>
    proxy_step env pol (st, calls) (st', calls - {ModeSetting m c k})"
| end_call: "proxy_step env pol (st, calls) (st, calls - {p})"

definition proxy_inv :: "('h, 'r) proxy_env \<Rightarrow> local_binding_policy \<Rightarrow> ('h, 'r) proxy_world \<Rightarrow> bool" where
  "proxy_inv env pol w \<longleftrightarrow>
     policy_ok env pol (fst w) \<and> length (cs_blocked (fst w)) \<le> MAX_BLOCKED_EVENTS \<and> cs_blocked_total (fst w) \<le> u64_top \<and>
     (\<forall>host kind tk. Updating host kind tk \<in> snd w \<longrightarrow>
        broker_settled (tk_constraints tk) (tk_config tk) \<and>
        length (tk_blocked tk) \<le> MAX_BLOCKED_EVENTS \<and> tk_blocked_total tk \<le> u64_top)"

lemma policy_ok_cong:
  assumes "policy_ok env pol st" "cs_config st' = cs_config st" "cs_constraints st' = cs_constraints st"
    "cs_deny_set st' = cs_deny_set st" "cs_allow_set st' = cs_allow_set st"
  shows "policy_ok env pol st'"
  using assms by (simp add: policy_ok_def)

lemma update_keeps_policy:
  assumes "update_plan env pol host kind tk = Inr (Some new)" "broker_settled (tk_constraints tk) (tk_config tk)"
  shows "policy_ok env pol new" "cs_blocked new = tk_blocked tk" "cs_blocked_total new = tk_blocked_total tk"
    "cs_config new = update_candidate host kind (tk_config tk)" "cs_constraints new = tk_constraints tk"
proof -
  let ?c = "update_candidate host kind (tk_config tk)"
  obtain st where st: "build_config_state env ?c (tk_constraints tk) (tk_os tk) = Inr st"
    and new: "new = st\<lparr>cs_blocked := tk_blocked tk, cs_blocked_total := tk_blocked_total tk\<rparr>"
    and ok: "validate_policy_against_constraints env (resolved_config pol ?c) (tk_constraints tk) = Inr ()"
    using assms(1)
    by (auto simp: update_plan_def Let_def and_then_Inr_iff map_error_def split: if_splits sum.splits)
  have settled: "broker_settled (tk_constraints tk) ?c"
    using assms(2) by (simp add: update_candidate_def broker_settled_def)
  then have c: "cs_config st = ?c" using built_state(1)[OF st] by (simp add: broker_settled_fixed)
  with built_state[OF st] new ok settled show "policy_ok env pol new" by (simp add: policy_ok_def)
  from new c built_state(2)[OF st] show "cs_blocked new = tk_blocked tk" "cs_blocked_total new = tk_blocked_total tk"
    "cs_config new = ?c" "cs_constraints new = tk_constraints tk" by simp_all
qed

lemma mode_keeps_policy:
  assumes "policy_ok env pol st" "mode_plan env pol m c (cs_constraints st) = Inr ()"
  shows "policy_ok env pol (st\<lparr>cs_config := (cs_config st)\<lparr>nc_mode := m\<rparr>\<rparr>)"
  using assms mode_check_separate[of env "resolved_config pol (cs_config st)" "cs_constraints st" m "resolved_config pol c"]
  by (simp add: policy_ok_def mode_plan_def resolved_mode broker_settled_def denied_domains_def allowed_domains_def)

lemma record_bounded:
  assumes "cs_blocked_total st \<le> u64_top"
  shows "length (cs_blocked (record_blocked st execution_id e)) \<le> MAX_BLOCKED_EVENTS"
    "cs_blocked_total (record_blocked st execution_id e) \<le> u64_top"
  by (simp_all add: record_blocked_def Let_def)

lemmas state_change_defs = reload_if_needed_def force_reload_def replace_config_state_def keep_blocked_def drain_blocked_def

lemma proxy_step_inv:
  assumes "proxy_step env pol w w'" "proxy_inv env pol w"
  shows "proxy_inv env pol w'"
  using assms
proof induction
  case (recorded st calls execution_id e)
  then have "policy_ok env pol (record_blocked st execution_id e)"
    by (auto simp: proxy_inv_def record_blocked_def Let_def elim: policy_ok_cong)
  with recorded record_bounded[of st execution_id e] show ?case by (simp add: proxy_inv_def)
next
  case (commit_update host kind tk calls new st st')
  then have "st' = new" by (simp add: update_commit_def split: if_splits)
  with commit_update update_keeps_policy[of env pol host kind tk new] show ?case by (auto simp: proxy_inv_def)
next
  case (commit_mode m c k calls st st')
  then have "cs_constraints st = k" "st' = st\<lparr>cs_config := (cs_config st)\<lparr>nc_mode := m\<rparr>\<rparr>"
    by (simp_all add: mode_commit_def split: if_splits)
  with commit_mode mode_keeps_policy[of env pol st m c] show ?case by (simp add: proxy_inv_def)
next
  case (begin_update st calls host kind)
  then show ?case by (auto simp: proxy_inv_def update_read_def policy_ok_def)
qed (auto simp: proxy_inv_def state_change_defs elim!: policy_ok_cong)


lemma example_policy_ok: "policy_ok plain_env DefaultFalse (example_state [])"
  by code_simp


section \<open>Added denials\<close>

lemma trim_idem: "str_trim (str_trim s) = str_trim s"
proof -
  let ?t = "trim_end s" and ?ws = "map rev ws_encodings"
  have "strip_any ?ws (rev ?t) = None"
    using ws_encodings_nonempty by (simp add: trim_end_def trim_by_strip)
  moreover have "prefix (rev (trim_start ?t)) (rev ?t)"
    using trim_start_suffix[of ?t] by (simp add: suffix_to_prefix)
  ultimately have "strip_any ?ws (rev (trim_start ?t)) = None"
    unfolding strip_any_None by (meson prefix_order.trans)
  then have "trim_end (trim_start ?t) = trim_start ?t" by (simp add: trim_end_def trim_by_id)
  then show ?thesis by (simp add: str_trim_def)
qed

lemma star_no_ip: "no_ip_start []" "no_ip_start (CHR ''*'' # s)"
  by (simp_all add: no_ip_start_def digit_of_def is_ascii_digit_def is_ascii_lowercase_def is_ascii_uppercase_def)

lemma trim_end_matches_Cons: "x \<noteq> c \<Longrightarrow> trim_end_matches c (x # s) = x # trim_end_matches c s"
  by (simp add: trim_end_matches_def dropWhile_append)

lemma star_not_scoped: "scoped_literal (CHR ''*'' # r) ds = None"
proof (induction ds)
  case (Cons d ds)
  have "parse_ip (take i (CHR ''*'' # r)) = None" for i by (rule no_ip) (cases i; simp add: star_no_ip)
  with Cons show ?case by (cases "find_sub d (CHR ''*'' # r)") (simp_all add: split_once_at_def del: find_sub.simps take_Suc_Cons)
qed simp

lemma star_stays:
  assumes "prefix ''*'' (str_trim e)"
  shows "prefix ''*'' (normalize_host e)"
proof -
  have dns: "prefix ''*'' (normalize_dns_host_or_ip_literal (CHR ''*'' # s))" for s
    by (simp add: normalize_dns_host_or_ip_literal_def to_ascii_lower_def is_ascii_uppercase_def
        trim_end_matches_Cons normalize_ip_literal_def no_ip star_no_ip star_not_scoped del: scoped_literal.simps)
  from assms obtain s where "str_trim e = CHR ''*'' # s" by (auto simp: prefix_def)
  then show ?thesis by (simp add: normalize_host_def Let_def dns)
qed

lemma normalized_plain_pattern:
  assumes "plain_name (normalize_host e)"
  shows "normalize_pattern e = normalize_host e"
proof -
  have "\<not> prefix ''*'' (normalize_host e)"
    using assms name_char_not[of "CHR ''*''"] by (auto simp: plain_name_def prefix_def)
  then have "\<not> prefix ''*'' (str_trim e)" using star_stays by blast
  then have "str_trim e \<noteq> ''*''" "strip_prefix ''**.'' (str_trim e) = None" "strip_prefix ''*.'' (str_trim e) = None"
    by (auto simp: strip_prefix_def prefix_def)
  moreover have "normalize_host (str_trim e) = normalize_host e" by (simp only: normalize_host_def trim_idem)
  ultimately show ?thesis by (simp add: normalize_pattern_def Let_def)
qed

lemma listed_denial_blocks:
  assumes ok: "policy_ok env pol st" and e: "e \<in> set (unwrap_list (denied_domains (cs_config st)))" "normalize_host e = h"
    and h: "plain_name h" and globs: "glob_matches (env_globs env) h h" and raw: "normalize_host raw = h"
  shows "host_blocked env pol lookup st raw port = HostBlocked Denied"
proof -
  have "normalize_pattern e = h" using normalized_plain_pattern[of e] e(2) h by simp
  moreover have "expand_domain_pattern h = [h]" using plain_pattern(2)[OF h] .
  moreover have compiled: "compile_globset_with_policy (env_globs env) (unwrap_list (denied_domains (cs_config st))) RejectGlobal
      = Inr (cs_deny_set st)"
    using ok by (simp add: policy_ok_def compile_denylist_globset_def)
  ultimately have "h \<in> set (cs_deny_set st)"
    unfolding compiled_set[OF compiled] using e(1) by (intro UN_I[of e]) simp_all
  with globs have "globset_matches_host_or_unscoped (env_globs env) (cs_deny_set st) h"
    by (auto simp: globset_matches_host_or_unscoped_def set_is_match_def list_ex_iff)
  then show ?thesis
    using h by (simp add: host_blocked_def host_blocked_with_local_binding_def host_parse_def raw plain_name_def Let_def)
qed

lemma upserted_denial:
  "h \<in> set (unwrap_list (denied_domains (update_candidate h DenyList c)))"
  by (simp add: unwrap_denied update_candidate_def upsert_domain_permission_def Let_def denied_iff)

text \<open>Adding a host to the denylist blocks it. When the call succeeds, the host is refused as
  denied, on every port, whatever the allowlist says, also when it was listed before in another
  spelling. The glob matcher is asked only that a name without wildcards matches itself.\<close>

theorem added_denial_blocks:
  assumes call: "update_domain_list env pol st raw DenyList = (st', Inr ())"
    and ok: "policy_ok env pol st"
    and h: "plain_name (normalize_host raw)"
    and globs: "glob_matches (env_globs env) (normalize_host raw) (normalize_host raw)"
  shows "host_blocked env pol lookup st' raw port = HostBlocked Denied \<and> policy_ok env pol st'"
proof -
  let ?h = "normalize_host raw"
  have parsed: "host_parse raw = Some ?h" using h by (simp add: host_parse_def plain_name_def Let_def)
  have "policy_ok env pol st' \<and> (\<exists>e \<in> set (unwrap_list (denied_domains (cs_config st'))). normalize_host e = ?h)"
  proof (cases "update_plan env pol ?h DenyList (update_read st)")
    case (Inr planned)
    show ?thesis
    proof (cases planned)
      case None
      with Inr call parsed have "st' = st" by (simp add: update_domain_list_def)
      moreover have "list_ex (\<lambda>e. normalize_host e = ?h) (unwrap_list (denied_domains (cs_config st)))"
        using Inr None
        by (auto simp: update_plan_def update_read_def Let_def and_then_Inr_iff split: if_splits)
      ultimately show ?thesis using ok by (auto simp: list_ex_iff)
    next
      case (Some new)
      with Inr call parsed have "st' = new" by (simp add: update_domain_list_def)
      moreover have "broker_settled (tk_constraints (update_read st)) (tk_config (update_read st))"
        using ok by (simp add: policy_ok_def update_read_def)
      ultimately show ?thesis
        using update_keeps_policy[of env pol ?h DenyList "update_read st" new] Inr Some
          upserted_denial[of ?h "tk_config (update_read st)"] normalize_plain[OF h] by auto
    qed
  qed (use call parsed in \<open>simp add: update_domain_list_def\<close>)
  with listed_denial_blocks[OF _ _ _ h globs refl] show ?thesis by blast
qed

theorem added_denial_blocks_witness:
  "host_blocked plain_env DefaultFalse public_lookup
     (fst (update_domain_list plain_env DefaultFalse (example_state []) ''news.org'' DenyList)) ''news.org'' 443
   = HostBlocked Denied"
proof -
  let ?st = "example_state []"
  have plain: "plain_name ''news.org''" by (simp add: plain_name_def name_char_def is_ascii_lowercase_def)
  have n: "normalize_host ''news.org'' = ''news.org''" by (rule normalize_plain[OF plain])
  let ?c = "example_config [\<lparr>entry_pattern = ''news.org'', entry_permission = DenyDomain\<rparr>]"
  have c: "update_candidate ''news.org'' DenyList (example_config []) = ?c"
    by (simp add: update_candidate_def example_config_def upsert_domain_permission_def)
  have lists: "denied_domains ?c = Some [''news.org'']" "allowed_domains ?c = None"
    "denied_domains (resolved_config DefaultFalse ?c) = Some [''news.org'']"
    "allowed_domains (resolved_config DefaultFalse ?c) = None" by code_simp+
  have none: "denied_domains (example_config []) = None" by code_simp
  have wild: "\<not> has_global_wildcard [''news.org'']"
    using plain_not_global[OF plain] by (simp add: has_global_wildcard_def)
  have "validate_policy_against_constraints plain_env (resolved_config DefaultFalse ?c) open_constraints = Inr ()"
    unfolding valid_checks constraint_checks_def Let_def lists
    by (simp add: open_constraints_def unwrap_list_def wild resolved_config_def example_config_def
        validate_mitm_hook_config_def unwrap_bool_def allow_local_binding_def)
  moreover have "broker_config open_constraints ?c = (?c, False)"
    by (rule broker_settled_fixed) code_simp
  moreover have "validate_unix_socket_allowlist_paths ?c OnLinux" by code_simp
  moreover have "compile_denylist_globset (env_globs plain_env) [''news.org''] = Inr [''news.org'']"
    using plain_not_global[OF plain]
    by (simp add: compile_denylist_globset_def compile_globset_with_policy_def plain_pattern[OF plain] plain_env_def
        plain_globs_def)
  moreover have "compile_allowlist_globset (env_globs plain_env) [] = Inr []" by code_simp
  moreover have "\<not> nc_credential_broker ?c" "env_mitm_builds plain_env ?c"
    by (simp_all add: example_config_def plain_env_def)
  ultimately obtain new where "update_plan plain_env DefaultFalse ''news.org'' DenyList (update_read ?st) = Inr (Some new)"
    by (simp add: update_plan_def update_read_def none c Let_def example_state_def build_config_state_def
        lists unwrap_list_def wild map_error_def)
  then have "update_domain_list plain_env DefaultFalse ?st ''news.org'' DenyList = (new, Inr ())"
    by (simp add: update_domain_list_def host_parse_def n)
  from added_denial_blocks[OF this example_policy_ok] plain this show ?thesis
    by (simp add: n plain_env_def plain_globs_def)
qed

end
