(* ===== verification/Cron_Schedule.thy ===== *)
theory Cron_Schedule
  imports Ava_Prelude
begin

text \<open>
  Cron expressions of scheduled tasks, \<^verbatim>\<open>app-server/src/scheduler/cron.rs\<close>: the parser and the
  search for the next time a schedule fires. The calendar of the chrono crate is an argument, a
  function from timestamps to the fields of the time of day and the date. Timestamps are integers;
  no sum in the search leaves the 64 bits for timestamps below \<open>2 ^ 62\<close>.
\<close>

section \<open>Words and numbers\<close>

lemma strip_ws_shorter: "strip_any ws_encodings s = Some r \<Longrightarrow> length r < length s"
  using strip_any_SomeD[of ws_encodings s r] ws_encodings_nonempty(1) by fastforce

text \<open>\<open>str::split_whitespace\<close>; the first argument is the word read so far. No encoding of a whitespace
  character starts inside the encoding of another character.\<close>

function split_ws :: "string \<Rightarrow> string \<Rightarrow> string list" where
  "split_ws w s =
     (case s of
        [] \<Rightarrow> if w = [] then [] else [w]
      | c # s' \<Rightarrow>
          (case strip_any ws_encodings s of
             Some r \<Rightarrow> if w = [] then split_ws [] r else w # split_ws [] r
           | None \<Rightarrow> split_ws (w @ [c]) s'))"
  by pat_completeness auto
termination
  by (relation "measure (\<lambda>(w, s). length s)") (auto dest: strip_ws_shorter)

declare split_ws.simps [simp del]

definition split_whitespace :: "string \<Rightarrow> string list" where
  "split_whitespace s = split_ws [] s"

definition u32_limit :: nat where
  "u32_limit = 2 ^ 32"

section \<open>Expressions\<close>

record field_spec =
  spec_min :: nat
  spec_max :: nat
  spec_names :: "(string \<times> nat) list"

definition MINUTE :: field_spec where
  "MINUTE = \<lparr>spec_min = 0, spec_max = 59, spec_names = []\<rparr>"

definition HOUR :: field_spec where
  "HOUR = \<lparr>spec_min = 0, spec_max = 23, spec_names = []\<rparr>"

definition DAY_OF_MONTH :: field_spec where
  "DAY_OF_MONTH = \<lparr>spec_min = 1, spec_max = 31, spec_names = []\<rparr>"

definition MONTH :: field_spec where
  "MONTH = \<lparr>spec_min = 1, spec_max = 12,
     spec_names = [(''jan'', 1), (''feb'', 2), (''mar'', 3), (''apr'', 4), (''may'', 5), (''jun'', 6),
                   (''jul'', 7), (''aug'', 8), (''sep'', 9), (''oct'', 10), (''nov'', 11), (''dec'', 12)]\<rparr>"

definition DAY_OF_WEEK :: field_spec where
  "DAY_OF_WEEK = \<lparr>spec_min = 0, spec_max = 7,
     spec_names = [(''sun'', 0), (''mon'', 1), (''tue'', 2), (''wed'', 3), (''thu'', 4), (''fri'', 5), (''sat'', 6)]\<rparr>"

datatype cron_error =
    FieldCount nat
  | EmptyElement string
  | InvalidStep string
  | ZeroStep string
  | InvalidRange string
  | InvalidValue string
  | ValueOutOfRange nat nat nat
  | NoValues string

text \<open>\<open>to_lowercase\<close> makes a name only of the letters of the name, in either case: no other character
  has one of these letters as its lower case. The names of a field are distinct, so that the loop over
  them is a lookup.\<close>

definition parse_value :: "string \<Rightarrow> field_spec \<Rightarrow> cron_error + nat" where
  "parse_value token spec =
     (case map_of (spec_names spec) (map to_ascii_lower token) of
        Some v \<Rightarrow> Inr v
      | None \<Rightarrow>
          (case parse_uint u32_limit token of
             None \<Rightarrow> Inl (InvalidValue token)
           | Some v \<Rightarrow> if v < spec_min spec \<or> spec_max spec < v
                       then Inl (ValueOutOfRange v (spec_min spec) (spec_max spec)) else Inr v))"

definition parse_step :: "string \<Rightarrow> cron_error + string \<times> nat" where
  "parse_step part =
     (case split_once (CHR ''/'') part of
        Some (r, step) \<Rightarrow>
          (case parse_uint u32_limit step of
             None \<Rightarrow> Inl (InvalidStep part)
           | Some n \<Rightarrow> if n = 0 then Inl (ZeroStep part) else Inr (r, n))
      | None \<Rightarrow> Inr (part, 1))"

definition parse_range :: "string \<Rightarrow> string \<Rightarrow> field_spec \<Rightarrow> cron_error + nat \<times> nat" where
  "parse_range part r spec =
     (if r = ''*'' \<or> r = [] then Inr (spec_min spec, spec_max spec)
      else case split_once (CHR ''-'') r of
        Some (a, b) \<Rightarrow>
          and_then (parse_value a spec) (\<lambda>lo. and_then (parse_value b spec) (\<lambda>hi.
            if hi < lo then Inl (InvalidRange part) else Inr (lo, hi)))
      | None \<Rightarrow> and_then (parse_value r spec) (\<lambda>v. Inr (v, v)))"

text \<open>The values from the start to the end whose distance from the start is a multiple of the step.\<close>

definition step_values :: "nat \<Rightarrow> nat \<Rightarrow> nat \<Rightarrow> nat list" where
  "step_values lo hi step = filter (\<lambda>v. (v - lo) mod step = 0) [lo..<Suc hi]"

definition parse_part :: "string \<Rightarrow> field_spec \<Rightarrow> string \<Rightarrow> cron_error + nat list" where
  "parse_part field spec part =
     (if part = [] then Inl (EmptyElement field)
      else and_then (parse_step part) (\<lambda>(r, step).
        and_then (parse_range part r spec) (\<lambda>(lo, hi). Inr (step_values lo hi step))))"

fun parse_parts :: "string \<Rightarrow> field_spec \<Rightarrow> nat list \<Rightarrow> string list \<Rightarrow> cron_error + nat list" where
  "parse_parts field spec values [] = Inr values"
| "parse_parts field spec values (part # parts) =
     and_then (parse_part field spec part) (\<lambda>vs. parse_parts field spec (values @ vs) parts)"

definition parse_field :: "string \<Rightarrow> field_spec \<Rightarrow> cron_error + nat list" where
  "parse_field field spec =
     and_then (parse_parts field spec [] (split_on (CHR '','') field)) (\<lambda>values.
       if values = [] then Inl (NoValues field) else Inr (remdups_adj (sort values)))"

record cron_schedule =
  cron_minutes :: "nat list"
  cron_hours :: "nat list"
  cron_days_of_month :: "nat list"
  cron_months :: "nat list"
  cron_days_of_week :: "nat list"
  cron_dom_star :: bool
  cron_dow_star :: bool

definition parse_cron :: "string \<Rightarrow> cron_error + cron_schedule" where
  "parse_cron expression =
     (let fields = split_whitespace expression
      in if length fields \<noteq> 5 then Inl (FieldCount (length fields))
         else and_then (parse_field (fields ! 0) MINUTE) (\<lambda>minutes.
              and_then (parse_field (fields ! 1) HOUR) (\<lambda>hours.
              and_then (parse_field (fields ! 2) DAY_OF_MONTH) (\<lambda>doms.
              and_then (parse_field (fields ! 3) MONTH) (\<lambda>months.
              and_then (parse_field (fields ! 4) DAY_OF_WEEK) (\<lambda>dows.
                Inr \<lparr>cron_minutes = minutes, cron_hours = hours, cron_days_of_month = doms, cron_months = months,
                     cron_days_of_week = map (\<lambda>v. v mod 7) dows, cron_dom_star = (fields ! 2 = ''*''),
                     cron_dow_star = (fields ! 4 = ''*'')\<rparr>))))))"

section \<open>The next run\<close>

text \<open>The fields of a date and time; weekdays are counted from Monday.\<close>

record civil_time =
  ct_minute :: nat
  ct_hour :: nat
  ct_day :: nat
  ct_month :: nat
  ct_weekday :: nat

type_synonym calendar = "int \<Rightarrow> civil_time option"

definition day_matches :: "cron_schedule \<Rightarrow> civil_time \<Rightarrow> bool" where
  "day_matches s dt =
     (let dom_match = ct_day dt \<in> set (cron_days_of_month s);
          dow_match = (ct_weekday dt + 1) mod 7 \<in> set (cron_days_of_week s)
      in case (cron_dom_star s, cron_dow_star s) of
           (True, True) \<Rightarrow> True
         | (True, False) \<Rightarrow> dow_match
         | (False, True) \<Rightarrow> dom_match
         | (False, False) \<Rightarrow> dom_match \<or> dow_match)"

definition time_matches :: "cron_schedule \<Rightarrow> civil_time \<Rightarrow> bool" where
  "time_matches s dt \<longleftrightarrow>
     ct_minute dt \<in> set (cron_minutes s) \<and> ct_hour dt \<in> set (cron_hours s) \<and>
     ct_month dt \<in> set (cron_months s) \<and> day_matches s dt"

text \<open>The remainder of Rust, with the sign of the dividend.\<close>

definition i64_rem :: "int \<Rightarrow> int \<Rightarrow> int" where
  "i64_rem a b = sgn a * (\<bar>a\<bar> mod \<bar>b\<bar>)"

function search_run :: "calendar \<Rightarrow> cron_schedule \<Rightarrow> int \<Rightarrow> int \<Rightarrow> int option" where
  "search_run cal s deadline candidate =
     (if candidate \<le> deadline then
        case cal candidate of
          None \<Rightarrow> None
        | Some dt \<Rightarrow> if time_matches s dt then Some candidate else search_run cal s deadline (candidate + 60)
      else None)"
  by pat_completeness auto
termination
  by (relation "measure (\<lambda>(cal, s, deadline, candidate). nat (deadline + 60 - candidate))") auto

declare search_run.simps [simp del]

definition next_run_after :: "calendar \<Rightarrow> cron_schedule \<Rightarrow> int \<Rightarrow> int option" where
  "next_run_after cal s after =
     (let candidate = after - i64_rem after 60 + 60
      in search_run cal s (candidate + 366 * 24 * 60 * 60) candidate)"

text \<open>The calendar of the Gregorian rule, for dates since 1970: the day of the year counted from March.\<close>

definition march_day :: "int \<Rightarrow> int" where
  "march_day t =
     (let doe = (t div 86400 + 719468) mod 146097;
          yoe = (doe - doe div 1460 + doe div 36524 - doe div 146096) div 365
      in doe - (365 * yoe + yoe div 4 - yoe div 100))"

definition utc_month :: "int \<Rightarrow> nat" where
  "utc_month t = nat (((5 * march_day t + 2) div 153 + 2) mod 12) + 1"

definition utc_day :: "int \<Rightarrow> nat" where
  "utc_day t = nat (march_day t - (153 * ((5 * march_day t + 2) div 153) + 2) div 5 + 1)"

definition utc_calendar :: calendar where
  "utc_calendar t =
     Some \<lparr>ct_minute = nat (t div 60 mod 60), ct_hour = nat (t div 3600 mod 24), ct_day = utc_day t,
           ct_month = utc_month t, ct_weekday = nat ((t div 86400 + 3) mod 7)\<rparr>"

lemma utc_days:
  "map (\<lambda>t. map_option (\<lambda>dt. (ct_month dt, ct_day dt, ct_weekday dt)) (utc_calendar t))
     [0, 951782400, 1790726400] = [Some (1, 1, 3), Some (2, 29, 1), Some (9, 30, 2)]"
  by code_simp

section \<open>What a field means\<close>

text \<open>
  The grammar of fields. A value is a name of the field or a number in its range; a range is a star,
  nothing, a value, or two values in order; an element is a range or a range with a step.
\<close>

definition value_text :: "field_spec \<Rightarrow> string \<Rightarrow> nat \<Rightarrow> bool" where
  "value_text spec w v \<longleftrightarrow>
     (if map to_ascii_lower w \<in> fst ` set (spec_names spec) then (map to_ascii_lower w, v) \<in> set (spec_names spec)
      else parse_uint u32_limit w = Some v \<and> v \<in> {spec_min spec..spec_max spec})"

inductive range_text :: "field_spec \<Rightarrow> string \<Rightarrow> nat \<Rightarrow> nat \<Rightarrow> bool" for spec where
  star: "range_text spec ''*'' (spec_min spec) (spec_max spec)"
| nothing: "range_text spec [] (spec_min spec) (spec_max spec)"
| single: "CHR ''-'' \<notin> set w \<Longrightarrow> w \<noteq> ''*'' \<Longrightarrow> w \<noteq> [] \<Longrightarrow> value_text spec w v \<Longrightarrow> range_text spec w v v"
| between: "CHR ''-'' \<notin> set a \<Longrightarrow> value_text spec a lo \<Longrightarrow> value_text spec b hi \<Longrightarrow> lo \<le> hi \<Longrightarrow>
    range_text spec (a @ CHR ''-'' # b) lo hi"

inductive element :: "field_spec \<Rightarrow> string \<Rightarrow> nat \<Rightarrow> nat \<Rightarrow> nat \<Rightarrow> bool" for spec where
  every: "CHR ''/'' \<notin> set r \<Longrightarrow> r \<noteq> [] \<Longrightarrow> range_text spec r lo hi \<Longrightarrow> element spec r lo hi 1"
| stepped: "CHR ''/'' \<notin> set r \<Longrightarrow> parse_uint u32_limit k = Some n \<Longrightarrow> 0 < n \<Longrightarrow> range_text spec r lo hi \<Longrightarrow>
    element spec (r @ CHR ''/'' # k) lo hi n"

definition spec_ok :: "field_spec \<Rightarrow> bool" where
  "spec_ok spec \<longleftrightarrow> distinct (map fst (spec_names spec)) \<and> spec_min spec \<le> spec_max spec \<and>
     list_all (\<lambda>(_, v). spec_min spec \<le> v \<and> v \<le> spec_max spec) (spec_names spec)"

lemma specs_ok: "spec_ok MINUTE" "spec_ok HOUR" "spec_ok DAY_OF_MONTH" "spec_ok MONTH" "spec_ok DAY_OF_WEEK"
  by (simp_all add: spec_ok_def MINUTE_def HOUR_def DAY_OF_MONTH_def MONTH_def DAY_OF_WEEK_def)

text \<open>\<open>split_once\<close> finds the first separator.\<close>

lemma split_once_None: "split_once c s = None \<longleftrightarrow> c \<notin> set s"
  by (simp add: split_once_def)

lemma split_once_Some: "split_once c s = Some (a, b) \<longleftrightarrow> s = a @ c # b \<and> c \<notin> set a"
proof
  assume h: "split_once c s = Some (a, b)"
  then have c: "c \<in> set s" and ab: "a = takeWhile (\<lambda>x. x \<noteq> c) s" "b = tl (dropWhile (\<lambda>x. x \<noteq> c) s)"
    by (simp_all add: split_once_def split: if_splits)
  have "dropWhile (\<lambda>x. x \<noteq> c) s \<noteq> []" using c by simp
  then have "dropWhile (\<lambda>x. x \<noteq> c) s = c # b"
    using hd_dropWhile[of "\<lambda>x. x \<noteq> c" s] ab(2) by (metis list.collapse)
  then show "s = a @ c # b \<and> c \<notin> set a"
    using takeWhile_dropWhile_id[of "\<lambda>x. x \<noteq> c" s] ab(1) by (auto dest: set_takeWhileD)
next
  assume h: "s = a @ c # b \<and> c \<notin> set a"
  then have "\<And>x. x \<in> set a \<Longrightarrow> x \<noteq> c" by blast
  with h have "takeWhile (\<lambda>x. x \<noteq> c) s = a" "dropWhile (\<lambda>x. x \<noteq> c) s = c # b"
    by (simp_all add: takeWhile_append2 dropWhile_append2)
  with h show "split_once c s = Some (a, b)" by (simp add: split_once_def)
qed

lemma parse_value_iff:
  assumes "spec_ok spec"
  shows "parse_value w spec = Inr v \<longleftrightarrow> value_text spec w v"
proof (cases "map_of (spec_names spec) (map to_ascii_lower w)")
  case None
  moreover from None have "map to_ascii_lower w \<notin> fst ` set (spec_names spec)" by (simp add: map_of_eq_None_iff)
  ultimately show ?thesis by (auto simp: parse_value_def value_text_def split: option.splits)
next
  case (Some u)
  moreover have "map_of (spec_names spec) (map to_ascii_lower w) = Some v \<longleftrightarrow>
      (map to_ascii_lower w, v) \<in> set (spec_names spec)"
    using assms by (simp add: spec_ok_def)
  moreover have "map to_ascii_lower w \<in> fst ` set (spec_names spec)"
    using Some by (metis domI dom_map_of_conv_image_fst)
  ultimately show ?thesis by (simp add: parse_value_def value_text_def)
qed

lemma parse_range_iff:
  assumes "spec_ok spec"
  shows "parse_range part r spec = Inr (lo, hi) \<longleftrightarrow> range_text spec r lo hi"
proof
  assume h: "parse_range part r spec = Inr (lo, hi)"
  show "range_text spec r lo hi"
  proof (cases "r = ''*'' \<or> r = []")
    case False
    with h parse_value_iff[OF assms] show ?thesis
      by (auto simp: parse_range_def and_then_Inr_iff split_once_None split_once_Some not_less
          split: option.splits if_splits intro: range_text.intros)
  qed (use h in \<open>auto simp: parse_range_def intro: range_text.intros\<close>)
next
  assume "range_text spec r lo hi"
  then show "parse_range part r spec = Inr (lo, hi)"
  proof cases
    case (single)
    then show ?thesis using parse_value_iff[OF assms, of r lo]
      by (simp add: parse_range_def split_once_None[THEN iffD2])
  next
    case (between a b)
    then have "split_once (CHR ''-'') r = Some (a, b)" by (simp add: split_once_Some)
    moreover have "r \<noteq> ''*''" "r \<noteq> []" using between by (auto simp: append_eq_Cons_conv)
    ultimately show ?thesis
      using between parse_value_iff[OF assms, of a lo] parse_value_iff[OF assms, of b hi]
      by (simp add: parse_range_def)
  qed (simp_all add: parse_range_def)
qed

lemma parse_part_iff:
  assumes "spec_ok spec"
  shows "parse_part field spec part = Inr vs \<longleftrightarrow> (\<exists>lo hi n. element spec part lo hi n \<and> vs = step_values lo hi n)"
proof
  assume "parse_part field spec part = Inr vs"
  then obtain r n lo hi where part: "part \<noteq> []" "parse_step part = Inr (r, n)" "parse_range part r spec = Inr (lo, hi)"
    and vs: "vs = step_values lo hi n"
    by (auto simp: parse_part_def and_then_Inr_iff split: if_splits)
  from part(3) have "range_text spec r lo hi" by (simp add: parse_range_iff[OF assms])
  with part(1,2) have "element spec part lo hi n"
    by (auto simp: parse_step_def split_once_None split_once_Some simp flip: One_nat_def
        split: option.splits if_splits intro: element.intros)
  with vs show "\<exists>lo hi n. element spec part lo hi n \<and> vs = step_values lo hi n" by blast
next
  assume "\<exists>lo hi n. element spec part lo hi n \<and> vs = step_values lo hi n"
  then obtain lo hi n where "element spec part lo hi n" and vs: "vs = step_values lo hi n" by blast
  then show "parse_part field spec part = Inr vs"
  proof cases
    case (every)
    with vs show ?thesis
      using parse_range_iff[OF assms, THEN iffD2, of part lo hi part]
      by (simp add: parse_part_def parse_step_def split_once_None[THEN iffD2])
  next
    case (stepped r k)
    then have "split_once (CHR ''/'') part = Some (r, k)" by (simp add: split_once_Some)
    with stepped vs show ?thesis
      using parse_range_iff[OF assms, THEN iffD2, of r lo hi part] by (simp add: parse_part_def parse_step_def)
  qed
qed

lemma step_values_set: "set (step_values lo hi n) = {v. lo \<le> v \<and> v \<le> hi \<and> n dvd v - lo}"
  by (auto simp: step_values_def mod_eq_0_iff_dvd)

text \<open>The values an element stands for, and the ones of a field.\<close>

definition field_values :: "field_spec \<Rightarrow> string \<Rightarrow> nat set" where
  "field_values spec field =
     {v. \<exists>part \<in> set (split_on (CHR '','') field). \<exists>lo hi n. element spec part lo hi n \<and> lo \<le> v \<and> v \<le> hi \<and> n dvd v - lo}"

lemma ex_list_all2: "(\<exists>ys. list_all2 R xs ys) \<longleftrightarrow> (\<forall>x \<in> set xs. \<exists>y. R x y)"
  by (induction xs) (auto simp: list_all2_Cons1)

lemma list_all2_functional_union:
  assumes "list_all2 (\<lambda>x y. f x = Inr y) xs ys"
  shows "(\<Union>y \<in> set ys. g y) = (\<Union>x \<in> set xs. \<Union>(g ` {y. f x = Inr y}))"
  using assms by induction auto

lemma parse_parts_iff:
  assumes "spec_ok spec"
  shows "parse_parts field spec values parts = Inr vs \<longleftrightarrow>
    (\<exists>vss. list_all2 (\<lambda>part ws. parse_part field spec part = Inr ws) parts vss \<and> vs = values @ concat vss)"
proof (induction field spec "values" parts rule: parse_parts.induct)
  case (2 field spec vals part parts)
  show ?case
  proof (cases "parse_part field spec part")
    case (Inr ws)
    with 2 show ?thesis by (auto simp: list_all2_Cons1)
  qed (simp add: list_all2_Cons1)
qed auto

lemma distinct_remdups_adj: "sorted xs \<Longrightarrow> distinct (remdups_adj xs)" for xs :: "nat list"
  by (induction xs rule: remdups_adj.induct) (auto simp: dual_order.antisym)

lemma sorted_values: "remdups_adj (sort xs) = sorted_list_of_set (set xs)" for xs :: "nat list"
  by (rule sorted_distinct_set_unique) (simp_all add: distinct_remdups_adj)

lemma element_nonempty: "spec_ok spec \<Longrightarrow> element spec part lo hi n \<Longrightarrow> lo \<le> hi"
  by (auto simp: spec_ok_def elim!: element.cases range_text.cases)

lemma parse_field_iff:
  assumes "spec_ok spec"
  shows "parse_field field spec = Inr vs \<longleftrightarrow>
    (\<forall>part \<in> set (split_on (CHR '','') field). \<exists>lo hi n. element spec part lo hi n) \<and>
    vs = sorted_list_of_set (field_values spec field)"
proof -
  let ?parts = "split_on (CHR '','') field"
  let ?R = "\<lambda>part ws. parse_part field spec part = Inr ws"
  have some: "(\<exists>vss. list_all2 ?R ?parts vss) \<longleftrightarrow> (\<forall>part \<in> set ?parts. \<exists>lo hi n. element spec part lo hi n)"
    by (simp add: ex_list_all2 parse_part_iff[OF assms])
  have vals: "concat vss \<noteq> [] \<and> set (concat vss) = field_values spec field" if vss: "list_all2 ?R ?parts vss" for vss
  proof -
    have R: "?R part ws \<longleftrightarrow> (\<exists>lo hi n. element spec part lo hi n \<and> ws = step_values lo hi n)" for part ws
      by (rule parse_part_iff[OF assms])
    have "set (concat vss) = (\<Union>part \<in> set ?parts. \<Union>(set ` {ws. ?R part ws}))"
      using list_all2_functional_union[OF vss, of set] by simp
    also have "\<dots> = field_values spec field"
    proof -
      have "\<Union>(set ` {ws. ?R part ws}) =
          {v. \<exists>lo hi n. element spec part lo hi n \<and> lo \<le> v \<and> v \<le> hi \<and> n dvd v - lo}" for part
        unfolding R using step_values_set by blast
      then show ?thesis by (auto simp: field_values_def)
    qed
    finally have vals: "set (concat vss) = field_values spec field" .
    obtain part where "part \<in> set ?parts" using split_on_nonempty[of "CHR '',''" field] by fastforce
    then obtain lo hi n where "element spec part lo hi n" using some vss by blast
    moreover from this have "lo \<le> hi" by (rule element_nonempty[OF assms])
    ultimately have "lo \<in> field_values spec field"
      unfolding field_values_def mem_Collect_eq
      using \<open>part \<in> set ?parts\<close> by (intro bexI[of _ part] exI[of _ lo] exI[of _ hi] exI[of _ n]) simp_all
    with vals show ?thesis by (metis empty_iff set_empty)
  qed
  show ?thesis
  proof (cases "\<exists>vss. list_all2 ?R ?parts vss")
    case True
    then obtain vss where vss: "list_all2 ?R ?parts vss" by blast
    then have "parse_parts field spec [] ?parts = Inr (concat vss)" using parse_parts_iff[OF assms] by force
    with vals[OF vss] have "parse_field field spec = Inr (sorted_list_of_set (field_values spec field))"
      by (simp add: parse_field_def sorted_values)
    with True some show ?thesis by auto
  next
    case False
    then have "parse_field field spec \<noteq> Inr vs"
      using parse_parts_iff[OF assms] by (auto simp: parse_field_def and_then_Inr_iff)
    with False some show ?thesis by blast
  qed
qed

text \<open>C24: the parser of fields accepts exactly the lists of elements of the grammar, and its
  result is the ordered list, without repetitions, of the values they stand for.\<close>

theorem field_parser_exact:
  assumes "spec \<in> {MINUTE, HOUR, DAY_OF_MONTH, MONTH, DAY_OF_WEEK}"
  shows "parse_field field spec = Inr vs \<longleftrightarrow>
    (\<forall>part \<in> set (split_on (CHR '','') field). \<exists>lo hi n. element spec part lo hi n) \<and>
    vs = sorted_list_of_set (field_values spec field)"
  using assms specs_ok by (intro parse_field_iff) auto

theorem field_parser_exact_witness:
  "parse_field ''1-9/4,3'' MINUTE = Inr [1, 3, 5, 9] \<and>
   [1, 3, 5, 9] = sorted_list_of_set (field_values MINUTE ''1-9/4,3'')"
proof -
  have "step_values 1 9 4 = [1, 5, 9]" "step_values 3 3 1 = [3]" by code_simp+
  then have "parse_field ''1-9/4,3'' MINUTE = Inr [1, 3, 5, 9]"
    by (simp add: parse_field_def parse_part_def parse_step_def parse_range_def parse_value_def parse_uint_def
        split_once_def MINUTE_def decimal_value_def digit_value_def is_ascii_digit_def u32_limit_def)
  with field_parser_exact[of MINUTE "''1-9/4,3''" "[1, 3, 5, 9]"] show ?thesis by simp
qed

lemma element_in_range:
  assumes "spec_ok spec" "element spec part lo hi n"
  shows "spec_min spec \<le> lo \<and> hi \<le> spec_max spec"
proof -
  have "spec_min spec \<le> v \<and> v \<le> spec_max spec" if "value_text spec w v" for w v
    using that assms(1) by (auto simp: value_text_def spec_ok_def list_all_iff split: if_splits)
  with assms(2) show ?thesis by (auto elim!: element.cases range_text.cases)
qed

lemma parsed_field:
  assumes "spec_ok spec" "parse_field field spec = Inr vs"
  shows "vs \<noteq> [] \<and> set vs \<subseteq> {spec_min spec..spec_max spec}"
proof -
  have "field_values spec field \<subseteq> {spec_min spec..spec_max spec}"
    using element_in_range[OF assms(1)] unfolding field_values_def by fastforce
  moreover from this have "finite (field_values spec field)" by (rule finite_subset) simp
  moreover have "vs \<noteq> []" using assms(2)
    by (auto simp: parse_field_def and_then_Inr_iff sorted_values split: if_splits)
  ultimately show ?thesis using assms(2) parse_field_iff[OF assms(1)] by auto
qed

section \<open>When a schedule fires\<close>

definition fires_at :: "calendar \<Rightarrow> cron_schedule \<Rightarrow> int \<Rightarrow> bool" where
  "fires_at cal s t \<longleftrightarrow> (\<exists>dt. cal t = Some dt \<and> time_matches s dt)"

lemma search_run_Some:
  "search_run cal s deadline c = Some t \<Longrightarrow> c \<le> t \<and> t \<le> deadline \<and> 60 dvd t - c \<and> fires_at cal s t"
proof (induction cal s deadline c rule: search_run.induct)
  case (1 cal s deadline c)
  from 1(2) obtain dt where dt: "c \<le> deadline" "cal c = Some dt"
    by (auto simp: search_run.simps[of cal s deadline c] split: if_splits option.splits)
  show ?case
  proof (cases "time_matches s dt")
    case True
    with 1(2) dt show ?thesis by (auto simp: search_run.simps[of cal s deadline c] fires_at_def)
  next
    case False
    with 1(2) dt have "search_run cal s deadline (c + 60) = Some t" by (simp add: search_run.simps[of cal s deadline c])
    with 1(1)[OF dt False] have h: "c + 60 \<le> t" "t \<le> deadline" "60 dvd t - (c + 60)" "fires_at cal s t" by simp_all
    from h(3) have "60 dvd t - (c + 60) + 60" by (rule dvd_add) simp
    with h show ?thesis by simp
  qed
qed

text \<open>On a calendar that knows every time of the search, the search finds the first time that fires.\<close>

lemma search_run_first:
  assumes "\<And>u. c \<le> u \<Longrightarrow> u \<le> deadline \<Longrightarrow> cal u \<noteq> None"
  shows "fires_at cal s u \<Longrightarrow> c \<le> u \<Longrightarrow> u \<le> deadline \<Longrightarrow> 60 dvd u - c \<Longrightarrow>
    \<exists>t. search_run cal s deadline c = Some t \<and> t \<le> u"
  using assms
proof (induction cal s deadline c rule: search_run.induct)
  case (1 cal s deadline c)
  from 1(3,4,6) obtain dt where dt: "c \<le> deadline" "cal c = Some dt" by fastforce
  show ?case
  proof (cases "time_matches s dt")
    case True
    with 1(3) dt show ?thesis by (simp add: search_run.simps[of cal s deadline c])
  next
    case False
    then have "u \<noteq> c" using 1(2) dt by (auto simp: fires_at_def)
    have "c + 60 \<le> u" using zdvd_imp_le[OF 1(5)] \<open>u \<noteq> c\<close> 1(3) by simp
    moreover have "60 dvd u - (c + 60)"
    proof -
      have "60 dvd (u - c) - 60" by (rule dvd_diff[OF 1(5)]) simp
      then show ?thesis by (simp add: algebra_simps)
    qed
    ultimately obtain t where "search_run cal s deadline (c + 60) = Some t" "t \<le> u"
      using 1(1)[OF dt False 1(2)] 1(4) 1(6) by auto
    with False dt show ?thesis by (simp add: search_run.simps[of cal s deadline c])
  qed
qed

lemma first_candidate:
  assumes "0 \<le> after"
  shows "after - i64_rem after 60 + 60 = (after div 60 + 1) * 60"
proof -
  have "i64_rem after 60 = after mod 60" using assms by (cases "after = 0") (simp_all add: i64_rem_def)
  then show ?thesis using div_mult_mod_eq[of after 60] by (simp add: algebra_simps)
qed

lemma next_run_future: "next_run_after cal s after = Some t \<Longrightarrow> after < t \<and> fires_at cal s t"
proof -
  assume h: "next_run_after cal s after = Some t"
  have "\<bar>i64_rem after 60\<bar> < 60" by (auto simp: i64_rem_def sgn_if)
  then show ?thesis using search_run_Some[OF h[unfolded next_run_after_def Let_def]] by auto
qed

text \<open>
  What a planner of runs promises to the code that keeps the plan: a planned run is later than the
  time it was planned at, and it is due when it should be. So nothing is due when it is
  planned, and planning from each run on gives ever later runs.
\<close>

locale planner =
  fixes plan :: "'s \<Rightarrow> int \<Rightarrow> int option"
    and fires :: "'s \<Rightarrow> int \<Rightarrow> bool"
  assumes plan_later: "plan x now = Some n \<Longrightarrow> now < n"
    and plan_fires: "plan x now = Some n \<Longrightarrow> fires x n"
begin

lemma not_due_when_planned: "\<not> (case plan x now of Some n \<Rightarrow> n \<le> now | None \<Rightarrow> False)"
  using plan_later[of x now] by (auto split: option.splits)

fun planned_runs :: "'s \<Rightarrow> nat \<Rightarrow> int \<Rightarrow> int list" where
  "planned_runs x 0 now = []"
| "planned_runs x (Suc k) now = (case plan x now of None \<Rightarrow> [] | Some n \<Rightarrow> n # planned_runs x k n)"

lemma planned_runs_increase: "sorted_wrt (<) (now # planned_runs x k now) \<and> (\<forall>n \<in> set (planned_runs x k now). fires x n)"
proof (induction k arbitrary: now)
  case (Suc k)
  show ?case
  proof (cases "plan x now")
    case (Some n)
    with Suc[of n] plan_later[OF Some] plan_fires[OF Some] show ?thesis by auto
  qed simp
qed simp

end

interpretation cron: planner "next_run_after cal" "fires_at cal" for cal
  by unfold_locales (auto dest: next_run_future)

definition search_end :: "int \<Rightarrow> int" where
  "search_end after = (after div 60 + 1) * 60 + 366 * 24 * 60 * 60"

lemma whole_minutes:
  fixes u after :: int
  assumes "60 dvd u" "after < u"
  shows "(after div 60 + 1) * 60 \<le> u"
proof -
  from assms(1) obtain k where u: "u = 60 * k" by (auto simp: dvd_def)
  with assms(2) have "after div 60 < k" by (simp add: div_less_iff_less_mult)
  then show ?thesis using u by simp
qed

lemma next_run_search: "0 \<le> after \<Longrightarrow>
    next_run_after cal s after = search_run cal s (search_end after) ((after div 60 + 1) * 60)"
  by (simp add: next_run_after_def first_candidate search_end_def Let_def)

lemma after_less_candidate: "after < (after div 60 + 1) * 60" for after :: int
  using pos_mod_bound[of 60 after] div_mult_mod_eq[of after 60] by simp

lemma next_run_sound:
  assumes "0 \<le> after" "next_run_after cal s after = Some t"
  shows "60 dvd t \<and> after < t \<and> t \<le> search_end after \<and> fires_at cal s t"
proof -
  note found = search_run_Some[OF assms(2)[unfolded next_run_search[OF assms(1)]]]
  then have "60 dvd (t - (after div 60 + 1) * 60) + (after div 60 + 1) * 60" by (intro dvd_add) simp_all
  with found after_less_candidate[of after] show ?thesis by simp
qed

lemma next_run_complete:
  assumes "0 \<le> after" "\<And>u. after < u \<Longrightarrow> u \<le> search_end after \<Longrightarrow> cal u \<noteq> None"
    and "fires_at cal s u" "60 dvd u" "after < u" "u \<le> search_end after"
  shows "\<exists>t. next_run_after cal s after = Some t \<and> t \<le> u"
  unfolding next_run_search[OF assms(1)]
  using assms after_less_candidate[of after] whole_minutes[OF assms(4,5)] by (intro search_run_first) auto

text \<open>C23: the next run is the first whole minute after the given time at which the schedule fires,
  and there is none exactly if it fires at no whole minute within 366 days.\<close>

theorem next_run_is_first:
  assumes "0 \<le> after" and cal: "\<And>u. after < u \<Longrightarrow> u \<le> search_end after \<Longrightarrow> cal u \<noteq> None"
  shows "(next_run_after cal s after = Some t \<longleftrightarrow>
      60 dvd t \<and> after < t \<and> t \<le> search_end after \<and> fires_at cal s t \<and>
      (\<forall>u. 60 dvd u \<and> after < u \<and> u < t \<longrightarrow> \<not> fires_at cal s u)) \<and>
    (next_run_after cal s after = None \<longleftrightarrow>
      (\<forall>u. 60 dvd u \<and> after < u \<and> u \<le> search_end after \<longrightarrow> \<not> fires_at cal s u))"
proof -
  note sound = next_run_sound[OF assms(1)]
  have complete: "\<exists>t. next_run_after cal s after = Some t \<and> t \<le> u"
    if "fires_at cal s u" "60 dvd u" "after < u" "u \<le> search_end after" for u
    using that cal assms(1) by (intro next_run_complete)
  have "(next_run_after cal s after = Some t) = (60 dvd t \<and> after < t \<and> t \<le> search_end after \<and>
      fires_at cal s t \<and> (\<forall>u. 60 dvd u \<and> after < u \<and> u < t \<longrightarrow> \<not> fires_at cal s u))" (is "?found = ?first")
  proof
    assume h: ?found
    have "\<not> fires_at cal s u" if "60 dvd u" "after < u" "u < t" for u
      using complete[of u] h sound[OF h] that by fastforce
    with sound[OF h] show ?first by blast
  next
    assume h: ?first
    then obtain t' where t': "next_run_after cal s after = Some t'" "t' \<le> t" using complete by blast
    with h sound[OF t'(1)] have "t' = t" by (meson le_less)
    with t' show ?found by simp
  qed
  moreover have "next_run_after cal s after = None \<longleftrightarrow>
      (\<forall>u. 60 dvd u \<and> after < u \<and> u \<le> search_end after \<longrightarrow> \<not> fires_at cal s u)"
    using complete sound by (metis not_Some_eq)
  ultimately show ?thesis by blast
qed

theorem next_run_is_first_witness:
  "60 dvd (26 * 3600 :: int) \<and>
   fires_at utc_calendar
     \<lparr>cron_minutes = [0], cron_hours = [2], cron_days_of_month = [1], cron_months = [1, 2],
      cron_days_of_week = [5], cron_dom_star = False, cron_dow_star = False\<rparr> (26 * 3600)"
proof -
  let ?s = "\<lparr>cron_minutes = [0], cron_hours = [2], cron_days_of_month = [1], cron_months = [1, 2],
    cron_days_of_week = [5], cron_dom_star = False, cron_dow_star = False\<rparr>"
  have "\<not> time_matches ?s (the (utc_calendar 93540))" by code_simp
  moreover have "time_matches ?s (the (utc_calendar 93600))" by code_simp
  moreover have some: "utc_calendar u \<noteq> None" for u by (simp add: utc_calendar_def)
  ultimately have "next_run_after utc_calendar ?s 93500 = Some (26 * 3600)"
    by (simp add: next_run_search search_end_def search_run.simps[of _ _ _ 93540] search_run.simps[of _ _ _ 93600]
        option.case_eq_if del: not_None_eq)
  with some show ?thesis using next_run_is_first[of 93500 utc_calendar ?s "26 * 3600"] by simp
qed

text \<open>A calendar in coordinated universal time, as far as these properties rely on it: minutes and
  hours are the remainders of the timestamp, weekdays repeat every seven days, counted from
  Thursday, 1 January 1970, and months are numbered from 1 to 12.\<close>

definition utc_fields :: "civil_time \<Rightarrow> int \<Rightarrow> bool" where
  "utc_fields dt t \<longleftrightarrow> int (ct_minute dt) = t div 60 mod 60 \<and> int (ct_hour dt) = t div 3600 mod 24 \<and>
     int (ct_weekday dt) = (t div 86400 + 3) mod 7 \<and> ct_month dt \<in> {1..12}"

definition keeps_utc :: "calendar \<Rightarrow> int \<Rightarrow> int \<Rightarrow> bool" where
  "keeps_utc cal lo hi \<longleftrightarrow> (\<forall>t. lo \<le> t \<and> t \<le> hi \<longrightarrow> (\<exists>dt. cal t = Some dt \<and> utc_fields dt t))"

lemma parsed_schedule:
  assumes "parse_cron e = Inr s"
  shows "cron_minutes s \<noteq> [] \<and> set (cron_minutes s) \<subseteq> {0..59}" "cron_hours s \<noteq> [] \<and> set (cron_hours s) \<subseteq> {0..23}"
    "cron_days_of_month s \<noteq> [] \<and> set (cron_days_of_month s) \<subseteq> {1..31}"
    "cron_months s \<noteq> [] \<and> set (cron_months s) \<subseteq> {1..12}"
    "cron_days_of_week s \<noteq> [] \<and> set (cron_days_of_week s) \<subseteq> {0..6}"
proof -
  let ?f = "split_whitespace e"
  obtain ms hs ds mos ws where p: "parse_field (?f ! 0) MINUTE = Inr ms" "parse_field (?f ! 1) HOUR = Inr hs"
    "parse_field (?f ! 2) DAY_OF_MONTH = Inr ds" "parse_field (?f ! 3) MONTH = Inr mos"
    "parse_field (?f ! 4) DAY_OF_WEEK = Inr ws"
    and s: "cron_minutes s = ms" "cron_hours s = hs" "cron_days_of_month s = ds" "cron_months s = mos"
      "cron_days_of_week s = map (\<lambda>v. v mod 7) ws"
    using assms by (auto simp: parse_cron_def and_then_Inr_iff Let_def split: if_splits)
  show "cron_minutes s \<noteq> [] \<and> set (cron_minutes s) \<subseteq> {0..59}" "cron_hours s \<noteq> [] \<and> set (cron_hours s) \<subseteq> {0..23}"
    "cron_days_of_month s \<noteq> [] \<and> set (cron_days_of_month s) \<subseteq> {1..31}"
    "cron_months s \<noteq> [] \<and> set (cron_months s) \<subseteq> {1..12}"
    using parsed_field[OF specs_ok(1) p(1)] parsed_field[OF specs_ok(2) p(2)] parsed_field[OF specs_ok(3) p(3)]
      parsed_field[OF specs_ok(4) p(4)] s
    by (simp_all add: MINUTE_def HOUR_def DAY_OF_MONTH_def MONTH_def)
  have "v mod 7 \<le> 6" for v :: nat by (simp add: less_Suc_eq_le[symmetric])
  then show "cron_days_of_week s \<noteq> [] \<and> set (cron_days_of_week s) \<subseteq> {0..6}"
    using parsed_field[OF specs_ok(5) p(5)] s(5) by auto
qed

text \<open>The fields of a time on a given day.\<close>

lemma fields_of_day_time:
  assumes "m \<le> 59" "h \<le> 23"
  shows "(d * 86400 + int h * 3600 + int m * 60) div 60 mod 60 = int m"
    "(d * 86400 + int h * 3600 + int m * 60) div 3600 mod 24 = int h"
    "(d * 86400 + int h * 3600 + int m * 60) div 86400 = d"
proof -
  let ?t = "d * 86400 + int h * 3600 + int m * 60"
  have "?t = 0 + 60 * (int m + 60 * (d * 24 + int h))" by simp
  then have "?t div 60 = int m + 60 * (d * 24 + int h) + 0 div 60"
    by (simp only: div_mult_self2[of 60 0, simplified]) simp
  with assms show "?t div 60 mod 60 = int m" by (simp only: div_0 add_0_right mod_mult_self2) simp
  have "?t = int m * 60 + 3600 * (d * 24 + int h)" by simp
  then have "?t div 3600 = d * 24 + int h + int m * 60 div 3600"
    using div_mult_self2[of 3600 "int m * 60" "d * 24 + int h"] by (simp only:)
  moreover have "int m * 60 div 3600 = 0" using assms by simp
  ultimately have "?t div 3600 = d * 24 + int h" by (simp only: add_0_right)
  with assms show "?t div 3600 mod 24 = int h" by (simp only: mod_mult_self3) simp
  have "?t = (int h * 3600 + int m * 60) + 86400 * d" by simp
  then have "?t div 86400 = d + (int h * 3600 + int m * 60) div 86400"
    using div_mult_self2[of 86400 "int h * 3600 + int m * 60" d] by (simp only:)
  moreover have "(int h * 3600 + int m * 60) div 86400 = 0" using assms by simp
  ultimately show "?t div 86400 = d" by (simp only: add_0_right)
qed

lemma day_with_weekday:
  assumes "w \<le> 6"
  shows "\<exists>d. D < d \<and> d \<le> D + 7 \<and> (d + 4) mod 7 = int w"
proof (intro exI conjI)
  let ?d = "D + 1 + (int w - (D + 5)) mod 7"
  show "D < ?d" "?d \<le> D + 7"
    using pos_mod_bound[of 7 "int w - (D + 5)"] pos_mod_sign[of 7 "int w - (D + 5)"] by linarith+
  have "(?d + 4) mod 7 = ((D + 5) + (int w - (D + 5)) mod 7) mod 7" by (simp add: algebra_simps)
  also have "\<dots> = int w mod 7" unfolding mod_add_right_eq by simp
  finally show "(?d + 4) mod 7 = int w" using assms by simp
qed

text \<open>A schedule without restrictions on the day of the month and the month always has a next
  run, within eight days, whatever its minutes, hours and weekdays are.\<close>

theorem weekly_schedule_runs:
  assumes parsed: "parse_cron e = Inr s"
    and free: "cron_dom_star s" "set (cron_months s) = {1..12}"
    and after: "0 \<le> after" and cal: "keeps_utc cal after (search_end after)"
  shows "\<exists>t. next_run_after cal s after = Some t \<and> t \<le> after + 8 * 86400"
proof -
  note p = parsed_schedule[OF parsed]
  obtain m h w where m: "m \<in> set (cron_minutes s)" "m \<le> 59" and h: "h \<in> set (cron_hours s)" "h \<le> 23"
    and w: "w \<in> set (cron_days_of_week s)" "w \<le> 6"
    using p(1,2,5) by (meson atLeastAtMost_iff list.set_sel(1) subsetD)
  define D where "D = after div 86400"
  obtain d where d: "D < d" "d \<le> D + 7" "(d + 4) mod 7 = int w"
    using day_with_weekday[OF w(2)] by blast
  let ?t = "d * 86400 + int h * 3600 + int m * 60"
  have "after < (D + 1) * 86400" "D * 86400 \<le> after"
    using pos_mod_bound[of 86400 after] pos_mod_sign[of 86400 after] div_mult_mod_eq[of after 86400]
    by (simp_all add: D_def)
  moreover have "D + 1 \<le> d" using d(1) by simp
  moreover have "int h \<le> 23" "int m \<le> 59" "0 \<le> int h" "0 \<le> int m" using h(2) m(2) by simp_all
  ultimately have range: "after < ?t \<and> ?t \<le> after + 8 * 86400" using d(2) by (simp add: algebra_simps)
  note range = conjunct1[OF range] conjunct2[OF range]
  then have within: "?t \<le> search_end after" using after_less_candidate[of after] by (simp add: search_end_def)
  obtain dt where dt: "cal ?t = Some dt" "utc_fields dt ?t"
    using cal less_imp_le[OF range(1)] within unfolding keeps_utc_def by blast
  have "time_matches s dt"
  proof -
    have f: "ct_minute dt = m" "ct_hour dt = h" "int (ct_weekday dt) = (d + 3) mod 7" "ct_month dt \<in> {1..12}"
      using dt(2) fields_of_day_time[OF m(2) h(2), of d] by (auto simp: utc_fields_def)
    have "int ((ct_weekday dt + 1) mod 7) = (int (ct_weekday dt) + 1) mod 7" by (simp add: zmod_int add.commute)
    also have "\<dots> = int w" using f(3) d(3) by (simp add: mod_simps add.commute)
    finally have "(ct_weekday dt + 1) mod 7 = w" by simp
    with f m h w free show ?thesis by (simp add: time_matches_def day_matches_def Let_def split: bool.splits)
  qed
  moreover have "60 dvd ?t" by simp
  moreover have "cal u \<noteq> None" if "after < u" "u \<le> search_end after" for u
    using cal less_imp_le[OF that(1)] that(2) unfolding keeps_utc_def by (metis option.distinct(1))
  ultimately obtain t where "next_run_after cal s after = Some t" "t \<le> ?t"
    using next_run_complete[OF after, of cal s ?t] range(1) within dt(1) by (auto simp: fires_at_def)
  with range(2) show ?thesis by auto
qed

lemma utc_calendar_keeps: "keeps_utc utc_calendar lo hi"
proof -
  have "nat (x mod 12) < 12" for x :: int by (simp add: nat_less_iff)
  then have "utc_month t \<in> {1..12}" for t unfolding utc_month_def by (simp add: Suc_le_eq)
  then show ?thesis by (simp add: keeps_utc_def utc_fields_def utc_calendar_def)
qed

definition every_minute :: cron_schedule where
  "every_minute = \<lparr>cron_minutes = [0..<60], cron_hours = [0..<24], cron_days_of_month = [1..<32], cron_months = [1..<13],
     cron_days_of_week = [0..<7] @ [0], cron_dom_star = True, cron_dow_star = True\<rparr>"

lemma star_field:
  assumes "spec_ok spec"
  shows "parse_field ''*'' spec = Inr [spec_min spec..<Suc (spec_max spec)]"
proof -
  have "parse_field ''*'' spec = Inr (remdups_adj (sort [spec_min spec..<Suc (spec_max spec)]))"
    using assms
    by (simp add: parse_field_def parse_part_def parse_step_def parse_range_def split_once_def step_values_def spec_ok_def)
  moreover have "sorted_list_of_set (set [spec_min spec..<Suc (spec_max spec)]) = [spec_min spec..<Suc (spec_max spec)]"
    by (rule sorted_list_of_set.idem_if_sorted_distinct) (rule sorted_upt distinct_upt)+
  ultimately show ?thesis by (simp only: sorted_values)
qed

lemma every_minute_parsed: "parse_cron ''* * * * *'' = Inr every_minute"
proof -
  have "split_whitespace ''* * * * *'' = [''*'', ''*'', ''*'', ''*'', ''*'']" by code_simp
  moreover have "map (\<lambda>v. v mod 7) [0..<8] = [0..<7] @ [0 :: nat]" by code_simp
  ultimately show ?thesis
    by (simp add: parse_cron_def star_field specs_ok every_minute_def del: upt.simps)
      (simp add: MINUTE_def HOUR_def DAY_OF_MONTH_def MONTH_def DAY_OF_WEEK_def)
qed

theorem weekly_schedule_runs_witness:
  "\<exists>t. next_run_after utc_calendar every_minute 1790726430 = Some t \<and> t \<le> 1790726430 + 8 * 86400"
proof (rule weekly_schedule_runs[OF every_minute_parsed])
  show "cron_dom_star every_minute" "set (cron_months every_minute) = {1..12}"
    by (auto simp: every_minute_def)
qed (simp_all add: utc_calendar_keeps)

section \<open>Written schedules\<close>

definition print_field :: "nat list \<Rightarrow> string" where
  "print_field vs = join_with '','' (map show_nat vs)"

definition print_cron :: "nat list \<Rightarrow> nat list \<Rightarrow> nat list \<Rightarrow> nat list \<Rightarrow> nat list \<Rightarrow> string" where
  "print_cron minutes hours doms months dows =
     join_with '' '' (map print_field [minutes, hours, doms, months, dows])"

definition printable :: "field_spec \<Rightarrow> nat list \<Rightarrow> bool" where
  "printable spec vs \<longleftrightarrow> vs \<noteq> [] \<and> sorted vs \<and> distinct vs \<and> set vs \<subseteq> {spec_min spec..spec_max spec}"

definition names_alphabetic :: "field_spec \<Rightarrow> bool" where
  "names_alphabetic spec \<longleftrightarrow> spec_max spec < u32_limit \<and>
     list_all (\<lambda>(n, _). n \<noteq> [] \<and> \<not> is_ascii_digit (hd n)) (spec_names spec)"

lemma specs_alphabetic: "names_alphabetic MINUTE" "names_alphabetic HOUR" "names_alphabetic DAY_OF_MONTH"
    "names_alphabetic MONTH" "names_alphabetic DAY_OF_WEEK"
  by (simp_all add: names_alphabetic_def u32_limit_def is_ascii_digit_def
      MINUTE_def HOUR_def DAY_OF_MONTH_def MONTH_def DAY_OF_WEEK_def)

lemma lower_digit: "is_ascii_digit c \<Longrightarrow> to_ascii_lower c = c"
  by (auto simp: to_ascii_lower_def is_ascii_uppercase_def is_ascii_digit_def)

lemma parse_value_show:
  assumes "names_alphabetic spec" "v \<in> {spec_min spec..spec_max spec}"
  shows "parse_value (show_nat v) spec = Inr v"
proof -
  have "map to_ascii_lower (show_nat v) = show_nat v"
    using show_nat_digits[of v] by (intro map_idI) (auto simp: list_all_iff lower_digit)
  moreover have "map_of (spec_names spec) (show_nat v) = None"
    using assms(1) show_nat_digits[of v]
    by (auto simp: names_alphabetic_def map_of_eq_None_iff list_all_iff)
  ultimately show ?thesis using assms by (simp add: parse_value_def parse_show names_alphabetic_def)
qed

lemma parse_part_show:
  assumes "names_alphabetic spec" "v \<in> {spec_min spec..spec_max spec}"
  shows "parse_part field spec (show_nat v) = Inr [v]"
proof -
  have c: "c \<in> set (show_nat v) \<Longrightarrow> is_ascii_digit c" for c using show_nat_digits[of v] by (auto simp: list_all_iff)
  then have no: "CHR ''/'' \<notin> set (show_nat v)" "CHR ''-'' \<notin> set (show_nat v)" "CHR ''*'' \<notin> set (show_nat v)"
    using digit_not by blast+
  moreover have "show_nat v \<noteq> ''*''" "show_nat v \<noteq> []" using no(3) show_nat_digits[of v] by auto
  ultimately show ?thesis
    by (simp add: parse_part_def parse_step_def parse_range_def split_once_None[THEN iffD2] parse_value_show[OF assms]
        step_values_def)
qed

lemma parse_parts_show:
  "names_alphabetic spec \<Longrightarrow> set vs \<subseteq> {spec_min spec..spec_max spec} \<Longrightarrow>
    parse_parts field spec xs (map show_nat vs) = Inr (xs @ vs)"
  by (induction vs arbitrary: xs) (simp_all add: parse_part_show)

lemma parse_print_field:
  assumes "names_alphabetic spec" "printable spec vs"
  shows "parse_field (print_field vs) spec = Inr vs"
proof -
  have "CHR '','' \<notin> set (show_nat v)" for v
    using show_nat_digits[of v] digit_not by (fastforce simp: list_all_iff)
  then have "split_on (CHR '','') (print_field vs) = map show_nat vs"
    using assms(2) by (auto simp: print_field_def printable_def intro!: split_join_with)
  with assms show ?thesis
    by (simp add: parse_field_def parse_parts_show printable_def sorted_values sorted_list_of_set.idem_if_sorted_distinct)
qed

text \<open>Fields of digits and commas are words.\<close>

definition field_char :: "char \<Rightarrow> bool" where
  "field_char c \<longleftrightarrow> is_ascii_digit c \<or> c = CHR '',''"

lemma field_char_not_ws: "field_char c \<Longrightarrow> strip_any ws_encodings (c # s) = None"
  unfolding strip_any_None by (auto simp: ws_encodings_def field_char_def is_ascii_digit_def)

lemma split_ws_word: "list_all field_char f \<Longrightarrow> split_ws w (f @ s) = split_ws (w @ f) s"
  by (induction f arbitrary: w) (simp_all add: split_ws.simps[of _ "_ # _"] field_char_not_ws)

lemma split_ws_space: "w \<noteq> [] \<Longrightarrow> split_ws w (CHR '' '' # s) = w # split_ws [] s"
  by (simp add: split_ws.simps[of w "_ # _"] ws_encodings_def strip_prefix_def)

lemma split_ws_join:
  "fs \<noteq> [] \<Longrightarrow> list_all (\<lambda>f. f \<noteq> [] \<and> list_all field_char f) fs \<Longrightarrow> split_ws [] (join_with '' '' fs) = fs"
proof (induction "'' ''" fs rule: join_with.induct)
  case (2 f)
  then show ?case using split_ws_word[of f "[]" "[]"] by (simp add: split_ws.simps[of f "[]"])
next
  case (3 f g fs)
  then show ?case using split_ws_word[of f "[]"] by (simp add: split_ws_space)
qed simp

lemma print_field_chars: "vs \<noteq> [] \<Longrightarrow> print_field vs \<noteq> [] \<and> list_all field_char (print_field vs) \<and> is_ascii_digit (hd (print_field vs))"
proof -
  have show_ok: "show_nat n \<noteq> [] \<and> list_all field_char (show_nat n) \<and> is_ascii_digit (hd (show_nat n))" for n
    using show_nat_digits[of n] by (cases "show_nat n") (auto simp: list_all_iff field_char_def)
  assume "vs \<noteq> []"
  then show ?thesis
  proof (induction vs rule: list_nonempty_induct)
    case (cons v vs)
    have "print_field (v # vs) = show_nat v @ CHR '','' # print_field vs"
      using cons(1) by (simp add: print_field_def join_with_Cons)
    moreover have "field_char (CHR '','')" by (simp add: field_char_def)
    ultimately show ?case using cons show_ok[of v] by simp
  qed (simp add: print_field_def show_ok)
qed

text \<open>A written schedule is read back. An expression that lists values in order is parsed to
  exactly these values, with no field taken for a star.\<close>

theorem cron_print_parse:
  assumes "printable MINUTE minutes" "printable HOUR hours" "printable DAY_OF_MONTH doms" "printable MONTH months"
    and "printable DAY_OF_WEEK dows" "7 \<notin> set dows"
  shows "parse_cron (print_cron minutes hours doms months dows) =
    Inr \<lparr>cron_minutes = minutes, cron_hours = hours, cron_days_of_month = doms, cron_months = months,
         cron_days_of_week = dows, cron_dom_star = False, cron_dow_star = False\<rparr>"
proof -
  let ?fs = "map print_field [minutes, hours, doms, months, dows]"
  have ne: "minutes \<noteq> []" "hours \<noteq> []" "doms \<noteq> []" "months \<noteq> []" "dows \<noteq> []"
    using assms by (simp_all add: printable_def)
  then have words: "split_whitespace (print_cron minutes hours doms months dows) = ?fs"
    unfolding split_whitespace_def print_cron_def by (intro split_ws_join) (simp_all add: print_field_chars)
  have star: "print_field vs \<noteq> ''*''" if "vs \<noteq> []" for vs
    using print_field_chars[OF that] by (auto simp: is_ascii_digit_def)
  have "map (\<lambda>v. v mod 7) dows = dows"
    using assms(5,6) by (intro map_idI) (force simp: printable_def DAY_OF_WEEK_def le_less)
  then show ?thesis
    using assms specs_alphabetic by (simp add: parse_cron_def words parse_print_field star ne Let_def)
qed

theorem cron_print_parse_witness:
  "parse_cron (print_cron [0, 30] [9] [1, 15] [1, 7] [1, 5]) =
     Inr \<lparr>cron_minutes = [0, 30], cron_hours = [9], cron_days_of_month = [1, 15], cron_months = [1, 7],
          cron_days_of_week = [1, 5], cron_dom_star = False, cron_dow_star = False\<rparr>"
  by (rule cron_print_parse)
    (simp_all add: printable_def MINUTE_def HOUR_def DAY_OF_MONTH_def MONTH_def DAY_OF_WEEK_def)

end
