(* ===== verification/Task_Scheduler.thy ===== *)
theory Task_Scheduler
  imports Cron_Schedule "HOL-Library.AList" "HOL-Library.Multiset" "HOL-Library.Char_ord"
    "HOL-Library.List_Lexorder" "HOL-Library.Product_Lexorder"
begin

text \<open>
  The scheduler of user-defined tasks, \<^verbatim>\<open>app-server/src/scheduler.rs\<close>, with the data of
  \<^verbatim>\<open>app-server-protocol/src/protocol/v2/schedule.rs\<close>. Hash maps are association lists with distinct
  keys; their order is arbitrary, and what depends on it is sorted. Arguments: the calendar, the time
  read from the clock, the outcome of a run that was started, and whether the store could be
  written. Calls share the schedules, the set of running ids and the store; their parts between
  two locks are the steps of a relation.
\<close>

section \<open>Data\<close>

datatype run_status = RunSucceeded | RunFailed

datatype sandbox_mode = ReadOnly | WorkspaceWrite | DangerFullAccess

record scheduled_task =
  task_id :: string
  task_name :: string
  task_cron :: string
  task_prompt :: string
  task_cwd :: "string option"
  task_model :: "string option"
  task_sandbox :: "sandbox_mode option"
  task_enabled :: bool
  task_created_at :: int
  task_updated_at :: int
  task_last_run_at :: "int option"
  task_last_status :: "run_status option"
  task_next_run_at :: "int option"

record create_params =
  cp_name :: string
  cp_cron :: string
  cp_prompt :: string
  cp_cwd :: "string option"
  cp_model :: "string option"
  cp_sandbox :: "sandbox_mode option"
  cp_enabled :: "bool option"

record update_params =
  up_id :: string
  up_name :: "string option"
  up_cron :: "string option"
  up_prompt :: "string option"
  up_cwd :: "string option"
  up_model :: "string option"
  up_sandbox :: "sandbox_mode option"
  up_enabled :: "bool option"

datatype sched_error =
    EmptyName
  | InvalidCron cron_error
  | EmptyPrompt
  | UnknownSchedule string
  | InvalidCursor
  | StoreNotWritten
  | RunInFlight string
  | RunNotStarted string

text \<open>\<open>sch_store\<close> is the content of the store file, \<open>None\<close> when there is none.\<close>

record scheduler =
  sch_schedules :: "(string \<times> scheduled_task) list"
  sch_running :: "string set"
  sch_counter :: nat
  sch_store :: "scheduled_task list option"

section \<open>Operations\<close>

definition next_run_at_for :: "calendar \<Rightarrow> scheduled_task \<Rightarrow> int \<Rightarrow> int option" where
  "next_run_at_for cal t now =
     (if \<not> task_enabled t then None
      else case parse_cron (task_cron t) of Inl _ \<Rightarrow> None | Inr cron \<Rightarrow> next_run_after cal cron now)"

definition replan :: "calendar \<Rightarrow> int \<Rightarrow> scheduled_task \<Rightarrow> scheduled_task" where
  "replan cal now t = t\<lparr>task_next_run_at := next_run_at_for cal t now\<rparr>"

text \<open>Loading: \<open>None\<close> is a store that cannot be read or parsed.\<close>

definition load_schedules :: "calendar \<Rightarrow> int \<Rightarrow> scheduled_task list \<Rightarrow> (string \<times> scheduled_task) list" where
  "load_schedules cal now stored = foldl (\<lambda>m t. AList.update (task_id t) (replan cal now t) m) [] stored"

definition scheduler_new :: "calendar \<Rightarrow> int \<Rightarrow> scheduled_task list option \<Rightarrow> scheduled_task list option \<Rightarrow> scheduler" where
  "scheduler_new cal now loaded store =
     \<lparr>sch_schedules = (case loaded of Some stored \<Rightarrow> load_schedules cal now stored | None \<Rightarrow> []),
      sch_running = {}, sch_counter = 0, sch_store = store\<rparr>"

definition store_snapshot :: "scheduler \<Rightarrow> scheduled_task list" where
  "store_snapshot s = sort_key task_id (map snd (sch_schedules s))"

definition persist :: "bool \<Rightarrow> scheduler \<Rightarrow> scheduler \<times> (sched_error + unit)" where
  "persist written s =
     (if written then (s\<lparr>sch_store := Some (store_snapshot s)\<rparr>, Inr ()) else (s, Inl StoreNotWritten))"

definition show_int :: "int \<Rightarrow> string" where
  "show_int i = (if i < 0 then CHR ''-'' # show_nat (nat (- i)) else show_nat (nat i))"

definition pad6 :: "nat \<Rightarrow> string" where
  "pad6 n = replicate (6 - length (show_nat n)) (CHR ''0'') @ show_nat n"

definition schedule_id :: "int \<Rightarrow> nat \<Rightarrow> string" where
  "schedule_id now counter = ''sched-'' @ show_int now @ ''-'' @ pad6 counter"

definition check_create :: "create_params \<Rightarrow> sched_error option" where
  "check_create p =
     (if str_trim (cp_name p) = [] then Some EmptyName
      else case parse_cron (cp_cron p) of
        Inl e \<Rightarrow> Some (InvalidCron e)
      | Inr _ \<Rightarrow> if str_trim (cp_prompt p) = [] then Some EmptyPrompt else None)"

definition new_task :: "calendar \<Rightarrow> int \<Rightarrow> nat \<Rightarrow> create_params \<Rightarrow> scheduled_task" where
  "new_task cal now counter p =
     replan cal now
       \<lparr>task_id = schedule_id now counter, task_name = str_trim (cp_name p), task_cron = cp_cron p,
        task_prompt = str_trim (cp_prompt p), task_cwd = cp_cwd p, task_model = cp_model p,
        task_sandbox = cp_sandbox p, task_enabled = (case cp_enabled p of Some b \<Rightarrow> b | None \<Rightarrow> True),
        task_created_at = now, task_updated_at = now, task_last_run_at = None, task_last_status = None,
        task_next_run_at = None\<rparr>"

text \<open>The part of \<open>create_schedule\<close> before it persists.\<close>

definition insert_schedule :: "calendar \<Rightarrow> int \<Rightarrow> create_params \<Rightarrow> scheduler \<Rightarrow> scheduler \<times> scheduled_task" where
  "insert_schedule cal now p s =
     (let t = new_task cal now (sch_counter s) p
      in (s\<lparr>sch_schedules := AList.update (task_id t) t (sch_schedules s),
            sch_counter := (sch_counter s + 1) mod 2 ^ 64\<rparr>, t))"

definition create_schedule ::
  "calendar \<Rightarrow> int \<Rightarrow> bool \<Rightarrow> create_params \<Rightarrow> scheduler \<Rightarrow> scheduler \<times> (sched_error + scheduled_task)" where
  "create_schedule cal now written p s =
     (case check_create p of
        Some e \<Rightarrow> (s, Inl e)
      | None \<Rightarrow>
          (let (s1, t) = insert_schedule cal now p s
           in case persist written s1 of
                (s2, Inl e) \<Rightarrow> (s2, Inl e)
              | (s2, Inr _) \<Rightarrow> (s2, Inr t)))"

definition listing :: "scheduler \<Rightarrow> scheduled_task list" where
  "listing s = sort_key (\<lambda>t. (- task_created_at t, task_id t)) (map snd (sch_schedules s))"

definition list_schedules ::
  "scheduler \<Rightarrow> string option \<Rightarrow> nat option \<Rightarrow> sched_error + scheduled_task list \<times> string option" where
  "list_schedules s cursor limit =
     (case parse_uint (2 ^ 64) (case cursor of Some c \<Rightarrow> c | None \<Rightarrow> ''0'') of
        None \<Rightarrow> Inl InvalidCursor
      | Some offset \<Rightarrow>
          (let n = min (case limit of Some l \<Rightarrow> l | None \<Rightarrow> 100) 500;
               page = take n (drop offset (listing s))
           in Inr (page, if length page = n then Some (show_nat (offset + n)) else None)))"

text \<open>The fields of an update are set one after the other, in the task itself; a rejected field ends
  the call and leaves the fields before it set.\<close>

definition set_name :: "update_params \<Rightarrow> scheduled_task \<Rightarrow> scheduled_task \<times> sched_error option" where
  "set_name p t =
     (case up_name p of
        None \<Rightarrow> (t, None)
      | Some name \<Rightarrow> if str_trim name = [] then (t, Some EmptyName) else (t\<lparr>task_name := str_trim name\<rparr>, None))"

definition set_cron :: "update_params \<Rightarrow> scheduled_task \<Rightarrow> scheduled_task \<times> sched_error option" where
  "set_cron p t =
     (case up_cron p of
        None \<Rightarrow> (t, None)
      | Some cron \<Rightarrow>
          (case parse_cron cron of
             Inl e \<Rightarrow> (t, Some (InvalidCron e))
           | Inr _ \<Rightarrow> (t\<lparr>task_cron := cron\<rparr>, None)))"

definition set_prompt :: "update_params \<Rightarrow> scheduled_task \<Rightarrow> scheduled_task \<times> sched_error option" where
  "set_prompt p t =
     (case up_prompt p of
        None \<Rightarrow> (t, None)
      | Some prompt \<Rightarrow>
          if str_trim prompt = [] then (t, Some EmptyPrompt) else (t\<lparr>task_prompt := str_trim prompt\<rparr>, None))"

definition set_rest :: "update_params \<Rightarrow> scheduled_task \<Rightarrow> scheduled_task" where
  "set_rest p t =
     t\<lparr>task_cwd := (if up_cwd p = None then task_cwd t else up_cwd p),
       task_model := (if up_model p = None then task_model t else up_model p),
       task_sandbox := (if up_sandbox p = None then task_sandbox t else up_sandbox p),
       task_enabled := (case up_enabled p of Some b \<Rightarrow> b | None \<Rightarrow> task_enabled t)\<rparr>"

definition update_task :: "calendar \<Rightarrow> int \<Rightarrow> update_params \<Rightarrow> scheduled_task \<Rightarrow> scheduled_task \<times> sched_error option" where
  "update_task cal now p t =
     (case set_name p t of
        (t1, Some e) \<Rightarrow> (t1, Some e)
      | (t1, None) \<Rightarrow>
          (case set_cron p t1 of
             (t2, Some e) \<Rightarrow> (t2, Some e)
           | (t2, None) \<Rightarrow>
               (case set_prompt p t2 of
                  (t3, Some e) \<Rightarrow> (t3, Some e)
                | (t3, None) \<Rightarrow> (replan cal now ((set_rest p t3)\<lparr>task_updated_at := now\<rparr>), None))))"

text \<open>The part of \<open>update_schedule\<close> under the lock.\<close>

definition change_schedule ::
  "calendar \<Rightarrow> int \<Rightarrow> update_params \<Rightarrow> scheduler \<Rightarrow> scheduler \<times> (sched_error + scheduled_task)" where
  "change_schedule cal now p s =
     (case map_of (sch_schedules s) (up_id p) of
        None \<Rightarrow> (s, Inl (UnknownSchedule (up_id p)))
      | Some t \<Rightarrow>
          (let (t', e) = update_task cal now p t; s' = s\<lparr>sch_schedules := AList.update (up_id p) t' (sch_schedules s)\<rparr>
           in (s', case e of Some err \<Rightarrow> Inl err | None \<Rightarrow> Inr t')))"

definition update_schedule ::
  "calendar \<Rightarrow> int \<Rightarrow> bool \<Rightarrow> update_params \<Rightarrow> scheduler \<Rightarrow> scheduler \<times> (sched_error + scheduled_task)" where
  "update_schedule cal now written p s =
     (case change_schedule cal now p s of
        (s1, Inl e) \<Rightarrow> (s1, Inl e)
      | (s1, Inr t) \<Rightarrow>
          (case persist written s1 of
             (s2, Inl e) \<Rightarrow> (s2, Inl e)
           | (s2, Inr _) \<Rightarrow> (s2, Inr t)))"

definition remove_schedule :: "string \<Rightarrow> scheduler \<Rightarrow> scheduler" where
  "remove_schedule i s = s\<lparr>sch_schedules := AList.delete i (sch_schedules s)\<rparr>"

definition delete_schedule :: "bool \<Rightarrow> string \<Rightarrow> scheduler \<Rightarrow> scheduler \<times> (sched_error + unit)" where
  "delete_schedule written i s =
     (if map_of (sch_schedules s) i = None then (s, Inl (UnknownSchedule i))
      else persist written (remove_schedule i s))"

section \<open>Runs\<close>

definition due :: "int \<Rightarrow> scheduler \<Rightarrow> string list" where
  "due now s =
     map task_id (filter (\<lambda>t. task_enabled t \<and> (case task_next_run_at t of Some n \<Rightarrow> n \<le> now | None \<Rightarrow> False))
       (map snd (sch_schedules s)))"

text \<open>The parts of \<open>trigger_run\<close>: entering the set of running ids, the outcome of \<open>execute_once\<close>, leaving
  the set, and recording the run.\<close>

definition trigger_begin :: "string \<Rightarrow> scheduler \<Rightarrow> scheduler option" where
  "trigger_begin i s = (if i \<in> sch_running s then None else Some (s\<lparr>sch_running := insert i (sch_running s)\<rparr>))"

definition execute_once :: "(scheduled_task \<Rightarrow> string option) \<Rightarrow> string \<Rightarrow> scheduler \<Rightarrow> sched_error + string" where
  "execute_once run i s =
     (case map_of (sch_schedules s) i of
        None \<Rightarrow> Inl (UnknownSchedule i)
      | Some t \<Rightarrow> (case run t of None \<Rightarrow> Inl (RunNotStarted i) | Some thread \<Rightarrow> Inr thread))"

definition trigger_end :: "string \<Rightarrow> scheduler \<Rightarrow> scheduler" where
  "trigger_end i s = s\<lparr>sch_running := sch_running s - {i}\<rparr>"

definition record_run :: "calendar \<Rightarrow> int \<Rightarrow> bool \<Rightarrow> scheduled_task \<Rightarrow> scheduled_task" where
  "record_run cal now ok t =
     replan cal now (t\<lparr>task_last_run_at := Some now, task_last_status := Some (if ok then RunSucceeded else RunFailed)\<rparr>)"

definition trigger_record :: "calendar \<Rightarrow> int \<Rightarrow> string \<Rightarrow> bool \<Rightarrow> scheduler \<Rightarrow> scheduler" where
  "trigger_record cal now i ok s =
     (case map_of (sch_schedules s) i of
        None \<Rightarrow> s
      | Some t \<Rightarrow> s\<lparr>sch_schedules := AList.update i (record_run cal now ok t) (sch_schedules s)\<rparr>)"

definition trigger_run ::
  "calendar \<Rightarrow> int \<Rightarrow> (scheduled_task \<Rightarrow> string option) \<Rightarrow> bool \<Rightarrow> string \<Rightarrow> scheduler \<Rightarrow> scheduler \<times> (sched_error + string)" where
  "trigger_run cal now run written i s =
     (case trigger_begin i s of
        None \<Rightarrow> (s, Inl (RunInFlight i))
      | Some s1 \<Rightarrow>
          (let outcome = execute_once run i s1
           in (fst (persist written (trigger_record cal now i (case outcome of Inr _ \<Rightarrow> True | Inl _ \<Rightarrow> False) (trigger_end i s1))),
               outcome)))"

section \<open>An example\<close>

definition example_params :: create_params where
  "example_params = \<lparr>cp_name = ''a'', cp_cron = ''* * * * *'', cp_prompt = ''b'', cp_cwd = None, cp_model = None,
     cp_sandbox = None, cp_enabled = None\<rparr>"

definition example_task :: "int \<Rightarrow> scheduled_task" where
  "example_task n = \<lparr>task_id = ''i'', task_name = ''a'', task_cron = ''* * * * *'', task_prompt = ''b'', task_cwd = None,
     task_model = None, task_sandbox = None, task_enabled = True, task_created_at = 0, task_updated_at = 0,
     task_last_run_at = None, task_last_status = None, task_next_run_at = Some n\<rparr>"

definition example_scheduler :: "int \<Rightarrow> scheduler" where
  "example_scheduler n = \<lparr>sch_schedules = [(''i'', example_task n)], sch_running = {}, sch_counter = 0, sch_store = None\<rparr>"

lemma example_accepted: "check_create example_params = None"
proof -
  have "str_trim ''a'' = ''a''" "str_trim ''b'' = ''b''" by code_simp+
  then show ?thesis by (simp add: check_create_def example_params_def every_minute_parsed)
qed

section \<open>Concurrent calls\<close>

text \<open>
  What calls have left to do: a spawned trigger, a run, a run that has left the set of running ids
  and is not yet recorded, and the two halves of persisting. A run can succeed or fail for reasons
  outside of the scheduler, so its outcome is any truth value.
\<close>

datatype activity =
    Spawned string
  | Executing string
  | Finished string bool
  | Saving
  | Writing "scheduled_task list"

type_synonym world = "scheduler \<times> activity multiset"

inductive sched_step :: "calendar \<Rightarrow> world \<Rightarrow> world \<Rightarrow> bool" for cal where
  created: "check_create p = None \<Longrightarrow>
    sched_step cal (s, A) (fst (insert_schedule cal now p s), add_mset Saving A)"
| changed: "change_schedule cal now p s = (s', Inr t) \<Longrightarrow> sched_step cal (s, A) (s', add_mset Saving A)"
| rejected: "change_schedule cal now p s = (s', Inl e) \<Longrightarrow> sched_step cal (s, A) (s', A)"
| deleted: "map_of (sch_schedules s) i \<noteq> None \<Longrightarrow>
    sched_step cal (s, A) (remove_schedule i s, add_mset Saving A)"
| ticked: "sched_step cal (s, A) (s, A + mset (map Spawned (due now s)))"
| asked: "sched_step cal (s, A) (s, add_mset (Spawned i) A)"
| begun: "trigger_begin i s = Some s' \<Longrightarrow>
    sched_step cal (s, add_mset (Spawned i) A) (s', add_mset (Executing i) A)"
| refused: "trigger_begin i s = None \<Longrightarrow> sched_step cal (s, add_mset (Spawned i) A) (s, A)"
| executed: "sched_step cal (s, add_mset (Executing i) A) (trigger_end i s, add_mset (Finished i ok) A)"
| recorded: "sched_step cal (s, add_mset (Finished i ok) A) (trigger_record cal now i ok s, add_mset Saving A)"
| snapshot: "sched_step cal (s, add_mset Saving A) (s, add_mset (Writing (store_snapshot s)) A)"
| written: "sched_step cal (s, add_mset (Writing l) A) (s\<lparr>sch_store := Some l\<rparr>, A)"
| not_written: "sched_step cal (s, add_mset (Writing l) A) (s, A)"

definition runs_counted :: "world \<Rightarrow> bool" where
  "runs_counted w \<longleftrightarrow> (\<forall>i. count (snd w) (Executing i) = (if i \<in> sch_running (fst w) then 1 else 0))"

lemma running_unchanged:
  "sch_running (fst (insert_schedule cal now p s)) = sch_running s"
  "sch_running (fst (change_schedule cal now q s)) = sch_running s"
  "sch_running (remove_schedule i s) = sch_running s"
  "sch_running (trigger_record cal now i ok s) = sch_running s"
  by (simp_all add: insert_schedule_def change_schedule_def remove_schedule_def trigger_record_def Let_def
      split: option.splits prod.splits)

lemma spawned_not_executing: "count (mset (map Spawned xs)) (Executing i) = 0"
  by (induction xs) simp_all

lemma sched_step_counted:
  assumes "sched_step cal w w'" "runs_counted w"
  shows "runs_counted w'"
  using assms
proof induction
  case (changed now p s s' t A)
  then have "sch_running s' = sch_running s" using running_unchanged(2)[of cal now p s] by simp
  with changed show ?case by (simp add: runs_counted_def)
next
  case (rejected now p s s' e A)
  then have "sch_running s' = sch_running s" using running_unchanged(2)[of cal now p s] by simp
  with rejected show ?case by (simp add: runs_counted_def)
next
  case (begun i s s' A)
  then have "i \<notin> sch_running s" "sch_running s' = insert i (sch_running s)"
    by (auto simp: trigger_begin_def split: if_splits)
  with begun show ?case by (auto simp: runs_counted_def split: if_splits)
next
  case (executed s i A ok)
  then have h: "count (add_mset (Executing i) A) (Executing j) = (if j \<in> sch_running s then 1 else 0)" for j
    by (simp add: runs_counted_def)
  have "count A (Executing j) = (if j \<in> sch_running s - {i} then 1 else 0)" for j
    using h[of j] by (cases "j = i") (simp_all split: if_splits)
  then show ?case by (simp add: runs_counted_def trigger_end_def)
next
  case (ticked s A now)
  then show ?case using spawned_not_executing[of "due now s"] by (simp add: runs_counted_def)
qed (simp_all add: runs_counted_def running_unchanged)

text \<open>C22: a schedule never has two runs in flight. However ticks, requests, runs and edits of
  schedules interleave, at most one run of a schedule is being executed, and exactly when its id is in
  the set of running ids.\<close>

theorem one_run_in_flight:
  assumes "(sched_step cal)\<^sup>*\<^sup>* (scheduler_new cal now loaded store, {#}) (s, A)"
  shows "count A (Executing i) \<le> 1 \<and> (Executing i \<in># A \<longleftrightarrow> i \<in> sch_running s)"
proof -
  have start: "runs_counted (scheduler_new cal now loaded store, {#})"
    by (simp add: runs_counted_def scheduler_new_def)
  from assms have "runs_counted (s, A)"
    using start by (induction rule: rtranclp_induct) (auto intro: sched_step_counted)
  then have "count A (Executing i) = (if i \<in> sch_running s then 1 else 0)" by (simp add: runs_counted_def)
  then show ?thesis by (simp flip: count_greater_zero_iff)
qed

theorem one_run_in_flight_witness:
  "count {#Executing ''i''#} (Executing ''i'') \<le> 1"
proof -
  let ?s = "scheduler_new utc_calendar 0 None None"
  have "sched_step utc_calendar (?s, {#}) (?s, {#Spawned ''i''#})" by (rule asked)
  moreover have "sched_step utc_calendar (?s, {#Spawned ''i''#}) (?s\<lparr>sch_running := {''i''}\<rparr>, {#Executing ''i''#})"
    by (rule begun) (simp add: trigger_begin_def scheduler_new_def)
  ultimately have "(sched_step utc_calendar)\<^sup>*\<^sup>* (?s, {#}) (?s\<lparr>sch_running := {''i''}\<rparr>, {#Executing ''i''#})"
    by (meson r_into_rtranclp rtranclp.rtrancl_into_rtrancl)
  from one_run_in_flight[OF this] show ?thesis by blast
qed

section \<open>Well-formed schedules\<close>

definition task_ok :: "scheduled_task \<Rightarrow> bool" where
  "task_ok t \<longleftrightarrow> task_name t \<noteq> [] \<and> task_prompt t \<noteq> [] \<and> (\<exists>c. parse_cron (task_cron t) = Inr c) \<and>
     (\<not> task_enabled t \<longrightarrow> task_next_run_at t = None)"

definition schedules_ok :: "(string \<times> scheduled_task) list \<Rightarrow> bool" where
  "schedules_ok m \<longleftrightarrow> distinct (map fst m) \<and> (\<forall>k t. map_of m k = Some t \<longrightarrow> task_id t = k \<and> task_ok t)"

lemma schedules_ok_update:
  "schedules_ok m \<Longrightarrow> task_id t = k \<Longrightarrow> task_ok t \<Longrightarrow> schedules_ok (AList.update k t m)"
  by (auto simp: schedules_ok_def update_conv' distinct_update)

lemma schedules_ok_delete: "schedules_ok m \<Longrightarrow> schedules_ok (AList.delete k m)"
  by (auto simp: schedules_ok_def delete_conv' distinct_delete restrict_map_def split: if_splits)

lemma replan_ok: "task_ok t \<or> (task_name t \<noteq> [] \<and> task_prompt t \<noteq> [] \<and> (\<exists>c. parse_cron (task_cron t) = Inr c)) \<Longrightarrow>
    task_ok (replan cal now t)"
  by (auto simp: task_ok_def replan_def next_run_at_for_def)

lemma replan_id [simp]: "task_id (replan cal now t) = task_id t"
  by (simp add: replan_def)

lemma new_task_ok: "check_create p = None \<Longrightarrow> task_ok (new_task cal now c p)"
  by (auto simp: new_task_def check_create_def intro!: replan_ok split: if_splits sum.splits)

text \<open>Also an update that is rejected half way leaves a well-formed task behind.\<close>

lemma set_fields_ok:
  "task_ok t \<Longrightarrow> task_ok (fst (set_name p t)) \<and> task_id (fst (set_name p t)) = task_id t"
  "task_ok t \<Longrightarrow> task_ok (fst (set_cron p t)) \<and> task_id (fst (set_cron p t)) = task_id t"
  "task_ok t \<Longrightarrow> task_ok (fst (set_prompt p t)) \<and> task_id (fst (set_prompt p t)) = task_id t"
  by (auto simp: set_name_def set_cron_def set_prompt_def task_ok_def split: option.splits sum.splits)

lemma update_task_ok:
  assumes "task_ok t"
  shows "task_ok (fst (update_task cal now p t)) \<and> task_id (fst (update_task cal now p t)) = task_id t"
proof -
  obtain t1 e1 where 1: "set_name p t = (t1, e1)" by fastforce
  obtain t2 e2 where 2: "set_cron p t1 = (t2, e2)" by fastforce
  obtain t3 e3 where 3: "set_prompt p t2 = (t3, e3)" by fastforce
  have ok: "task_ok t1" "task_ok t2" "task_ok t3" "task_id t1 = task_id t" "task_id t2 = task_id t" "task_id t3 = task_id t"
    using set_fields_ok(1)[OF assms, of p] set_fields_ok(2)[of t1 p] set_fields_ok(3)[of t2 p] 1 2 3 by simp_all
  have "task_ok (replan cal now ((set_rest p t3)\<lparr>task_updated_at := now\<rparr>))"
    using ok(3) by (intro replan_ok) (auto simp: task_ok_def set_rest_def)
  with ok show ?thesis
    by (simp add: update_task_def 1 2 3 split: option.splits) (simp add: set_rest_def)
qed

lemma step_schedules_ok:
  assumes "sched_step cal w w'" "schedules_ok (sch_schedules (fst w))"
  shows "schedules_ok (sch_schedules (fst w'))"
proof -
  have change: "schedules_ok (sch_schedules (fst (change_schedule cal now p s)))" if "schedules_ok (sch_schedules s)" for now p s
  proof (cases "map_of (sch_schedules s) (up_id p)")
    case (Some t)
    with that have "task_id t = up_id p" "task_ok t" by (auto simp: schedules_ok_def)
    with that Some update_task_ok[of t cal now p] show ?thesis
      by (auto simp: change_schedule_def Let_def intro!: schedules_ok_update split: prod.splits)
  qed (use that in \<open>simp add: change_schedule_def\<close>)
  from assms show ?thesis
  proof induction
    case (created p s A now)
    then show ?case
      by (auto simp: insert_schedule_def Let_def intro!: schedules_ok_update new_task_ok)
  next
    case (changed now p s s' t A)
    with change[of s now p] show ?case by simp
  next
    case (rejected now p s s' e A)
    with change[of s now p] show ?case by simp
  next
    case (recorded s i ok A now)
    show ?case
    proof (cases "map_of (sch_schedules s) i")
      case (Some t)
      with recorded have t: "task_id t = i" "task_ok t" by (auto simp: schedules_ok_def)
      then have "task_ok (record_run cal now ok t)" unfolding record_run_def by (intro replan_ok) (auto simp: task_ok_def)
      with recorded t Some show ?thesis
        by (auto simp: trigger_record_def record_run_def intro!: schedules_ok_update)
    qed (use recorded in \<open>simp add: trigger_record_def\<close>)
  qed (auto simp: remove_schedule_def trigger_begin_def trigger_end_def schedules_ok_delete split: if_splits)
qed

text \<open>C25: schedules stay well-formed. Starting from well-formed schedules, after any interleaving of
  calls, rejected ones included, every schedule is stored under its id and has a name, a prompt
  and a cron expression that parses, and a disabled schedule has no planned run.\<close>

theorem schedules_stay_well_formed:
  assumes "(sched_step cal)\<^sup>*\<^sup>* (s0, A0) (s, A)" "schedules_ok (sch_schedules s0)"
  shows "distinct (map fst (sch_schedules s)) \<and>
    (\<forall>k t. (k, t) \<in> set (sch_schedules s) \<longrightarrow>
       task_id t = k \<and> task_name t \<noteq> [] \<and> task_prompt t \<noteq> [] \<and> (\<exists>c. parse_cron (task_cron t) = Inr c) \<and>
       (task_next_run_at t \<noteq> None \<longrightarrow> task_enabled t))"
proof -
  have "schedules_ok (sch_schedules (fst w'))" if "(sched_step cal)\<^sup>*\<^sup>* w w'" "schedules_ok (sch_schedules (fst w))" for w w'
    using that by (induction rule: rtranclp_induct) (auto intro: step_schedules_ok)
  from this[OF assms(1)] assms(2) have ok: "schedules_ok (sch_schedules s)" by simp
  then have "map_of (sch_schedules s) k = Some t" if "(k, t) \<in> set (sch_schedules s)" for k t
    using that by (simp add: schedules_ok_def)
  with ok show ?thesis by (fastforce simp: schedules_ok_def task_ok_def)
qed

theorem schedules_stay_well_formed_witness:
  "distinct (map fst (sch_schedules (fst (insert_schedule utc_calendar 0 example_params (scheduler_new utc_calendar 0 None None)))))"
proof -
  let ?s = "scheduler_new utc_calendar 0 None None"
  have "(sched_step utc_calendar)\<^sup>*\<^sup>* (?s, {#}) (fst (insert_schedule utc_calendar 0 example_params ?s), {#Saving#})"
    by (rule r_into_rtranclp) (rule created[OF example_accepted])
  moreover have "schedules_ok (sch_schedules ?s)" by (simp add: schedules_ok_def scheduler_new_def)
  ultimately show ?thesis using schedules_stay_well_formed by blast
qed

section \<open>Plans\<close>

interpretation tasks: planner "next_run_at_for cal" "\<lambda>t n. \<exists>c. parse_cron (task_cron t) = Inr c \<and> fires_at cal c n" for cal
proof unfold_locales
  fix t now n
  assume "next_run_at_for cal t now = Some n"
  then obtain c where "parse_cron (task_cron t) = Inr c" "next_run_after cal c now = Some n"
    by (auto simp: next_run_at_for_def split: if_splits sum.splits)
  then show "now < n" "\<exists>c. parse_cron (task_cron t) = Inr c \<and> fires_at cal c n"
    using cron.plan_later cron.plan_fires by blast+
qed

lemma planned_ahead:
  assumes "\<exists>t0. t = replan cal now t0"
  shows "task_next_run_at t = Some n \<longrightarrow> now < n \<and> (\<exists>c. parse_cron (task_cron t) = Inr c \<and> fires_at cal c n)"
proof -
  from assms obtain t0 where "t = replan cal now t0" by blast
  then show ?thesis using tasks.plan_later[of cal t0 now n] tasks.plan_fires[of cal t0 now n] by (simp add: replan_def)
qed

lemma replan_cron [simp]: "task_cron (replan cal now t) = task_cron t"
  by (simp add: replan_def)

lemma update_task_replans: "update_task cal now p t = (t', None) \<Longrightarrow> \<exists>t0. t' = replan cal now t0"
  by (auto simp: update_task_def split: prod.splits option.splits)

lemma accepted_change:
  assumes "change_schedule cal now p s = (s', Inr t)"
  shows "sch_schedules s' = AList.update (up_id p) t (sch_schedules s) \<and> (\<exists>t0. t = replan cal now t0)"
  using assms update_task_replans by (auto simp: change_schedule_def Let_def split: option.splits prod.splits)

lemma accepted_create:
  assumes "create_schedule cal now ok p s = (s', Inr t)"
  shows "\<exists>s1. insert_schedule cal now p s = (s1, t) \<and> s' = s1\<lparr>sch_store := Some (store_snapshot s1)\<rparr>"
  using assms
  by (cases "insert_schedule cal now p s"; cases "check_create p"; cases ok) (simp_all add: create_schedule_def persist_def)

text \<open>A successful call is visible and planned ahead. The schedule that creating or updating
  returns is the one stored under its key, the store file holds the schedules, and
  a run that is planned is later than the time of the call and at a time the cron expression fires.\<close>

theorem accepted_calls_plan_ahead:
  assumes "create_schedule cal now ok p s = (s', Inr t) \<and> k = task_id t \<or>
    update_schedule cal now ok q s = (s', Inr t) \<and> k = up_id q"
  shows "map_of (sch_schedules s') = (map_of (sch_schedules s))(k \<mapsto> t) \<and> sch_store s' = Some (store_snapshot s') \<and>
    (\<forall>n. task_next_run_at t = Some n \<longrightarrow> now < n \<and> (\<exists>c. parse_cron (task_cron t) = Inr c \<and> fires_at cal c n))"
  using assms
proof
  assume h: "create_schedule cal now ok p s = (s', Inr t) \<and> k = task_id t"
  then obtain s1 where s1: "insert_schedule cal now p s = (s1, t)" "s' = s1\<lparr>sch_store := Some (store_snapshot s1)\<rparr>"
    using accepted_create by blast
  then have t: "t = new_task cal now (sch_counter s) p"
    and s': "sch_schedules s' = AList.update k t (sch_schedules s)" "sch_store s' = Some (store_snapshot s')"
    using h by (auto simp: insert_schedule_def store_snapshot_def Let_def)
  moreover have "\<exists>t0. t = replan cal now t0" unfolding t new_task_def by (rule exI) (rule refl)
  ultimately show ?thesis using planned_ahead by (simp add: update_conv')
next
  assume h: "update_schedule cal now ok q s = (s', Inr t) \<and> k = up_id q"
  then obtain s1 where s1: "change_schedule cal now q s = (s1, Inr t)" "s' = s1\<lparr>sch_store := Some (store_snapshot s1)\<rparr>"
    by (cases "change_schedule cal now q s"; cases "snd (change_schedule cal now q s)"; cases ok)
      (auto simp: update_schedule_def persist_def)
  with accepted_change[OF s1(1)] h show ?thesis
    using planned_ahead[OF conjunct2[OF accepted_change[OF s1(1)]]] by (simp add: update_conv' store_snapshot_def)
qed

theorem accepted_calls_plan_ahead_witness:
  "sch_store (fst (create_schedule utc_calendar 0 True example_params (example_scheduler 60))) \<noteq> None"
proof -
  let ?s = "example_scheduler 60"
  obtain s1 t where s1: "insert_schedule utc_calendar 0 example_params ?s = (s1, t)" by fastforce
  then have "create_schedule utc_calendar 0 True example_params ?s = (s1\<lparr>sch_store := Some (store_snapshot s1)\<rparr>, Inr t)"
    by (simp add: create_schedule_def example_accepted persist_def)
  with accepted_calls_plan_ahead[of utc_calendar 0 True example_params ?s _ t "task_id t"] show ?thesis by simp
qed

text \<open>Loaded schedules are all planned anew.\<close>

lemma update_set: "x \<in> set (AList.update k v m) \<Longrightarrow> x = (k, v) \<or> x \<in> set m"
  by (induction m) (auto split: if_splits)

lemma loaded_replanned: "(k, t) \<in> set (load_schedules cal now stored) \<Longrightarrow> \<exists>t0. t = replan cal now t0"
proof -
  have "\<forall>x \<in> set (foldl (\<lambda>m t. AList.update (task_id t) (replan cal now t) m) m stored). \<exists>t0. snd x = replan cal now t0"
    if "\<forall>x \<in> set m. \<exists>t0. snd x = replan cal now t0" for m
    using that
  proof (induction stored arbitrary: m)
    case (Cons t stored)
    show ?case unfolding foldl.simps by (rule Cons.IH) (use Cons.prems update_set in fastforce)
  qed simp
  from this[of "[]"] show "(k, t) \<in> set (load_schedules cal now stored) \<Longrightarrow> \<exists>t0. t = replan cal now t0"
    by (fastforce simp: load_schedules_def)
qed

text \<open>A restarted server does not make up for runs it missed. Whatever the store holds, no
  schedule is due at the time it is loaded.\<close>

theorem restart_runs_nothing_missed: "due now (scheduler_new cal now loaded store) = []"
proof (cases loaded)
  case (Some stored)
  have "\<not> (case task_next_run_at t of Some n \<Rightarrow> n \<le> now | None \<Rightarrow> False)" if "(k, t) \<in> set (load_schedules cal now stored)" for k t
    using loaded_replanned[OF that] tasks.not_due_when_planned[where cal = cal and now = now] by (auto simp: replan_def)
  with Some show ?thesis by (fastforce simp: due_def scheduler_new_def filter_empty_conv)
qed (simp add: due_def scheduler_new_def)

section \<open>Divergences\<close>

text \<open>C38: an update that is rejected can still change the schedule. When the new cron expression is
  valid and the new prompt blank, the call fails, but the schedule has the new expression, with the
  run planned for the old one, and the store file does not have it.\<close>

theorem rejected_update_changes_schedule:
  assumes "map_of (sch_schedules s) (up_id p) = Some t" "up_name p = None"
    and "up_cron p = Some cron" "parse_cron cron = Inr c" "up_prompt p = Some prompt" "str_trim prompt = []"
  shows "\<exists>s'. update_schedule cal now ok p s = (s', Inl EmptyPrompt) \<and>
    map_of (sch_schedules s') (up_id p) = Some (t\<lparr>task_cron := cron\<rparr>) \<and> sch_store s' = sch_store s"
  using assms
  by (simp add: update_schedule_def change_schedule_def update_task_def set_name_def set_cron_def set_prompt_def
      Let_def update_conv')

theorem rejected_update_changes_schedule_witness:
  "\<exists>s'. update_schedule utc_calendar 0 True
      \<lparr>up_id = ''i'', up_name = None, up_cron = Some ''* * * * *'', up_prompt = Some [], up_cwd = None, up_model = None,
       up_sandbox = None, up_enabled = None\<rparr> (example_scheduler 60) = (s', Inl EmptyPrompt)"
  (is "\<exists>s'. update_schedule _ _ _ ?p _ = _")
proof -
  have "str_trim [] = []" by code_simp
  with rejected_update_changes_schedule[of "example_scheduler 60" ?p "example_task 60" "''* * * * *''" every_minute "[]" utc_calendar 0 True]
  show ?thesis by (auto simp: example_scheduler_def every_minute_parsed)
qed

text \<open>The guard against duplicate runs leaves a gap. When a due schedule has run and left the set
  of running ids, but the run is not recorded yet, the next tick finds it due again, and its trigger
  is let through.\<close>

theorem due_run_can_start_twice:
  assumes "i \<in> set (due now s)" "trigger_begin i s = Some s1" "now \<le> later"
  shows "i \<in> set (due later (trigger_end i s1)) \<and> trigger_begin i (trigger_end i s1) \<noteq> None"
proof -
  have "sch_schedules (trigger_end i s1) = sch_schedules s" "i \<notin> sch_running (trigger_end i s1)"
    using assms(2) by (auto simp: trigger_begin_def trigger_end_def split: if_splits)
  with assms(1,3) show ?thesis
    by (fastforce simp: due_def trigger_begin_def split: option.splits)
qed

theorem due_run_can_start_twice_witness:
  "''i'' \<in> set (due 90 (trigger_end ''i'' ((example_scheduler 60)\<lparr>sch_running := {''i''}\<rparr>)))"
proof -
  have "''i'' \<in> set (due 61 (example_scheduler 60))" by (simp add: due_def example_scheduler_def example_task_def)
  moreover have "trigger_begin ''i'' (example_scheduler 60) = Some ((example_scheduler 60)\<lparr>sch_running := {''i''}\<rparr>)"
    by (simp add: trigger_begin_def example_scheduler_def)
  ultimately show ?thesis using due_run_can_start_twice[of "''i''" 61 "example_scheduler 60" _ 90] by simp
qed

lemma different_ids: "schedule_id now 0 \<noteq> schedule_id now 1"
proof -
  have "pad6 0 \<noteq> pad6 1" by code_simp
  then show ?thesis by (simp add: schedule_id_def)
qed

text \<open>The store file can fall behind for good. Two schedules are created one after the other; when
  the first call writes its snapshot after the second call has written, no call is left, both
  schedules are there, and the file holds only one of them.\<close>

theorem store_can_lose_schedule:
  assumes "check_create p1 = None" "check_create p2 = None"
  shows "\<exists>s t stored. (sched_step cal)\<^sup>*\<^sup>* (scheduler_new cal now None None, {#}) (s, {#}) \<and>
    t \<in> snd ` set (sch_schedules s) \<and> sch_store s = Some stored \<and> t \<notin> set stored"
proof -
  let ?s0 = "scheduler_new cal now None None"
  let ?s1 = "fst (insert_schedule cal now p1 ?s0)" and ?t1 = "new_task cal now 0 p1"
  let ?s2 = "fst (insert_schedule cal now p2 ?s1)" and ?t2 = "new_task cal now 1 p2"
  let ?w1 = "Writing (store_snapshot ?s1)" and ?w2 = "Writing (store_snapshot ?s2)"
  note R = rtranclp.rtrancl_into_rtrancl[of "sched_step cal"]
  have "(sched_step cal)\<^sup>*\<^sup>* (?s0, {#}) (?s1, {#Saving#})" by (rule r_into_rtranclp) (rule created[OF assms(1)])
  from R[OF this snapshot] have "(sched_step cal)\<^sup>*\<^sup>* (?s0, {#}) (?s1, {#?w1#})" .
  from R[OF this created[OF assms(2)]] have "(sched_step cal)\<^sup>*\<^sup>* (?s0, {#}) (?s2, {#Saving, ?w1#})" .
  from R[OF this snapshot] have "(sched_step cal)\<^sup>*\<^sup>* (?s0, {#}) (?s2, {#?w2, ?w1#})" .
  from R[OF this written] have "(sched_step cal)\<^sup>*\<^sup>* (?s0, {#}) (?s2\<lparr>sch_store := Some (store_snapshot ?s2)\<rparr>, {#?w1#})" .
  from R[OF this written] have run: "(sched_step cal)\<^sup>*\<^sup>* (?s0, {#}) (?s2\<lparr>sch_store := Some (store_snapshot ?s1)\<rparr>, {#})" by simp
  have ids: "task_id ?t1 = schedule_id now 0" "task_id ?t2 = schedule_id now 1" by (simp_all add: new_task_def)
  have s1: "sch_schedules ?s1 = [(task_id ?t1, ?t1)]" "sch_counter ?s1 = 1"
    by (simp_all add: insert_schedule_def scheduler_new_def Let_def)
  then have s2: "sch_schedules ?s2 = [(task_id ?t1, ?t1), (task_id ?t2, ?t2)]"
    using different_ids ids by (simp add: insert_schedule_def Let_def)
  have "?t2 \<noteq> ?t1" using different_ids ids by metis
  then have "?t2 \<notin> set (store_snapshot ?s1)" by (simp add: store_snapshot_def s1)
  moreover have "?t2 \<in> snd ` set (sch_schedules ?s2)" by (simp add: s2)
  ultimately show ?thesis
    using run by (intro exI[of _ "?s2\<lparr>sch_store := Some (store_snapshot ?s1)\<rparr>"] exI[of _ ?t2]) simp
qed

theorem store_can_lose_schedule_witness:
  "\<exists>s t stored. (sched_step utc_calendar)\<^sup>*\<^sup>* (scheduler_new utc_calendar 0 None None, {#}) (s, {#}) \<and>
    t \<in> snd ` set (sch_schedules s) \<and> sch_store s = Some stored \<and> t \<notin> set stored"
  by (rule store_can_lose_schedule[OF example_accepted example_accepted])

section \<open>Pages\<close>

text \<open>Reading all pages: following the cursors until there is none, with fuel for the calls.\<close>

fun pages :: "nat \<Rightarrow> scheduler \<Rightarrow> string option \<Rightarrow> nat option \<Rightarrow> scheduled_task list list option" where
  "pages 0 s cursor limit = None"
| "pages (Suc fuel) s cursor limit =
     (case list_schedules s cursor limit of
        Inl _ \<Rightarrow> None
      | Inr (page, None) \<Rightarrow> Some [page]
      | Inr (page, Some c) \<Rightarrow> map_option (Cons page) (pages fuel s (Some c) limit))"

definition page_size :: "nat option \<Rightarrow> nat" where
  "page_size limit = min (case limit of Some l \<Rightarrow> l | None \<Rightarrow> 100) 500"

lemma list_at:
  assumes "offset < 2 ^ 64"
  shows "list_schedules s (Some (show_nat offset)) limit =
    (let page = take (page_size limit) (drop offset (listing s))
     in Inr (page, if length page = page_size limit then Some (show_nat (offset + page_size limit)) else None))"
  using parse_show[OF assms] by (simp add: list_schedules_def page_size_def Let_def)

lemma list_start: "list_schedules s None limit = list_schedules s (Some (show_nat 0)) limit"
proof -
  have "show_nat 0 = ''0''" by code_simp
  then show ?thesis by (simp add: list_schedules_def)
qed

lemma pages_start: "pages fuel s None limit = pages fuel s (Some (show_nat 0)) limit"
  by (cases fuel) (simp_all add: list_start)

lemma pages_from:
  assumes "0 < page_size limit" "length (listing s) < 2 ^ 64"
  shows "offset \<le> length (listing s) \<Longrightarrow> length (listing s) - offset < fuel \<Longrightarrow>
    \<exists>ps. pages fuel s (Some (show_nat offset)) limit = Some ps \<and> concat ps = drop offset (listing s)"
proof (induction fuel arbitrary: offset)
  case (Suc fuel)
  let ?n = "page_size limit" and ?L = "listing s"
  have o: "offset < 2 ^ 64" using Suc.prems(1) assms(2) by simp
  show ?case
  proof (cases "length (take ?n (drop offset ?L)) = ?n")
    case True
    then have le: "offset + ?n \<le> length ?L" using assms(1) by (simp add: min_def split: if_splits)
    moreover have "length ?L - (offset + ?n) < fuel" using Suc.prems(2) le assms(1) by linarith
    ultimately obtain ps where ps: "pages fuel s (Some (show_nat (offset + ?n))) limit = Some ps"
      "concat ps = drop (offset + ?n) ?L" using Suc.IH by blast
    have "take ?n (drop offset ?L) @ drop (offset + ?n) ?L = drop offset ?L"
      by (metis add.commute append_take_drop_id drop_drop)
    with True ps show ?thesis by (simp add: list_at[OF o] Let_def)
  next
    case False
    then have "take ?n (drop offset ?L) = drop offset ?L" by auto
    with False show ?thesis by (simp add: list_at[OF o] Let_def)
  qed
qed simp

lemma length_listing: "length (listing s) = length (sch_schedules s)"
  by (simp add: listing_def)

lemma pages_without_limit: "pages fuel s (Some (show_nat 0)) (Some 0) = None"
  by (induction fuel) (simp_all add: list_at[of 0] page_size_def)

text \<open>Following the cursors lists every schedule once. With a page size of at least one, the
  pages end and are together all schedules, ordered by creation, newest first, and by id; with
  a page size of zero the cursor stays where it is and there is no last page.\<close>

theorem pages_cover:
  assumes "length (sch_schedules s) < 2 ^ 64" "limit \<noteq> Some 0"
  shows "(\<exists>ps. pages (length (sch_schedules s) + 1) s None limit = Some ps \<and>
      mset (concat ps) = mset (map snd (sch_schedules s)) \<and>
      sorted (map (\<lambda>t. (- task_created_at t, task_id t)) (concat ps))) \<and>
    (\<forall>fuel. pages fuel s None (Some 0) = None)"
proof -
  have "0 < page_size limit" using assms(2) by (cases limit) (auto simp: page_size_def)
  from pages_from[OF this, of s 0 "length (sch_schedules s) + 1"] assms(1)
  obtain ps where "pages (length (sch_schedules s) + 1) s None limit = Some ps" "concat ps = listing s"
    by (auto simp: pages_start length_listing)
  then show ?thesis using pages_without_limit by (auto simp: pages_start listing_def)
qed

theorem pages_cover_witness:
  "\<exists>ps. pages 2 (example_scheduler 60) None (Some 1) = Some ps \<and> mset (concat ps) = {#example_task 60#}"
proof -
  have "length (sch_schedules (example_scheduler 60)) = 1" "map snd (sch_schedules (example_scheduler 60)) = [example_task 60]"
    by (simp_all add: example_scheduler_def)
  with pages_cover[of "example_scheduler 60" "Some 1"] show ?thesis by (simp only: one_add_one) auto
qed

end
