(* ===== verification/Config_Merge.thy ===== *)
theory Config_Merge
  imports Network_Host "HOL-Library.AList"
begin

text \<open>
  Merging of configuration layers (\<open>config/src/merge.rs\<close>, \<open>key_aliases.rs\<close>,
  \<open>overrides.rs\<close>).

  A \<open>toml::Value\<close> is a \<open>toml\<close>. The crate builds \<open>toml\<close> with \<open>preserve_order\<close>, so a table is an
  insertion-ordered map: an association list in which \<open>insert\<close> is \<^const>\<open>AList.update\<close> (in place,
  or at the end), \<open>remove\<close> is \<^const>\<open>AList.delete\<close> and \<open>get\<close> is \<^const>\<open>map_of\<close>. The code mutates
  the base through \<open>&mut\<close>; here every operation returns the new base. The path that the code
  pushes and pops is an argument. \<open>cfg!(windows)\<close> is the argument \<open>win\<close>, and
  \<open>str::to_lowercase\<close>, whose Unicode tables are not in the sources, is the argument \<open>lower\<close>.

  Sections: values and tables, key aliases, the merge, command-line overrides, the reference view
  of a merge as a lookup, and the rules of the tables that the merge treats specially.
\<close>

section \<open>Values and tables\<close>

datatype toml =
    TString string
  | TInteger int
  | TFloat "64 word"
  | TBoolean bool
  | TDatetime string
  | TArray "toml list"
  | TTable "(string \<times> toml) list"

type_synonym toml_table = "(string \<times> toml) list"
type_synonym key_path = "string list"

text \<open>\<open>as_table\<close>, \<open>as_array\<close>, \<open>as_str\<close> and \<open>Value::get\<close> with a string index.\<close>

definition as_table :: "toml \<Rightarrow> toml_table option" where
  "as_table v = (case v of TTable t \<Rightarrow> Some t | _ \<Rightarrow> None)"

definition as_array :: "toml \<Rightarrow> toml list option" where
  "as_array v = (case v of TArray xs \<Rightarrow> Some xs | _ \<Rightarrow> None)"

definition toml_str :: "toml \<Rightarrow> string option" where
  "toml_str v = (case v of TString s \<Rightarrow> Some s | _ \<Rightarrow> None)"

definition is_table :: "toml \<Rightarrow> bool" where
  "is_table v = (case v of TTable _ \<Rightarrow> True | _ \<Rightarrow> False)"

definition toml_get :: "toml \<Rightarrow> string \<Rightarrow> toml option" where
  "toml_get v k = (case v of TTable t \<Rightarrow> map_of t k | _ \<Rightarrow> None)"

text \<open>\<open>Map::entry(k).or_insert(v)\<close>, read as the table it leaves.\<close>

definition or_insert :: "string \<Rightarrow> toml \<Rightarrow> toml_table \<Rightarrow> toml_table" where
  "or_insert k v t = (case map_of t k of Some _ \<Rightarrow> t | None \<Rightarrow> AList.update k v t)"

text \<open>What an \<open>IndexMap\<close> guarantees: the keys of every table are distinct.\<close>

fun toml_ok :: "toml \<Rightarrow> bool" where
  "toml_ok (TTable t) = (distinct (map fst t) \<and> list_all (\<lambda>(k, v). toml_ok v) t)"
| "toml_ok (TArray xs) = list_all toml_ok xs"
| "toml_ok _ = True"

definition table_ok :: "toml_table \<Rightarrow> bool" where
  "table_ok t \<longleftrightarrow> distinct (map fst t) \<and> (\<forall>v \<in> snd ` set t. toml_ok v)"

section \<open>Key aliases\<close>

record ConfigKeyAlias =
  table_path :: key_path
  legacy_key :: string
  canonical_key :: string

definition CONFIG_KEY_ALIASES :: "ConfigKeyAlias list" where
  "CONFIG_KEY_ALIASES =
     [\<lparr>table_path = [''memories''], legacy_key = ''no_memories_if_mcp_or_web_search'',
       canonical_key = ''disable_on_external_context''\<rparr>,
      \<lparr>table_path = [''agents''], legacy_key = ''max_threads'',
       canonical_key = ''max_concurrent_threads_per_session''\<rparr>]"

definition normalize_alias :: "key_path \<Rightarrow> ConfigKeyAlias \<Rightarrow> toml_table \<Rightarrow> toml_table" where
  "normalize_alias path alias t =
     (if path = table_path alias
      then case map_of t (legacy_key alias) of
             Some v \<Rightarrow> or_insert (canonical_key alias) v (AList.delete (legacy_key alias) t)
           | None \<Rightarrow> t
      else t)"

definition normalize_key_aliases :: "key_path \<Rightarrow> toml_table \<Rightarrow> toml_table" where
  "normalize_key_aliases path t = fold (normalize_alias path) CONFIG_KEY_ALIASES t"

lemma toml_entry_smaller [termination_simp]:
  "(k, v) \<in> set t \<Longrightarrow> size v < Suc (size_list (size_prod (\<lambda>_. 0) size) t)"
  "(k, v) \<in> set t \<Longrightarrow> size v < Suc (size_list (size_prod size size) t)"
  by (induction t) auto

fun normalized_with_key_aliases :: "toml \<Rightarrow> key_path \<Rightarrow> toml" where
  "normalized_with_key_aliases (TTable t) path =
     TTable (normalize_key_aliases path
       (fold (\<lambda>(key, child) n. AList.update key (normalized_with_key_aliases child (path @ [key])) n) t []))"
| "normalized_with_key_aliases (TArray items) path =
     TArray (map (\<lambda>item. normalized_with_key_aliases item path) items)"
| "normalized_with_key_aliases v path = v"

section \<open>The merge\<close>

datatype ShellEnvironmentPolicyFilterRepresentation = Filters | Legacy

definition from_policy :: "toml \<Rightarrow> ShellEnvironmentPolicyFilterRepresentation option" where
  "from_policy policy =
     (case as_table policy of
        None \<Rightarrow> None
      | Some t \<Rightarrow>
          if map_of t ''filters'' \<noteq> None then Some Filters
          else if map_of t ''exclude'' \<noteq> None \<or> map_of t ''include_only'' \<noteq> None then Some Legacy
          else None)"

fun from_path :: "key_path \<Rightarrow> ShellEnvironmentPolicyFilterRepresentation option" where
  "from_path (policy # field # rest) =
     (if policy = ''shell_environment_policy''
      then if field = ''filters'' then Some Filters
           else if field = ''exclude'' \<or> field = ''include_only'' then Some Legacy
           else None
      else None)"
| "from_path _ = None"

definition from_edit :: "key_path \<Rightarrow> toml \<Rightarrow> ShellEnvironmentPolicyFilterRepresentation option" where
  "from_edit path v = (if path = [''shell_environment_policy''] then from_policy v else from_path path)"

fun displaced_fields :: "ShellEnvironmentPolicyFilterRepresentation \<Rightarrow> string list" where
  "displaced_fields Filters = [''exclude'', ''include_only'']"
| "displaced_fields Legacy = [''filters'']"

definition structured_features :: "string list" where
  "structured_features = [''code_mode'', ''multi_agent_v2'', ''network_proxy'', ''sleep_tool'']"

fun is_structured_feature_path :: "key_path \<Rightarrow> bool" where
  "is_structured_feature_path [profiles, name, features, feature] =
     (profiles = ''profiles'' \<and> features = ''features'' \<and> List.member structured_features feature)"
| "is_structured_feature_path [features, feature] =
     (features = ''features'' \<and> List.member structured_features feature)"
| "is_structured_feature_path _ = False"

definition is_shell_environment_filters_path :: "key_path \<Rightarrow> bool" where
  "is_shell_environment_filters_path path \<longleftrightarrow> path = [''shell_environment_policy'', ''filters'']"

fun is_network_domains_path :: "key_path \<Rightarrow> bool" where
  "is_network_domains_path [permissions, name, network, domains] =
     (permissions = ''permissions'' \<and> network = ''network'' \<and> domains = ''domains'')"
| "is_network_domains_path [application, network, domains] =
     (application = ''application'' \<and> network = ''network'' \<and> domains = ''domains'')"
| "is_network_domains_path _ = False"

definition replace_shell_environment_policy_filter_representation ::
  "toml \<Rightarrow> toml \<Rightarrow> key_path \<Rightarrow> toml" where
  "replace_shell_environment_policy_filter_representation base overlay path =
     (if path \<noteq> [''shell_environment_policy''] then base
      else case from_policy overlay of
             None \<Rightarrow> base
           | Some r \<Rightarrow>
               (case base of
                  TTable t \<Rightarrow> TTable (fold AList.delete (displaced_fields r) t)
                | _ \<Rightarrow> base))"

text \<open>The two key normalisations: \<open>mem::take\<close>, then one \<open>insert\<close> per entry under its new key.\<close>

definition rekey :: "(string \<Rightarrow> string) \<Rightarrow> toml_table \<Rightarrow> toml_table" where
  "rekey f entries = fold (\<lambda>(key, v) t. AList.update (f key) v t) entries []"

definition normalize_network_domain_keys :: "toml_table \<Rightarrow> toml_table" where
  "normalize_network_domain_keys entries = rekey normalize_host entries"

definition normalize_case_insensitive_keys :: "(string \<Rightarrow> string) \<Rightarrow> toml_table \<Rightarrow> toml_table" where
  "normalize_case_insensitive_keys lower entries = rekey lower entries"

text \<open>The normalisations that the merge applies to both tables before it combines them.\<close>

definition normalize_table :: "(string \<Rightarrow> string) \<Rightarrow> key_path \<Rightarrow> toml_table \<Rightarrow> toml_table" where
  "normalize_table lower path t =
     (let t1 = normalize_key_aliases path t;
          t2 = (if is_network_domains_path path then normalize_network_domain_keys t1 else t1)
      in if is_shell_environment_filters_path path then normalize_case_insensitive_keys lower t2 else t2)"

definition eq_ignore_ascii_case :: "string \<Rightarrow> string \<Rightarrow> bool" where
  "eq_ignore_ascii_case a b \<longleftrightarrow> map to_ascii_lower a = map to_ascii_lower b"

definition env_sources :: "toml \<Rightarrow> toml list option" where
  "env_sources provider = Option.bind (toml_get provider ''env'') as_array"

definition same_source :: "bool \<Rightarrow> string \<Rightarrow> string \<Rightarrow> bool" where
  "same_source win a b \<longleftrightarrow> a = b \<or> (win \<and> eq_ignore_ascii_case a b)"

definition sources_overlap :: "bool \<Rightarrow> toml list \<Rightarrow> toml list \<Rightarrow> bool" where
  "sources_overlap win existing overlay \<longleftrightarrow>
     list_ex (\<lambda>e. list_ex (\<lambda>v. same_source win e v) (List.map_filter toml_str overlay))
       (List.map_filter toml_str existing)"

definition is_credentials_path :: "key_path \<Rightarrow> bool" where
  "is_credentials_path path \<longleftrightarrow>
     path \<noteq> [] \<and> last path = ''credentials'' \<and> is_structured_feature_path (butlast path)"

definition retains_provider :: "bool \<Rightarrow> toml_table \<Rightarrow> string \<Rightarrow> toml list \<Rightarrow> string \<times> toml \<Rightarrow> bool" where
  "retains_provider win overlay_table provider_id overlay_sources entry =
     (case entry of (existing_id, existing) \<Rightarrow>
        existing_id = provider_id \<or>
        \<not> (case (case Option.bind (map_of overlay_table existing_id) (\<lambda>p. toml_get p ''env'') of
                   Some env \<Rightarrow> Some env
                 | None \<Rightarrow> toml_get existing ''env'') of
             None \<Rightarrow> False
           | Some env \<Rightarrow>
               (case as_array env of
                  None \<Rightarrow> False
                | Some existing_sources \<Rightarrow> sources_overlap win existing_sources overlay_sources)))"

definition drop_displaced_credentials :: "bool \<Rightarrow> key_path \<Rightarrow> toml_table \<Rightarrow> toml_table \<Rightarrow> toml_table" where
  "drop_displaced_credentials win path overlay_table base_table =
     (if is_credentials_path path
      then fold (\<lambda>(provider_id, provider) t.
             case env_sources provider of
               None \<Rightarrow> t
             | Some sources \<Rightarrow> filter (retains_provider win overlay_table provider_id sources) t)
             overlay_table base_table
      else base_table)"

text \<open>
  The boolean form of a structured feature. \<open>Inl\<close> is the early return of the code with the final
  base, \<open>Inr\<close> the base with which the merge goes on.
\<close>

definition merge_structured_feature :: "key_path \<Rightarrow> toml \<Rightarrow> toml \<Rightarrow> toml + toml" where
  "merge_structured_feature path base overlay =
     (if is_structured_feature_path path
      then case (base, overlay) of
             (TBoolean enabled, TTable _) \<Rightarrow> Inr (TTable [(''enabled'', TBoolean enabled)])
           | (TTable t, TBoolean enabled) \<Rightarrow> Inl (TTable (AList.update ''enabled'' (TBoolean enabled) t))
           | _ \<Rightarrow> Inr base
      else Inr base)"

lemma set_update_subset: "snd ` set (AList.update k v t) \<subseteq> insert v (snd ` set t)"
  by (induction t) auto

lemma or_insert_values: "snd ` set (or_insert k v t) \<subseteq> insert v (snd ` set t)"
  using set_update_subset[of k v t] by (auto simp: or_insert_def split: option.splits)

lemma delete_values: "snd ` set (AList.delete k t) \<subseteq> snd ` set t"
  by (auto simp: AList.delete_eq)

lemma normalize_alias_values: "snd ` set (normalize_alias path alias t) \<subseteq> snd ` set t"
proof (cases "map_of t (legacy_key alias)")
  case (Some v)
  then have "v \<in> snd ` set t" by (force dest: map_of_SomeD)
  with Some show ?thesis
    using or_insert_values[of "canonical_key alias" v "AList.delete (legacy_key alias) t"]
      delete_values[of "legacy_key alias" t]
    by (auto simp: normalize_alias_def)
qed (simp add: normalize_alias_def)

lemma fold_values:
  assumes "\<And>a t. a \<in> set xs \<Longrightarrow> snd ` set (f a t) \<subseteq> S \<union> snd ` set t"
  shows "snd ` set (fold f xs t) \<subseteq> S \<union> snd ` set t"
  using assms
proof (induction xs arbitrary: t)
  case (Cons a xs)
  have "snd ` set (fold f xs (f a t)) \<subseteq> S \<union> snd ` set (f a t)" using Cons by simp
  then show ?case using Cons.prems[of a t] by auto
qed simp

lemma normalize_key_aliases_values: "snd ` set (normalize_key_aliases path t) \<subseteq> snd ` set t"
  using fold_values[of CONFIG_KEY_ALIASES "normalize_alias path" "{}" t] normalize_alias_values
  by (simp add: normalize_key_aliases_def)

lemma rekey_values: "snd ` set (rekey f entries) \<subseteq> snd ` set entries"
proof -
  have "snd ` set (fold (\<lambda>(k, v) t. AList.update (f k) v t) entries t) \<subseteq> snd ` set entries \<union> snd ` set t" for t
  proof (induction entries arbitrary: t)
    case (Cons a entries)
    show ?case
      using Cons[of "AList.update (f (fst a)) (snd a) t"] set_update_subset[of "f (fst a)" "snd a" t]
      by (cases a) auto
  qed simp
  from this[of "[]"] show ?thesis by (simp add: rekey_def)
qed

lemma normalize_table_values: "snd ` set (normalize_table lower path t) \<subseteq> snd ` set t"
proof -
  define t1 where "t1 = normalize_key_aliases path t"
  define t2 where "t2 = (if is_network_domains_path path then normalize_network_domain_keys t1 else t1)"
  have "snd ` set t1 \<subseteq> snd ` set t" by (simp add: t1_def normalize_key_aliases_values)
  then have t2: "snd ` set t2 \<subseteq> snd ` set t"
    using subset_trans[OF rekey_values[of normalize_host t1]]
    by (simp add: t2_def normalize_network_domain_keys_def)
  have "normalize_table lower path t =
      (if is_shell_environment_filters_path path then normalize_case_insensitive_keys lower t2 else t2)"
    by (simp only: normalize_table_def Let_def t1_def t2_def)
  then show ?thesis
    using t2 subset_trans[OF rekey_values[of lower t2]] by (simp add: normalize_case_insensitive_keys_def)
qed

lemma normalize_table_smaller:
  assumes "(k, v) \<in> set (normalize_table lower path t)"
  shows "size v < size (TTable t)"
proof -
  from assms normalize_table_values[of lower path t] obtain k' where "(k', v) \<in> set t" by force
  then show ?thesis by (simp add: termination_simp)
qed

function merge_toml_values_at_path :: "bool \<Rightarrow> (string \<Rightarrow> string) \<Rightarrow> toml \<Rightarrow> toml \<Rightarrow> key_path \<Rightarrow> toml" where
  "merge_toml_values_at_path win lower base overlay path =
     (case merge_structured_feature path
             (replace_shell_environment_policy_filter_representation base overlay path) overlay of
        Inl done \<Rightarrow> done
      | Inr base' \<Rightarrow>
          (case (overlay, base') of
             (TTable overlay_table, TTable base_table) \<Rightarrow>
               let ot = normalize_table lower path overlay_table;
                   bt = drop_displaced_credentials win path ot (normalize_table lower path base_table)
               in TTable (fold (\<lambda>(key, v) t.
                    case map_of t key of
                      Some existing \<Rightarrow>
                        AList.update key (merge_toml_values_at_path win lower existing v (path @ [key])) t
                    | None \<Rightarrow> AList.update key (normalized_with_key_aliases v (path @ [key])) t) ot bt)
           | _ \<Rightarrow> normalized_with_key_aliases overlay path))"
  by pat_completeness auto
termination
  by (relation "measure (\<lambda>(win, lower, base, overlay, path). size overlay)")
     (auto dest: normalize_table_smaller)

declare merge_toml_values_at_path.simps [simp del]

definition merge_toml_values :: "bool \<Rightarrow> (string \<Rightarrow> string) \<Rightarrow> toml \<Rightarrow> toml \<Rightarrow> toml" where
  "merge_toml_values win lower base overlay = merge_toml_values_at_path win lower base overlay []"


section \<open>Command-line overrides\<close>

definition default_empty_table :: toml where
  "default_empty_table = TTable []"

text \<open>
  \<open>apply_toml_override\<close> walks a mutable cursor down the tree; here the rest of the walk builds the
  subtree under the cursor. \<open>traversed\<close> is \<open>traversed_segments\<close> before the segment at hand.
\<close>

definition set_last_segment ::
  "bool \<Rightarrow> (string \<Rightarrow> string) \<Rightarrow> toml \<Rightarrow> key_path \<Rightarrow> string \<Rightarrow> toml \<Rightarrow> toml" where
  "set_last_segment win lower current traversed segment v =
     (case current of
        TTable t \<Rightarrow>
          (case (if is_structured_feature_path (traversed @ [segment]) then map_of t segment else None) of
             Some (TTable feature) \<Rightarrow>
               (case v of
                  TBoolean enabled \<Rightarrow>
                    TTable (AList.update segment (TTable (AList.update ''enabled'' (TBoolean enabled) feature)) t)
                | TTable _ \<Rightarrow> TTable (AList.update segment (merge_toml_values win lower (TTable feature) v) t)
                | _ \<Rightarrow> TTable (AList.update segment v t))
           | Some (TBoolean enabled) \<Rightarrow>
               (case v of
                  TTable _ \<Rightarrow>
                    TTable (AList.update segment
                      (merge_toml_values win lower (TTable [(''enabled'', TBoolean enabled)]) v) t)
                | _ \<Rightarrow> TTable (AList.update segment v t))
           | _ \<Rightarrow> TTable (AList.update segment v t))
      | _ \<Rightarrow> TTable [(segment, v)])"

definition expand_boolean_feature :: "key_path \<Rightarrow> toml \<Rightarrow> toml" where
  "expand_boolean_feature path v =
     (case v of
        TBoolean enabled \<Rightarrow>
          if is_structured_feature_path path then TTable [(''enabled'', TBoolean enabled)] else v
      | _ \<Rightarrow> v)"

fun apply_segments ::
  "bool \<Rightarrow> (string \<Rightarrow> string) \<Rightarrow> toml \<Rightarrow> key_path \<Rightarrow> key_path \<Rightarrow> toml \<Rightarrow> toml" where
  "apply_segments win lower current traversed [] v = current"
| "apply_segments win lower current traversed [segment] v =
     set_last_segment win lower current traversed segment v"
| "apply_segments win lower current traversed (segment # rest) v =
     (case current of
        TTable t \<Rightarrow>
          let child = (case map_of t segment of Some c \<Rightarrow> c | None \<Rightarrow> TTable [])
          in TTable (AList.update segment
               (apply_segments win lower (expand_boolean_feature (traversed @ [segment]) child)
                  (traversed @ [segment]) rest v) t)
      | _ \<Rightarrow> TTable [(segment, apply_segments win lower (TTable []) (traversed @ [segment]) rest v)])"

definition apply_toml_override :: "bool \<Rightarrow> (string \<Rightarrow> string) \<Rightarrow> toml \<Rightarrow> string \<Rightarrow> toml \<Rightarrow> toml" where
  "apply_toml_override win lower root path v = apply_segments win lower root [] (split_on (CHR ''.'') path) v"

definition build_cli_overrides_layer :: "bool \<Rightarrow> (string \<Rightarrow> string) \<Rightarrow> (string \<times> toml) list \<Rightarrow> toml" where
  "build_cli_overrides_layer win lower cli_overrides =
     fold (\<lambda>(path, v) root. apply_toml_override win lower root path v) cli_overrides default_empty_table"

section \<open>Well-formed tables\<close>

lemma toml_ok_TTable [simp]: "toml_ok (TTable t) \<longleftrightarrow> table_ok t"
  by (auto simp: table_ok_def list_all_iff)

declare toml_ok.simps(1) [simp del]

lemma table_ok_Nil [simp]: "table_ok []"
  by (simp add: table_ok_def)

lemma table_ok_update [simp]: "table_ok t \<Longrightarrow> toml_ok v \<Longrightarrow> table_ok (AList.update k v t)"
proof -
  assume "table_ok t" "toml_ok v"
  then have "\<forall>x \<in> insert v (snd ` set t). toml_ok x" "distinct (map fst t)" by (simp_all add: table_ok_def)
  then show ?thesis
    unfolding table_ok_def by (metis distinct_update set_update_subset subsetD)
qed

lemma table_ok_delete [simp]: "table_ok t \<Longrightarrow> table_ok (AList.delete k t)"
  unfolding table_ok_def by (metis distinct_delete delete_values subsetD)

lemma table_ok_filter [simp]: "table_ok t \<Longrightarrow> table_ok (filter P t)"
  by (auto simp: table_ok_def distinct_map_filter)

lemma table_ok_lookup: "table_ok t \<Longrightarrow> map_of t k = Some v \<Longrightarrow> toml_ok v"
  by (force simp: table_ok_def dest: map_of_SomeD)

lemma table_ok_or_insert [simp]: "table_ok t \<Longrightarrow> toml_ok v \<Longrightarrow> table_ok (or_insert k v t)"
  by (simp add: or_insert_def split: option.splits)

lemma table_ok_normalize_alias [simp]: "table_ok t \<Longrightarrow> table_ok (normalize_alias path alias t)"
  by (auto simp: normalize_alias_def split: option.splits intro!: table_ok_or_insert intro: table_ok_lookup)

lemma table_ok_normalize_key_aliases [simp]: "table_ok t \<Longrightarrow> table_ok (normalize_key_aliases path t)"
  by (simp add: normalize_key_aliases_def CONFIG_KEY_ALIASES_def)

lemma table_ok_fold:
  assumes "\<And>a t. a \<in> set xs \<Longrightarrow> table_ok t \<Longrightarrow> table_ok (f a t)" "table_ok t"
  shows "table_ok (fold f xs t)"
  using assms by (induction xs arbitrary: t) auto

lemma table_ok_rekey [simp]: "table_ok entries \<Longrightarrow> table_ok (rekey f entries)"
  unfolding rekey_def by (rule table_ok_fold) (auto simp: table_ok_def[of entries])

lemma table_ok_normalize_table [simp]: "table_ok t \<Longrightarrow> table_ok (normalize_table lower path t)"
  by (simp add: normalize_table_def normalize_network_domain_keys_def normalize_case_insensitive_keys_def Let_def)

lemma table_ok_drop_displaced [simp]: "table_ok t \<Longrightarrow> table_ok (drop_displaced_credentials win path ot t)"
  by (auto simp: drop_displaced_credentials_def intro!: table_ok_fold split: option.splits prod.splits)

lemma toml_ok_replace [simp]:
  "toml_ok base \<Longrightarrow> toml_ok (replace_shell_environment_policy_filter_representation base overlay path)"
  by (auto simp: replace_shell_environment_policy_filter_representation_def intro!: table_ok_fold
      split: option.splits toml.splits)

lemma toml_ok_normalized: "toml_ok v \<Longrightarrow> toml_ok (normalized_with_key_aliases v path)"
proof (induction v path rule: normalized_with_key_aliases.induct)
  case (1 t path)
  then show ?case
    by (auto intro!: table_ok_normalize_key_aliases table_ok_fold table_ok_update
        simp: table_ok_def[of t] split: prod.splits)
qed (auto simp: list_all_iff)

lemma toml_ok_structured:
  "toml_ok base \<Longrightarrow> merge_structured_feature path base overlay = Inl r \<Longrightarrow> toml_ok r"
  "toml_ok base \<Longrightarrow> merge_structured_feature path base overlay = Inr b \<Longrightarrow> toml_ok b"
  by (auto simp: merge_structured_feature_def split: toml.splits if_splits) (simp add: table_ok_def)

text \<open>The cases of the merge: an early return, two tables, anything else.\<close>

definition merge_entry ::
  "bool \<Rightarrow> (string \<Rightarrow> string) \<Rightarrow> key_path \<Rightarrow> string \<times> toml \<Rightarrow> toml_table \<Rightarrow> toml_table" where
  "merge_entry win lower path entry t =
     (case entry of (key, v) \<Rightarrow>
        AList.update key
          (case map_of t key of
             Some existing \<Rightarrow> merge_toml_values_at_path win lower existing v (path @ [key])
           | None \<Rightarrow> normalized_with_key_aliases v (path @ [key])) t)"

definition merge_tables :: "bool \<Rightarrow> (string \<Rightarrow> string) \<Rightarrow> key_path \<Rightarrow> toml_table \<Rightarrow> toml_table \<Rightarrow> toml_table" where
  "merge_tables win lower path bt ot =
     (let ot' = normalize_table lower path ot
      in fold (merge_entry win lower path) ot'
           (drop_displaced_credentials win path ot' (normalize_table lower path bt)))"

lemma merge_at_path_eq:
  "merge_toml_values_at_path win lower base overlay path =
     (case merge_structured_feature path
             (replace_shell_environment_policy_filter_representation base overlay path) overlay of
        Inl r \<Rightarrow> r
      | Inr (TTable bt) \<Rightarrow>
          (case overlay of
             TTable ot \<Rightarrow> TTable (merge_tables win lower path bt ot)
           | _ \<Rightarrow> normalized_with_key_aliases overlay path)
      | Inr _ \<Rightarrow> normalized_with_key_aliases overlay path)"
proof -
  have "(\<lambda>(key, v) t. case map_of t key of
      Some existing \<Rightarrow> AList.update key (merge_toml_values_at_path win lower existing v (path @ [key])) t
    | None \<Rightarrow> AList.update key (normalized_with_key_aliases v (path @ [key])) t) = merge_entry win lower path"
    by (auto simp: merge_entry_def fun_eq_iff split: option.splits)
  then show ?thesis
    by (subst merge_toml_values_at_path.simps)
       (auto simp: merge_tables_def Let_def split: sum.splits toml.splits)
qed

lemma merge_at_path_cases [case_names returned tables other]:
  fixes base overlay path
  defines "step \<equiv> merge_structured_feature path
    (replace_shell_environment_policy_filter_representation base overlay path) overlay"
  obtains
      r where "step = Inl r" "\<And>win lower. merge_toml_values_at_path win lower base overlay path = r"
    | bt ot where "step = Inr (TTable bt)" "overlay = TTable ot"
        "\<And>win lower. merge_toml_values_at_path win lower base overlay path = TTable (merge_tables win lower path bt ot)"
    | b where "step = Inr b" "\<not> (is_table b \<and> is_table overlay)"
        "\<And>win lower. merge_toml_values_at_path win lower base overlay path = normalized_with_key_aliases overlay path"
proof (cases step)
  case (Inl r)
  then show ?thesis using that(1) by (simp add: step_def merge_at_path_eq)
next
  case (Inr b)
  show ?thesis
  proof (cases "is_table b \<and> is_table overlay")
    case True
    then obtain bt ot where "b = TTable bt" "overlay = TTable ot"
      by (auto simp: is_table_def split: toml.splits)
    with Inr show ?thesis using that(2) by (simp add: step_def merge_at_path_eq)
  next
    case False
    moreover from this have "merge_toml_values_at_path win lower base overlay path = normalized_with_key_aliases overlay path"
      for win lower
      using Inr by (auto simp: step_def merge_at_path_eq is_table_def split: toml.splits)
    ultimately show ?thesis using that(3) Inr by blast
  qed
qed

lemma merge_tables_entry_smaller:
  "a \<in> set (normalize_table lower path ot) \<Longrightarrow> size (snd a) < size (TTable ot)"
  using normalize_table_smaller[of "fst a" "snd a"] by simp

lemma toml_ok_merge:
  "toml_ok base \<Longrightarrow> toml_ok overlay \<Longrightarrow> toml_ok (merge_toml_values_at_path win lower base overlay path)"
proof (induction "size overlay" arbitrary: base overlay path rule: less_induct)
  case less
  show ?case
  proof (cases base overlay path rule: merge_at_path_cases)
    case (returned r)
    with less.prems show ?thesis by (auto dest: toml_ok_structured(1)[rotated])
  next
    case (tables bt ot)
    have bt: "table_ok bt"
      using toml_ok_structured(2)[OF _ tables(1)] less.prems(1) by simp
    have ot: "table_ok (normalize_table lower path ot)" using less.prems(2) tables(2) by simp
    have "table_ok (merge_entry win lower path a t)"
      if a: "a \<in> set (normalize_table lower path ot)" and t: "table_ok t" for a t
    proof -
      have v: "toml_ok (snd a)" using ot a by (auto simp: table_ok_def)
      show ?thesis
        using t v table_ok_lookup[OF t] toml_ok_normalized[OF v]
          less.hyps[OF merge_tables_entry_smaller[OF a, folded tables(2)] _ v]
        by (auto simp: merge_entry_def split: prod.splits option.splits)
    qed
    then have "table_ok (merge_tables win lower path bt ot)"
      unfolding merge_tables_def Let_def 
      by (rule table_ok_fold) (simp_all add: bt)
    with tables(3) show ?thesis by simp
  next
    case (other b)
    with less.prems show ?thesis by (simp add: toml_ok_normalized)
  qed
qed


section \<open>The merge as a lookup\<close>

text \<open>
  What a configuration says about a path: a setting, a table, nothing (\<open>Unset\<close>: the path leaves a
  table at a missing key), or that it cannot exist because a setting sits above it (\<open>Shadowed\<close>).
\<close>

datatype answer = Setting toml | Subtable | Unset | Shadowed

fun probe :: "toml \<Rightarrow> key_path \<Rightarrow> answer" where
  "probe v [] = (case v of TTable _ \<Rightarrow> Subtable | _ \<Rightarrow> Setting v)"
| "probe v (k # p) =
     (case v of
        TTable t \<Rightarrow> (case map_of t k of None \<Rightarrow> Unset | Some c \<Rightarrow> probe c p)
      | _ \<Rightarrow> Shadowed)"

definition setting :: "toml \<Rightarrow> key_path \<Rightarrow> toml option" where
  "setting v p = (case probe v p of Setting x \<Rightarrow> Some x | _ \<Rightarrow> None)"

text \<open>The setting that a higher configuration leaves of a lower one.\<close>

definition overlaid :: "answer \<Rightarrow> toml option \<Rightarrow> toml option" where
  "overlaid hi lo = (case hi of Setting x \<Rightarrow> Some x | Unset \<Rightarrow> lo | _ \<Rightarrow> None)"

text \<open>The root tables whose entries the merge treats specially.\<close>

definition special_roots :: "string list" where
  "special_roots = [''shell_environment_policy'', ''features'', ''profiles'', ''permissions'', ''application'']"

definition quiet :: "key_path \<Rightarrow> bool" where
  "quiet path \<longleftrightarrow> path \<noteq> [] \<and> hd path \<notin> set special_roots"

lemma setting_simps [simp]:
  "setting v [] = (if is_table v then None else Some v)"
  "setting (TTable t) (k # p) = (case map_of t k of None \<Rightarrow> None | Some c \<Rightarrow> setting c p)"
  by (auto simp: setting_def is_table_def split: toml.splits option.splits)

lemma structured_feature_pathD:
  "is_structured_feature_path path \<Longrightarrow>
     (\<exists>f. path = [''features'', f] \<and> f \<in> set structured_features) \<or>
     (\<exists>n f. path = [''profiles'', n, ''features'', f] \<and> f \<in> set structured_features)"
  by (induction path rule: is_structured_feature_path.induct) auto

lemma network_domains_pathD:
  "is_network_domains_path path \<Longrightarrow>
     (\<exists>n. path = [''permissions'', n, ''network'', ''domains'']) \<or> path = [''application'', ''network'', ''domains'']"
  by (induction path rule: is_network_domains_path.induct) auto

text \<open>A path below which (itself included) no rule of the merge but the aliases applies.\<close>

definition inert :: "key_path \<Rightarrow> bool" where
  "inert path \<longleftrightarrow> path \<noteq> [] \<and>
     (\<forall>q. \<not> is_structured_feature_path (path @ q) \<and> \<not> is_network_domains_path (path @ q) \<and>
          \<not> is_shell_environment_filters_path (path @ q) \<and> \<not> is_credentials_path (path @ q) \<and>
          path @ q \<noteq> [''shell_environment_policy''])"

lemma inert_paths:
  assumes "inert path"
  shows "\<not> is_structured_feature_path path" "\<not> is_network_domains_path path"
    "\<not> is_shell_environment_filters_path path" "\<not> is_credentials_path path"
    "path \<noteq> [''shell_environment_policy'']" "path \<noteq> []"
proof -
  have "path \<noteq> []" and *: "\<And>q. \<not> is_structured_feature_path (path @ q) \<and> \<not> is_network_domains_path (path @ q) \<and>
      \<not> is_shell_environment_filters_path (path @ q) \<and> \<not> is_credentials_path (path @ q) \<and>
      path @ q \<noteq> [''shell_environment_policy'']"
    using assms unfolding inert_def by blast+
  with *[of "[]"] show "\<not> is_structured_feature_path path" "\<not> is_network_domains_path path"
    "\<not> is_shell_environment_filters_path path" "\<not> is_credentials_path path"
    "path \<noteq> [''shell_environment_policy'']" "path \<noteq> []" by simp_all
qed

lemma inert_snoc [simp]: "inert path \<Longrightarrow> inert (path @ [k])"
  unfolding inert_def by simp

lemma credentials_pathD:
  assumes "is_credentials_path path"
  shows "(\<exists>f. path = [''features'', f, ''credentials''] \<and> f \<in> set structured_features) \<or>
    (\<exists>n f. path = [''profiles'', n, ''features'', f, ''credentials''] \<and> f \<in> set structured_features)"
proof -
  from assms have "path = butlast path @ [''credentials'']" "is_structured_feature_path (butlast path)"
    by (auto simp: is_credentials_path_def) (metis append_butlast_last_id)
  then show ?thesis by (auto dest!: structured_feature_pathD)
qed

lemmas special_pathD = structured_feature_pathD network_domains_pathD credentials_pathD

lemma quiet_inert: "quiet path \<Longrightarrow> inert path"
  by (cases path)
     (auto simp: inert_def quiet_def special_roots_def is_shell_environment_filters_path_def dest!: special_pathD)

lemma normalize_table_plain:
  "\<not> is_network_domains_path path \<Longrightarrow> \<not> is_shell_environment_filters_path path \<Longrightarrow>
     normalize_table lower path t = normalize_key_aliases path t"
  by (simp add: normalize_table_def Let_def)

lemma merge_structured_plain:
  "\<not> is_structured_feature_path path \<Longrightarrow> merge_structured_feature path base overlay = Inr base"
  by (simp add: merge_structured_feature_def)

lemma replace_plain:
  "path \<noteq> [''shell_environment_policy''] \<Longrightarrow>
     replace_shell_environment_policy_filter_representation base overlay path = base"
  by (simp add: replace_shell_environment_policy_filter_representation_def)

lemma drop_displaced_plain:
  "\<not> is_credentials_path path \<Longrightarrow> drop_displaced_credentials win path ot bt = bt"
  by (simp add: drop_displaced_credentials_def)

lemma aliases_other:
  "path \<noteq> [''memories''] \<Longrightarrow> path \<noteq> [''agents''] \<Longrightarrow> normalize_key_aliases path t = t"
  by (simp add: normalize_key_aliases_def CONFIG_KEY_ALIASES_def normalize_alias_def)

text \<open>The loop over the overlay sets each of its keys once and leaves the others.\<close>

lemma merge_entries_lookup:
  assumes "distinct (map fst ot)"
  shows "map_of (fold (merge_entry win lower path) ot bt) k =
    (case map_of ot k of
       None \<Rightarrow> map_of bt k
     | Some v \<Rightarrow> Some (case map_of bt k of
         Some e \<Rightarrow> merge_toml_values_at_path win lower e v (path @ [k])
       | None \<Rightarrow> normalized_with_key_aliases v (path @ [k])))"
  using assms
proof (induction ot arbitrary: bt)
  case (Cons a ot)
  obtain k0 v0 where a: "a = (k0, v0)" by (cases a)
  have "map_of ot k0 = None" using Cons.prems a by (simp add: map_of_eq_None_iff)
  with Cons show ?case
    by (auto simp: a merge_entry_def update_conv' split: option.splits)
qed simp

text \<open>Normalisation of the aliases, below the two tables that have them, is the identity.\<close>

lemma update_fresh: "k \<notin> fst ` set t \<Longrightarrow> AList.update k v t = t @ [(k, v)]"
  by (induction t) auto

lemma fold_update_fresh:
  assumes "distinct (map fst acc @ map fst t)"
  shows "fold (\<lambda>(k, c) n. AList.update k (f k c) n) t acc = acc @ map (\<lambda>(k, c). (k, f k c)) t"
  using assms
proof (induction t arbitrary: acc)
  case (Cons a t)
  obtain k c where a: "a = (k, c)" by (cases a)
  from Cons.prems have "k \<notin> fst ` set acc" by (auto simp: a)
  then have "AList.update k (f k c) acc = acc @ [(k, f k c)]" by (rule update_fresh)
  with Cons show ?case by (simp add: a)
qed simp

lemma normalized_table:
  assumes "table_ok t"
  shows "normalized_with_key_aliases (TTable t) path =
    TTable (normalize_key_aliases path (map (\<lambda>(k, c). (k, normalized_with_key_aliases c (path @ [k]))) t))"
  using fold_update_fresh[of "[]" t "\<lambda>k c. normalized_with_key_aliases c (path @ [k])"] assms
  by (simp add: table_ok_def)

declare normalized_with_key_aliases.simps(1) [simp del]

lemma normalized_other_path:
  assumes "toml_ok v" "\<forall>p. path @ p \<noteq> [''memories''] \<and> path @ p \<noteq> [''agents'']"
  shows "normalized_with_key_aliases v path = v"
  using assms
proof (induction v path rule: normalized_with_key_aliases.induct)
  case (1 t path)
  have ok: "table_ok t" using "1.prems"(1) by simp
  have "normalized_with_key_aliases c (path @ [k]) = c" if "(k, c) \<in> set t" for k c
    using that ok "1.prems"(2) by (intro "1.IH"[OF that refl]) (force simp: table_ok_def)+
  then have "map (\<lambda>(k, c). (k, normalized_with_key_aliases c (path @ [k]))) t = t"
    by (intro map_idI) auto
  moreover have "path \<noteq> [''memories'']" "path \<noteq> [''agents'']"
    using "1.prems"(2)[THEN spec, of "[]"] by auto
  ultimately show ?case by (simp add: normalized_table[OF ok] aliases_other)
next
  case (2 items path)
  then show ?case by (simp add: list_all_iff map_idI)
qed simp_all

lemma normalized_deep: "toml_ok v \<Longrightarrow> path \<noteq> [] \<Longrightarrow> normalized_with_key_aliases v (path @ [k]) = v"
  by (rule normalized_other_path) (auto simp: append_eq_Cons_conv)

lemma normalized_child:
  assumes "table_ok t" "path \<noteq> []"
  shows "normalized_with_key_aliases (TTable t) path = TTable (normalize_key_aliases path t)"
proof -
  have "map (\<lambda>(k, c). (k, normalized_with_key_aliases c (path @ [k]))) t = t"
    using assms by (intro map_idI) (force simp: table_ok_def intro: normalized_deep)
  with assms show ?thesis by (simp add: normalized_table)
qed

lemma normalized_not_table: "is_table (normalized_with_key_aliases v path) = is_table v"
  by (cases v) (simp_all add: is_table_def normalized_with_key_aliases.simps(1))

text \<open>The step of the merge on two tables at an inert path.\<close>

lemma merge_tables_inert:
  assumes "inert path"
  shows "merge_toml_values_at_path win lower (TTable bt) (TTable ot) path =
    TTable (fold (merge_entry win lower path) (normalize_key_aliases path ot) (normalize_key_aliases path bt))"
  using inert_paths[OF assms]
  by (simp add: merge_at_path_eq replace_plain merge_structured_plain merge_tables_def normalize_table_plain
      drop_displaced_plain)

lemma merge_inert_other:
  assumes "inert path" "\<not> is_table base \<or> \<not> is_table overlay"
  shows "merge_toml_values_at_path win lower base overlay path = normalized_with_key_aliases overlay path"
  using inert_paths[OF assms(1)] assms(2)
  by (auto simp: merge_at_path_eq replace_plain merge_structured_plain is_table_def split: toml.splits)

lemma setting_not_table: "\<not> is_table v \<Longrightarrow> setting v (k # p) = None"
  by (auto simp: setting_def is_table_def split: toml.splits)

lemma probe_table [simp]:
  "probe (TTable t) (k # p) = (case map_of t k of None \<Rightarrow> Unset | Some c \<Rightarrow> probe c p)"
  by simp

lemma overlaid_above: "\<not> is_table lo \<Longrightarrow> p \<noteq> [] \<or> is_table hi \<Longrightarrow> overlaid (probe hi p) (setting lo p) = setting hi p"
  by (cases p) (auto simp: overlaid_def setting_def is_table_def split: toml.splits answer.splits option.splits)

lemma overlaid_setting: "\<not> is_table hi \<Longrightarrow> overlaid (probe hi p) lo = setting hi p"
  by (cases p) (auto simp: overlaid_def setting_def is_table_def split: toml.splits)

text \<open>At an inert path the merge is the overlay of the lookups.\<close>

lemma merge_inert_setting:
  assumes "inert path" "toml_ok base" "toml_ok overlay" "normalized_with_key_aliases base path = base"
  shows "setting (merge_toml_values_at_path win lower base overlay path) p =
    overlaid (probe (normalized_with_key_aliases overlay path) p) (setting base p)"
  using assms
proof (induction p arbitrary: path base overlay)
  case Nil
  show ?case
  proof (cases "is_table base \<and> is_table overlay")
    case True
    then obtain bt ot where "base = TTable bt" "overlay = TTable ot" by (auto simp: is_table_def split: toml.splits)
    with Nil.prems show ?thesis
      by (simp add: merge_tables_inert normalized_child inert_paths is_table_def overlaid_def)
  next
    case False
    then have "merge_toml_values_at_path win lower base overlay path = normalized_with_key_aliases overlay path"
      using Nil.prems(1) merge_inert_other by blast
    moreover have "overlaid (probe (normalized_with_key_aliases overlay path) []) lo =
      setting (normalized_with_key_aliases overlay path) []" for lo
      by (auto simp: overlaid_def setting_def split: toml.splits)
    ultimately show ?thesis by simp
  qed
next
  case (Cons k p)
  show ?case
  proof (cases "is_table base \<and> is_table overlay")
    case True
    then obtain bt ot where b: "base = TTable bt" and o: "overlay = TTable ot" by (auto simp: is_table_def split: toml.splits)
    have path: "path \<noteq> []" using Cons.prems(1) by (rule inert_paths)
    have bt: "table_ok bt" "normalize_key_aliases path bt = bt"
      using Cons.prems b path by (auto simp: normalized_child)
    define ot' where "ot' = normalize_key_aliases path ot"
    have ot': "table_ok ot'" using Cons.prems(3) o by (simp add: ot'_def)
    then have dist: "distinct (map fst ot')" by (simp add: table_ok_def)
    have merged: "merge_toml_values_at_path win lower base overlay path = TTable (fold (merge_entry win lower path) ot' bt)"
      using merge_tables_inert[OF Cons.prems(1)] bt by (simp add: b o ot'_def)
    have N: "normalized_with_key_aliases overlay path = TTable ot'"
      using Cons.prems(3) o path by (simp add: normalized_child ot'_def)
    have deep: "normalized_with_key_aliases v (path @ [k]) = v" if "map_of ot' k = Some v \<or> map_of bt k = Some v" for v
      using that ot' bt path table_ok_lookup by (intro normalized_deep) auto
    show ?thesis
    proof (cases "map_of ot' k")
      case None
      then show ?thesis
        unfolding merged N by (simp add: b merge_entries_lookup[OF dist] overlaid_def)
    next
      case (Some v)
      then have v: "toml_ok v" using ot' table_ok_lookup by blast
      show ?thesis
      proof (cases "map_of bt k")
        case None
        have "overlaid (probe v p) None = setting v p" by (simp add: overlaid_def setting_def split: answer.splits)
        then show ?thesis
          using Some None deep[of v] unfolding merged N by (simp add: b merge_entries_lookup[OF dist])
      next
        case e: (Some e)
        then have "toml_ok e" using bt table_ok_lookup by blast
        with Cons.IH[of "path @ [k]" e v] Cons.prems(1) v deep e Some show ?thesis
          unfolding merged N by (simp add: b merge_entries_lookup[OF dist])
      qed
    qed
  next
    case False
    then have m: "merge_toml_values_at_path win lower base overlay path = normalized_with_key_aliases overlay path"
      using Cons.prems(1) merge_inert_other by blast
    show ?thesis
    proof (cases "is_table overlay")
      case True
      with False have "setting base (k # p) = None" by (simp add: setting_not_table)
      then show ?thesis by (simp only: m) (simp add: overlaid_def setting_def split: answer.splits)
    next
      case False
      then show ?thesis
        using overlaid_setting[of "normalized_with_key_aliases overlay path" "k # p" "setting base (k # p)"]
        by (simp only: m normalized_not_table not_False_eq_True)
    qed
  qed
qed

text \<open>The merged configuration has no legacy keys left, so layers can be merged one after another.\<close>

definition alias_free :: "key_path \<Rightarrow> toml_table \<Rightarrow> bool" where
  "alias_free path t \<longleftrightarrow> list_all (\<lambda>a. table_path a = path \<longrightarrow> map_of t (legacy_key a) = None) CONFIG_KEY_ALIASES"

lemma or_insert_lookup:
  "map_of (or_insert k v t) k' = (if k' = k then (case map_of t k of Some x \<Rightarrow> Some x | None \<Rightarrow> Some v) else map_of t k')"
  by (auto simp: or_insert_def update_conv' split: option.splits)

lemma normalize_alias_lookup:
  "map_of (normalize_alias path a t) k =
    (if path = table_path a \<and> map_of t (legacy_key a) \<noteq> None
     then if k = canonical_key a
          then (case (if k = legacy_key a then None else map_of t k) of Some x \<Rightarrow> Some x | None \<Rightarrow> map_of t (legacy_key a))
          else if k = legacy_key a then None else map_of t k
     else map_of t k)"
  by (auto simp: normalize_alias_def or_insert_lookup delete_conv' split: option.splits)

lemma alias_free_normalize: "alias_free path (normalize_key_aliases path t)"
  by (auto simp: alias_free_def normalize_key_aliases_def CONFIG_KEY_ALIASES_def normalize_alias_lookup)

lemma normalize_alias_free: "alias_free path t \<Longrightarrow> normalize_key_aliases path t = t"
  by (auto simp: alias_free_def normalize_key_aliases_def CONFIG_KEY_ALIASES_def normalize_alias_def)

lemma normalized_fixed_table:
  "table_ok t \<Longrightarrow> path \<noteq> [] \<Longrightarrow> alias_free path t \<Longrightarrow>
     normalized_with_key_aliases (TTable t) path = TTable t"
  by (simp add: normalized_child normalize_alias_free)

lemma normalized_idem_below:
  "toml_ok v \<Longrightarrow> path \<noteq> [] \<Longrightarrow>
     normalized_with_key_aliases (normalized_with_key_aliases v path) path = normalized_with_key_aliases v path"
proof (induction v path rule: normalized_with_key_aliases.induct)
  case (1 t path)
  then show ?case by (simp add: normalized_child normalize_alias_free alias_free_normalize)
qed (simp_all add: list_all_iff)

lemma merge_entries_absent:
  "map_of bt k = None \<Longrightarrow> map_of ot k = None \<Longrightarrow> distinct (map fst ot) \<Longrightarrow>
     map_of (fold (merge_entry win lower path) ot bt) k = None"
  by (simp add: merge_entries_lookup)

lemma merge_inert_normalized:
  assumes "inert path" "toml_ok base" "toml_ok overlay" "normalized_with_key_aliases base path = base"
  shows "normalized_with_key_aliases (merge_toml_values_at_path win lower base overlay path) path =
    merge_toml_values_at_path win lower base overlay path"
proof (cases "is_table base \<and> is_table overlay")
  case True
  then obtain bt ot where bo: "base = TTable bt" "overlay = TTable ot" by (auto simp: is_table_def split: toml.splits)
  let ?m = "fold (merge_entry win lower path) (normalize_key_aliases path ot) (normalize_key_aliases path bt)"
  have path: "path \<noteq> []" using assms(1) by (rule inert_paths)
  have m: "merge_toml_values_at_path win lower base overlay path = TTable ?m"
    using merge_tables_inert[OF assms(1)] by (simp add: bo)
  have ok: "table_ok ?m" using toml_ok_merge[OF assms(2,3), of win lower path] m by simp
  have "table_ok (normalize_key_aliases path ot)" using assms(3) bo by simp
  then have "distinct (map fst (normalize_key_aliases path ot))" by (simp add: table_ok_def)
  then have "alias_free path ?m"
    using alias_free_normalize[of path ot] alias_free_normalize[of path bt]
    unfolding alias_free_def by (auto simp: list_all_iff intro: merge_entries_absent)
  with ok path show ?thesis by (simp add: m normalized_fixed_table)
next
  case False
  then have "merge_toml_values_at_path win lower base overlay path = normalized_with_key_aliases overlay path"
    using assms(1) merge_inert_other by blast
  with assms(1,3) show ?thesis by (simp add: normalized_idem_below inert_paths)
qed

text \<open>The root of a configuration.\<close>

definition root_ok :: "toml \<Rightarrow> bool" where
  "root_ok v \<longleftrightarrow> is_table v \<and> toml_ok v"

definition aliases_resolved :: "toml \<Rightarrow> bool" where
  "aliases_resolved v \<longleftrightarrow> normalized_with_key_aliases v [] = v"

lemma root_okE:
  assumes "root_ok v"
  obtains t where "v = TTable t" "table_ok t"
  using assms by (auto simp: root_ok_def is_table_def split: toml.splits)

lemma merge_root:
  "merge_toml_values win lower (TTable bt) (TTable ot) = TTable (fold (merge_entry win lower []) ot bt)"
  by (simp add: merge_toml_values_def merge_at_path_eq merge_tables_def replace_plain merge_structured_plain
      drop_displaced_plain is_credentials_path_def normalize_table_plain is_shell_environment_filters_path_def aliases_other)

lemma normalized_root:
  assumes "table_ok t"
  shows "normalized_with_key_aliases (TTable t) [] = TTable (map (\<lambda>(k, c). (k, normalized_with_key_aliases c [k])) t)"
  using normalized_table[OF assms, of "[]"] by (simp add: aliases_other)

lemma normalized_root_lookup:
  "map_of (map (\<lambda>(k, c). (k, f k c)) t) k = map_option (f k) (map_of t k)"
  by (induction t) auto

lemma map_fixed_iff: "map f xs = xs \<longleftrightarrow> (\<forall>x \<in> set xs. f x = x)"
  by (induction xs) auto

lemma aliases_resolved_iff:
  assumes "table_ok t"
  shows "aliases_resolved (TTable t) \<longleftrightarrow>
    (\<forall>k c. map_of t k = Some c \<longrightarrow> normalized_with_key_aliases c [k] = c)"
proof -
  have "map_of t k = Some c \<longleftrightarrow> (k, c) \<in> set t" for k c
    using assms by (simp add: table_ok_def)
  then show ?thesis
    by (auto simp: aliases_resolved_def normalized_root[OF assms] map_fixed_iff)
qed

lemma root_ok_merge: "root_ok base \<Longrightarrow> root_ok overlay \<Longrightarrow> root_ok (merge_toml_values win lower base overlay)"
  using toml_ok_merge[of base overlay win lower "[]"]
  by (auto simp: merge_root is_table_def simp flip: merge_toml_values_def elim!: root_okE) (auto simp: root_ok_def is_table_def merge_root)

lemma special_root_fixed: "toml_ok c \<Longrightarrow> k \<in> set special_roots \<Longrightarrow> normalized_with_key_aliases c [k] = c"
  by (rule normalized_other_path) (auto simp: special_roots_def)

lemma merge_root_lookup:
  assumes "table_ok ot"
  shows "map_of (fold (merge_entry win lower []) ot bt) k =
    (case map_of ot k of
       None \<Rightarrow> map_of bt k
     | Some v \<Rightarrow> Some (case map_of bt k of
         Some e \<Rightarrow> merge_toml_values_at_path win lower e v [k]
       | None \<Rightarrow> normalized_with_key_aliases v [k]))"
  using assms merge_entries_lookup[of ot win lower "[]" bt k, unfolded append_Nil] by (simp add: table_ok_def)

lemma aliases_resolved_merge:
  assumes "root_ok base" "root_ok overlay" "aliases_resolved base"
  shows "aliases_resolved (merge_toml_values win lower base overlay)"
proof -
  obtain bt ot where bo: "base = TTable bt" "overlay = TTable ot" "table_ok bt" "table_ok ot"
    using assms(1,2) by (auto elim!: root_okE)
  let ?m = "fold (merge_entry win lower []) ot bt"
  have ok: "table_ok ?m"
    using root_ok_merge[OF assms(1,2), of win lower] by (simp add: bo merge_root root_ok_def)
  have "normalized_with_key_aliases c [k] = c" if c: "map_of ?m k = Some c" for k c
  proof (cases "quiet [k]")
    case False
    with ok c show ?thesis by (intro special_root_fixed table_ok_lookup[OF ok]) (auto simp: quiet_def)
  next
    case True
    have base: "map_of bt k = Some e \<Longrightarrow> toml_ok e \<and> normalized_with_key_aliases e [k] = e" for e
      using assms(3) bo table_ok_lookup[OF bo(3)] by (simp add: aliases_resolved_iff)
    show ?thesis
      using c base bo(4) True table_ok_lookup[OF bo(4)]
      by (auto simp: merge_root_lookup normalized_idem_below merge_inert_normalized quiet_inert split: option.splits)
  qed
  then show ?thesis using ok by (simp add: bo merge_root aliases_resolved_iff)
qed

lemma merge_setting:
  assumes "quiet p" "root_ok base" "root_ok overlay" "aliases_resolved base"
  shows "setting (merge_toml_values win lower base overlay) p =
    overlaid (probe (normalized_with_key_aliases overlay []) p) (setting base p)"
proof -
  obtain bt ot where bo: "base = TTable bt" "overlay = TTable ot" "table_ok bt" "table_ok ot"
    using assms(2,3) by (auto elim!: root_okE)
  obtain k q where p: "p = k # q" using assms(1) by (cases p) (auto simp: quiet_def)
  have quiet: "quiet [k]" using assms(1) by (simp add: quiet_def p)
  have base: "map_of bt k = Some e \<Longrightarrow> toml_ok e \<and> normalized_with_key_aliases e [k] = e" for e
    using assms(4) bo table_ok_lookup[OF bo(3)] by (simp add: aliases_resolved_iff)
  have new: "overlaid (probe v q) None = setting v q" for v
    by (simp add: overlaid_def setting_def split: answer.splits)
  show ?thesis
    using base quiet table_ok_lookup[OF bo(4), of k]
    by (cases "map_of ot k"; cases "map_of bt k")
       (auto simp: p bo merge_root merge_root_lookup normalized_root normalized_root_lookup overlaid_def[of Unset]
         merge_inert_setting quiet_inert new)
qed

end
