(* ===== verification/Config_Rules.thy ===== *)
theory Config_Rules
  imports Config_Merge
begin

text \<open>
  The tables that the merge of configuration layers treats specially: the two representations of
  the shell-environment filters, structured features with a boolean form, the credential providers
  of a feature, the network domains. Also the lookup law of the command-line overrides.
\<close>

section \<open>The filters of the shell environment policy\<close>

abbreviation SEP :: string where
  "SEP \<equiv> ''shell_environment_policy''"

text \<open>
  A policy table uses one representation: \<open>filters\<close>, or the legacy \<open>exclude\<close> and \<open>include_only\<close>;
  and no two keys of \<open>filters\<close> are equal ignoring case.
\<close>

definition one_representation :: "toml_table \<Rightarrow> bool" where
  "one_representation t \<longleftrightarrow> \<not> (map_of t ''filters'' \<noteq> None \<and> (map_of t ''exclude'' \<noteq> None \<or> map_of t ''include_only'' \<noteq> None))"

definition filters_unique :: "(string \<Rightarrow> string) \<Rightarrow> toml_table \<Rightarrow> bool" where
  "filters_unique lower t =
     (case map_of t ''filters'' of
        Some (TTable f) \<Rightarrow> distinct (map (lower \<circ> fst) f)
      | _ \<Rightarrow> True)"

definition policy_sound :: "(string \<Rightarrow> string) \<Rightarrow> toml \<Rightarrow> bool" where
  "policy_sound lower v =
     (case v of TTable t \<Rightarrow> one_representation t \<and> filters_unique lower t | _ \<Rightarrow> True)"

definition config_policy_sound :: "(string \<Rightarrow> string) \<Rightarrow> toml \<Rightarrow> bool" where
  "config_policy_sound lower v = (case toml_get v SEP of Some p \<Rightarrow> policy_sound lower p | None \<Rightarrow> True)"

text \<open>\<open>shell_environment_filter_entry\<close>: the filter of a pattern, ignoring case.\<close>

fun shell_environment_filter_entry :: "(string \<Rightarrow> string) \<Rightarrow> toml \<Rightarrow> key_path \<Rightarrow> (string \<times> toml) option" where
  "shell_environment_filter_entry lower root [policy, filters, pattern] =
     (if policy \<noteq> ''shell_environment_policy'' \<or> filters \<noteq> ''filters'' then None
      else Option.bind (toml_get root policy) (\<lambda>p.
           Option.bind (toml_get p filters) (\<lambda>f.
           Option.bind (as_table f) (\<lambda>t. find (\<lambda>(candidate, _). lower candidate = lower pattern) t))))"
| "shell_environment_filter_entry lower root path = None"

lemma find_unique:
  assumes "distinct (map f xs)" "x \<in> set xs" "f x = y"
  shows "find (\<lambda>x. f x = y) xs = Some x"
  using assms by (induction xs) (auto simp: image_iff)

text \<open>In a consistent configuration the entry found is the only one of its pattern.\<close>

lemma filter_entry_unique:
  assumes "config_policy_sound lower (TTable root)" "map_of root SEP = Some (TTable p)" "map_of p ''filters'' = Some (TTable f)"
    "(candidate, v) \<in> set f" "lower candidate = lower pattern"
  shows "shell_environment_filter_entry lower (TTable root) [SEP, ''filters'', pattern] = Some (candidate, v)"
proof -
  have "distinct (map (lower \<circ> fst) f)"
    using assms(1-3) by (simp add: config_policy_sound_def toml_get_def policy_sound_def filters_unique_def)
  then have "find (\<lambda>x. (lower \<circ> fst) x = lower pattern) f = Some (candidate, v)"
    by (rule find_unique) (simp_all add: assms(4,5))
  then show ?thesis using assms(2,3) by (simp add: toml_get_def as_table_def case_prod_unfold comp_def)
qed

lemma rekey_lookup: "map_of (rekey f t) k = map_of (rev (map (apfst f) t)) k"
proof -
  have "map_of (fold (\<lambda>(key, v) t. AList.update (f key) v t) t acc) k =
      (map_of acc ++ map_of (rev (map (apfst f) t))) k" for acc
    by (induction t arbitrary: acc) (auto simp: update_conv' map_add_def split: option.splits)
  from this[of "[]"] show ?thesis by (simp add: rekey_def)
qed

lemma rekey_keys: "fst ` set (rekey f t) \<subseteq> range f"
proof -
  have "map_of (rekey f t) k \<noteq> None \<Longrightarrow> k \<in> range f" for k
    by (auto simp: rekey_lookup dest!: map_of_SomeD)
  then show ?thesis by (metis domI domIff dom_map_of_conv_image_fst subsetI)
qed

lemma merge_entries_keys:
  "fst ` set (fold (merge_entry win lower path) ot bt) \<subseteq> fst ` set ot \<union> fst ` set bt"
proof (induction ot arbitrary: bt)
  case (Cons a ot)
  have "fst ` set (merge_entry win lower path a bt) \<subseteq> insert (fst a) (fst ` set bt)"
    by (cases a) (simp add: merge_entry_def update_conv' subset_insertI flip: dom_map_of_conv_image_fst)
  then have "fst ` set (fold (merge_entry win lower path) ot (merge_entry win lower path a bt)) \<subseteq>
      fst ` set ot \<union> insert (fst a) (fst ` set bt)"
    using Cons[of "merge_entry win lower path a bt"] by blast
  then show ?case by simp
qed simp

lemma merge_filters_unique:
  assumes idem: "\<And>s. lower (lower s) = lower s"
    and "toml_ok e" "toml_ok v" and v: "\<And>f. v = TTable f \<Longrightarrow> distinct (map (lower \<circ> fst) f)"
    and m: "merge_toml_values_at_path win lower e v [SEP, ''filters''] = TTable r"
  shows "distinct (map (lower \<circ> fst) r)"
proof (cases "is_table e \<and> is_table v")
  case True
  then obtain bt ot where eo: "e = TTable bt" "v = TTable ot" by (auto simp: is_table_def split: toml.splits)
  let ?p = "[SEP, ''filters'']"
  have nt: "normalize_table lower ?p t = rekey lower t" for t
    by (simp add: normalize_table_def Let_def is_shell_environment_filters_path_def
        normalize_case_insensitive_keys_def aliases_other)
  have r: "r = fold (merge_entry win lower ?p) (rekey lower ot) (rekey lower bt)"
    using m by (simp add: eo merge_at_path_eq replace_plain merge_structured_plain merge_tables_def nt
        drop_displaced_plain is_credentials_path_def)
  have "fst ` set r \<subseteq> range lower"
    using merge_entries_keys[of win lower ?p "rekey lower ot" "rekey lower bt"] rekey_keys[of lower] unfolding r by blast
  then have "lower k = k" if "k \<in> fst ` set r" for k using that idem by auto
  moreover have "distinct (map fst r)"
    using toml_ok_merge[OF assms(2,3), of win lower ?p] m by (simp add: table_ok_def)
  ultimately show ?thesis by (simp add: distinct_map inj_on_def comp_def)
next
  case False
  then have "merge_toml_values_at_path win lower e v [SEP, ''filters''] = normalized_with_key_aliases v [SEP, ''filters'']"
    by (auto simp: merge_at_path_eq replace_plain merge_structured_plain is_table_def split: toml.splits)
  also have "\<dots> = v" using normalized_deep[OF assms(3), of "[SEP]"] by simp
  finally show ?thesis using m v by simp
qed

lemma fold_delete_lookup: "map_of (fold AList.delete ks t) k = (if k \<in> set ks then None else map_of t k)"
  by (induction ks arbitrary: t) (auto simp: delete_conv')

text \<open>The policy tables merge on the base without the fields that the overlay displaces.\<close>

definition displaced_base :: "toml_table \<Rightarrow> toml_table \<Rightarrow> toml_table" where
  "displaced_base bt ot =
     (case from_policy (TTable ot) of None \<Rightarrow> bt | Some r \<Rightarrow> fold AList.delete (displaced_fields r) bt)"

lemma merge_policy:
  "merge_toml_values_at_path win lower (TTable bt) (TTable ot) [SEP] =
     TTable (fold (merge_entry win lower [SEP]) ot (displaced_base bt ot))"
  by (simp add: merge_at_path_eq merge_structured_plain merge_tables_def drop_displaced_plain is_credentials_path_def
      normalize_table_plain is_shell_environment_filters_path_def aliases_other displaced_base_def
      replace_shell_environment_policy_filter_representation_def split: option.splits)

lemma merge_policy_other:
  assumes "toml_ok v" "\<not> (is_table e \<and> is_table v)"
  shows "merge_toml_values_at_path win lower e v [SEP] = v"
proof -
  have "merge_toml_values_at_path win lower e v [SEP] = normalized_with_key_aliases v [SEP]"
    using assms(2)
    by (auto simp: merge_at_path_eq merge_structured_plain is_table_def
        replace_shell_environment_policy_filter_representation_def split: toml.splits option.splits)
  with assms(1) show ?thesis by (simp add: special_root_fixed special_roots_def)
qed

lemma displaced_base_lookup:
  "map_of (displaced_base bt ot) k =
    (if map_of ot ''filters'' \<noteq> None \<and> k \<in> {''exclude'', ''include_only''} \<or>
        map_of ot ''filters'' = None \<and> (map_of ot ''exclude'' \<noteq> None \<or> map_of ot ''include_only'' \<noteq> None) \<and> k = ''filters''
     then None else map_of bt k)"
  by (auto simp: displaced_base_def from_policy_def as_table_def fold_delete_lookup delete_conv')

lemma merge_policy_sound:
  assumes idem: "\<And>s. lower (lower s) = lower s"
    and ok: "toml_ok e" "toml_ok v" and sound: "policy_sound lower e" "policy_sound lower v"
  shows "policy_sound lower (merge_toml_values_at_path win lower e v [SEP])"
proof (cases "is_table e \<and> is_table v")
  case True
  then obtain bt ot where eo: "e = TTable bt" "v = TTable ot" by (auto simp: is_table_def split: toml.splits)
  let ?d = "displaced_base bt ot"
  let ?m = "fold (merge_entry win lower [SEP]) ot ?d"
  have dist: "distinct (map fst ot)" using ok eo by (simp add: table_ok_def)
  note lookup = merge_entries_lookup[OF dist, of win lower "[SEP]" ?d]
  have ot: "one_representation ot" "filters_unique lower ot" and bt: "one_representation bt" "filters_unique lower bt"
    using sound eo by (auto simp: policy_sound_def)
  have "one_representation ?m"
    using ot(1) bt(1) unfolding one_representation_def lookup displaced_base_lookup by (auto split: option.splits)
  moreover have "filters_unique lower ?m"
  proof (cases "map_of ot ''filters''")
    case None
    then have "map_of ?m ''filters'' \<in> {None, map_of bt ''filters''}"
      unfolding lookup displaced_base_lookup by auto
    with bt(2) show ?thesis by (auto simp: filters_unique_def)
  next
    case (Some w)
    have w: "toml_ok w" using ok eo Some table_ok_lookup by auto
    have uw: "w = TTable f \<Longrightarrow> distinct (map (lower \<circ> fst) f)" for f
      using ot(2) Some by (simp add: filters_unique_def)
    show ?thesis
    proof (cases "map_of bt ''filters''")
      case None
      with Some have "map_of ?m ''filters'' = Some w"
        unfolding lookup displaced_base_lookup using normalized_deep[OF w, of "[SEP]"] by simp
      with uw show ?thesis by (auto simp: filters_unique_def split: toml.splits)
    next
      case old: (Some u)
      have "toml_ok u" using ok eo old table_ok_lookup by auto
      moreover have "map_of ?m ''filters'' = Some (merge_toml_values_at_path win lower u w [SEP, ''filters''])"
        using Some old unfolding lookup displaced_base_lookup by simp
      ultimately show ?thesis
        using merge_filters_unique[OF idem _ w uw] by (auto simp: filters_unique_def split: toml.splits)
    qed
  qed
  ultimately show ?thesis by (simp add: eo merge_policy policy_sound_def)
next
  case False
  with ok sound show ?thesis by (simp add: merge_policy_other)
qed

lemma merge_config_policy_sound:
  assumes idem: "\<And>s. lower (lower s) = lower s"
    and ok: "root_ok base" "root_ok overlay"
    and sound: "config_policy_sound lower base" "config_policy_sound lower overlay"
  shows "config_policy_sound lower (merge_toml_values win lower base overlay)"
proof -
  obtain bt ot where bo: "base = TTable bt" "overlay = TTable ot" "table_ok bt" "table_ok ot"
    using ok by (auto elim!: root_okE)
  have "policy_sound lower p" if "map_of (fold (merge_entry win lower []) ot bt) SEP = Some p" for p
    using that sound bo table_ok_lookup[OF bo(3)] table_ok_lookup[OF bo(4)] merge_policy_sound[OF idem]
    by (auto simp: merge_root_lookup config_policy_sound_def toml_get_def special_root_fixed special_roots_def
        split: option.splits)
  then show ?thesis
    by (auto simp: config_policy_sound_def bo merge_root toml_get_def split: option.splits)
qed

section \<open>Structured features\<close>

text \<open>The table that a structured feature stands for: \<open>true\<close> means \<open>{ enabled = true }\<close>.\<close>

definition expanded :: "toml \<Rightarrow> toml" where
  "expanded v = (case v of TBoolean e \<Rightarrow> TTable [(''enabled'', TBoolean e)] | _ \<Rightarrow> v)"

lemma expanded_simps [simp]:
  "expanded (TBoolean e) = TTable [(''enabled'', TBoolean e)]" "expanded (TTable t) = TTable t"
  "expanded (TString s) = TString s" "expanded (TInteger i) = TInteger i" "expanded (TFloat f) = TFloat f"
  "expanded (TDatetime d) = TDatetime d" "expanded (TArray xs) = TArray xs"
  by (simp_all add: expanded_def)

lemma structured_path_plain:
  assumes "is_structured_feature_path path"
  shows "\<not> is_network_domains_path path" "\<not> is_shell_environment_filters_path path" "\<not> is_credentials_path path"
    "path \<noteq> [SEP]" "path \<noteq> []" "path \<noteq> [''memories'']" "path \<noteq> [''agents'']"
  using structured_feature_pathD[OF assms]
  by (auto simp: is_shell_environment_filters_path_def dest!: network_domains_pathD credentials_pathD)

lemma structured_child_inert:
  assumes "is_structured_feature_path path" "k \<noteq> ''credentials''"
  shows "inert (path @ [k])"
  using structured_feature_pathD[OF assms(1)] assms(2)
  by (auto simp: inert_def is_shell_environment_filters_path_def dest!: special_pathD)

lemma expanded_ok: "toml_ok v \<Longrightarrow> toml_ok (expanded v)"
  by (cases v) (auto simp: expanded_def table_ok_def)

lemma merge_feature_tables:
  assumes "is_structured_feature_path path" "expanded base = TTable bt"
  shows "merge_toml_values_at_path win lower base (TTable ot) path = TTable (fold (merge_entry win lower path) ot bt)"
  using assms structured_path_plain[OF assms(1)]
  by (cases base)
     (auto simp: expanded_def merge_at_path_eq replace_plain merge_structured_feature_def merge_tables_def
       normalize_table_plain aliases_other drop_displaced_plain)

lemma merge_feature_boolean:
  assumes "is_structured_feature_path path"
  shows "expanded (merge_toml_values_at_path win lower base (TBoolean e) path) =
    TTable (AList.update ''enabled'' (TBoolean e) (case base of TTable t \<Rightarrow> t | _ \<Rightarrow> []))"
  using assms structured_path_plain[OF assms]
  by (cases base) (auto simp: expanded_def merge_at_path_eq replace_plain merge_structured_feature_def)

lemma expanded_table_cases:
  obtains (table) t where "expanded v = TTable t" | (leaf) "expanded v = v" "\<not> is_table v" "\<nexists>e. v = TBoolean e"
  by (cases v) (auto simp: expanded_def is_table_def)

lemma merge_feature_leaf:
  assumes "is_structured_feature_path path" "toml_ok overlay" "\<not> is_table (expanded base) \<or> \<not> is_table overlay"
    "\<nexists>e. overlay = TBoolean e"
  shows "merge_toml_values_at_path win lower base overlay path = overlay"
proof -
  have "merge_toml_values_at_path win lower base overlay path = normalized_with_key_aliases overlay path"
    using assms(1,3,4) structured_path_plain[OF assms(1)]
    by (cases base; cases overlay)
       (auto simp: merge_at_path_eq replace_plain merge_structured_feature_def expanded_def is_table_def)
  also have "\<dots> = overlay"
    using structured_feature_pathD[OF assms(1)] assms(2) by (intro normalized_other_path) auto
  finally show ?thesis .
qed

lemma merge_entries_setting:
  assumes "table_ok bt" "table_ok ot" "inert (path @ [k])" "path \<noteq> []"
  shows "setting (TTable (fold (merge_entry win lower path) ot bt)) (k # p) =
    overlaid (probe (TTable ot) (k # p)) (setting (TTable bt) (k # p))"
proof -
  have dist: "distinct (map fst ot)" using assms(2) by (simp add: table_ok_def)
  have new: "overlaid (probe v p) None = setting v p" for v
    by (simp add: overlaid_def setting_def split: answer.splits)
  show ?thesis
    using assms(3,4) table_ok_lookup[OF assms(1), of k] table_ok_lookup[OF assms(2), of k]
    by (cases "map_of ot k"; cases "map_of bt k")
       (auto simp: merge_entries_lookup[OF dist] merge_inert_setting normalized_deep new overlaid_def[of Unset])
qed

lemma merge_feature_setting:
  assumes path: "is_structured_feature_path path" and ok: "toml_ok base" "toml_ok overlay" and k: "k \<noteq> ''credentials''"
  shows "setting (expanded (merge_toml_values_at_path win lower base overlay path)) (k # p) =
    overlaid (probe (expanded overlay) (k # p)) (setting (expanded base) (k # p))"
proof (cases "\<exists>e. overlay = TBoolean e")
  case True
  then obtain e where e: "overlay = TBoolean e" by blast
  show ?thesis
    by (cases base; cases p)
       (auto simp: e merge_feature_boolean[OF path] overlaid_def update_conv' is_table_def setting_not_table
         split: option.splits)
next
  case False
  show ?thesis
  proof (cases overlay)
    case (TTable ot)
    show ?thesis
    proof (cases base rule: expanded_table_cases)
      case (table bt)
      have "table_ok bt" using expanded_ok[OF ok(1)] table by simp
      then show ?thesis
        using merge_entries_setting[OF _ _ structured_child_inert[OF path k]] ok(2) path structured_path_plain[OF path] table
        by (simp add: TTable merge_feature_tables expanded_def)
    next
      case leaf
      then have "merge_toml_values_at_path win lower base overlay path = overlay"
        using merge_feature_leaf[OF path ok(2) _ False] by simp
      with leaf show ?thesis
        by (simp add: TTable expanded_def setting_not_table)
           (simp add: overlaid_def setting_def split: answer.splits option.splits)
    qed
  qed (use False merge_feature_leaf[OF path ok(2) _ False] in
    \<open>auto simp: expanded_def is_table_def overlaid_def setting_def\<close>)
qed

section \<open>Credential providers\<close>

text \<open>The overlay claims a source of the provider: an environment variable that both read.\<close>

definition claims_source :: "bool \<Rightarrow> toml_table \<Rightarrow> toml \<Rightarrow> bool" where
  "claims_source win ot existing \<longleftrightarrow>
     list_ex (\<lambda>(provider_id, provider).
       case (env_sources provider, env_sources existing) of
         (Some ss, Some es) \<Rightarrow> sources_overlap win es ss
       | _ \<Rightarrow> False) ot"

lemma filter_lookup:
  "distinct (map fst t) \<Longrightarrow>
     map_of (filter P t) k = (case map_of t k of Some v \<Rightarrow> if P (k, v) then Some v else None | None \<Rightarrow> None)"
  by (induction t) (auto simp: map_of_eq_None_iff split: option.splits)

lemma retains_provider_iff:
  assumes "map_of ot q = None" "provider_id \<noteq> q"
  shows "retains_provider win ot provider_id ss (q, e) \<longleftrightarrow>
    (case env_sources e of Some es \<Rightarrow> \<not> sources_overlap win es ss | None \<Rightarrow> True)"
  using assms by (auto simp: retains_provider_def env_sources_def split: option.splits)

lemma drop_displaced_lookup:
  assumes path: "is_credentials_path path" and bt: "distinct (map fst bt)" and q: "map_of ot q = None"
  shows "map_of (drop_displaced_credentials win path ot bt) q =
    (case map_of bt q of Some e \<Rightarrow> if claims_source win ot e then None else Some e | None \<Rightarrow> None)"
proof -
  let ?f = "\<lambda>(provider_id, provider) t. case env_sources provider of
      None \<Rightarrow> t | Some sources \<Rightarrow> filter (retains_provider win ot provider_id sources) t"
  have "map_of (fold ?f xs t) q =
      (case map_of t q of Some e \<Rightarrow> if claims_source win xs e then None else Some e | None \<Rightarrow> None)"
    if "q \<notin> fst ` set xs" "distinct (map fst t)" for xs t
    using that
  proof (induction xs arbitrary: t)
    case (Cons a xs)
    obtain i v where a: "a = (i, v)" by (cases a)
    show ?case
    proof (cases "env_sources v")
      case None
      with Cons show ?thesis by (simp add: a claims_source_def split: option.splits)
    next
      case (Some ss)
      have "distinct (map fst (filter (retains_provider win ot i ss) t))"
        using Cons.prems(2) by (rule distinct_map_filter)
      with Cons Some q show ?thesis
        by (auto simp: a claims_source_def filter_lookup retains_provider_iff split: option.splits)
    qed
  qed (simp add: claims_source_def split: option.splits)
  moreover have "q \<notin> fst ` set ot" using q by (simp add: map_of_eq_None_iff)
  ultimately show ?thesis using path bt by (simp add: drop_displaced_credentials_def)
qed

lemma merge_credentials:
  assumes "is_credentials_path path"
  shows "merge_toml_values_at_path win lower (TTable bt) (TTable ot) path =
    TTable (fold (merge_entry win lower path) ot (drop_displaced_credentials win path ot bt))"
proof -
  have "\<not> is_structured_feature_path path" "\<not> is_network_domains_path path" "\<not> is_shell_environment_filters_path path"
    "path \<noteq> [SEP]" "path \<noteq> [''memories'']" "path \<noteq> [''agents'']"
    using credentials_pathD[OF assms]
    by (auto simp: is_shell_environment_filters_path_def structured_features_def
        dest!: network_domains_pathD structured_feature_pathD)
  then show ?thesis
    by (simp add: merge_at_path_eq replace_plain merge_structured_plain merge_tables_def normalize_table_plain aliases_other)
qed

section \<open>Network domains\<close>

text \<open>The rule of a table for a host: the last entry whose pattern normalises to it.\<close>

definition host_rule :: "toml_table \<Rightarrow> string \<Rightarrow> toml option" where
  "host_rule t h = map_of (rev (map (apfst normalize_host) t)) h"

lemma merge_domains:
  assumes path: "is_network_domains_path path" and ok: "table_ok bt" "table_ok ot"
    and leaves: "\<forall>v \<in> snd ` set ot. \<not> is_table v"
    and m: "merge_toml_values_at_path win lower (TTable bt) (TTable ot) path = TTable r"
  shows "map_of r h = (case host_rule ot h of Some v \<Rightarrow> Some v | None \<Rightarrow> host_rule bt h)"
proof -
  have p: "\<not> is_structured_feature_path path" "\<not> is_credentials_path path" "\<not> is_shell_environment_filters_path path"
    "path \<noteq> [SEP]" "path \<noteq> [''memories'']" "path \<noteq> [''agents'']" "path \<noteq> []" "inert (path @ [h])" for h
    using network_domains_pathD[OF path]
    by (auto simp: is_shell_environment_filters_path_def inert_def dest!: special_pathD)
  let ?ot = "rekey normalize_host ot" and ?bt = "rekey normalize_host bt"
  have nt: "normalize_table lower path t = rekey normalize_host t" for t
    using p path by (simp add: normalize_table_def Let_def normalize_network_domain_keys_def aliases_other)
  have r: "r = fold (merge_entry win lower path) ?ot ?bt"
    using m p by (simp add: merge_at_path_eq replace_plain merge_structured_plain merge_tables_def nt drop_displaced_plain)
  have ok': "table_ok ?ot" using ok by simp
  then have dist: "distinct (map fst ?ot)" by (simp add: table_ok_def)
  have leaf: "\<not> is_table v \<and> toml_ok v" if "map_of ?ot h = Some v" for v
  proof -
    have "v \<in> snd ` set ?ot" using that by (force dest: map_of_SomeD)
    with leaves subsetD[OF rekey_values[of normalize_host ot]] table_ok_lookup[OF ok' that] show ?thesis by blast
  qed
  have "normalized_with_key_aliases v (path @ [h]) = v \<and>
      merge_toml_values_at_path win lower e v (path @ [h]) = v" if "map_of ?ot h = Some v" for e v
    using leaf[OF that] p by (simp add: normalized_deep merge_inert_other)
  then show ?thesis
    by (auto simp: r merge_entries_lookup[OF dist] host_rule_def simp flip: rekey_lookup split: option.splits)
qed

section \<open>Command-line overrides\<close>

lemma setting_expand_boolean:
  assumes "\<not> (is_structured_feature_path path \<and> k # p = [''enabled''])"
  shows "setting (expand_boolean_feature path v) (k # p) = setting v (k # p)"
  using assms by (cases v; cases p) (auto simp: expand_boolean_feature_def setting_not_table is_table_def)

lemma set_last_segment_other:
  "\<not> is_structured_feature_path (traversed @ [segment]) \<Longrightarrow>
     set_last_segment win lower current traversed segment v =
       TTable (AList.update segment v (case current of TTable t \<Rightarrow> t | _ \<Rightarrow> []))"
  by (auto simp: set_last_segment_def split: toml.splits)

lemma set_last_segment_table:
  obtains w where "set_last_segment win lower current traversed segment v =
    TTable (AList.update segment w (case current of TTable t \<Rightarrow> t | _ \<Rightarrow> []))"
proof -
  have "\<exists>w. set_last_segment win lower current traversed segment v =
      TTable (AList.update segment w (case current of TTable t \<Rightarrow> t | _ \<Rightarrow> []))"
    by (cases current) (auto simp: set_last_segment_def split: toml.split option.split)
  then show ?thesis using that by blast
qed

text \<open>What an override writes, and that it leaves every path apart from its own.\<close>

lemma apply_segments_sets:
  assumes "segs \<noteq> []" "\<not> is_structured_feature_path (traversed @ segs)" "\<not> is_table v"
  shows "setting (apply_segments win lower current traversed segs v) segs = Some v"
  using assms
proof (induction win lower current traversed segs v rule: apply_segments.induct)
  case (2 win lower current traversed segment v)
  then show ?case by (simp add: set_last_segment_other update_conv' is_table_def)
next
  case (3 win lower current traversed segment s2 rest v)
  then show ?case by (cases current) (simp_all add: update_conv' Let_def)
qed simp

definition comparable :: "key_path \<Rightarrow> key_path \<Rightarrow> bool" where
  "comparable p q \<longleftrightarrow> prefix p q \<or> prefix q p"

lemma apply_segments_keeps:
  assumes "segs \<noteq> []" "\<not> comparable segs q"
    "\<not> (is_structured_feature_path (butlast (traversed @ q)) \<and> last (traversed @ q) = ''enabled'')"
  shows "setting (apply_segments win lower current traversed segs v) q = setting current q"
  using assms
proof (induction win lower current traversed segs v arbitrary: q rule: apply_segments.induct)
  case (2 win lower current traversed segment v)
  then obtain k p where q: "q = k # p" "k \<noteq> segment" by (cases q) (auto simp: comparable_def)
  obtain w where "set_last_segment win lower current traversed segment v =
      TTable (AList.update segment w (case current of TTable t \<Rightarrow> t | _ \<Rightarrow> []))"
    by (rule set_last_segment_table)
  then show ?case
    by (cases current) (auto simp: q update_conv' setting_not_table is_table_def)
next
  case (3 win lower current traversed segment s2 rest v)
  then obtain k p where q: "q = k # p" by (cases q) (auto simp: comparable_def)
  show ?case
  proof (cases "k = segment")
    case False
    then show ?thesis by (cases current) (simp_all add: q update_conv' Let_def setting_not_table is_table_def)
  next
    case True
    then have ncomp: "\<not> comparable (s2 # rest) p" using "3.prems" q by (auto simp: comparable_def)
    then obtain k' p' where p: "p = k' # p'" by (cases p) (auto simp: comparable_def)
    have ne: "\<not> (is_structured_feature_path (butlast ((traversed @ [segment]) @ p)) \<and>
        last ((traversed @ [segment]) @ p) = ''enabled'')"
      using "3.prems"(3) by (simp add: q True)
    have exp: "setting (expand_boolean_feature (traversed @ [segment]) c) p = setting c p" for c
      using ne unfolding p by (intro setting_expand_boolean) (auto simp: butlast_append)
    show ?thesis
    proof (cases current)
      case (TTable t)
      then show ?thesis
        using "3.IH"(7)[OF TTable refl _ ncomp ne]
        by (auto simp: q True update_conv' Let_def exp[unfolded p] p split: option.splits)
    qed (use "3.IH" ncomp ne in \<open>simp_all add: q True p setting_not_table is_table_def\<close>)
  qed
qed simp

lemma overrides_keep:
  assumes "\<forall>(path, w) \<in> set ovs. \<not> comparable (split_on (CHR ''.'') path) q"
    "\<not> (is_structured_feature_path (butlast q) \<and> last q = ''enabled'')"
  shows "setting (fold (\<lambda>(path, w) root. apply_toml_override win lower root path w) ovs root) q = setting root q"
  using assms
proof (induction ovs arbitrary: root)
  case (Cons a ovs)
  have "split_on (CHR ''.'') (fst a) \<noteq> []" by simp
  with Cons show ?case
    by (auto simp: apply_toml_override_def apply_segments_keeps split: prod.splits)
qed simp

section \<open>Properties\<close>

text \<open>
  An environment variable that a higher layer binds to a credential provider is bound to no
  other provider below: merging the credentials of a feature keeps a provider that only the lower
  layer has exactly if the higher one claims none of its variables, and keeps it unchanged.
\<close>

theorem credential_source_has_one_owner:
  assumes "is_credentials_path path" "table_ok bt" "table_ok ot" "map_of ot q = None"
    "merge_toml_values_at_path win lower (TTable bt) (TTable ot) path = TTable r"
  shows "map_of r q = (case map_of bt q of Some e \<Rightarrow> if claims_source win ot e then None else Some e | None \<Rightarrow> None)"
proof -
  have "distinct (map fst bt)" "distinct (map fst ot)" using assms(2,3) by (simp_all add: table_ok_def)
  with assms show ?thesis
    by (auto simp: merge_credentials merge_entries_lookup drop_displaced_lookup)
qed

theorem credential_source_has_one_owner_witness:
  "\<exists>r. merge_toml_values_at_path False id (TTable [(''old'', TTable [(''env'', TArray [TString ''TOKEN''])])])
        (TTable [(''new'', TTable [(''env'', TArray [TString ''TOKEN''])])]) [''features'', ''network_proxy'', ''credentials''] = TTable r \<and>
      map_of r ''old'' = None"
proof -
  let ?b = "[(''old'', TTable [(''env'', TArray [TString ''TOKEN''])])]"
  let ?o = "[(''new'', TTable [(''env'', TArray [TString ''TOKEN''])])]"
  let ?p = "[''features'', ''network_proxy'', ''credentials'']"
  have p: "is_credentials_path ?p" by code_simp
  then obtain r where r: "merge_toml_values_at_path False id (TTable ?b) (TTable ?o) ?p = TTable r"
    by (simp add: merge_credentials)
  have "map_of r ''old'' = (case map_of ?b ''old'' of Some e \<Rightarrow> if claims_source False ?o e then None else Some e | None \<Rightarrow> None)"
    by (rule credential_source_has_one_owner[OF p _ _ _ r]) (simp_all add: table_ok_def)
  also have "\<dots> = None"
    by (simp add: claims_source_def env_sources_def toml_get_def as_array_def sources_overlap_def same_source_def
        List.map_filter_simps toml_str_def)
  finally show ?thesis using r by blast
qed

text \<open>
  The boolean form of a structured feature stands for the table with only the enabled key: merging two
  layers that use either form looks up like merging the tables, so switching a feature on or off
  in a higher layer keeps its other settings, and a table without that key keeps a boolean below.
\<close>

theorem feature_boolean_is_table:
  assumes "is_structured_feature_path path" "toml_ok base" "toml_ok overlay" "k \<noteq> ''credentials''"
  shows "setting (expanded (merge_toml_values_at_path win lower base overlay path)) (k # p) =
    overlaid (probe (expanded overlay) (k # p)) (setting (expanded base) (k # p))"
  using assms by (rule merge_feature_setting)

theorem feature_boolean_is_table_witness:
  "setting (expanded (merge_toml_values_at_path False id (TTable [(''port'', TInteger 1)]) (TBoolean True)
     [''features'', ''network_proxy''])) [''port''] = Some (TInteger 1)"
  by (subst feature_boolean_is_table)
     (simp_all add: structured_features_def table_ok_def overlaid_def is_table_def)

text \<open>
  In the domain table of a network permission the rule of the merged table for a host is the
  last rule of the higher layer whose pattern normalises to the host, and else the one of the lower
  layer, however the patterns are spelled.
\<close>

theorem domain_rules_merge_by_host:
  assumes "is_network_domains_path path" "table_ok bt" "table_ok ot" "\<forall>v \<in> snd ` set ot. \<not> is_table v"
    "merge_toml_values_at_path win lower (TTable bt) (TTable ot) path = TTable r"
  shows "map_of r h = (case host_rule ot h of Some v \<Rightarrow> Some v | None \<Rightarrow> host_rule bt h)"
  using assms by (rule merge_domains)

text \<open>
  The last command-line override of a path sets it, whatever overrides come before and whatever
  unrelated ones come after.
\<close>

theorem override_sets_path:
  assumes "ovs = before @ (path, v) # after" "\<not> is_table v"
    "\<not> is_structured_feature_path (split_on (CHR ''.'') path)"
    "\<not> (is_structured_feature_path (butlast (split_on (CHR ''.'') path)) \<and> last (split_on (CHR ''.'') path) = ''enabled'')"
    "\<forall>(other, w) \<in> set after. \<not> comparable (split_on (CHR ''.'') other) (split_on (CHR ''.'') path)"
  shows "setting (build_cli_overrides_layer win lower ovs) (split_on (CHR ''.'') path) = Some v"
  using assms(2,3) overrides_keep[OF assms(5,4)]
  by (simp add: assms(1) build_cli_overrides_layer_def apply_toml_override_def apply_segments_sets)

theorem override_sets_path_witness:
  "setting (build_cli_overrides_layer False id [(''a.b'', TInteger 1), (''a.b'', TInteger 2), (''a.c'', TInteger 3)])
     [''a'', ''b''] = Some (TInteger 2)"
proof -
  have s: "split_on (CHR ''.'') ''a.b'' = [''a'', ''b'']" "split_on (CHR ''.'') ''a.c'' = [''a'', ''c'']" by code_simp+
  show ?thesis
    using override_sets_path[of "[(''a.b'', TInteger 1), (''a.b'', TInteger 2), (''a.c'', TInteger 3)]"
        "[(''a.b'', TInteger 1)]" "''a.b''" "TInteger 2" "[(''a.c'', TInteger 3)]" False id]
    by (simp add: s is_table_def comparable_def)
qed

end
