(* ===== verification/Config_Layers.thy ===== *)
theory Config_Layers
  imports Config_Rules "HOL-Library.Char_ord" "HOL-Library.List_Lexorder" "HOL-Library.Multiset"
begin

text \<open>
  The stack of configuration layers (\<open>config/src/state.rs\<close>, \<open>config_layer_source.rs\<close>,
  \<open>fingerprint.rs\<close>, \<open>shell_environment_policy.rs\<close>, \<open>model_provider_requirements.rs\<close>,
  \<open>cloud_config_layers.rs\<close>).

  An \<open>AbsolutePathBuf\<close> is the list of its components below the root. Code that is not in the
  sources is an argument: \<open>de\<close> is the derived deserializer of the policy fields, \<open>to_json\<close> and
  \<open>sha\<close> the JSON conversion and the hash behind a layer's version, \<open>from_str\<close> the TOML parser. The
  requirements that the stack only stores are of arbitrary type.

  Sections: layer sources, layer entries and their versions, validation of a layer, the stack and
  its operations, the origins of settings, and the properties.
\<close>

section \<open>Layer sources\<close>

type_synonym abs_path = "string list"

datatype ConfigLayerSource =
    PackagedDefaults abs_path
  | Mdm string string
  | System abs_path
  | EnterpriseManaged string string
  | User abs_path "string option"
  | Project abs_path
  | SessionFlags
  | LegacyManagedConfigTomlFromFile abs_path
  | LegacyManagedConfigTomlFromMdm

fun precedence :: "ConfigLayerSource \<Rightarrow> int" where
  "precedence (PackagedDefaults f) = - 10"
| "precedence (Mdm d k) = 0"
| "precedence (System f) = 10"
| "precedence (EnterpriseManaged i n) = 15"
| "precedence (User f profile) = (if profile \<noteq> None then 21 else 20)"
| "precedence (Project f) = 25"
| "precedence SessionFlags = 30"
| "precedence (LegacyManagedConfigTomlFromFile f) = 40"
| "precedence LegacyManagedConfigTomlFromMdm = 50"

text \<open>\<open>PartialOrd\<close> of sources: by precedence.\<close>

definition source_le :: "ConfigLayerSource \<Rightarrow> ConfigLayerSource \<Rightarrow> bool" where
  "source_le a b \<longleftrightarrow> precedence a \<le> precedence b"

definition display_path :: "abs_path \<Rightarrow> string" where
  "display_path p = ''/'' @ join_with ''/'' p"

fun format_config_layer_source :: "ConfigLayerSource \<Rightarrow> string \<Rightarrow> string" where
  "format_config_layer_source (PackagedDefaults f) toml_file = ''packaged defaults ('' @ display_path f @ '')''"
| "format_config_layer_source (Mdm d k) toml_file = ''MDM ('' @ d @ '':'' @ k @ '')''"
| "format_config_layer_source (System f) toml_file = ''system ('' @ display_path f @ '')''"
| "format_config_layer_source (EnterpriseManaged i n) toml_file = ''enterprise-managed ('' @ n @ '', '' @ i @ '')''"
| "format_config_layer_source (User f profile) toml_file = ''user ('' @ display_path f @ '')''"
| "format_config_layer_source (Project folder) toml_file = ''project ('' @ display_path folder @ ''/'' @ toml_file @ '')''"
| "format_config_layer_source SessionFlags toml_file = ''session-flags''"
| "format_config_layer_source (LegacyManagedConfigTomlFromFile f) toml_file =
     ''legacy managed_config.toml ('' @ display_path f @ '')''"
| "format_config_layer_source LegacyManagedConfigTomlFromMdm toml_file = ''legacy managed_config.toml (MDM)''"

definition is_user :: "ConfigLayerSource \<Rightarrow> bool" where
  "is_user s = (case s of User _ _ \<Rightarrow> True | _ \<Rightarrow> False)"

record ConfigLayerMetadata =
  meta_name :: ConfigLayerSource
  meta_version :: string

section \<open>Versions\<close>

datatype json =
    JNull
  | JBool bool
  | JNumber string
  | JString string
  | JArray "json list"
  | JObject "(string \<times> json) list"

lemma json_entry_smaller: "map_of m k = Some v \<Longrightarrow> size v < size (JObject m)"
  by (induction m) (auto split: if_splits)

function canonical_json :: "json \<Rightarrow> json" where
  "canonical_json (JObject m) =
     JObject (fold (\<lambda>key acc. case map_of m key of
         Some v \<Rightarrow> AList.update key (canonical_json v) acc
       | None \<Rightarrow> acc) (sort (map fst m)) [])"
| "canonical_json (JArray items) = JArray (map canonical_json items)"
| "canonical_json JNull = JNull"
| "canonical_json (JBool b) = JBool b"
| "canonical_json (JNumber n) = JNumber n"
| "canonical_json (JString s) = JString s"
  by pat_completeness auto
termination
  by (relation "measure size") (auto dest: json_entry_smaller simp: less_Suc_eq_le size_list_estimation')

text \<open>\<open>format!("{byte:02x}")\<close>\<close>

definition hex_digit :: "nat \<Rightarrow> char" where
  "hex_digit n = (if n < 10 then char_of (48 + n) else char_of (87 + n))"

definition hex_byte :: "nat \<Rightarrow> string" where
  "hex_byte b = [hex_digit (b div 16), hex_digit (b mod 16)]"

definition version_for_toml :: "(toml \<Rightarrow> json) \<Rightarrow> (json \<Rightarrow> nat list) \<Rightarrow> toml \<Rightarrow> string" where
  "version_for_toml to_json sha v = ''sha256:'' @ concat (map hex_byte (sha (canonical_json (to_json v))))"

section \<open>Layer entries\<close>

record RawTomlLayer =
  raw_contents :: string
  raw_base_dir :: abs_path

record ConfigLayerEntry =
  entry_name :: ConfigLayerSource
  entry_config :: toml
  entry_version :: string
  disabled_reason :: "string option"
  entry_raw_toml :: "RawTomlLayer option"
  hooks_config_folder_override :: "abs_path option"

definition new_entry :: "(toml \<Rightarrow> string) \<Rightarrow> ConfigLayerSource \<Rightarrow> toml \<Rightarrow> ConfigLayerEntry" where
  "new_entry version name config =
     \<lparr>entry_name = name, entry_config = config, entry_version = version config, disabled_reason = None,
      entry_raw_toml = None, hooks_config_folder_override = None\<rparr>"

definition new_with_raw_toml ::
  "(toml \<Rightarrow> string) \<Rightarrow> ConfigLayerSource \<Rightarrow> toml \<Rightarrow> string \<Rightarrow> abs_path \<Rightarrow> ConfigLayerEntry" where
  "new_with_raw_toml version name config raw base_dir =
     \<lparr>entry_name = name, entry_config = config, entry_version = version config, disabled_reason = None,
      entry_raw_toml = Some \<lparr>raw_contents = raw, raw_base_dir = base_dir\<rparr>,
      hooks_config_folder_override = None\<rparr>"

definition new_disabled :: "(toml \<Rightarrow> string) \<Rightarrow> ConfigLayerSource \<Rightarrow> toml \<Rightarrow> string \<Rightarrow> ConfigLayerEntry" where
  "new_disabled version name config reason =
     \<lparr>entry_name = name, entry_config = config, entry_version = version config, disabled_reason = Some reason,
      entry_raw_toml = None, hooks_config_folder_override = None\<rparr>"

definition is_disabled :: "ConfigLayerEntry \<Rightarrow> bool" where
  "is_disabled l \<longleftrightarrow> disabled_reason l \<noteq> None"

definition raw_toml :: "ConfigLayerEntry \<Rightarrow> string option" where
  "raw_toml l = map_option raw_contents (entry_raw_toml l)"

definition raw_toml_base_dir :: "ConfigLayerEntry \<Rightarrow> abs_path option" where
  "raw_toml_base_dir l = map_option raw_base_dir (entry_raw_toml l)"

definition with_hooks_config_folder_override :: "abs_path option \<Rightarrow> ConfigLayerEntry \<Rightarrow> ConfigLayerEntry" where
  "with_hooks_config_folder_override folder l = l\<lparr>hooks_config_folder_override := folder\<rparr>"

definition metadata :: "ConfigLayerEntry \<Rightarrow> ConfigLayerMetadata" where
  "metadata l = \<lparr>meta_name = entry_name l, meta_version = entry_version l\<rparr>"

record ConfigLayer =
  layer_name :: ConfigLayerSource
  layer_version :: string
  layer_config :: json
  layer_disabled_reason :: "string option"

definition as_layer :: "(toml \<Rightarrow> json) \<Rightarrow> ConfigLayerEntry \<Rightarrow> ConfigLayer" where
  "as_layer to_json l =
     \<lparr>layer_name = entry_name l, layer_version = entry_version l, layer_config = to_json (entry_config l),
      layer_disabled_reason = disabled_reason l\<rparr>"

text \<open>\<open>Path::parent\<close> of an absolute path.\<close>

definition path_parent :: "abs_path \<Rightarrow> abs_path option" where
  "path_parent p = (if p = [] then None else Some (butlast p))"

fun config_folder_of :: "ConfigLayerSource \<Rightarrow> abs_path option" where
  "config_folder_of (System f) = path_parent f"
| "config_folder_of (User f profile) = path_parent f"
| "config_folder_of (Project folder) = Some folder"
| "config_folder_of _ = None"

definition config_folder :: "ConfigLayerEntry \<Rightarrow> abs_path option" where
  "config_folder l = config_folder_of (entry_name l)"

definition hooks_config_folder :: "ConfigLayerEntry \<Rightarrow> abs_path option" where
  "hooks_config_folder l =
     (case hooks_config_folder_override l of Some f \<Rightarrow> Some f | None \<Rightarrow> config_folder l)"

section \<open>Validation of a layer\<close>

datatype ShellEnvironmentPolicyFilter = Include | Exclude

text \<open>
  The fields that the derived \<open>Deserialize\<close> of \<open>ShellEnvironmentPolicyTomlRaw\<close> reads out of a
  table. A \<open>BTreeMap\<close> is its list of entries in key order; a \<open>HashMap\<close> is its list of entries.
\<close>

datatype ShellEnvironmentPolicyInherit = Core | All | NoInherit

record ShellEnvironmentPolicyToml =
  toml_inherit :: "ShellEnvironmentPolicyInherit option"
  toml_ignore_default_excludes :: "bool option"
  toml_exclude :: "string list option"
  toml_set :: "(string \<times> string) list option"
  toml_include_only :: "string list option"
  toml_filters :: "(string \<times> ShellEnvironmentPolicyFilter) list option"
  toml_use_profile :: "bool option"

datatype policy_error =
    FieldError string
  | MixedRepresentations
  | DuplicateFilter string
  | NotATable

text \<open>The loop that inserts every lower-cased pattern into a set: the first pattern met before.\<close>

fun first_duplicate :: "(string \<Rightarrow> string) \<Rightarrow> string list \<Rightarrow> string list \<Rightarrow> string option" where
  "first_duplicate lower seen [] = None"
| "first_duplicate lower seen (p # ps) =
     (if List.member seen (lower p) then Some p else first_duplicate lower (lower p # seen) ps)"

definition deserialize_policy ::
  "(string \<Rightarrow> string) \<Rightarrow> (toml_table \<Rightarrow> string + ShellEnvironmentPolicyToml) \<Rightarrow> toml_table
     \<Rightarrow> policy_error + ShellEnvironmentPolicyToml" where
  "deserialize_policy lower de t =
     (case de t of
        Inl e \<Rightarrow> Inl (FieldError e)
      | Inr raw \<Rightarrow>
          if toml_filters raw \<noteq> None \<and> (toml_exclude raw \<noteq> None \<or> toml_include_only raw \<noteq> None)
          then Inl MixedRepresentations
          else case toml_filters raw of
                 None \<Rightarrow> Inr raw
               | Some filters \<Rightarrow>
                   (case first_duplicate lower [] (map fst filters) of
                      Some pattern \<Rightarrow> Inl (DuplicateFilter pattern)
                    | None \<Rightarrow> Inr raw))"

definition filter_fields :: "toml_table \<Rightarrow> toml_table" where
  "filter_fields policy =
     List.map_filter (\<lambda>field. map_option (Pair field) (map_of policy field))
       [''exclude'', ''include_only'', ''filters'']"

definition validate_shell_environment_policy_filter_config ::
  "(string \<Rightarrow> string) \<Rightarrow> (toml_table \<Rightarrow> string + ShellEnvironmentPolicyToml) \<Rightarrow> toml \<Rightarrow> policy_error + unit" where
  "validate_shell_environment_policy_filter_config lower de v =
     (case as_table v of
        None \<Rightarrow> Inl NotATable
      | Some root \<Rightarrow>
          (case map_of root ''shell_environment_policy'' of
             None \<Rightarrow> Inr ()
           | Some policy_value \<Rightarrow>
               (case as_table policy_value of
                  None \<Rightarrow> Inr ()
                | Some policy \<Rightarrow>
                    (case deserialize_policy lower de (filter_fields policy) of
                       Inl e \<Rightarrow> Inl e
                     | Inr _ \<Rightarrow> Inr ()))))"

datatype stack_error =
    InvalidPolicy ConfigLayerSource policy_error
  | WrongPrecedenceOrder
  | ProjectWithoutParent
  | ProjectsNotRootToCwd
  | InvalidProviders string

fun validate_enabled_config_layers ::
  "(toml \<Rightarrow> policy_error + unit) \<Rightarrow> ConfigLayerEntry list \<Rightarrow> stack_error + unit" where
  "validate_enabled_config_layers validate [] = Inr ()"
| "validate_enabled_config_layers validate (l # ls) =
     (if is_disabled l then validate_enabled_config_layers validate ls
      else case validate (entry_config l) of
             Inl e \<Rightarrow> Inl (InvalidPolicy (entry_name l) e)
           | Inr _ \<Rightarrow> validate_enabled_config_layers validate ls)"

text \<open>
  \<open>verify_layer_ordering\<close>: the loop over the project layers carries the folder met last;
  \<open>ancestors().any(|a| a == parent)\<close> says that \<open>parent\<close> is a prefix of the path.
\<close>

fun verify_projects :: "abs_path option \<Rightarrow> ConfigLayerSource list \<Rightarrow> stack_error + unit" where
  "verify_projects previous [] = Inr ()"
| "verify_projects previous (Project current # names) =
     (case previous of
        None \<Rightarrow> verify_projects (Some current) names
      | Some prev \<Rightarrow>
          (case path_parent prev of
             None \<Rightarrow> Inl ProjectWithoutParent
           | Some parent \<Rightarrow>
               if prev = current \<or> \<not> prefix parent current then Inl ProjectsNotRootToCwd
               else verify_projects (Some current) names))"
| "verify_projects previous (name # names) = verify_projects previous names"

definition verify_layer_ordering :: "ConfigLayerEntry list \<Rightarrow> stack_error + unit" where
  "verify_layer_ordering ls =
     (if \<not> sorted_wrt source_le (map entry_name ls) then Inl WrongPrecedenceOrder
      else verify_projects None (map entry_name ls))"

section \<open>Required model providers\<close>

definition to_config ::
  "('p \<Rightarrow> string + unit) \<Rightarrow> ('p \<Rightarrow> string + toml) \<Rightarrow> 'p option \<Rightarrow> stack_error + toml" where
  "to_config validate_model_providers try_from providers =
     (case providers of
        None \<Rightarrow> Inr (TTable [])
      | Some p \<Rightarrow>
          (case validate_model_providers p of
             Inl e \<Rightarrow> Inl (InvalidProviders e)
           | Inr _ \<Rightarrow>
               (case try_from p of
                  Inl e \<Rightarrow> Inl (InvalidProviders e)
                | Inr v \<Rightarrow> Inr (TTable [(''model_providers'', v)]))))"

definition apply_required_providers :: "toml \<Rightarrow> toml \<Rightarrow> toml" where
  "apply_required_providers config requirements =
     (case as_table config of
        None \<Rightarrow> config
      | Some t \<Rightarrow>
          (case Option.bind (toml_get requirements ''model_providers'') as_table of
             None \<Rightarrow> config
           | Some required \<Rightarrow>
               let providers = (case map_of t ''model_providers'' of Some v \<Rightarrow> v | None \<Rightarrow> TTable []);
                   table = (case providers of TTable p \<Rightarrow> p | _ \<Rightarrow> [])
               in TTable (AList.update ''model_providers''
                    (TTable (fold (\<lambda>(k, v) p. AList.update k v p) required table)) t)))"

section \<open>The stack\<close>

record ('r, 'p) ConfigLayerStack =
  model_provider_requirements :: "toml option"
  stack_layers :: "ConfigLayerEntry list"
  requirements :: 'r
  requirements_toml :: 'p
  ignore_user_and_project_exec_policy_rules :: bool
  startup_warnings :: "string list option"
  is_projectless :: bool

definition new_stack ::
  "(toml \<Rightarrow> policy_error + unit) \<Rightarrow> ('p \<Rightarrow> stack_error + toml) \<Rightarrow> ConfigLayerEntry list \<Rightarrow> 'r \<Rightarrow> 'p
     \<Rightarrow> stack_error + ('r, 'p) ConfigLayerStack" where
  "new_stack validate project_requirements ls reqs reqs_toml =
     and_then (validate_enabled_config_layers validate ls) (\<lambda>_.
     and_then (verify_layer_ordering ls) (\<lambda>_.
     and_then (project_requirements reqs_toml) (\<lambda>providers.
       Inr \<lparr>model_provider_requirements = Some providers, stack_layers = ls, requirements = reqs,
            requirements_toml = reqs_toml, ignore_user_and_project_exec_policy_rules = False,
            startup_warnings = None, is_projectless = False\<rparr>)))"

definition with_user_and_project_exec_policy_rules_ignored ::
  "bool \<Rightarrow> ('r, 'p) ConfigLayerStack \<Rightarrow> ('r, 'p) ConfigLayerStack" where
  "with_user_and_project_exec_policy_rules_ignored ignored s =
     s\<lparr>ignore_user_and_project_exec_policy_rules := ignored\<rparr>"

definition with_startup_warnings :: "string list \<Rightarrow> ('r, 'p) ConfigLayerStack \<Rightarrow> ('r, 'p) ConfigLayerStack" where
  "with_startup_warnings warnings s = s\<lparr>startup_warnings := Some warnings\<rparr>"

definition layers_low_to_high :: "('r, 'p) ConfigLayerStack \<Rightarrow> ConfigLayerEntry list" where
  "layers_low_to_high s = filter (\<lambda>l. \<not> is_disabled l) (stack_layers s)"

definition layers_high_to_low :: "('r, 'p) ConfigLayerStack \<Rightarrow> ConfigLayerEntry list" where
  "layers_high_to_low s = rev (layers_low_to_high s)"

definition get_active_user_layer :: "('r, 'p) ConfigLayerStack \<Rightarrow> ConfigLayerEntry option" where
  "get_active_user_layer s = find (\<lambda>l. is_user (entry_name l)) (rev (stack_layers s))"

definition get_user_config_file :: "('r, 'p) ConfigLayerStack \<Rightarrow> abs_path option" where
  "get_user_config_file s =
     Option.bind (get_active_user_layer s)
       (\<lambda>l. case entry_name l of User file _ \<Rightarrow> Some file | _ \<Rightarrow> None)"

text \<open>The fold of the enabled layers, from the lowest to the highest.\<close>

definition merge_layers :: "bool \<Rightarrow> (string \<Rightarrow> string) \<Rightarrow> ConfigLayerEntry list \<Rightarrow> toml" where
  "merge_layers win lower ls =
     fold (\<lambda>l merged. merge_toml_values win lower merged (entry_config l)) ls (TTable [])"

definition effective_config :: "bool \<Rightarrow> (string \<Rightarrow> string) \<Rightarrow> ('r, 'p) ConfigLayerStack \<Rightarrow> toml" where
  "effective_config win lower s =
     (let merged = merge_layers win lower (layers_low_to_high s)
      in case model_provider_requirements s of
           Some reqs \<Rightarrow> apply_required_providers merged reqs
         | None \<Rightarrow> merged)"

definition effective_user_config :: "bool \<Rightarrow> (string \<Rightarrow> string) \<Rightarrow> ('r, 'p) ConfigLayerStack \<Rightarrow> toml option" where
  "effective_user_config win lower s =
     (let ls = filter (\<lambda>l. is_user (entry_name l)) (layers_low_to_high s)
      in if ls = [] then None else Some (merge_layers win lower ls))"

text \<open>
  \<open>position(..)\<close> of the first layer of higher precedence, then \<open>insert\<close> there or \<open>push\<close>.
\<close>

definition insert_layer :: "ConfigLayerEntry \<Rightarrow> ConfigLayerEntry list \<Rightarrow> ConfigLayerEntry list" where
  "insert_layer l ls =
     (let low = takeWhile (\<lambda>x. \<not> precedence (entry_name x) > precedence (entry_name l)) ls
      in low @ l # drop (length low) ls)"

text \<open>\<open>position(..)\<close> of the first layer with a property, then \<open>remove\<close>.\<close>

fun remove_first :: "('a \<Rightarrow> bool) \<Rightarrow> 'a list \<Rightarrow> 'a list" where
  "remove_first P [] = []"
| "remove_first P (x # xs) = (if P x then xs else x # remove_first P xs)"

definition is_user_file :: "abs_path \<Rightarrow> ConfigLayerEntry \<Rightarrow> bool" where
  "is_user_file config_toml l = (case entry_name l of User file _ \<Rightarrow> file = config_toml | _ \<Rightarrow> False)"

definition with_user_config_profile ::
  "(toml \<Rightarrow> policy_error + unit) \<Rightarrow> (toml \<Rightarrow> string) \<Rightarrow> ('r, 'p) ConfigLayerStack \<Rightarrow> abs_path \<Rightarrow> string option
     \<Rightarrow> toml \<Rightarrow> stack_error + ('r, 'p) ConfigLayerStack" where
  "with_user_config_profile validate version s config_toml profile user_config =
     (let user_layer = new_entry version (User config_toml profile) user_config
      in and_then (validate_enabled_config_layers validate [user_layer])
           (\<lambda>_. Inr (s\<lparr>stack_layers := insert_layer user_layer (remove_first (is_user_file config_toml) (stack_layers s))\<rparr>)))"

text \<open>\<open>ProfileV2Name::from_str\<close>\<close>

definition profile_name_char :: "char \<Rightarrow> bool" where
  "profile_name_char c \<longleftrightarrow>
     is_ascii_lowercase c \<or> is_ascii_uppercase c \<or> is_ascii_digit c \<or> c = CHR ''_'' \<or> c = CHR ''-''"

definition parse_profile_name :: "string \<Rightarrow> string option" where
  "parse_profile_name v = (if v = [] \<or> \<not> list_all profile_name_char v then None else Some v)"

definition with_user_config ::
  "(toml \<Rightarrow> policy_error + unit) \<Rightarrow> (toml \<Rightarrow> string) \<Rightarrow> ('r, 'p) ConfigLayerStack \<Rightarrow> abs_path
     \<Rightarrow> toml \<Rightarrow> stack_error + ('r, 'p) ConfigLayerStack" where
  "with_user_config validate version s config_toml user_config =
     (let profiles = List.map_filter (\<lambda>l. case entry_name l of
            User file profile \<Rightarrow> if file = config_toml then Option.bind profile parse_profile_name else None
          | _ \<Rightarrow> None) (stack_layers s)
      in with_user_config_profile validate version s config_toml
           (case profiles of [] \<Rightarrow> None | p # _ \<Rightarrow> Some p) user_config)"

definition with_user_layer_from ::
  "('r, 'p) ConfigLayerStack \<Rightarrow> ('r, 'p) ConfigLayerStack \<Rightarrow> ('r, 'p) ConfigLayerStack" where
  "with_user_layer_from s other =
     s\<lparr>stack_layers := fold insert_layer (filter (\<lambda>l. is_user (entry_name l)) (stack_layers other))
         (filter (\<lambda>l. \<not> is_user (entry_name l)) (stack_layers s))\<rparr>"

section \<open>Origins of settings\<close>

text \<open>
  \<open>record_origins\<close> visits the leaves of a value in order. The dotted keys that it inserts into the
  map, all with the metadata of the layer, are listed by \<open>origin_keys\<close>.
\<close>

definition dotted :: "key_path \<Rightarrow> string" where
  "dotted path = join_with ''.'' path"

definition leaf_origin_keys :: "(key_path \<Rightarrow> bool) \<Rightarrow> toml \<Rightarrow> key_path \<Rightarrow> string list" where
  "leaf_origin_keys include v path =
     (if path = [] \<or> \<not> include path then []
      else case v of
        TBoolean _ \<Rightarrow>
          if is_structured_feature_path path
          then (if last path = ''network_proxy'' then [dotted path] else []) @ [dotted (path @ [''enabled''])]
          else [dotted path]
      | _ \<Rightarrow> [dotted path])"

lemma enumerate_smaller:
  "(i, x) \<in> set (enumerate n xs) \<Longrightarrow> size x < size (TArray xs)"
proof -
  assume "(i, x) \<in> set (enumerate n xs)"
  then have "x \<in> set xs" by (auto simp: in_set_enumerate_eq)
  then show ?thesis by (simp add: less_Suc_eq_le size_list_estimation')
qed

function origin_keys :: "(key_path \<Rightarrow> bool) \<Rightarrow> toml \<Rightarrow> key_path \<Rightarrow> string list" where
  "origin_keys include (TTable t) path =
     concat (map (\<lambda>(key, v). origin_keys include v (path @ [key])) t)"
| "origin_keys include (TArray items) path =
     concat (map (\<lambda>(idx, item). origin_keys include item (path @ [show_nat idx])) (enumerate 0 items))"
| "origin_keys include (TString s) path = leaf_origin_keys include (TString s) path"
| "origin_keys include (TInteger i) path = leaf_origin_keys include (TInteger i) path"
| "origin_keys include (TFloat f) path = leaf_origin_keys include (TFloat f) path"
| "origin_keys include (TBoolean b) path = leaf_origin_keys include (TBoolean b) path"
| "origin_keys include (TDatetime d) path = leaf_origin_keys include (TDatetime d) path"
  by pat_completeness auto
termination
  by (relation "measure (\<lambda>(include, v, path). size v)") (auto simp: toml_entry_smaller dest: enumerate_smaller)

definition record_origins ::
  "toml \<Rightarrow> ConfigLayerMetadata \<Rightarrow> key_path \<Rightarrow> (string \<rightharpoonup> ConfigLayerMetadata) \<Rightarrow> (key_path \<Rightarrow> bool)
     \<Rightarrow> (string \<rightharpoonup> ConfigLayerMetadata)" where
  "record_origins v meta path origins include =
     fold (\<lambda>key m. m(key \<mapsto> meta)) (origin_keys include v path) origins"

text \<open>The prefixes under which an origin counts only when the effective configuration has the path.\<close>

definition provider_paths :: "toml list \<Rightarrow> string list" where
  "provider_paths configs =
     ''features.network_proxy.credentials.'' #
     concat (map (\<lambda>config.
       case Option.bind (toml_get config ''profiles'') as_table of
         None \<Rightarrow> []
       | Some profiles \<Rightarrow> map (\<lambda>(name, _). ''profiles.'' @ name @ ''.features.network_proxy.credentials.'') profiles)
       configs)"

definition origins_with_path_filter ::
  "bool \<Rightarrow> (string \<Rightarrow> string) \<Rightarrow> ('r, 'p) ConfigLayerStack \<Rightarrow> (key_path \<Rightarrow> bool)
     \<Rightarrow> (string \<rightharpoonup> ConfigLayerMetadata)" where
  "origins_with_path_filter win lower s include =
     (let ls = layers_low_to_high s;
          normalized = map (\<lambda>l. normalized_with_key_aliases (entry_config l) []) ls;
          origins = fold (\<lambda>(l, config) m. record_origins config (metadata l) [] m include) (zip ls normalized) Map.empty
      in if ls = [] then origins
         else let effective = record_origins (effective_config win lower s) (metadata (last ls)) [] Map.empty include
              in (\<lambda>path. if list_ex (\<lambda>p. prefix p path) (provider_paths normalized) \<and> effective path = None
                         then None else origins path))"

definition origins :: "bool \<Rightarrow> (string \<Rightarrow> string) \<Rightarrow> ('r, 'p) ConfigLayerStack \<Rightarrow> (string \<rightharpoonup> ConfigLayerMetadata)" where
  "origins win lower s = origins_with_path_filter win lower s (\<lambda>_. True)"

section \<open>Cloud configuration layers\<close>

record CloudConfigFragment =
  fragment_id :: string
  fragment_name :: string
  fragment_contents :: string

datatype CloudConfigLayerError =
    ParseFragment CloudConfigFragment string
  | InvalidFragment CloudConfigFragment string

definition validate_fragment_strictly ::
  "(string \<Rightarrow> toml \<Rightarrow> string option) \<Rightarrow> CloudConfigFragment \<Rightarrow> toml \<Rightarrow> CloudConfigLayerError + unit" where
  "validate_fragment_strictly ignored_field_error f v =
     (case ignored_field_error (fragment_contents f) v of
        Some message \<Rightarrow> Inl (InvalidFragment f message)
      | None \<Rightarrow> Inr ())"

definition fragment_layer ::
  "(string \<Rightarrow> string + toml) \<Rightarrow> (string \<Rightarrow> toml \<Rightarrow> string option) \<Rightarrow> (toml \<Rightarrow> string + toml) \<Rightarrow> (toml \<Rightarrow> string)
     \<Rightarrow> bool \<Rightarrow> abs_path \<Rightarrow> CloudConfigFragment \<Rightarrow> CloudConfigLayerError + ConfigLayerEntry" where
  "fragment_layer from_str ignored_field_error resolve version strict base_dir f =
     (case from_str (fragment_contents f) of
        Inl message \<Rightarrow> Inl (ParseFragment f message)
      | Inr v \<Rightarrow>
          and_then (if strict then validate_fragment_strictly ignored_field_error f v else Inr ()) (\<lambda>_.
            case resolve v of
              Inl message \<Rightarrow> Inl (InvalidFragment f message)
            | Inr resolved \<Rightarrow>
                Inr (new_with_raw_toml version (EnterpriseManaged (fragment_id f) (fragment_name f)) resolved
                       (fragment_contents f) base_dir)))"

fun collect_fragments ::
  "(CloudConfigFragment \<Rightarrow> CloudConfigLayerError + ConfigLayerEntry) \<Rightarrow> CloudConfigFragment list
     \<Rightarrow> CloudConfigLayerError + ConfigLayerEntry list" where
  "collect_fragments layer [] = Inr []"
| "collect_fragments layer (f # fs) =
     and_then (layer f) (\<lambda>l. and_then (collect_fragments layer fs) (\<lambda>ls. Inr (l # ls)))"

definition cloud_config_layers_from_fragments_impl ::
  "(CloudConfigFragment \<Rightarrow> CloudConfigLayerError + ConfigLayerEntry) \<Rightarrow> CloudConfigFragment list
     \<Rightarrow> CloudConfigLayerError + ConfigLayerEntry list" where
  "cloud_config_layers_from_fragments_impl layer fs = and_then (collect_fragments layer fs) (\<lambda>ls. Inr (rev ls))"

text \<open>The fragments come highest first and the layers lowest first, all with the same precedence.\<close>

lemma collect_fragments_layers:
  "collect_fragments layer fs = Inr ls \<Longrightarrow> list_all2 (\<lambda>f l. layer f = Inr l) fs ls"
  by (induction fs arbitrary: ls) (auto simp: and_then_Inr_iff)

lemma cloud_layers_in_stack_order:
  "cloud_config_layers_from_fragments_impl layer fs = Inr ls \<Longrightarrow> list_all2 (\<lambda>f l. layer f = Inr l) (rev fs) ls"
  by (auto simp: cloud_config_layers_from_fragments_impl_def and_then_Inr_iff list_all2_rev1 dest: collect_fragments_layers)

section \<open>Layers folded onto a base\<close>

text \<open>
  What a stack relies on when it folds its layers: merging a good layer keeps an invariant of the
  merged value, and a lookup in the merged value is the lookup before it, overlaid by the layer.
\<close>

locale layered =
  fixes merge :: "'c \<Rightarrow> 'c \<Rightarrow> 'c"
    and base :: 'c
    and inv :: "'c \<Rightarrow> bool"
    and good :: "'c \<Rightarrow> bool"
  assumes base_inv: "inv base"
    and merge_inv: "inv c \<Longrightarrow> good l \<Longrightarrow> inv (merge c l)"
begin

lemma layers_inv: "\<forall>l \<in> set ls. good l \<Longrightarrow> inv (fold (\<lambda>l c. merge c l) ls base)"
  by (induction ls rule: rev_induct) (simp_all add: base_inv merge_inv)

end

locale layered_lookup = layered merge base inv good
  for merge :: "'c \<Rightarrow> 'c \<Rightarrow> 'c" and base inv good +
  fixes lookup :: "'c \<Rightarrow> 'p \<Rightarrow> 'v option"
    and overlay :: "'c \<Rightarrow> 'p \<Rightarrow> 'v option \<Rightarrow> 'v option"
    and visible :: "'p \<Rightarrow> bool"
  assumes base_lookup: "visible p \<Longrightarrow> lookup base p = None"
    and merge_lookup: "visible p \<Longrightarrow> inv c \<Longrightarrow> good l \<Longrightarrow> lookup (merge c l) p = overlay l p (lookup c p)"
begin

lemma layers_lookup:
  assumes "visible p" "\<forall>l \<in> set ls. good l"
  shows "lookup (fold (\<lambda>l c. merge c l) ls base) p = fold (\<lambda>l. overlay l p) ls None"
  using assms(2)
proof (induction ls rule: rev_induct)
  case (snoc l ls)
  then show ?case using layers_inv[of ls] assms(1) by (simp add: merge_lookup)
qed (simp add: base_lookup assms(1))

end

interpretation config_lookup: layered_lookup "merge_toml_values win lower" "TTable []"
  "\<lambda>c. root_ok c \<and> aliases_resolved c" root_ok setting
  "\<lambda>c p. overlaid (probe (normalized_with_key_aliases c []) p)" quiet for win lower
proof unfold_locales
  show "root_ok (TTable []) \<and> aliases_resolved (TTable [])"
    by (simp add: root_ok_def is_table_def aliases_resolved_iff)
next
  fix p
  assume "quiet p"
  then show "setting (TTable []) p = None" by (cases p) (simp_all add: quiet_def)
qed (simp_all add: root_ok_merge aliases_resolved_merge merge_setting)

interpretation config_policy: layered "merge_toml_values win lower" "TTable []"
  "\<lambda>c. root_ok c \<and> ((\<forall>s. lower (lower s) = lower s) \<longrightarrow> config_policy_sound lower c)"
  "\<lambda>c. root_ok c \<and> config_policy_sound lower c" for win lower
proof unfold_locales
  show "root_ok (TTable []) \<and> ((\<forall>s. lower (lower s) = lower s) \<longrightarrow> config_policy_sound lower (TTable []))"
    by (simp add: root_ok_def is_table_def config_policy_sound_def toml_get_def)
qed (simp add: root_ok_merge merge_config_policy_sound)

section \<open>The effective configuration\<close>

definition layers_ok :: "ConfigLayerEntry list \<Rightarrow> bool" where
  "layers_ok ls \<longleftrightarrow> list_all (\<lambda>l. is_disabled l \<or> root_ok (entry_config l)) ls"

text \<open>What the highest configuration that says anything about a path says, highest first.\<close>

fun decided :: "toml list \<Rightarrow> key_path \<Rightarrow> toml option" where
  "decided [] p = None"
| "decided (c # cs) p = overlaid (probe (normalized_with_key_aliases c []) p) (decided cs p)"

lemma merge_layers_fold:
  "merge_layers win lower ls = fold (\<lambda>l c. merge_toml_values win lower c l) (map entry_config ls) (TTable [])"
  by (simp add: merge_layers_def fold_map comp_def)

lemma decided_fold: "decided cs p = foldr (\<lambda>c. overlaid (probe (normalized_with_key_aliases c []) p)) cs None"
  by (induction cs) simp_all

lemma merge_layers_root:
  "\<forall>l \<in> set ls. root_ok (entry_config l) \<Longrightarrow> root_ok (merge_layers win lower ls)"
  using config_lookup.layers_inv[of "map entry_config ls" win lower] by (simp add: merge_layers_fold)

lemma merge_layers_setting:
  assumes "quiet p" "\<forall>l \<in> set ls. root_ok (entry_config l)"
  shows "setting (merge_layers win lower ls) p = decided (rev (map entry_config ls)) p"
  using config_lookup.layers_lookup[OF assms(1), of "map entry_config ls" win lower] assms(2)
  by (simp add: merge_layers_fold decided_fold foldr_conv_fold)

lemma extend_lookup:
  "distinct (map fst required) \<Longrightarrow>
     map_of (fold (\<lambda>(k, v) p. AList.update k v p) required t) k = (map_of t ++ map_of required) k"
proof (induction required arbitrary: t)
  case (Cons a required)
  obtain k0 v0 where a: "a = (k0, v0)" by (cases a)
  have "map_of required k0 = None" using Cons.prems by (simp add: a map_of_eq_None_iff)
  with Cons show ?case by (auto simp: a update_conv' map_add_def split: option.splits)
qed simp

lemma apply_required_other:
  assumes "p \<noteq> []" "hd p \<noteq> ''model_providers''"
  shows "setting (apply_required_providers config reqs) p = setting config p"
  using assms
  by (cases p) (auto simp: apply_required_providers_def as_table_def Let_def update_conv' split: toml.splits option.splits)

lemma enabled_root_ok:
  "layers_ok (stack_layers s) \<Longrightarrow> \<forall>l \<in> set (layers_low_to_high s). root_ok (entry_config l)"
  by (auto simp: layers_ok_def layers_low_to_high_def list_all_iff)

lemma effective_setting:
  assumes "quiet p" "hd p \<noteq> ''model_providers''" "layers_ok (stack_layers s)"
  shows "setting (effective_config win lower s) p = decided (map entry_config (layers_high_to_low s)) p"
proof -
  have "setting (effective_config win lower s) p = setting (merge_layers win lower (layers_low_to_high s)) p"
    using assms(1,2) by (simp add: effective_config_def Let_def apply_required_other quiet_def split: option.splits)
  also have "\<dots> = decided (rev (map entry_config (layers_low_to_high s))) p"
    by (rule merge_layers_setting[OF assms(1) enabled_root_ok[OF assms(3)]])
  finally show ?thesis by (simp add: layers_high_to_low_def rev_map)
qed

section \<open>The order of the layers\<close>

text \<open>
  What \<open>ConfigLayerStack::new\<close> checks of its layers, for a validation of their contents.
\<close>

definition stack_valid :: "(toml \<Rightarrow> policy_error + unit) \<Rightarrow> ConfigLayerEntry list \<Rightarrow> bool" where
  "stack_valid validate ls \<longleftrightarrow>
     validate_enabled_config_layers validate ls = Inr () \<and> verify_layer_ordering ls = Inr ()"

lemma validate_layers_iff:
  "validate_enabled_config_layers validate ls = Inr () \<longleftrightarrow>
     (\<forall>l \<in> set ls. is_disabled l \<or> validate (entry_config l) = Inr ())"
  by (induction ls) (auto split: sum.splits)

definition project_names :: "ConfigLayerEntry list \<Rightarrow> ConfigLayerSource list" where
  "project_names ls = filter (\<lambda>n. case n of Project _ \<Rightarrow> True | _ \<Rightarrow> False) (map entry_name ls)"

lemma verify_projects_filter:
  "verify_projects prev (filter (\<lambda>n. case n of Project _ \<Rightarrow> True | _ \<Rightarrow> False) names) = verify_projects prev names"
  by (induction prev names rule: verify_projects.induct) (auto split: option.splits)

lemma verify_layer_ordering_iff:
  "verify_layer_ordering ls = Inr () \<longleftrightarrow>
     sorted (map (\<lambda>l. precedence (entry_name l)) ls) \<and> verify_projects None (project_names ls) = Inr ()"
  by (auto simp: verify_layer_ordering_def project_names_def verify_projects_filter source_le_def[abs_def] sorted_wrt_map
      sorted_map)

lemma insert_layer_insort:
  "insert_layer l ls = takeWhile (\<lambda>x. precedence (entry_name x) \<le> precedence (entry_name l)) ls @
     l # dropWhile (\<lambda>x. precedence (entry_name x) \<le> precedence (entry_name l)) ls"
  by (simp add: insert_layer_def Let_def not_less dropWhile_eq_drop)

lemma insert_layer_simps:
  "insert_layer l [] = [l]"
  "insert_layer l (x # ls) =
     (if precedence (entry_name x) \<le> precedence (entry_name l) then x # insert_layer l ls else l # x # ls)"
  by (simp_all add: insert_layer_insort)

lemma set_insert_layer [simp]: "set (insert_layer l ls) = insert l (set ls)"
  by (induction ls) (auto simp: insert_layer_simps)

lemma sorted_insert_layer:
  "sorted (map (\<lambda>l. precedence (entry_name l)) ls) \<Longrightarrow> sorted (map (\<lambda>l. precedence (entry_name l)) (insert_layer l ls))"
  by (induction ls) (auto simp: insert_layer_simps)

lemma filter_insert_layer [simp]: "\<not> P l \<Longrightarrow> filter P (insert_layer l ls) = filter P ls"
  by (induction ls) (auto simp: insert_layer_simps)

lemma filter_insert_top:
  assumes "P l" "\<forall>x \<in> set ls. P x \<longrightarrow> precedence (entry_name x) \<le> precedence (entry_name l)"
    "sorted (map (\<lambda>l. precedence (entry_name l)) ls)"
  shows "filter P (insert_layer l ls) = filter P ls @ [l]"
  using assms
proof (induction ls)
  case (Cons x ls)
  show ?case
  proof (cases "precedence (entry_name x) \<le> precedence (entry_name l)")
    case False
    with Cons.prems have "\<forall>y \<in> set (x # ls). \<not> P y" by fastforce
    with False Cons.prems show ?thesis by (simp add: insert_layer_simps)
  qed (use Cons in \<open>simp add: insert_layer_simps\<close>)
qed (simp add: insert_layer_simps)

lemma set_remove_first: "set (remove_first P xs) \<subseteq> set xs"
  by (induction xs) auto

lemma filter_remove_first: "(\<And>x. P x \<Longrightarrow> \<not> Q x) \<Longrightarrow> filter Q (remove_first P xs) = filter Q xs"
  by (induction xs) auto

lemma sorted_remove_first:
  assumes "sorted (map f xs)"
  shows "sorted (map f (remove_first P xs))"
  using assms
proof (induction xs)
  case (Cons x xs)
  with set_remove_first[of P xs] show ?case by auto
qed simp

lemma fold_insert_layers:
  assumes "sorted (map (\<lambda>l. precedence (entry_name l)) ls)" "sorted (map (\<lambda>l. precedence (entry_name l)) us)"
    "\<forall>u \<in> set us. P u" "\<forall>l \<in> set ls. \<not> P l"
  shows "sorted (map (\<lambda>l. precedence (entry_name l)) (fold insert_layer us ls)) \<and>
    filter P (fold insert_layer us ls) = us \<and> filter (\<lambda>l. \<not> P l) (fold insert_layer us ls) = ls \<and>
    set (fold insert_layer us ls) = set us \<union> set ls"
  using assms
proof (induction us rule: rev_induct)
  case (snoc u us)
  let ?ls = "fold insert_layer us ls"
  have IH: "sorted (map (\<lambda>l. precedence (entry_name l)) ?ls)" "filter P ?ls = us" "filter (\<lambda>l. \<not> P l) ?ls = ls"
    "set ?ls = set us \<union> set ls"
    using snoc by (auto simp: sorted_append)
  have "filter P (insert_layer u ?ls) = filter P ?ls @ [u]"
    using snoc.prems IH by (intro filter_insert_top IH(1)) (auto simp: sorted_append)
  with IH snoc.prems show ?case by (simp add: sorted_insert_layer)
qed (auto simp: filter_id_conv filter_empty_conv)

lemma user_not_project: "is_user n \<Longrightarrow> \<not> (case n of Project _ \<Rightarrow> True | _ \<Rightarrow> False)"
  by (auto simp: is_user_def split: ConfigLayerSource.splits)

lemma project_names_filter:
  "project_names ls = map entry_name (filter (\<lambda>l. case entry_name l of Project _ \<Rightarrow> True | _ \<Rightarrow> False) ls)"
  by (simp add: project_names_def filter_map comp_def)

lemma project_names_not_user: "project_names (filter (\<lambda>l. \<not> is_user (entry_name l)) ls) = project_names ls"
proof -
  have "filter (\<lambda>l. case entry_name l of Project _ \<Rightarrow> True | _ \<Rightarrow> False) (filter (\<lambda>l. \<not> is_user (entry_name l)) ls) =
      filter (\<lambda>l. case entry_name l of Project _ \<Rightarrow> True | _ \<Rightarrow> False) ls"
    using user_not_project by (auto simp: intro!: filter_cong)
  then show ?thesis by (simp add: project_names_filter)
qed

lemma stack_valid_with_user_config_profile:
  assumes valid: "stack_valid validate (stack_layers s)"
    and step: "with_user_config_profile validate version s file profile config = Inr s'"
  shows "stack_valid validate (stack_layers s')"
proof -
  define l where "l = new_entry version (User file profile) config"
  let ?rest = "remove_first (is_user_file file) (stack_layers s)"
  have s': "stack_layers s' = insert_layer l ?rest" and l: "validate_enabled_config_layers validate [l] = Inr ()"
    using step by (auto simp: with_user_config_profile_def Let_def l_def and_then_Inr_iff)
  have user: "is_user (entry_name l)" by (simp add: l_def new_entry_def is_user_def)
  have rest: "set ?rest \<subseteq> set (stack_layers s)" by (rule set_remove_first)
  have "project_names (insert_layer l ?rest) = project_names (stack_layers s)"
    unfolding project_names_filter using user_not_project[OF user]
    by (subst filter_insert_layer, simp, subst filter_remove_first)
       (auto simp: is_user_file_def split: ConfigLayerSource.splits)
  with valid l rest show ?thesis
    unfolding stack_valid_def s' verify_layer_ordering_iff validate_layers_iff
    by (auto intro!: sorted_insert_layer sorted_remove_first)
qed

lemma with_user_layer_from_layers:
  assumes valid: "stack_valid validate (stack_layers s)" "stack_valid validate (stack_layers other)"
  defines "r \<equiv> stack_layers (with_user_layer_from s other)"
  shows "stack_valid validate r \<and>
    filter (\<lambda>l. is_user (entry_name l)) r = filter (\<lambda>l. is_user (entry_name l)) (stack_layers other) \<and>
    filter (\<lambda>l. \<not> is_user (entry_name l)) r = filter (\<lambda>l. \<not> is_user (entry_name l)) (stack_layers s)"
proof -
  let ?us = "filter (\<lambda>l. is_user (entry_name l)) (stack_layers other)"
  let ?ls = "filter (\<lambda>l. \<not> is_user (entry_name l)) (stack_layers s)"
  have r: "r = fold insert_layer ?us ?ls" by (simp add: r_def with_user_layer_from_def)
  have sorted: "sorted (map (\<lambda>l. precedence (entry_name l)) (stack_layers s))"
    "sorted (map (\<lambda>l. precedence (entry_name l)) (stack_layers other))"
    using valid by (auto simp: stack_valid_def verify_layer_ordering_iff)
  have "sorted (map (\<lambda>l. precedence (entry_name l)) r) \<and> filter (\<lambda>l. is_user (entry_name l)) r = ?us \<and>
      filter (\<lambda>l. \<not> is_user (entry_name l)) r = ?ls \<and> set r = set ?us \<union> set ?ls"
    unfolding r by (rule fold_insert_layers) (auto intro: sorted_filter sorted)
  then have merged: "sorted (map (\<lambda>l. precedence (entry_name l)) r)" "filter (\<lambda>l. is_user (entry_name l)) r = ?us"
    "filter (\<lambda>l. \<not> is_user (entry_name l)) r = ?ls" "set r = set ?us \<union> set ?ls"
    by blast+
  have "project_names r = project_names (filter (\<lambda>l. \<not> is_user (entry_name l)) r)"
    by (rule project_names_not_user[symmetric])
  also have "\<dots> = project_names (stack_layers s)" unfolding merged(3) by (rule project_names_not_user)
  finally have "verify_layer_ordering r = Inr ()"
    using merged(1) valid(1) by (simp add: stack_valid_def verify_layer_ordering_iff)
  moreover have "validate_enabled_config_layers validate r = Inr ()"
    using merged(4) valid by (auto simp: stack_valid_def validate_layers_iff)
  ultimately show ?thesis using merged(2,3) by (simp add: stack_valid_def)
qed

section \<open>The policy of the effective configuration\<close>

text \<open>
  What the derived deserializer promises of the filter fields of a table: an optional field is
  present exactly when its key is, and the filters are read from a table with the same keys.
\<close>

definition reads_filter_fields :: "(toml_table \<Rightarrow> string + ShellEnvironmentPolicyToml) \<Rightarrow> bool" where
  "reads_filter_fields de \<longleftrightarrow>
     (\<forall>t p. de t = Inr p \<longrightarrow>
        (toml_exclude p = None \<longleftrightarrow> map_of t ''exclude'' = None) \<and>
        (toml_include_only p = None \<longleftrightarrow> map_of t ''include_only'' = None) \<and>
        (toml_filters p = None \<longleftrightarrow> map_of t ''filters'' = None) \<and>
        (\<forall>fs. toml_filters p = Some fs \<longrightarrow>
           (\<exists>f. map_of t ''filters'' = Some (TTable f) \<and> mset (map fst fs) = mset (map fst f))))"

lemma filter_fields_lookup:
  "map_of (filter_fields t) ''exclude'' = map_of t ''exclude''"
  "map_of (filter_fields t) ''include_only'' = map_of t ''include_only''"
  "map_of (filter_fields t) ''filters'' = map_of t ''filters''"
  by (simp_all add: filter_fields_def List.map_filter_simps split: option.splits)

lemma first_duplicate_None:
  "first_duplicate lower seen ps = None \<longleftrightarrow> distinct (map lower ps) \<and> set (map lower ps) \<inter> set seen = {}"
  by (induction lower seen ps rule: first_duplicate.induct) auto

lemma validated_policy_sound:
  assumes "reads_filter_fields de" "validate_shell_environment_policy_filter_config lower de v = Inr ()"
  shows "is_table v \<and> config_policy_sound lower v"
proof -
  obtain root where root: "v = TTable root"
    using assms(2) by (auto simp: validate_shell_environment_policy_filter_config_def as_table_def split: toml.splits)
  have "one_representation t \<and> filters_unique lower t" if t: "map_of root SEP = Some (TTable t)" for t
  proof -
    from assms(2) root t obtain p where p: "deserialize_policy lower de (filter_fields t) = Inr p"
      by (auto simp: validate_shell_environment_policy_filter_config_def as_table_def split: sum.splits)
    then have de: "de (filter_fields t) = Inr p"
      and mixed: "\<not> (toml_filters p \<noteq> None \<and> (toml_exclude p \<noteq> None \<or> toml_include_only p \<noteq> None))"
      and uniq: "\<And>fs. toml_filters p = Some fs \<Longrightarrow> distinct (map lower (map fst fs))"
      by (auto simp: deserialize_policy_def first_duplicate_None split: sum.splits if_splits option.splits)
    note rd = assms(1)[unfolded reads_filter_fields_def, rule_format, OF de]
    have "one_representation t"
      using mixed rd by (auto simp: one_representation_def filter_fields_lookup)
    moreover have "filters_unique lower t"
    proof (cases "toml_filters p")
      case None
      with rd show ?thesis by (auto simp: filters_unique_def filter_fields_lookup)
    next
      case (Some fs)
      with rd obtain f where f: "map_of t ''filters'' = Some (TTable f)" "mset (map fst fs) = mset (map fst f)"
        by (auto simp: filter_fields_lookup)
      then have "mset (map lower (map fst fs)) = mset (map lower (map fst f))" by (metis mset_map)
      then have "distinct (map lower (map fst f))" using uniq[OF Some] mset_eq_imp_distinct_iff by blast
      with f show ?thesis by (simp add: filters_unique_def)
    qed
    ultimately show ?thesis by blast
  qed
  then show ?thesis
    by (auto simp: root is_table_def config_policy_sound_def toml_get_def policy_sound_def split: option.splits toml.splits)
qed

lemma sound_policy_rejection:
  assumes "reads_filter_fields de" "is_table v" "config_policy_sound lower v"
    "validate_shell_environment_policy_filter_config lower de v = Inl e"
  shows "\<exists>message. e = FieldError message"
proof -
  obtain root t where v: "v = TTable root" "map_of root SEP = Some (TTable t)"
      and e: "deserialize_policy lower de (filter_fields t) = Inl e"
    using assms(2,4)
    by (auto simp: validate_shell_environment_policy_filter_config_def as_table_def is_table_def
        split: toml.splits option.splits sum.splits)
  have t: "one_representation t" "filters_unique lower t"
    using assms(3) v by (auto simp: config_policy_sound_def toml_get_def policy_sound_def)
  show ?thesis
  proof (cases "de (filter_fields t)")
    case (Inl m)
    with e show ?thesis by (auto simp: deserialize_policy_def)
  next
    case (Inr p)
    note rd = assms(1)[unfolded reads_filter_fields_def, rule_format, OF Inr, unfolded filter_fields_lookup]
    have "\<not> (toml_filters p \<noteq> None \<and> (toml_exclude p \<noteq> None \<or> toml_include_only p \<noteq> None))"
      using t(1) rd by (auto simp: one_representation_def)
    with e Inr obtain fs where fs: "toml_filters p = Some fs" "first_duplicate lower [] (map fst fs) \<noteq> None"
      by (auto simp: deserialize_policy_def split: if_splits option.splits)
    from rd fs(1) obtain f where f: "map_of t ''filters'' = Some (TTable f)" "mset (map fst fs) = mset (map fst f)" by auto
    then have "mset (map lower (map fst fs)) = mset (map lower (map fst f))" by (metis mset_map)
    moreover have "distinct (map lower (map fst f))" using t(2) f(1) by (simp add: filters_unique_def)
    ultimately have "distinct (map lower (map fst fs))" using mset_eq_imp_distinct_iff by blast
    with fs(2) show ?thesis by (simp add: first_duplicate_None del: map_map)
  qed
qed

lemma merge_layers_policy_sound:
  assumes "\<And>s. lower (lower s) = lower s"
    "\<forall>l \<in> set ls. root_ok (entry_config l) \<and> config_policy_sound lower (entry_config l)"
  shows "config_policy_sound lower (merge_layers win lower ls)"
  using config_policy.layers_inv[of "map entry_config ls" lower win] assms by (simp add: merge_layers_fold)

lemma apply_required_policy:
  "config_policy_sound lower (apply_required_providers config reqs) = config_policy_sound lower config"
  by (auto simp: config_policy_sound_def apply_required_providers_def as_table_def toml_get_def Let_def update_conv'
      split: toml.splits option.splits)

text \<open>The stacks that the constructor and the updates of a stack make out of well-formed values.\<close>

inductive stack_reachable ::
  "(toml \<Rightarrow> policy_error + unit) \<Rightarrow> ('p \<Rightarrow> stack_error + toml) \<Rightarrow> (toml \<Rightarrow> string) \<Rightarrow> ('r, 'p) ConfigLayerStack \<Rightarrow> bool"
  for validate project_requirements version where
  created: "new_stack validate project_requirements ls r p = Inr s \<Longrightarrow> \<forall>l \<in> set ls. toml_ok (entry_config l) \<Longrightarrow>
    stack_reachable validate project_requirements version s"
| profile_written: "stack_reachable validate project_requirements version s \<Longrightarrow> toml_ok config \<Longrightarrow>
    with_user_config_profile validate version s file profile config = Inr s' \<Longrightarrow>
    stack_reachable validate project_requirements version s'"
| user_written: "stack_reachable validate project_requirements version s \<Longrightarrow> toml_ok config \<Longrightarrow>
    with_user_config validate version s file config = Inr s' \<Longrightarrow>
    stack_reachable validate project_requirements version s'"
| user_copied: "stack_reachable validate project_requirements version s \<Longrightarrow>
    stack_reachable validate project_requirements version other \<Longrightarrow>
    stack_reachable validate project_requirements version (with_user_layer_from s other)"
| rules_ignored: "stack_reachable validate project_requirements version s \<Longrightarrow>
    stack_reachable validate project_requirements version (with_user_and_project_exec_policy_rules_ignored b s)"
| warned: "stack_reachable validate project_requirements version s \<Longrightarrow>
    stack_reachable validate project_requirements version (with_startup_warnings ws s)"

lemma new_stack_layers:
  "new_stack validate project_requirements ls r p = Inr s \<Longrightarrow> stack_layers s = ls \<and> stack_valid validate ls"
  by (auto simp: new_stack_def and_then_Inr_iff stack_valid_def)

lemma with_user_config_profile_set:
  "with_user_config_profile validate version s file profile config = Inr s' \<Longrightarrow>
     set (stack_layers s') \<subseteq> insert (new_entry version (User file profile) config) (set (stack_layers s))"
  using set_remove_first[of "is_user_file file" "stack_layers s"]
  by (auto simp: with_user_config_profile_def Let_def and_then_Inr_iff)

lemma with_user_layer_from_set:
  "set (stack_layers (with_user_layer_from s other)) \<subseteq> set (stack_layers s) \<union> set (stack_layers other)"
proof -
  have "set (fold insert_layer us ls) = set us \<union> set ls" for us ls by (induction us arbitrary: ls) auto
  then show ?thesis by (auto simp: with_user_layer_from_def)
qed

lemma reachable_valid:
  assumes "stack_reachable validate project_requirements version s"
  shows "stack_valid validate (stack_layers s) \<and> (\<forall>l \<in> set (stack_layers s). toml_ok (entry_config l))"
  using assms
proof induction
  case (created ls r p s)
  then show ?case by (auto dest: new_stack_layers)
next
  case (profile_written s config f profile s')
  then show ?case
    using stack_valid_with_user_config_profile[of validate s version f profile config s']
    by (auto simp: new_entry_def dest!: with_user_config_profile_set)
next
  case (user_written s config f s')
  then obtain profile where "with_user_config_profile validate version s f profile config = Inr s'"
    by (auto simp: with_user_config_def Let_def)
  with user_written show ?case
    using stack_valid_with_user_config_profile[of validate s version f profile config s']
    by (auto simp: new_entry_def dest!: with_user_config_profile_set)
next
  case (user_copied s other)
  then show ?case
    using with_user_layer_from_layers[of validate s other] with_user_layer_from_set[of s other] by blast
qed (simp_all add: with_user_and_project_exec_policy_rules_ignored_def with_startup_warnings_def)

lemma effective_is_table:
  assumes "layers_ok (stack_layers s)"
  shows "is_table (effective_config win lower s)"
proof -
  have "is_table (merge_layers win lower (layers_low_to_high s))"
    using merge_layers_root[OF enabled_root_ok[OF assms]] by (simp add: root_ok_def)
  then show ?thesis
    by (auto simp: effective_config_def Let_def apply_required_providers_def as_table_def is_table_def
        split: option.splits toml.splits)
qed

lemma reachable_policy_sound:
  assumes "reads_filter_fields de" "\<And>t. lower (lower t) = lower t"
    "stack_reachable (validate_shell_environment_policy_filter_config lower de) project_requirements version s"
  shows "layers_ok (stack_layers s) \<and> config_policy_sound lower (effective_config win lower s)"
proof -
  have valid: "is_disabled l \<or> root_ok (entry_config l) \<and> config_policy_sound lower (entry_config l)"
    if "l \<in> set (stack_layers s)" for l
    using reachable_valid[OF assms(3)] that validated_policy_sound[OF assms(1)]
    by (auto simp: stack_valid_def validate_layers_iff root_ok_def)
  then have "config_policy_sound lower (merge_layers win lower (layers_low_to_high s))"
    by (intro merge_layers_policy_sound[OF assms(2)]) (auto simp: layers_low_to_high_def)
  with valid show ?thesis
    by (auto simp: layers_ok_def list_all_iff effective_config_def Let_def apply_required_policy split: option.splits)
qed

section \<open>Versions do not depend on the order of keys\<close>

text \<open>Equality of JSON values up to the order of the keys of objects.\<close>

inductive json_same :: "json \<Rightarrow> json \<Rightarrow> bool" where
  same_refl: "json_same v v"
| same_array: "list_all2 json_same xs ys \<Longrightarrow> json_same (JArray xs) (JArray ys)"
| same_object: "distinct (map fst m) \<Longrightarrow> distinct (map fst n) \<Longrightarrow> set (map fst m) = set (map fst n) \<Longrightarrow>
    (\<And>k v w. map_of m k = Some v \<Longrightarrow> map_of n k = Some w \<Longrightarrow> json_same v w) \<Longrightarrow>
    json_same (JObject m) (JObject n)"

lemma canonical_json_same: "json_same v w \<Longrightarrow> canonical_json v = canonical_json w"
proof (induction rule: json_same.induct)
  case (same_array xs ys)
  then have "map canonical_json xs = map canonical_json ys" by (induction rule: list_all2_induct) auto
  then show ?case by simp
next
  case (same_object m n)
  have keys: "sort (map fst m) = sort (map fst n)"
    using same_object(1-3) by (intro sorted_distinct_set_unique) auto
  have "map_option canonical_json (map_of m k) = map_option canonical_json (map_of n k)" for k
  proof (cases "map_of m k")
    case None
    then show ?thesis using same_object(3) by (metis list.set_map map_of_eq_None_iff option.simps(8))
  next
    case (Some v)
    then obtain w where "map_of n k = Some w"
      using same_object(3) by (metis list.set_map map_of_eq_None_iff not_None_eq)
    with Some same_object(5) show ?thesis by simp
  qed
  moreover have "canonical_json (JObject m) = JObject (fold (\<lambda>key acc.
      case map_option canonical_json (map_of m key) of Some v \<Rightarrow> AList.update key v acc | None \<Rightarrow> acc) (sort (map fst m)) [])" for m
    by (auto intro!: fold_cong split: option.splits)
  ultimately show ?case by (simp only: keys)
qed simp

section \<open>Origins name the layer of a setting\<close>

text \<open>Dotted keys are unambiguous when no segment has a dot.\<close>

definition dot_free :: "key_path \<Rightarrow> bool" where
  "dot_free p \<longleftrightarrow> (\<forall>k \<in> set p. CHR ''.'' \<notin> set k)"

fun keys_plain :: "toml \<Rightarrow> bool" where
  "keys_plain (TTable t) = list_all (\<lambda>(k, v). CHR ''.'' \<notin> set k \<and> keys_plain v) t"
| "keys_plain (TArray xs) = list_all keys_plain xs"
| "keys_plain _ = True"

definition is_scalar :: "toml \<Rightarrow> bool" where
  "is_scalar v = (case v of TTable _ \<Rightarrow> False | TArray _ \<Rightarrow> False | _ \<Rightarrow> True)"

lemma dotted_split: "p \<noteq> [] \<Longrightarrow> dot_free p \<Longrightarrow> split_on (CHR ''.'') (dotted p) = p"
  unfolding dotted_def dot_free_def by (rule split_join_with) auto

lemma show_nat_dot_free: "CHR ''.'' \<notin> set (show_nat n)"
proof (induction n rule: show_nat.induct)
  case (1 n)
  have "CHR ''.'' \<noteq> digit_char d" if "d < 10" for d
  proof
    assume "CHR ''.'' = digit_char d"
    then have "(of_char (digit_char d) :: nat) = of_char (CHR ''.'')" by (simp only:)
    with that show False by (simp add: digit_char_def)
  qed
  from this[of n] this[of "n mod 10"] 1 show ?case by (subst show_nat.simps) simp
qed

lemma origin_keys_scalar: "is_scalar v \<Longrightarrow> origin_keys include v path = leaf_origin_keys include v path"
  by (cases v) (auto simp: is_scalar_def)

lemma origin_keys_setting:
  assumes "setting v p = Some x" "is_scalar x" "path @ p \<noteq> []" "\<not> is_structured_feature_path (path @ p)"
  shows "dotted (path @ p) \<in> set (origin_keys (\<lambda>_. True) v path)"
  using assms
proof (induction p arbitrary: v path)
  case Nil
  then show ?case
    by (auto simp: origin_keys_scalar leaf_origin_keys_def split: if_splits toml.splits)
next
  case (Cons k p)
  then obtain t c where t: "v = TTable t" "map_of t k = Some c" "setting c p = Some x"
    by (cases v) (auto simp: setting_not_table is_table_def split: option.splits)
  then have "(k, c) \<in> set t" by (auto dest: map_of_SomeD)
  moreover have "dotted (path @ k # p) \<in> set (origin_keys (\<lambda>_. True) c (path @ [k]))"
    using Cons.IH[of c "path @ [k]"] t Cons.prems by simp
  ultimately show ?case by (force simp: t(1))
qed

definition says_setting :: "answer \<Rightarrow> bool" where
  "says_setting a \<longleftrightarrow> a = Shadowed \<or> (\<exists>x. a = Setting x)"

lemma probe_not_table: "\<not> is_table v \<Longrightarrow> says_setting (probe v q)"
  by (cases q) (auto simp: is_table_def says_setting_def split: toml.splits)

lemma leaf_origin_keysE:
  assumes "key \<in> set (leaf_origin_keys include v path)"
  obtains q where "key = dotted (path @ q)" "dot_free q" "path @ q \<noteq> []"
proof -
  from assms have "path \<noteq> []" and "key = dotted (path @ []) \<or> key = dotted (path @ [''enabled''])"
    by (auto simp: leaf_origin_keys_def split: if_splits toml.splits)
  then show ?thesis using that[of "[]"] that[of "[''enabled'']"] by (auto simp: dot_free_def)
qed

lemma origin_keys_path:
  assumes "key \<in> set (origin_keys inc v path)" "keys_plain v" "toml_ok v"
  shows "\<exists>q. key = dotted (path @ q) \<and> dot_free q \<and> path @ q \<noteq> [] \<and> says_setting (probe v q)"
  using assms
proof (induction inc v path rule: origin_keys.induct)
  case (1 inc t path)
  then obtain k c where kc: "(k, c) \<in> set t" "key \<in> set (origin_keys inc c (path @ [k]))" by auto
  with "1.prems" have c: "keys_plain c" "toml_ok c" "CHR ''.'' \<notin> set k" "map_of t k = Some c"
    by (force simp: list_all_iff table_ok_def)+
  then obtain q where "key = dotted ((path @ [k]) @ q)" "dot_free q" "says_setting (probe c q)"
    using "1.IH"[OF kc(1) refl kc(2)] by blast
  with c show ?case by (intro exI[of _ "k # q"]) (auto simp: dot_free_def)
next
  case (2 inc items path)
  then obtain i c where ic: "(i, c) \<in> set (enumerate 0 items)" "key \<in> set (origin_keys inc c (path @ [show_nat i]))"
    by auto
  then have "c \<in> set items" by (auto simp: in_set_enumerate_eq)
  with "2.prems" have "keys_plain c" "toml_ok c" by (auto simp: list_all_iff)
  then obtain q where q: "key = dotted ((path @ [show_nat i]) @ q)" "dot_free q"
    using "2.IH"[OF ic(1) refl ic(2)] by blast
  moreover have "says_setting (probe (TArray items) (show_nat i # q))"
    by (rule probe_not_table) (simp add: is_table_def)
  ultimately show ?case
    by (intro exI[of _ "show_nat i # q"]) (auto simp: dot_free_def show_nat_dot_free)
qed (auto elim!: leaf_origin_keysE intro!: probe_not_table simp: is_table_def)

text \<open>The layers after the one that set a path last leave its origin alone.\<close>

definition config_keys :: "ConfigLayerEntry \<Rightarrow> string set" where
  "config_keys l = set (origin_keys (\<lambda>_. True) (normalized_with_key_aliases (entry_config l) []) [])"

lemma record_origins_lookup:
  "record_origins v meta path m include key = (if key \<in> set (origin_keys include v path) then Some meta else m key)"
proof -
  have "fold (\<lambda>key m. m(key \<mapsto> meta)) ks m key = (if key \<in> set ks then Some meta else m key)" for ks
    by (induction ks arbitrary: m) auto
  then show ?thesis by (simp add: record_origins_def)
qed

definition layer_origins :: "ConfigLayerEntry list \<Rightarrow> (string \<rightharpoonup> ConfigLayerMetadata)" where
  "layer_origins ls =
     fold (\<lambda>l m. record_origins (normalized_with_key_aliases (entry_config l) []) (metadata l) [] m (\<lambda>_. True)) ls Map.empty"

lemma layer_origins_snoc:
  "layer_origins (ls @ [l]) key = (if key \<in> config_keys l then Some (metadata l) else layer_origins ls key)"
  by (simp add: layer_origins_def record_origins_lookup config_keys_def)

lemma zip_map_fold: "fold (\<lambda>(l, c) m. f l c m) (zip ls (map g ls)) a = fold (\<lambda>l m. f l (g l) m) ls a"
  by (induction ls arbitrary: a) auto

lemma quiet_not_structured: "quiet p \<Longrightarrow> \<not> is_structured_feature_path p"
  by (drule quiet_inert) (rule inert_paths)

definition layer_plain :: "ConfigLayerEntry \<Rightarrow> bool" where
  "layer_plain l \<longleftrightarrow> root_ok (entry_config l) \<and> keys_plain (normalized_with_key_aliases (entry_config l) [])"

lemma config_keys_probe:
  assumes "layer_plain l" "dotted p \<in> config_keys l" "p \<noteq> []" "dot_free p"
  shows "says_setting (probe (normalized_with_key_aliases (entry_config l) []) p)"
proof -
  have "toml_ok (normalized_with_key_aliases (entry_config l) [])"
    using assms(1) by (simp add: layer_plain_def root_ok_def toml_ok_normalized)
  with assms obtain q where q: "dotted p = dotted q" "dot_free q" "q \<noteq> []"
      "says_setting (probe (normalized_with_key_aliases (entry_config l) []) q)"
    using origin_keys_path[of "dotted p" "\<lambda>_. True" "normalized_with_key_aliases (entry_config l) []" "[]"]
    by (auto simp: config_keys_def layer_plain_def)
  with assms(3,4) have "p = q" by (metis dotted_split)
  with q show ?thesis by simp
qed

lemma layer_origins_decided:
  assumes "quiet p" "dot_free p" "\<forall>l \<in> set ls. layer_plain l"
    "decided (rev (map entry_config ls)) p = Some x" "is_scalar x"
  shows "\<exists>l \<in> set ls. layer_origins ls (dotted p) = Some (metadata l) \<and>
    setting (normalized_with_key_aliases (entry_config l) []) p = Some x"
  using assms(3,4)
proof (induction ls rule: rev_induct)
  case (snoc l ls)
  have p: "p \<noteq> []" using assms(1) by (simp add: quiet_def)
  let ?c = "normalized_with_key_aliases (entry_config l) []"
  show ?case
  proof (cases "probe ?c p")
    case (Setting y)
    with snoc.prems have set: "setting ?c p = Some x" by (simp add: overlaid_def setting_def)
    then have "dotted p \<in> config_keys l"
      using origin_keys_setting[of ?c p x "[]"] assms(1,5) p quiet_not_structured by (simp add: config_keys_def)
    with set show ?thesis by (auto simp: layer_origins_snoc)
  next
    case Unset
    then have "dotted p \<notin> config_keys l"
      using config_keys_probe[of l p] snoc.prems(1) p assms(2) by (auto simp: says_setting_def)
    with Unset snoc show ?thesis by (auto simp: layer_origins_snoc overlaid_def)
  qed (use snoc.prems in \<open>auto simp: overlaid_def\<close>)
qed simp

lemma provider_path_root:
  assumes "pre \<in> set (provider_paths cs)" "prefix pre (dotted p)" "p \<noteq> []" "dot_free p"
  shows "hd p = ''features'' \<or> hd p = ''profiles''"
proof -
  have "prefix (''features'' @ ''.'') pre \<or> prefix (''profiles'' @ ''.'') pre"
    using assms(1) by (auto simp: provider_paths_def split: option.splits)
  then obtain r where r: "r = ''features'' \<or> r = ''profiles''" and "prefix (r @ ''.'') (dotted p)"
    using assms(2) prefix_order.trans by blast
  then obtain z where "CHR ''.'' \<notin> set r" "dotted p = r @ CHR ''.'' # z" by (auto simp: prefix_def)
  then have "hd (split_on (CHR ''.'') (dotted p)) = r" by (simp add: split_on_append)
  then show ?thesis using dotted_split[OF assms(3,4)] r by simp
qed

lemma origins_quiet:
  assumes "quiet p" "dot_free p"
  shows "origins win lower s (dotted p) = layer_origins (layers_low_to_high s) (dotted p)"
proof -
  have "\<not> prefix pre (dotted p)" if "pre \<in> set (provider_paths cs)" for pre cs
    using provider_path_root[OF that _ _ assms(2)] assms(1) by (auto simp: quiet_def special_roots_def)
  then show ?thesis
    by (auto simp: origins_def origins_with_path_filter_def Let_def zip_map_fold layer_origins_def list_ex_iff)
qed

section \<open>Properties\<close>


definition sample_layers :: "ConfigLayerEntry list" where
  "sample_layers =
     [new_entry (\<lambda>_. ''v'') (System [''etc'']) (TTable [(''model'', TString ''a''), (''agents'', TTable [(''max_threads'', TInteger 4)])]),
      new_disabled (\<lambda>_. ''v'') (User [''home''] None) (TTable [(''model'', TString ''x'')]) ''off'',
      new_entry (\<lambda>_. ''v'') SessionFlags (TTable [(''agents'', TTable [(''max_concurrent_threads_per_session'', TInteger 7)])])]"

definition sample_stack :: "(unit, unit) ConfigLayerStack" where
  "sample_stack =
     \<lparr>model_provider_requirements = None, stack_layers = sample_layers, requirements = (), requirements_toml = (),
      ignore_user_and_project_exec_policy_rules = False, startup_warnings = None, is_projectless = False\<rparr>"

lemma sample_stack_ok: "layers_ok (stack_layers sample_stack)"
  by code_simp


text \<open>
  C12: Whatever stacks are created, written to and combined, the layers of a stack are in order of
  precedence, its project layers lead from the root to the working directory, and every enabled
  layer passes the validation. Copying the user layers of another stack replaces exactly those.
\<close>

theorem stack_stays_ordered:
  assumes "stack_reachable validate project_requirements version s"
    "stack_reachable validate project_requirements version other"
  shows "sorted (map (\<lambda>l. precedence (entry_name l)) (stack_layers s)) \<and> verify_layer_ordering (stack_layers s) = Inr () \<and>
    list_all (\<lambda>l. is_disabled l \<or> validate (entry_config l) = Inr ()) (stack_layers s) \<and>
    filter (\<lambda>l. is_user (entry_name l)) (stack_layers (with_user_layer_from s other)) =
      filter (\<lambda>l. is_user (entry_name l)) (stack_layers other) \<and>
    filter (\<lambda>l. \<not> is_user (entry_name l)) (stack_layers (with_user_layer_from s other)) =
      filter (\<lambda>l. \<not> is_user (entry_name l)) (stack_layers s)"
proof -
  have "stack_valid validate (stack_layers s)" "stack_valid validate (stack_layers other)"
    using assms by (auto dest: reachable_valid)
  with with_user_layer_from_layers[of validate s other] show ?thesis
    by (auto simp: stack_valid_def verify_layer_ordering_iff validate_layers_iff list_all_iff)
qed

lemma sample_stack_reachable:
  "stack_reachable (\<lambda>_. Inr ()) (\<lambda>_. Inr (TTable [])) (\<lambda>_. ''v'') (sample_stack\<lparr>model_provider_requirements := Some (TTable [])\<rparr>)"
proof (rule stack_reachable.created[of _ _ sample_layers "()" "()"])
  show "new_stack (\<lambda>_. Inr ()) (\<lambda>_. Inr (TTable [])) sample_layers () () =
    Inr (sample_stack\<lparr>model_provider_requirements := Some (TTable [])\<rparr>)"
    by (simp add: new_stack_def sample_stack_def sample_layers_def new_entry_def new_disabled_def is_disabled_def
        verify_layer_ordering_def source_le_def)
  show "\<forall>l \<in> set sample_layers. toml_ok (entry_config l)"
    by (simp add: sample_layers_def new_entry_def new_disabled_def table_ok_def)
qed

theorem stack_stays_ordered_witness:
  "sorted (map (\<lambda>l. precedence (entry_name l)) (stack_layers (sample_stack\<lparr>model_provider_requirements := Some (TTable [])\<rparr>)))"
  using stack_stays_ordered[OF sample_stack_reachable sample_stack_reachable] by blast

text \<open>
  C11: The shell environment policy of the effective configuration never mixes the keyed filters with
  the legacy arrays and never has two filters that are equal ignoring case, although layers use
  either representation and any spelling: reading it back cannot be rejected for one of these.
\<close>

theorem effective_policy_consistent:
  assumes "reads_filter_fields de" "\<And>t. lower (lower t) = lower t"
    "stack_reachable (validate_shell_environment_policy_filter_config lower de) project_requirements version s"
  shows "validate_shell_environment_policy_filter_config lower de (effective_config win lower s)
    \<in> insert (Inr ()) (range (\<lambda>message. Inl (FieldError message)))"
  using reachable_policy_sound[OF assms(1-3), of win] effective_is_table[of s win lower]
    sound_policy_rejection[OF assms(1), of "effective_config win lower s" lower]
  by (cases "validate_shell_environment_policy_filter_config lower de (effective_config win lower s)") auto

text \<open>Deserializers of the three fields, and a stack of one layer in each representation.\<close>

definition read_field :: "(toml \<Rightarrow> 'a option) \<Rightarrow> toml_table \<Rightarrow> string \<Rightarrow> string + 'a option" where
  "read_field read t key =
     (case map_of t key of
        None \<Rightarrow> Inr None
      | Some v \<Rightarrow> (case read v of None \<Rightarrow> Inl ''invalid type'' | Some a \<Rightarrow> Inr (Some a)))"

definition read_strings :: "toml \<Rightarrow> string list option" where
  "read_strings v = Option.bind (as_array v) (\<lambda>xs. those (map toml_str xs))"

definition read_filters :: "toml \<Rightarrow> (string \<times> ShellEnvironmentPolicyFilter) list option" where
  "read_filters v = Option.bind (as_table v) (\<lambda>f.
     if list_all (\<lambda>(k, v). v = TString ''include'' \<or> v = TString ''exclude'') f
     then Some (map (\<lambda>(k, v). (k, if v = TString ''include'' then Include else Exclude)) f) else None)"

definition sample_de :: "toml_table \<Rightarrow> string + ShellEnvironmentPolicyToml" where
  "sample_de t =
     and_then (read_field read_strings t ''exclude'') (\<lambda>e.
     and_then (read_field read_strings t ''include_only'') (\<lambda>i.
     and_then (read_field read_filters t ''filters'') (\<lambda>f.
       Inr \<lparr>toml_inherit = None, toml_ignore_default_excludes = None, toml_exclude = e, toml_set = None,
            toml_include_only = i, toml_filters = f, toml_use_profile = None\<rparr>)))"

lemma read_field_Inr:
  "read_field read t key = Inr r \<Longrightarrow> r = Option.bind (map_of t key) read \<and> (r = None \<longleftrightarrow> map_of t key = None)"
  by (cases "map_of t key"; cases "read (the (map_of t key))") (auto simp: read_field_def)

lemma sample_de_reads: "reads_filter_fields sample_de"
proof -
  have "\<exists>f. v = TTable f \<and> mset (map fst fs) = mset (map fst f)" if "read_filters v = Some fs" for v fs
    using that by (auto simp: read_filters_def as_table_def comp_def case_prod_unfold image_mset.compositionality
        split: toml.splits if_splits)
  then show ?thesis
    by (auto simp: reads_filter_fields_def sample_de_def and_then_Inr_iff dest!: read_field_Inr)
qed

definition policy_layers :: "ConfigLayerEntry list" where
  "policy_layers =
     [new_entry (\<lambda>_. ''v'') (System [''etc'']) (TTable [(SEP, TTable [(''exclude'', TArray [TString ''A*''])])]),
      new_entry (\<lambda>_. ''v'') SessionFlags (TTable [(SEP, TTable [(''filters'', TTable [(''B'', TString ''include'')])])])]"

definition policy_stack :: "(unit, unit) ConfigLayerStack" where
  "policy_stack = sample_stack\<lparr>stack_layers := policy_layers, model_provider_requirements := Some (TTable [])\<rparr>"

lemma policy_stack_reachable:
  "stack_reachable (validate_shell_environment_policy_filter_config id sample_de) (\<lambda>_. Inr (TTable [])) (\<lambda>_. ''v'') policy_stack"
proof (rule stack_reachable.created[of _ _ policy_layers "()" "()"])
  show "new_stack (validate_shell_environment_policy_filter_config id sample_de) (\<lambda>_. Inr (TTable [])) policy_layers () () =
    Inr policy_stack"
    by (simp add: new_stack_def policy_stack_def sample_stack_def policy_layers_def new_entry_def is_disabled_def
        verify_layer_ordering_def source_le_def validate_shell_environment_policy_filter_config_def as_table_def deserialize_policy_def
        filter_fields_def List.map_filter_simps sample_de_def read_field_def read_strings_def read_filters_def as_array_def
        toml_str_def)
  show "\<forall>l \<in> set policy_layers. toml_ok (entry_config l)"
    by (simp add: policy_layers_def new_entry_def table_ok_def)
qed

theorem effective_policy_consistent_witness:
  "validate_shell_environment_policy_filter_config id sample_de (effective_config False id policy_stack)
     \<in> insert (Inr ()) (range (\<lambda>message. Inl (FieldError message)))"
  by (rule effective_policy_consistent[OF sample_de_reads _ policy_stack_reachable]) simp



text \<open>
  A required model provider replaces the local definition of the same name as a whole, local
  providers of other names stay.
\<close>

theorem required_providers_win:
  assumes "merged = TTable t" "toml_get reqs ''model_providers'' = Some (TTable required)" "distinct (map fst required)"
  shows "Option.bind (toml_get (apply_required_providers merged reqs) ''model_providers'') (\<lambda>m. toml_get m name) =
    (case map_of required name of
       Some v \<Rightarrow> Some v
     | None \<Rightarrow> Option.bind (toml_get merged ''model_providers'') (\<lambda>m. toml_get m name))"
  using assms
  by (cases "map_of t ''model_providers''")
     (auto simp: apply_required_providers_def as_table_def toml_get_def Let_def update_conv' extend_lookup map_add_def
       split: option.splits toml.splits)

theorem required_providers_win_witness:
  "Option.bind (toml_get (apply_required_providers (TTable [(''model_providers'', TTable [(''a'', TInteger 1)])])
       (TTable [(''model_providers'', TTable [(''a'', TInteger 2)])])) ''model_providers'') (\<lambda>m. toml_get m ''a'') = Some (TInteger 2)"
  using required_providers_win[OF refl, of "TTable [(''model_providers'', TTable [(''a'', TInteger 2)])]" "[(''a'', TInteger 2)]"
      "[(''model_providers'', TTable [(''a'', TInteger 1)])]" "''a''"] by (simp add: toml_get_def)

text \<open>
  The version of a layer does not depend on the order of the keys in its file.
\<close>

theorem version_ignores_key_order:
  assumes "json_same (to_json v) (to_json w)"
  shows "version_for_toml to_json sha v = version_for_toml to_json sha w"
  by (simp add: version_for_toml_def canonical_json_same[OF assms])

text \<open>
  Origins are recorded per layer and pruned only below credential providers: a path that a higher
  layer replaced by a setting above it keeps its origin, although the effective configuration has
  no such path.
\<close>

definition shadowed_stack :: "(unit, unit) ConfigLayerStack" where
  "shadowed_stack = sample_stack\<lparr>stack_layers :=
     [new_entry (\<lambda>_. ''v'') (System [''etc'']) (TTable [(''notice'', TTable [(''hide'', TBoolean True)])]),
      new_entry (\<lambda>_. ''v'') SessionFlags (TTable [(''notice'', TInteger 5)])]\<rparr>"

lemma origin_of_replaced_path:
  "setting (effective_config False id shadowed_stack) [''notice'', ''hide''] = None \<and>
   origins False id shadowed_stack ''notice.hide'' = Some \<lparr>meta_name = System [''etc''], meta_version = ''v''\<rparr>"
proof
  have ok: "layers_ok (stack_layers shadowed_stack)" by code_simp
  show "setting (effective_config False id shadowed_stack) [''notice'', ''hide''] = None"
    by (subst effective_setting[OF _ _ ok]) code_simp+
  have "origins False id shadowed_stack (dotted [''notice'', ''hide'']) =
      layer_origins (layers_low_to_high shadowed_stack) (dotted [''notice'', ''hide''])"
    by (rule origins_quiet) code_simp+
  also have "layers_low_to_high shadowed_stack = stack_layers shadowed_stack" by code_simp
  also have "layer_origins (stack_layers shadowed_stack) (dotted [''notice'', ''hide'']) =
      Some \<lparr>meta_name = System [''etc''], meta_version = ''v''\<rparr>" by code_simp
  finally show "origins False id shadowed_stack ''notice.hide'' = Some \<lparr>meta_name = System [''etc''], meta_version = ''v''\<rparr>"
    by (simp add: dotted_def id_def)
qed

end
