(* ===== verification/Shell_Environment.thy ===== *)
theory Shell_Environment
  imports Config_Layers
begin

text \<open>
  The environment of the commands that the agent runs (\<open>protocol/src/shell_environment.rs\<close>,
  \<open>core/src/exec_env.rs\<close>, and the conversion at the end of \<open>config/src/shell_environment_policy.rs\<close>).

  A \<open>HashMap<String, String>\<close> is a map; the variables of the process, the entries of \<open>set\<close> and the
  environment settings of a command are association lists in iteration order. An environment pattern
  is its text, and \<open>wild\<close>, which says whether a pattern matches a name, stands for the
  \<open>wildmatch\<close> crate. \<open>cfg!(windows)\<close> is the argument \<open>win\<close>.
\<close>

section \<open>Policies\<close>

record ShellEnvironmentPolicy =
  inherit :: ShellEnvironmentPolicyInherit
  ignore_default_excludes :: bool
  exclude :: "string list"
  policy_set :: "(string \<times> string) list"
  include_only :: "string list"
  use_profile :: bool

definition split_filters :: "(string \<times> ShellEnvironmentPolicyFilter) list \<Rightarrow> string list \<times> string list" where
  "split_filters filters =
     fold (\<lambda>(pattern, f) (ex, inc).
       case f of Include \<Rightarrow> (ex, inc @ [pattern]) | Exclude \<Rightarrow> (ex @ [pattern], inc)) filters ([], [])"

definition policy_from_toml :: "ShellEnvironmentPolicyToml \<Rightarrow> ShellEnvironmentPolicy" where
  "policy_from_toml t =
     (let (ex, inc) = (case toml_filters t of
            Some filters \<Rightarrow> split_filters filters
          | None \<Rightarrow> (case toml_exclude t of Some e \<Rightarrow> e | None \<Rightarrow> [],
                     case toml_include_only t of Some i \<Rightarrow> i | None \<Rightarrow> []))
      in \<lparr>inherit = (case toml_inherit t of Some i \<Rightarrow> i | None \<Rightarrow> All),
          ignore_default_excludes = (case toml_ignore_default_excludes t of Some b \<Rightarrow> b | None \<Rightarrow> True),
          exclude = ex,
          policy_set = (case toml_set t of Some s \<Rightarrow> s | None \<Rightarrow> []),
          include_only = inc,
          use_profile = (case toml_use_profile t of Some b \<Rightarrow> b | None \<Rightarrow> False)\<rparr>)"

section \<open>Restricted variables\<close>

definition AVA_SESSION_ID_ENV_VAR :: string where
  "AVA_SESSION_ID_ENV_VAR = ''AVA_SESSION_ID''"

definition AVA_THREAD_ID_ENV_VAR :: string where
  "AVA_THREAD_ID_ENV_VAR = ''AVA_THREAD_ID''"

definition NON_INHERITABLE_ENV_VARS :: "string list" where
  "NON_INHERITABLE_ENV_VARS =
     [''AVA_EXEC_SERVER_NOISE_AUTH_TOKEN'', ''NODE_REPL_AUTH_TOKEN'', ''OPENAI_FEDERATION_RULE_ID'',
      ''OPENAI_IDENTITY_TOKEN_FILE'', ''OPENAI_WORKLOAD_IDENTITY_CONTEXT'']"

definition is_non_inheritable_env_var :: "string \<Rightarrow> bool" where
  "is_non_inheritable_env_var name = list_ex (\<lambda>restricted. eq_ignore_ascii_case restricted name) NON_INHERITABLE_ENV_VARS"

text \<open>
  A \<open>std::process::Command\<close>, as far as its environment goes: the settings made on it, a value or a
  removal by name. The child gets the variables of the process under these settings.
\<close>

type_synonym env_settings = "(string \<times> string option) list"

definition env_remove :: "string \<Rightarrow> env_settings \<Rightarrow> env_settings" where
  "env_remove name settings = AList.update name None settings"

definition child_env :: "(string \<times> string) list \<Rightarrow> env_settings \<Rightarrow> (string \<rightharpoonup> string)" where
  "child_env vars settings name = (case map_of settings name of Some v \<Rightarrow> v | None \<Rightarrow> map_of (rev vars) name)"

definition scrub_non_inheritable_env_vars :: "(string \<times> string) list \<Rightarrow> env_settings \<Rightarrow> env_settings" where
  "scrub_non_inheritable_env_vars vars settings =
     (let configured_names = map fst settings;
          scrubbed = fold env_remove NON_INHERITABLE_ENV_VARS settings
      in fold (\<lambda>name s. if is_non_inheritable_env_var name then env_remove name s else s)
           (map fst vars @ configured_names) scrubbed)"

section \<open>The environment of a command\<close>

definition UNIX_CORE_ENV_VARS :: "string list" where
  "UNIX_CORE_ENV_VARS =
     [''PATH'', ''SHELL'', ''TMPDIR'', ''TEMP'', ''TMP'', ''HOME'', ''LANG'', ''LC_ALL'', ''LC_CTYPE'', ''LOGNAME'',
      ''USER'']"

definition WINDOWS_CORE_ENV_VARS :: "string list" where
  "WINDOWS_CORE_ENV_VARS =
     [''PATH'', ''PATHEXT'', ''SHELL'', ''COMSPEC'', ''SYSTEMROOT'', ''WINDIR'', ''SYSTEMDRIVE'', ''USERNAME'',
      ''USERDOMAIN'', ''USERPROFILE'', ''HOMEDRIVE'', ''HOMEPATH'', ''PROGRAMFILES'', ''PROGRAMFILES(X86)'',
      ''PROGRAMW6432'', ''PROGRAMDATA'', ''LOCALAPPDATA'', ''APPDATA'', ''TEMP'', ''TMP'', ''TMPDIR'',
      ''POWERSHELL'', ''PWSH'']"

definition core_env_vars :: "bool \<Rightarrow> string list" where
  "core_env_vars win = (if win then WINDOWS_CORE_ENV_VARS else UNIX_CORE_ENV_VARS)"

text \<open>\<open>HashMap::retain\<close> with a test of the key; collecting pairs, the last one wins.\<close>

definition retain :: "(string \<Rightarrow> bool) \<Rightarrow> (string \<rightharpoonup> string) \<Rightarrow> (string \<rightharpoonup> string)" where
  "retain P m k = (if P k then m k else None)"

definition initial_env :: "bool \<Rightarrow> (string \<times> string) list \<Rightarrow> ShellEnvironmentPolicyInherit \<Rightarrow> (string \<rightharpoonup> string)" where
  "initial_env win vars i =
     (case i of
        All \<Rightarrow> map_of (rev vars)
      | NoInherit \<Rightarrow> Map.empty
      | Core \<Rightarrow> map_of (rev (filter (\<lambda>(k, _). list_ex (\<lambda>allowed. eq_ignore_ascii_case allowed k) (core_env_vars win)) vars)))"

definition matches_any :: "(string \<Rightarrow> string \<Rightarrow> bool) \<Rightarrow> string \<Rightarrow> string list \<Rightarrow> bool" where
  "matches_any wild name patterns = list_ex (\<lambda>pattern. wild pattern name) patterns"

definition default_excludes :: "string list" where
  "default_excludes = [''*KEY*'', ''*SECRET*'', ''*TOKEN*'']"

definition set_variable :: "bool \<Rightarrow> string \<times> string \<Rightarrow> (string \<rightharpoonup> string) \<Rightarrow> (string \<rightharpoonup> string)" where
  "set_variable win entry m =
     (case entry of (key, val) \<Rightarrow>
        (if win then retain (\<lambda>existing. \<not> eq_ignore_ascii_case existing key) m else m)(key \<mapsto> val))"

definition populate_env ::
  "bool \<Rightarrow> (string \<Rightarrow> string \<Rightarrow> bool) \<Rightarrow> (string \<times> string) list \<Rightarrow> ShellEnvironmentPolicy \<Rightarrow> string option
     \<Rightarrow> (string \<rightharpoonup> string)" where
  "populate_env win wild vars policy thread_id =
     (let m1 = initial_env win vars (inherit policy);
          m2 = (if ignore_default_excludes policy then m1 else retain (\<lambda>k. \<not> matches_any wild k default_excludes) m1);
          m3 = (if exclude policy = [] then m2 else retain (\<lambda>k. \<not> matches_any wild k (exclude policy)) m2);
          m4 = fold (set_variable win) (policy_set policy) m3;
          m5 = (if include_only policy = [] then m4 else retain (\<lambda>k. matches_any wild k (include_only policy)) m4);
          m6 = (case thread_id of Some t \<Rightarrow> m5(AVA_THREAD_ID_ENV_VAR \<mapsto> t) | None \<Rightarrow> m5)
      in retain (\<lambda>k. \<not> is_non_inheritable_env_var k) m6)"

text \<open>On Windows the code asks whether any key is \<open>PATHEXT\<close> ignoring case; \<open>names\<close> lists the keys.\<close>

definition create_env_from_vars ::
  "bool \<Rightarrow> (string \<Rightarrow> string \<Rightarrow> bool) \<Rightarrow> (string \<times> string) list \<Rightarrow> ShellEnvironmentPolicy \<Rightarrow> string option
     \<Rightarrow> (string \<rightharpoonup> string)" where
  "create_env_from_vars win wild vars policy thread_id =
     (let env_map = populate_env win wild vars policy thread_id;
          names = filter (\<lambda>k. env_map k \<noteq> None) (AVA_THREAD_ID_ENV_VAR # map fst vars @ map fst (policy_set policy))
      in if win \<and> \<not> list_ex (\<lambda>k. eq_ignore_ascii_case k ''PATHEXT'') names
         then env_map(''PATHEXT'' \<mapsto> ''.COM;.EXE;.BAT;.CMD'') else env_map)"

definition AVA_VERSION_ENV_VAR :: string where
  "AVA_VERSION_ENV_VAR = ''AVA_VERSION''"

definition AVA_PERMISSION_PROFILE_ENV_VAR :: string where
  "AVA_PERMISSION_PROFILE_ENV_VAR = ''AVA_PERMISSION_PROFILE''"

definition inject_session_env :: "bool \<Rightarrow> string \<Rightarrow> string \<Rightarrow> (string \<rightharpoonup> string) \<Rightarrow> (string \<rightharpoonup> string)" where
  "inject_session_env win pkg_version session_id env =
     (let e1 = env(AVA_SESSION_ID_ENV_VAR \<mapsto> session_id);
          e2 = (if win then retain (\<lambda>k. \<not> eq_ignore_ascii_case k AVA_VERSION_ENV_VAR) e1 else e1)
      in e2(AVA_VERSION_ENV_VAR \<mapsto> pkg_version))"

definition inject_permission_profile_env :: "bool \<Rightarrow> string option \<Rightarrow> (string \<rightharpoonup> string) \<Rightarrow> (string \<rightharpoonup> string)" where
  "inject_permission_profile_env win active_profile_id env =
     (let e1 = (if win then retain (\<lambda>k. \<not> eq_ignore_ascii_case k AVA_PERMISSION_PROFILE_ENV_VAR) env
                else env(AVA_PERMISSION_PROFILE_ENV_VAR := None))
      in case active_profile_id of
           Some i \<Rightarrow> e1(AVA_PERMISSION_PROFILE_ENV_VAR \<mapsto> i)
         | None \<Rightarrow> e1)"

definition PRESERVE_LINE_ENDINGS_ENV_VAR :: string where
  "PRESERVE_LINE_ENDINGS_ENV_VAR = ''AVA_APPLY_PATCH_PRESERVE_LINE_ENDINGS''"

definition inject_apply_patch_env :: "bool \<Rightarrow> (string \<rightharpoonup> string) \<Rightarrow> (string \<rightharpoonup> string)" where
  "inject_apply_patch_env enabled env =
     (let e1 = retain (\<lambda>k. \<not> eq_ignore_ascii_case k PRESERVE_LINE_ENDINGS_ENV_VAR) env
      in if enabled then e1(PRESERVE_LINE_ENDINGS_ENV_VAR \<mapsto> ''1'') else e1)"

section \<open>What reaches a command\<close>

text \<open>
  The variable that the policy gives a command on Unix, said at once: what removes it, in which
  order the sources count.
\<close>

definition inherited :: "(string \<times> string) list \<Rightarrow> ShellEnvironmentPolicyInherit \<Rightarrow> string \<Rightarrow> string option" where
  "inherited vars i n =
     (if i = All \<or> i = Core \<and> (\<exists>c \<in> set UNIX_CORE_ENV_VARS. eq_ignore_ascii_case c n)
      then map_of (rev vars) n else None)"

definition variable_of_policy ::
  "(string \<Rightarrow> string \<Rightarrow> bool) \<Rightarrow> (string \<times> string) list \<Rightarrow> ShellEnvironmentPolicy \<Rightarrow> string option \<Rightarrow> string
     \<Rightarrow> string option" where
  "variable_of_policy wild vars p thread_id n =
     (if is_non_inheritable_env_var n then None
      else if n = AVA_THREAD_ID_ENV_VAR \<and> thread_id \<noteq> None then thread_id
      else if include_only p \<noteq> [] \<and> \<not> (\<exists>i \<in> set (include_only p). wild i n) then None
      else if n \<in> fst ` set (policy_set p) then map_of (policy_set p) n
      else if (\<exists>e \<in> set (exclude p). wild e n) then None
      else if \<not> ignore_default_excludes p \<and> (\<exists>e \<in> set default_excludes. wild e n) then None
      else inherited vars (inherit p) n)"

lemma map_of_filter_key: "map_of (filter (\<lambda>(k, _). P k) xs) k = (if P k then map_of xs k else None)"
  by (induction xs) auto

lemma initial_env_unix: "initial_env False vars i n = inherited vars i n"
  by (cases i) (auto simp: initial_env_def inherited_def core_env_vars_def list_ex_iff map_of_filter_key rev_filter)

lemma set_variables_unix:
  "distinct (map fst s) \<Longrightarrow> fold (set_variable False) s m n = (case map_of s n of Some v \<Rightarrow> Some v | None \<Rightarrow> m n)"
proof (induction s arbitrary: m)
  case (Cons a s)
  obtain k v where a: "a = (k, v)" by (cases a)
  have "map_of s k = None" using Cons.prems by (simp add: a map_of_eq_None_iff)
  with Cons show ?case by (auto simp: a set_variable_def split: option.splits)
qed simp

lemma populate_env_unix:
  assumes "distinct (map fst (policy_set p))"
  shows "populate_env False wild vars p thread_id n = variable_of_policy wild vars p thread_id n"
proof -
  have "map_of (policy_set p) n = None \<longleftrightarrow> n \<notin> fst ` set (policy_set p)" by (simp add: map_of_eq_None_iff)
  then show ?thesis
    by (cases thread_id; cases "map_of (policy_set p) n")
       (auto simp: populate_env_def variable_of_policy_def Let_def retain_def matches_any_def list_ex_iff
         initial_env_unix set_variables_unix[OF assms])
qed

lemma restricted_absent: "is_non_inheritable_env_var n \<Longrightarrow> populate_env win wild vars p thread_id n = None"
  by (simp add: populate_env_def Let_def retain_def)

text \<open>The names that \<open>create_env_from_vars\<close> looks through are all the keys of the map.\<close>

lemma set_variables_keys: "fold (set_variable win) s m k \<noteq> None \<Longrightarrow> k \<in> fst ` set s \<or> m k \<noteq> None"
proof (induction s arbitrary: m)
  case (Cons a s)
  then have "k \<in> fst ` set s \<or> set_variable win a m k \<noteq> None" by simp
  then show ?case by (cases a) (auto simp: set_variable_def retain_def split: if_splits)
qed simp

lemma initial_env_keys: "initial_env win vars i k \<noteq> None \<Longrightarrow> k \<in> fst ` set vars"
  by (cases i) (auto simp: initial_env_def rev_filter map_of_filter_key dest!: map_of_SomeD split: if_splits intro: rev_image_eqI)

lemma retain_SomeD: "(if c then m else retain P m) k \<noteq> None \<Longrightarrow> m k \<noteq> None"
  by (simp add: retain_def split: if_splits)

lemma populate_env_keys:
  assumes "populate_env win wild vars p thread_id k \<noteq> None"
  shows "k \<in> set (AVA_THREAD_ID_ENV_VAR # map fst vars @ map fst (policy_set p))"
proof (cases "k = AVA_THREAD_ID_ENV_VAR")
  case False
  define m3 where "m3 = (if exclude p = [] then
      (if ignore_default_excludes p then initial_env win vars (inherit p)
       else retain (\<lambda>k. \<not> matches_any wild k default_excludes) (initial_env win vars (inherit p)))
    else retain (\<lambda>k. \<not> matches_any wild k (exclude p))
      (if ignore_default_excludes p then initial_env win vars (inherit p)
       else retain (\<lambda>k. \<not> matches_any wild k default_excludes) (initial_env win vars (inherit p))))"
  have "fold (set_variable win) (policy_set p) m3 k \<noteq> None"
    using assms False unfolding populate_env_def Let_def m3_def[symmetric]
    by (cases thread_id) (auto simp: retain_def split: if_splits)
  then have "k \<in> fst ` set (policy_set p) \<or> m3 k \<noteq> None" by (rule set_variables_keys)
  moreover have "m3 k \<noteq> None \<Longrightarrow> k \<in> fst ` set vars"
    unfolding m3_def by (drule retain_SomeD, drule retain_SomeD, rule initial_env_keys)
  ultimately show ?thesis by auto
qed simp

lemma eq_ignore_ascii_case_length: "eq_ignore_ascii_case a b \<Longrightarrow> length a = length b"
  unfolding eq_ignore_ascii_case_def by (metis length_map)

lemma injected_not_restricted:
  "\<not> is_non_inheritable_env_var AVA_SESSION_ID_ENV_VAR" "\<not> is_non_inheritable_env_var AVA_VERSION_ENV_VAR"
  "\<not> is_non_inheritable_env_var AVA_PERMISSION_PROFILE_ENV_VAR" "\<not> is_non_inheritable_env_var PRESERVE_LINE_ENDINGS_ENV_VAR"
  "\<not> is_non_inheritable_env_var ''PATHEXT''"
  by (auto simp: is_non_inheritable_env_var_def NON_INHERITABLE_ENV_VARS_def AVA_SESSION_ID_ENV_VAR_def
      AVA_VERSION_ENV_VAR_def AVA_PERMISSION_PROFILE_ENV_VAR_def PRESERVE_LINE_ENDINGS_ENV_VAR_def
      dest!: eq_ignore_ascii_case_length)

lemma env_remove_lookup [simp]: "map_of (env_remove k s) n = (if n = k then Some None else map_of s n)"
  by (simp add: env_remove_def update_conv')

lemma injections_keep_absent:
  assumes "env n = None" "n \<noteq> AVA_SESSION_ID_ENV_VAR" "n \<noteq> AVA_VERSION_ENV_VAR"
    "n \<noteq> AVA_PERMISSION_PROFILE_ENV_VAR" "n \<noteq> PRESERVE_LINE_ENDINGS_ENV_VAR"
  shows "inject_apply_patch_env enabled (inject_permission_profile_env win profile (inject_session_env win ver session env)) n = None"
  using assms
  by (simp add: inject_apply_patch_env_def inject_permission_profile_env_def inject_session_env_def Let_def retain_def
      split: option.splits)

lemma scrub_removes:
  "map_of (fold (\<lambda>name s. if is_non_inheritable_env_var name then env_remove name s else s) ns s) n =
     (if n \<in> set ns \<and> is_non_inheritable_env_var n then Some None else map_of s n)"
  by (induction ns arbitrary: s) auto

lemma scrub_keys: "n \<notin> set ks \<Longrightarrow> map_of (fold env_remove ks s) n = map_of s n"
  by (induction ks arbitrary: s) auto

lemma scrub_keys_in: "n \<in> set ks \<Longrightarrow> map_of (fold env_remove ks s) n = Some None"
proof (induction ks arbitrary: s)
  case (Cons k ks)
  then show ?case by (cases "n \<in> set ks") (auto simp: scrub_keys)
qed simp

lemma scrub_lookup:
  "child_env vars (scrub_non_inheritable_env_vars vars settings) n =
     (if is_non_inheritable_env_var n then None else child_env vars settings n)"
proof (cases "n \<in> set NON_INHERITABLE_ENV_VARS")
  case True
  then have "is_non_inheritable_env_var n"
    by (auto simp: is_non_inheritable_env_var_def list_ex_iff eq_ignore_ascii_case_def)
  with True show ?thesis
    by (simp add: child_env_def scrub_non_inheritable_env_vars_def Let_def scrub_removes scrub_keys_in)
next
  case False
  have "map_of settings n = None \<and> map_of (rev vars) n = None" if "n \<notin> fst ` set vars" "n \<notin> fst ` set settings"
    using that by (simp add: map_of_eq_None_iff)
  with False show ?thesis
    by (auto simp: child_env_def scrub_non_inheritable_env_vars_def Let_def scrub_removes scrub_keys split: option.splits)
qed

lemma split_filters_eq:
  "split_filters fs = (map fst (filter (\<lambda>(p, f). f = Exclude) fs), map fst (filter (\<lambda>(p, f). f = Include) fs))"
proof -
  have "fold (\<lambda>(pattern, f) (ex, inc). case f of Include \<Rightarrow> (ex, inc @ [pattern]) | Exclude \<Rightarrow> (ex @ [pattern], inc)) fs (a, b) =
      (a @ map fst (filter (\<lambda>(p, f). f = Exclude) fs), b @ map fst (filter (\<lambda>(p, f). f = Include) fs))" for a b
    by (induction fs arbitrary: a b) (auto split: ShellEnvironmentPolicyFilter.splits)
  then show ?thesis by (simp add: split_filters_def)
qed

section \<open>Properties\<close>

text \<open>
  C14: On Unix the environment of a command is the one the policy describes: a restricted variable is
  never there, the thread id always wins, then a variable must match an include pattern if there are
  any, an explicitly set value counts before the exclude patterns, which count before the inherited
  value. So an include pattern never brings back an excluded variable.
\<close>

theorem command_environment_is_policy:
  assumes "distinct (map fst (policy_set p))"
  shows "create_env_from_vars False wild vars p thread_id n = variable_of_policy wild vars p thread_id n"
  using populate_env_unix[OF assms] by (simp add: create_env_from_vars_def Let_def)

theorem command_environment_is_policy_witness:
  "create_env_from_vars False (\<lambda>pat n. pat = n) [(''A'', ''1''), (''B'', ''2'')]
     \<lparr>inherit = All, ignore_default_excludes = True, exclude = [''A''], policy_set = [], include_only = [''A'', ''B''],
      use_profile = False\<rparr> None ''A'' = None"
  by (subst command_environment_is_policy) (simp_all add: variable_of_policy_def AVA_THREAD_ID_ENV_VAR_def)

text \<open>
  C15: A restricted launch variable reaches no command, in any spelling and on any platform: neither
  inherited, nor set by the policy, nor through the variables that the session adds afterwards, nor
  through the settings of a command that is scrubbed; and scrubbing removes nothing else.
\<close>

theorem restricted_never_reaches_commands:
  assumes "is_non_inheritable_env_var n"
  shows "inject_apply_patch_env enabled (inject_permission_profile_env win profile (inject_session_env win ver session
      (create_env_from_vars win wild vars p thread_id))) n = None \<and>
    child_env vars (scrub_non_inheritable_env_vars vars settings) n = None \<and>
    (is_non_inheritable_env_var m \<or>
      child_env vars (scrub_non_inheritable_env_vars vars settings) m = child_env vars settings m)"
proof -
  have ne: "n \<noteq> AVA_SESSION_ID_ENV_VAR" "n \<noteq> AVA_VERSION_ENV_VAR" "n \<noteq> AVA_PERMISSION_PROFILE_ENV_VAR"
    "n \<noteq> PRESERVE_LINE_ENDINGS_ENV_VAR" "n \<noteq> ''PATHEXT''"
    using assms injected_not_restricted by metis+
  have "create_env_from_vars win wild vars p thread_id n = None"
    using ne(5) restricted_absent[OF assms] by (simp add: create_env_from_vars_def Let_def)
  then show ?thesis using assms ne(1-4) by (simp add: injections_keep_absent scrub_lookup)
qed

theorem restricted_never_reaches_commands_witness:
  "inject_apply_patch_env True (inject_permission_profile_env False None (inject_session_env False ''1'' ''id''
     (create_env_from_vars False (\<lambda>_ _. True) [(''NODE_REPL_AUTH_TOKEN'', ''s'')]
       \<lparr>inherit = All, ignore_default_excludes = True, exclude = [], policy_set = [(''NODE_REPL_AUTH_TOKEN'', ''t'')],
        include_only = [], use_profile = False\<rparr> None))) ''NODE_REPL_AUTH_TOKEN'' = None \<and>
   child_env [(''NODE_REPL_AUTH_TOKEN'', ''s'')] (scrub_non_inheritable_env_vars [(''NODE_REPL_AUTH_TOKEN'', ''s'')] [])
     ''NODE_REPL_AUTH_TOKEN'' = None"
proof -
  have r: "is_non_inheritable_env_var ''NODE_REPL_AUTH_TOKEN''"
    by (simp add: is_non_inheritable_env_var_def NON_INHERITABLE_ENV_VARS_def eq_ignore_ascii_case_def)
  show ?thesis using restricted_never_reaches_commands[OF r] by blast
qed

text \<open>
  A table of keyed filters means the same as the two legacy arrays with its patterns.
\<close>

theorem filters_equal_legacy_arrays:
  "policy_from_toml (t\<lparr>toml_filters := Some fs\<rparr>) =
   policy_from_toml (t\<lparr>toml_filters := None, toml_exclude := Some (map fst (filter (\<lambda>(p, f). f = Exclude) fs)),
     toml_include_only := Some (map fst (filter (\<lambda>(p, f). f = Include) fs))\<rparr>)"
  by (simp add: policy_from_toml_def split_filters_eq)

text \<open>
  On Windows, where the names of variables ignore case, injecting the session drops the other
  spellings of the version variable but not those of the session id.
\<close>

lemma session_id_spelling_stays:
  "inject_session_env True ver session [''ava_session_id'' \<mapsto> ''old'', ''ava_version'' \<mapsto> ''0''] ''ava_session_id'' = Some ''old'' \<and>
   inject_session_env True ver session [''ava_session_id'' \<mapsto> ''old'', ''ava_version'' \<mapsto> ''0''] ''ava_version'' = None"
proof -
  have "\<not> eq_ignore_ascii_case ''ava_session_id'' ''AVA_VERSION''" by (auto dest: eq_ignore_ascii_case_length)
  moreover have "eq_ignore_ascii_case ''ava_version'' ''AVA_VERSION''" by code_simp
  ultimately show ?thesis
    by (simp add: inject_session_env_def Let_def retain_def AVA_SESSION_ID_ENV_VAR_def AVA_VERSION_ENV_VAR_def)
qed

end
