(* ===== verification/Text_Area.thy ===== *)
theory Text_Area
  imports Utf8_Stream
begin

text \<open>
  The editable buffer behind the composer, \<open>TextArea\<close> of \<^verbatim>\<open>tui/src/bottom_pane/textarea.rs\<close>, with
  modal editing switched off (\<open>vim_enabled = false\<close>, so that nothing is recorded for replay and
  \<open>replace_steps\<close> is empty). The text is its UTF-8 bytes and positions are byte offsets, as in the
  code. Placeholders are \<^emph>\<open>elements\<close>: byte ranges of the text that an edit takes or leaves as a whole.
  A panic of the standard library (a slice outside the text or inside a code point, a failed
  \<open>assert!\<close>) is \<open>None\<close>.
  The grapheme cursor of the crate \<open>unicode_segmentation\<close> is an argument.
\<close>

section \<open>State\<close>

record text_element =
  te_id :: nat
  te_start :: nat
  te_end :: nat

datatype kill_buffer_kind = Characterwise | Linewise

record text_area =
  ta_text :: string
  cursor_pos :: nat
  preferred_col :: "nat option"
  ta_elements :: "text_element list"
  next_element_id :: nat
  kill_buffer :: string
  kill_kind :: kill_buffer_kind

definition text_area_new :: text_area where
  "text_area_new = \<lparr>ta_text = [], cursor_pos = 0, preferred_col = None, ta_elements = [],
     next_element_id = 1, kill_buffer = [], kill_kind = Characterwise\<rparr>"

section \<open>Positions\<close>

fun prev_boundary_from :: "string \<Rightarrow> nat \<Rightarrow> nat" where
  "prev_boundary_from s p = (if 0 < p \<and> \<not> is_char_boundary s p then prev_boundary_from s (p - 1) else p)"

function next_boundary_from :: "string \<Rightarrow> nat \<Rightarrow> nat" where
  "next_boundary_from s p =
     (if p < length s \<and> \<not> is_char_boundary s p then next_boundary_from s (Suc p) else p)"
  by pat_completeness auto
termination
  by (relation "measure (\<lambda>(s, p). length s - p)") auto

declare prev_boundary_from.simps [simp del] next_boundary_from.simps [simp del]

definition clamp_pos_to_char_boundary :: "text_area \<Rightarrow> nat \<Rightarrow> nat" where
  "clamp_pos_to_char_boundary ta pos0 =
     (let pos = min pos0 (length (ta_text ta))
      in if is_char_boundary (ta_text ta) pos then pos
         else let prev = prev_boundary_from (ta_text ta) pos;
                  nxt = next_boundary_from (ta_text ta) pos
              in if pos - prev \<le> nxt - pos then prev else nxt)"

definition strictly_inside :: "nat \<Rightarrow> text_element \<Rightarrow> bool" where
  "strictly_inside pos e \<longleftrightarrow> te_start e < pos \<and> pos < te_end e"

text \<open>\<open>find_element_containing\<close> returns the index; its callers read the element there.\<close>

definition find_element_containing :: "text_area \<Rightarrow> nat \<Rightarrow> text_element option" where
  "find_element_containing ta pos = find (strictly_inside pos) (ta_elements ta)"

definition clamp_pos_to_nearest_boundary :: "text_area \<Rightarrow> nat \<Rightarrow> nat" where
  "clamp_pos_to_nearest_boundary ta pos0 =
     (let pos = clamp_pos_to_char_boundary ta pos0
      in case find_element_containing ta pos of
           Some e \<Rightarrow>
             if pos - te_start e \<le> te_end e - pos then clamp_pos_to_char_boundary ta (te_start e)
             else clamp_pos_to_char_boundary ta (te_end e)
         | None \<Rightarrow> pos)"

definition clamp_pos_for_insertion :: "text_area \<Rightarrow> nat \<Rightarrow> nat" where
  "clamp_pos_for_insertion ta pos0 =
     (let pos = clamp_pos_to_char_boundary ta pos0
      in case find_element_containing ta pos of
           Some e \<Rightarrow>
             if pos - te_start e \<le> te_end e - pos then clamp_pos_to_char_boundary ta (te_start e)
             else clamp_pos_to_char_boundary ta (te_end e)
         | None \<Rightarrow> pos)"

definition set_cursor :: "text_area \<Rightarrow> nat \<Rightarrow> text_area" where
  "set_cursor ta pos =
     (let ta1 = ta\<lparr>cursor_pos := min pos (length (ta_text ta))\<rparr>
      in ta1\<lparr>cursor_pos := clamp_pos_to_nearest_boundary ta1 (cursor_pos ta1), preferred_col := None\<rparr>)"

section \<open>Elements under edits\<close>

text \<open>One step of the loop of \<open>expand_range_to_element_boundaries\<close>, then the loop until a pass changes nothing.\<close>

definition expand_step :: "nat \<times> nat \<Rightarrow> text_element \<Rightarrow> nat \<times> nat" where
  "expand_step r e =
     (if te_start e < snd r \<and> fst r < te_end e then (min (fst r) (te_start e), max (snd r) (te_end e)) else r)"

definition expand_pass :: "text_element list \<Rightarrow> nat \<times> nat \<Rightarrow> nat \<times> nat" where
  "expand_pass es r = foldl expand_step r es"

lemma expand_step_grows: "fst (expand_step r e) \<le> fst r \<and> snd r \<le> snd (expand_step r e)"
  by (simp add: expand_step_def)

lemma expand_pass_grows: "fst (expand_pass es r) \<le> fst r \<and> snd r \<le> snd (expand_pass es r)"
proof (induction es arbitrary: r)
  case (Cons e es)
  from Cons [of "expand_step r e"] expand_step_grows [of r e] show ?case
    by (auto simp: expand_pass_def)
qed (simp add: expand_pass_def)

lemma expand_pass_ends:
  "fst (expand_pass es r) \<in> insert (fst r) (te_start ` set es) \<and>
   snd (expand_pass es r) \<in> insert (snd r) (te_end ` set es)"
proof (induction es arbitrary: r)
  case (Cons e es)
  from Cons [of "expand_step r e"] show ?case
    by (auto simp: expand_pass_def expand_step_def min_def max_def split: if_splits)
qed (simp add: expand_pass_def)

lemma filter_le_length: "(\<And>x. P x \<Longrightarrow> Q x) \<Longrightarrow> length (filter P xs) \<le> length (filter Q xs)"
  by (induction xs) auto

lemma filter_less_length:
  assumes "\<And>x. P x \<Longrightarrow> Q x" "y \<in> set xs" "Q y" "\<not> P y"
  shows "length (filter P xs) < length (filter Q xs)"
proof -
  obtain ys zs where xs: "xs = ys @ y # zs" using assms(2) by (auto dest: split_list)
  have "length (filter P ys) \<le> length (filter Q ys)" "length (filter P zs) \<le> length (filter Q zs)"
    by (rule filter_le_length, erule assms(1))+
  with xs assms(3,4) show ?thesis by simp
qed

function expand_range :: "text_element list \<Rightarrow> nat \<times> nat \<Rightarrow> nat \<times> nat" where
  "expand_range es r = (if expand_pass es r = r then r else expand_range es (expand_pass es r))"
  by pat_completeness auto
termination
proof (relation "measure (\<lambda>(es, r). length (filter (\<lambda>e. te_start e < fst r) es) + length (filter (\<lambda>e. snd r < te_end e) es))",
    goal_cases)
  case (2 es r)
  obtain s t where r: "r = (s, t)" by force
  obtain s' t' where r': "expand_pass es r = (s', t')" by force
  have g: "s' \<le> s" "t \<le> t'" and m: "s' \<in> insert s (te_start ` set es)" "t' \<in> insert t (te_end ` set es)"
    using expand_pass_grows [of es r] expand_pass_ends [of es r] r r' by auto
  have le: "length (filter (\<lambda>e. te_start e < s') es) \<le> length (filter (\<lambda>e. te_start e < s) es)"
    "length (filter (\<lambda>e. t' < te_end e) es) \<le> length (filter (\<lambda>e. t < te_end e) es)"
    using g by (auto intro!: filter_le_length)
  consider "s' < s" | "t < t'" using 2 r r' g by fastforce
  then show ?case
  proof cases
    case 1
    with m(1) obtain e where "e \<in> set es" "te_start e = s'" by auto
    with 1 have "length (filter (\<lambda>e. te_start e < s') es) < length (filter (\<lambda>e. te_start e < s) es)"
      by (intro filter_less_length) auto
    with le show ?thesis by (simp add: r r' [unfolded r])
  next
    case 2
    with m(2) obtain e where "e \<in> set es" "te_end e = t'" by auto
    with 2 have "length (filter (\<lambda>e. t' < te_end e) es) < length (filter (\<lambda>e. t < te_end e) es)"
      by (intro filter_less_length) auto
    with le show ?thesis by (simp add: r r' [unfolded r])
  qed
qed simp

declare expand_range.simps [simp del]

definition expand_range_to_element_boundaries :: "text_area \<Rightarrow> nat \<times> nat \<Rightarrow> nat \<times> nat" where
  "expand_range_to_element_boundaries ta r = expand_range (ta_elements ta) r"

text \<open>\<open>((x as isize) + diff) as usize\<close> with \<open>diff = inserted - removed\<close>.\<close>

definition shift_pos :: "nat \<Rightarrow> nat \<Rightarrow> nat \<Rightarrow> nat" where
  "shift_pos removed inserted x = nat (int x + (int inserted - int removed))"

definition shift_element :: "nat \<Rightarrow> nat \<Rightarrow> nat \<Rightarrow> text_element \<Rightarrow> text_element" where
  "shift_element at removed inserted e =
     (let stop = at + removed
      in if te_end e \<le> at then e
         else if stop \<le> te_start e then
           e\<lparr>te_start := shift_pos removed inserted (te_start e), te_end := shift_pos removed inserted (te_end e)\<rparr>
         else e\<lparr>te_start := min at (te_start e), te_end := at + max inserted (te_end e - stop)\<rparr>)"

definition shift_elements :: "text_area \<Rightarrow> nat \<Rightarrow> nat \<Rightarrow> nat \<Rightarrow> text_area" where
  "shift_elements ta at removed inserted =
     ta\<lparr>ta_elements := map (shift_element at removed inserted)
          (filter (\<lambda>e. \<not> (at \<le> te_start e \<and> te_end e \<le> at + removed)) (ta_elements ta))\<rparr>"

definition update_elements_after_replace :: "text_area \<Rightarrow> nat \<Rightarrow> nat \<Rightarrow> nat \<Rightarrow> text_area" where
  "update_elements_after_replace ta start stop inserted_len = shift_elements ta start (stop - start) inserted_len"

section \<open>Edits\<close>

definition insert_str_at :: "text_area \<Rightarrow> nat \<Rightarrow> string \<Rightarrow> text_area" where
  "insert_str_at ta pos0 s =
     (let pos = clamp_pos_for_insertion ta pos0;
          ta1 = ta\<lparr>ta_text := take pos (ta_text ta) @ s @ drop pos (ta_text ta),
                   cursor_pos := (if pos \<le> cursor_pos ta then cursor_pos ta + length s else cursor_pos ta)\<rparr>
      in (shift_elements ta1 pos 0 (length s))\<lparr>preferred_col := None\<rparr>)"

definition ta_insert_str :: "text_area \<Rightarrow> string \<Rightarrow> text_area" where
  "ta_insert_str ta s = insert_str_at ta (cursor_pos ta) s"

text \<open>\<open>String::replace_range\<close> of the standard library: the bounds must lie on code points of the text.\<close>

definition string_replace_range :: "string \<Rightarrow> nat \<times> nat \<Rightarrow> string \<Rightarrow> string option" where
  "string_replace_range s r new =
     (if fst r \<le> snd r \<and> snd r \<le> length s \<and> is_char_boundary s (fst r) \<and> is_char_boundary s (snd r)
      then Some (take (fst r) s @ new @ drop (snd r) s) else None)"

definition cursor_after_edit :: "nat \<Rightarrow> nat \<Rightarrow> nat \<Rightarrow> nat \<Rightarrow> nat" where
  "cursor_after_edit start stop inserted_len cur =
     (if cur < start then cur
      else if cur \<le> stop then start + inserted_len
      else shift_pos (stop - start) inserted_len cur)"

definition replace_range_raw :: "text_area \<Rightarrow> nat \<times> nat \<Rightarrow> string \<Rightarrow> text_area option" where
  "replace_range_raw ta r s =
     (if \<not> fst r \<le> snd r then None
      else
        let start = min (fst r) (length (ta_text ta)); stop = min (snd r) (length (ta_text ta));
            removed_len = stop - start; inserted_len = length s
        in if removed_len = 0 \<and> inserted_len = 0 then Some ta
           else case string_replace_range (ta_text ta) r s of
             None \<Rightarrow> None
           | Some new \<Rightarrow>
               let ta1 = update_elements_after_replace (ta\<lparr>ta_text := new, preferred_col := None\<rparr>)
                           start stop inserted_len;
                   ta2 = ta1\<lparr>cursor_pos := min (cursor_after_edit start stop inserted_len (cursor_pos ta1)) (length new)\<rparr>
               in Some (ta2\<lparr>cursor_pos := clamp_pos_to_nearest_boundary ta2 (cursor_pos ta2)\<rparr>))"

definition ta_replace_range :: "text_area \<Rightarrow> nat \<times> nat \<Rightarrow> string \<Rightarrow> text_area option" where
  "ta_replace_range ta r s = replace_range_raw ta (expand_range_to_element_boundaries ta r) s"

text \<open>Outside modal editing \<open>retract_paste_burst\<close> removes the text up to the cursor and succeeds.\<close>

definition retract_paste_burst :: "text_area \<Rightarrow> nat \<Rightarrow> text_area option" where
  "retract_paste_burst ta start = ta_replace_range ta (start, cursor_pos ta) []"

section \<open>Killing and yanking\<close>

definition str_slice :: "string \<Rightarrow> nat \<times> nat \<Rightarrow> string" where
  "str_slice s r = take (snd r - fst r) (drop (fst r) s)"

text \<open>The index \<open>&text[range]\<close>, which panics, and \<open>text.get(range)\<close>, which does not.\<close>

definition str_get :: "string \<Rightarrow> nat \<times> nat \<Rightarrow> string option" where
  "str_get s r =
     (if fst r \<le> snd r \<and> snd r \<le> length s \<and> is_char_boundary s (fst r) \<and> is_char_boundary s (snd r)
      then Some (str_slice s r) else None)"

definition store_kill_buffer :: "text_area \<Rightarrow> string \<Rightarrow> kill_buffer_kind \<Rightarrow> text_area" where
  "store_kill_buffer ta s kind = ta\<lparr>kill_buffer := s, kill_kind := kind\<rparr>"

definition kill_range_with_kind :: "text_area \<Rightarrow> nat \<times> nat \<Rightarrow> kill_buffer_kind \<Rightarrow> text_area option" where
  "kill_range_with_kind ta r0 kind =
     (let r = expand_range_to_element_boundaries ta r0
      in if snd r \<le> fst r then Some ta
         else case str_get (ta_text ta) r of
                None \<Rightarrow> None
              | Some removed \<Rightarrow>
                  if removed = [] then Some ta
                  else replace_range_raw (store_kill_buffer ta removed kind) r [])"

definition kill_range :: "text_area \<Rightarrow> nat \<times> nat \<Rightarrow> text_area option" where
  "kill_range ta r = kill_range_with_kind ta r Characterwise"

definition kill_line_range :: "text_area \<Rightarrow> nat \<times> nat \<Rightarrow> text_area option" where
  "kill_line_range ta r = kill_range_with_kind ta r Linewise"

definition yank_range_with_kind :: "text_area \<Rightarrow> nat \<times> nat \<Rightarrow> kill_buffer_kind \<Rightarrow> text_area option" where
  "yank_range_with_kind ta r0 kind =
     (let r = expand_range_to_element_boundaries ta r0
      in if snd r \<le> fst r then Some ta
         else case str_get (ta_text ta) r of
                None \<Rightarrow> None
              | Some removed \<Rightarrow> if removed = [] then Some ta else Some (store_kill_buffer ta removed kind))"

definition yank_line_range :: "text_area \<Rightarrow> nat \<times> nat \<Rightarrow> text_area option" where
  "yank_line_range ta r = yank_range_with_kind ta r Linewise"

definition yank :: "text_area \<Rightarrow> text_area" where
  "yank ta = (if kill_buffer ta = [] then ta else ta_insert_str ta (kill_buffer ta))"

definition take_kill_buffer_snapshot :: "text_area \<Rightarrow> text_area \<times> (string \<times> kill_buffer_kind)" where
  "take_kill_buffer_snapshot ta = (ta\<lparr>kill_buffer := []\<rparr>, (kill_buffer ta, kill_kind ta))"

definition restore_kill_buffer_snapshot :: "text_area \<Rightarrow> string \<times> kill_buffer_kind \<Rightarrow> text_area" where
  "restore_kill_buffer_snapshot ta snap = ta\<lparr>kill_buffer := fst snap, kill_kind := snd snap\<rparr>"

text \<open>Lines: the last newline before a position, the first one from it.\<close>

fun rfind_newline :: "string \<Rightarrow> nat option" where
  "rfind_newline [] = None"
| "rfind_newline (c # s) =
     (case rfind_newline s of Some i \<Rightarrow> Some (Suc i) | None \<Rightarrow> if c = CHR 0x0A then Some 0 else None)"

fun find_newline :: "string \<Rightarrow> nat option" where
  "find_newline [] = None"
| "find_newline (c # s) = (if c = CHR 0x0A then Some 0 else map_option Suc (find_newline s))"

definition beginning_of_line :: "text_area \<Rightarrow> nat \<Rightarrow> nat" where
  "beginning_of_line ta pos = (case rfind_newline (take pos (ta_text ta)) of Some i \<Rightarrow> i + 1 | None \<Rightarrow> 0)"

definition end_of_line :: "text_area \<Rightarrow> nat \<Rightarrow> nat" where
  "end_of_line ta pos =
     (case find_newline (drop pos (ta_text ta)) of Some i \<Rightarrow> i + pos | None \<Rightarrow> length (ta_text ta))"

definition beginning_of_current_line :: "text_area \<Rightarrow> nat" where
  "beginning_of_current_line ta = beginning_of_line ta (cursor_pos ta)"

definition end_of_current_line :: "text_area \<Rightarrow> nat" where
  "end_of_current_line ta = end_of_line ta (cursor_pos ta)"

definition kill_to_end_of_line :: "text_area \<Rightarrow> text_area option" where
  "kill_to_end_of_line ta =
     (let eol = end_of_current_line ta
      in if cursor_pos ta = eol then
           (if eol < length (ta_text ta) then kill_range ta (cursor_pos ta, eol + 1) else Some ta)
         else kill_range ta (cursor_pos ta, eol))"

definition kill_to_beginning_of_line :: "text_area \<Rightarrow> text_area option" where
  "kill_to_beginning_of_line ta =
     (let bol = beginning_of_current_line ta
      in if cursor_pos ta = bol then (if 0 < bol then kill_range ta (bol - 1, bol) else Some ta)
         else kill_range ta (bol, cursor_pos ta))"

definition current_line_range_with_newline :: "text_area \<Rightarrow> nat \<times> nat" where
  "current_line_range_with_newline ta =
     (let eol = end_of_current_line ta
      in (beginning_of_current_line ta, if eol < length (ta_text ta) then eol + 1 else eol))"

definition kill_current_line :: "text_area \<Rightarrow> text_area option" where
  "kill_current_line ta = kill_line_range ta (current_line_range_with_newline ta)"

definition yank_current_line :: "text_area \<Rightarrow> text_area option" where
  "yank_current_line ta = yank_line_range ta (current_line_range_with_newline ta)"

text \<open>\<open>trim_end_matches('\n')\<close>.\<close>

definition trim_end_newlines :: "string \<Rightarrow> string" where
  "trim_end_newlines s = rev (dropWhile (\<lambda>c. c = CHR 0x0A) (rev s))"

definition paste_line_after_current_line :: "text_area \<Rightarrow> text_area" where
  "paste_line_after_current_line ta =
     (let eol = end_of_current_line ta; len = length (ta_text ta);
          insert_at = (if eol < len then eol + 1 else eol);
          cursor = (if eol < len then insert_at else insert_at + 1);
          s = (if eol < len
               then (if kill_buffer ta \<noteq> [] \<and> last (kill_buffer ta) = CHR 0x0A then kill_buffer ta
                     else kill_buffer ta @ [CHR 0x0A])
               else CHR 0x0A # trim_end_newlines (kill_buffer ta));
          ta1 = insert_str_at ta insert_at s
      in set_cursor ta1 (min cursor (length (ta_text ta1))))"

section \<open>Element operations\<close>

text \<open>\<open>sort_by_key\<close> is stable, as \<open>sort_key\<close> is.\<close>

definition take_element_id :: "text_area \<Rightarrow> text_area \<times> nat" where
  "take_element_id ta = (ta\<lparr>next_element_id := sat_add (next_element_id ta) 1\<rparr>, next_element_id ta)"

definition add_element :: "text_area \<Rightarrow> nat \<times> nat \<Rightarrow> text_area \<times> nat" where
  "add_element ta r =
     (let (ta1, i) = take_element_id ta
      in (ta1\<lparr>ta_elements := sort_key te_start
            (ta_elements ta1 @ [\<lparr>te_id = i, te_start = fst r, te_end = snd r\<rparr>])\<rparr>, i))"

definition insert_element :: "text_area \<Rightarrow> string \<Rightarrow> text_area \<times> nat" where
  "insert_element ta s =
     (let start = clamp_pos_for_insertion ta (cursor_pos ta);
          ta1 = insert_str_at ta start s;
          stop = start + length s;
          (ta2, i) = add_element ta1 (start, stop)
      in (set_cursor ta2 stop, i))"

definition add_element_range :: "text_area \<Rightarrow> nat \<times> nat \<Rightarrow> text_area \<times> nat option" where
  "add_element_range ta r =
     (let start = clamp_pos_to_char_boundary ta (min (fst r) (length (ta_text ta)));
          stop = clamp_pos_to_char_boundary ta (min (snd r) (length (ta_text ta)))
      in if stop \<le> start then (ta, None)
         else if list_ex (\<lambda>e. te_start e = start \<and> te_end e = stop) (ta_elements ta) then (ta, None)
         else if list_ex (\<lambda>e. start < te_end e \<and> te_start e < stop) (ta_elements ta) then (ta, None)
         else let (ta1, i) = add_element ta (start, stop) in (ta1, Some i))"

definition remove_element_range :: "text_area \<Rightarrow> nat \<times> nat \<Rightarrow> text_area \<times> bool" where
  "remove_element_range ta r =
     (let start = clamp_pos_to_char_boundary ta (min (fst r) (length (ta_text ta)));
          stop = clamp_pos_to_char_boundary ta (min (snd r) (length (ta_text ta)))
      in if stop \<le> start then (ta, False)
         else let ta1 = ta\<lparr>ta_elements := filter (\<lambda>e. te_start e \<noteq> start \<or> te_end e \<noteq> stop) (ta_elements ta)\<rparr>
              in (ta1, length (ta_elements ta) \<noteq> length (ta_elements ta1)))"

definition element_payloads :: "text_area \<Rightarrow> string list" where
  "element_payloads ta = List.map_filter (\<lambda>e. str_get (ta_text ta) (te_start e, te_end e)) (ta_elements ta)"

text \<open>\<open>text_element_snapshots\<close>: the elements with their text.\<close>

definition text_element_snapshots :: "text_area \<Rightarrow> (nat \<times> (nat \<times> nat) \<times> string) list" where
  "text_element_snapshots ta =
     List.map_filter (\<lambda>e. map_option (\<lambda>s. (te_id e, (te_start e, te_end e), s))
       (str_get (ta_text ta) (te_start e, te_end e))) (ta_elements ta)"

text \<open>The loop of \<open>set_text_inner\<close> over the given ranges.\<close>

fun load_elements :: "text_area \<Rightarrow> (nat \<times> nat) list \<Rightarrow> text_area" where
  "load_elements ta [] = ta"
| "load_elements ta (r # rs) =
     (let start = clamp_pos_to_char_boundary ta (min (fst r) (length (ta_text ta)));
          stop = clamp_pos_to_char_boundary ta (min (snd r) (length (ta_text ta)))
      in if stop \<le> start then load_elements ta rs
         else let (ta1, i) = take_element_id ta
              in load_elements (ta1\<lparr>ta_elements := ta_elements ta1 @ [\<lparr>te_id = i, te_start = start, te_end = stop\<rparr>]\<rparr>) rs)"

definition set_text_inner :: "text_area \<Rightarrow> string \<Rightarrow> (nat \<times> nat) list option \<Rightarrow> text_area" where
  "set_text_inner ta s elements =
     (let ta1 = ta\<lparr>ta_text := s, cursor_pos := min (cursor_pos ta) (length s), ta_elements := []\<rparr>;
          ta2 = (case elements of
                   None \<Rightarrow> ta1
                 | Some rs \<Rightarrow> let t = load_elements ta1 rs in t\<lparr>ta_elements := sort_key te_start (ta_elements t)\<rparr>)
      in ta2\<lparr>cursor_pos := clamp_pos_to_nearest_boundary ta2 (cursor_pos ta2), preferred_col := None\<rparr>)"

definition set_text_clearing_elements :: "text_area \<Rightarrow> string \<Rightarrow> text_area" where
  "set_text_clearing_elements ta s = set_text_inner ta s None"

definition set_text_with_elements :: "text_area \<Rightarrow> string \<Rightarrow> (nat \<times> nat) list \<Rightarrow> text_area" where
  "set_text_with_elements ta s rs = set_text_inner ta s (Some rs)"

text \<open>
  Renaming an element in place: the element keeps its id, the elements behind it move, and the ones
  before it stay.
\<close>

definition renamed_range :: "nat \<Rightarrow> nat \<Rightarrow> nat \<Rightarrow> text_element \<Rightarrow> text_element" where
  "renamed_range start stop inserted_len e =
     (if te_end e \<le> start then e
      else if stop \<le> te_start e then
        e\<lparr>te_start := shift_pos (stop - start) inserted_len (te_start e),
          te_end := shift_pos (stop - start) inserted_len (te_end e)\<rparr>
      else e\<lparr>te_start := min start (te_start e),
             te_end := max (start + inserted_len) (nat (int (te_end e) + (int inserted_len - int (stop - start))))\<rparr>)"

definition find_index :: "('a \<Rightarrow> bool) \<Rightarrow> 'a list \<Rightarrow> nat option" where
  "find_index P xs = (let n = length (takeWhile (\<lambda>x. \<not> P x) xs) in if n < length xs then Some n else None)"

definition replace_element_payload :: "text_area \<Rightarrow> string \<Rightarrow> string \<Rightarrow> text_area \<times> bool" where
  "replace_element_payload ta old new =
     (case find_index (\<lambda>e. str_get (ta_text ta) (te_start e, te_end e) = Some old) (ta_elements ta) of
        None \<Rightarrow> (ta, False)
      | Some idx \<Rightarrow>
          let start = te_start (ta_elements ta ! idx); stop = te_end (ta_elements ta ! idx);
              removed_len = stop - start; inserted_len = length new
          in if stop < start \<or> length (ta_text ta) < stop then (ta, False)
             else
               let text1 = take start (ta_text ta) @ new @ drop stop (ta_text ta);
                   es = (ta_elements ta)[idx := (ta_elements ta ! idx)\<lparr>te_start := start, te_end := start + inserted_len\<rparr>];
                   es1 = (if inserted_len = removed_len then es
                          else map (\<lambda>(j, e). if j = idx then e else renamed_range start stop inserted_len e) (enumerate 0 es));
                   ta1 = ta\<lparr>ta_text := text1, preferred_col := None, ta_elements := es1,
                            cursor_pos := cursor_after_edit start stop inserted_len (cursor_pos ta)\<rparr>;
                   ta2 = ta1\<lparr>cursor_pos := clamp_pos_to_nearest_boundary ta1 (cursor_pos ta1)\<rparr>
               in (ta2\<lparr>ta_elements := sort_key te_start (ta_elements ta2)\<rparr>, True))"

section \<open>Deleting by graphemes\<close>

text \<open>
  \<open>GraphemeCursor::prev_boundary\<close> and \<open>next_boundary\<close> on the whole text: \<open>Inr (Some b)\<close>, \<open>Inr None\<close>
  at the end of the text, or \<open>Inl ()\<close> for \<open>GraphemeIncomplete\<close>.
\<close>

type_synonym grapheme_step = "string \<Rightarrow> nat \<Rightarrow> unit + nat option"

definition prev_atomic_boundary :: "grapheme_step \<Rightarrow> text_area \<Rightarrow> nat \<Rightarrow> nat" where
  "prev_atomic_boundary gprev ta pos =
     (if pos = 0 then 0
      else case find (\<lambda>e. te_start e < pos \<and> pos \<le> te_end e) (ta_elements ta) of
        Some e \<Rightarrow> te_start e
      | None \<Rightarrow>
          (case gprev (ta_text ta) pos of
             Inr (Some b) \<Rightarrow> (case find_element_containing ta b of Some e \<Rightarrow> te_start e | None \<Rightarrow> b)
           | Inr None \<Rightarrow> 0
           | Inl _ \<Rightarrow> pos - 1))"

definition next_atomic_boundary :: "grapheme_step \<Rightarrow> text_area \<Rightarrow> nat \<Rightarrow> nat" where
  "next_atomic_boundary gnext ta pos =
     (if length (ta_text ta) \<le> pos then length (ta_text ta)
      else case find (\<lambda>e. te_start e \<le> pos \<and> pos < te_end e) (ta_elements ta) of
        Some e \<Rightarrow> te_end e
      | None \<Rightarrow>
          (case gnext (ta_text ta) pos of
             Inr (Some b) \<Rightarrow> (case find_element_containing ta b of Some e \<Rightarrow> te_end e | None \<Rightarrow> b)
           | Inr None \<Rightarrow> length (ta_text ta)
           | Inl _ \<Rightarrow> sat_add pos 1))"

text \<open>The Thai nonspacing marks U+0E31, U+0E34 to U+0E3A and U+0E47 to U+0E4E in UTF-8.\<close>

definition is_thai_mark :: "string \<Rightarrow> bool" where
  "is_thai_mark ch \<longleftrightarrow>
     (case map byte ch of
        [b0, b1, b2] \<Rightarrow> b0 = 0xE0 \<and>
          (b1 = 0xB8 \<and> (b2 = 0xB1 \<or> 0xB4 \<le> b2 \<and> b2 \<le> 0xBA) \<or> b1 = 0xB9 \<and> 0x87 \<le> b2 \<and> b2 \<le> 0x8E)
      | _ \<Rightarrow> False)"

text \<open>The loop over \<open>0..n\<close> of \<open>delete_backward\<close>; \<open>None\<close> is the panic of the slice \<open>text[..target]\<close>.\<close>

fun backward_target :: "grapheme_step \<Rightarrow> text_area \<Rightarrow> nat \<Rightarrow> nat \<Rightarrow> nat option" where
  "backward_target gprev ta 0 target = Some target"
| "backward_target gprev ta (Suc n) target =
     (if \<not> is_char_boundary (ta_text ta) target then None
      else
        let cs = chars (take target (ta_text ta));
            target' = (if cs \<noteq> [] \<and> is_thai_mark (last cs) \<and>
                          \<not> list_ex (\<lambda>e. te_start e < target \<and> target \<le> te_end e) (ta_elements ta)
                       then target - length (last cs) else prev_atomic_boundary gprev ta target)
        in if target' = 0 then Some 0 else backward_target gprev ta n target')"

definition delete_backward :: "grapheme_step \<Rightarrow> text_area \<Rightarrow> nat \<Rightarrow> text_area option" where
  "delete_backward gprev ta n =
     (if n = 0 \<or> cursor_pos ta = 0 then Some ta
      else Option.bind (backward_target gprev ta n (cursor_pos ta))
        (\<lambda>target. ta_replace_range ta (target, cursor_pos ta) []))"

fun forward_target :: "grapheme_step \<Rightarrow> text_area \<Rightarrow> nat \<Rightarrow> nat \<Rightarrow> nat" where
  "forward_target gnext ta 0 target = target"
| "forward_target gnext ta (Suc n) target =
     (let target' = next_atomic_boundary gnext ta target
      in if length (ta_text ta) \<le> target' then target' else forward_target gnext ta n target')"

definition delete_forward :: "grapheme_step \<Rightarrow> text_area \<Rightarrow> nat \<Rightarrow> text_area option" where
  "delete_forward gnext ta n =
     (if n = 0 \<or> length (ta_text ta) \<le> cursor_pos ta then Some ta
      else ta_replace_range ta (cursor_pos ta, forward_target gnext ta n (cursor_pos ta)) [])"

definition delete_forward_kill :: "grapheme_step \<Rightarrow> text_area \<Rightarrow> nat \<Rightarrow> text_area option" where
  "delete_forward_kill gnext ta n =
     (if n = 0 \<or> length (ta_text ta) \<le> cursor_pos ta then Some ta
      else kill_range ta (cursor_pos ta, forward_target gnext ta n (cursor_pos ta)))"

definition move_cursor_left :: "grapheme_step \<Rightarrow> text_area \<Rightarrow> text_area" where
  "move_cursor_left gprev ta = ta\<lparr>cursor_pos := prev_atomic_boundary gprev ta (cursor_pos ta), preferred_col := None\<rparr>"

definition move_cursor_right :: "grapheme_step \<Rightarrow> text_area \<Rightarrow> text_area" where
  "move_cursor_right gnext ta = ta\<lparr>cursor_pos := next_atomic_boundary gnext ta (cursor_pos ta), preferred_col := None\<rparr>"

definition paste_after_cursor :: "grapheme_step \<Rightarrow> text_area \<Rightarrow> text_area" where
  "paste_after_cursor gnext ta =
     (if kill_buffer ta = [] then ta
      else if kill_kind ta = Linewise then paste_line_after_current_line ta
      else let ta1 = set_cursor ta (next_atomic_boundary gnext ta (cursor_pos ta))
           in ta_insert_str ta1 (kill_buffer ta1))"

section \<open>Positions of valid text\<close>

lemma str_start_append: "str_start (x @ y) = (if x = [] then str_start y else str_start x)"
  by (cases x) (simp_all add: str_start_def)

lemma str_start_take: "0 < n \<Longrightarrow> str_start (take n x) = str_start x"
  by (cases x; cases n) (simp_all add: str_start_def)

lemma str_start_drop: "str_start (drop k s) \<longleftrightarrow> length s \<le> k \<or> \<not> is_continuation (s ! k)"
  by (cases "drop k s") (auto simp: str_start_def nth_via_drop)

lemma boundary_iff:
  "str_start s \<Longrightarrow> is_char_boundary s k \<longleftrightarrow> k \<le> length s \<and> str_start (drop k s)"
  using str_start_drop [of 0 s] by (auto simp: is_char_boundary_def str_start_drop)

lemma check_tail_continuation:
  "check_tail seen n s = ValidChar m \<Longrightarrow> i < n \<Longrightarrow> is_continuation (s ! i)"
proof (induction seen n s arbitrary: i rule: check_tail.induct)
  case (3 seen n c s)
  then show ?case by (cases i) (auto split: if_splits)
qed simp_all

lemma second_ok_continuation: "second_ok b c \<Longrightarrow> is_continuation c"
  by (auto simp: second_ok_def is_continuation_def split: if_splits)

lemma utf8_first_continuation:
  assumes "utf8_first s = ValidChar n" "0 < i" "i < n"
  shows "is_continuation (s ! i)"
proof -
  obtain b c r where s: "s = b # c # r" and w: "1 < utf8_width b" "second_ok b c"
    "check_tail 2 (utf8_width b - 2) r = ValidChar n"
    using assms by (cases s) (auto split: if_splits list.splits)
  show ?thesis
  proof (cases "i = 1")
    case True
    with s second_ok_continuation [OF w(2)] show ?thesis by simp
  next
    case False
    with assms(2) obtain j where j: "i = j + 2" by (metis One_nat_def add_2_eq_Suc' less_nat_zero_code not0_implies_Suc)
    with assms(3) check_tail_Valid [OF w(3)] have "j < utf8_width b - 2" by simp
    from check_tail_continuation [OF w(3) this] show ?thesis using s j by simp
  qed
qed

lemma utf8_first_lead: "utf8_first s = ValidChar n \<Longrightarrow> str_start s"
  by (cases s) (auto simp: str_start_def utf8_width_def is_continuation_def split: if_splits)

lemma valid_str_start: "from_utf8 s = Utf8Ok \<Longrightarrow> str_start s"
  using from_utf8_Cons [of s] by (auto split: if_splits first_result.splits dest: utf8_first_lead simp: str_start_def)

lemma valid_Nil [simp]: "from_utf8 [] = Utf8Ok"
  by (simp add: from_utf8_Cons [of "[]"])

lemma valid_ConsE:
  assumes "from_utf8 s = Utf8Ok" "s \<noteq> []"
  obtains n where "utf8_first s = ValidChar n" "from_utf8 (drop n s) = Utf8Ok"
  using assms by (auto simp: from_utf8_Cons [of s] split: first_result.splits utf8_result.splits)

lemma check_tail_extend: "check_tail seen n s = ValidChar m \<Longrightarrow> check_tail seen n (s @ t) = ValidChar m"
  by (induction seen n s rule: check_tail.induct) (auto split: if_splits)

lemma utf8_first_extend: "utf8_first s = ValidChar n \<Longrightarrow> utf8_first (s @ t) = ValidChar n"
  by (cases s) (auto split: if_splits list.splits dest: check_tail_extend)

lemma valid_append:
  assumes "from_utf8 a = Utf8Ok" "from_utf8 b = Utf8Ok"
  shows "from_utf8 (a @ b) = Utf8Ok"
  using assms(1)
proof (induction "length a" arbitrary: a rule: less_induct)
  case less
  show ?case
  proof (cases "a = []")
    case False
    with less.prems obtain n where n: "utf8_first a = ValidChar n" "from_utf8 (drop n a) = Utf8Ok"
      by (rule valid_ConsE)
    moreover have "length (drop n a) < length a" using utf8_first_Valid [OF n(1)] by auto
    ultimately have "from_utf8 (drop n a @ b) = Utf8Ok" using less.hyps by blast
    with n utf8_first_extend [OF n(1)] utf8_first_Valid [OF n(1)] show ?thesis
      by (simp add: from_utf8_Cons [of "a @ b"])
  qed (simp add: assms(2))
qed

lemma valid_split:
  assumes "from_utf8 (a @ b) = Utf8Ok" "str_start b"
  shows "from_utf8 a = Utf8Ok" "from_utf8 b = Utf8Ok"
proof -
  have "from_utf8 a = Utf8Ok \<and> from_utf8 b = Utf8Ok"
  proof (rule ccontr)
    assume neg: "\<not> ?thesis"
    then obtain v where v: "v < length a" "from_utf8 (drop v a) = Utf8Err 0 None" "from_utf8 (drop v a @ b) = Utf8Ok"
      using valid_prefix_split [OF assms(1)] by blast
    let ?d = "drop v a"
    have d: "?d \<noteq> []" using v(1) by simp
    with v(3) obtain n where n: "utf8_first (?d @ b) = ValidChar n" by (blast elim: valid_ConsE)
    have "\<not> n \<le> length ?d"
    proof
      assume "n \<le> length ?d"
      with utf8_first_prefix [OF n d] have "utf8_first ?d = ValidChar n" by simp
      with v(2) d utf8_first_Valid [OF this] show False
        by (auto simp: from_utf8_Cons [of ?d] split: utf8_result.splits)
    qed
    then have "is_continuation ((?d @ b) ! length ?d)" "b \<noteq> []"
      using utf8_first_continuation [OF n, of "length ?d"] utf8_first_Valid [OF n] d by auto
    with assms(2) show False by (cases b) (auto simp: str_start_def nth_append)
  qed
  then show "from_utf8 a = Utf8Ok" "from_utf8 b = Utf8Ok" by auto
qed

lemma valid_take_drop:
  assumes "from_utf8 s = Utf8Ok" "is_char_boundary s k"
  shows "from_utf8 (take k s) = Utf8Ok" "from_utf8 (drop k s) = Utf8Ok"
  using valid_split [of "take k s" "drop k s"] assms boundary_iff [OF valid_str_start [OF assms(1)]] by auto

text \<open>A code point below 128 is a byte of its own, so the positions around it are boundaries.\<close>

lemma valid_after_ascii:
  assumes "from_utf8 s = Utf8Ok" "i < length s" "byte (s ! i) < 128"
  shows "is_char_boundary s i" "is_char_boundary s (Suc i)"
proof -
  show i: "is_char_boundary s i"
    using assms(2,3) by (simp add: is_char_boundary_def is_continuation_def)
  let ?d = "drop i s"
  have "from_utf8 ?d = Utf8Ok" by (rule valid_take_drop [OF assms(1) i])
  then obtain n where n: "utf8_first ?d = ValidChar n" "from_utf8 (drop n ?d) = Utf8Ok"
    using assms(2) by (auto elim: valid_ConsE)
  have "?d = s ! i # drop (Suc i) s" using assms(2) by (simp add: Cons_nth_drop_Suc)
  with n(1) assms(3) have "n = 1" by (auto simp: utf8_width_def split: if_splits)
  with valid_str_start [OF n(2)] assms(2) show "is_char_boundary s (Suc i)"
    by (auto simp: boundary_iff [OF valid_str_start [OF assms(1)]] add.commute)
qed

section \<open>Splicing\<close>

text \<open>What an edit does to the text: the bytes from \<open>a\<close> to \<open>b\<close> give way to \<open>ins\<close>.\<close>

definition spliced :: "string \<Rightarrow> nat \<Rightarrow> nat \<Rightarrow> string \<Rightarrow> string" where
  "spliced s a b ins = take a s @ ins @ drop b s"

lemma length_splice: "a \<le> b \<Longrightarrow> b \<le> length s \<Longrightarrow> length (spliced s a b ins) = length s - (b - a) + length ins"
  by (simp add: spliced_def)

lemma shift_pos_after: "a \<le> b \<Longrightarrow> b \<le> p \<Longrightarrow> shift_pos (b - a) n p = p - b + a + n"
  by (simp add: shift_pos_def of_nat_diff)

lemma splice_valid:
  assumes "from_utf8 s = Utf8Ok" "from_utf8 ins = Utf8Ok" "is_char_boundary s a" "is_char_boundary s b"
  shows "from_utf8 (spliced s a b ins) = Utf8Ok"
  unfolding spliced_def
  by (intro valid_append assms valid_take_drop)

lemma splice_boundary_before:
  assumes s: "from_utf8 s = Utf8Ok" and ins: "from_utf8 ins = Utf8Ok"
    and ab: "is_char_boundary s a" "is_char_boundary s b"
    and p: "is_char_boundary s p" "p \<le> a"
  shows "is_char_boundary (spliced s a b ins) p"
proof -
  note b = boundary_iff [OF valid_str_start [OF s]]
  note sp = valid_str_start [OF splice_valid [OF s ins ab]]
  have "str_start (drop b s)" using ab b by blast
  with valid_str_start [OF ins] have tl: "str_start (ins @ drop b s)" by (simp add: str_start_append)
  have "a \<le> length s" using ab b by blast
  then have "drop p (spliced s a b ins) = take (a - p) (drop p s) @ ins @ drop b s"
    using p(2) by (simp add: spliced_def drop_take)
  moreover have "p < a \<Longrightarrow> str_start (take (a - p) (drop p s)) \<and> take (a - p) (drop p s) \<noteq> []"
    using p b \<open>a \<le> length s\<close> by (simp add: str_start_take)
  ultimately have "str_start (drop p (spliced s a b ins))"
    using tl p(2) by (cases "p = a") (auto simp: str_start_append)
  moreover have "p \<le> length (spliced s a b ins)" using p(2) \<open>a \<le> length s\<close> by (simp add: spliced_def)
  ultimately show ?thesis by (simp add: boundary_iff [OF sp])
qed

lemma drop_splice: "a \<le> b \<Longrightarrow> b \<le> length s \<Longrightarrow> b \<le> p \<Longrightarrow> drop (p - b + a + length ins) (spliced s a b ins) = drop p s"
  by (simp add: spliced_def)

lemma splice_boundary_after:
  assumes s: "from_utf8 s = Utf8Ok" and ins: "from_utf8 ins = Utf8Ok"
    and ab: "is_char_boundary s a" "is_char_boundary s b" "a \<le> b"
    and p: "is_char_boundary s p" "b \<le> p"
  shows "is_char_boundary (spliced s a b ins) (p - b + a + length ins)"
proof -
  note b = boundary_iff [OF valid_str_start [OF s]]
  have "b \<le> length s" "p \<le> length s" "str_start (drop p s)" using ab p b by blast+
  with drop_splice [OF ab(3) _ p(2)] length_splice [OF ab(3)] p(2) ab(3) show ?thesis
    by (simp add: boundary_iff [OF valid_str_start [OF splice_valid [OF s ins ab(1,2)]]])
qed

lemma splice_slice_before: "y \<le> a \<Longrightarrow> a \<le> length s \<Longrightarrow> str_slice (spliced s a b ins) (x, y) = str_slice s (x, y)"
  by (cases "x \<le> a") (simp_all add: str_slice_def spliced_def drop_take)

lemma splice_slice_after:
  "a \<le> b \<Longrightarrow> b \<le> length s \<Longrightarrow> b \<le> x \<Longrightarrow> x \<le> y \<Longrightarrow>
     str_slice (spliced s a b ins) (x - b + a + length ins, y - b + a + length ins) = str_slice s (x, y)"
  using drop_splice [of a b s x ins] by (simp add: str_slice_def)

section \<open>Well-formed buffers\<close>

definition elem_ok :: "string \<Rightarrow> text_element \<Rightarrow> bool" where
  "elem_ok s e \<longleftrightarrow> te_start e < te_end e \<and> is_char_boundary s (te_start e) \<and> is_char_boundary s (te_end e)"

definition wf_elements :: "string \<Rightarrow> text_element list \<Rightarrow> bool" where
  "wf_elements s es \<longleftrightarrow> list_all (elem_ok s) es \<and> sorted_wrt (\<lambda>e f. te_end e \<le> te_start f) es"

definition free_pos :: "text_element list \<Rightarrow> nat \<Rightarrow> bool" where
  "free_pos es p \<longleftrightarrow> list_all (\<lambda>e. \<not> strictly_inside p e) es"

definition cursor_ok :: "string \<Rightarrow> text_element list \<Rightarrow> nat \<Rightarrow> bool" where
  "cursor_ok s es p \<longleftrightarrow> is_char_boundary s p \<and> free_pos es p"

definition wf_text_area :: "text_area \<Rightarrow> bool" where
  "wf_text_area ta \<longleftrightarrow>
     from_utf8 (ta_text ta) = Utf8Ok \<and> from_utf8 (kill_buffer ta) = Utf8Ok \<and>
     wf_elements (ta_text ta) (ta_elements ta) \<and> cursor_ok (ta_text ta) (ta_elements ta) (cursor_pos ta)"

lemma boundary_le: "is_char_boundary s k \<Longrightarrow> k \<le> length s"
  by (auto simp: is_char_boundary_def)

lemma elements_disjoint:
  assumes "wf_elements s es" "e \<in> set es" "f \<in> set es" "e \<noteq> f"
  shows "te_end e \<le> te_start f \<or> te_end f \<le> te_start e"
proof -
  obtain i j where "i < length es" "j < length es" "e = es ! i" "f = es ! j" using assms(2,3) by (auto simp: in_set_conv_nth)
  with assms(1,4) show ?thesis
    using sorted_wrt_nth_less [of "\<lambda>e f. te_end e \<le> te_start f" es]
    by (cases i j rule: linorder_cases) (auto simp: wf_elements_def)
qed

lemma wf_elements_ok: "wf_elements s es \<Longrightarrow> e \<in> set es \<Longrightarrow> elem_ok s e"
  by (simp add: wf_elements_def list_all_iff)

lemma prev_boundary_from_boundary: "is_char_boundary s (prev_boundary_from s p)"
proof (induction s p rule: prev_boundary_from.induct)
  case (1 s p)
  then show ?case by (subst prev_boundary_from.simps) (auto simp: is_char_boundary_def)
qed

lemma next_boundary_from_boundary: "p \<le> length s \<Longrightarrow> is_char_boundary s (next_boundary_from s p)"
proof (induction s p rule: next_boundary_from.induct)
  case (1 s p)
  then show ?case by (subst next_boundary_from.simps) (auto simp: is_char_boundary_def)
qed

lemma clamp_char_boundary: "is_char_boundary (ta_text ta) (clamp_pos_to_char_boundary ta p)"
  by (simp add: clamp_pos_to_char_boundary_def Let_def prev_boundary_from_boundary next_boundary_from_boundary)

lemma clamp_char_id [simp]: "is_char_boundary (ta_text ta) p \<Longrightarrow> clamp_pos_to_char_boundary ta p = p"
  using boundary_le [of "ta_text ta" p] by (simp add: clamp_pos_to_char_boundary_def min_absorb1)

lemma find_element_None: "find_element_containing ta p = None \<longleftrightarrow> free_pos (ta_elements ta) p"
  by (auto simp: find_element_containing_def find_None_iff free_pos_def list_all_iff)

lemma clamp_nearest_id [simp]:
  "cursor_ok (ta_text ta) (ta_elements ta) p \<Longrightarrow> clamp_pos_to_nearest_boundary ta p = p"
  using find_element_None [of ta p] by (simp add: clamp_pos_to_nearest_boundary_def cursor_ok_def)

lemma clamp_insertion: "clamp_pos_for_insertion ta p = clamp_pos_to_nearest_boundary ta p"
  by (simp add: clamp_pos_for_insertion_def clamp_pos_to_nearest_boundary_def)

lemma element_ends_free:
  assumes "wf_elements s es" "e \<in> set es"
  shows "cursor_ok s es (te_start e)" "cursor_ok s es (te_end e)"
proof -
  have e: "elem_ok s e" using assms by (rule wf_elements_ok)
  have "\<not> strictly_inside (te_start e) f \<and> \<not> strictly_inside (te_end e) f" if f: "f \<in> set es" for f
  proof (cases "f = e")
    case False
    with elements_disjoint [OF assms(1,2) f] e wf_elements_ok [OF assms(1) f] show ?thesis
      by (auto simp: strictly_inside_def elem_ok_def)
  qed (simp add: strictly_inside_def)
  with e show "cursor_ok s es (te_start e)" "cursor_ok s es (te_end e)"
    by (auto simp: cursor_ok_def free_pos_def list_all_iff elem_ok_def)
qed

lemma clamp_nearest_ok:
  assumes wf: "wf_elements (ta_text ta) (ta_elements ta)"
  shows "cursor_ok (ta_text ta) (ta_elements ta) (clamp_pos_to_nearest_boundary ta p)"
proof (cases "find_element_containing ta (clamp_pos_to_char_boundary ta p)")
  case None
  with clamp_char_boundary [of ta p] show ?thesis
    by (simp add: clamp_pos_to_nearest_boundary_def find_element_None [symmetric] cursor_ok_def)
next
  case (Some e)
  then have "e \<in> set (ta_elements ta)" by (auto simp: find_element_containing_def find_Some_iff)
  with element_ends_free [OF wf] wf_elements_ok [OF wf] Some show ?thesis
    by (auto simp: clamp_pos_to_nearest_boundary_def Let_def elem_ok_def)
qed

section \<open>Edits take or leave elements as a whole\<close>

text \<open>A range with no element across its ends.\<close>

definition clear_cut :: "text_element list \<Rightarrow> nat \<times> nat \<Rightarrow> bool" where
  "clear_cut es r \<longleftrightarrow>
     (\<forall>e\<in>set es. te_end e \<le> fst r \<or> snd r \<le> te_start e \<or> fst r \<le> te_start e \<and> te_end e \<le> snd r)"

lemma expand_pass_fix: "expand_pass es r = r \<Longrightarrow> e \<in> set es \<Longrightarrow> expand_step r e = r"
proof (induction es)
  case (Cons f es)
  let ?r = "expand_step r f"
  have "fst (expand_pass es ?r) \<le> fst ?r" "snd ?r \<le> snd (expand_pass es ?r)" "expand_pass es ?r = r"
    using expand_pass_grows [of es ?r] Cons.prems(1) by (auto simp: expand_pass_def)
  then have r: "?r = r" using expand_step_grows [of r f] by (simp add: prod_eq_iff)
  with Cons \<open>expand_pass es ?r = r\<close> show ?case by auto
qed simp

lemma expand_range_props:
  "fst (expand_range es r) \<le> fst r \<and> snd r \<le> snd (expand_range es r) \<and>
   fst (expand_range es r) \<in> insert (fst r) (te_start ` set es) \<and>
   snd (expand_range es r) \<in> insert (snd r) (te_end ` set es) \<and> clear_cut es (expand_range es r)"
proof (induction es r rule: expand_range.induct)
  case (1 es r)
  show ?case
  proof (cases "expand_pass es r = r")
    case True
    have "clear_cut es r"
      unfolding clear_cut_def
    proof
      fix e assume "e \<in> set es"
      from expand_pass_fix [OF True this]
      show "te_end e \<le> fst r \<or> snd r \<le> te_start e \<or> fst r \<le> te_start e \<and> te_end e \<le> snd r"
        by (auto simp: expand_step_def prod_eq_iff split: if_splits)
    qed
    with True show ?thesis by (simp add: expand_range.simps [of es r])
  next
    case False
    with 1 [OF False] expand_pass_grows [of es r] expand_pass_ends [of es r] show ?thesis
      by (subst (1 2 3 4 5) expand_range.simps) auto
  qed
qed

definition survives :: "nat \<times> nat \<Rightarrow> text_element \<Rightarrow> bool" where
  "survives r e \<longleftrightarrow> \<not> (fst r \<le> te_start e \<and> te_end e \<le> snd r)"

lemma shift_survivor:
  assumes "clear_cut es (a, b)" "e \<in> set es" "survives (a, b) e" "a \<le> b" "te_start e < te_end e"
  obtains "te_end e \<le> a" "shift_element a (b - a) n e = e"
  | "b \<le> te_start e"
    "shift_element a (b - a) n e = e\<lparr>te_start := te_start e - b + a + n, te_end := te_end e - b + a + n\<rparr>"
proof -
  consider "te_end e \<le> a" | "b \<le> te_start e" "a < te_end e"
    using assms by (force simp: clear_cut_def survives_def)
  then show thesis
    using assms(4,5) that by cases (auto simp: shift_element_def shift_pos_after)
qed

text \<open>The text of an element with its id.\<close>

definition label_of :: "string \<Rightarrow> text_element \<Rightarrow> nat \<times> string" where
  "label_of s e = (te_id e, str_slice s (te_start e, te_end e))"

lemma spliced_element:
  assumes s: "from_utf8 s = Utf8Ok" and ins: "from_utf8 ins = Utf8Ok"
    and ab: "is_char_boundary s a" "is_char_boundary s b" "a \<le> b"
    and cut: "clear_cut es (a, b)" and e: "e \<in> set es" "survives (a, b) e" "elem_ok s e"
  shows "elem_ok (spliced s a b ins) (shift_element a (b - a) (length ins) e) \<and>
    label_of (spliced s a b ins) (shift_element a (b - a) (length ins) e) = label_of s e"
proof -
  let ?n = "length ins"
  have lt: "te_start e < te_end e" and be: "is_char_boundary s (te_start e)" "is_char_boundary s (te_end e)"
    using e(3) by (auto simp: elem_ok_def)
  have len: "a \<le> length s" "b \<le> length s" using ab boundary_le by blast+
  show ?thesis
  proof (rule shift_survivor [OF cut e(1,2) ab(3) lt, of ?n])
    assume "te_end e \<le> a" "shift_element a (b - a) ?n e = e"
    with be lt len splice_boundary_before [OF s ins ab(1,2)] splice_slice_before [of "te_end e" a s]
    show ?thesis by (simp add: elem_ok_def label_of_def)
  next
    assume "b \<le> te_start e"
      "shift_element a (b - a) ?n e = e\<lparr>te_start := te_start e - b + a + ?n, te_end := te_end e - b + a + ?n\<rparr>"
    with be lt len splice_boundary_after [OF s ins ab] splice_slice_after [OF ab(3) len(2), of "te_start e" "te_end e"]
    show ?thesis by (simp add: elem_ok_def label_of_def)
  qed
qed

lemma spliced_cursor:
  assumes s: "from_utf8 s = Utf8Ok" and ins: "from_utf8 ins = Utf8Ok"
    and ab: "is_char_boundary s a" "is_char_boundary s b" "a \<le> b"
    and cut: "clear_cut es (a, b)" and wf: "wf_elements s es" and p: "cursor_ok s es p"
  defines "es' \<equiv> map (shift_element a (b - a) (length ins)) (filter (survives (a, b)) es)"
  shows "p \<le> a \<Longrightarrow> cursor_ok (spliced s a b ins) es' p"
    and "b \<le> p \<Longrightarrow> cursor_ok (spliced s a b ins) es' (p - b + a + length ins)"
proof -
  let ?n = "length ins"
  have cases: "te_end e \<le> a \<and> shift_element a (b - a) ?n e = e \<or> b \<le> te_start e \<and>
     shift_element a (b - a) ?n e = e\<lparr>te_start := te_start e - b + a + ?n, te_end := te_end e - b + a + ?n\<rparr>"
    if "e \<in> set es" "survives (a, b) e" for e
  proof -
    have "te_start e < te_end e" using wf_elements_ok [OF wf that(1)] by (simp add: elem_ok_def)
    from shift_survivor [OF cut that ab(3) this] show ?thesis by blast
  qed
  have free: "\<not> strictly_inside p e" if "e \<in> set es" for e
    using p that by (simp add: cursor_ok_def free_pos_def list_all_iff)
  have "\<not> strictly_inside p (shift_element a (b - a) ?n e)"
    if "p \<le> a" "e \<in> set es" "survives (a, b) e" for e
    using cases [OF that(2,3)] free [OF that(2)] that(1) by (auto simp: strictly_inside_def)
  moreover have "\<not> strictly_inside (p - b + a + ?n) (shift_element a (b - a) ?n e)"
    if "b \<le> p" "e \<in> set es" "survives (a, b) e" for e
    using cases [OF that(2,3)] free [OF that(2)] that(1) by (auto simp: strictly_inside_def)
  moreover have "is_char_boundary s p" using p by (simp add: cursor_ok_def)
  ultimately show "p \<le> a \<Longrightarrow> cursor_ok (spliced s a b ins) es' p"
    and "b \<le> p \<Longrightarrow> cursor_ok (spliced s a b ins) es' (p - b + a + ?n)"
    using splice_boundary_before [OF s ins ab(1,2)] splice_boundary_after [OF s ins ab]
    by (auto simp: es'_def cursor_ok_def free_pos_def list_all_iff)
qed

lemma spliced_elements:
  assumes s: "from_utf8 s = Utf8Ok" and ins: "from_utf8 ins = Utf8Ok"
    and ab: "is_char_boundary s a" "is_char_boundary s b" "a \<le> b"
    and cut: "clear_cut es (a, b)" and wf: "wf_elements s es"
  defines "es' \<equiv> map (shift_element a (b - a) (length ins)) (filter (survives (a, b)) es)"
  shows "wf_elements (spliced s a b ins) es'"
    and "map (label_of (spliced s a b ins)) es' = map (label_of s) (filter (survives (a, b)) es)"
proof -
  let ?n = "length ins" and ?k = "filter (survives (a, b)) es"
  have el: "elem_ok (spliced s a b ins) (shift_element a (b - a) ?n e) \<and>
      label_of (spliced s a b ins) (shift_element a (b - a) ?n e) = label_of s e" if "e \<in> set ?k" for e
    using that spliced_element [OF s ins ab cut _ _ wf_elements_ok [OF wf]] by simp
  then show "map (label_of (spliced s a b ins)) es' = map (label_of s) ?k"
    by (simp add: es'_def)
  have "sorted_wrt (\<lambda>e f. te_end (shift_element a (b - a) ?n e) \<le> te_start (shift_element a (b - a) ?n f)) ?k"
  proof (rule sorted_wrt_mono_rel [where P = "\<lambda>e f. te_end e \<le> te_start f"])
    show "sorted_wrt (\<lambda>e f. te_end e \<le> te_start f) ?k"
      using wf by (simp add: wf_elements_def sorted_wrt_filter)
  next
    fix e f assume ef: "e \<in> set ?k" "f \<in> set ?k" "te_end e \<le> te_start f"
    have lt: "te_start e < te_end e" "te_start f < te_end f"
      using wf_elements_ok [OF wf] ef(1,2) by (auto simp: elem_ok_def)
    show "te_end (shift_element a (b - a) ?n e) \<le> te_start (shift_element a (b - a) ?n f)"
      by (rule shift_survivor [OF cut _ _ ab(3) lt(1), of ?n]; (rule shift_survivor [OF cut _ _ ab(3) lt(2), of ?n])?)
        (use ef lt ab(3) in auto)
  qed
  with el show "wf_elements (spliced s a b ins) es'"
    by (auto simp: wf_elements_def es'_def sorted_wrt_map list_all_iff)
qed

text \<open>
  The effect of an edit of the range \<open>a..b\<close>: the text is spliced, the elements inside the range are
  gone, every other element keeps its id and its text, and the cursor moves with the text around it.
\<close>

definition edited :: "text_area \<Rightarrow> nat \<Rightarrow> nat \<Rightarrow> string \<Rightarrow> text_area \<Rightarrow> bool" where
  "edited ta a b ins ta' \<longleftrightarrow>
     ta_text ta' = spliced (ta_text ta) a b ins \<and>
     map (label_of (ta_text ta')) (ta_elements ta') =
       map (label_of (ta_text ta)) (filter (survives (a, b)) (ta_elements ta)) \<and>
     cursor_pos ta' = cursor_after_edit a b (length ins) (cursor_pos ta) \<and>
     kill_buffer ta' = kill_buffer ta \<and> kill_kind ta' = kill_kind ta \<and> next_element_id ta' = next_element_id ta"

lemma clear_cut_free:
  assumes "clear_cut es (a, b)" "is_char_boundary s a" "is_char_boundary s b" "a \<le> b"
  shows "cursor_ok s es a" "cursor_ok s es b"
  using assms by (fastforce simp: cursor_ok_def free_pos_def list_all_iff strictly_inside_def clear_cut_def)+

lemma cursor_after_edit_ok:
  assumes s: "from_utf8 s = Utf8Ok" and ins: "from_utf8 ins = Utf8Ok"
    and ab: "is_char_boundary s a" "is_char_boundary s b" "a \<le> b"
    and cut: "clear_cut es (a, b)" and wf: "wf_elements s es" and p: "cursor_ok s es p"
  shows "cursor_ok (spliced s a b ins) (map (shift_element a (b - a) (length ins)) (filter (survives (a, b)) es))
    (cursor_after_edit a b (length ins) p)"
proof -
  note sc = spliced_cursor [OF s ins ab cut wf]
  consider "p < a" | "a \<le> p" "p \<le> b" | "b < p" by linarith
  then show ?thesis
  proof cases
    case 1
    with sc(1) [OF p] show ?thesis by (simp add: cursor_after_edit_def)
  next
    case 2
    with sc(2) [OF clear_cut_free(2) [OF cut ab]] show ?thesis by (simp add: cursor_after_edit_def)
  next
    case 3
    with sc(2) [OF p] ab(3) show ?thesis by (simp add: cursor_after_edit_def shift_pos_after)
  qed
qed

lemma shift_elements_survivors:
  assumes "a \<le> b"
  shows "shift_elements ta a (b - a) n =
    ta\<lparr>ta_elements := map (shift_element a (b - a) n) (filter (survives (a, b)) (ta_elements ta))\<rparr>"
proof -
  have "(\<lambda>e. \<not> (a \<le> te_start e \<and> te_end e \<le> a + (b - a))) = survives (a, b)"
    using assms by (simp add: fun_eq_iff survives_def)
  then show ?thesis unfolding shift_elements_def by simp
qed

lemma replace_range_raw_edits:
  assumes wf: "wf_text_area ta" and ins: "from_utf8 ins = Utf8Ok"
    and ab: "is_char_boundary (ta_text ta) a" "is_char_boundary (ta_text ta) b" "a \<le> b"
    and cut: "clear_cut (ta_elements ta) (a, b)"
  obtains ta' where "replace_range_raw ta (a, b) ins = Some ta'" "wf_text_area ta'" "edited ta a b ins ta'"
proof (cases "a = b \<and> ins = []")
  case True
  have "\<forall>e\<in>set (ta_elements ta). survives (a, b) e"
    using wf True wf_elements_ok [of "ta_text ta" "ta_elements ta"]
    by (fastforce simp: wf_text_area_def survives_def elem_ok_def)
  then have "filter (survives (a, b)) (ta_elements ta) = ta_elements ta" by (simp add: filter_id_conv)
  with True ab(1) boundary_le [OF ab(1)] wf that [of ta] show thesis
    by (simp add: replace_range_raw_def edited_def spliced_def cursor_after_edit_def shift_pos_def)
next
  case False
  let ?s = "ta_text ta" and ?es = "map (shift_element a (b - a) (length ins)) (filter (survives (a, b)) (ta_elements ta))"
  have s: "from_utf8 ?s = Utf8Ok" and es: "wf_elements ?s (ta_elements ta)"
    and cur: "cursor_ok ?s (ta_elements ta) (cursor_pos ta)" and kill: "from_utf8 (kill_buffer ta) = Utf8Ok"
    using wf by (auto simp: wf_text_area_def)
  have len: "a \<le> length ?s" "b \<le> length ?s" using ab boundary_le by blast+
  note e' = spliced_elements [OF s ins ab cut es]
  note c' = cursor_after_edit_ok [OF s ins ab cut es cur]
  let ?ta' = "ta\<lparr>ta_text := spliced ?s a b ins, preferred_col := None, ta_elements := ?es,
    cursor_pos := cursor_after_edit a b (length ins) (cursor_pos ta)\<rparr>"
  have "cursor_after_edit a b (length ins) (cursor_pos ta) \<le> length (spliced ?s a b ins)"
    using c' boundary_le by (auto simp: cursor_ok_def)
  then have m: "min (cursor_after_edit a b (length ins) (cursor_pos ta)) (length (spliced ?s a b ins)) =
      cursor_after_edit a b (length ins) (cursor_pos ta)" by simp
  have "string_replace_range ?s (a, b) ins = Some (spliced ?s a b ins)" "\<not> (b - a = 0 \<and> length ins = 0)"
    using ab len False by (auto simp: string_replace_range_def spliced_def)
  then have "replace_range_raw ta (a, b) ins = Some ?ta'"
    using ab(3) len clamp_nearest_id [of ?ta'] c' m
    by (auto simp: replace_range_raw_def update_elements_after_replace_def shift_elements_survivors Let_def min_absorb1)
  moreover have "wf_text_area ?ta'"
    using e'(1) c' kill splice_valid [OF s ins ab(1,2)] by (simp add: wf_text_area_def)
  moreover have "edited ta a b ins ?ta'"
    using e'(2) by (simp add: edited_def)
  ultimately show thesis by (rule that)
qed

lemma insert_str_at_edits:
  fixes pos :: nat
  assumes wf: "wf_text_area ta" and ins: "from_utf8 ins = Utf8Ok"
  defines "p \<equiv> clamp_pos_for_insertion ta pos"
  shows "wf_text_area (insert_str_at ta pos ins)" "edited ta p p ins (insert_str_at ta pos ins)"
proof -
  let ?s = "ta_text ta" and ?es = "map (shift_element p 0 (length ins)) (filter (survives (p, p)) (ta_elements ta))"
  have s: "from_utf8 ?s = Utf8Ok" and es: "wf_elements ?s (ta_elements ta)"
    and cur: "cursor_ok ?s (ta_elements ta) (cursor_pos ta)" and kill: "from_utf8 (kill_buffer ta) = Utf8Ok"
    using wf by (auto simp: wf_text_area_def)
  have p: "cursor_ok ?s (ta_elements ta) p"
    unfolding p_def clamp_insertion by (rule clamp_nearest_ok [OF es])
  then have pb: "is_char_boundary ?s p" and cut: "clear_cut (ta_elements ta) (p, p)"
    by (auto simp: cursor_ok_def free_pos_def list_all_iff strictly_inside_def clear_cut_def)
  note e' = spliced_elements [OF s ins pb pb order_refl cut es, unfolded diff_self_eq_0]
  note c' = cursor_after_edit_ok [OF s ins pb pb order_refl cut es cur, unfolded diff_self_eq_0]
  have cursor: "(if p \<le> cursor_pos ta then cursor_pos ta + length ins else cursor_pos ta) =
      cursor_after_edit p p (length ins) (cursor_pos ta)"
    by (auto simp: cursor_after_edit_def shift_pos_def)
  have eq: "insert_str_at ta pos ins = ta\<lparr>ta_text := spliced ?s p p ins, preferred_col := None, ta_elements := ?es,
    cursor_pos := cursor_after_edit p p (length ins) (cursor_pos ta)\<rparr>"
    using shift_elements_survivors [of p p]
    by (simp add: insert_str_at_def Let_def p_def [symmetric] spliced_def cursor del: if_split)
  show "wf_text_area (insert_str_at ta pos ins)"
    unfolding eq using e'(1) c' kill splice_valid [OF s ins pb pb] by (simp add: wf_text_area_def)
  show "edited ta p p ins (insert_str_at ta pos ins)"
    unfolding eq using e'(2) by (simp add: edited_def)
qed

lemma expand_range_wf:
  assumes wf: "wf_text_area ta" and r: "is_char_boundary (ta_text ta) (fst r)" "is_char_boundary (ta_text ta) (snd r)"
    "fst r \<le> snd r"
  obtains a b where "expand_range_to_element_boundaries ta r = (a, b)" "a \<le> fst r" "snd r \<le> b"
    "is_char_boundary (ta_text ta) a" "is_char_boundary (ta_text ta) b" "a \<le> b" "clear_cut (ta_elements ta) (a, b)"
proof -
  obtain a b where ab: "expand_range (ta_elements ta) r = (a, b)" by force
  have "elem_ok (ta_text ta) e" if "e \<in> set (ta_elements ta)" for e
    using wf that wf_elements_ok by (auto simp: wf_text_area_def)
  with expand_range_props [of "ta_elements ta" r] ab r that [of a b] show thesis
    by (auto simp: expand_range_to_element_boundaries_def elem_ok_def)
qed

lemma replace_range_edits:
  assumes wf: "wf_text_area ta" and ins: "from_utf8 ins = Utf8Ok"
    and r: "is_char_boundary (ta_text ta) (fst r)" "is_char_boundary (ta_text ta) (snd r)" "fst r \<le> snd r"
  obtains a b ta' where "expand_range_to_element_boundaries ta r = (a, b)" "a \<le> fst r" "snd r \<le> b"
    "ta_replace_range ta r ins = Some ta'" "wf_text_area ta'" "edited ta a b ins ta'"
proof -
  obtain a b where ab: "expand_range_to_element_boundaries ta r = (a, b)" "a \<le> fst r" "snd r \<le> b"
    and ok: "is_char_boundary (ta_text ta) a" "is_char_boundary (ta_text ta) b" "a \<le> b" "clear_cut (ta_elements ta) (a, b)"
    by (rule expand_range_wf [OF wf r])
  obtain ta' where "replace_range_raw ta (a, b) ins = Some ta'" "wf_text_area ta'" "edited ta a b ins ta'"
    by (rule replace_range_raw_edits [OF wf ins ok])
  with that [OF ab] ab(1) show thesis by (simp add: ta_replace_range_def)
qed

end
