(* ===== verification/Text_Editing.thy ===== *)
theory Text_Editing
  imports Text_Area
begin

text \<open>
  What the editing commands of \<open>Text_Area\<close> do to a buffer: kills move whole placeholders into the kill
  buffer and yanks bring the text back, and every command keeps the buffer well formed. The properties are
  stated here, over the commands that \<open>input_with_keymap\<close> and the composer give to the buffer.
\<close>

section \<open>Lines\<close>

lemma find_newline_Some: "find_newline s = Some i \<Longrightarrow> i < length s \<and> s ! i = CHR 0x0A"
  by (induction s arbitrary: i) (auto split: if_splits)

lemma rfind_newline_Some: "rfind_newline s = Some i \<Longrightarrow> i < length s \<and> s ! i = CHR 0x0A"
  by (induction s arbitrary: i) (auto split: if_splits option.splits)

lemma newline_boundary:
  assumes "from_utf8 s = Utf8Ok" "i < length s" "s ! i = CHR 0x0A"
  shows "is_char_boundary s i" "is_char_boundary s (Suc i)"
  using valid_after_ascii [OF assms(1,2)] assms(3) by simp_all

lemma end_of_line_props:
  assumes "from_utf8 (ta_text ta) = Utf8Ok" "is_char_boundary (ta_text ta) p"
  shows "p \<le> end_of_line ta p" "is_char_boundary (ta_text ta) (end_of_line ta p)"
    "end_of_line ta p < length (ta_text ta) \<Longrightarrow> is_char_boundary (ta_text ta) (Suc (end_of_line ta p))"
proof -
  have len: "p \<le> length (ta_text ta)" using assms(2) by (rule boundary_le)
  have nl: "i + p < length (ta_text ta) \<and> ta_text ta ! (i + p) = CHR 0x0A"
    if "find_newline (drop p (ta_text ta)) = Some i" for i
    using find_newline_Some [OF that] len by (auto simp: add.commute)
  have end_b: "is_char_boundary (ta_text ta) (length (ta_text ta))" by (simp add: is_char_boundary_def)
  show "p \<le> end_of_line ta p" using len by (simp add: end_of_line_def split: option.splits)
  show "is_char_boundary (ta_text ta) (end_of_line ta p)"
    "end_of_line ta p < length (ta_text ta) \<Longrightarrow> is_char_boundary (ta_text ta) (Suc (end_of_line ta p))"
    using nl newline_boundary [OF assms(1)] end_b by (auto simp: end_of_line_def split: option.splits)
qed

lemma beginning_of_line_props:
  assumes "from_utf8 (ta_text ta) = Utf8Ok" "is_char_boundary (ta_text ta) p"
  shows "beginning_of_line ta p \<le> p" "is_char_boundary (ta_text ta) (beginning_of_line ta p)"
    "is_char_boundary (ta_text ta) (beginning_of_line ta p - 1)"
proof -
  have nl: "i < p \<and> i < length (ta_text ta) \<and> ta_text ta ! i = CHR 0x0A"
    if "rfind_newline (take p (ta_text ta)) = Some i" for i
    using rfind_newline_Some [OF that] by auto
  have "is_char_boundary (ta_text ta) 0" by (simp add: is_char_boundary_def)
  with nl newline_boundary [OF assms(1)]
  show "beginning_of_line ta p \<le> p" "is_char_boundary (ta_text ta) (beginning_of_line ta p)"
    "is_char_boundary (ta_text ta) (beginning_of_line ta p - 1)"
    by (auto simp: beginning_of_line_def Suc_le_eq split: option.splits)
qed

section \<open>Killing\<close>

lemma str_get_Some:
  "a \<le> b \<Longrightarrow> is_char_boundary s a \<Longrightarrow> is_char_boundary s b \<Longrightarrow> str_get s (a, b) = Some (str_slice s (a, b))"
  using boundary_le [of s b] by (simp add: str_get_def)

lemma str_slice_valid:
  assumes "from_utf8 s = Utf8Ok" "is_char_boundary s a" "is_char_boundary s b" "a \<le> b"
  shows "from_utf8 (str_slice s (a, b)) = Utf8Ok"
proof -
  have st: "str_start (drop b s)" using assms boundary_iff [OF valid_str_start] by blast
  have "drop a s = str_slice s (a, b) @ drop b s"
    using assms(4) by (simp add: str_slice_def) (metis append_take_drop_id drop_drop le_add_diff_inverse2)
  with valid_take_drop(2) [OF assms(1,2)] valid_split(1) [OF _ st] show ?thesis by metis
qed

lemma spliced_back: "a \<le> b \<Longrightarrow> b \<le> length s \<Longrightarrow> spliced (spliced s a b []) a a (str_slice s (a, b)) = s"
proof -
  assume ab: "a \<le> b" "b \<le> length s"
  have "take (b - a) (drop a s) @ drop b s = drop a s"
    using ab(1) by (metis append_take_drop_id drop_drop le_add_diff_inverse2)
  then show ?thesis using ab by (simp add: spliced_def str_slice_def)
qed

text \<open>What a kill does: nothing on an empty range, otherwise it moves the text of the range, grown
  to whole elements, into the kill buffer.\<close>

lemma kill_range_with_kind_edits:
  assumes wf: "wf_text_area ta"
    and r: "is_char_boundary (ta_text ta) (fst r)" "is_char_boundary (ta_text ta) (snd r)" "fst r \<le> snd r"
  obtains "kill_range_with_kind ta r kind = Some ta"
  | a b ta' where "kill_range_with_kind ta r kind = Some ta'" "wf_text_area ta'" "a \<le> fst r" "snd r \<le> b" "a < b"
      "b \<le> length (ta_text ta)" "ta_text ta' = spliced (ta_text ta) a b []" "kill_buffer ta' = str_slice (ta_text ta) (a, b)"
      "cursor_pos ta' = cursor_after_edit a b 0 (cursor_pos ta)"
proof -
  obtain a b where ab: "expand_range_to_element_boundaries ta r = (a, b)" "a \<le> fst r" "snd r \<le> b"
    and ok: "is_char_boundary (ta_text ta) a" "is_char_boundary (ta_text ta) b" "a \<le> b" "clear_cut (ta_elements ta) (a, b)"
    by (rule expand_range_wf [OF wf r])
  show thesis
  proof (cases "a = b")
    case True
    with ab(1) that(1) show thesis by (simp add: kill_range_with_kind_def)
  next
    case False
    let ?out = "str_slice (ta_text ta) (a, b)" and ?len = "length (ta_text ta)"
    have len: "b \<le> ?len" using ok(2) by (rule boundary_le)
    have ne: "?out \<noteq> []" using False ok(3) len by (simp add: str_slice_def)
    have s: "from_utf8 (ta_text ta) = Utf8Ok" using wf by (simp add: wf_text_area_def)
    let ?st = "store_kill_buffer ta ?out kind"
    have st: "ta_text ?st = ta_text ta" "ta_elements ?st = ta_elements ta" "cursor_pos ?st = cursor_pos ta"
      "kill_buffer ?st = ?out"
      by (simp_all add: store_kill_buffer_def)
    have "wf_text_area ?st"
      using wf str_slice_valid [OF s ok(1-3)] by (simp add: wf_text_area_def store_kill_buffer_def)
    then obtain ta' where ta': "replace_range_raw ?st (a, b) [] = Some ta'" "wf_text_area ta'" "edited ?st a b [] ta'"
      by (rule replace_range_raw_edits [of _ "[]" a b]) (use ok st in auto)
    have "kill_range_with_kind ta r kind = Some ta'"
      using ab(1) False ok ne str_get_Some [OF ok(3,1,2)] ta'(1) by (simp add: kill_range_with_kind_def)
    with that(2) [of ta' a b] ta'(2,3) ab(2,3) ok(3) False len st show thesis by (simp add: edited_def)
  qed
qed

text \<open>Yanking what was killed around the cursor puts the text back.\<close>

lemma yank_after_kill:
  assumes "wf_text_area ta" "wf_text_area ta'" "a < b" "b \<le> length (ta_text ta)" "a \<le> cursor_pos ta" "cursor_pos ta \<le> b"
    and "ta_text ta' = spliced (ta_text ta) a b []" "kill_buffer ta' = str_slice (ta_text ta) (a, b)"
    and "cursor_pos ta' = cursor_after_edit a b 0 (cursor_pos ta)"
  shows "ta_text (yank ta') = ta_text ta"
proof -
  have cur: "cursor_pos ta' = a" using assms(5,6,9) by (simp add: cursor_after_edit_def)
  have "clamp_pos_for_insertion ta' a = a"
    using assms(2) cur by (simp add: clamp_insertion wf_text_area_def)
  then have "edited ta' a a (kill_buffer ta') (ta_insert_str ta' (kill_buffer ta'))"
    using insert_str_at_edits(2) [OF assms(2), of "kill_buffer ta'" a] assms(2) cur
    by (simp add: ta_insert_str_def wf_text_area_def)
  moreover have "kill_buffer ta' \<noteq> []" using assms(3,4,8) by (simp add: str_slice_def)
  ultimately show ?thesis
    using spliced_back [of a b "ta_text ta"] assms(3,4,7,8) by (simp add: yank_def edited_def)
qed

section \<open>Every command keeps the buffer well formed\<close>

lemma wf_text: "wf_text_area ta \<Longrightarrow> from_utf8 (ta_text ta) = Utf8Ok"
  and wf_kill: "wf_text_area ta \<Longrightarrow> from_utf8 (kill_buffer ta) = Utf8Ok"
  and wf_els: "wf_text_area ta \<Longrightarrow> wf_elements (ta_text ta) (ta_elements ta)"
  and wf_cursor: "wf_text_area ta \<Longrightarrow> cursor_ok (ta_text ta) (ta_elements ta) (cursor_pos ta)"
  and wf_cursor_boundary: "wf_text_area ta \<Longrightarrow> is_char_boundary (ta_text ta) (cursor_pos ta)"
  by (simp_all add: wf_text_area_def cursor_ok_def)

lemma set_cursor_wf:
  "from_utf8 (ta_text ta) = Utf8Ok \<Longrightarrow> from_utf8 (kill_buffer ta) = Utf8Ok \<Longrightarrow>
     wf_elements (ta_text ta) (ta_elements ta) \<Longrightarrow> wf_text_area (set_cursor ta p)"
  using clamp_nearest_ok [of "ta\<lparr>cursor_pos := min p (length (ta_text ta))\<rparr>" "min p (length (ta_text ta))"]
  by (simp add: set_cursor_def wf_text_area_def Let_def)

definition apart :: "text_element \<Rightarrow> text_element \<Rightarrow> bool" where
  "apart e f \<longleftrightarrow> te_end e \<le> te_start f \<or> te_end f \<le> te_start e"

lemma insort_elements:
  assumes "wf_elements s es" "elem_ok s x" "\<forall>e\<in>set es. apart x e"
  shows "wf_elements s (insort_key te_start x es)"
  using assms
proof (induction es)
  case (Cons y ys)
  have y: "elem_ok s y" "\<forall>z\<in>set ys. te_end y \<le> te_start z" "wf_elements s ys"
    using Cons.prems(1) by (simp_all add: wf_elements_def)
  show ?case
  proof (cases "te_start x \<le> te_start y")
    case True
    then have "te_end x \<le> te_start y" using Cons.prems(2,3) y(1) by (auto simp: apart_def elem_ok_def)
    with True Cons.prems y show ?thesis by (fastforce simp: wf_elements_def elem_ok_def)
  next
    case False
    then have "te_end y \<le> te_start x" using Cons.prems(2,3) y(1) by (auto simp: apart_def elem_ok_def)
    with False Cons y show ?thesis by (auto simp: wf_elements_def set_insort_key)
  qed
qed (simp add: wf_elements_def)

lemma sort_elements:
  "list_all (elem_ok s) es \<Longrightarrow> sorted_wrt apart es \<Longrightarrow> wf_elements s (sort_key te_start es)"
proof (induction es)
  case (Cons e es)
  then show ?case by (simp add: insort_elements)
qed (simp add: wf_elements_def)

lemma wf_elements_apart: "wf_elements s es \<Longrightarrow> sorted_wrt apart es"
  by (auto simp: wf_elements_def apart_def elim!: sorted_wrt_mono_rel [rotated])

lemma add_element_wf:
  assumes "wf_elements s (ta_elements ta)" "elem_ok s \<lparr>te_id = next_element_id ta, te_start = a, te_end = b\<rparr>"
    and "\<forall>e\<in>set (ta_elements ta). te_end e \<le> a \<or> b \<le> te_start e"
  shows "wf_elements s (ta_elements (fst (add_element ta (a, b))))"
  using assms wf_elements_apart [OF assms(1)]
  by (auto simp: add_element_def take_element_id_def sorted_wrt_append apart_def wf_elements_def
      intro!: sort_elements [unfolded wf_elements_def])

lemma add_element_keeps:
  "ta_text (fst (add_element ta r)) = ta_text ta" "kill_buffer (fst (add_element ta r)) = kill_buffer ta"
  "cursor_pos (fst (add_element ta r)) = cursor_pos ta"
  by (simp_all add: add_element_def take_element_id_def)

lemma insert_element_wf:
  assumes wf: "wf_text_area ta" and s: "from_utf8 s = Utf8Ok" "s \<noteq> []"
  shows "wf_text_area (fst (insert_element ta s))"
proof -
  let ?p = "clamp_pos_for_insertion ta (cursor_pos ta)"
  have p: "?p = cursor_pos ta" using wf by (simp add: clamp_insertion wf_cursor)
  let ?t = "insert_str_at ta (cursor_pos ta) s"
  have t: "wf_text_area ?t" and ed: "edited ta (cursor_pos ta) (cursor_pos ta) s ?t"
    using insert_str_at_edits [OF wf s(1), of "cursor_pos ta"] p by simp_all
  have len: "cursor_pos ta \<le> length (ta_text ta)" using wf_cursor_boundary [OF wf] by (rule boundary_le)
  have b: "is_char_boundary (ta_text ?t) (cursor_pos ta)" "is_char_boundary (ta_text ?t) (cursor_pos ta + length s)"
    using ed splice_boundary_before [OF wf_text [OF wf] s(1), of "cursor_pos ta" "cursor_pos ta" "cursor_pos ta"]
      splice_boundary_after [OF wf_text [OF wf] s(1), of "cursor_pos ta" "cursor_pos ta" "cursor_pos ta"]
      wf_cursor_boundary [OF wf] by (simp_all add: edited_def)
  have shift: "ta_elements ?t = map (shift_element (cursor_pos ta) 0 (length s)) (filter (survives (cursor_pos ta, cursor_pos ta)) (ta_elements ta))"
    using shift_elements_survivors [of "cursor_pos ta" "cursor_pos ta"] p by (simp add: insert_str_at_def Let_def)
  have "te_end e \<le> cursor_pos ta \<or> cursor_pos ta + length s \<le> te_start e" if "e \<in> set (ta_elements ?t)" for e
  proof -
    from that shift obtain f where f: "f \<in> set (ta_elements ta)" "e = shift_element (cursor_pos ta) 0 (length s) f" by auto
    from f(1) wf_cursor [OF wf] have "te_end f \<le> cursor_pos ta \<or> cursor_pos ta \<le> te_start f"
      by (auto simp: cursor_ok_def free_pos_def list_all_iff strictly_inside_def)
    with f(2) show ?thesis by (auto simp: shift_element_def shift_pos_def Let_def)
  qed
  then have "wf_elements (ta_text ?t) (ta_elements (fst (add_element ?t (cursor_pos ta, cursor_pos ta + length s))))"
    using add_element_wf [OF wf_els [OF t]] b s(2) by (simp add: elem_ok_def)
  then show ?thesis
    using set_cursor_wf [of "fst (add_element ?t (cursor_pos ta, cursor_pos ta + length s))"] wf_text [OF t] wf_kill [OF t]
    by (simp add: insert_element_def Let_def p add_element_keeps split: prod.splits)
      (metis add_element_keeps(1,2) fst_conv)
qed

lemma wf_text_areaI:
  "from_utf8 (ta_text ta) = Utf8Ok \<Longrightarrow> from_utf8 (kill_buffer ta) = Utf8Ok \<Longrightarrow>
     wf_elements (ta_text ta) (ta_elements ta) \<Longrightarrow> cursor_ok (ta_text ta) (ta_elements ta) (cursor_pos ta) \<Longrightarrow> wf_text_area ta"
  by (simp add: wf_text_area_def)

lemma add_element_set:
  "set (ta_elements (fst (add_element ta (a, b)))) =
     insert \<lparr>te_id = next_element_id ta, te_start = a, te_end = b\<rparr> (set (ta_elements ta))"
  by (simp add: add_element_def take_element_id_def)

text \<open>Marking a range leaves the cursor where it is, so the caller has to mark a range the cursor is
  not inside of.\<close>

lemma add_element_range_wf:
  assumes wf: "wf_text_area ta"
    and out: "cursor_pos ta \<le> clamp_pos_to_char_boundary ta (fst r) \<or> clamp_pos_to_char_boundary ta (snd r) \<le> cursor_pos ta"
  shows "wf_text_area (fst (add_element_range ta r))"
proof -
  let ?a = "clamp_pos_to_char_boundary ta (fst r)" and ?b = "clamp_pos_to_char_boundary ta (snd r)"
  have m: "clamp_pos_to_char_boundary ta (min x (length (ta_text ta))) = clamp_pos_to_char_boundary ta x" for x
    by (simp add: clamp_pos_to_char_boundary_def)
  show ?thesis
  proof (cases "snd (add_element_range ta r)")
    case None
    then have "fst (add_element_range ta r) = ta"
      by (auto simp: add_element_range_def Let_def split: if_splits prod.splits)
    with wf show ?thesis by simp
  next
    case (Some i)
    then have ab: "?a < ?b" and free: "\<forall>e\<in>set (ta_elements ta). te_end e \<le> ?a \<or> ?b \<le> te_start e"
      and eq: "fst (add_element_range ta r) = fst (add_element ta (?a, ?b))"
      by (auto simp: add_element_range_def Let_def m list_ex_iff not_less split: if_splits prod.splits)
    have "wf_elements (ta_text ta) (ta_elements (fst (add_element ta (?a, ?b))))"
      using add_element_wf [OF wf_els [OF wf] _ free] ab by (simp add: elem_ok_def clamp_char_boundary)
    moreover have "cursor_ok (ta_text ta) (ta_elements (fst (add_element ta (?a, ?b)))) (cursor_pos ta)"
      using wf_cursor [OF wf] out by (auto simp: cursor_ok_def free_pos_def list_all_iff add_element_set strictly_inside_def)
    ultimately show ?thesis
      unfolding eq using wf by (intro wf_text_areaI) (simp_all add: add_element_keeps wf_text wf_kill)
  qed
qed

lemma remove_element_range_wf:
  assumes wf: "wf_text_area ta"
  shows "wf_text_area (fst (remove_element_range ta r))"
proof -
  have "wf_elements (ta_text ta) (filter P (ta_elements ta))"
    "cursor_ok (ta_text ta) (filter P (ta_elements ta)) (cursor_pos ta)" for P
    using wf_els [OF wf] wf_cursor [OF wf]
    by (auto simp: wf_elements_def sorted_wrt_filter list_all_iff cursor_ok_def free_pos_def)
  with wf show ?thesis
    by (auto simp: remove_element_range_def Let_def intro!: wf_text_areaI dest: wf_text wf_kill)
qed

lemma set_text_clearing_wf:
  assumes "wf_text_area ta" "from_utf8 s = Utf8Ok"
  shows "wf_text_area (set_text_clearing_elements ta s)"
proof -
  let ?t = "ta\<lparr>ta_text := s, cursor_pos := min (cursor_pos ta) (length s), ta_elements := []\<rparr>"
  have "wf_elements (ta_text ?t) (ta_elements ?t)" by (simp add: wf_elements_def)
  from clamp_nearest_ok [OF this] assms wf_kill [OF assms(1)] show ?thesis
    by (simp add: set_text_clearing_elements_def set_text_inner_def wf_text_area_def wf_elements_def Let_def)
qed

text \<open>The grapheme cursor steps from a boundary to another one in its direction.\<close>

definition grapheme_steps :: "grapheme_step \<Rightarrow> grapheme_step \<Rightarrow> bool" where
  "grapheme_steps gprev gnext \<longleftrightarrow>
     (\<forall>s p. from_utf8 s = Utf8Ok \<and> is_char_boundary s p \<longrightarrow>
        (0 < p \<longrightarrow> (\<exists>b. gprev s p = Inr (Some b) \<and> b < p \<and> is_char_boundary s b)) \<and>
        (p < length s \<longrightarrow> (\<exists>b. gnext s p = Inr (Some b) \<and> p < b \<and> is_char_boundary s b)))"

lemma found_element: "find P xs = Some x \<Longrightarrow> x \<in> set xs \<and> P x"
  by (auto simp: find_Some_iff)

lemma prev_atomic_boundary_ok:
  assumes g: "grapheme_steps gprev gnext" and wf: "wf_text_area ta" and p: "is_char_boundary (ta_text ta) p"
  shows "cursor_ok (ta_text ta) (ta_elements ta) (prev_atomic_boundary gprev ta p) \<and> prev_atomic_boundary gprev ta p \<le> p"
proof (cases "p = 0")
  case True
  then show ?thesis
    by (simp add: prev_atomic_boundary_def cursor_ok_def is_char_boundary_def free_pos_def list_all_iff strictly_inside_def)
next
  case False
  then obtain b where b: "gprev (ta_text ta) p = Inr (Some b)" "b < p" "is_char_boundary (ta_text ta) b"
    using g p wf_text [OF wf] by (auto simp: grapheme_steps_def)
  show ?thesis
  proof (cases "find (\<lambda>e. te_start e < p \<and> p \<le> te_end e) (ta_elements ta)")
    case (Some e)
    with False element_ends_free [OF wf_els [OF wf], of e] found_element [OF Some] show ?thesis
      by (simp add: prev_atomic_boundary_def)
  next
    case None
    show ?thesis
    proof (cases "find_element_containing ta b")
      case (Some e)
      then have "e \<in> set (ta_elements ta)" "te_start e < b" by (auto simp: find_element_containing_def find_Some_iff strictly_inside_def)
      with None False b Some element_ends_free [OF wf_els [OF wf], of e] show ?thesis by (simp add: prev_atomic_boundary_def)
    next
      case n: None
      with None False b find_element_None [of ta b] show ?thesis by (simp add: prev_atomic_boundary_def cursor_ok_def)
    qed
  qed
qed

lemma next_atomic_boundary_ok:
  assumes g: "grapheme_steps gprev gnext" and wf: "wf_text_area ta" and p: "is_char_boundary (ta_text ta) p"
  shows "cursor_ok (ta_text ta) (ta_elements ta) (next_atomic_boundary gnext ta p) \<and> p \<le> next_atomic_boundary gnext ta p"
proof (cases "length (ta_text ta) \<le> p")
  case True
  have "te_end e \<le> length (ta_text ta)" if "e \<in> set (ta_elements ta)" for e
    using wf_elements_ok [OF wf_els [OF wf] that] boundary_le by (auto simp: elem_ok_def)
  with True boundary_le [OF p] show ?thesis
    by (force simp: next_atomic_boundary_def cursor_ok_def is_char_boundary_def free_pos_def list_all_iff strictly_inside_def)
next
  case False
  then obtain b where b: "gnext (ta_text ta) p = Inr (Some b)" "p < b" "is_char_boundary (ta_text ta) b"
    using g p wf_text [OF wf] by (metis grapheme_steps_def not_le)
  show ?thesis
  proof (cases "find (\<lambda>e. te_start e \<le> p \<and> p < te_end e) (ta_elements ta)")
    case (Some e)
    with False element_ends_free [OF wf_els [OF wf], of e] found_element [OF Some] show ?thesis
      by (simp add: next_atomic_boundary_def)
  next
    case None
    show ?thesis
    proof (cases "find_element_containing ta b")
      case (Some e)
      then have "e \<in> set (ta_elements ta)" "b < te_end e" by (auto simp: find_element_containing_def find_Some_iff strictly_inside_def)
      with None False b Some element_ends_free [OF wf_els [OF wf], of e] show ?thesis by (simp add: next_atomic_boundary_def)
    next
      case n: None
      with None False b find_element_None [of ta b] show ?thesis by (simp add: next_atomic_boundary_def cursor_ok_def)
    qed
  qed
qed

lemma chars_start: "str_start s \<Longrightarrow> ch \<in> set (chars s) \<Longrightarrow> ch \<noteq> [] \<and> str_start ch"
proof (induction s rule: chars.induct)
  case (2 c s)
  have "str_start (dropWhile is_continuation s)"
    by (induction s) (auto simp: str_start_def)
  with 2 show ?case by (auto simp: str_start_def)
qed simp

lemma last_char_boundary:
  assumes s: "from_utf8 s = Utf8Ok" and t: "is_char_boundary s t" and cs: "chars (take t s) \<noteq> []"
  shows "is_char_boundary s (t - length (last (chars (take t s))))"
proof -
  let ?ch = "last (chars (take t s))"
  have len: "t \<le> length s" using t by (rule boundary_le)
  have "str_start (take t s)" using valid_take_drop(1) [OF s t] by (rule valid_str_start)
  with cs have ch: "?ch \<noteq> []" "str_start ?ch" using chars_start by auto
  have "take t s = concat (butlast (chars (take t s))) @ ?ch"
    by (metis append_butlast_last_id concat.simps concat_append concat_chars cs self_append_conv)
  then obtain x where x: "take t s = x @ ?ch" by blast
  then have "length x = t - length ?ch" using len by (metis add_diff_cancel_right' length_append length_take min_absorb2)
  moreover have "s = x @ ?ch @ drop t s" using x by (metis append.assoc append_take_drop_id)
  ultimately have "drop (t - length ?ch) s = ?ch @ drop t s" by (metis append_eq_conv_conj)
  with ch show ?thesis using len by (simp add: boundary_iff [OF valid_str_start [OF s]] str_start_append)
qed

lemma backward_target_ok:
  assumes g: "grapheme_steps gprev gnext" and wf: "wf_text_area ta"
  shows "is_char_boundary (ta_text ta) t \<Longrightarrow>
    \<exists>t'. backward_target gprev ta n t = Some t' \<and> t' \<le> t \<and> is_char_boundary (ta_text ta) t'"
proof (induction n arbitrary: t)
  case (Suc n)
  let ?t = "if chars (take t (ta_text ta)) \<noteq> [] \<and> is_thai_mark (last (chars (take t (ta_text ta)))) \<and>
      \<not> list_ex (\<lambda>e. te_start e < t \<and> t \<le> te_end e) (ta_elements ta)
    then t - length (last (chars (take t (ta_text ta)))) else prev_atomic_boundary gprev ta t"
  have "is_char_boundary (ta_text ta) ?t \<and> ?t \<le> t"
    using last_char_boundary [OF wf_text [OF wf] Suc.prems] prev_atomic_boundary_ok [OF g wf Suc.prems]
    by (auto simp: cursor_ok_def)
  moreover have "backward_target gprev ta (Suc n) t = (if ?t = 0 then Some 0 else backward_target gprev ta n ?t)"
    using Suc.prems by (simp only: backward_target.simps Let_def not_True_eq_False if_False)
  ultimately show ?case using Suc.IH [of ?t] by (cases "?t = 0") (auto intro: order_trans simp del: backward_target.simps)
qed simp

lemma forward_target_ok:
  assumes g: "grapheme_steps gprev gnext" and wf: "wf_text_area ta"
  shows "is_char_boundary (ta_text ta) t \<Longrightarrow>
    t \<le> forward_target gnext ta n t \<and> is_char_boundary (ta_text ta) (forward_target gnext ta n t)"
proof (induction n arbitrary: t)
  case (Suc n)
  have "is_char_boundary (ta_text ta) (next_atomic_boundary gnext ta t) \<and> t \<le> next_atomic_boundary gnext ta t"
    using next_atomic_boundary_ok [OF g wf Suc.prems] by (simp add: cursor_ok_def)
  with Suc.IH [of "next_atomic_boundary gnext ta t"] show ?case by (auto simp: Let_def)
qed simp

text \<open>Renaming an element.\<close>

lemma find_index_Some: "find_index P xs = Some n \<Longrightarrow> n < length xs \<and> P (xs ! n)"
  using nth_length_takeWhile [of "\<lambda>x. \<not> P x" xs] by (auto simp: find_index_def Let_def split: if_splits)

lemma map_all_but:
  "map (\<lambda>(j, e). if j = n + length xs then e else f e) (enumerate n (xs @ x # ys)) = map f xs @ x # map f ys"
proof -
  have xs: "map (\<lambda>(j, e). if j = n + length xs then e else f e) (enumerate n xs) = map f (map snd (enumerate n xs))"
    unfolding map_map by (rule map_cong) (auto simp: in_set_enumerate_eq)
  have ys: "map (\<lambda>(j, e). if j = n + length xs then e else f e) (enumerate (Suc (n + length xs)) ys) =
      map f (map snd (enumerate (Suc (n + length xs)) ys))"
    unfolding map_map by (rule map_cong) (auto simp: in_set_enumerate_eq)
  show ?thesis using xs ys by (simp add: enumerate_append_eq)
qed

definition moved :: "nat \<Rightarrow> nat \<Rightarrow> nat \<Rightarrow> text_element \<Rightarrow> text_element" where
  "moved a b n e = e\<lparr>te_start := te_start e - b + a + n, te_end := te_end e - b + a + n\<rparr>"

lemma wf_elements_middle:
  assumes "wf_elements s (pre @ e # post)"
  shows "\<forall>f\<in>set pre. elem_ok s f \<and> te_end f \<le> te_start e" "elem_ok s e"
    "\<forall>f\<in>set post. elem_ok s f \<and> te_end e \<le> te_start f"
  using assms by (auto simp: wf_elements_def sorted_wrt_append list_all_iff)

lemma renamed_elements:
  assumes wf: "wf_elements s (pre @ e # post)" and s: "from_utf8 s = Utf8Ok" and new: "from_utf8 new = Utf8Ok" "new \<noteq> []"
  defines "a \<equiv> te_start e" and "b \<equiv> te_end e"
  defines "es' \<equiv> pre @ e\<lparr>te_start := a, te_end := a + length new\<rparr> # map (moved a b (length new)) post"
  shows "wf_elements (spliced s a b new) es'"
    and "map (label_of (spliced s a b new)) es' = map (label_of s) pre @ (te_id e, new) # map (label_of s) post"
proof -
  let ?s = "spliced s a b new" and ?n = "length new"
  note m = wf_elements_middle [OF wf, folded a_def b_def]
  have e: "a < b" "is_char_boundary s a" "is_char_boundary s b" using m(2) by (auto simp: elem_ok_def a_def b_def)
  have len: "a \<le> length s" "b \<le> length s" using e boundary_le by blast+
  note bb = splice_boundary_before [OF s new(1) e(2,3)]
  note ba = splice_boundary_after [OF s new(1) e(2,3) less_imp_le [OF e(1)]]
  have pre: "elem_ok ?s f \<and> label_of ?s f = label_of s f" if "f \<in> set pre" for f
    using that m(1) bb splice_slice_before [of "te_end f" a s] len by (auto simp: elem_ok_def label_of_def)
  have post: "elem_ok ?s (moved a b ?n f) \<and> label_of ?s (moved a b ?n f) = label_of s f" if "f \<in> set post" for f
    using that m(3) ba splice_slice_after [OF less_imp_le [OF e(1)] len(2), of "te_start f" "te_end f"]
    by (auto simp: elem_ok_def label_of_def moved_def)
  have mid: "elem_ok ?s (e\<lparr>te_start := a, te_end := a + ?n\<rparr>)"
    using bb [OF e(2)] ba [OF e(3)] new(2) by (simp add: elem_ok_def)
  have "str_slice ?s (a, a + ?n) = new" using len by (simp add: str_slice_def spliced_def)
  with pre post show "map (label_of ?s) es' = map (label_of s) pre @ (te_id e, new) # map (label_of s) post"
    by (simp add: es'_def label_of_def)
  have "sorted_wrt (\<lambda>f g. te_end f \<le> te_start g) (map (moved a b ?n) post)"
    unfolding sorted_wrt_map
  proof (rule sorted_wrt_mono_rel [where P = "\<lambda>f g. te_end f \<le> te_start g"])
    show "sorted_wrt (\<lambda>f g. te_end f \<le> te_start g) post" using wf by (simp add: wf_elements_def sorted_wrt_append)
  qed (use m(3) in \<open>auto simp: moved_def\<close>)
  moreover have "sorted_wrt (\<lambda>f g. te_end f \<le> te_start g) pre" using wf by (simp add: wf_elements_def sorted_wrt_append)
  moreover have mv: "te_end f \<le> te_start (moved a b ?n g) \<and> a + ?n \<le> te_start (moved a b ?n g)"
    if "f \<in> set pre" "g \<in> set post" for f g
    using m(1) that by (force simp: moved_def)
  moreover have "\<forall>g\<in>set post. a + ?n \<le> te_start (moved a b ?n g)" by (simp add: moved_def)
  ultimately show "wf_elements ?s es'"
    using pre post mid m(1) by (auto simp: wf_elements_def es'_def sorted_wrt_append list_all_iff)
qed

lemma sorted_elements: "wf_elements s es \<Longrightarrow> sort_key te_start es = es"
proof (rule sort_key_id_if_sorted)
  assume wf: "wf_elements s es"
  have "sorted_wrt (\<lambda>e f. te_start e \<le> te_start f) es"
  proof (rule sorted_wrt_mono_rel [where P = "\<lambda>e f. te_end e \<le> te_start f"])
    fix e f assume "e \<in> set es" "te_end e \<le> te_start f"
    with wf_elements_ok [OF wf] show "te_start e \<le> te_start f" by (fastforce simp: elem_ok_def)
  qed (use wf in \<open>simp add: wf_elements_def\<close>)
  then show "sorted (map te_start es)" by (simp add: sorted_wrt_map)
qed

lemma renamed_rest:
  assumes "wf_elements s (pre @ e # post)" "te_end e - te_start e \<noteq> n"
  shows "map (renamed_range (te_start e) (te_end e) n) pre = pre"
    "map (renamed_range (te_start e) (te_end e) n) post = map (moved (te_start e) (te_end e) n) post"
proof -
  note m = wf_elements_middle [OF assms(1)]
  show "map (renamed_range (te_start e) (te_end e) n) pre = pre"
    using m(1) by (intro map_idI) (simp add: renamed_range_def)
  have "renamed_range (te_start e) (te_end e) n f = moved (te_start e) (te_end e) n f" if "f \<in> set post" for f
  proof -
    have lt: "te_start e < te_end e" "te_start f < te_end f" "te_end e \<le> te_start f"
      using m that by (auto simp: elem_ok_def)
    then show ?thesis using shift_pos_after [of "te_start e" "te_end e"] by (simp add: renamed_range_def moved_def)
  qed
  then show "map (renamed_range (te_start e) (te_end e) n) post = map (moved (te_start e) (te_end e) n) post" by simp
qed

lemma replace_element_payload_cases:
  assumes wf: "wf_text_area ta" and new: "from_utf8 new = Utf8Ok" "new \<noteq> []"
  obtains "replace_element_payload ta old new = (ta, False)"
  | pre e post ta' where "replace_element_payload ta old new = (ta', True)" "wf_text_area ta'"
      "ta_elements ta = pre @ e # post" "str_slice (ta_text ta) (te_start e, te_end e) = old"
      "ta_text ta' = spliced (ta_text ta) (te_start e) (te_end e) new"
      "map (label_of (ta_text ta')) (ta_elements ta') =
         map (label_of (ta_text ta)) pre @ (te_id e, new) # map (label_of (ta_text ta)) post"
proof (cases "find_index (\<lambda>e. str_get (ta_text ta) (te_start e, te_end e) = Some old) (ta_elements ta)")
  case None
  then show thesis by (intro that(1)) (simp add: replace_element_payload_def)
next
  case (Some idx)
  let ?es = "ta_elements ta" and ?s = "ta_text ta"
  define e where "e = ?es ! idx"
  define pre where "pre = take idx ?es"
  define post where "post = drop (Suc idx) ?es"
  let ?a = "te_start e" and ?b = "te_end e" and ?n = "length new"
  have idx: "idx < length ?es" "str_get ?s (?a, ?b) = Some old" using find_index_Some [OF Some] by (auto simp: e_def)
  have es: "?es = pre @ e # post" and lp: "length pre = idx"
    using idx(1) id_take_nth_drop [of idx ?es] by (auto simp: pre_def post_def e_def)
  have wfe: "wf_elements ?s (pre @ e # post)" using wf_els [OF wf] es by simp
  have ok: "\<not> (?b < ?a \<or> length ?s < ?b)" and old: "str_slice ?s (?a, ?b) = old"
    using idx(2) by (auto simp: str_get_def split: if_splits)
  define es' where "es' = pre @ e\<lparr>te_start := ?a, te_end := ?a + ?n\<rparr> # map (moved ?a ?b ?n) post"
  note ren = renamed_elements [OF wfe wf_text [OF wf] new, folded es'_def]
  have upd: "?es[idx := e\<lparr>te_start := ?a, te_end := ?a + ?n\<rparr>] = pre @ e\<lparr>te_start := ?a, te_end := ?a + ?n\<rparr> # post"
    using es lp by (metis list_update_length)
  have "(if ?n = ?b - ?a then pre @ e\<lparr>te_start := ?a, te_end := ?a + ?n\<rparr> # post
     else map (\<lambda>(j, f). if j = idx then f else renamed_range ?a ?b ?n f)
       (enumerate 0 (pre @ e\<lparr>te_start := ?a, te_end := ?a + ?n\<rparr> # post))) = es'"
  proof (cases "?n = ?b - ?a")
    case True
    have "moved ?a ?b ?n f = f" if "f \<in> set post" for f
      using wf_elements_middle [OF wfe] that True by (auto simp: moved_def elem_ok_def)
    then have "map (moved ?a ?b ?n) post = post" by (simp add: map_idI)
    with True show ?thesis by (simp add: es'_def)
  next
    case False
    with renamed_rest [OF wfe, of ?n] map_all_but [of 0 pre "renamed_range ?a ?b ?n"] lp show ?thesis
      by (simp add: es'_def)
  qed
  note step = this
  define ta1 where "ta1 = ta\<lparr>ta_text := spliced ?s ?a ?b new, preferred_col := None, ta_elements := es',
    cursor_pos := cursor_after_edit ?a ?b ?n (cursor_pos ta)\<rparr>"
  define ta' where "ta' = ta1\<lparr>cursor_pos := clamp_pos_to_nearest_boundary ta1 (cursor_pos ta1)\<rparr>"
  have t: "ta_text ta' = spliced ?s ?a ?b new" "ta_elements ta' = es'" "kill_buffer ta' = kill_buffer ta"
    by (simp_all add: ta'_def ta1_def)
  have run: "replace_element_payload ta old new = (ta', True)"
    unfolding replace_element_payload_def Some option.case Let_def e_def [symmetric] upd step
    using ok sorted_elements [OF ren(1)] by (simp add: ta'_def ta1_def spliced_def)
  have "cursor_ok (ta_text ta') (ta_elements ta') (cursor_pos ta')"
    using clamp_nearest_ok [of ta1 "cursor_pos ta1"] ren(1) by (simp add: ta'_def ta1_def)
  moreover have "from_utf8 (spliced ?s ?a ?b new) = Utf8Ok"
    using wf_elements_middle(2) [OF wfe] by (intro splice_valid wf_text [OF wf] new) (auto simp: elem_ok_def)
  ultimately have "wf_text_area ta'" using ren(1) wf_kill [OF wf] t by (intro wf_text_areaI) simp_all
  with that(2) [OF run _ es old] ren(2) t show thesis by simp
qed

lemma ta_insert_str_wf: "wf_text_area ta \<Longrightarrow> from_utf8 s = Utf8Ok \<Longrightarrow> wf_text_area (ta_insert_str ta s)"
  unfolding ta_insert_str_def by (rule insert_str_at_edits(1))

section \<open>Drafts\<close>

text \<open>
  What the composer relies on when it types into a buffer and takes text back out of it: a draft is the text before the cursor
  and the text behind it; putting text in extends the first, and taking text back cuts it at a code point.
\<close>

locale draft_buffer =
  fixes shows_draft :: "'b \<Rightarrow> string \<Rightarrow> string \<Rightarrow> bool"
    and put :: "'b \<Rightarrow> string \<Rightarrow> 'b"
    and take_back :: "'b \<Rightarrow> nat \<Rightarrow> 'b option"
  assumes draft_valid: "shows_draft b A R \<Longrightarrow> from_utf8 (A @ R) = Utf8Ok \<and> str_start R"
    and put_draft: "shows_draft b A R \<Longrightarrow> from_utf8 s = Utf8Ok \<Longrightarrow> shows_draft (put b s) (A @ s) R"
    and take_back_draft: "shows_draft b A R \<Longrightarrow> i \<le> length A \<Longrightarrow> str_start (drop i A) \<Longrightarrow>
      \<exists>b'. take_back b i = Some b' \<and> shows_draft b' (take i A) R"
begin

lemma before_valid: "shows_draft b A R \<Longrightarrow> from_utf8 A = Utf8Ok"
  using draft_valid valid_split(1) by blast

lemma taken_valid: "shows_draft b A R \<Longrightarrow> str_start (drop i A) \<Longrightarrow> from_utf8 (drop i A) = Utf8Ok"
  using before_valid [of b A R] valid_split(2) [of "take i A" "drop i A"] by simp

text \<open>Taking text back and putting it in again restores the draft.\<close>

lemma take_back_put:
  assumes "shows_draft b A R" "i \<le> length A" "str_start (drop i A)"
  shows "\<exists>b'. take_back b i = Some b' \<and> shows_draft (put b' (drop i A)) A R"
proof -
  obtain b' where b': "take_back b i = Some b'" "shows_draft b' (take i A) R"
    using take_back_draft [OF assms] by blast
  from put_draft [OF b'(2) taken_valid [OF assms(1,3)]] b'(1) show ?thesis by simp
qed

end

definition plain_draft :: "text_area \<Rightarrow> string \<Rightarrow> string \<Rightarrow> bool" where
  "plain_draft ta A R \<longleftrightarrow>
     wf_text_area ta \<and> ta_elements ta = [] \<and> ta_text ta = A @ R \<and> cursor_pos ta = length A"

lemma plain_draft_boundary: "plain_draft ta A R \<Longrightarrow> is_char_boundary (A @ R) (length A)"
  using wf_cursor_boundary [of ta] by (simp add: plain_draft_def)

lemma insert_plain:
  assumes d: "plain_draft ta A R" and s: "from_utf8 s = Utf8Ok"
  shows "plain_draft (ta_insert_str ta s) (A @ s) R"
proof -
  have ta: "wf_text_area ta" "ta_elements ta = []" "ta_text ta = A @ R" "cursor_pos ta = length A"
    using d by (simp_all add: plain_draft_def)
  have p: "clamp_pos_for_insertion ta (cursor_pos ta) = length A"
    using clamp_nearest_id [OF wf_cursor [OF ta(1)]] ta(4) by (simp add: clamp_insertion)
  have "edited ta (length A) (length A) s (ta_insert_str ta s)"
    using insert_str_at_edits(2) [OF ta(1) s, of "cursor_pos ta"] p by (simp add: ta_insert_str_def)
  with ta_insert_str_wf [OF ta(1) s] ta(2-4) show ?thesis
    by (simp add: plain_draft_def edited_def spliced_def cursor_after_edit_def)
qed

lemma retract_plain:
  assumes d: "plain_draft ta A R" and i: "i \<le> length A" "str_start (drop i A)"
  shows "\<exists>ta'. retract_paste_burst ta i = Some ta' \<and> plain_draft ta' (take i A) R"
proof -
  have ta: "wf_text_area ta" "ta_elements ta = []" "ta_text ta = A @ R" "cursor_pos ta = length A"
    using d by (simp_all add: plain_draft_def)
  note bR = boundary_iff [OF valid_str_start [OF wf_text [OF ta(1)]], unfolded ta(3)]
  have bi: "is_char_boundary (A @ R) i"
    using i plain_draft_boundary [OF d] by (simp add: bR str_start_append)
  have ex: "expand_range_to_element_boundaries ta (i, length A) = (i, length A)"
    using ta(2) by (simp add: expand_range_to_element_boundaries_def expand_range.simps [of "[]"] expand_pass_def)
  obtain ta' where "ta_replace_range ta (i, length A) [] = Some ta'" "wf_text_area ta'" "edited ta i (length A) [] ta'"
    by (rule replace_range_edits [OF ta(1), of "[]" "(i, length A)"])
      (use ex i(1) bi ta(3) plain_draft_boundary [OF d] in auto)
  with ta(2-4) i(1) show ?thesis
    by (auto simp: plain_draft_def retract_paste_burst_def edited_def spliced_def cursor_after_edit_def)
qed

interpretation area: draft_buffer plain_draft ta_insert_str retract_paste_burst
proof
  fix ta A R
  assume d: "plain_draft ta A R"
  then have v: "from_utf8 (A @ R) = Utf8Ok" using wf_text [of ta] by (simp add: plain_draft_def)
  with plain_draft_boundary [OF d] boundary_iff [OF valid_str_start [OF v], of "length A"]
  show "from_utf8 (A @ R) = Utf8Ok \<and> str_start R" by simp
qed (fact insert_plain retract_plain)+

section \<open>Properties\<close>

text \<open>The ids and texts that \<open>text_element_snapshots\<close> reports.\<close>

definition element_labels :: "text_area \<Rightarrow> (nat \<times> string) list" where
  "element_labels ta = map (\<lambda>(i, r, s). (i, s)) (text_element_snapshots ta)"

lemma wf_element_get:
  assumes "wf_text_area ta" "e \<in> set (ta_elements ta)"
  shows "str_get (ta_text ta) (te_start e, te_end e) = Some (str_slice (ta_text ta) (te_start e, te_end e))"
  using wf_elements_ok [OF wf_els [OF assms(1)] assms(2)] by (intro str_get_Some) (auto simp: elem_ok_def)

lemma map_filter_defined: "(\<And>x. x \<in> set xs \<Longrightarrow> f x = Some (g x)) \<Longrightarrow> List.map_filter f xs = map g xs"
  by (induction xs) (auto simp: List.map_filter_simps)

lemma element_labels_wf: "wf_text_area ta \<Longrightarrow> element_labels ta = map (label_of (ta_text ta)) (ta_elements ta)"
  by (simp add: element_labels_def text_element_snapshots_def map_filter_defined wf_element_get label_of_def)


text \<open>A buffer with a placeholder between two words, cut from inside the first word into the placeholder.\<close>

definition sample_area :: text_area where
  "sample_area = text_area_new\<lparr>ta_text := ''see [P] now'', cursor_pos := 7,
     ta_elements := [\<lparr>te_id = 1, te_start = 4, te_end = 7\<rparr>], next_element_id := 2\<rparr>"

lemma ascii_valid: "ascii s \<Longrightarrow> from_utf8 s = Utf8Ok"
proof (induction s)
  case (Cons c s)
  then have "utf8_first (c # s) = ValidChar 1" by (simp add: utf8_width_def ascii_def)
  with Cons show ?case by (simp add: from_utf8_Cons [of "c # s"] ascii_def)
qed simp

lemma sample_area_wf: "wf_text_area sample_area"
proof (rule wf_text_areaI)
  have a: "ascii (ta_text sample_area)" by (simp add: sample_area_def ascii_def)
  then show "from_utf8 (ta_text sample_area) = Utf8Ok" by (rule ascii_valid)
  have b: "k \<le> 11 \<Longrightarrow> is_char_boundary (ta_text sample_area) k" for k
    using ascii_boundary [OF a] by (simp add: sample_area_def)
  then show "wf_elements (ta_text sample_area) (ta_elements sample_area)"
    by (simp add: wf_elements_def elem_ok_def sample_area_def)
  show "cursor_ok (ta_text sample_area) (ta_elements sample_area) (cursor_pos sample_area)"
    using b by (simp add: cursor_ok_def free_pos_def strictly_inside_def sample_area_def)
qed (simp add: sample_area_def text_area_new_def)


text \<open>The editing commands that \<open>input_with_keymap\<close> and the composer give to the buffer.\<close>

datatype edit_command =
  InsertText string | InsertPlaceholder string | UnmarkRange nat nat | RenamePlaceholder string string
| SetText string | MoveTo nat | MoveLeft | MoveRight
| DeleteBackward nat | DeleteForward nat | DeleteForwardKill nat
| KillToEnd | KillToBeginning | KillLine | YankLine | Yank | PasteAfter

fun run_command :: "grapheme_step \<Rightarrow> grapheme_step \<Rightarrow> edit_command \<Rightarrow> text_area \<Rightarrow> text_area option" where
  "run_command gprev gnext (InsertText s) ta = Some (ta_insert_str ta s)"
| "run_command gprev gnext (InsertPlaceholder s) ta = Some (fst (insert_element ta s))"
| "run_command gprev gnext (UnmarkRange i j) ta = Some (fst (remove_element_range ta (i, j)))"
| "run_command gprev gnext (RenamePlaceholder old new) ta = Some (fst (replace_element_payload ta old new))"
| "run_command gprev gnext (SetText s) ta = Some (set_text_clearing_elements ta s)"
| "run_command gprev gnext (MoveTo p) ta = Some (set_cursor ta p)"
| "run_command gprev gnext MoveLeft ta = Some (move_cursor_left gprev ta)"
| "run_command gprev gnext MoveRight ta = Some (move_cursor_right gnext ta)"
| "run_command gprev gnext (DeleteBackward n) ta = delete_backward gprev ta n"
| "run_command gprev gnext (DeleteForward n) ta = delete_forward gnext ta n"
| "run_command gprev gnext (DeleteForwardKill n) ta = delete_forward_kill gnext ta n"
| "run_command gprev gnext KillToEnd ta = kill_to_end_of_line ta"
| "run_command gprev gnext KillToBeginning ta = kill_to_beginning_of_line ta"
| "run_command gprev gnext KillLine ta = kill_current_line ta"
| "run_command gprev gnext YankLine ta = yank_current_line ta"
| "run_command gprev gnext Yank ta = Some (yank ta)"
| "run_command gprev gnext PasteAfter ta = Some (paste_after_cursor gnext ta)"

fun run_commands :: "grapheme_step \<Rightarrow> grapheme_step \<Rightarrow> edit_command list \<Rightarrow> text_area \<Rightarrow> text_area option" where
  "run_commands gprev gnext [] ta = Some ta"
| "run_commands gprev gnext (c # cs) ta = Option.bind (run_command gprev gnext c ta) (run_commands gprev gnext cs)"

text \<open>The strings a command carries are strings, and placeholders are not empty.\<close>

fun command_ok :: "edit_command \<Rightarrow> bool" where
  "command_ok (InsertText s) \<longleftrightarrow> from_utf8 s = Utf8Ok"
| "command_ok (InsertPlaceholder s) \<longleftrightarrow> from_utf8 s = Utf8Ok \<and> s \<noteq> []"
| "command_ok (RenamePlaceholder old new) \<longleftrightarrow> from_utf8 new = Utf8Ok \<and> new \<noteq> []"
| "command_ok (SetText s) \<longleftrightarrow> from_utf8 s = Utf8Ok"
| "command_ok _ \<longleftrightarrow> True"

lemma kill_range_wf:
  assumes "wf_text_area ta" "i \<le> j" "is_char_boundary (ta_text ta) i" "is_char_boundary (ta_text ta) j"
  shows "\<exists>ta'. kill_range_with_kind ta (i, j) kind = Some ta' \<and> wf_text_area ta'"
  by (rule kill_range_with_kind_edits [OF assms(1), of "(i, j)" kind]) (use assms in auto)

lemma replace_range_wf:
  assumes "wf_text_area ta" "i \<le> j" "is_char_boundary (ta_text ta) i" "is_char_boundary (ta_text ta) j"
  shows "\<exists>ta'. ta_replace_range ta (i, j) [] = Some ta' \<and> wf_text_area ta'"
  by (rule replace_range_edits [OF assms(1), of "[]" "(i, j)"]) (use assms in auto)

lemma line_range_ok:
  assumes "wf_text_area ta"
  shows "fst (current_line_range_with_newline ta) \<le> snd (current_line_range_with_newline ta)"
    "is_char_boundary (ta_text ta) (fst (current_line_range_with_newline ta))"
    "is_char_boundary (ta_text ta) (snd (current_line_range_with_newline ta))"
  using end_of_line_props [OF wf_text wf_cursor_boundary, OF assms assms]
    beginning_of_line_props [OF wf_text wf_cursor_boundary, OF assms assms]
  by (auto simp: current_line_range_with_newline_def Let_def end_of_current_line_def beginning_of_current_line_def)

lemma kill_to_end_range:
  assumes "wf_text_area ta"
  shows "kill_to_end_of_line ta = Some ta \<or>
    (\<exists>j. kill_to_end_of_line ta = kill_range ta (cursor_pos ta, j) \<and> cursor_pos ta \<le> j \<and> is_char_boundary (ta_text ta) j)"
proof -
  let ?e = "end_of_line ta (cursor_pos ta)"
  note p = end_of_line_props [OF wf_text wf_cursor_boundary, OF assms assms]
  consider "cursor_pos ta = ?e" "?e < length (ta_text ta)" | "cursor_pos ta = ?e" "\<not> ?e < length (ta_text ta)" | "cursor_pos ta \<noteq> ?e"
    by blast
  then show ?thesis
  proof cases
    case 1
    then have "kill_to_end_of_line ta = kill_range ta (cursor_pos ta, Suc ?e)"
      by (simp add: kill_to_end_of_line_def Let_def end_of_current_line_def)
    with 1 p show ?thesis by (metis le_SucI)
  next
    case 3
    then have "kill_to_end_of_line ta = kill_range ta (cursor_pos ta, ?e)"
      by (simp add: kill_to_end_of_line_def Let_def end_of_current_line_def)
    with p show ?thesis by blast
  qed (simp add: kill_to_end_of_line_def Let_def end_of_current_line_def)
qed

lemma kill_to_beginning_range:
  assumes "wf_text_area ta"
  shows "kill_to_beginning_of_line ta = Some ta \<or>
    (\<exists>i. kill_to_beginning_of_line ta = kill_range ta (i, cursor_pos ta) \<and> i \<le> cursor_pos ta \<and> is_char_boundary (ta_text ta) i)"
proof -
  let ?b = "beginning_of_line ta (cursor_pos ta)"
  note p = beginning_of_line_props [OF wf_text wf_cursor_boundary, OF assms assms]
  consider "cursor_pos ta = ?b" "0 < ?b" | "cursor_pos ta = ?b" "\<not> 0 < ?b" | "cursor_pos ta \<noteq> ?b"
    by blast
  then show ?thesis
  proof cases
    case 1
    then have "kill_to_beginning_of_line ta = kill_range ta (?b - 1, cursor_pos ta)"
      by (simp add: kill_to_beginning_of_line_def Let_def beginning_of_current_line_def)
    with 1 p show ?thesis by (metis diff_le_self)
  next
    case 3
    then have "kill_to_beginning_of_line ta = kill_range ta (?b, cursor_pos ta)"
      by (simp add: kill_to_beginning_of_line_def Let_def beginning_of_current_line_def)
    with p show ?thesis by blast
  qed (simp add: kill_to_beginning_of_line_def Let_def beginning_of_current_line_def)
qed

lemma yank_line_wf:
  assumes "wf_text_area ta"
  shows "\<exists>ta'. yank_current_line ta = Some ta' \<and> wf_text_area ta'"
proof -
  let ?r = "current_line_range_with_newline ta"
  obtain a b where ab: "expand_range_to_element_boundaries ta ?r = (a, b)" "is_char_boundary (ta_text ta) a"
    "is_char_boundary (ta_text ta) b" "a \<le> b"
    by (rule expand_range_wf [OF assms line_range_ok(2,3,1) [OF assms]])
  have "wf_text_area (store_kill_buffer ta (str_slice (ta_text ta) (a, b)) Linewise)"
    using assms str_slice_valid [OF wf_text [OF assms] ab(2-4)] by (simp add: wf_text_area_def store_kill_buffer_def)
  with ab assms show ?thesis
    by (auto simp: yank_current_line_def yank_line_range_def yank_range_with_kind_def str_get_Some)
qed

lemma trim_end_newlines_valid: "from_utf8 s = Utf8Ok \<Longrightarrow> from_utf8 (trim_end_newlines s) = Utf8Ok"
proof -
  assume s: "from_utf8 s = Utf8Ok"
  let ?t = "rev (takeWhile (\<lambda>c. c = CHR 0x0A) (rev s))"
  have "s = trim_end_newlines s @ ?t"
    unfolding trim_end_newlines_def by (metis rev_append rev_rev_ident takeWhile_dropWhile_id)
  moreover have "str_start ?t"
  proof (cases ?t)
    case (Cons c x)
    then have "c \<in> set (takeWhile (\<lambda>c. c = CHR 0x0A) (rev s))" by (metis list.set_intros(1) set_rev)
    then have "c = CHR 0x0A" by (auto dest: set_takeWhileD)
    with Cons show ?thesis by (simp add: str_start_def is_continuation_def)
  qed (simp add: str_start_def)
  ultimately show ?thesis using s valid_split(1) [of "trim_end_newlines s" ?t] by metis
qed

lemma paste_line_wf: "wf_text_area ta \<Longrightarrow> wf_text_area (paste_line_after_current_line ta)"
proof -
  assume wf: "wf_text_area ta"
  let ?nl = "[CHR 0x0A]"
  have nl: "from_utf8 ?nl = Utf8Ok" by (rule ascii_valid) (simp add: ascii_def)
  have ins: "wf_text_area (set_cursor (insert_str_at ta p s) c)" if "from_utf8 s = Utf8Ok" for p s c
    using insert_str_at_edits(1) [OF wf that] by (simp add: set_cursor_wf wf_text wf_kill wf_els)
  have "from_utf8 (kill_buffer ta @ ?nl) = Utf8Ok" "from_utf8 (?nl @ trim_end_newlines (kill_buffer ta)) = Utf8Ok"
    using valid_append nl wf_kill [OF wf] trim_end_newlines_valid by blast+
  with ins wf_kill [OF wf] show ?thesis by (auto simp: paste_line_after_current_line_def Let_def)
qed

lemma run_command_wf:
  assumes g: "grapheme_steps gprev gnext" and wf: "wf_text_area ta" and c: "command_ok c"
  shows "\<exists>ta'. run_command gprev gnext c ta = Some ta' \<and> wf_text_area ta'"
proof -
  note cur = wf_cursor_boundary [OF wf]
  have fwd: "cursor_pos ta \<le> forward_target gnext ta n (cursor_pos ta)"
    "is_char_boundary (ta_text ta) (forward_target gnext ta n (cursor_pos ta))" for n
    using forward_target_ok [OF g wf cur] by auto
  show ?thesis
  proof (cases c)
    case (RenamePlaceholder old new)
    with c wf show ?thesis by (auto intro: replace_element_payload_cases [OF wf, of new old])
  next
    case (DeleteBackward n)
    obtain t where t: "backward_target gprev ta n (cursor_pos ta) = Some t" "t \<le> cursor_pos ta" "is_char_boundary (ta_text ta) t"
      using backward_target_ok [OF g wf cur] by blast
    with DeleteBackward wf replace_range_wf [OF wf t(2,3) cur] show ?thesis by (simp add: delete_backward_def)
  next
    case (DeleteForward n)
    with wf replace_range_wf [OF wf fwd(1) cur fwd(2)] show ?thesis by (simp add: delete_forward_def)
  next
    case (DeleteForwardKill n)
    with wf kill_range_wf [OF wf fwd(1) cur fwd(2)] show ?thesis by (simp add: delete_forward_kill_def kill_range_def)
  next
    case KillToEnd
    with kill_to_end_range [OF wf] kill_range_wf [OF wf _ cur, of _ Characterwise] wf show ?thesis
      by (auto simp: kill_range_def)
  next
    case KillToBeginning
    with kill_to_beginning_range [OF wf] kill_range_wf [OF wf _ _ cur, of _ Characterwise] wf show ?thesis
      by (auto simp: kill_range_def)
  next
    case KillLine
    with kill_range_wf [OF wf line_range_ok [OF wf]] show ?thesis by (simp add: kill_current_line_def kill_line_range_def)
  next
    case MoveLeft
    with prev_atomic_boundary_ok [OF g wf cur] wf show ?thesis by (simp add: move_cursor_left_def wf_text_area_def)
  next
    case MoveRight
    with next_atomic_boundary_ok [OF g wf cur] wf show ?thesis by (simp add: move_cursor_right_def wf_text_area_def)
  next
    case PasteAfter
    have "wf_text_area (set_cursor ta p)" for p using wf by (simp add: set_cursor_wf wf_text wf_kill wf_els)
    with PasteAfter wf ta_insert_str_wf paste_line_wf show ?thesis by (simp add: paste_after_cursor_def Let_def wf_kill)
  qed (use wf c in \<open>simp_all add: ta_insert_str_wf insert_element_wf remove_element_range_wf set_text_clearing_wf
      set_cursor_wf wf_text wf_kill wf_els yank_line_wf yank_def\<close>)
qed


text \<open>A grapheme cursor that steps over one code point.\<close>

definition code_point_prev :: grapheme_step where
  "code_point_prev s p = Inr (if p = 0 then None else Some (prev_boundary_from s (p - 1)))"

definition code_point_next :: grapheme_step where
  "code_point_next s p = Inr (if length s \<le> p then None else Some (next_boundary_from s (Suc p)))"

lemma prev_boundary_from_le: "prev_boundary_from s p \<le> p"
proof (induction s p rule: prev_boundary_from.induct)
  case (1 s p)
  then show ?case by (subst prev_boundary_from.simps) (auto intro: order_trans)
qed

lemma next_boundary_from_ge: "p \<le> next_boundary_from s p"
proof (induction s p rule: next_boundary_from.induct)
  case (1 s p)
  then show ?case by (subst next_boundary_from.simps) auto
qed

lemma code_point_steps: "grapheme_steps code_point_prev code_point_next"
  unfolding grapheme_steps_def
proof (intro allI impI conjI)
  fix s p
  assume p: "from_utf8 s = Utf8Ok \<and> is_char_boundary s p"
  show "\<exists>b. code_point_prev s p = Inr (Some b) \<and> b < p \<and> is_char_boundary s b" if "0 < p"
    using that prev_boundary_from_le [of s "p - 1"] prev_boundary_from_boundary [of s "p - 1"]
    by (simp add: code_point_prev_def)
  show "\<exists>b. code_point_next s p = Inr (Some b) \<and> p < b \<and> is_char_boundary s b" if "p < length s"
    using that next_boundary_from_ge [of "Suc p" s] next_boundary_from_boundary [of "Suc p" s]
    by (simp add: code_point_next_def Suc_le_eq)
qed


text \<open>
  C9: what the kill commands remove comes back. When killing to the end or to the beginning of the line, or
  killing graphemes ahead of the cursor, changed the text, yanking right after it restores the text byte for byte,
  even where the kill took placeholders with it.
\<close>

theorem kill_then_yank_restores:
  assumes "grapheme_steps gprev gnext" "wf_text_area ta" "ta_text ta' \<noteq> ta_text ta"
    and "kill_to_end_of_line ta = Some ta' \<or> kill_to_beginning_of_line ta = Some ta' \<or>
      delete_forward_kill gnext ta n = Some ta'"
  shows "ta_text (yank ta') = ta_text ta"
proof -
  note cur = wf_cursor_boundary [OF assms(2)]
  obtain i j where ij: "kill_range ta (i, j) = Some ta'" "i \<le> cursor_pos ta" "cursor_pos ta \<le> j"
    "is_char_boundary (ta_text ta) i" "is_char_boundary (ta_text ta) j"
    using assms(3,4) kill_to_end_range [OF assms(2)] kill_to_beginning_range [OF assms(2)] cur
      forward_target_ok [OF assms(1,2) cur, of n]
    by (auto simp: delete_forward_kill_def split: if_splits)
  then have "kill_range_with_kind ta (i, j) Characterwise = Some ta'" by (simp add: kill_range_def)
  then show ?thesis
    using ij assms(3)
    by (elim kill_range_with_kind_edits [OF assms(2), of "(i, j)" Characterwise, simplified])
      (auto intro: yank_after_kill [OF assms(2)])
qed

theorem kill_then_yank_restores_witness:
  "\<exists>ta'. kill_to_end_of_line sample_area = Some ta' \<and> ta_text ta' = ''see [P]'' \<and> ta_text (yank ta') = ''see [P] now''"
proof -
  have "map_option ta_text (kill_to_end_of_line sample_area) = Some ''see [P]''" by code_simp
  then obtain ta' where "kill_to_end_of_line sample_area = Some ta'" "ta_text ta' = ''see [P]''" by auto
  with kill_then_yank_restores [OF code_point_steps sample_area_wf, of ta' 0] show ?thesis
    by (simp add: sample_area_def)
qed

end
