(* ===== verification/Paste_Burst.thy ===== *)
theory Paste_Burst
  imports Output_Truncation
begin

text \<open>
  Paste detection for terminals without bracketed paste, \<open>PasteBurst\<close> of
  \<^verbatim>\<open>tui/src/bottom_pane/paste_burst.rs\<close>. Instants are natural numbers of nanoseconds
  (\<open>duration_since\<close> saturates at zero, as \<open>-\<close> does on \<^typ>\<open>nat\<close>), a character is the string of its
  UTF-8 bytes, and the idle timeout, which depends on the platform, is given by the argument
  \<open>windows\<close>. The methods take \<open>&mut self\<close>; here they return the new state and their result.
\<close>

section \<open>State\<close>

definition millis :: "nat \<Rightarrow> nat" where
  "millis n = n * 1000000"

definition PASTE_BURST_MIN_CHARS :: nat where
  "PASTE_BURST_MIN_CHARS = 3"

definition PASTE_ENTER_SUPPRESS_WINDOW :: nat where
  "PASTE_ENTER_SUPPRESS_WINDOW = millis 120"

definition PASTE_BURST_CHAR_INTERVAL :: nat where
  "PASTE_BURST_CHAR_INTERVAL = millis 8"

definition PASTE_BURST_ACTIVE_IDLE_TIMEOUT :: "bool \<Rightarrow> nat" where
  "PASTE_BURST_ACTIVE_IDLE_TIMEOUT windows = (if windows then millis 60 else millis 8)"

record paste_burst =
  last_plain_char_time :: "nat option"
  consecutive_plain_char_burst :: nat
  burst_window_until :: "nat option"
  burst_buffer :: string
  burst_active :: bool
  pending_first_char :: "(string \<times> nat) option"

definition paste_burst_default :: paste_burst where
  "paste_burst_default = \<lparr>last_plain_char_time = None, consecutive_plain_char_burst = 0,
     burst_window_until = None, burst_buffer = [], burst_active = False, pending_first_char = None\<rparr>"

datatype char_decision =
  BeginBuffer nat
| BufferAppend
| RetainFirstChar
| BeginBufferFromPending

datatype flush_result = FlushPaste string | FlushTyped string | FlushNone

record retro_grab =
  start_byte :: nat
  grabbed :: string

section \<open>Operations\<close>

definition recommended_flush_delay :: nat where
  "recommended_flush_delay = PASTE_BURST_CHAR_INTERVAL + millis 1"

text \<open>\<open>u16::saturating_add\<close>.\<close>

definition note_plain_char :: "paste_burst \<Rightarrow> nat \<Rightarrow> paste_burst" where
  "note_plain_char b now =
     (let n = (case last_plain_char_time b of
                 Some prev \<Rightarrow> if now - prev \<le> PASTE_BURST_CHAR_INTERVAL
                              then min (consecutive_plain_char_burst b + 1) 65535 else 1
               | None \<Rightarrow> 1)
      in b\<lparr>consecutive_plain_char_burst := n, last_plain_char_time := Some now\<rparr>)"

definition extend_window :: "paste_burst \<Rightarrow> nat \<Rightarrow> paste_burst" where
  "extend_window b now = b\<lparr>burst_window_until := Some (now + PASTE_ENTER_SUPPRESS_WINDOW)\<rparr>"

definition on_plain_char :: "paste_burst \<Rightarrow> string \<Rightarrow> nat \<Rightarrow> paste_burst \<times> char_decision" where
  "on_plain_char b0 ch now =
     (let b = note_plain_char b0 now
      in if burst_active b then
           (b\<lparr>burst_window_until := Some (now + PASTE_ENTER_SUPPRESS_WINDOW)\<rparr>, BufferAppend)
         else
           let fall = (if PASTE_BURST_MIN_CHARS \<le> consecutive_plain_char_burst b
                       then (b, BeginBuffer (consecutive_plain_char_burst b - 1))
                       else (b\<lparr>pending_first_char := Some (ch, now)\<rparr>, RetainFirstChar))
           in case pending_first_char b of
                Some (held, held_at) \<Rightarrow>
                  if now - held_at \<le> PASTE_BURST_CHAR_INTERVAL then
                    (b\<lparr>burst_active := True, pending_first_char := None, burst_buffer := burst_buffer b @ held,
                       burst_window_until := Some (now + PASTE_ENTER_SUPPRESS_WINDOW)\<rparr>, BeginBufferFromPending)
                  else fall
              | None \<Rightarrow> fall)"

definition on_plain_char_no_hold :: "paste_burst \<Rightarrow> nat \<Rightarrow> paste_burst \<times> char_decision option" where
  "on_plain_char_no_hold b0 now =
     (let b = note_plain_char b0 now
      in if burst_active b then
           (b\<lparr>burst_window_until := Some (now + PASTE_ENTER_SUPPRESS_WINDOW)\<rparr>, Some BufferAppend)
         else if PASTE_BURST_MIN_CHARS \<le> consecutive_plain_char_burst b
           then (b, Some (BeginBuffer (consecutive_plain_char_burst b - 1)))
         else (b, None))"

definition is_active_internal :: "paste_burst \<Rightarrow> bool" where
  "is_active_internal b \<longleftrightarrow> burst_active b \<or> burst_buffer b \<noteq> []"

definition burst_is_active :: "paste_burst \<Rightarrow> bool" where
  "burst_is_active b \<longleftrightarrow> is_active_internal b \<or> pending_first_char b \<noteq> None"

definition flush_if_due :: "bool \<Rightarrow> paste_burst \<Rightarrow> nat \<Rightarrow> paste_burst \<times> flush_result" where
  "flush_if_due windows b now =
     (let timeout = (if is_active_internal b then PASTE_BURST_ACTIVE_IDLE_TIMEOUT windows else PASTE_BURST_CHAR_INTERVAL);
          timed_out = (case last_plain_char_time b of Some t \<Rightarrow> timeout < now - t | None \<Rightarrow> False)
      in if timed_out \<and> is_active_internal b then
           (b\<lparr>burst_active := False, burst_buffer := []\<rparr>, FlushPaste (burst_buffer b))
         else if timed_out then
           (case pending_first_char b of
              Some (ch, at) \<Rightarrow> (b\<lparr>pending_first_char := None\<rparr>, FlushTyped ch)
            | None \<Rightarrow> (b, FlushNone))
         else (b, FlushNone))"

definition append_control_char_if_active :: "paste_burst \<Rightarrow> string \<Rightarrow> nat \<Rightarrow> paste_burst \<times> bool" where
  "append_control_char_if_active b ch now =
     (if burst_is_active b then
        let held = (case pending_first_char b of Some (h, at) \<Rightarrow> h | None \<Rightarrow> [])
        in (b\<lparr>pending_first_char := None, burst_active := True, burst_buffer := burst_buffer b @ held @ ch,
             last_plain_char_time := Some now, burst_window_until := Some (now + PASTE_ENTER_SUPPRESS_WINDOW)\<rparr>, True)
      else (b, False))"

definition newline_should_insert_instead_of_submit :: "paste_burst \<Rightarrow> nat \<Rightarrow> bool" where
  "newline_should_insert_instead_of_submit b now \<longleftrightarrow>
     burst_is_active b \<or> (case burst_window_until b of Some until \<Rightarrow> now \<le> until | None \<Rightarrow> False)"

definition direct_insert_newline_should_insert :: "paste_burst \<Rightarrow> nat \<Rightarrow> bool" where
  "direct_insert_newline_should_insert b now \<longleftrightarrow>
     newline_should_insert_instead_of_submit b now \<or>
     (case last_plain_char_time b of Some t \<Rightarrow> now - t \<le> PASTE_BURST_CHAR_INTERVAL | None \<Rightarrow> False)"

definition begin_with_retro_grabbed :: "paste_burst \<Rightarrow> string \<Rightarrow> nat \<Rightarrow> paste_burst" where
  "begin_with_retro_grabbed b grab now =
     b\<lparr>burst_buffer := burst_buffer b @ grab, burst_active := True,
       burst_window_until := Some (now + PASTE_ENTER_SUPPRESS_WINDOW)\<rparr>"

definition append_char_to_buffer :: "paste_burst \<Rightarrow> string \<Rightarrow> nat \<Rightarrow> paste_burst" where
  "append_char_to_buffer b ch now =
     b\<lparr>burst_buffer := burst_buffer b @ ch, burst_window_until := Some (now + PASTE_ENTER_SUPPRESS_WINDOW)\<rparr>"

definition try_append_char_if_active :: "paste_burst \<Rightarrow> string \<Rightarrow> nat \<Rightarrow> paste_burst \<times> bool" where
  "try_append_char_if_active b ch now =
     (if burst_active b \<or> burst_buffer b \<noteq> [] then (append_char_to_buffer b ch now, True) else (b, False))"

definition retro_start_index :: "string \<Rightarrow> nat \<Rightarrow> nat" where
  "retro_start_index before retro_chars =
     (if retro_chars = 0 then length before
      else let r = rev (char_indices before)
           in if retro_chars - 1 < length r then fst (r ! (retro_chars - 1)) else 0)"

definition is_whitespace_char :: "string \<Rightarrow> bool" where
  "is_whitespace_char ch \<longleftrightarrow> ch \<in> set ws_encodings"

definition decide_begin_buffer :: "paste_burst \<Rightarrow> nat \<Rightarrow> string \<Rightarrow> nat \<Rightarrow> paste_burst \<times> retro_grab option" where
  "decide_begin_buffer b now before retro_chars =
     (let start = retro_start_index before retro_chars;
          grab = drop start before;
          looks_pastey = (list_ex is_whitespace_char (chars grab) \<or> 16 \<le> length (chars grab))
      in if looks_pastey
         then (begin_with_retro_grabbed b grab now, Some \<lparr>start_byte = start, grabbed = grab\<rparr>)
         else (b, None))"

definition flush_before_modified_input :: "paste_burst \<Rightarrow> paste_burst \<times> string option" where
  "flush_before_modified_input b =
     (if \<not> burst_is_active b then (b, None)
      else (b\<lparr>burst_active := False, burst_buffer := [], pending_first_char := None\<rparr>,
            Some (burst_buffer b @ (case pending_first_char b of Some (ch, at) \<Rightarrow> ch | None \<Rightarrow> []))))"

definition clear_window_after_non_char :: "paste_burst \<Rightarrow> paste_burst" where
  "clear_window_after_non_char b =
     b\<lparr>consecutive_plain_char_burst := 0, last_plain_char_time := None, burst_window_until := None,
       burst_active := False, pending_first_char := None\<rparr>"

definition clear_after_explicit_paste :: "paste_burst \<Rightarrow> paste_burst" where
  "clear_after_explicit_paste b =
     b\<lparr>last_plain_char_time := None, consecutive_plain_char_burst := 0, burst_window_until := None,
       burst_active := False, burst_buffer := [], pending_first_char := None\<rparr>"

section \<open>When a flush is due\<close>

definition flush_is_due :: "bool \<Rightarrow> paste_burst \<Rightarrow> nat \<Rightarrow> bool" where
  "flush_is_due windows b now \<longleftrightarrow>
     (case last_plain_char_time b of
        Some t \<Rightarrow> (if is_active_internal b then PASTE_BURST_ACTIVE_IDLE_TIMEOUT windows else PASTE_BURST_CHAR_INTERVAL) < now - t
      | None \<Rightarrow> False)"

lemma flush_if_due_eq:
  "flush_if_due windows b now =
     (if flush_is_due windows b now \<and> is_active_internal b then
        (b\<lparr>burst_active := False, burst_buffer := []\<rparr>, FlushPaste (burst_buffer b))
      else if flush_is_due windows b now then
        (case pending_first_char b of
           Some (ch, at) \<Rightarrow> (b\<lparr>pending_first_char := None\<rparr>, FlushTyped ch)
         | None \<Rightarrow> (b, FlushNone))
      else (b, FlushNone))"
  by (simp only: flush_if_due_def flush_is_due_def Let_def)

text \<open>
  Appending characters to a running burst through \<open>try_append_char_if_active\<close>, the path of characters outside
  ASCII, does not move the time the burst is measured against.
\<close>

definition append_non_ascii :: "(string \<times> nat) list \<Rightarrow> paste_burst \<Rightarrow> paste_burst" where
  "append_non_ascii chs b = foldl (\<lambda>b (ch, now). fst (try_append_char_if_active b ch now)) b chs"

lemma append_non_ascii_running:
  assumes "is_active_internal b" "list_all (\<lambda>(ch, now). ch \<noteq> []) chs"
  shows "last_plain_char_time (append_non_ascii chs b) = last_plain_char_time b \<and>
    is_active_internal (append_non_ascii chs b) \<and>
    burst_buffer (append_non_ascii chs b) = burst_buffer b @ concat (map fst chs)"
  using assms
proof (induction chs rule: rev_induct)
  case (snoc e chs)
  then show ?case
    by (cases e) (auto simp: append_non_ascii_def try_append_char_if_active_def append_char_to_buffer_def is_active_internal_def)
qed (simp add: append_non_ascii_def)

text \<open>A running burst is flushed when the timeout has passed since its last ASCII character, however
  recently characters outside ASCII have been added to it.\<close>

theorem non_ascii_does_not_extend_burst:
  assumes "is_active_internal b" "list_all (\<lambda>(ch, now). ch \<noteq> []) chs" "last_plain_char_time b = Some t"
    and "PASTE_BURST_ACTIVE_IDLE_TIMEOUT windows < now - t"
  shows "snd (flush_if_due windows (append_non_ascii chs b) now) = FlushPaste (burst_buffer b @ concat (map fst chs))"
  using append_non_ascii_running [OF assms(1,2)] assms(3,4) by (simp add: flush_if_due_eq flush_is_due_def)

end
