(* ===== verification/Composer_Input.thy ===== *)
theory Composer_Input
  imports Text_Editing Paste_Burst
begin

text \<open>
  The input path of the composer, \<open>ChatComposer\<close> of \<^verbatim>\<open>tui/src/bottom_pane/chat_composer.rs\<close> and
  \<^verbatim>\<open>chat_composer/paste_input.rs\<close>: keys go through the paste detector of \<open>Paste_Burst\<close> into the buffer
  of \<open>Text_Area\<close>, large pastes are kept aside behind a placeholder and put back when the
  text is read. The configuration is the one of a plain editor: no modal editing, no history search,
  no attachments, image pasting and slash commands off, so that \<open>sync_popups\<close> and the footer, which only
  concern what is shown, are left out. \<open>None\<close> is a panic.
\<close>

section \<open>Text that is pasted\<close>

text \<open>\<open>char::is_control\<close>: U+0000 to U+001F and U+007F to U+009F, and the escape character.\<close>

definition is_control_char :: "string \<Rightarrow> bool" where
  "is_control_char ch \<longleftrightarrow>
     (case map byte ch of
        [b] \<Rightarrow> b < 0x20 \<or> b = 0x7F
      | [b0, b1] \<Rightarrow> b0 = 0xC2 \<and> 0x80 \<le> b1 \<and> b1 \<le> 0x9F
      | _ \<Rightarrow> False)"

definition ESCAPE :: string where
  "ESCAPE = [CHR 0x1B]"

definition cut_here :: "string \<Rightarrow> bool" where
  "cut_here ch \<longleftrightarrow> ch = ESCAPE \<or> is_control_char ch \<and> ch \<noteq> [CHR 0x0A] \<and> ch \<noteq> [CHR 0x09]"

definition csi_final :: "string \<Rightarrow> bool" where
  "csi_final ch \<longleftrightarrow> (case map byte ch of [b] \<Rightarrow> 0x40 \<le> b \<and> b \<le> 0x7E | _ \<Rightarrow> False)"

text \<open>The spans the iterator of \<open>sanitize_user_text\<close> yields, one after the other.\<close>

function sanitize_chars :: "string list \<Rightarrow> string list" where
  "sanitize_chars cs =
     takeWhile (\<lambda>ch. \<not> cut_here ch) cs @
     (case dropWhile (\<lambda>ch. \<not> cut_here ch) cs of
        [] \<Rightarrow> []
      | ch # tail_cs \<Rightarrow>
          if ch = ESCAPE \<and> tail_cs \<noteq> [] \<and> hd tail_cs = ''['' then
            (case dropWhile (\<lambda>ch. \<not> csi_final ch) (tl tail_cs) of
               [] \<Rightarrow> []
             | _ # rest \<Rightarrow> sanitize_chars rest)
          else sanitize_chars tail_cs)"
  by pat_completeness auto
termination
proof (relation "measure length", goal_cases)
  case (2 cs ch tail_cs fin rest)
  have "length (dropWhile (\<lambda>ch. \<not> csi_final ch) (tl tail_cs)) \<le> length (tl tail_cs)"
    "length (dropWhile (\<lambda>ch. \<not> cut_here ch) cs) \<le> length cs"
    by (rule length_dropWhile_le)+
  with 2 show ?case by (cases tail_cs) auto
next
  case (3 cs ch tail_cs)
  have "length (dropWhile (\<lambda>ch. \<not> cut_here ch) cs) \<le> length cs" by (rule length_dropWhile_le)
  with 3 show ?case by auto
qed simp

declare sanitize_chars.simps [simp del]

definition sanitize_user_text :: "string \<Rightarrow> string" where
  "sanitize_user_text s = concat (sanitize_chars (chars s))"

text \<open>\<open>replace("\r\n", "\n")\<close>, then \<open>replace('\r', "\n")\<close>.\<close>

fun replace_crlf :: "string \<Rightarrow> string" where
  "replace_crlf (a # b # s) =
     (if a = CHR 0x0D \<and> b = CHR 0x0A then CHR 0x0A # replace_crlf s else a # replace_crlf (b # s))"
| "replace_crlf s = s"

definition normalize_newlines :: "string \<Rightarrow> string" where
  "normalize_newlines s = map (\<lambda>c. if c = CHR 0x0D then CHR 0x0A else c) (replace_crlf s)"

section \<open>State\<close>

record composer =
  c_area :: text_area
  c_burst :: paste_burst
  c_pastes :: "(string \<times> string) list"
  c_disable_burst :: bool
  c_bash_mode :: bool
  c_shell_commands :: bool

definition LARGE_PASTE_CHAR_THRESHOLD :: nat where
  "LARGE_PASTE_CHAR_THRESHOLD = 1000"

section \<open>Placeholders of large pastes\<close>

definition large_paste_base :: "nat \<Rightarrow> string" where
  "large_paste_base char_count = ''[Pasted Content '' @ show_nat char_count @ '' chars]''"

definition suffix_in_use :: "string \<Rightarrow> string \<Rightarrow> nat" where
  "suffix_in_use base placeholder =
     (if placeholder = base then 1
      else case strip_prefix (base @ '' #'') placeholder of
             Some sfx \<Rightarrow> (case parse_uint (usize_max + 1) sfx of Some v \<Rightarrow> v | None \<Rightarrow> 0)
           | None \<Rightarrow> 0)"

definition next_large_paste_placeholder :: "(string \<times> string) list \<Rightarrow> nat \<Rightarrow> string" where
  "next_large_paste_placeholder pastes char_count =
     (let base = large_paste_base char_count;
          max_suffix = foldl (\<lambda>m p. max m (suffix_in_use base (fst p))) 0 pastes
      in if max_suffix = 0 then base else base @ '' #'' @ show_nat (max_suffix + 1))"

section \<open>Pasting\<close>

definition sync_bash_mode_from_text :: "composer \<Rightarrow> composer option" where
  "sync_bash_mode_from_text c =
     (if c_shell_commands c \<and> \<not> c_bash_mode c \<and> prefix ''!'' (ta_text (c_area c))
      then map_option (\<lambda>a. c\<lparr>c_area := a, c_bash_mode := True\<rparr>) (ta_replace_range (c_area c) (0, 1) [])
      else Some c)"

definition composer_insert_str :: "composer \<Rightarrow> string \<Rightarrow> composer option" where
  "composer_insert_str c s = sync_bash_mode_from_text (c\<lparr>c_area := ta_insert_str (c_area c) s\<rparr>)"

definition apply_paste :: "composer \<Rightarrow> string \<Rightarrow> composer option" where
  "apply_paste c pasted0 =
     (let pasted = sanitize_user_text (normalize_newlines pasted0);
          char_count = length (chars pasted)
      in map_option (\<lambda>c1. c1\<lparr>c_burst := clear_after_explicit_paste (c_burst c1)\<rparr>)
           (if LARGE_PASTE_CHAR_THRESHOLD < char_count then
              let placeholder = next_large_paste_placeholder (c_pastes c) char_count
              in Some (c\<lparr>c_area := fst (insert_element (c_area c) placeholder),
                        c_pastes := c_pastes c @ [(placeholder, pasted)]\<rparr>)
            else composer_insert_str c pasted))"

definition handle_paste_burst_flush :: "bool \<Rightarrow> composer \<Rightarrow> nat \<Rightarrow> (composer \<times> bool) option" where
  "handle_paste_burst_flush windows c now =
     (case flush_if_due windows (c_burst c) now of
        (b, FlushPaste pasted) \<Rightarrow> map_option (\<lambda>c1. (c1, True)) (apply_paste (c\<lparr>c_burst := b\<rparr>) pasted)
      | (b, FlushTyped ch) \<Rightarrow> map_option (\<lambda>c1. (c1, True)) (composer_insert_str (c\<lparr>c_burst := b\<rparr>) ch)
      | (b, FlushNone) \<Rightarrow> Some (c\<lparr>c_burst := b\<rparr>, False))"

text \<open>\<open>if let Some(pasted) = flush_before_modified_input() { apply_paste(pasted) }\<close>.\<close>

definition flush_then_paste :: "composer \<Rightarrow> composer option" where
  "flush_then_paste c =
     (case flush_before_modified_input (c_burst c) of
        (b, Some pasted) \<Rightarrow> apply_paste (c\<lparr>c_burst := b\<rparr>) pasted
      | (b, None) \<Rightarrow> Some (c\<lparr>c_burst := b\<rparr>))"

definition set_disable_paste_burst :: "composer \<Rightarrow> bool \<Rightarrow> composer option" where
  "set_disable_paste_burst c disabled =
     (let was_disabled = c_disable_burst c; c1 = c\<lparr>c_disable_burst := disabled\<rparr>
      in if disabled \<and> \<not> was_disabled
         then map_option (\<lambda>c2. c2\<lparr>c_burst := clear_after_explicit_paste (c_burst c2)\<rparr>) (flush_then_paste c1)
         else Some c1)"

section \<open>Keys\<close>

datatype key_code = KeyChar string | KeyEnter | KeyBackspace | KeyTab | KeyEsc | KeyOther nat

text \<open>
  The modifiers as the code asks for them: \<open>has_ctrl_or_alt\<close>, one of Super, Hyper and Meta, and
  \<open>is_altgr\<close>; \<open>has_shift\<close> is only looked at for Tab.
\<close>

record key_event =
  key_code :: key_code
  has_ctrl_or_alt :: bool
  has_super :: bool
  is_altgr :: bool
  has_shift :: bool

definition has_non_text_modifier :: "key_event \<Rightarrow> bool" where
  "has_non_text_modifier k \<longleftrightarrow> has_ctrl_or_alt k \<or> has_super k"

text \<open>
  \<open>TextArea::input\<close>. The argument \<open>bound\<close> is the configured key map: the edit that the first matching
  binding makes, if there is one.
\<close>

type_synonym bindings = "key_event \<Rightarrow> (text_area \<Rightarrow> text_area option) option"

definition is_ascii_char :: "string \<Rightarrow> bool" where
  "is_ascii_char ch \<longleftrightarrow> (case map byte ch of [b] \<Rightarrow> b < 128 | _ \<Rightarrow> False)"

definition textarea_input :: "bindings \<Rightarrow> key_event \<Rightarrow> text_area \<Rightarrow> text_area option" where
  "textarea_input bound k ta =
     (case bound k of
        Some edit \<Rightarrow> edit ta
      | None \<Rightarrow>
          (case key_code k of
             KeyChar ch \<Rightarrow>
               if is_altgr k then Some (ta_insert_str ta ch)
               else if has_non_text_modifier k then Some ta
               else if is_ascii_char ch \<and> is_control_char ch then Some ta
               else Some (ta_insert_str ta ch)
           | _ \<Rightarrow> Some ta))"

definition reconcile_deleted_elements :: "composer \<Rightarrow> string list \<Rightarrow> composer" where
  "reconcile_deleted_elements c elements_before =
     (let elements_after = set (element_payloads (c_area c));
          removed = filter (\<lambda>p. p \<notin> elements_after) elements_before
      in c\<lparr>c_pastes := filter (\<lambda>p. fst p \<notin> set removed) (c_pastes c)\<rparr>)"

definition clamp_to_char_boundary :: "string \<Rightarrow> nat \<Rightarrow> nat" where
  "clamp_to_char_boundary txt pos =
     (let p = min pos (length txt)
      in if p < length txt \<and> \<not> is_char_boundary txt p then
           (let starts = takeWhile (\<lambda>i. i \<le> p) (map fst (char_indices txt))
            in if starts = [] then 0 else last starts)
         else p)"

text \<open>
  The branch \<open>BeginBuffer\<close> of both handlers: \<open>Inl\<close> when the character went into the buffer, \<open>Inr\<close> to fall
  through to normal insertion.
\<close>

definition begin_buffer :: "composer \<Rightarrow> string \<Rightarrow> nat \<Rightarrow> nat \<Rightarrow> (composer + composer) option" where
  "begin_buffer c ch retro_chars now =
     (let txt = ta_text (c_area c);
          before = take (clamp_to_char_boundary txt (cursor_pos (c_area c))) txt
      in case decide_begin_buffer (c_burst c) now before retro_chars of
           (b, Some grab) \<Rightarrow>
             if grabbed grab = [] then Some (Inl (c\<lparr>c_burst := append_char_to_buffer b ch now\<rparr>))
             else map_option (\<lambda>a. Inl (c\<lparr>c_area := a, c_burst := append_char_to_buffer b ch now\<rparr>))
                    (retract_paste_burst (c_area c) (start_byte grab))
         | (b, None) \<Rightarrow> Some (Inr (c\<lparr>c_burst := b\<rparr>)))"

text \<open>The end of \<open>handle_non_ascii_char\<close>, and the same for disabled detection.\<close>

definition insert_and_retain :: "bindings \<Rightarrow> key_event \<Rightarrow> composer \<Rightarrow> composer option" where
  "insert_and_retain bound k c =
     map_option (\<lambda>a. c\<lparr>c_area := a, c_pastes := filter (\<lambda>p. sublist (fst p) (ta_text a)) (c_pastes c)\<rparr>)
       (textarea_input bound k (c_area c))"

definition handle_non_ascii_char :: "bindings \<Rightarrow> composer \<Rightarrow> key_event \<Rightarrow> string \<Rightarrow> nat \<Rightarrow> composer option" where
  "handle_non_ascii_char bound c k ch now =
     (if c_disable_burst c then insert_and_retain bound k c
      else case try_append_char_if_active (c_burst c) ch now of
        (b, True) \<Rightarrow> Some (c\<lparr>c_burst := b\<rparr>)
      | (_, False) \<Rightarrow>
          Option.bind (flush_then_paste c) (\<lambda>c1.
            case on_plain_char_no_hold (c_burst c1) now of
              (b, Some BufferAppend) \<Rightarrow> Some (c1\<lparr>c_burst := append_char_to_buffer b ch now\<rparr>)
            | (b, Some (BeginBuffer retro_chars)) \<Rightarrow>
                Option.bind (begin_buffer (c1\<lparr>c_burst := b\<rparr>) ch retro_chars now) (\<lambda>r.
                  case r of Inl c2 \<Rightarrow> Some c2
                  | Inr c2 \<Rightarrow> Option.bind (flush_then_paste c2) (insert_and_retain bound k))
            | (b, Some _) \<Rightarrow> None
            | (b, None) \<Rightarrow> Option.bind (flush_then_paste (c1\<lparr>c_burst := b\<rparr>)) (insert_and_retain bound k)))"

text \<open>The second half of \<open>handle_input_basic_with_time\<close>: the key reaches the buffer.\<close>

definition handle_key_normally :: "bindings \<Rightarrow> composer \<Rightarrow> key_event \<Rightarrow> composer option" where
  "handle_key_normally bound c k =
     Option.bind
       (case key_code k of KeyChar _ \<Rightarrow> Some c | KeyEnter \<Rightarrow> Some c | _ \<Rightarrow> flush_then_paste c)
       (\<lambda>c1.
          let elements_before = (if c_pastes c1 = [] then None else Some (element_payloads (c_area c1)))
          in if c_bash_mode c1 \<and> key_code k = KeyBackspace \<and> cursor_pos (c_area c1) = 0
             then Some (c1\<lparr>c_bash_mode := False\<rparr>)
             else
               Option.bind (textarea_input bound k (c_area c1)) (\<lambda>a.
               Option.bind (sync_bash_mode_from_text (c1\<lparr>c_area := a\<rparr>)) (\<lambda>c2.
                 let c3 = (case elements_before of Some es \<Rightarrow> reconcile_deleted_elements c2 es | None \<Rightarrow> c2)
                 in Some (case key_code k of
                      KeyChar _ \<Rightarrow> if has_non_text_modifier k
                                   then c3\<lparr>c_burst := clear_window_after_non_char (c_burst c3)\<rparr> else c3
                    | KeyEnter \<Rightarrow> c3
                    | _ \<Rightarrow> c3\<lparr>c_burst := clear_window_after_non_char (c_burst c3)\<rparr>))))"

definition handle_input_basic_with_time :: "bool \<Rightarrow> bindings \<Rightarrow> composer \<Rightarrow> key_event \<Rightarrow> nat \<Rightarrow> composer option" where
  "handle_input_basic_with_time windows bound c0 k now =
     Option.bind (handle_paste_burst_flush windows c0 now) (\<lambda>(c, _).
       case key_code k of
         KeyEnter \<Rightarrow>
           if \<not> c_disable_burst c \<and> burst_is_active (c_burst c)
           then Some (c\<lparr>c_burst := fst (append_control_char_if_active (c_burst c) [CHR 0x0A] now)\<rparr>)
           else handle_key_normally bound c k
       | KeyChar ch \<Rightarrow>
           if \<not> has_non_text_modifier k \<and> \<not> c_disable_burst c then
             (if \<not> is_ascii_char ch then handle_non_ascii_char bound c k ch now
              else case on_plain_char (c_burst c) ch now of
                     (b, BufferAppend) \<Rightarrow> Some (c\<lparr>c_burst := append_char_to_buffer b ch now\<rparr>)
                   | (b, BeginBuffer retro_chars) \<Rightarrow>
                       Option.bind (begin_buffer (c\<lparr>c_burst := b\<rparr>) ch retro_chars now) (\<lambda>r.
                         case r of Inl c2 \<Rightarrow> Some c2
                         | Inr c2 \<Rightarrow> Option.bind (flush_then_paste c2) (\<lambda>c3. handle_key_normally bound c3 k))
                   | (b, BeginBufferFromPending) \<Rightarrow> Some (c\<lparr>c_burst := append_char_to_buffer b ch now\<rparr>)
                   | (b, RetainFirstChar) \<Rightarrow> Some (c\<lparr>c_burst := b\<rparr>))
           else Option.bind (flush_then_paste c) (\<lambda>c1. handle_key_normally bound c1 k)
       | _ \<Rightarrow> handle_key_normally bound c k)"

text \<open>Enter and Tab before they reach their shortcuts.\<close>

definition handle_paste_enter :: "composer \<Rightarrow> nat \<Rightarrow> composer \<times> bool" where
  "handle_paste_enter c now =
     (if \<not> c_disable_burst c \<and> burst_is_active (c_burst c)
      then (c\<lparr>c_burst := fst (append_control_char_if_active (c_burst c) [CHR 0x0A] now)\<rparr>, True)
      else if \<not> c_disable_burst c \<and> newline_should_insert_instead_of_submit (c_burst c) now
      then (c\<lparr>c_area := ta_insert_str (c_area c) [CHR 0x0A], c_burst := extend_window (c_burst c) now\<rparr>, True)
      else (c, False))"

definition handle_paste_tab :: "bool \<Rightarrow> composer \<Rightarrow> key_event \<Rightarrow> nat \<Rightarrow> (composer \<times> bool) option" where
  "handle_paste_tab windows c0 k now =
     (if key_code k \<noteq> KeyTab \<or> has_ctrl_or_alt k \<or> has_super k \<or> is_altgr k \<or> has_shift k \<or> c_disable_burst c0
      then Some (c0, False)
      else Option.bind (handle_paste_burst_flush windows c0 now) (\<lambda>(c, _).
        case append_control_char_if_active (c_burst c) [CHR 0x09] now of
          (b, True) \<Rightarrow> Some (c\<lparr>c_burst := b\<rparr>, True)
        | (_, False) \<Rightarrow>
            if direct_insert_newline_should_insert (c_burst c) now then
              (case append_control_char_if_active (begin_with_retro_grabbed (c_burst c) [] now) [CHR 0x09] now of
                 (b, appended) \<Rightarrow> Some (c\<lparr>c_burst := b\<rparr>, appended))
            else Some (c, False)))"

section \<open>Reading the draft back\<close>

text \<open>
  The elements of the buffer as \<open>TextElement\<close>s of the protocol; \<open>placeholder(text)\<close> is the stored
  placeholder or the text of the range.
\<close>

record user_element =
  ue_start :: nat
  ue_end :: nat
  ue_placeholder :: "string option"

definition ta_text_elements :: "text_area \<Rightarrow> user_element list" where
  "ta_text_elements ta =
     map (\<lambda>e. \<lparr>ue_start = te_start e, ue_end = te_end e,
                ue_placeholder = str_get (ta_text ta) (te_start e, te_end e)\<rparr>) (ta_elements ta)"

definition element_placeholder :: "string \<Rightarrow> user_element \<Rightarrow> string option" where
  "element_placeholder s e = (case ue_placeholder e of Some p \<Rightarrow> Some p | None \<Rightarrow> str_get s (ue_start e, ue_end e))"

text \<open>Take the first paste that is kept under a placeholder out of the queue.\<close>

fun pop_paste :: "string \<Rightarrow> (string \<times> string) list \<Rightarrow> (string \<times> (string \<times> string) list) option" where
  "pop_paste ph [] = None"
| "pop_paste ph ((p, actual) # ps) =
     (if p = ph then Some (actual, ps) else map_option (\<lambda>(a, r). (a, (p, actual) # r)) (pop_paste ph ps))"

fun expand_loop ::
  "string \<Rightarrow> user_element list \<Rightarrow> (string \<times> string) list \<Rightarrow> nat \<Rightarrow> string \<Rightarrow> user_element list \<Rightarrow> (nat \<times> string \<times> user_element list) option" where
  "expand_loop txt [] ps cursor rebuilt out = Some (cursor, rebuilt, out)"
| "expand_loop txt (e # es) ps cursor rebuilt out =
     (let start = min (ue_start e) (length txt); stop = min (ue_end e) (length txt)
      in if stop < start then expand_loop txt es ps cursor rebuilt out
         else
           Option.bind (if cursor < start then str_get txt (cursor, start) else Some []) (\<lambda>gap.
           Option.bind (str_get txt (start, stop)) (\<lambda>elem_text.
             let rebuilt1 = rebuilt @ gap; ph = element_placeholder txt e
             in case Option.bind ph (\<lambda>p. pop_paste p ps) of
                  Some (actual, ps') \<Rightarrow> expand_loop txt es ps' stop (rebuilt1 @ actual) out
                | None \<Rightarrow>
                    expand_loop txt es ps stop (rebuilt1 @ elem_text)
                      (out @ [\<lparr>ue_start = length rebuilt1, ue_end = length (rebuilt1 @ elem_text),
                               ue_placeholder = Some (case ph of Some p \<Rightarrow> p | None \<Rightarrow> elem_text)\<rparr>]))))"

definition expand_pending_pastes :: "string \<Rightarrow> user_element list \<Rightarrow> (string \<times> string) list \<Rightarrow> (string \<times> user_element list) option" where
  "expand_pending_pastes txt elements pastes =
     (if pastes = [] \<or> elements = [] then Some (txt, elements)
      else Option.bind (expand_loop txt (sort_key ue_start elements) pastes 0 [] []) (\<lambda>(cursor, rebuilt, out).
        if cursor < length txt
        then map_option (\<lambda>tail. (rebuilt @ tail, out)) (str_get txt (cursor, length txt))
        else Some (rebuilt, out)))"

definition current_text :: "composer \<Rightarrow> string" where
  "current_text c = (if c_bash_mode c then ''!'' @ ta_text (c_area c) else ta_text (c_area c))"

definition shift_text_element :: "nat \<Rightarrow> user_element \<Rightarrow> user_element option" where
  "shift_text_element n e =
     (if ue_end e + n \<le> ue_start e + n then None else Some (e\<lparr>ue_start := ue_start e + n, ue_end := ue_end e + n\<rparr>))"

definition current_text_elements :: "composer \<Rightarrow> user_element list" where
  "current_text_elements c =
     List.map_filter (shift_text_element (if c_bash_mode c then 1 else 0)) (ta_text_elements (c_area c))"

definition current_text_with_pending :: "composer \<Rightarrow> string option" where
  "current_text_with_pending c =
     (if c_pastes c = [] then Some (current_text c)
      else map_option fst (expand_pending_pastes (current_text c) (current_text_elements c) (c_pastes c)))"

section \<open>Clean text\<close>

text \<open>Text that pasting does not change: no carriage return and no control character other than tab
  and newline.\<close>

definition clean_text :: "string \<Rightarrow> bool" where
  "clean_text s \<longleftrightarrow> list_all (\<lambda>ch. \<not> cut_here ch) (chars s) \<and> CHR 0x0D \<notin> set s"

lemma sanitize_clean: "list_all (\<lambda>ch. \<not> cut_here ch) cs \<Longrightarrow> sanitize_chars cs = cs"
  by (subst sanitize_chars.simps) (simp add: list_all_iff takeWhile_eq_all_conv [THEN iffD2] dropWhile_eq_Nil_conv [THEN iffD2])

lemma replace_crlf_id: "CHR 0x0D \<notin> set s \<Longrightarrow> replace_crlf s = s"
  by (induction s rule: replace_crlf.induct) auto

lemma clean_paste: "clean_text s \<Longrightarrow> sanitize_user_text (normalize_newlines s) = s"
proof -
  assume c: "clean_text s"
  then have "normalize_newlines s = s"
    by (auto simp: normalize_newlines_def clean_text_def replace_crlf_id intro!: map_idI)
  with c show ?thesis by (simp add: sanitize_user_text_def clean_text_def sanitize_clean)
qed

lemma clean_append: "str_start t \<Longrightarrow> clean_text (s @ t) \<longleftrightarrow> clean_text s \<and> clean_text t"
  by (auto simp: clean_text_def chars_append)

section \<open>Typing\<close>

definition in_flight :: "paste_burst \<Rightarrow> string" where
  "in_flight b = burst_buffer b @ (case pending_first_char b of Some (ch, at) \<Rightarrow> ch | None \<Rightarrow> [])"

text \<open>
  The states of the detector: a held character excludes a burst and was the last one typed, and
  text in flight has a time to be flushed against.
\<close>

definition burst_ok :: "paste_burst \<Rightarrow> bool" where
  "burst_ok b \<longleftrightarrow>
     from_utf8 (burst_buffer b) = Utf8Ok \<and> (burst_active b \<longrightarrow> last_plain_char_time b \<noteq> None) \<and>
     (\<not> burst_active b \<longrightarrow> burst_buffer b = []) \<and>
     (\<forall>ch at. pending_first_char b = Some (ch, at) \<longrightarrow>
        \<not> burst_active b \<and> burst_buffer b = [] \<and> last_plain_char_time b = Some at \<and> from_utf8 ch = Utf8Ok)"

lemma burst_ok_idle: "\<not> burst_active b \<Longrightarrow> burst_buffer b = [] \<Longrightarrow> pending_first_char b = None \<Longrightarrow> burst_ok b"
  by (simp add: burst_ok_def is_active_internal_def)

text \<open>
  A plain draft in which the text \<open>T\<close> has been typed up to the cursor and \<open>R\<close> follows it: what is in the
  buffer before the cursor and what the detector still holds make up \<open>T\<close>.
\<close>

definition drafting :: "nat set \<Rightarrow> composer \<Rightarrow> string \<Rightarrow> string \<Rightarrow> bool" where
  "drafting S c T R \<longleftrightarrow>
     c_pastes c = [] \<and> \<not> c_shell_commands c \<and> \<not> c_disable_burst c \<and>
     burst_ok (c_burst c) \<and> (\<forall>t. last_plain_char_time (c_burst c) = Some t \<longrightarrow> t \<in> S) \<and>
     (\<exists>A. plain_draft (c_area c) A R \<and> A @ in_flight (c_burst c) = T)"

definition fits :: "string \<Rightarrow> bool" where
  "fits T \<longleftrightarrow> clean_text T \<and> length (chars T) \<le> LARGE_PASTE_CHAR_THRESHOLD"

lemma suffix_fits:
  assumes "fits (A @ s)" "from_utf8 s = Utf8Ok"
  shows "clean_text s" "length (chars s) \<le> LARGE_PASTE_CHAR_THRESHOLD"
  using assms valid_str_start [OF assms(2)] by (auto simp: fits_def clean_append chars_append)

lemma composer_insert_plain:
  assumes "drafting S c T R" "in_flight (c_burst c) = []" "from_utf8 s = Utf8Ok"
  shows "\<exists>c'. composer_insert_str c s = Some c' \<and> drafting S c' (T @ s) R \<and> c_burst c' = c_burst c"
proof -
  have "plain_draft (c_area c) T R" using assms(1,2) by (simp add: drafting_def)
  from area.put_draft [OF this assms(3)] assms show ?thesis
    by (simp add: composer_insert_str_def sync_bash_mode_from_text_def drafting_def)
qed

text \<open>Pasting text that fits inserts it at the cursor and resets the detector.\<close>

lemma apply_paste_plain:
  assumes d: "drafting S c T R" "in_flight (c_burst c) = []" and s: "from_utf8 s = Utf8Ok" "clean_text s"
    "length (chars s) \<le> LARGE_PASTE_CHAR_THRESHOLD"
  shows "\<exists>c'. apply_paste c s = Some c' \<and> drafting S c' (T @ s) R \<and> c_burst c' = clear_after_explicit_paste (c_burst c)"
proof -
  obtain c1 where c1: "composer_insert_str c s = Some c1" "drafting S c1 (T @ s) R" "c_burst c1 = c_burst c"
    using composer_insert_plain [OF d s(1)] by blast
  let ?c' = "c1\<lparr>c_burst := clear_after_explicit_paste (c_burst c1)\<rparr>"
  have "in_flight (clear_after_explicit_paste (c_burst c1)) = in_flight (c_burst c1)"
    using d(2) c1(3) by (simp add: in_flight_def clear_after_explicit_paste_def)
  then have "drafting S ?c' (T @ s) R"
    using c1(2) by (auto simp: drafting_def clear_after_explicit_paste_def intro!: burst_ok_idle)
  with c1 s clean_paste [OF s(2)] show ?thesis by (simp add: apply_paste_def Let_def)
qed

text \<open>Emptying the detector into the buffer, however it is done, keeps the draft.\<close>

lemma drafting_emptied:
  assumes d: "drafting S c T R" and b: "last_plain_char_time b = last_plain_char_time (c_burst c)" "burst_ok b" "in_flight b = []"
  obtains A where "drafting S (c\<lparr>c_burst := b\<rparr>) A R" "A @ in_flight (c_burst c) = T"
  using assms by (auto simp: drafting_def)

lemma in_flight_valid: "burst_ok b \<Longrightarrow> from_utf8 (in_flight b) = Utf8Ok"
  by (cases "pending_first_char b") (auto simp: burst_ok_def in_flight_def)

lemma flush_paste_drafting:
  assumes d: "drafting S c T R" and f: "fits T"
    and b: "last_plain_char_time b = last_plain_char_time (c_burst c)" "burst_ok b" "in_flight b = []"
  shows "\<exists>c'. apply_paste (c\<lparr>c_burst := b\<rparr>) (in_flight (c_burst c)) = Some c' \<and> drafting S c' T R \<and>
    c_burst c' = clear_after_explicit_paste b"
proof -
  obtain A where A: "drafting S (c\<lparr>c_burst := b\<rparr>) A R" "A @ in_flight (c_burst c) = T"
    by (rule drafting_emptied [OF d b])
  have v: "from_utf8 (in_flight (c_burst c)) = Utf8Ok" using d by (simp add: drafting_def in_flight_valid)
  from apply_paste_plain [OF A(1) _ v] suffix_fits [OF _ v, of A] f A(2) b(3) show ?thesis by simp
qed

lemma flush_then_paste_drafting:
  assumes d: "drafting S c T R" and f: "fits T"
  shows "\<exists>c'. flush_then_paste c = Some c' \<and> drafting S c' T R \<and> in_flight (c_burst c') = [] \<and> \<not> burst_is_active (c_burst c')"
proof (cases "burst_is_active (c_burst c)")
  case False
  with d show ?thesis
    by (auto simp: flush_then_paste_def flush_before_modified_input_def burst_is_active_def is_active_internal_def in_flight_def
        split: option.splits)
next
  case True
  let ?b = "c_burst c\<lparr>burst_active := False, burst_buffer := [], pending_first_char := None\<rparr>"
  have "burst_ok ?b" "in_flight ?b = []" by (simp_all add: burst_ok_idle in_flight_def)
  from flush_paste_drafting [OF d f _ this] True show ?thesis
    by (auto simp: flush_then_paste_def flush_before_modified_input_def in_flight_def clear_after_explicit_paste_def
        burst_is_active_def is_active_internal_def)
qed

text \<open>After the flush at the start of every key, a held character is still fresh.\<close>

lemma burst_flush_drafting:
  assumes d: "drafting S c T R" and f: "fits T"
  shows "\<exists>c' r. handle_paste_burst_flush windows c now = Some (c', r) \<and> drafting S c' T R \<and>
    (\<forall>ch at. pending_first_char (c_burst c') = Some (ch, at) \<longrightarrow> now - at \<le> PASTE_BURST_CHAR_INTERVAL) \<and>
    ((\<forall>t\<in>S. PASTE_BURST_ACTIVE_IDLE_TIMEOUT windows < now - t \<and> PASTE_BURST_CHAR_INTERVAL < now - t) \<longrightarrow>
       in_flight (c_burst c') = [])"
proof -
  let ?b = "c_burst c"
  have ok: "burst_ok ?b" and S: "\<And>t. last_plain_char_time ?b = Some t \<Longrightarrow> t \<in> S" using d by (auto simp: drafting_def)
  define due where "due = flush_is_due windows ?b now"
  consider (paste) "due" "is_active_internal ?b" | (typed) ch at where "due" "\<not> is_active_internal ?b" "pending_first_char ?b = Some (ch, at)"
    | (idle) "due" "\<not> is_active_internal ?b" "pending_first_char ?b = None" | (early) "\<not> due"
    by (cases "pending_first_char ?b") auto
  then show ?thesis
  proof cases
    case paste
    have pend: "pending_first_char ?b = None"
      using ok paste(2) by (cases "pending_first_char ?b") (auto simp: burst_ok_def is_active_internal_def)
    let ?n = "?b\<lparr>burst_active := False, burst_buffer := []\<rparr>"
    have "burst_ok ?n" "in_flight ?n = []" "in_flight ?b = burst_buffer ?b"
      using pend by (simp_all add: burst_ok_idle in_flight_def)
    with flush_paste_drafting [OF d f, of ?n] obtain c' where
      "apply_paste (c\<lparr>c_burst := ?n\<rparr>) (burst_buffer ?b) = Some c'" "drafting S c' T R" "c_burst c' = clear_after_explicit_paste ?n"
      by auto
    with paste show ?thesis
      by (auto simp: handle_paste_burst_flush_def flush_if_due_eq due_def [symmetric]
          clear_after_explicit_paste_def in_flight_def)
  next
    case typed
    let ?n = "?b\<lparr>pending_first_char := None\<rparr>"
    have buf: "\<not> burst_active ?b" "burst_buffer ?b = []" "from_utf8 ch = Utf8Ok"
      using ok typed(2,3) by (auto simp: burst_ok_def is_active_internal_def)
    then have n: "burst_ok ?n" "in_flight ?n = []" by (simp_all add: burst_ok_idle in_flight_def)
    obtain A where A: "drafting S (c\<lparr>c_burst := ?n\<rparr>) A R" "A @ in_flight ?b = T"
      by (rule drafting_emptied [OF d, of ?n]) (use n in auto)
    with composer_insert_plain [OF A(1) _ buf(3)] n(2) obtain c' where
      c': "composer_insert_str (c\<lparr>c_burst := ?n\<rparr>) ch = Some c'" "drafting S c' (A @ ch) R" "c_burst c' = ?n" by auto
    have "A @ ch = T" using A(2) typed(3) buf(2) by (simp add: in_flight_def)
    with c' typed n(2) show ?thesis
      by (auto simp: handle_paste_burst_flush_def flush_if_due_eq due_def [symmetric])
  next
    case idle
    with d show ?thesis
      by (auto simp: handle_paste_burst_flush_def flush_if_due_eq due_def [symmetric]
          in_flight_def is_active_internal_def)
  next
    case early
    have "now - at \<le> PASTE_BURST_CHAR_INTERVAL" if "pending_first_char ?b = Some (ch, at)" for ch at
      using ok that early by (auto simp: due_def flush_is_due_def burst_ok_def is_active_internal_def)
    moreover have "in_flight ?b = []"
      if "\<forall>t\<in>S. PASTE_BURST_ACTIVE_IDLE_TIMEOUT windows < now - t \<and> PASTE_BURST_CHAR_INTERVAL < now - t"
    proof -
      have "last_plain_char_time ?b = None"
        using early S that by (cases "last_plain_char_time ?b") (auto simp: due_def flush_is_due_def split: if_splits)
      with ok show ?thesis
        by (cases "pending_first_char ?b") (auto simp: burst_ok_def is_active_internal_def in_flight_def)
    qed
    ultimately show ?thesis
      using early d by (auto simp: handle_paste_burst_flush_def flush_if_due_eq due_def [symmetric])
  qed
qed

text \<open>A character event: a code point with no modifier that is no control character and has no binding.\<close>

definition typed_key :: "string \<Rightarrow> key_event" where
  "typed_key ch = \<lparr>key_code = KeyChar ch, has_ctrl_or_alt = False, has_super = False, is_altgr = False, has_shift = False\<rparr>"

definition typed_char :: "string \<Rightarrow> bool" where
  "typed_char ch \<longleftrightarrow> from_utf8 ch = Utf8Ok \<and> \<not> is_control_char ch"

lemma typed_input:
  assumes "bound (typed_key ch) = None" "typed_char ch"
  shows "textarea_input bound (typed_key ch) ta = Some (ta_insert_str ta ch)"
  using assms by (simp add: textarea_input_def typed_key_def has_non_text_modifier_def typed_char_def)

lemma insert_typed:
  assumes d: "drafting S c T R" "in_flight (c_burst c) = []" and ch: "typed_char ch" "bound (typed_key ch) = None"
  shows "\<exists>c'. handle_key_normally bound c (typed_key ch) = Some c' \<and> drafting S c' (T @ ch) R"
    and "\<exists>c'. insert_and_retain bound (typed_key ch) c = Some c' \<and> drafting S c' (T @ ch) R"
proof -
  have p: "plain_draft (c_area c) T R" using d by (simp add: drafting_def)
  have v: "from_utf8 ch = Utf8Ok" using ch(1) by (simp add: typed_char_def)
  let ?c' = "c\<lparr>c_area := ta_insert_str (c_area c) ch\<rparr>"
  have d': "drafting S ?c' (T @ ch) R"
    using area.put_draft [OF p v] d by (simp add: drafting_def)
  show "\<exists>c'. handle_key_normally bound c (typed_key ch) = Some c' \<and> drafting S c' (T @ ch) R"
    using d' d(1) typed_input [of bound ch, OF ch(2,1)]
    by (simp add: handle_key_normally_def typed_key_def has_non_text_modifier_def sync_bash_mode_from_text_def drafting_def)
  show "\<exists>c'. insert_and_retain bound (typed_key ch) c = Some c' \<and> drafting S c' (T @ ch) R"
    using d' d(1) typed_input [of bound ch, OF ch(2,1)] by (simp add: insert_and_retain_def drafting_def)
qed

lemma drafting_append:
  assumes d: "drafting S c T R" and b: "burst_ok b" "last_plain_char_time b = Some t" "t \<in> S"
    "in_flight b = in_flight (c_burst c) @ ch"
  shows "drafting S (c\<lparr>c_burst := b\<rparr>) (T @ ch) R"
  using assms by (auto simp: drafting_def)

text \<open>The slice taken back from the buffer ends at the cursor and starts at a code point.\<close>

lemma char_indices_nth:
  "k < length cs \<Longrightarrow> fst (char_indices_from i cs ! k) = i + length (concat (take k cs))"
proof (induction cs arbitrary: i k)
  case (Cons c cs)
  then show ?case by (cases k) auto
qed simp

lemma length_char_indices: "length (char_indices_from i cs) = length cs"
  by (induction cs arbitrary: i) auto

lemma retro_start: "\<exists>k. retro_start_index s n = length (concat (take k (chars s)))"
proof (cases "n - 1 < length (chars s)")
  case True
  show ?thesis
  proof (cases "n = 0")
    case True
    then show ?thesis by (intro exI [of _ "length (chars s)"]) (simp add: retro_start_index_def)
  next
    case False
    then have "retro_start_index s n = length (concat (take (length (chars s) - n) (chars s)))"
      using \<open>n - 1 < length (chars s)\<close> char_indices_nth [of "length (chars s) - n" "chars s" 0]
      by (simp add: retro_start_index_def char_indices_def length_char_indices rev_nth Suc_diff_Suc)
    then show ?thesis by blast
  qed
next
  case False
  show ?thesis
  proof (cases "n = 0")
    case True
    then show ?thesis by (intro exI [of _ "length (chars s)"]) (simp add: retro_start_index_def)
  next
    case n: False
    with False show ?thesis
      by (intro exI [of _ 0]) (simp add: retro_start_index_def char_indices_def length_char_indices)
  qed
qed

lemma retro_boundary:
  assumes "from_utf8 A = Utf8Ok"
  shows "retro_start_index A n \<le> length A" "str_start (drop (retro_start_index A n) A)"
proof -
  obtain k where k: "retro_start_index A n = length (concat (take k (chars A)))" using retro_start by blast
  have split: "A = concat (take k (chars A)) @ concat (drop k (chars A))"
    by (metis append_take_drop_id concat_append concat_chars)
  then have d: "drop (retro_start_index A n) A = concat (drop k (chars A))"
    by (metis append_eq_conv_conj k)
  show "retro_start_index A n \<le> length A" using k split by (metis le_add1 length_append)
  show "str_start (drop (retro_start_index A n) A)"
  proof (cases "drop k (chars A)")
    case (Cons x xs)
    then have "x \<in> set (chars A)" by (metis in_set_dropD list.set_intros(1))
    with chars_start [OF valid_str_start [OF assms]] have "x \<noteq> []" "str_start x" by auto
    with d Cons show ?thesis by (simp add: str_start_append)
  qed (simp add: d str_start_def)
qed

context draft_buffer
begin

text \<open>Taking back the last characters before the cursor.\<close>

lemma grab:
  assumes "shows_draft b A R"
  shows "\<exists>b'. take_back b (retro_start_index A n) = Some b' \<and> shows_draft b' (take (retro_start_index A n) A) R"
    "from_utf8 (drop (retro_start_index A n) A) = Utf8Ok"
  using take_back_draft [OF assms] taken_valid [OF assms] retro_boundary [OF before_valid [OF assms], of n] by auto

end

lemma begin_buffer_drafting:
  assumes d: "drafting S c T R" and b: "last_plain_char_time (c_burst c) = Some t" "pending_first_char (c_burst c) = None"
    "in_flight (c_burst c) = []" and ch: "from_utf8 ch = Utf8Ok"
  shows "(\<exists>c'. begin_buffer c ch n now = Some (Inl c') \<and> drafting S c' (T @ ch) R) \<or> begin_buffer c ch n now = Some (Inr c)"
proof -
  have p: "plain_draft (c_area c) T R" and S: "t \<in> S" using d b(1,3) by (auto simp: drafting_def)
  have A: "ta_text (c_area c) = T @ R" "cursor_pos (c_area c) = length T" using p by (simp_all add: plain_draft_def)
  have cl: "clamp_to_char_boundary (T @ R) (length T) = length T"
    using plain_draft_boundary [OF p] by (simp add: clamp_to_char_boundary_def)
  let ?i = "retro_start_index T n"
  let ?b = "append_char_to_buffer (begin_with_retro_grabbed (c_burst c) (drop ?i T) now) ch now"
  obtain ta' where ta': "retract_paste_burst (c_area c) ?i = Some ta'" "plain_draft ta' (take ?i T) R"
    using area.grab(1) [OF p] by blast
  have okb: "burst_ok ?b" "last_plain_char_time ?b = Some t" "in_flight ?b = drop ?i T @ ch"
    using b valid_append [OF area.grab(2) [OF p] ch]
    by (simp_all add: burst_ok_def append_char_to_buffer_def begin_with_retro_grabbed_def in_flight_def)
  have shift: "drafting S (c\<lparr>c_area := ta', c_burst := ?b\<rparr>) (T @ ch) R"
    using d ta'(2) okb S b(3) by (auto simp: drafting_def intro!: exI [of _ "take ?i T"])
  have stay: "drafting S (c\<lparr>c_burst := ?b\<rparr>) (T @ ch) R" if "drop ?i T = []"
    using okb that b(3) S by (intro drafting_append [OF d okb(1,2)]) auto
  show ?thesis
    using cl A ta'(1) shift stay
    by (auto simp: begin_buffer_def decide_begin_buffer_def Let_def)
qed

text \<open>Noting a character only touches the clock and the counter.\<close>

lemma note_plain_char_fields [simp]:
  "last_plain_char_time (note_plain_char b now) = Some now"
  "burst_buffer (note_plain_char b now) = burst_buffer b"
  "burst_active (note_plain_char b now) = burst_active b"
  "pending_first_char (note_plain_char b now) = pending_first_char b"
  by (simp_all add: note_plain_char_def Let_def)

lemma noted_drafting:
  assumes "drafting S c T R" "pending_first_char (c_burst c) = None" "now \<in> S"
  shows "drafting S (c\<lparr>c_burst := note_plain_char (c_burst c) now\<rparr>) T R"
  using assms by (auto simp: drafting_def burst_ok_def is_active_internal_def in_flight_def)

lemma ascii_step:
  assumes d: "drafting S c T R" and fresh: "\<And>h at. pending_first_char (c_burst c) = Some (h, at) \<Longrightarrow> now - at \<le> PASTE_BURST_CHAR_INTERVAL"
    and f: "fits T" and ch: "typed_char ch" "bound (typed_key ch) = None" and S: "now \<in> S"
  shows "\<exists>c'. (case on_plain_char (c_burst c) ch now of
      (b, BufferAppend) \<Rightarrow> Some (c\<lparr>c_burst := append_char_to_buffer b ch now\<rparr>)
    | (b, BeginBuffer retro_chars) \<Rightarrow>
        Option.bind (begin_buffer (c\<lparr>c_burst := b\<rparr>) ch retro_chars now) (\<lambda>r.
          case r of Inl c2 \<Rightarrow> Some c2
          | Inr c2 \<Rightarrow> Option.bind (flush_then_paste c2) (\<lambda>c3. handle_key_normally bound c3 (typed_key ch)))
    | (b, BeginBufferFromPending) \<Rightarrow> Some (c\<lparr>c_burst := append_char_to_buffer b ch now\<rparr>)
    | (b, RetainFirstChar) \<Rightarrow> Some (c\<lparr>c_burst := b\<rparr>)) = Some c' \<and> drafting S c' (T @ ch) R"
proof -
  let ?b = "c_burst c" and ?n = "note_plain_char (c_burst c) now"
  have ok: "burst_ok ?b" and v: "from_utf8 ch = Utf8Ok" using d ch by (auto simp: drafting_def typed_char_def)
  consider (active) "burst_active ?b" "pending_first_char ?b = None"
    | (pending) h at where "\<not> burst_active ?b" "pending_first_char ?b = Some (h, at)"
    | (idle) "\<not> burst_active ?b" "pending_first_char ?b = None"
    using ok by (cases "pending_first_char ?b") (auto simp: burst_ok_def)
  then show ?thesis
  proof cases
    case active
    let ?b' = "append_char_to_buffer (?n\<lparr>burst_window_until := Some (now + PASTE_ENTER_SUPPRESS_WINDOW)\<rparr>) ch now"
    have "burst_ok ?b'" "last_plain_char_time ?b' = Some now" "in_flight ?b' = in_flight ?b @ ch"
      using ok v active valid_append by (auto simp: burst_ok_def append_char_to_buffer_def in_flight_def)
    from drafting_append [OF d this(1,2) S this(3)] active show ?thesis by (simp add: on_plain_char_def Let_def)
  next
    case pending
    have h: "burst_buffer ?b = []" "from_utf8 h = Utf8Ok" using ok pending by (auto simp: burst_ok_def)
    let ?b' = "append_char_to_buffer (?n\<lparr>burst_active := True, pending_first_char := None, burst_buffer := h,
      burst_window_until := Some (now + PASTE_ENTER_SUPPRESS_WINDOW)\<rparr>) ch now"
    have "burst_ok ?b'" "last_plain_char_time ?b' = Some now" "in_flight ?b' = in_flight ?b @ ch"
      using v h pending valid_append by (auto simp: burst_ok_def append_char_to_buffer_def in_flight_def)
    from drafting_append [OF d this(1,2) S this(3)] pending fresh h show ?thesis by (simp add: on_plain_char_def Let_def)
  next
    case idle
    show ?thesis
    proof (cases "PASTE_BURST_MIN_CHARS \<le> consecutive_plain_char_burst ?n")
      case False
      let ?b' = "?n\<lparr>pending_first_char := Some (ch, now)\<rparr>"
      have "burst_ok ?b'" "last_plain_char_time ?b' = Some now" "in_flight ?b' = in_flight ?b @ ch"
        using ok v idle by (auto simp: burst_ok_def in_flight_def)
      from drafting_append [OF d this(1,2) S this(3)] idle False show ?thesis by (simp add: on_plain_char_def Let_def)
    next
      case True
      let ?c = "c\<lparr>c_burst := ?n\<rparr>"
      have dn: "drafting S ?c T R" using noted_drafting [OF d idle(2) S] .
      have empty: "in_flight ?n = []" using ok idle by (auto simp: burst_ok_def in_flight_def)
      have step: "on_plain_char ?b ch now = (?n, BeginBuffer (consecutive_plain_char_burst ?n - 1))"
        using idle True by (simp add: on_plain_char_def Let_def)
      obtain c3 where c3: "flush_then_paste ?c = Some c3" "drafting S c3 T R" "in_flight (c_burst c3) = []"
        using flush_then_paste_drafting [OF dn f] by blast
      from begin_buffer_drafting [OF dn, of now ch "consecutive_plain_char_burst ?n - 1" now] idle empty v
        insert_typed(1) [where bound = bound, OF c3(2,3) ch] c3(1) show ?thesis
        unfolding step by auto
    qed
  qed
qed

lemma non_ascii_step:
  assumes d: "drafting S c T R" and f: "fits T" and ch: "typed_char ch" "bound (typed_key ch) = None" and S: "now \<in> S"
  shows "\<exists>c'. handle_non_ascii_char bound c (typed_key ch) ch now = Some c' \<and> drafting S c' (T @ ch) R"
proof (cases "is_active_internal (c_burst c)")
  case True
  let ?b = "c_burst c" and ?b' = "append_char_to_buffer (c_burst c) ch now"
  have ok: "burst_ok ?b" and v: "from_utf8 ch = Utf8Ok" and en: "\<not> c_disable_burst c"
    and SS: "\<And>t. last_plain_char_time ?b = Some t \<Longrightarrow> t \<in> S"
    using d ch by (auto simp: drafting_def typed_char_def)
  have act: "burst_active ?b" "pending_first_char ?b = None"
    using ok True by (cases "pending_first_char ?b"; auto simp: burst_ok_def is_active_internal_def)+
  obtain t where t: "last_plain_char_time ?b = Some t" using ok act by (auto simp: burst_ok_def)
  have "burst_ok ?b'" "last_plain_char_time ?b' = Some t" "in_flight ?b' = in_flight ?b @ ch"
    using ok v act t valid_append by (auto simp: burst_ok_def append_char_to_buffer_def in_flight_def)
  from drafting_append [OF d this(1,2) SS [OF t] this(3)] act en show ?thesis
    by (simp add: handle_non_ascii_char_def try_append_char_if_active_def)
next
  case False
  have en: "\<not> c_disable_burst c" and v: "from_utf8 ch = Utf8Ok" using d ch by (auto simp: drafting_def typed_char_def)
  obtain c1 where c1: "flush_then_paste c = Some c1" "drafting S c1 T R" "in_flight (c_burst c1) = []" "\<not> burst_is_active (c_burst c1)"
    using flush_then_paste_drafting [OF d f] by blast
  let ?n = "note_plain_char (c_burst c1) now" and ?c = "c1\<lparr>c_burst := note_plain_char (c_burst c1) now\<rparr>"
  have idle: "\<not> burst_active (c_burst c1)" "pending_first_char (c_burst c1) = None"
    using c1(4) by (cases "pending_first_char (c_burst c1)"; simp add: burst_is_active_def is_active_internal_def)+
  have dn: "drafting S ?c T R" using noted_drafting [OF c1(2) idle(2) S] .
  obtain c3 where c3: "flush_then_paste ?c = Some c3" "drafting S c3 T R" "in_flight (c_burst c3) = []"
    using flush_then_paste_drafting [OF dn f] by blast
  obtain c4 where c4: "insert_and_retain bound (typed_key ch) c3 = Some c4" "drafting S c4 (T @ ch) R"
    using insert_typed(2) [where bound = bound, OF c3(2,3) ch] by blast
  have run: "handle_non_ascii_char bound c (typed_key ch) ch now =
      (if PASTE_BURST_MIN_CHARS \<le> consecutive_plain_char_burst ?n then
         Option.bind (begin_buffer ?c ch (consecutive_plain_char_burst ?n - 1) now) (\<lambda>r.
           case r of Inl c2 \<Rightarrow> Some c2 | Inr c2 \<Rightarrow> Option.bind (flush_then_paste c2) (insert_and_retain bound (typed_key ch)))
       else Option.bind (flush_then_paste ?c) (insert_and_retain bound (typed_key ch)))"
    using False en c1(1) idle
    by (simp add: handle_non_ascii_char_def try_append_char_if_active_def is_active_internal_def on_plain_char_no_hold_def Let_def)
  from begin_buffer_drafting [OF dn, of now ch "consecutive_plain_char_burst ?n - 1" now] idle v c1(3) c3(1) c4 show ?thesis
    unfolding run by (auto simp: in_flight_def)
qed

text \<open>Type the characters at the given times.\<close>

fun type_chars :: "bool \<Rightarrow> bindings \<Rightarrow> composer \<Rightarrow> (string \<times> nat) list \<Rightarrow> composer option" where
  "type_chars windows bound c [] = Some c"
| "type_chars windows bound c ((ch, now) # es) =
     Option.bind (handle_input_basic_with_time windows bound c (typed_key ch) now) (\<lambda>c'. type_chars windows bound c' es)"

lemma fits_prefix: "fits (s @ t) \<Longrightarrow> str_start t \<Longrightarrow> fits s"
  by (auto simp: fits_def clean_append chars_append)

lemma type_step:
  assumes d: "drafting S c T R" and f: "fits T" and ch: "typed_char ch" "bound (typed_key ch) = None" and S: "now \<in> S"
  shows "\<exists>c'. handle_input_basic_with_time windows bound c (typed_key ch) now = Some c' \<and> drafting S c' (T @ ch) R"
proof -
  obtain c1 r where c1: "handle_paste_burst_flush windows c now = Some (c1, r)" "drafting S c1 T R"
    "\<And>h at. pending_first_char (c_burst c1) = Some (h, at) \<Longrightarrow> now - at \<le> PASTE_BURST_CHAR_INTERVAL"
    using burst_flush_drafting [OF d f, of windows now] by blast
  have en: "\<not> c_disable_burst c1" using c1(2) by (simp add: drafting_def)
  have k: "key_code (typed_key ch) = KeyChar ch" "\<not> has_non_text_modifier (typed_key ch)"
    by (simp_all add: typed_key_def has_non_text_modifier_def)
  show ?thesis
  proof (cases "is_ascii_char ch")
    case True
    with ascii_step [where bound = bound, OF c1(2,3) f ch S] c1(1) en k show ?thesis by (simp add: handle_input_basic_with_time_def)
  next
    case False
    with non_ascii_step [where bound = bound, OF c1(2) f ch S] c1(1) en k show ?thesis by (simp add: handle_input_basic_with_time_def)
  qed
qed

lemma type_chars_drafting:
  assumes "drafting S c T R" "fits (T @ concat (map fst es))" "\<forall>e\<in>set es. typed_char (fst e) \<and> bound (typed_key (fst e)) = None \<and> snd e \<in> S"
  shows "\<exists>c'. type_chars windows bound c es = Some c' \<and> drafting S c' (T @ concat (map fst es)) R"
  using assms
proof (induction es arbitrary: c T)
  case (Cons e es)
  obtain ch now where e: "e = (ch, now)" by force
  have "\<forall>x\<in>set xs. typed_char (fst x) \<Longrightarrow> from_utf8 (concat (map fst xs)) = Utf8Ok" for xs :: "(string \<times> nat) list"
    by (induction xs) (auto simp: typed_char_def valid_append)
  from this [of "e # es"] Cons.prems(3) have "from_utf8 (concat (map fst (e # es))) = Utf8Ok" by simp
  then have "fits T" using fits_prefix [OF Cons.prems(2)] valid_str_start by blast
  with type_step [OF Cons.prems(1), of ch bound now windows] Cons.prems(3) e obtain c1 where
    "handle_input_basic_with_time windows bound c (typed_key ch) now = Some c1" "drafting S c1 (T @ ch) R" by auto
  with Cons.IH [of c1 "T @ ch"] Cons.prems(2,3) e show ?case by simp
qed simp

section \<open>Properties\<close>



lemma suffix_numbered:
  assumes "k \<le> usize_max"
  shows "suffix_in_use b (b @ '' #'' @ show_nat k) = k"
proof -
  have "strip_prefix (b @ '' #'') (b @ '' #'' @ show_nat k) = Some (show_nat k)"
    using strip_prefix_append [of "b @ '' #''" "show_nat k"] by simp
  then show ?thesis using assms by (simp add: suffix_in_use_def parse_show)
qed

text \<open>
  Two large pastes never share a placeholder. The label made for a new paste differs from the label of
  every paste that is still pending, as long as the numbers in use stay below the largest machine integer.
\<close>

theorem paste_placeholder_is_fresh:
  assumes "\<forall>p\<in>set pastes. suffix_in_use (large_paste_base n) (fst p) < usize_max"
  shows "next_large_paste_placeholder pastes n \<notin> fst ` set pastes"
proof -
  let ?b = "large_paste_base n"
  let ?m = "foldl (\<lambda>m p. max m (suffix_in_use ?b (fst p))) 0 pastes"
  have ge: "p \<in> set ps \<Longrightarrow> suffix_in_use ?b (fst p) \<le> foldl (\<lambda>m p. max m (suffix_in_use ?b (fst p))) 0 ps"
    for p and ps :: "(string \<times> string) list"
    by (induction ps rule: rev_induct) (auto simp: le_max_iff_disj)
  have below: "\<forall>p\<in>set ps. suffix_in_use ?b (fst p) < usize_max \<Longrightarrow>
      foldl (\<lambda>m p. max m (suffix_in_use ?b (fst p))) 0 ps < usize_max" for ps :: "(string \<times> string) list"
    by (induction ps rule: rev_induct) (auto simp: usize_max_def)
  show ?thesis
  proof
    assume "next_large_paste_placeholder pastes n \<in> fst ` set pastes"
    then obtain p where p: "p \<in> set pastes" "fst p = next_large_paste_placeholder pastes n" by auto
    show False
    proof (cases "?m = 0")
      case True
      with p(2) have "suffix_in_use ?b (fst p) = 1"
        by (simp add: next_large_paste_placeholder_def suffix_in_use_def)
      with ge [OF p(1)] True show False by simp
    next
      case False
      then have "fst p = ?b @ '' #'' @ show_nat (?m + 1)"
        using p(2) by (simp add: next_large_paste_placeholder_def Let_def)
      with suffix_numbered [of "?m + 1" ?b] below [OF assms] have "suffix_in_use ?b (fst p) = ?m + 1" by simp
      with ge [OF p(1)] show False by simp
    qed
  qed
qed

theorem paste_placeholder_is_fresh_witness:
  "next_large_paste_placeholder [(large_paste_base 1001, ''x''), (large_paste_base 1001 @ '' #2'', ''y'')] 1001
     \<notin> fst ` set [(large_paste_base 1001, ''x''), (large_paste_base 1001 @ '' #2'', ''y'')]"
proof (rule paste_placeholder_is_fresh)
  have "suffix_in_use (large_paste_base 1001) (large_paste_base 1001 @ '' #2'') = 2"
    using strip_prefix_append [of "large_paste_base 1001 @ '' #''" "''2''"]
    by (simp add: suffix_in_use_def parse_uint_def is_ascii_digit_def decimal_value_def digit_value_def usize_max_def)
  then show "\<forall>p\<in>set [(large_paste_base 1001, ''x''), (large_paste_base 1001 @ '' #2'', ''y'')].
      suffix_in_use (large_paste_base 1001) (fst p) < usize_max"
    by (simp add: suffix_in_use_def usize_max_def)
qed

section \<open>Pasting keeps text valid\<close>

lemma valid_concat_parts:
  "\<forall>ch\<in>set cs. ch \<noteq> [] \<and> str_start ch \<Longrightarrow> from_utf8 (concat cs) = Utf8Ok \<Longrightarrow> \<forall>ch\<in>set cs. from_utf8 ch = Utf8Ok"
proof (induction cs)
  case (Cons c cs)
  have "str_start []" by (simp add: str_start_def)
  then have "str_start (concat cs)" using Cons.prems(1) by (cases cs) (auto simp: str_start_append)
  from Cons.prems(2) have "from_utf8 (c @ concat cs) = Utf8Ok" by (simp only: concat.simps)
  from valid_split [OF this \<open>str_start (concat cs)\<close>] Cons.IH Cons.prems(1) show ?case by simp
qed simp

lemma valid_concat: "\<forall>ch\<in>set cs. from_utf8 ch = Utf8Ok \<Longrightarrow> from_utf8 (concat cs) = Utf8Ok"
  by (induction cs) (auto intro: valid_append)

lemma sanitize_chars_subset: "set (sanitize_chars cs) \<subseteq> set cs"
proof (induction cs rule: sanitize_chars.induct)
  case (1 cs)
  have tw: "set (takeWhile P xs) \<subseteq> set xs" "set (dropWhile P xs) \<subseteq> set xs" for P and xs :: "string list"
    by (auto dest: set_takeWhileD set_dropWhileD)
  show ?case
  proof (cases "dropWhile (\<lambda>ch. \<not> cut_here ch) cs")
    case Nil
    then show ?thesis using tw(1) unfolding sanitize_chars.simps [of cs] Nil list.case append_Nil2 by blast
  next
    case (Cons ch r)
    have r: "set r \<subseteq> set cs" using tw(2) [of "\<lambda>ch. \<not> cut_here ch" cs] Cons by auto
    show ?thesis
    proof (cases "ch = ESCAPE \<and> r \<noteq> [] \<and> hd r = ''[''")
      case esc: True
      show ?thesis
      proof (cases "dropWhile (\<lambda>ch. \<not> csi_final ch) (tl r)")
        case Nil
        with esc have "sanitize_chars cs = takeWhile (\<lambda>ch. \<not> cut_here ch) cs"
          unfolding sanitize_chars.simps [of cs] Cons list.case Nil by simp
        with tw(1) show ?thesis by simp
      next
        case fin: (Cons f rest)
        have "set rest \<subseteq> set (tl r)" using tw(2) [of "\<lambda>ch. \<not> csi_final ch" "tl r"] fin by auto
        moreover have "set (tl r) \<subseteq> set r" by (cases r) auto
        ultimately have "set rest \<subseteq> set cs" using r by blast
        moreover from esc have "sanitize_chars cs = takeWhile (\<lambda>ch. \<not> cut_here ch) cs @ sanitize_chars rest"
          unfolding sanitize_chars.simps [of cs] Cons list.case fin by simp
        ultimately show ?thesis using 1(1) [OF Cons esc fin] tw(1) [of "\<lambda>ch. \<not> cut_here ch" cs] by simp
      qed
    next
      case False
      with 1(2) [OF Cons False] r Cons tw(1) [of _ cs] show ?thesis
        by (subst sanitize_chars.simps) (auto dest: set_takeWhileD)
    qed
  qed
qed

lemma sanitize_valid: "from_utf8 s = Utf8Ok \<Longrightarrow> from_utf8 (sanitize_user_text s) = Utf8Ok"
proof -
  assume s: "from_utf8 s = Utf8Ok"
  have "\<forall>ch\<in>set (chars s). from_utf8 ch = Utf8Ok"
    using chars_start [OF valid_str_start [OF s]] s by (intro valid_concat_parts) auto
  with sanitize_chars_subset [of "chars s"] show ?thesis
    unfolding sanitize_user_text_def by (intro valid_concat) blast
qed

lemma replace_crlf_skip: "CHR 0x0D \<notin> set x \<Longrightarrow> replace_crlf (x @ r) = x @ replace_crlf r"
proof (induction x)
  case (Cons a x)
  then show ?case by (cases "x @ r") auto
qed simp

text \<open>Reading one code point off a valid text: a carriage return, or bytes without one.\<close>

lemma valid_uncons:
  assumes "from_utf8 s = Utf8Ok" "s \<noteq> []"
  obtains x r where "s = x @ r" "x \<noteq> []" "from_utf8 x = Utf8Ok" "from_utf8 r = Utf8Ok" "x = [CHR 0x0D] \<or> CHR 0x0D \<notin> set x"
proof -
  obtain n where n: "utf8_first s = ValidChar n" "from_utf8 (drop n s) = Utf8Ok" using assms by (rule valid_ConsE)
  have n0: "0 < n" "n \<le> length s" using utf8_first_Valid [OF n(1)] by auto
  have v: "from_utf8 (take n s) = Utf8Ok"
    using valid_split(1) [of "take n s" "drop n s"] assms(1) valid_str_start [OF n(2)] by simp
  have "take n s = [CHR 0x0D] \<or> CHR 0x0D \<notin> set (take n s)"
  proof (cases "hd s = CHR 0x0D")
    case True
    then have "n = 1" using n(1) assms(2) by (cases s) (auto simp: utf8_width_def split: if_splits)
    with True assms(2) show ?thesis by (cases s) auto
  next
    case False
    have "take n s ! i \<noteq> CHR 0x0D" if "i < n" for i
    proof (cases i)
      case 0
      with False assms(2) n0 show ?thesis by (cases s) auto
    next
      case (Suc j)
      with utf8_first_continuation [OF n(1), of i] that show ?thesis by (auto simp: is_continuation_def)
    qed
    with n0 show ?thesis by (auto simp: in_set_conv_nth)
  qed
  with that [of "take n s" "drop n s"] n(2) v n0 assms(2) show thesis by simp
qed

lemma replace_crlf_valid: "from_utf8 s = Utf8Ok \<Longrightarrow> from_utf8 (replace_crlf s) = Utf8Ok"
proof (induction "length s" arbitrary: s rule: less_induct)
  case less
  show ?case
  proof (cases "s = []")
    case False
    with less.prems obtain x r where x: "s = x @ r" "x \<noteq> []" "from_utf8 x = Utf8Ok" "from_utf8 r = Utf8Ok"
      "x = [CHR 0x0D] \<or> CHR 0x0D \<notin> set x" by (rule valid_uncons)
    have shorter: "length r < length s" using x(1,2) by simp
    consider (plain) "CHR 0x0D \<notin> set x" | (crlf) q where "x = [CHR 0x0D]" "r = CHR 0x0A # q"
      | (cr) "x = [CHR 0x0D]" "r = [] \<or> hd r \<noteq> CHR 0x0A"
      using x(5) by (cases r) auto
    then show ?thesis
    proof cases
      case plain
      with x less.hyps [OF shorter x(4)] replace_crlf_skip [OF plain] show ?thesis by (simp add: valid_append)
    next
      case crlf
      have nl: "from_utf8 [CHR 0x0A] = Utf8Ok" by (rule ascii_valid) (simp add: ascii_def)
      have "str_start q"
        using valid_after_ascii(2) [OF x(4), of 0] crlf(2) boundary_iff [OF valid_str_start [OF x(4)], of 1] by simp
      then have "from_utf8 q = Utf8Ok" using valid_split(2) [of "[CHR 0x0A]" q] x(4) crlf(2) by simp
      with less.hyps [of q] x(1) crlf valid_append [OF nl] show ?thesis by simp
    next
      case cr
      then have "replace_crlf s = x @ replace_crlf r" using x(1) by (cases r) auto
      with less.hyps [OF shorter x(4)] x(3) show ?thesis by (simp add: valid_append)
    qed
  qed simp
qed

lemma normalize_valid:
  assumes "from_utf8 s = Utf8Ok"
  shows "from_utf8 (normalize_newlines s) = Utf8Ok"
proof -
  let ?f = "\<lambda>c. if c = CHR 0x0D then CHR 0x0A else c"
  have "from_utf8 t = Utf8Ok \<Longrightarrow> from_utf8 (map ?f t) = Utf8Ok" for t
  proof (induction "length t" arbitrary: t rule: less_induct)
    case less
    show ?case
    proof (cases "t = []")
      case False
      with less.prems obtain x r where x: "t = x @ r" "x \<noteq> []" "from_utf8 x = Utf8Ok" "from_utf8 r = Utf8Ok"
        "x = [CHR 0x0D] \<or> CHR 0x0D \<notin> set x" by (rule valid_uncons)
      have nl: "from_utf8 [CHR 0x0A] = Utf8Ok" by (rule ascii_valid) (simp add: ascii_def)
      have "map ?f x = x \<or> map ?f x = [CHR 0x0A]" using x(5) by (auto intro!: map_idI)
      then have "from_utf8 (map ?f x) = Utf8Ok"
        by (rule disjE) (simp_all only: nl x(3))
      moreover have "from_utf8 (map ?f r) = Utf8Ok" using less.hyps [of r] x by simp
      ultimately show ?thesis unfolding x(1) map_append by (rule valid_append)
    qed simp
  qed
  with replace_crlf_valid [OF assms] show ?thesis unfolding normalize_newlines_def by blast
qed

section \<open>Reading a paste back\<close>

lemma insert_element_plain:
  assumes wf: "wf_text_area ta" and es: "ta_elements ta = []" and s: "from_utf8 s = Utf8Ok" "s \<noteq> []"
  defines "p \<equiv> cursor_pos ta" and "ta' \<equiv> fst (insert_element ta s)"
  shows "wf_text_area ta'" "ta_text ta' = take p (ta_text ta) @ s @ drop p (ta_text ta)"
    "ta_elements ta' = [\<lparr>te_id = next_element_id ta, te_start = p, te_end = p + length s\<rparr>]"
proof -
  have p: "clamp_pos_for_insertion ta p = p"
    using clamp_nearest_id [OF wf_cursor [OF wf]] by (simp add: clamp_insertion p_def)
  show "wf_text_area ta'" unfolding ta'_def by (rule insert_element_wf [OF wf s])
  have keep: "ta_text (set_cursor a q) = ta_text a" "ta_elements (set_cursor a q) = ta_elements a" for a q
    by (simp_all add: set_cursor_def Let_def)
  let ?t = "insert_str_at ta p s"
  have "ta_elements ?t = []" "next_element_id ?t = next_element_id ta"
    "ta_text ?t = take p (ta_text ta) @ s @ drop p (ta_text ta)"
    using es p by (simp_all add: insert_str_at_def Let_def shift_elements_def)
  then show "ta_text ta' = take p (ta_text ta) @ s @ drop p (ta_text ta)"
    "ta_elements ta' = [\<lparr>te_id = next_element_id ta, te_start = p, te_end = p + length s\<rparr>]"
    by (simp_all add: ta'_def insert_element_def p_def [symmetric] p keep add_element_def take_element_id_def Let_def)
qed

text \<open>A draft whose only placeholder stands for a paste.\<close>

lemma expand_one_paste:
  assumes wf: "wf_text_area ta'" and tt: "ta_text ta' = take p s @ ph @ drop p s"
    and es: "ta_elements ta' = [\<lparr>te_id = i, te_start = p, te_end = p + length ph\<rparr>]" and p: "p \<le> length s" "ph \<noteq> []"
  shows "str_get (ta_text ta') (p, p + length ph) = Some ph"
    and "expand_pending_pastes (ta_text ta') [\<lparr>ue_start = p, ue_end = p + length ph, ue_placeholder = Some ph\<rparr>] [(ph, q)] =
      Some (take p s @ q @ drop p s, [])"
proof -
  have b: "is_char_boundary (ta_text ta') p" "is_char_boundary (ta_text ta') (p + length ph)"
    using wf_elements_ok [OF wf_els [OF wf]] es by (auto simp: elem_ok_def)
  have b0: "is_char_boundary (ta_text ta') 0" "is_char_boundary (ta_text ta') (length (ta_text ta'))"
    by (simp_all add: is_char_boundary_def)
  have len: "length (ta_text ta') = length s + length ph" using tt p by simp
  have sl: "str_slice (ta_text ta') (0, p) = take p s" "str_slice (ta_text ta') (p, p + length ph) = ph"
    "str_slice (ta_text ta') (p + length ph, length (ta_text ta')) = drop p s"
    using tt p by (simp_all add: str_slice_def)
  show g: "str_get (ta_text ta') (p, p + length ph) = Some ph" using str_get_Some [OF _ b] sl by simp
  have "str_get (ta_text ta') (0, p) = Some (take p s)"
    "str_get (ta_text ta') (p + length ph, length (ta_text ta')) = Some (drop p s)"
    using str_get_Some [OF _ b0(1) b(1)] str_get_Some [OF _ b(2) b0(2)] sl len p by simp_all
  with g len p show "expand_pending_pastes (ta_text ta') [\<lparr>ue_start = p, ue_end = p + length ph, ue_placeholder = Some ph\<rparr>]
      [(ph, q)] = Some (take p s @ q @ drop p s, [])"
    by (auto simp: expand_pending_pastes_def element_placeholder_def Let_def min_absorb1)
qed

lemma placeholder_valid: "from_utf8 (large_paste_base n) = Utf8Ok \<and> large_paste_base n \<noteq> []"
proof -
  have "ascii (show_nat k)" for k
    using show_nat_digits [of k] by (auto simp: ascii_def list_all_iff is_ascii_digit_def)
  then have "ascii (large_paste_base n)" by (simp add: large_paste_base_def ascii_def)
  then show ?thesis by (simp add: ascii_valid large_paste_base_def)
qed



end
