(* ===== verification/Spec2Isabelle.thy ===== *)
theory Spec2Isabelle
  imports Head_Tail_Buffer Exec_Policy Patch_Print Patch_Apply Plan_Stream Utf8_Stream
    History_Normalize Dangerous_Command Agent_Registry Circuit_Breaker Compact_Window
    Message_Framing Rollout_Ordinal Remote_Link Output_Truncation Network_State
    Task_Scheduler Shell_Environment Composer_Input
begin

text \<open>
  AvA is a coding agent that runs on the user's machine: it streams answers from a language model,
  shows them, executes the commands and applies the patches the model asks for, and keeps the
  conversation history it sends back. This development covers parts of its Rust core, under
  \<^verbatim>\<open>src/ava-rs\<close>, that decide something on their own, without the network or the operating
  system: what a patch means and what applying it does, which commands a policy lets through, what
  of a streamed answer becomes visible, which history the model gets to see and when it is compacted,
  how many agents may run, what becomes of the keys the user types, and how messages and records get through connections and files in pieces.

  \<^bold>\<open>Parts and theories.\<close>

  \<^item> \<^verbatim>\<open>Ava_Prelude\<close>: the operations of Rust strings, options and results the code uses, lemma
    collections, and the interfaces several parts share. \<^verbatim>\<open>incremental\<close> is a consumer of pieces
    that must not depend on how its input is cut; \<^verbatim>\<open>transducer\<close> is one that also emits output;
    \<^verbatim>\<open>iterator\<close> yields the elements of a list one by one; \<^verbatim>\<open>latch\<close> is a machine whose positive
    answer comes at most once until it is reset, and \<^verbatim>\<open>one_shot\<close> one that grants the first claim.
  \<^item> \<^verbatim>\<open>Patch_Types\<close>, \<^verbatim>\<open>Patch_Parser\<close>, \<^verbatim>\<open>Patch_Print\<close>: the patch language
    (\<^verbatim>\<open>apply-patch/src/parser.rs\<close>, \<^verbatim>\<open>streaming_parser.rs\<close>). The parser is a state machine
    fed by lines; \<^verbatim>\<open>streaming_parser\<close> is its state and \<^verbatim>\<open>process_line\<close> its step. It is an instance
    of \<^verbatim>\<open>incremental\<close>; what it accepts is well-formed; and it inverts a printer of the documented
    grammar.
  \<^item> \<^verbatim>\<open>Patch_Seek\<close>, \<^verbatim>\<open>Patch_Update\<close>: finding the lines of a chunk and computing the new
    contents (\<^verbatim>\<open>seek_sequence.rs\<close>, \<^verbatim>\<open>text_file.rs\<close>, \<^verbatim>\<open>file_update.rs\<close>). The search is
    sound and complete for its four passes; the mode that preserves line endings never panics and
    replaces exactly the lines it should; the legacy mode is a splice. Panics are values
    (\<^verbatim>\<open>UpdatePanic\<close>), so their absence is a theorem.
  \<^item> \<^verbatim>\<open>Patch_Apply\<close>: carrying a patch out (\<^verbatim>\<open>apply-patch/src/lib.rs\<close>) on a file system that is an
    argument of the model, a record of functions. \<^verbatim>\<open>fs_lawful\<close> says what is relied on. The delta that
    is reported can be replayed and undone whenever it is marked exact.
  \<^item> \<^verbatim>\<open>Exec_Policy\<close>: the command policy (\<^verbatim>\<open>execpolicy/src\<close>). Rules are kept in a multimap of
    another library, an argument with the interface \<^verbatim>\<open>multimap\<close>. The lemmas say which rules match,
    that the most severe decision wins, that overlays do not weaken, and what the edits of the
    rules file do.
  \<^item> \<^verbatim>\<open>Dangerous_Command\<close>: the classifier of dangerous commands
    (\<^verbatim>\<open>shell-command/src/command_safety/is_dangerous_command.rs\<close>), characterised by a relation
    between an invocation and the commands it runs.
  \<^item> \<^verbatim>\<open>Network_Host\<close>, \<^verbatim>\<open>Network_Domain\<close>, \<^verbatim>\<open>Network_Config\<close>, \<^verbatim>\<open>Network_State\<close>: which
    connections the proxy in front of executed commands lets through (\<^verbatim>\<open>network-proxy/src\<close>). Addresses
    are words, and the ones that are not public are exactly the stated blocks; comparing domain
    patterns is comparing the hosts they cover; a configuration that passes the managed constraints
    stays within them, and so does the shared state under every interleaving of reloads and updates
    (\<^verbatim>\<open>proxy_step\<close>); denials and local addresses cannot be overridden by a decider or by DNS.
  \<^item> \<^verbatim>\<open>Config_Merge\<close>, \<^verbatim>\<open>Config_Rules\<close>, \<^verbatim>\<open>Config_Layers\<close>: the configuration as a stack of
    layers (\<^verbatim>\<open>config/src/merge.rs\<close>, \<^verbatim>\<open>key_aliases.rs\<close>, \<^verbatim>\<open>overrides.rs\<close>, \<^verbatim>\<open>state.rs\<close> and what
    they use). TOML values are a datatype with ordered tables. The merge, whose recursion is on the
    overlay, is characterised by lookups: \<^verbatim>\<open>setting\<close> is the value at a path and \<^verbatim>\<open>probe\<close> what a
    layer says about it. The tables with rules of their own, filters, features, credentials and
    domains, each have their law. \<^verbatim>\<open>layered\<close> and \<^verbatim>\<open>layered_lookup\<close> are what the stack relies on when
    it folds its layers; \<^verbatim>\<open>stack_reachable\<close> are the stacks that its operations make.
  \<^item> \<^verbatim>\<open>Shell_Environment\<close>: the environment of executed commands
    (\<^verbatim>\<open>protocol/src/shell_environment.rs\<close>, \<^verbatim>\<open>core/src/exec_env.rs\<close>) under the policy read from the
    configuration: a closed form of the variables that reach a command, and that restricted ones
    never do.
  \<^item> \<^verbatim>\<open>Head_Tail_Buffer\<close>: the bounded output buffer of running commands
    (\<^verbatim>\<open>core/src/unified_exec/head_tail_buffer.rs\<close>) refines a summary of the whole output.
  \<^item> \<^verbatim>\<open>Inline_Tag\<close>, \<^verbatim>\<open>Plan_Stream\<close>, \<^verbatim>\<open>Utf8_Stream\<close>: the layers an answer passes while it is
    streamed (\<^verbatim>\<open>utils/stream-parser/src\<close>): bytes to text, text without hidden citations, text
    without plan blocks. The first two parsers are instances of \<^verbatim>\<open>transducer\<close>; the citation parser
    computes a specification on the whole text.
  \<^item> \<^verbatim>\<open>History_Normalize\<close>: pairing calls and outputs in the history
    (\<^verbatim>\<open>core/src/context_manager/normalize.rs\<close>).
  \<^item> \<^verbatim>\<open>Agent_Path\<close>: addresses of agents (\<^verbatim>\<open>protocol/src/agent_path.rs\<close>) are the paths of a tree.
  \<^item> \<^verbatim>\<open>Agent_Registry\<close>: the registry of agents (\<^verbatim>\<open>core/src/agent/registry.rs\<close>), which concurrent
    callers share. The operations are functions on the record \<^verbatim>\<open>registry\<close>; their atomic parts, with
    every round of the compare-and-exchange loop, are the steps of the relation \<^verbatim>\<open>registry_step\<close>, whose
    actors are waiting calls, reservations and pending releases. By induction on runs: the limit holds
    under every interleaving, the counter accounts for every slot, the two indices agree.
  \<^item> \<^verbatim>\<open>Circuit_Breaker\<close>: the breaker of the guardian reviewer
    (\<^verbatim>\<open>ext/guardian-reviewer/src/circuit_breaker.rs\<close>). Its bounded state per turn refines the list of
    all reviews of the turn; its interruption is a \<^verbatim>\<open>latch\<close>.
  \<^item> \<^verbatim>\<open>Compact_Window\<close>: when a conversation is compacted (\<^verbatim>\<open>core/src/state/auto_compact_window.rs\<close>,
    \<^verbatim>\<open>core/src/session/context_window.rs\<close>, \<^verbatim>\<open>token_budget.rs\<close>). The two claims of a window are
    instances of \<^verbatim>\<open>one_shot\<close>; the baseline of a window is determined by the calls; the decision agrees
    with the number of remaining tokens that is reported. 64-bit arithmetic is written out.
  \<^item> \<^verbatim>\<open>Output_Truncation\<close>: cutting tool output to a budget (\<^verbatim>\<open>utils/string/src/truncate.rs\<close>,
    \<^verbatim>\<open>utils/output-truncation/src/lib.rs\<close>). Texts lose whole code points in the middle, as few as the
    budget allows at each end, and the marker counts them; lists of items are accounted for.
  \<^item> \<^verbatim>\<open>Cron_Schedule\<close>, \<^verbatim>\<open>Task_Scheduler\<close>: scheduled tasks of the app server
    (\<^verbatim>\<open>app-server/src/scheduler/cron.rs\<close>, \<^verbatim>\<open>scheduler.rs\<close>). The parser of cron fields decides a grammar, and the
    search finds the first time that fires; the calendar is an argument. \<^verbatim>\<open>planner\<close> is what the
    scheduler relies on. Its calls are functions on the record \<^verbatim>\<open>scheduler\<close>, and their parts between
    locks the steps of \<^verbatim>\<open>sched_step\<close>: runs of a schedule exclude each other, schedules stay well-formed.
  \<^item> \<^verbatim>\<open>Message_Framing\<close>: messages in records of the Noise relay
    (\<^verbatim>\<open>exec-server/src/noise_relay/message_framing.rs\<close>), with lengths as 32-bit words: a round trip, and
    a bound on the memory of the decoder.
  \<^item> \<^verbatim>\<open>Reverse_Scanner\<close>, \<^verbatim>\<open>Rollout_Ordinal\<close>: reading a rollout file from its end
    (\<^verbatim>\<open>rollout/src/reverse_jsonl_scanner.rs\<close>) is an \<^verbatim>\<open>iterator\<close> over its lines; the ordinals of a
    resumed thread (\<^verbatim>\<open>ordinal.rs\<close>) continue those of the writer, even after a torn line.
  \<^item> \<^verbatim>\<open>Remote_Segment\<close>, \<^verbatim>\<open>Remote_Link\<close>: the remote-control transport
    (\<^verbatim>\<open>app-server-transport/src/transport/remote_control/segment.rs\<close>, \<^verbatim>\<open>websocket.rs\<close>). Splitting
    ends and sends complete segmentations, which reassembly inverts; the state of a connection stays
    consistent and bounded over all runs of its reader and writer; acknowledgements are cumulative, and
    a chunked message is handed on at most once (a \<^verbatim>\<open>latch\<close>).

  \<^item> \<^verbatim>\<open>Text_Area\<close>, \<^verbatim>\<open>Text_Editing\<close>: the text buffer of the composer
    (\<^verbatim>\<open>tui/src/bottom_pane/textarea.rs\<close>) without modal editing. \<^verbatim>\<open>text_area\<close> is its state: UTF-8 bytes, a
    cursor, and placeholders as byte ranges. Every edit is a splice (\<^verbatim>\<open>edited\<close>) that takes or leaves
    placeholders as a whole; \<^verbatim>\<open>wf_text_area\<close> is kept by every command and rules panics out; kills
    and yanks invert each other. \<^verbatim>\<open>draft_buffer\<close> is what the input path relies on.
  \<^item> \<^verbatim>\<open>Paste_Burst\<close>, \<^verbatim>\<open>Composer_Input\<close>: the state machine that tells pastes from typing
    (\<^verbatim>\<open>paste_burst.rs\<close>) and the input path of the composer that runs it in front of the buffer
    (\<^verbatim>\<open>chat_composer.rs\<close>, \<^verbatim>\<open>chat_composer/paste_input.rs\<close>). \<^verbatim>\<open>drafting\<close> relates what was typed to the text
    in the buffer and in flight: nothing is lost or reordered, whatever the timing. Large pastes,
    kept behind placeholders, are read back in place.

  This theory holds the results that span several of these parts: a patch run as a whole, and the
  UTF-8 layer on top of the citation parser.

  \<^bold>\<open>Conventions.\<close> Texts are byte strings, as Rust's strings are; positions are byte positions.
  Errors and panics are values of sum types. \<^verbatim>\<open>usize\<close> counters that saturate in the code saturate
  at \<open>2 ^ 64 - 1\<close>; other indices are natural numbers, with every subtraction and slice that can fail
  written out as a branch. Asynchronous functions are functions: each run is the only one that
  touches its state, except in the registry of agents, the network proxy and the task scheduler, where the
  interleaving is modelled. Functions of libraries (JSON, hashes, base64, globs, wildcards, derived deserializers, Unicode case
  mapping, grapheme boundaries, URL hosts, DNS, the random choice, fresh identifiers, the clock) are arguments, and
  what is relied on is a named predicate. Loops are structural recursions, or have a termination proof, except
  \<^verbatim>\<open>hidden_loop\<close>, the loop over hidden tags, which runs on fuel: its caller gives one more than
  the length of the pending text, each round but the last consumes a delimiter, which is not empty,
  and the results include that the fuel is enough; and \<^verbatim>\<open>last_valid_record\<close>, the loop over the
  records of a file, where more fuel than lines is enough. \<open>error_or_panic\<close> of the history is modelled as in release
  builds, where it logs.

  \<^bold>\<open>Divergences\<close> that came up are theorems: a rename onto itself removes the file
  (\<^verbatim>\<open>move_onto_itself_loses_file\<close>), repairing one orphan makes the removal of others hit the wrong
  item (\<^verbatim>\<open>repair_removes_wrong_items\<close>), a legacy update can lose an insertion
  (\<^verbatim>\<open>legacy_insertion_lost\<close>), a rejected update of a scheduled task changes it
  (\<^verbatim>\<open>rejected_update_changes_schedule\<close>), the file of scheduled tasks can lose one
  (\<^verbatim>\<open>store_can_lose_schedule\<close>), a due task can be started twice (\<^verbatim>\<open>due_run_can_start_twice\<close>),
  a setting that was replaced keeps its origin (\<^verbatim>\<open>origin_of_replaced_path\<close>), another spelling of
  the session variable survives on Windows (\<^verbatim>\<open>session_id_spelling_stays\<close>), characters outside ASCII do not keep a paste
  burst alive (\<^verbatim>\<open>non_ascii_does_not_extend_burst\<close>), and hidden tags whose openers overlap depend on the cuts
  (\<^verbatim>\<open>overlapping_tags_depend_on_cuts\<close>).

  \<^bold>\<open>Not modelled.\<close> The session loop, servers, clients and storage are asynchronous I/O around
  the parts above; the rest of the terminal interface is rendering; sandboxes are operating system calls. Rule
  files are Starlark programs, and shell command lines are parsed by tree-sitter grammars, both
  outside libraries; where a part uses their results these are arguments. Of the parts above,
  the unified diff for display, the stripping of images and audio and the token estimates of the
  history, the activation of the token budget and the connection handling of the remote-control
  websocket are left out. Of the network proxy, the listeners, TLS interception with its hooks and the
  credential broker are left out: the validity of a hook is an argument. Of the configuration, finding and
  reading the files, the typed structures that the effective value is deserialized into and the
  composition of requirements are left out. Of the composer, modal editing, movements by word and by
  visual line, history, attachments, slash commands and submission are left out.

  \<^bold>\<open>Next.\<close> The intersection of permission profiles and the composition of requirements, a specification of plan blocks on whole texts and of the
  composed assistant parser, the Windows rules of the command classifier.
\<close>

section \<open>Properties across components\<close>


text \<open>The bytes of a valid text, cut anywhere and sent through the UTF-8 layer into the
  citation parser, are never rejected; finishing succeeds, and together the output is the visible
  text and the citations of the whole text.\<close>

theorem byte_stream_citations:
  assumes "from_utf8 (concat chunks) = Utf8Ok"
  shows "\<exists>p out q tail. push_all citation_feed (utf8_new citation_new) chunks = Some (p, out) \<and>
    utf8_finish citation_feed citation_finish p = (q, Inr tail) \<and>
    (visible_text (append_chunk out tail), extracted (append_chunk out tail)) = citation_spec (concat chunks)"
proof -
  obtain texts where cat: "concat texts = concat chunks"
    and push: "push_all citation_feed (utf8_new citation_new) chunks =
      Some (utf8_new (fst (feed_chunks citation_feed append_chunk empty_text_chunk citation_new texts)),
            snd (feed_chunks citation_feed append_chunk empty_text_chunk citation_new texts))"
    using push_all_valid [of "utf8_new citation_new" chunks citation_feed] assms
    by (auto simp: utf8_new_def waiting_def)
  obtain p out where f: "feed_chunks citation_feed append_chunk empty_text_chunk citation_new texts = (p, out)"
    by fastforce
  obtain q tail where q: "citation_finish p = (q, tail)" by fastforce
  have "check_pending [] = Inr ()" by code_simp
  then have "utf8_finish citation_feed citation_finish (utf8_new p) = (utf8_new q, Inr tail)"
    using q by (simp add: utf8_finish_def utf8_new_def append_chunk_def empty_text_chunk_def)
  moreover have "(visible_text (append_chunk out tail), extracted (append_chunk out tail)) = citation_spec (concat chunks)"
    using citation_feed_complete [of texts] f q cat by (simp add: append_chunk_def)
  ultimately show ?thesis using push f by simp
qed

theorem byte_stream_citations_witness:
  "\<exists>p out q tail. push_all citation_feed (utf8_new citation_new) [[CHR 0xC3], [CHR 0xA9]] = Some (p, out) \<and>
    utf8_finish citation_feed citation_finish p = (q, Inr tail) \<and>
    (visible_text (append_chunk out tail), extracted (append_chunk out tail)) =
      citation_spec (concat [[CHR 0xC3], [CHR 0xA9]])"
  by (rule byte_stream_citations) code_simp

end
